(* ===== verification/Prelude.thy ===== *)
theory Prelude
  imports Main "HOL-Library.Word" "HOL-Library.While_Combinator"
begin

text \<open>
  Shared vocabulary of the development: bytes and byte strings, the slice operations of Rust
  that answer an option instead of panicking, checked arithmetic at a given width, and the
  decimal notation that both the reader and the writer of FIX fields use. The generic lemmas
  live here; the collections \<open>bytes_eval\<close> and \<open>slice_simps\<close> gather the
  rewrite rules that the component theories pass to the simplifier.
\<close>

named_theorems bytes_eval
named_theorems slice_simps

subsection \<open>Bytes\<close>

type_synonym byte = "8 word"
type_synonym bytes = "byte list"

text \<open>\<open>b s\<close> is the Rust byte-string literal with the characters of \<open>s\<close>.\<close>

definition b :: "string \<Rightarrow> bytes" where
  "b s = map of_char s"

lemma b_simps [bytes_eval]: "b [] = []" "b (c # s) = of_char c # b s"
  by (simp_all add: b_def)

abbreviation SOH :: byte where "SOH \<equiv> 1"
abbreviation EQ_SIGN :: byte where "EQ_SIGN \<equiv> 61"
abbreviation ZERO :: byte where "ZERO \<equiv> 48"

text \<open>Rust's \<open>u8::is_ascii_digit\<close>, and the digit read by \<open>wrapping_sub(b'0')\<close>.\<close>

definition is_ascii_digit :: "byte \<Rightarrow> bool" where
  "is_ascii_digit c \<longleftrightarrow> 48 \<le> c \<and> c \<le> 57"

definition digit_of :: "byte \<Rightarrow> nat" where
  "digit_of c = unat (c - ZERO)"

definition digit_byte :: "nat \<Rightarrow> byte" where
  "digit_byte d = ZERO + of_nat d"

lemma digit_of_byte [simp]: "d < 10 \<Longrightarrow> digit_of (digit_byte d) = d"
  by (simp add: digit_of_def digit_byte_def unat_of_nat)

lemma digit_of_le_9_iff: "digit_of c \<le> 9 \<longleftrightarrow> is_ascii_digit c"
proof -
  have "digit_of c \<le> 9 \<longleftrightarrow> c - 48 \<le> 9"
    by (simp add: digit_of_def word_le_nat_alt)
  also have "\<dots> \<longleftrightarrow> 48 \<le> c \<and> c \<le> 57"
    using unsigned_less [of c] by unat_arith auto
  finally show ?thesis
    by (simp add: is_ascii_digit_def)
qed

lemma unat_digit_byte: "d < 10 \<Longrightarrow> unat (digit_byte d) = 48 + d"
  by (simp add: digit_byte_def unat_word_ariths unat_of_nat)

lemma is_ascii_digit_byte [simp]: "d < 10 \<Longrightarrow> is_ascii_digit (digit_byte d)"
  by (simp add: is_ascii_digit_def word_le_nat_alt unat_digit_byte)

lemma digit_byte_of: "is_ascii_digit c \<Longrightarrow> digit_byte (digit_of c) = c"
  by (simp add: digit_byte_def digit_of_def)

lemma digit_of_less_10: "is_ascii_digit c \<Longrightarrow> digit_of c < 10"
  using digit_of_le_9_iff [of c] by simp

lemma digit_ne_control [simp]:
  "is_ascii_digit c \<Longrightarrow> c \<noteq> SOH" "is_ascii_digit c \<Longrightarrow> c \<noteq> EQ_SIGN"
  "is_ascii_digit c \<Longrightarrow> c \<noteq> 45" "is_ascii_digit c \<Longrightarrow> c \<noteq> 46"
  by (auto simp: is_ascii_digit_def word_le_nat_alt)

subsection \<open>Slices\<close>

text \<open>\<open>xs.get(i)\<close>, \<open>xs.get(lo..hi)\<close>, \<open>xs.get(lo..)\<close> and
  \<open>iter().position(p)\<close>.\<close>

definition nth_opt :: "'a list \<Rightarrow> nat \<Rightarrow> 'a option" where
  "nth_opt xs i = (if i < length xs then Some (xs ! i) else None)"

definition get_range :: "'a list \<Rightarrow> nat \<Rightarrow> nat \<Rightarrow> 'a list option" where
  "get_range xs lo hi = (if lo \<le> hi \<and> hi \<le> length xs then Some (take (hi - lo) (drop lo xs)) else None)"

definition get_from :: "'a list \<Rightarrow> nat \<Rightarrow> 'a list option" where
  "get_from xs lo = (if lo \<le> length xs then Some (drop lo xs) else None)"

fun position :: "('a \<Rightarrow> bool) \<Rightarrow> 'a list \<Rightarrow> nat option" where
  "position p [] = None"
| "position p (x # xs) = (if p x then Some 0 else map_option Suc (position p xs))"

text \<open>\<open>out.get_mut(w..w + n)?.copy_from_slice(src)\<close>: \<open>None\<close> when the slice does not fit.\<close>

definition write_at :: "'a list \<Rightarrow> nat \<Rightarrow> 'a list \<Rightarrow> 'a list option" where
  "write_at out w src =
     (if w + length src \<le> length out then Some (take w out @ src @ drop (w + length src) out) else None)"

lemma nth_opt_None [simp]: "nth_opt xs i = None \<longleftrightarrow> length xs \<le> i"
  by (simp add: nth_opt_def)

lemma nth_opt_Some: "nth_opt xs i = Some x \<longleftrightarrow> i < length xs \<and> xs ! i = x"
  by (simp add: nth_opt_def)

lemma nth_opt_simps [slice_simps]:
  "nth_opt [] i = None" "nth_opt (x # xs) 0 = Some x" "nth_opt (x # xs) (Suc i) = nth_opt xs i"
  by (simp_all add: nth_opt_def)

lemma nth_opt_drop: "nth_opt (drop k xs) i = nth_opt xs (k + i)"
  by (auto simp: nth_opt_def)

lemma nth_opt_append: "nth_opt (xs @ ys) i = (if i < length xs then Some (xs ! i) else nth_opt ys (i - length xs))"
  by (auto simp: nth_opt_def nth_append)

lemma get_range_length: "get_range xs lo hi = Some ys \<Longrightarrow> length ys = hi - lo \<and> hi \<le> length xs \<and> lo \<le> hi"
  by (auto simp: get_range_def split: if_splits)

lemma get_range_append: "hi \<le> length xs \<Longrightarrow> get_range (xs @ ys) lo hi = get_range xs lo hi"
  by (auto simp: get_range_def)

lemma position_SomeD:
  "position p xs = Some i \<Longrightarrow> i < length xs \<and> p (xs ! i) \<and> (\<forall>j < i. \<not> p (xs ! j))"
proof (induction xs arbitrary: i)
  case (Cons x xs)
  show ?case
  proof (cases "p x")
    case False
    with Cons.prems obtain k where "position p xs = Some k" "i = Suc k"
      by auto
    with Cons.IH [of k] False show ?thesis
      by (auto simp: less_Suc_eq_0_disj)
  qed (use Cons.prems in auto)
qed simp

lemma position_None_iff: "position p xs = None \<longleftrightarrow> (\<forall>x \<in> set xs. \<not> p x)"
  by (induction xs) auto

lemma position_append:
  "position p (xs @ ys) = (case position p xs of Some i \<Rightarrow> Some i | None \<Rightarrow> map_option (\<lambda>i. length xs + i) (position p ys))"
  by (cases "position p ys"; induction xs) (auto split: option.splits)

lemma position_skip:
  "\<forall>x \<in> set xs. \<not> p x \<Longrightarrow> p y \<Longrightarrow> position p (xs @ y # ys) = Some (length xs)"
  by (induction xs) auto

lemma write_at_length: "write_at out w src = Some out' \<Longrightarrow> length out' = length out"
  by (auto simp: write_at_def split: if_splits)

lemma write_at_take:
  "write_at out w src = Some out' \<Longrightarrow> take (w + length src) out' = take w out @ src \<and> take w out' = take w out"
  by (auto simp: write_at_def split: if_splits)

lemma write_at_drop:
  "write_at out w src = Some out' \<Longrightarrow> w + length src \<le> k \<Longrightarrow> drop k out' = drop k out"
  by (auto simp: write_at_def split: if_splits)

subsection \<open>Checked and wrapping arithmetic\<close>

text \<open>Unsigned machine integers are natural numbers with the width written out at each operation
  that can leave it.\<close>

abbreviation U16_MAX :: nat where "U16_MAX \<equiv> 65535"
abbreviation U32_MAX :: nat where "U32_MAX \<equiv> 4294967295"
abbreviation U64_MAX :: nat where "U64_MAX \<equiv> 18446744073709551615"

definition checked_add :: "nat \<Rightarrow> nat \<Rightarrow> nat \<Rightarrow> nat option" where
  "checked_add m x y = (if x + y \<le> m then Some (x + y) else None)"

definition checked_mul :: "nat \<Rightarrow> nat \<Rightarrow> nat \<Rightarrow> nat option" where
  "checked_mul m x y = (if x * y \<le> m then Some (x * y) else None)"

definition wrap32 :: "nat \<Rightarrow> nat" where
  "wrap32 n = n mod 4294967296"

definition wrap16 :: "nat \<Rightarrow> nat" where
  "wrap16 n = n mod 65536"

lemma wrap32_id [simp]: "n \<le> U32_MAX \<Longrightarrow> wrap32 n = n"
  by (simp add: wrap32_def)

lemma wrap32_bound [simp]: "wrap32 n \<le> U32_MAX"
  using mod_less_divisor [of 4294967296 n] by (simp add: wrap32_def)

lemma wrap16_id [simp]: "n \<le> U16_MAX \<Longrightarrow> wrap16 n = n"
  by (simp add: wrap16_def)

text \<open>One step of a decimal reader: \<open>n.checked_mul(10).and_then(|n| n.checked_add(d))\<close>.\<close>

definition push_digit :: "nat \<Rightarrow> nat \<Rightarrow> nat \<Rightarrow> nat option" where
  "push_digit m n d = Option.bind (checked_mul m n 10) (\<lambda>k. checked_add m k d)"

lemma push_digit_eq: "push_digit m n d = (if n * 10 + d \<le> m then Some (n * 10 + d) else None)"
  by (auto simp: push_digit_def checked_mul_def checked_add_def)

subsection \<open>Decimal notation\<close>

text \<open>The value of a string of digits, and the canonical digits of a number.\<close>

definition dec_value :: "bytes \<Rightarrow> nat" where
  "dec_value ds = foldl (\<lambda>n c. n * 10 + digit_of c) 0 ds"

definition all_digits :: "bytes \<Rightarrow> bool" where
  "all_digits ds \<longleftrightarrow> (\<forall>c \<in> set ds. is_ascii_digit c)"

fun dec_digits :: "nat \<Rightarrow> bytes" where
  "dec_digits n = (if n < 10 then [digit_byte n] else dec_digits (n div 10) @ [digit_byte (n mod 10)])"

declare dec_digits.simps [simp del]

lemma dec_value_Nil [simp]: "dec_value [] = 0"
  by (simp add: dec_value_def)

lemma dec_value_snoc [simp]: "dec_value (ds @ [c]) = dec_value ds * 10 + digit_of c"
  by (simp add: dec_value_def)

lemma foldl_dec: "foldl (\<lambda>n c. n * 10 + digit_of c) k ds = k * 10 ^ length ds + dec_value ds"
  by (induction ds rule: rev_induct) simp_all

lemma dec_value_Cons: "dec_value (c # ds) = digit_of c * 10 ^ length ds + dec_value ds"
  using foldl_dec [of "digit_of c" ds] by (simp add: dec_value_def)

lemma dec_value_append: "dec_value (xs @ ys) = dec_value xs * 10 ^ length ys + dec_value ys"
  using foldl_dec [of "dec_value xs" ys] by (simp add: dec_value_def)

lemma all_digits_simps [simp]:
  "all_digits []" "all_digits (c # ds) \<longleftrightarrow> is_ascii_digit c \<and> all_digits ds"
  "all_digits (xs @ ys) \<longleftrightarrow> all_digits xs \<and> all_digits ys"
  by (auto simp: all_digits_def)

lemma dec_value_dec_digits [simp]: "dec_value (dec_digits n) = n"
  by (induction n rule: dec_digits.induct) (subst dec_digits.simps, auto simp: dec_value_def)

lemma all_digits_dec_digits [simp]: "all_digits (dec_digits n)"
  by (induction n rule: dec_digits.induct) (subst dec_digits.simps, auto)

lemma dec_digits_ne [simp]: "dec_digits n \<noteq> []"
  by (subst dec_digits.simps) simp

lemma dec_digits_snoc: "10 \<le> n \<Longrightarrow> dec_digits n = dec_digits (n div 10) @ [digit_byte (n mod 10)]"
  by (subst dec_digits.simps) simp

lemma dec_digits_small: "n < 10 \<Longrightarrow> dec_digits n = [digit_byte n]"
  by (subst dec_digits.simps) simp

lemma length_dec_digits_le: "n < 10 ^ k \<Longrightarrow> 0 < k \<Longrightarrow> length (dec_digits n) \<le> k"
proof (induction n arbitrary: k rule: dec_digits.induct)
  case (1 n)
  show ?case
  proof (cases "n < 10")
    case True
    with 1 show ?thesis by (simp add: dec_digits_small)
  next
    case False
    with 1(2) have k: "1 < k" by (cases k; cases "k - 1") auto
    with False 1(2) have "n div 10 < 10 ^ (k - 1)"
      by (cases k) (auto simp: div_less_iff_less_mult mult.commute)
    with 1(1) [OF False, of "k - 1"] k have "length (dec_digits (n div 10)) \<le> k - 1" by simp
    with False k show ?thesis by (simp add: dec_digits_snoc)
  qed
qed

lemma SOH_notin_digits: "all_digits ds \<Longrightarrow> SOH \<notin> set ds"
  using digit_ne_control(1) [of SOH] by (auto simp: all_digits_def)

lemma EQ_notin_digits: "all_digits ds \<Longrightarrow> EQ_SIGN \<notin> set ds"
  using digit_ne_control(2) [of EQ_SIGN] by (auto simp: all_digits_def)

subsection \<open>Results\<close>

text \<open>A fallible operation answers \<open>'e + 'a\<close> with \<open>Inl\<close> for the error; \<open>bindR\<close> is
  the \<open>?\<close> operator.\<close>

definition bindR :: "'e + 'a \<Rightarrow> ('a \<Rightarrow> 'e + 'c) \<Rightarrow> 'e + 'c" where
  "bindR r f = (case r of Inl e \<Rightarrow> Inl e | Inr x \<Rightarrow> f x)"

lemma bindR_simps [simp]: "bindR (Inl e) f = Inl e" "bindR (Inr x) f = f x"
  by (simp_all add: bindR_def)

lemma bindR_Inr_iff: "bindR r f = Inr y \<longleftrightarrow> (\<exists>x. r = Inr x \<and> f x = Inr y)"
  by (cases r) auto

lemma bindR_Inl_iff: "bindR r f = Inl e \<longleftrightarrow> r = Inl e \<or> (\<exists>x. r = Inr x \<and> f x = Inl e)"
  by (cases r) auto

text \<open>\<open>ok_or\<close> turns an absent value into an error.\<close>

definition ok_or :: "'a option \<Rightarrow> 'e \<Rightarrow> 'e + 'a" where
  "ok_or m e = (case m of None \<Rightarrow> Inl e | Some x \<Rightarrow> Inr x)"

lemma ok_or_simps [simp]: "ok_or None e = Inl e" "ok_or (Some x) e = Inr x"
  by (simp_all add: ok_or_def)

lemma ok_or_Inr_iff: "ok_or m e = Inr x \<longleftrightarrow> m = Some x"
  by (cases m) auto

text \<open>A \<open>for\<close> loop whose body may leave with \<open>?\<close>.\<close>

fun foldR :: "('x \<Rightarrow> 's \<Rightarrow> 'e + 's) \<Rightarrow> 'x list \<Rightarrow> 's \<Rightarrow> 'e + 's" where
  "foldR f [] s = Inr s"
| "foldR f (x # xs) s = bindR (f x s) (foldR f xs)"

lemma foldR_append: "foldR f (xs @ ys) s = bindR (foldR f xs s) (foldR f ys)"
  by (induction xs arbitrary: s) (auto simp: bindR_def split: sum.splits)

lemma foldR_inv:
  assumes "foldR f xs s = Inr s'" "P s"
    and "\<And>x s s'. x \<in> set xs \<Longrightarrow> f x s = Inr s' \<Longrightarrow> P s \<Longrightarrow> P s'"
  shows "P s'"
  using assms by (induction xs arbitrary: s) (auto simp: bindR_Inr_iff)

end
