(* ===== verification/Dict.thy ===== *)
theory Dict
  imports Prelude
begin

text \<open>
  \<open>crates/codec/src/dict.rs\<close>: the questions the codec asks of a FIX dictionary. The trait has
  associated functions only, so an implementation is a value of the record below; the generated
  tables of \<open>crates/dict\<close> are a parameter of the model, and \<open>NoDict\<close> is the one
  implementation the codec carries itself. The laws the codec relies on are the assumptions of
  the locale \<open>dict_laws\<close>.
\<close>

record dictionary =
  is_header :: "nat \<Rightarrow> bool"
  data_length_tag :: "nat \<Rightarrow> nat option"
  group_delimiter :: "bytes \<Rightarrow> nat \<Rightarrow> nat option"
  group_members :: "bytes \<Rightarrow> nat \<Rightarrow> nat list"
  group_order :: "bytes \<Rightarrow> nat \<Rightarrow> nat list"

definition NoDict :: dictionary where
  "NoDict = \<lparr>is_header = (\<lambda>_. False), data_length_tag = (\<lambda>_. None),
     group_delimiter = (\<lambda>_ _. None), group_members = (\<lambda>_ _. []), group_order = (\<lambda>_ _. [])\<rparr>"

text \<open>
  What a dictionary promises the codec: the three frame tags are not DATA fields, a length field
  is not itself a DATA field and is not one of the frame tags, and a group's declaration order
  starts with its delimiter.
\<close>

locale dict_laws =
  fixes D :: "('z) dictionary_scheme"
  assumes frame_not_data: "tag \<in> {8, 9, 10} \<Longrightarrow> data_length_tag D tag = None"
    and length_not_data: "data_length_tag D tag = Some l \<Longrightarrow> data_length_tag D l = None"
    and length_not_frame: "data_length_tag D tag = Some l \<Longrightarrow> l \<notin> {8, 9, 10}"
    and order_starts_with_delimiter:
      "group_delimiter D mt c = Some d \<Longrightarrow> \<exists>rest. group_order D mt c = d # rest"

interpretation no_dict: dict_laws NoDict
  by unfold_locales (simp_all add: NoDict_def)

end
