(* ===== verification/Index.thy ===== *)
theory Index
  imports Dict
begin

text \<open>
  \<open>crates/codec/src/index.rs\<close>: the field index a parse fills, the view that reads values
  through it, and the conversions of a value to a number. \<open>FieldIndex<N>\<close> is an array of
  \<open>N\<close> entries with a count; the entries past the count are never read, so the model keeps the
  live prefix as a list beside the capacity \<open>N\<close>. The count is a \<open>u16\<close>: in an index of 65536
  entries or more the push that makes it 65536 wraps it to zero, and the live prefix is empty again
  (a build with overflow checks stops there instead).
\<close>

subsection \<open>Errors of the parser and of the conversions\<close>

datatype parse_error =
    BadFrameStart
  | BadTag nat
  | TooManyFields
  | MissingLengthField nat
  | LengthOutOfBounds nat
  | BadBodyLength
  | BadCheckSum
  | FieldTooLong nat

datatype convert_error = NotANumber | Overflow | NotOneByte

subsection \<open>The index\<close>

record field_entry =
  fe_tag :: nat
  fe_offset :: nat
  fe_len :: nat

record field_index =
  fi_cap :: nat
  fi_fields :: "field_entry list"

definition FieldIndex_new :: "nat \<Rightarrow> field_index" where
  "FieldIndex_new n = \<lparr>fi_cap = n, fi_fields = []\<rparr>"

definition fi_len :: "field_index \<Rightarrow> nat" where
  "fi_len idx = length (fi_fields idx)"

definition fi_is_empty :: "field_index \<Rightarrow> bool" where
  "fi_is_empty idx \<longleftrightarrow> fi_len idx = 0"

definition fi_clear :: "field_index \<Rightarrow> field_index" where
  "fi_clear idx = idx\<lparr>fi_fields := []\<rparr>"

definition fi_entries :: "field_index \<Rightarrow> field_entry list" where
  "fi_entries idx = fi_fields idx"

definition fi_push :: "nat \<Rightarrow> nat \<Rightarrow> nat \<Rightarrow> field_index \<Rightarrow> parse_error + field_index" where
  "fi_push tag offset len idx =
     (if len > U16_MAX then Inl (FieldTooLong tag)
      else if fi_len idx \<ge> fi_cap idx then Inl TooManyFields
      else
        let fields = fi_fields idx @ [\<lparr>fe_tag = tag, fe_offset = wrap32 offset, fe_len = len\<rparr>] in
        Inr (idx\<lparr>fi_fields := (if length fields > U16_MAX then [] else fields)\<rparr>))"

definition fi_last :: "field_index \<Rightarrow> field_entry option" where
  "fi_last idx = (if fi_fields idx = [] then None else Some (last (fi_fields idx)))"

text \<open>The representation invariant: the count stays within the capacity and every entry fits the
  widths of its fields.\<close>

definition fi_ok :: "field_index \<Rightarrow> bool" where
  "fi_ok idx \<longleftrightarrow> fi_len idx \<le> fi_cap idx \<and>
     (\<forall>e \<in> set (fi_fields idx). fe_offset e \<le> U32_MAX \<and> fe_len e \<le> U16_MAX)"

lemma fi_push_InrD:
  "fi_push tag off len idx = Inr idx' \<Longrightarrow>
     fi_fields idx' \<in> {[], fi_fields idx @ [\<lparr>fe_tag = tag, fe_offset = wrap32 off, fe_len = len\<rparr>]} \<and>
     fi_cap idx' = fi_cap idx \<and> len \<le> U16_MAX \<and> fi_len idx < fi_cap idx"
  by (auto simp: fi_push_def Let_def split: if_splits)

lemma fi_push_room:
  assumes "fi_len idx < fi_cap idx" "fi_len idx < U16_MAX" "len \<le> U16_MAX" "off \<le> U32_MAX"
  shows "fi_push tag off len idx =
    Inr (idx\<lparr>fi_fields := fi_fields idx @ [\<lparr>fe_tag = tag, fe_offset = off, fe_len = len\<rparr>]\<rparr>)"
  using assms by (simp add: fi_push_def fi_len_def Let_def)

lemma fi_push_ok: "fi_ok idx \<Longrightarrow> fi_push tag off len idx = Inr idx' \<Longrightarrow> fi_ok idx'"
  by (auto simp: fi_ok_def fi_len_def dest!: fi_push_InrD)

lemma fi_new_ok: "fi_ok (FieldIndex_new n)"
  by (simp add: fi_ok_def FieldIndex_new_def fi_len_def)

lemma fi_clear_ok: "fi_ok (fi_clear idx)"
  by (simp add: fi_ok_def fi_clear_def fi_len_def)

subsection \<open>The view\<close>

record message_view =
  mv_buf :: bytes
  mv_idx :: field_index

definition fi_view :: "field_index \<Rightarrow> bytes \<Rightarrow> message_view" where
  "fi_view idx buf = \<lparr>mv_buf = buf, mv_idx = idx\<rparr>"

definition value_of :: "message_view \<Rightarrow> field_entry \<Rightarrow> bytes option" where
  "value_of v e = get_range (mv_buf v) (fe_offset e) (fe_offset e + fe_len e)"

definition mv_len :: "message_view \<Rightarrow> nat" where
  "mv_len v = fi_len (mv_idx v)"

definition mv_entries :: "message_view \<Rightarrow> field_entry list" where
  "mv_entries v = fi_entries (mv_idx v)"

definition mv_get :: "message_view \<Rightarrow> nat \<Rightarrow> bytes option" where
  "mv_get v tag = Option.bind (find (\<lambda>e. fe_tag e = tag) (mv_entries v)) (value_of v)"

definition field_at :: "message_view \<Rightarrow> nat \<Rightarrow> (nat \<times> bytes) option" where
  "field_at v i = Option.bind (nth_opt (mv_entries v) i)
     (\<lambda>e. map_option (\<lambda>x. (fe_tag e, x)) (value_of v e))"

definition find_from :: "message_view \<Rightarrow> nat \<Rightarrow> nat \<Rightarrow> (nat \<times> bytes) option" where
  "find_from v from tag =
     Option.bind (find (\<lambda>(i, e). fe_tag e = tag) (drop from (enumerate 0 (mv_entries v))))
       (\<lambda>(i, e). map_option (\<lambda>x. (i, x)) (value_of v e))"

text \<open>The fields a view shows, in wire order; the reference against which the lookups are stated.\<close>

definition mv_fields :: "message_view \<Rightarrow> (nat \<times> bytes option) list" where
  "mv_fields v = map (\<lambda>e. (fe_tag e, value_of v e)) (mv_entries v)"

lemma mv_get_eq: "mv_get v tag = Option.bind (map_of (mv_fields v) tag) id"
proof -
  have "Option.bind (find (\<lambda>e. fe_tag e = tag) es) (value_of v) =
        Option.bind (map_of (map (\<lambda>e. (fe_tag e, value_of v e)) es) tag) id" for es
    by (induction es) auto
  then show ?thesis by (simp add: mv_get_def mv_fields_def)
qed

lemma field_at_eq:
  "field_at v i = Option.bind (nth_opt (mv_fields v) i) (\<lambda>(t, x). map_option (Pair t) x)"
  by (auto simp: field_at_def mv_fields_def nth_opt_def)

lemma length_mv_fields [simp]: "length (mv_fields v) = mv_len v"
  by (simp add: mv_fields_def mv_len_def mv_entries_def fi_entries_def fi_len_def)

subsection \<open>Numbers\<close>

fun as_u32_loop :: "bytes \<Rightarrow> nat \<Rightarrow> bool \<Rightarrow> convert_error + nat" where
  "as_u32_loop [] n overflow = (if overflow then Inl Overflow else Inr n)"
| "as_u32_loop (c # cs) n overflow =
     (let d = digit_of c in
      if d > 9 then Inl NotANumber
      else if \<not> overflow then
        (case push_digit U32_MAX n d of
           Some m \<Rightarrow> as_u32_loop cs m overflow
         | None \<Rightarrow> as_u32_loop cs n True)
      else as_u32_loop cs n overflow)"

definition as_u32 :: "bytes \<Rightarrow> convert_error + nat" where
  "as_u32 value = (if value = [] then Inl NotANumber else as_u32_loop value 0 False)"

abbreviation I64_MAX :: int where "I64_MAX \<equiv> 9223372036854775807"
abbreviation I64_MIN :: int where "I64_MIN \<equiv> - 9223372036854775808"

definition checked_i64 :: "int \<Rightarrow> int option" where
  "checked_i64 x = (if I64_MIN \<le> x \<and> x \<le> I64_MAX then Some x else None)"

fun as_i64_loop :: "bytes \<Rightarrow> int \<Rightarrow> bool \<Rightarrow> convert_error + int" where
  "as_i64_loop [] n overflow = (if overflow then Inl Overflow else Inr n)"
| "as_i64_loop (c # cs) n overflow =
     (let d = digit_of c in
      if d > 9 then Inl NotANumber
      else if \<not> overflow then
        (case Option.bind (checked_i64 (n * 10)) (\<lambda>m. checked_i64 (m - int d)) of
           Some m \<Rightarrow> as_i64_loop cs m overflow
         | None \<Rightarrow> as_i64_loop cs n True)
      else as_i64_loop cs n overflow)"

definition as_i64 :: "bytes \<Rightarrow> convert_error + int" where
  "as_i64 value =
     (let (neg, digits) = (case value of c # rest \<Rightarrow> if c = 45 then (True, rest) else (False, value)
                                       | [] \<Rightarrow> (False, value)) in
      if digits = [] then Inl NotANumber
      else bindR (as_i64_loop digits 0 False)
        (\<lambda>n. if neg then Inr n else ok_or (checked_i64 (- n)) Overflow))"

definition as_char :: "bytes \<Rightarrow> convert_error + byte" where
  "as_char value = (case value of [c] \<Rightarrow> Inr c | _ \<Rightarrow> Inl NotOneByte)"

lemma shift_digits_greater: "m < k \<Longrightarrow> m < k * 10 ^ l + (r::nat)"
proof -
  assume "m < k"
  moreover have "k \<le> k * 10 ^ l" by simp
  ultimately show ?thesis by linarith
qed

lemma shift_digits_less: "k < m \<Longrightarrow> m \<le> 0 \<Longrightarrow> k * 10 ^ l - int r < m"
proof -
  assume "k < m" "m \<le> 0"
  moreover have "k * 10 ^ l \<le> k"
    using \<open>k < m\<close> \<open>m \<le> 0\<close> mult_left_mono_neg [of 1 "10 ^ l" k] by simp
  ultimately show ?thesis by linarith
qed

text \<open>The loop agrees with the decimal value of the digits, and a byte that is no digit wins over
  an overflow wherever it stands.\<close>

lemma as_u32_loop_eq:
  "as_u32_loop cs n ov =
     (if \<not> all_digits cs then Inl NotANumber
      else if ov \<or> U32_MAX < n * 10 ^ length cs + dec_value cs then Inl Overflow
      else Inr (n * 10 ^ length cs + dec_value cs))"
  if "n \<le> U32_MAX"
  using that
proof (induction cs arbitrary: n ov)
  case (Cons c cs)
  have big: "U32_MAX < (n * 10 + digit_of c) * 10 ^ length cs + dec_value cs"
    if "U32_MAX < n * 10 + digit_of c"
    using that by (rule shift_digits_greater)
  have split: "n * 10 ^ length (c # cs) + dec_value (c # cs) =
    (n * 10 + digit_of c) * 10 ^ length cs + dec_value cs"
    by (simp add: dec_value_Cons algebra_simps)
  show ?case
  proof (cases "is_ascii_digit c")
    case False
    then show ?thesis using digit_of_le_9_iff [of c] by (simp add: Let_def)
  next
    case True
    then have "\<not> digit_of c > 9" using digit_of_le_9_iff [of c] by simp
    with True Cons big show ?thesis
      unfolding split by (auto simp: Let_def push_digit_eq)
  qed
qed simp

lemma as_u32_eq:
  "as_u32 v = (if v = [] \<or> \<not> all_digits v then Inl NotANumber
               else if dec_value v \<le> U32_MAX then Inr (dec_value v) else Inl Overflow)"
  by (simp add: as_u32_def as_u32_loop_eq)

lemma as_u32_dec_digits: "n \<le> U32_MAX \<Longrightarrow> as_u32 (dec_digits n) = Inr n"
  by (simp add: as_u32_eq)

lemma as_u32_bound: "as_u32 v = Inr n \<Longrightarrow> n \<le> U32_MAX"
  by (simp add: as_u32_eq split: if_splits)

lemma as_i64_loop_eq:
  "as_i64_loop cs n ov =
     (if \<not> all_digits cs then Inl NotANumber
      else if ov \<or> n * 10 ^ length cs - int (dec_value cs) < I64_MIN then Inl Overflow
      else Inr (n * 10 ^ length cs - int (dec_value cs)))"
  if "I64_MIN \<le> n" "n \<le> 0"
  using that
proof (induction cs arbitrary: n ov)
  case (Cons c cs)
  let ?m = "n * 10 - int (digit_of c)"
  have big: "?m * 10 ^ length cs - int (dec_value cs) < I64_MIN" if "?m < I64_MIN"
    using that by (rule shift_digits_less) simp
  have split: "n * 10 ^ length (c # cs) - int (dec_value (c # cs)) = ?m * 10 ^ length cs - int (dec_value cs)"
    by (simp add: dec_value_Cons algebra_simps)
  have chk: "Option.bind (checked_i64 (n * 10)) (\<lambda>m. checked_i64 (m - int (digit_of c))) =
    (if I64_MIN \<le> ?m then Some ?m else None)"
    using Cons.prems by (auto simp: checked_i64_def)
  show ?case
  proof (cases "is_ascii_digit c")
    case False
    then show ?thesis using digit_of_le_9_iff [of c] by (simp add: Let_def)
  next
    case True
    then have nd: "\<not> digit_of c > 9" using digit_of_le_9_iff [of c] by simp
    show ?thesis
    proof (cases "ov \<or> ?m < I64_MIN")
      case True
      then show ?thesis using \<open>is_ascii_digit c\<close> nd big Cons
        unfolding split by (auto simp: Let_def chk)
    next
      case False
      then have "I64_MIN \<le> ?m" "?m \<le> 0" using Cons.prems by auto
      then show ?thesis using \<open>is_ascii_digit c\<close> nd False Cons.IH [of ?m ov]
        unfolding split by (simp add: Let_def chk)
    qed
  qed
qed simp

lemma as_i64_eq:
  "as_i64 v =
     (let neg = (v \<noteq> [] \<and> hd v = 45); ds = (if neg then tl v else v);
          x = (if neg then - int (dec_value ds) else int (dec_value ds)) in
      if ds = [] \<or> \<not> all_digits ds then Inl NotANumber
      else if I64_MIN \<le> x \<and> x \<le> I64_MAX then Inr x else Inl Overflow)"
proof (cases v)
  case Nil
  then show ?thesis by (simp add: as_i64_def)
next
  case (Cons c rest)
  then show ?thesis
    by (cases "c = 45")
      (simp_all add: as_i64_def as_i64_loop_eq checked_i64_def Let_def del: as_i64_loop.simps all_digits_simps)
qed

subsection \<open>Properties\<close>

text \<open>\<open>as_u32\<close> accepts exactly the non-empty strings of ASCII digits whose decimal value fits
  32 bits, and returns that value; a digit string that is too large is \<open>Overflow\<close> and everything
  else, the empty value and signs included, is \<open>NotANumber\<close>. The checked accumulator of the source
  agrees with the mathematical value on every input, leading zeros included.\<close>

theorem as_u32_correct:
  "as_u32 v = (if v \<noteq> [] \<and> all_digits v
               then (if dec_value v \<le> U32_MAX then Inr (dec_value v) else Inl Overflow)
               else Inl NotANumber)"
  by (auto simp: as_u32_eq)

text \<open>\<open>as_i64\<close> reads an optional minus sign and digits to the signed value exactly when it lies
  between \<open>-2^63\<close> and \<open>2^63 - 1\<close>; accumulating downwards for a negative number is what lets it
  read the most negative value without an intermediate overflow.\<close>

theorem as_i64_correct:
  "as_i64 v =
     (let neg = (v \<noteq> [] \<and> hd v = 45); ds = (if neg then tl v else v);
          x = (if neg then - int (dec_value ds) else int (dec_value ds)) in
      if ds \<noteq> [] \<and> all_digits ds
      then (if I64_MIN \<le> x \<and> x \<le> I64_MAX then Inr x else Inl Overflow)
      else Inl NotANumber)"
  unfolding as_i64_eq Let_def by presburger

end
