(* ===== verification/Checksum.thy ===== *)
theory Checksum
  imports Prelude
begin

text \<open>
  \<open>crates/codec/src/checksum.rs\<close>: the sum of the bytes before \<open>10=\<close> modulo 256, and its
  rendering as three digits. The sum is an 8-bit word, so wrapping is the word's own.
\<close>

fun checksum_loop :: "byte \<Rightarrow> bytes \<Rightarrow> byte" where
  "checksum_loop acc [] = acc"
| "checksum_loop acc (c # cs) = checksum_loop (acc + c) cs"

definition checksum :: "bytes \<Rightarrow> byte" where
  "checksum bytes = checksum_loop 0 bytes"

definition format_checksum :: "byte \<Rightarrow> bytes" where
  "format_checksum s =
     [ZERO + s div 100, ZERO + (s div 10) mod 10, ZERO + s mod 10]"

lemma checksum_loop_eq: "checksum_loop s xs = s + sum_list xs"
  by (induction xs arbitrary: s) (simp_all add: add.assoc)

lemma checksum_eq: "checksum xs = sum_list xs"
  by (simp add: checksum_def checksum_loop_eq)

lemma checksum_append: "checksum (xs @ ys) = checksum xs + checksum ys"
  by (simp add: checksum_eq)

lemma unat_sum_list_mod: "unat (sum_list xs :: byte) = sum_list (map unat xs) mod 256"
  by (induction xs) (simp_all add: unat_word_ariths mod_simps)

text \<open>The sum is the mathematical sum of the byte values, reduced once.\<close>

lemma unat_checksum: "unat (checksum xs) = sum_list (map unat xs) mod 256"
  by (simp add: checksum_eq unat_sum_list_mod)

lemma format_checksum_digits:
  "format_checksum s = [digit_byte (unat s div 100), digit_byte (unat s div 10 mod 10), digit_byte (unat s mod 10)]"
proof -
  have "s div 100 = of_nat (unat s div 100)"
    by (simp add: word_arith_nat_div)
  moreover have "s div 10 mod 10 = of_nat (unat s div 10 mod 10)"
    by (subst word_arith_nat_mod) (simp add: unat_div)
  moreover have "s mod 10 = of_nat (unat s mod 10)"
    by (simp add: word_arith_nat_mod)
  ultimately show ?thesis
    by (simp add: format_checksum_def digit_byte_def)
qed

lemma length_format_checksum [simp]: "length (format_checksum s) = 3"
  by (simp add: format_checksum_def)

lemma three_digits: "(n::nat) div 100 * 100 + n div 10 mod 10 * 10 + n mod 10 = n"
proof -
  have "n div 100 = n div 10 div 10" by (simp flip: div_mult2_eq)
  moreover have "n div 10 div 10 * 10 + n div 10 mod 10 = n div 10" by (rule div_mult_mod_eq)
  moreover have "n div 10 * 10 + n mod 10 = n" by (rule div_mult_mod_eq)
  ultimately show ?thesis by linarith
qed

lemma format_checksum_value:
  shows "all_digits (format_checksum s)" and "dec_value (format_checksum s) = unat s"
proof -
  have "unat s < 256" using unsigned_less [of s] by simp
  then have d: "unat s div 100 < 10" "unat s div 10 mod 10 < 10" "unat s mod 10 < 10"
    by (simp_all add: div_less_iff_less_mult)
  then show "all_digits (format_checksum s)"
    by (simp add: format_checksum_digits)
  from d show "dec_value (format_checksum s) = unat s"
    using three_digits [of "unat s"] by (simp add: format_checksum_digits dec_value_Cons)
qed

end
