(* ===== verification/Parse.thy ===== *)
theory Parse
  imports Index Checksum
begin

text \<open>
  \<open>crates/codec/src/parse.rs\<close>: reading one FIX frame from the front of a buffer into a
  field index. \<open>parse_into\<close> returns the outcome together with the index it leaves behind,
  because the source specifies what the index holds after an error. The loop over the body is
  \<open>parse_loop\<close>; it advances by at least one byte per field, which is its termination measure.
\<close>

datatype parsed = Complete nat | Incomplete

record validation =
  body_length :: bool
  check_sum :: bool

definition Validation_ALL :: validation where
  "Validation_ALL = \<lparr>body_length = True, check_sum = True\<rparr>"

definition Validation_NONE :: validation where
  "Validation_NONE = \<lparr>body_length = False, check_sum = False\<rparr>"

definition find_soh :: "bytes \<Rightarrow> nat \<Rightarrow> nat option" where
  "find_soh buf from =
     Option.bind (get_from buf from) (\<lambda>tail. map_option (\<lambda>i. i + from) (position (\<lambda>c. c = SOH) tail))"

fun read_tag_loop :: "nat \<Rightarrow> bytes \<Rightarrow> nat \<Rightarrow> nat \<Rightarrow> nat \<Rightarrow> parse_error + (nat \<times> nat) option" where
  "read_tag_loop from [] pos n digits = Inr None"
| "read_tag_loop from (c # cs) pos n digits =
     (if c = EQ_SIGN then
        (if digits = 0 then Inl (BadTag (wrap32 from)) else Inr (Some (n, pos + 1)))
      else
        let d = digit_of c in
        if d > 9 then Inl (BadTag (wrap32 from))
        else (case push_digit U32_MAX n d of
                None \<Rightarrow> Inl (BadTag (wrap32 from))
              | Some x \<Rightarrow> read_tag_loop from cs (pos + 1) x (digits + 1)))"

definition read_tag :: "bytes \<Rightarrow> nat \<Rightarrow> parse_error + (nat \<times> nat) option" where
  "read_tag buf from = read_tag_loop from (drop from buf) from 0 0"

definition tag_text_at :: "bytes \<Rightarrow> nat \<Rightarrow> bytes option" where
  "tag_text_at buf at =
     Option.bind (get_from buf at) (\<lambda>tail.
       Option.bind (position (\<lambda>c. c = EQ_SIGN) tail) (\<lambda>end. get_range tail 0 end))"

text \<open>The length of the value that starts at \<open>val_start\<close>: for a DATA field the number the field
  in front of it declares, for any other field the distance to the separator. \<open>Inr None\<close> is
  \<open>Incomplete\<close>.\<close>

definition data_value_len ::
  "bytes \<Rightarrow> nat \<Rightarrow> nat \<Rightarrow> nat \<Rightarrow> nat \<Rightarrow> field_index \<Rightarrow> parse_error + nat option" where
  "data_value_len buf trailer_at tag len_tag val_start idx =
     bindR (ok_or (fi_last idx) (MissingLengthField tag)) (\<lambda>prev.
       if fe_tag prev \<noteq> len_tag then Inl (MissingLengthField tag)
       else bindR (ok_or (get_range buf (fe_offset prev) (fe_offset prev + fe_len prev)) (MissingLengthField tag)) (\<lambda>raw.
         (case as_u32 raw of
            Inl _ \<Rightarrow> Inl (MissingLengthField tag)
          | Inr n \<Rightarrow>
              bindR (ok_or (checked_add U64_MAX val_start n) (LengthOutOfBounds tag)) (\<lambda>end.
                if end > trailer_at then Inl (LengthOutOfBounds tag)
                else (case nth_opt buf end of
                        None \<Rightarrow> Inr None
                      | Some c \<Rightarrow> if c = SOH then Inr (Some n) else Inl (LengthOutOfBounds tag))))))"

definition value_len ::
  "('z) dictionary_scheme \<Rightarrow> bytes \<Rightarrow> nat \<Rightarrow> nat \<Rightarrow> nat \<Rightarrow> field_index \<Rightarrow> parse_error + nat option" where
  "value_len D buf trailer_at tag val_start idx =
     (case data_length_tag D tag of
        Some len_tag \<Rightarrow> data_value_len buf trailer_at tag len_tag val_start idx
      | None \<Rightarrow> Inr (map_option (\<lambda>soh. soh - val_start) (find_soh buf val_start)))"

text \<open>The \<open>10=\<close> field: it ends the frame, and the two frame checks run here.\<close>

definition parse_trailer ::
  "validation \<Rightarrow> bytes \<Rightarrow> nat \<Rightarrow> nat \<Rightarrow> nat \<Rightarrow> field_index \<Rightarrow> (parse_error + parsed) \<times> field_index" where
  "parse_trailer v buf trailer_at pos val_start idx =
     (case find_soh buf val_start of
        None \<Rightarrow> (Inr Incomplete, idx)
      | Some soh \<Rightarrow>
          (case fi_push 10 val_start (soh - val_start) idx of
             Inl e \<Rightarrow> (Inl e, idx)
           | Inr idx' \<Rightarrow>
               (if body_length v \<and> pos \<noteq> trailer_at then Inl BadBodyLength
                else if check_sum v then
                  let digits = take (soh - val_start) (drop val_start buf) in
                  if length digits \<noteq> 3 then Inl BadCheckSum
                  else (case as_u32 digits of
                          Inl _ \<Rightarrow> Inl BadCheckSum
                        | Inr want \<Rightarrow>
                            if want \<noteq> unat (checksum (take pos buf)) then Inl BadCheckSum
                            else Inr (Complete (soh + 1)))
                else Inr (Complete (soh + 1)), idx')))"

lemma read_tag_loop_pos:
  "read_tag_loop from cs pos n k = Inr (Some (t, v)) \<Longrightarrow> pos < v \<and> v \<le> pos + length cs \<and> t \<le> max U32_MAX n"
proof (induction cs arbitrary: pos n k)
  case (Cons c cs)
  then show ?case
    by (fastforce simp: Let_def push_digit_eq split: if_splits option.splits)
qed simp

lemma read_tag_pos: "read_tag buf pos = Inr (Some (t, v)) \<Longrightarrow> pos < v \<and> v \<le> length buf \<and> t \<le> U32_MAX"
  using read_tag_loop_pos [of pos "drop pos buf" pos 0 0 t v]
  by (cases "pos \<le> length buf") (auto simp: read_tag_def)

function parse_loop ::
  "('z) dictionary_scheme \<Rightarrow> validation \<Rightarrow> bytes \<Rightarrow> nat \<Rightarrow> nat \<Rightarrow> field_index \<Rightarrow>
   (parse_error + parsed) \<times> field_index" where
  "parse_loop D v buf trailer_at pos idx =
     (if pos \<ge> length buf then (Inr Incomplete, idx)
      else (case read_tag buf pos of
          Inl e \<Rightarrow> (Inl e, idx)
        | Inr None \<Rightarrow> (Inr Incomplete, idx)
        | Inr (Some (tag, val_start)) \<Rightarrow>
            if tag = 10 then parse_trailer v buf trailer_at pos val_start idx
            else (case value_len D buf trailer_at tag val_start idx of
                Inl e \<Rightarrow> (Inl e, idx)
              | Inr None \<Rightarrow> (Inr Incomplete, idx)
              | Inr (Some val_len) \<Rightarrow>
                  (case fi_push tag val_start val_len idx of
                     Inl e \<Rightarrow> (Inl e, idx)
                   | Inr idx' \<Rightarrow> parse_loop D v buf trailer_at (val_start + val_len + 1) idx'))))"
  by pat_completeness auto
termination
  by (relation "measure (\<lambda>(D, v, buf, trailer_at, pos, idx). length buf - pos)")
    (auto dest!: read_tag_pos)

declare parse_loop.simps [simp del]

text \<open>A byte the frame start must hold: absent is \<open>Incomplete\<close>, another byte is an error.\<close>

definition expect_byte :: "bytes \<Rightarrow> nat \<Rightarrow> byte \<Rightarrow> (parse_error + parsed) option" where
  "expect_byte buf i c =
     (case nth_opt buf i of
        None \<Rightarrow> Some (Inr Incomplete)
      | Some x \<Rightarrow> if x = c then None else Some (Inl BadFrameStart))"

definition parse_body_length ::
  "('z) dictionary_scheme \<Rightarrow> validation \<Rightarrow> bytes \<Rightarrow> nat \<Rightarrow> field_index \<Rightarrow>
   (parse_error + parsed) \<times> field_index" where
  "parse_body_length D v buf p idx =
     (case expect_byte buf p 57 of Some r \<Rightarrow> (r, idx) | None \<Rightarrow>
     (case expect_byte buf (p + 1) EQ_SIGN of Some r \<Rightarrow> (r, idx) | None \<Rightarrow>
     (let val9 = p + 2 in
      case find_soh buf val9 of
        None \<Rightarrow> (Inr Incomplete, idx)
      | Some soh2 \<Rightarrow>
          (case as_u32 (take (soh2 - val9) (drop val9 buf)) of
             Inl _ \<Rightarrow> (Inl BadBodyLength, idx)
           | Inr declared_body \<Rightarrow>
               (case fi_push 9 val9 (soh2 - val9) idx of
                  Inl e \<Rightarrow> (Inl e, idx)
                | Inr idx' \<Rightarrow>
                    let body_start = soh2 + 1 in
                    (case checked_add U64_MAX body_start declared_body of
                       None \<Rightarrow> (Inl BadBodyLength, idx')
                     | Some trailer_at \<Rightarrow> parse_loop D v buf trailer_at body_start idx'))))))"

definition parse_into ::
  "('z) dictionary_scheme \<Rightarrow> validation \<Rightarrow> bytes \<Rightarrow> field_index \<Rightarrow>
   (parse_error + parsed) \<times> field_index" where
  "parse_into D v buf idx0 =
     (let idx = fi_clear idx0 in
      case expect_byte buf 0 56 of Some r \<Rightarrow> (r, idx) | None \<Rightarrow>
     (case expect_byte buf 1 EQ_SIGN of Some r \<Rightarrow> (r, idx) | None \<Rightarrow>
     (case find_soh buf 2 of
        None \<Rightarrow> (Inr Incomplete, idx)
      | Some soh1 \<Rightarrow>
          (case fi_push 8 2 (soh1 - 2) idx of
             Inl e \<Rightarrow> (Inl e, idx)
           | Inr idx' \<Rightarrow> parse_body_length D v buf (soh1 + 1) idx'))))"

end
