(* ===== verification/Parse_Correct.thy ===== *)
theory Parse_Correct
  imports Parse
begin

text \<open>
  What \<open>parse_into\<close> guarantees: every entry it leaves behind lies inside the buffer,
  a decision once taken does not change when more bytes arrive, an accepted frame carries a true
  body length and checksum, and a well-formed frame is accepted with exactly its fields.
\<close>

subsection \<open>Separators\<close>

lemma find_soh_SomeD:
  assumes "find_soh buf from = Some i"
  shows "from \<le> i \<and> i < length buf \<and> buf ! i = SOH \<and> (\<forall>j. from \<le> j \<longrightarrow> j < i \<longrightarrow> buf ! j \<noteq> SOH)"
proof -
  from assms obtain k where le: "from \<le> length buf"
    and k: "position (\<lambda>c. c = SOH) (drop from buf) = Some k" and i: "i = k + from"
    by (auto simp: find_soh_def get_from_def split: if_splits bind_splits)
  from position_SomeD [OF k] le have k': "k < length buf - from" "buf ! (from + k) = SOH"
    "\<And>j. j < k \<Longrightarrow> buf ! (from + j) \<noteq> SOH"
    by (auto simp: add.commute)
  have "buf ! j \<noteq> SOH" if "from \<le> j" "j < i" for j
    using k'(3) [of "j - from"] that i by simp
  with k' i show ?thesis by (auto simp: add.commute)
qed

lemma find_soh_append: "find_soh buf from = Some i \<Longrightarrow> find_soh (buf @ ext) from = Some i"
  by (auto simp: find_soh_def get_from_def position_append split: if_splits bind_splits option.splits)

lemma find_soh_at:
  assumes "SOH \<notin> set v"
  shows "find_soh (pre @ v @ SOH # rest) (length pre) = Some (length pre + length v)"
proof -
  from assms have "\<forall>x \<in> set v. \<not> x = SOH" by blast
  from position_skip [OF this refl] show ?thesis
    by (simp add: find_soh_def get_from_def)
qed

lemma find_soh_at':
  "buf = pre @ v @ SOH # rest \<Longrightarrow> SOH \<notin> set v \<Longrightarrow> p = length pre \<Longrightarrow> q = p + length v \<Longrightarrow> find_soh buf p = Some q"
  by (simp add: find_soh_at)

lemma take_drop_at: "buf = pre @ v @ rest \<Longrightarrow> p = length pre \<Longrightarrow> n = length v \<Longrightarrow> take n (drop p buf) = v"
  by simp

lemma get_range_at: "buf = pre @ v @ rest \<Longrightarrow> p = length pre \<Longrightarrow> q = p + length v \<Longrightarrow> get_range buf p q = Some v"
  by (simp add: get_range_def)

lemma read_tag_loop_append:
  "read_tag_loop from cs pos n k \<noteq> Inr None \<Longrightarrow> read_tag_loop from (cs @ ext) pos n k = read_tag_loop from cs pos n k"
  by (induction cs arbitrary: pos n k) (auto simp: Let_def split: option.splits)

lemma read_tag_append: "read_tag buf pos \<noteq> Inr None \<Longrightarrow> read_tag (buf @ ext) pos = read_tag buf pos"
  by (cases "pos \<le> length buf") (auto simp: read_tag_def read_tag_loop_append)

subsection \<open>Entries stay inside the buffer\<close>

definition entries_within :: "bytes \<Rightarrow> field_index \<Rightarrow> bool" where
  "entries_within buf idx \<longleftrightarrow> (\<forall>e \<in> set (fi_fields idx). fe_offset e + fe_len e \<le> length buf)"

lemma wrap32_le: "wrap32 n \<le> n"
  by (simp add: wrap32_def)

lemma entries_within_push:
  "entries_within buf idx \<Longrightarrow> fi_push t off len idx = Inr idx' \<Longrightarrow> off + len \<le> length buf \<Longrightarrow>
   entries_within buf idx'"
  using wrap32_le [of off] by (auto simp: entries_within_def dest!: fi_push_InrD)

lemma entries_within_push_soh:
  "fi_push t p (s - p) i = Inr i' \<Longrightarrow> find_soh buf p = Some s \<Longrightarrow> entries_within buf i \<Longrightarrow> entries_within buf i'"
  by (auto dest!: find_soh_SomeD intro: entries_within_push)

lemma entries_within_clear: "entries_within buf (fi_clear idx)"
  by (simp add: entries_within_def fi_clear_def)

lemma entries_within_append: "entries_within buf idx \<Longrightarrow> entries_within (buf @ ext) idx"
  by (auto simp: entries_within_def)

lemma data_value_len_SomeD:
  assumes "data_value_len buf tr t l v idx = Inr (Some n)"
  shows "\<exists>prev raw. fi_last idx = Some prev \<and> fe_tag prev = l \<and>
    get_range buf (fe_offset prev) (fe_offset prev + fe_len prev) = Some raw \<and> as_u32 raw = Inr n \<and>
    v + n \<le> tr \<and> nth_opt buf (v + n) = Some SOH"
proof -
  from assms obtain prev raw where p: "fi_last idx = Some prev" "fe_tag prev = l"
    "get_range buf (fe_offset prev) (fe_offset prev + fe_len prev) = Some raw"
    by (auto simp: data_value_len_def bindR_Inr_iff ok_or_Inr_iff split: if_splits)
  with assms obtain m where m: "as_u32 raw = Inr m"
    by (cases "as_u32 raw") (auto simp: data_value_len_def)
  with p assms have "v + m \<le> tr" "nth_opt buf (v + m) = Some SOH" "m = n"
    by (auto simp: data_value_len_def bindR_Inr_iff ok_or_Inr_iff checked_add_def
        split: if_splits option.splits)
  with p m show ?thesis by blast
qed

lemma value_len_bound: "value_len D buf tr t v idx = Inr (Some n) \<Longrightarrow> v + n < length buf"
  by (auto simp: value_len_def nth_opt_Some dest!: find_soh_SomeD data_value_len_SomeD split: option.splits)

lemma parse_loop_ok:
  assumes "parse_loop D v buf tr pos idx = (r, idx')" "entries_within buf idx" "fi_ok idx"
  shows "entries_within buf idx' \<and> fi_ok idx' \<and> fi_cap idx' = fi_cap idx"
  using assms
proof (induction D v buf tr pos idx rule: parse_loop.induct)
  case (1 D v buf tr pos idx)
  show ?case
  proof (cases "pos < length buf \<and> (\<exists>t vs n idx2. read_tag buf pos = Inr (Some (t, vs)) \<and> t \<noteq> 10 \<and>
      value_len D buf tr t vs idx = Inr (Some n) \<and> fi_push t vs n idx = Inr idx2)")
    case True
    then obtain t vs n idx2 where *: "pos < length buf" "read_tag buf pos = Inr (Some (t, vs))" "t \<noteq> 10"
      "value_len D buf tr t vs idx = Inr (Some n)" "fi_push t vs n idx = Inr idx2"
      by blast
    have "entries_within buf idx2" "fi_ok idx2" "fi_cap idx2 = fi_cap idx"
      using 1(3,4) * value_len_bound [OF *(4)] entries_within_push fi_push_ok fi_push_InrD
      by (auto intro!: entries_within_push [OF _ *(5)])
    then show ?thesis
      using 1(1) [OF _ *(2) refl refl *(3) *(4) refl *(5)] 1(2) * by (simp add: parse_loop.simps [of D v buf tr pos])
  next
    case False
    then have "idx' = idx \<or> (\<exists>t vs soh. read_tag buf pos = Inr (Some (t, vs)) \<and> find_soh buf vs = Some soh \<and> fi_push 10 vs (soh - vs) idx = Inr idx')"
      using 1(2) by (auto simp: parse_loop.simps [of D v buf tr pos] parse_trailer_def Let_def
          split: if_splits sum.splits option.splits prod.splits)
    then show ?thesis
      using 1(3,4) by (auto dest!: find_soh_SomeD intro: entries_within_push fi_push_ok dest: fi_push_InrD)
  qed
qed

lemma parse_into_ok:
  assumes "parse_into D v buf idx0 = (r, idx)"
  shows "entries_within buf idx \<and> fi_ok idx \<and> fi_cap idx = fi_cap idx0"
proof -
  have clear: "entries_within buf (fi_clear idx0)" "fi_ok (fi_clear idx0)" "fi_cap (fi_clear idx0) = fi_cap idx0"
    by (rule entries_within_clear) (simp_all add: fi_clear_def fi_ok_def fi_len_def)
  have push: "entries_within buf i' \<and> fi_ok i' \<and> fi_cap i' = fi_cap i"
    if "fi_push t p (s - p) i = Inr i'" "find_soh buf p = Some s" "entries_within buf i" "fi_ok i" for t p s i i'
    using that by (auto intro: entries_within_push_soh fi_push_ok dest: fi_push_InrD)
  have body: "entries_within buf i' \<and> fi_ok i' \<and> fi_cap i' = fi_cap i"
    if "parse_body_length D v buf p i = (r', i')" "entries_within buf i" "fi_ok i" for p i r' i'
    using that push by (fastforce simp: parse_body_length_def Let_def dest: parse_loop_ok
        split: option.splits sum.splits)
  show ?thesis
    using assms clear push body
    by (fastforce simp: parse_into_def Let_def split: option.splits sum.splits)
qed

subsection \<open>A decision does not change when bytes are appended\<close>

lemma get_range_within:
  "entries_within buf idx \<Longrightarrow> fi_last idx = Some e \<Longrightarrow>
   get_range (buf @ ext) (fe_offset e) (fe_offset e + fe_len e) = get_range buf (fe_offset e) (fe_offset e + fe_len e)"
  by (auto simp: fi_last_def entries_within_def get_range_append split: if_splits)

lemma value_len_append:
  assumes "entries_within buf idx" "value_len D buf tr t v idx \<noteq> Inr None"
  shows "value_len D (buf @ ext) tr t v idx = value_len D buf tr t v idx"
proof (cases "data_length_tag D t")
  case None
  with assms(2) obtain i where "find_soh buf v = Some i" by (auto simp: value_len_def)
  with None find_soh_append [OF this] show ?thesis by (simp add: value_len_def)
next
  case (Some l)
  show ?thesis
  proof (cases "fi_last idx")
    case (Some e)
    show ?thesis
      using assms(2) \<open>data_length_tag D t = Some l\<close> Some get_range_within [OF assms(1) Some]
      by (auto simp: value_len_def data_value_len_def ok_or_def checked_add_def nth_opt_def nth_append
          split: option.splits sum.splits if_splits)
  qed (simp add: value_len_def data_value_len_def Some)
qed

lemma parse_trailer_append:
  assumes "fst (parse_trailer v buf tr pos vs idx) \<noteq> Inr Incomplete" "pos \<le> length buf"
  shows "parse_trailer v (buf @ ext) tr pos vs idx = parse_trailer v buf tr pos vs idx"
proof -
  from assms(1) obtain soh where s: "find_soh buf vs = Some soh"
    by (auto simp: parse_trailer_def split: option.splits)
  then have t: "take (soh - vs) (drop vs (buf @ ext)) = take (soh - vs) (drop vs buf)"
    by (auto dest!: find_soh_SomeD)
  have p: "take pos (buf @ ext) = take pos buf" using assms(2) by simp
  show ?thesis
    unfolding parse_trailer_def by (simp only: s find_soh_append [OF s] t p option.case)
qed

lemma parse_loop_append:
  assumes "entries_within buf idx" "fst (parse_loop D v buf tr pos idx) \<noteq> Inr Incomplete"
  shows "parse_loop D v (buf @ ext) tr pos idx = parse_loop D v buf tr pos idx"
  using assms
proof (induction D v buf tr pos idx rule: parse_loop.induct)
  case (1 D v buf tr pos idx)
  from 1(3) have lt: "pos < length buf" and rt: "read_tag buf pos \<noteq> Inr None"
    by (auto simp: parse_loop.simps [of D v buf] split: if_splits)
  note rt' = read_tag_append [OF rt]
  show ?case
  proof (cases "read_tag buf pos")
    case (Inl e)
    with lt rt' [of ext] show ?thesis by (simp add: parse_loop.simps [of D v _ _ pos idx])
  next
    case (Inr m)
    with rt obtain t vs where tv: "read_tag buf pos = Inr (Some (t, vs))" by (cases m) auto
    show ?thesis
    proof (cases "t = 10")
      case True
      with lt tv rt' [of ext] 1(3) show ?thesis
        by (simp add: parse_loop.simps [of D v _ _ pos idx] parse_trailer_append)
    next
      case False
      with 1(3) lt tv have vl: "value_len D buf tr t vs idx \<noteq> Inr None"
        by (auto simp: parse_loop.simps [of D v _ _ pos idx])
      note vl' = value_len_append [OF 1(2) vl]
      show ?thesis
      proof (cases "\<exists>n idx2. value_len D buf tr t vs idx = Inr (Some n) \<and> fi_push t vs n idx = Inr idx2")
        case True
        then obtain n idx2 where n: "value_len D buf tr t vs idx = Inr (Some n)" "fi_push t vs n idx = Inr idx2"
          by blast
        have "entries_within buf idx2"
          using 1(2) n(2) value_len_bound [OF n(1)] by (auto intro: entries_within_push)
        with 1(1) [OF _ tv refl refl False n(1) refl n(2)] 1(3) n lt tv False vl' [of ext] rt' [of ext]
        show ?thesis by (simp add: parse_loop.simps [of D v _ _ pos idx])
      next
        case False
        with lt tv \<open>t \<noteq> 10\<close> vl vl' [of ext] rt' [of ext] show ?thesis
          by (auto simp: parse_loop.simps [of D v _ _ pos idx] split: sum.splits option.splits)
      qed
    qed
  qed
qed

lemma expect_byte_append:
  "expect_byte buf i c \<noteq> Some (Inr Incomplete) \<Longrightarrow> expect_byte (buf @ ext) i c = expect_byte buf i c"
  by (auto simp: expect_byte_def nth_opt_def nth_append split: option.splits if_splits)


lemma parse_body_length_append:
  assumes "entries_within buf idx" "fst (parse_body_length D v buf p idx) \<noteq> Inr Incomplete"
  shows "parse_body_length D v (buf @ ext) p idx = parse_body_length D v buf p idx"
proof (cases "expect_byte buf p 57 = None \<and> expect_byte buf (p + 1) EQ_SIGN = None")
  case True
  note e = expect_byte_append [of buf p 57 ext] expect_byte_append [of buf "p + 1" EQ_SIGN ext]
  from True assms(2) obtain soh where s: "find_soh buf (p + 2) = Some soh"
    by (auto simp: parse_body_length_def Let_def split: option.splits)
  then have t: "take (soh - (p + 2)) (drop (p + 2) (buf @ ext)) = take (soh - (p + 2)) (drop (p + 2) buf)"
    by (auto dest!: find_soh_SomeD)
  from True e s find_soh_append [OF s, of ext] t assms(2) show ?thesis
    by (auto simp: parse_body_length_def Let_def split: sum.splits option.splits 
        intro!: parse_loop_append intro: entries_within_push_soh [OF _ _ assms(1)])
next
  case False
  with assms(2) expect_byte_append [of buf p 57 ext] expect_byte_append [of buf "p + 1" EQ_SIGN ext]
  show ?thesis by (auto simp: parse_body_length_def split: option.splits)
qed

lemma parse_into_append:
  assumes "fst (parse_into D v buf idx0) \<noteq> Inr Incomplete"
  shows "parse_into D v (buf @ ext) idx0 = parse_into D v buf idx0"
proof (cases "expect_byte buf 0 56 = None \<and> expect_byte buf 1 EQ_SIGN = None")
  case True
  note e = expect_byte_append [of buf 0 56 ext] expect_byte_append [of buf 1 EQ_SIGN ext]
  from True assms obtain soh where s: "find_soh buf 2 = Some soh"
    by (auto simp: parse_into_def Let_def split: option.splits)
  from True e s find_soh_append [OF s, of ext] assms show ?thesis
    by (auto simp: parse_into_def Let_def split: sum.splits 
        intro!: parse_body_length_append intro: entries_within_push_soh [OF _ _ entries_within_clear])
next
  case False
  with assms expect_byte_append [of buf 0 56 ext] expect_byte_append [of buf 1 EQ_SIGN ext]
  show ?thesis by (auto simp: parse_into_def Let_def split: option.splits)
qed

subsection \<open>An accepted frame is true to its length and its checksum\<close>

text \<open>What the last field of an accepted frame says about the bytes in front of it.\<close>

lemma parse_loop_Complete:
  assumes "parse_loop D Validation_ALL buf tr pos idx = (Inr (Complete c), idx')"
  shows "\<exists>vs soh. tr < vs \<and> find_soh buf vs = Some soh \<and> c = soh + 1 \<and> soh - vs = 3 \<and>
    as_u32 (take 3 (drop vs buf)) = Inr (unat (checksum (take tr buf))) \<and>
    read_tag buf tr = Inr (Some (10, vs))"
  using assms
proof (induction D "Validation_ALL" buf tr pos idx rule: parse_loop.induct)
  case (1 D buf tr pos idx)
  from 1(2) obtain t vs where tv: "pos < length buf" "read_tag buf pos = Inr (Some (t, vs))"
    by (auto simp: parse_loop.simps [of D _ buf] split: if_splits sum.splits option.splits)
  show ?case
  proof (cases "t = 10")
    case True
    with 1(2) tv have "parse_trailer Validation_ALL buf tr pos vs idx = (Inr (Complete c), idx')"
      by (simp add: parse_loop.simps [of D _ buf])
    moreover from this obtain soh where s: "find_soh buf vs = Some soh"
      by (auto simp: parse_trailer_def split: option.splits)
    moreover from find_soh_SomeD [OF s] have "length (take (soh - vs) (drop vs buf)) = soh - vs"
      by auto
    ultimately show ?thesis
      using True tv read_tag_pos [OF tv(2)]
      by (auto simp: parse_trailer_def Validation_ALL_def Let_def dest!: fi_push_InrD
          split: sum.splits if_splits)
  next
    case False
    from 1(2) tv False obtain n idx2 where n: "value_len D buf tr t vs idx = Inr (Some n)"
      "fi_push t vs n idx = Inr idx2"
      by (auto simp: parse_loop.simps [of D _ buf] split: sum.splits option.splits)
    with 1(1) [OF _ tv(2) refl refl False n(1) refl n(2)] 1(2) tv False show ?thesis
      by (simp add: parse_loop.simps [of D _ buf tr pos])
  qed
qed


lemma find_soh_decomp:
  assumes "find_soh buf p = Some s"
  shows "buf = take p buf @ take (s - p) (drop p buf) @ SOH # drop (s + 1) buf"
    and "SOH \<notin> set (take (s - p) (drop p buf))"
proof -
  note f = find_soh_SomeD [OF assms]
  then have "drop p buf = take (s - p) (drop p buf) @ drop s buf"
    by (metis append_take_drop_id drop_drop le_add_diff_inverse2)
  moreover have "drop s buf = SOH # drop (s + 1) buf"
    using f by (metis Cons_nth_drop_Suc Suc_eq_plus1)
  ultimately show "buf = take p buf @ take (s - p) (drop p buf) @ SOH # drop (s + 1) buf"
    by (metis append_take_drop_id)
  show "SOH \<notin> set (take (s - p) (drop p buf))"
    using f by (auto simp: in_set_conv_nth)
qed

lemma find_soh_take:
  assumes "find_soh buf p = Some s"
  shows "take (s + 1) buf = take p buf @ take (s - p) (drop p buf) @ [SOH]"
proof -
  note f = find_soh_SomeD [OF assms]
  then have "take s buf = take p buf @ take (s - p) (drop p buf)"
    by (metis le_add_diff_inverse take_add)
  with f show ?thesis by (simp add: take_Suc_conv_app_nth)
qed

lemma expect_byte_None: "expect_byte buf i c = None \<longleftrightarrow> i < length buf \<and> buf ! i = c"
  by (auto simp: expect_byte_def nth_opt_def)

lemma take_two: "i + 1 < length buf \<Longrightarrow> take (i + 2) buf = take i buf @ [buf ! i, buf ! (i + 1)]"
  by (simp add: take_Suc_conv_app_nth)

lemma parse_into_Complete:
  assumes "parse_into D Validation_ALL buf idx0 = (Inr (Complete c), idx)"
  shows "\<exists>bstr len body rest vs.
    buf = b ''8='' @ bstr @ SOH # b ''9='' @ len @ SOH # body @ rest \<and> SOH \<notin> set bstr \<and>
    len \<noteq> [] \<and> all_digits len \<and> dec_value len = length body \<and>
    read_tag buf (length buf - length rest) = Inr (Some (10, vs)) \<and>
    c = vs + 4 \<and> c \<le> length buf \<and> buf ! (vs + 3) = SOH \<and> all_digits (take 3 (drop vs buf)) \<and>
    dec_value (take 3 (drop vs buf)) = unat (checksum (take (length buf - length rest) buf))"
proof -
  from assms obtain soh1 idx1 where e0: "expect_byte buf 0 56 = None" "expect_byte buf 1 EQ_SIGN = None"
    and s1: "find_soh buf 2 = Some soh1"
    and p1: "parse_body_length D Validation_ALL buf (soh1 + 1) idx1 = (Inr (Complete c), idx)"
    by (auto simp: parse_into_def Let_def expect_byte_def split: option.splits sum.splits if_splits)
  let ?p = "soh1 + 1" and ?v = "soh1 + 1 + 2"
  from p1 obtain soh2 idx2 n tr where e1: "expect_byte buf ?p 57 = None" "expect_byte buf (?p + 1) EQ_SIGN = None"
    and s2: "find_soh buf ?v = Some soh2" and n: "as_u32 (take (soh2 - ?v) (drop ?v buf)) = Inr n"
    and tr: "tr = soh2 + 1 + n" and pl: "parse_loop D Validation_ALL buf tr (soh2 + 1) idx2 = (Inr (Complete c), idx)"
    by (auto simp: parse_body_length_def Let_def expect_byte_def checked_add_def
        split: option.splits sum.splits if_splits)
  from parse_loop_Complete [OF pl] obtain vs soh where tl: "tr < vs" "find_soh buf vs = Some soh" "c = soh + 1"
    "soh - vs = 3" "as_u32 (take 3 (drop vs buf)) = Inr (unat (checksum (take tr buf)))"
    "read_tag buf tr = Inr (Some (10, vs))" by blast
  let ?bstr = "take (soh1 - 2) (drop 2 buf)" and ?len = "take (soh2 - ?v) (drop ?v buf)"
  let ?body = "take n (drop (soh2 + 1) buf)" and ?rest = "drop tr buf"
  have b8: "take 2 buf = b ''8=''"
    using take_two [of 0 buf] e0 by (auto simp: expect_byte_None b_def numeral_2_eq_2)
  have b9: "take ?v buf = take ?p buf @ b ''9=''"
    using take_two [of ?p buf] e1 by (auto simp: expect_byte_None b_def)
  have "drop (soh2 + 1) buf = ?body @ ?rest"
    using append_take_drop_id [of n "drop (soh2 + 1) buf", symmetric] by (simp only: drop_drop tr add.commute)
  with find_soh_decomp(1) [OF s2] have "buf = take ?v buf @ ?len @ SOH # ?body @ ?rest"
    by (simp only:)
  then have buf: "buf = b ''8='' @ ?bstr @ SOH # b ''9='' @ ?len @ SOH # ?body @ ?rest"
    unfolding b9 find_soh_take [OF s1] b8 by (simp only: append.assoc append_Cons append_Nil)
  have trl: "tr < length buf" using tl find_soh_SomeD [OF tl(2)] by auto
  then have lr: "length buf - length ?rest = tr" by simp
  have lb: "length ?body = n" using trl tr by simp
  from n have nl: "?len \<noteq> []" "all_digits ?len" "dec_value ?len = n"
    by (auto simp: as_u32_eq split: if_splits)
  from tl(5) have cs: "all_digits (take 3 (drop vs buf))" "dec_value (take 3 (drop vs buf)) = unat (checksum (take tr buf))"
    by (auto simp: as_u32_eq split: if_splits)
  have "soh = vs + 3" using tl(3,4) find_soh_SomeD [OF tl(2)] by linarith
  then have "c = vs + 4" "c \<le> length buf" "buf ! (vs + 3) = SOH"
    using tl(3) find_soh_SomeD [OF tl(2)] by auto
  then show ?thesis
    using buf find_soh_decomp(2) [OF s1] nl lb lr cs tl(6) by (intro exI conjI) (assumption | simp)+
qed


subsection \<open>A well-formed frame is accepted with exactly its fields\<close>

text \<open>The wire form of a field, of a body and of a whole frame, as the FIX standard writes them.\<close>

definition wire_field :: "nat \<times> bytes \<Rightarrow> bytes" where
  "wire_field f = dec_digits (fst f) @ EQ_SIGN # snd f @ [SOH]"

definition wire_body :: "(nat \<times> bytes) list \<Rightarrow> bytes" where
  "wire_body fs = concat (map wire_field fs)"

definition wire_prefix :: "bytes \<Rightarrow> bytes \<Rightarrow> bytes" where
  "wire_prefix bstr body = b ''8='' @ bstr @ SOH # b ''9='' @ dec_digits (length body) @ SOH # body"

definition wire_frame :: "bytes \<Rightarrow> bytes \<Rightarrow> bytes" where
  "wire_frame bstr body = wire_prefix bstr body @ b ''10='' @ format_checksum (checksum (wire_prefix bstr body)) @ [SOH]"

text \<open>Fields a reader with dictionary \<open>D\<close> can delimit: a DATA value follows the field that states
  its length, any other value is free of the separator.\<close>

fun fields_ok :: "('z) dictionary_scheme \<Rightarrow> nat \<times> bytes \<Rightarrow> (nat \<times> bytes) list \<Rightarrow> bool" where
  "fields_ok D prev [] \<longleftrightarrow> True"
| "fields_ok D prev (f # fs) \<longleftrightarrow>
     fst f \<le> U32_MAX \<and> fst f \<noteq> 10 \<and> length (snd f) \<le> U16_MAX \<and>
     (case data_length_tag D (fst f) of
        None \<Rightarrow> SOH \<notin> set (snd f)
      | Some l \<Rightarrow> fst prev = l \<and> as_u32 (snd prev) = Inr (length (snd f))) \<and>
     fields_ok D f fs"

lemma wire_body_simps [simp]:
  "wire_body [] = []" "wire_body (f # fs) = wire_field f @ wire_body fs"
  "wire_body (fs @ gs) = wire_body fs @ wire_body gs"
  by (simp_all add: wire_body_def)

lemma read_tag_loop_digits:
  assumes "all_digits ds" "n * 10 ^ length ds + dec_value ds \<le> U32_MAX"
  shows "read_tag_loop from (ds @ EQ_SIGN # rest) pos n k =
    (if k + length ds = 0 then Inl (BadTag (wrap32 from))
     else Inr (Some (n * 10 ^ length ds + dec_value ds, pos + length ds + 1)))"
  using assms
proof (induction ds arbitrary: pos n k)
  case (Cons c ds)
  have split: "n * 10 ^ length (c # ds) + dec_value (c # ds) = (n * 10 + digit_of c) * 10 ^ length ds + dec_value ds"
    by (simp add: dec_value_Cons algebra_simps)
  have le: "n * 10 + digit_of c \<le> U32_MAX"
    using Cons.prems(2) shift_digits_greater [of U32_MAX "n * 10 + digit_of c" "length ds" "dec_value ds"]
    unfolding split by linarith
  have dg: "is_ascii_digit c" "all_digits ds" using Cons.prems(1) by simp_all
  have "\<not> digit_of c > 9" using digit_of_le_9_iff [of c] dg by simp
  with Cons.IH [of "n * 10 + digit_of c" "Suc pos" "Suc k"] Cons.prems(2) dg le show ?case
    unfolding split by (simp add: Let_def push_digit_eq)
qed simp

lemma read_tag_wire:
  "t \<le> U32_MAX \<Longrightarrow> read_tag (pre @ dec_digits t @ EQ_SIGN # rest) (length pre) =
     Inr (Some (t, length pre + length (dec_digits t) + 1))"
  by (simp add: read_tag_def read_tag_loop_digits)

text \<open>The index grown by the fields of a body that starts at an offset.\<close>

fun grow :: "nat \<Rightarrow> (nat \<times> bytes) list \<Rightarrow> field_entry list" where
  "grow off [] = []"
| "grow off (f # fs) =
     \<lparr>fe_tag = fst f, fe_offset = off + length (dec_digits (fst f)) + 1, fe_len = length (snd f)\<rparr>
     # grow (off + length (wire_field f)) fs"

lemma grow_values:
  "map (\<lambda>e. (fe_tag e, get_range (pre @ wire_body fs @ rest) (fe_offset e) (fe_offset e + fe_len e))) (grow (length pre) fs)
   = map (\<lambda>f. (fst f, Some (snd f))) fs"
proof (induction fs arbitrary: pre)
  case (Cons f fs)
  from Cons.IH [of "pre @ wire_field f"] show ?case
    by (simp add: wire_field_def get_range_def)
qed simp

lemma length_grow [simp]: "length (grow off fs) = length fs"
  by (induction fs arbitrary: off) auto

lemma value_len_wire:
  assumes "case data_length_tag D t of None \<Rightarrow> SOH \<notin> set x
           | Some l \<Rightarrow> fst prev = l \<and> as_u32 (snd prev) = Inr (length x)"
    and "fi_last idx = Some e" "fe_tag e = fst prev"
    and "get_range buf (fe_offset e) (fe_offset e + fe_len e) = Some (snd prev)"
    and "buf = pre @ x @ SOH # rest" "length pre + length x \<le> tr" "length buf \<le> U32_MAX"
  shows "value_len D buf tr t (length pre) idx = Inr (Some (length x))"
proof (cases "data_length_tag D t")
  case None
  with assms(1,5) show ?thesis by (simp add: value_len_def find_soh_at)
next
  case (Some l)
  with assms have "nth_opt buf (length pre + length x) = Some SOH" "length pre + length x \<le> U64_MAX"
    by (simp_all add: nth_opt_def nth_append)
  with Some assms show ?thesis
    by (simp add: value_len_def data_value_len_def checked_add_def)
qed

lemma parse_loop_wire:
  assumes "fields_ok D prev fs" "buf = pre @ wire_body fs @ b ''10='' @ rest"
    and "fi_last idx = Some e" "fe_tag e = fst prev"
    and "get_range buf (fe_offset e) (fe_offset e + fe_len e) = Some (snd prev)"
    and "length pre + length (wire_body fs) \<le> tr" "length buf \<le> U32_MAX"
    and "fi_len idx + length fs \<le> fi_cap idx" "fi_len idx + length fs \<le> U16_MAX"
  shows "parse_loop D v buf tr (length pre) idx =
    parse_trailer v buf tr (length pre + length (wire_body fs)) (length pre + length (wire_body fs) + 3)
      (idx\<lparr>fi_fields := fi_fields idx @ grow (length pre) fs\<rparr>)"
  using assms
proof (induction fs arbitrary: prev pre idx e)
  case Nil
  have "read_tag buf (length pre) = Inr (Some (10, length pre + 3))"
    using read_tag_wire [of 10 pre rest] Nil(2) by (simp add: dec_digits.simps digit_byte_def b_def)
  moreover have "length pre < length buf" using Nil(2) by (simp add: b_def)
  ultimately show ?case by (simp add: parse_loop.simps [of D v buf])
next
  case (Cons f fs)
  let ?t = "fst f" and ?x = "snd f"
  let ?vs = "length pre + length (dec_digits ?t) + 1"
  let ?pre' = "pre @ wire_field f"
  have buf: "buf = (pre @ dec_digits ?t @ [EQ_SIGN]) @ ?x @ SOH # wire_body fs @ b ''10='' @ rest"
    using Cons.prems(2) by (simp add: wire_field_def)
  have ok: "?t \<le> U32_MAX" "?t \<noteq> 10" "length ?x \<le> U16_MAX" "fields_ok D f fs"
    using Cons.prems(1) by auto
  have rt: "read_tag buf (length pre) = Inr (Some (?t, ?vs))"
    using read_tag_wire [OF ok(1), of pre] buf by simp
  have vl: "value_len D buf tr ?t ?vs idx = Inr (Some (length ?x))"
    using value_len_wire [where pre = "pre @ dec_digits ?t @ [EQ_SIGN]" and x = ?x and t = ?t and D = D and prev = prev]
      Cons.prems buf by (auto simp: wire_field_def)
  let ?e' = "\<lparr>fe_tag = ?t, fe_offset = ?vs, fe_len = length ?x\<rparr>"
  let ?idx' = "idx\<lparr>fi_fields := fi_fields idx @ [?e']\<rparr>"
  have "?vs \<le> U32_MAX" using Cons.prems(7) buf by simp
  then have ps: "fi_push ?t ?vs (length ?x) idx = Inr ?idx'"
    using ok Cons.prems(8,9) by (intro fi_push_room) simp_all
  have lt: "length pre < length buf" using buf by simp
  have "parse_loop D v buf tr (length pre) idx = parse_loop D v buf tr (length ?pre') ?idx'"
    using rt ok(2) vl ps lt by (simp add: parse_loop.simps [of D v buf tr "length pre"] wire_field_def add.assoc)
  also have "\<dots> = parse_trailer v buf tr (length ?pre' + length (wire_body fs)) (length ?pre' + length (wire_body fs) + 3)
      (?idx'\<lparr>fi_fields := fi_fields ?idx' @ grow (length ?pre') fs\<rparr>)"
  proof (rule Cons.IH [OF ok(4), where e = ?e'])
    show "get_range buf (fe_offset ?e') (fe_offset ?e' + fe_len ?e') = Some ?x"
      unfolding buf by (simp add: get_range_def)
  qed (use Cons.prems in \<open>auto simp: fi_last_def fi_len_def\<close>)
  finally show ?case by (simp add: add.assoc)
qed


lemma parse_trailer_wire:
  assumes "buf = body @ b ''10='' @ format_checksum (checksum body) @ SOH # rest"
    and "fi_len idx < fi_cap idx" "fi_len idx < U16_MAX" "length buf \<le> U32_MAX"
  shows "parse_trailer v buf (length body) (length body) (length body + 3) idx =
    (Inr (Complete (length body + 7)),
     idx\<lparr>fi_fields := fi_fields idx @ [\<lparr>fe_tag = 10, fe_offset = length body + 3, fe_len = 3\<rparr>]\<rparr>)"
proof -
  let ?cs = "format_checksum (checksum body)"
  have "SOH \<notin> set ?cs" by (intro SOH_notin_digits format_checksum_value)
  then have fs: "find_soh buf (length body + 3) = Some (length body + 6)"
    using assms(1) by (intro find_soh_at' [where pre = "body @ b ''10=''" and v = ?cs]) (simp_all add: b_def)
  have dg: "take 3 (drop (length body + 3) buf) = ?cs" using assms(1) by (simp add: b_def)
  have "unat (checksum body) < 256" using unsigned_less [of "checksum body"] by simp
  moreover have "?cs \<noteq> []" by (simp add: format_checksum_def)
  ultimately have as: "as_u32 ?cs = Inr (unat (checksum body))"
    using format_checksum_value [of "checksum body"] by (simp add: as_u32_eq)
  have ps: "fi_push 10 (length body + 3) 3 idx = Inr (idx\<lparr>fi_fields := fi_fields idx @
      [\<lparr>fe_tag = 10, fe_offset = length body + 3, fe_len = 3\<rparr>]\<rparr>)"
    using assms by (intro fi_push_room) (simp_all add: b_def)
  have tk: "take (length body) buf = body" using assms(1) by simp
  show ?thesis
    using fs ps as tk dg by (simp add: parse_trailer_def Let_def)
qed

lemma parse_into_wire:
  assumes ok: "fields_ok D (9, dec_digits (length (wire_body fs))) fs"
    and beg: "SOH \<notin> set bstr" "length bstr \<le> U16_MAX"
    and cap: "length fs + 3 \<le> fi_cap idx0" "length fs + 3 \<le> U16_MAX"
    and frame: "frame = wire_frame bstr (wire_body fs)" and len: "length (frame @ rest) \<le> U32_MAX"
  shows "\<exists>idx. parse_into D v (frame @ rest) idx0 = (Inr (Complete (length frame)), idx) \<and>
    mv_fields (fi_view idx (frame @ rest)) =
      (8, Some bstr) # (9, Some (dec_digits (length (wire_body fs)))) #
      map (\<lambda>f. (fst f, Some (snd f))) fs @
      [(10, Some (format_checksum (checksum (wire_prefix bstr (wire_body fs)))))]"
proof -
  let ?body = "wire_body fs" and ?buf = "frame @ rest"
  let ?n = "dec_digits (length ?body)" and ?cs = "format_checksum (checksum (wire_prefix bstr (wire_body fs)))"
  let ?p = "length bstr + 3" and ?s2 = "length bstr + 5 + length ?n"
  let ?pre = "b ''8='' @ bstr @ SOH # b ''9='' @ ?n @ [SOH]"
  let ?tail = "?cs @ SOH # rest"
  have pre: "?pre @ ?body = wire_prefix bstr ?body" by (simp add: wire_prefix_def)
  have lpre: "length ?pre = ?s2 + 1" by (simp add: b_def)
  have buf: "?buf = ?pre @ ?body @ b ''10='' @ ?tail"
    by (simp add: frame wire_frame_def wire_prefix_def)
  have bt: "?buf = (?pre @ ?body) @ b ''10='' @ format_checksum (checksum (?pre @ ?body)) @ SOH # rest"
    unfolding buf pre by (simp add: wire_prefix_def)
  have lb: "length ?body \<le> U32_MAX" "?s2 + 1 + length ?body \<le> U32_MAX"
    using len lpre unfolding buf by simp_all
  have n5: "length ?n \<le> U16_MAX"
    using length_dec_digits_le [of "length ?body" 10] lb by simp
  define e8 e9 e10 where "e8 = \<lparr>fe_tag = 8, fe_offset = 2, fe_len = length bstr\<rparr>"
    and "e9 = \<lparr>fe_tag = 9, fe_offset = length bstr + 5, fe_len = length ?n\<rparr>"
    and "e10 = \<lparr>fe_tag = (10::nat), fe_offset = length (?pre @ ?body) + 3, fe_len = (3::nat)\<rparr>"
  let ?i0 = "fi_clear idx0"
  let ?i1 = "idx0\<lparr>fi_fields := [e8]\<rparr>" and ?i2 = "idx0\<lparr>fi_fields := [e8, e9]\<rparr>"
  let ?i3 = "idx0\<lparr>fi_fields := [e8, e9] @ grow (length ?pre) fs\<rparr>"
  let ?i4 = "idx0\<lparr>fi_fields := [e8, e9] @ grow (length ?pre) fs @ [e10]\<rparr>"
  have f1: "find_soh ?buf 2 = Some (length bstr + 2)"
    unfolding buf by (rule find_soh_at' [where pre = "b ''8=''" and v = "bstr"]) (use beg in \<open>simp_all add: b_def\<close>)
  have f2: "find_soh ?buf (?p + 2) = Some ?s2"
    unfolding buf by (rule find_soh_at' [where pre = "b ''8='' @ bstr @ SOH # b ''9=''" and v = ?n])
      (simp_all add: b_def SOH_notin_digits)
  have eb: "expect_byte ?buf 0 56 = None" "expect_byte ?buf 1 EQ_SIGN = None"
    "expect_byte ?buf ?p 57 = None" "expect_byte ?buf (?p + 1) EQ_SIGN = None"
    unfolding buf by (simp_all add: expect_byte_None b_def nth_append)
  have p8: "fi_push 8 2 (length bstr + 2 - 2) ?i0 = Inr ?i1"
    using beg cap by (simp add: fi_push_def fi_clear_def fi_len_def e8_def Let_def)
  have p9: "fi_push 9 (?p + 2) (?s2 - (?p + 2)) ?i1 = Inr ?i2"
    using n5 cap lb by (simp add: fi_push_def fi_len_def e9_def Let_def)
  have "take (?s2 - (?p + 2)) (drop (?p + 2) ?buf) = ?n"
    by (rule take_drop_at [where pre = "b ''8='' @ bstr @ SOH # b ''9=''"]) (use buf in \<open>simp_all add: b_def\<close>)
  with as_u32_dec_digits [OF lb(1)] have a9: "as_u32 (take (?s2 - (?p + 2)) (drop (?p + 2) ?buf)) = Inr (length ?body)"
    by (simp only:)
  have ca: "checked_add U64_MAX (?s2 + 1) (length ?body) = Some (length (?pre @ ?body))"
    using lb lpre by (simp add: checked_add_def)
  have g9: "get_range ?buf (fe_offset e9) (fe_offset e9 + fe_len e9) = Some ?n"
    by (rule get_range_at [where pre = "b ''8='' @ bstr @ SOH # b ''9=''"]) (use buf in \<open>simp_all add: b_def e9_def\<close>)
  have loop: "parse_loop D v ?buf (length (?pre @ ?body)) (length ?pre) ?i2 =
      parse_trailer v ?buf (length (?pre @ ?body)) (length ?pre + length ?body) (length ?pre + length ?body + 3)
        (?i2\<lparr>fi_fields := fi_fields ?i2 @ grow (length ?pre) fs\<rparr>)"
    by (rule parse_loop_wire [OF ok buf, where e = e9])
      (use g9 len cap in \<open>auto simp: fi_last_def fi_len_def e9_def\<close>)
  have tr: "parse_trailer v ?buf (length (?pre @ ?body)) (length (?pre @ ?body)) (length (?pre @ ?body) + 3) ?i3 =
      (Inr (Complete (length (?pre @ ?body) + 7)), ?i4)"
    using parse_trailer_wire [OF bt _ _ len, of ?i3 v] cap by (simp add: fi_len_def e10_def)
  have i3: "?i2\<lparr>fi_fields := fi_fields ?i2 @ grow (length ?pre) fs\<rparr> = ?i3"
    and la: "length ?pre + length ?body = length (?pre @ ?body)" and pe: "length bstr + 2 + 1 = ?p"
    by simp_all
  have "parse_loop D v ?buf (length (?pre @ ?body)) (?s2 + 1) ?i2 = (Inr (Complete (length (?pre @ ?body) + 7)), ?i4)"
    using loop [unfolded la i3, unfolded tr] unfolding lpre .
  then have "parse_body_length D v ?buf ?p ?i1 = (Inr (Complete (length (?pre @ ?body) + 7)), ?i4)"
    by (simp only: parse_body_length_def eb f2 a9 p9 ca Let_def option.case sum.case)
  then have "parse_into D v ?buf idx0 = (Inr (Complete (length (?pre @ ?body) + 7)), ?i4)"
    by (simp only: parse_into_def eb f1 p8 pe Let_def option.case sum.case)
  moreover have "length (?pre @ ?body) + 7 = length frame"
    by (simp add: frame wire_frame_def wire_prefix_def b_def)
  moreover have "mv_fields (fi_view ?i4 ?buf) = (8, Some bstr) # (9, Some ?n) # map (\<lambda>f. (fst f, Some (snd f))) fs @ [(10, Some ?cs)]"
  proof -
    have "get_range ?buf (fe_offset e8) (fe_offset e8 + fe_len e8) = Some bstr"
      by (rule get_range_at [where pre = "b ''8=''"]) (use buf in \<open>simp_all add: b_def e8_def\<close>)
    moreover have "get_range ?buf (fe_offset e10) (fe_offset e10 + fe_len e10) = Some ?cs"
      by (rule get_range_at [where pre = "(?pre @ ?body) @ b ''10=''"]) (use buf in \<open>simp_all add: b_def e10_def\<close>)
    ultimately show ?thesis
      using g9 grow_values [of ?pre fs "b ''10='' @ ?tail"] unfolding buf [symmetric]
      by (simp add: mv_fields_def fi_view_def mv_entries_def fi_entries_def value_of_def e8_def e9_def e10_def)
  qed
  ultimately show ?thesis by metis
qed

subsection \<open>Properties\<close>

text \<open>Whatever the bytes, the dictionary and the outcome, the index a parse leaves behind holds
  only fields that lie inside the buffer, keeps its capacity, and never holds more fields than the
  capacity: reading any value through it cannot run out of the buffer.\<close>

theorem parse_index_well_formed:
  assumes "parse_into D v buf idx0 = (r, idx)"
  shows "list_all (\<lambda>e. fe_offset e + fe_len e \<le> length buf) (fi_fields idx) \<and>
    length (fi_fields idx) \<le> fi_cap idx \<and> fi_cap idx = fi_cap idx0"
  using parse_into_ok [OF assms] by (simp add: entries_within_def fi_ok_def fi_len_def list_all_iff)

theorem parse_index_well_formed_witness:
  "\<exists>r idx. parse_into NoDict Validation_ALL (b ''8=FIX.4.4'' @ [SOH]) (FieldIndex_new 4) = (r, idx) \<and>
    list_all (\<lambda>e. fe_offset e + fe_len e \<le> length (b ''8=FIX.4.4'' @ [SOH])) (fi_fields idx) \<and>
    length (fi_fields idx) \<le> fi_cap idx \<and> fi_cap idx = fi_cap (FieldIndex_new 4)"
proof -
  obtain r idx where run: "parse_into NoDict Validation_ALL (b ''8=FIX.4.4'' @ [SOH]) (FieldIndex_new 4) = (r, idx)"
    by fastforce
  from run parse_index_well_formed [OF run] show ?thesis by blast
qed

text \<open>A decision of the parser is final. Once a buffer is judged complete or malformed, no bytes
  that arrive after it change the verdict, the length consumed or the index: the reader may hand
  over whatever is in its receive buffer. Only \<open>Incomplete\<close> asks for more.\<close>

theorem parse_decision_stable:
  assumes "fst (parse_into D v buf idx0) \<noteq> Inr Incomplete"
  shows "parse_into D v (buf @ ext) idx0 = parse_into D v buf idx0"
  by (rule parse_into_append [OF assms])

theorem parse_decision_stable_witness:
  "parse_into NoDict Validation_ALL (b ''8:'' @ b ''anything'') (FieldIndex_new 4) =
   parse_into NoDict Validation_ALL (b ''8:'') (FieldIndex_new 4)"
  by (rule parse_decision_stable) (simp add: parse_into_def expect_byte_def nth_opt_def b_def)

text \<open>C11: A frame accepted with both checks on is intact: it starts with \<open>8=\<close> and \<open>9=\<close>, the declared
  body length is a number equal to the length of the bytes between the length field and the
  \<open>10=\<close> field, the three checksum digits are the sum of all the bytes in front of that field modulo
  256, and the length reported as consumed ends exactly at the separator of the checksum.\<close>

theorem parse_integrity:
  assumes "parse_into D Validation_ALL buf idx0 = (Inr (Complete c), idx)"
  shows "\<exists>bstr len body rest vs.
    buf = b ''8='' @ bstr @ SOH # b ''9='' @ len @ SOH # body @ rest \<and> SOH \<notin> set bstr \<and>
    len \<noteq> [] \<and> all_digits len \<and> dec_value len = length body \<and>
    read_tag buf (length buf - length rest) = Inr (Some (10, vs)) \<and>
    c = vs + 4 \<and> c \<le> length buf \<and> buf ! (vs + 3) = SOH \<and> all_digits (take 3 (drop vs buf)) \<and>
    dec_value (take 3 (drop vs buf)) = unat (checksum (take (length buf - length rest) buf))"
  by (rule parse_into_Complete [OF assms])

text \<open>C10: A well-formed frame that fits the index parses back to exactly its fields. Take any list of
  fields, none of them tag 10, whose values the dictionary lets a reader delimit (each at most 65535
  bytes, free of the separator or, for a DATA value, preceded by the field that states its length),
  and a begin string without the separator and of at most 65535 bytes. When the fields and the three
  of the frame are within the capacity of the index and within 65535, the largest count it can hold,
  and the bytes at hand are within 32 bits, the frame written around the fields (begin string, body
  length, fields, checksum), followed by any further bytes, is accepted with the length of the
  frame, and the view lists the begin string, the body length, the fields in order with their
  values, and the checksum.\<close>

theorem parse_wire_round_trip:
  assumes "fields_ok D (9, dec_digits (length (wire_body fs))) fs"
    and "SOH \<notin> set bstr" "length bstr \<le> U16_MAX"
    and "length fs + 3 \<le> fi_cap idx0" "length fs + 3 \<le> U16_MAX"
    and "frame = wire_frame bstr (wire_body fs)" "length (frame @ rest) \<le> U32_MAX"
  shows "\<exists>idx. parse_into D v (frame @ rest) idx0 = (Inr (Complete (length frame)), idx) \<and>
    mv_fields (fi_view idx (frame @ rest)) =
      (8, Some bstr) # (9, Some (dec_digits (length (wire_body fs)))) #
      map (\<lambda>f. (fst f, Some (snd f))) fs @
      [(10, Some (format_checksum (checksum (wire_prefix bstr (wire_body fs)))))]"
  by (rule parse_into_wire [OF assms])

definition sample_fields :: "(nat \<times> bytes) list" where
  "sample_fields = [(35, b ''0''), (49, b ''A''), (56, b ''B''), (34, b ''7'')]"

lemma sample_fields_ok: "fields_ok NoDict prev sample_fields"
  by (simp add: sample_fields_def NoDict_def b_def)

lemma sample_frame_length: "length (wire_frame (b ''FIX.4.4'') (wire_body sample_fields)) = 42"
  by (simp add: wire_frame_def wire_prefix_def wire_body_def wire_field_def sample_fields_def
      format_checksum_digits b_def dec_digits.simps)

theorem parse_wire_round_trip_witness:
  "\<exists>idx. parse_into NoDict Validation_ALL (wire_frame (b ''FIX.4.4'') (wire_body sample_fields) @ []) (FieldIndex_new 16) =
       (Inr (Complete (length (wire_frame (b ''FIX.4.4'') (wire_body sample_fields)))), idx) \<and>
    mv_fields (fi_view idx (wire_frame (b ''FIX.4.4'') (wire_body sample_fields) @ [])) =
      (8, Some (b ''FIX.4.4'')) # (9, Some (dec_digits (length (wire_body sample_fields)))) #
      map (\<lambda>f. (fst f, Some (snd f))) sample_fields @
      [(10, Some (format_checksum (checksum (wire_prefix (b ''FIX.4.4'') (wire_body sample_fields)))))]"
  by (rule parse_wire_round_trip [OF sample_fields_ok])
    (simp_all add: sample_frame_length, simp_all add: b_def FieldIndex_new_def sample_fields_def)

theorem parse_integrity_witness:
  "\<exists>idx bstr len body rest vs.
    wire_frame (b ''FIX.4.4'') (wire_body sample_fields) @ [] = b ''8='' @ bstr @ SOH # b ''9='' @ len @ SOH # body @ rest \<and>
    dec_value len = length body"
proof -
  have "SOH \<notin> set (b ''FIX.4.4'')" "length (b ''FIX.4.4'') \<le> U16_MAX" "length sample_fields + 3 \<le> fi_cap (FieldIndex_new 16)"
    "length sample_fields + 3 \<le> U16_MAX"
    by (simp_all add: b_def FieldIndex_new_def sample_fields_def)
  moreover have "length (wire_frame (b ''FIX.4.4'') (wire_body sample_fields) @ []) \<le> U32_MAX"
    by (simp add: sample_frame_length)
  ultimately obtain idx where
    "parse_into NoDict Validation_ALL (wire_frame (b ''FIX.4.4'') (wire_body sample_fields) @ []) (FieldIndex_new 16) =
       (Inr (Complete (length (wire_frame (b ''FIX.4.4'') (wire_body sample_fields)))), idx)"
    using parse_into_wire [OF sample_fields_ok _ _ _ _ refl] by blast
  from parse_integrity [OF this] show ?thesis by blast
qed

end
