(* ===== verification/Decimal.thy ===== *)
theory Decimal
  imports Index
begin

text \<open>
  \<open>crates/codec/src/decimal.rs\<close>: a FIX float read into a mantissa and a power of ten, and the
  canonical form written back. The \<open>Writer\<close> is a cursor over an output of fixed capacity that
  drops what does not fit; the development shows that nothing is ever dropped.
\<close>

record decimal =
  mantissa :: int
  exponent :: int

definition Decimal_new :: "int \<Rightarrow> int \<Rightarrow> decimal" where
  "Decimal_new m e = \<lparr>mantissa = m, exponent = e\<rparr>"

definition MAX_LEN :: nat where
  "MAX_LEN = 147"

subsection \<open>The output cursor\<close>

record writer =
  slots :: nat
  written :: bytes

definition Writer_new :: "nat \<Rightarrow> writer" where
  "Writer_new n = \<lparr>slots = n, written = []\<rparr>"

definition w_put :: "byte \<Rightarrow> writer \<Rightarrow> writer" where
  "w_put c w = (if slots w > 0 then w\<lparr>slots := slots w - 1, written := written w @ [c]\<rparr> else w)"

definition w_put_all :: "bytes \<Rightarrow> writer \<Rightarrow> writer" where
  "w_put_all cs w = fold w_put cs w"

definition w_repeat :: "byte \<Rightarrow> nat \<Rightarrow> writer \<Rightarrow> writer" where
  "w_repeat c n w = fold (\<lambda>_. w_put c) [0..<n] w"

subsection \<open>Writing\<close>

text \<open>The loop that fills the twenty digit slots from the right and stops when nothing is left.\<close>

fun digit_slots :: "nat \<Rightarrow> nat \<Rightarrow> bytes \<Rightarrow> bytes" where
  "digit_slots 0 n acc = acc"
| "digit_slots (Suc k) n acc =
     (let acc' = digit_byte (n mod 10) # acc; n' = n div 10 in
      if n' = 0 then acc' else digit_slots k n' acc')"

definition decimal_format :: "decimal \<Rightarrow> bytes" where
  "decimal_format d =
     (let digits = digit_slots 20 (nat \<bar>mantissa d\<bar>) [];
          len = length digits;
          w = Writer_new MAX_LEN;
          w = (if mantissa d < 0 then w_put 45 w else w);
          w = (if exponent d \<ge> 0 then
                 let w = w_put_all digits w in
                 if mantissa d \<noteq> 0 then w_repeat ZERO (nat (exponent d)) w else w
               else
                 let frac = nat (- exponent d) in
                 if len > frac then
                   w_put_all (drop (len - frac) digits) (w_put 46 (w_put_all (take (len - frac) digits) w))
                 else
                   w_put_all digits (w_repeat ZERO (frac - len) (w_put 46 (w_put ZERO w))))
      in written w)"

subsection \<open>Reading\<close>

record dec_state =
  magnitude :: nat
  overflow :: bool
  any_digit :: bool
  point :: bool
  fraction_digits :: nat

fun as_decimal_loop :: "bytes \<Rightarrow> dec_state \<Rightarrow> convert_error + dec_state" where
  "as_decimal_loop [] s = Inr s"
| "as_decimal_loop (c # cs) s =
     (let d = digit_of c in
      if d \<le> 9 then
        let s = s\<lparr>any_digit := True\<rparr>;
            s = (if point s then s\<lparr>fraction_digits := min U32_MAX (fraction_digits s + 1)\<rparr> else s);
            s = (if \<not> overflow s then
                   (case push_digit (nat I64_MAX) (magnitude s) d of
                      Some m \<Rightarrow> s\<lparr>magnitude := m\<rparr>
                    | None \<Rightarrow> s\<lparr>overflow := True\<rparr>)
                 else s)
        in as_decimal_loop cs s
      else if c = 46 \<and> \<not> point s then as_decimal_loop cs (s\<lparr>point := True\<rparr>)
      else Inl NotANumber)"

definition as_decimal :: "bytes \<Rightarrow> convert_error + decimal" where
  "as_decimal value =
     (let (negative, body) = (case value of c # rest \<Rightarrow> if c = 45 then (True, rest) else (False, value)
                                          | [] \<Rightarrow> (False, value)) in
      bindR (as_decimal_loop body \<lparr>magnitude = 0, overflow = False, any_digit = False, point = False, fraction_digits = 0\<rparr>)
        (\<lambda>s. if \<not> any_digit s then Inl NotANumber
              else if overflow s then Inl Overflow
              else if fraction_digits s > 128 then Inl Overflow
              else Inr (Decimal_new (if negative then - int (magnitude s) else int (magnitude s))
                          (- int (fraction_digits s)))))"

subsection \<open>The grammar\<close>

text \<open>\<open>-? digit* ('.' digit*)?\<close>: the integer and fraction digits of a text of that shape, and the
  number it names. This is the reference the byte loop is held to.\<close>

definition float_split :: "bytes \<Rightarrow> (bytes \<times> bytes) option" where
  "float_split cs =
     (let ds = takeWhile is_ascii_digit cs in
      case dropWhile is_ascii_digit cs of
        [] \<Rightarrow> Some (ds, [])
      | c # fs \<Rightarrow> if c = 46 \<and> all_digits fs then Some (ds, fs) else None)"

definition float_value :: "bytes \<Rightarrow> convert_error + decimal" where
  "float_value v =
     (let neg = (v \<noteq> [] \<and> hd v = 45) in
      case float_split (if neg then tl v else v) of
        None \<Rightarrow> Inl NotANumber
      | Some (ds, fs) \<Rightarrow>
          if ds @ fs = [] then Inl NotANumber
          else if int (dec_value (ds @ fs)) > I64_MAX \<or> length fs > 128 then Inl Overflow
          else Inr (Decimal_new ((if neg then - 1 else 1) * int (dec_value (ds @ fs))) (- int (length fs))))"

lemma as_decimal_loop_digits:
  assumes "all_digits ds" "magnitude s \<le> nat I64_MAX" "fraction_digits s + length ds \<le> U32_MAX"
  shows "\<exists>m. as_decimal_loop (ds @ cs) s =
    as_decimal_loop cs (s\<lparr>magnitude := m, overflow := overflow s \<or> magnitude s * 10 ^ length ds + dec_value ds > nat I64_MAX,
      any_digit := any_digit s \<or> ds \<noteq> [],
      fraction_digits := (if point s then fraction_digits s + length ds else fraction_digits s)\<rparr>) \<and>
    m \<le> nat I64_MAX \<and>
    (\<not> overflow s \<longrightarrow> magnitude s * 10 ^ length ds + dec_value ds \<le> nat I64_MAX \<longrightarrow> m = magnitude s * 10 ^ length ds + dec_value ds)"
  using assms
proof (induction ds arbitrary: s)
  case Nil
  then show ?case by (intro exI [of _ "magnitude s"]) auto
next
  case (Cons c ds)
  let ?k = "magnitude s * 10 + digit_of c"
  have split: "magnitude s * 10 ^ length (c # ds) + dec_value (c # ds) = ?k * 10 ^ length ds + dec_value ds"
    by (simp add: dec_value_Cons algebra_simps)
  let ?fd = "if point s then fraction_digits s + 1 else fraction_digits s"
  let ?s' = "if \<not> overflow s \<and> ?k \<le> nat I64_MAX then s\<lparr>any_digit := True, fraction_digits := ?fd, magnitude := ?k\<rparr>
    else s\<lparr>any_digit := True, fraction_digits := ?fd, overflow := True\<rparr>"
  have d: "digit_of c \<le> 9" "all_digits ds" using Cons.prems(1) digit_of_le_9_iff [of c] by auto
  have step: "as_decimal_loop (c # ds @ cs) s = as_decimal_loop (ds @ cs) ?s'"
    using d Cons.prems(3) by (cases s) (auto simp: Let_def push_digit_eq)
  have ov: "overflow ?s' \<or> magnitude ?s' * 10 ^ length ds + dec_value ds > nat I64_MAX \<longleftrightarrow>
      overflow s \<or> ?k * 10 ^ length ds + dec_value ds > nat I64_MAX"
    using shift_digits_greater [of "nat I64_MAX" ?k "length ds" "dec_value ds"] by auto
  have "magnitude ?s' \<le> nat I64_MAX" "fraction_digits ?s' + length ds \<le> U32_MAX"
    using Cons.prems(2,3) by auto
  from Cons.IH [OF d(2) this] obtain m where m: "as_decimal_loop (ds @ cs) ?s' =
      as_decimal_loop cs (?s'\<lparr>magnitude := m, overflow := overflow ?s' \<or> magnitude ?s' * 10 ^ length ds + dec_value ds > nat I64_MAX,
        any_digit := any_digit ?s' \<or> ds \<noteq> [],
        fraction_digits := (if point ?s' then fraction_digits ?s' + length ds else fraction_digits ?s')\<rparr>)"
    "m \<le> nat I64_MAX"
    "\<not> overflow ?s' \<longrightarrow> magnitude ?s' * 10 ^ length ds + dec_value ds \<le> nat I64_MAX \<longrightarrow>
      m = magnitude ?s' * 10 ^ length ds + dec_value ds"
    by blast
  have eq: "as_decimal_loop ((c # ds) @ cs) s = as_decimal_loop cs (s\<lparr>magnitude := m,
      overflow := overflow s \<or> ?k * 10 ^ length ds + dec_value ds > nat I64_MAX, any_digit := True,
      fraction_digits := (if point s then fraction_digits s + length (c # ds) else fraction_digits s)\<rparr>)"
    unfolding append_Cons step m(1) ov by (rule arg_cong [of _ _ "as_decimal_loop cs"]) simp
  have "m = ?k * 10 ^ length ds + dec_value ds" if "\<not> overflow s" "?k * 10 ^ length ds + dec_value ds \<le> nat I64_MAX"
    using m(3) that shift_digits_greater [of "nat I64_MAX" ?k "length ds" "dec_value ds"]
    by (auto split: if_splits)
  with eq m(2) show ?case
    unfolding split by (intro exI [of _ m]) auto
qed


abbreviation dec_start :: dec_state where
  "dec_start \<equiv> \<lparr>magnitude = 0, overflow = False, any_digit = False, point = False, fraction_digits = 0\<rparr>"

definition finish :: "bool \<Rightarrow> convert_error + dec_state \<Rightarrow> convert_error + decimal" where
  "finish neg r = bindR r
     (\<lambda>s. if \<not> any_digit s then Inl NotANumber
           else if overflow s then Inl Overflow
           else if fraction_digits s > 128 then Inl Overflow
           else Inr (Decimal_new (if neg then - int (magnitude s) else int (magnitude s)) (- int (fraction_digits s))))"

lemma all_digits_takeWhile [simp]: "all_digits (takeWhile is_ascii_digit cs)"
  by (auto simp: all_digits_def dest: set_takeWhileD)

lemma i64: "I64_MAX < int x \<longleftrightarrow> nat I64_MAX < x"
  by auto

lemma finish_loop:
  assumes "length cs \<le> U32_MAX"
  shows "finish neg (as_decimal_loop cs dec_start) =
    (case float_split cs of
       None \<Rightarrow> Inl NotANumber
     | Some (ds, fs) \<Rightarrow>
         if ds @ fs = [] then Inl NotANumber
         else if int (dec_value (ds @ fs)) > I64_MAX \<or> length fs > 128 then Inl Overflow
         else Inr (Decimal_new ((if neg then - 1 else 1) * int (dec_value (ds @ fs))) (- int (length fs))))"
proof -
  let ?ds = "takeWhile is_ascii_digit cs" and ?r = "dropWhile is_ascii_digit cs"
  have len: "length ?ds \<le> length cs" "length ?r \<le> length cs"
    by (simp_all add: length_takeWhile_le length_dropWhile_le)
  obtain m where m: "as_decimal_loop cs dec_start = as_decimal_loop ?r
      (dec_start\<lparr>magnitude := m, overflow := dec_value ?ds > nat I64_MAX, any_digit := ?ds \<noteq> [], fraction_digits := 0\<rparr>)"
    "m \<le> nat I64_MAX" "dec_value ?ds \<le> nat I64_MAX \<longrightarrow> m = dec_value ?ds"
    using as_decimal_loop_digits [of ?ds dec_start ?r] len assms unfolding takeWhile_dropWhile_id by auto
  let ?s1 = "dec_start\<lparr>magnitude := m, overflow := dec_value ?ds > nat I64_MAX, any_digit := ?ds \<noteq> [], point := True, fraction_digits := 0\<rparr>"
  show ?thesis
  proof (cases ?r)
    case Nil
    then have ds: "?ds = cs" using takeWhile_dropWhile_id [of is_ascii_digit cs] by simp
    have sp: "float_split cs = Some (cs, [])"
      by (simp only: float_split_def Let_def Nil ds list.case)
    have "as_decimal_loop cs dec_start = Inr (dec_start\<lparr>magnitude := m, overflow := dec_value cs > nat I64_MAX,
        any_digit := cs \<noteq> [], fraction_digits := 0\<rparr>)"
      using m(1) unfolding Nil ds by simp
    with sp m(3) show ?thesis unfolding ds by (auto simp: finish_def)
  next
    case (Cons c r)
    have nd: "\<not> is_ascii_digit c" using Cons by (metis hd_dropWhile list.distinct(1) list.sel(1))
    show ?thesis
    proof (cases "c = 46")
      case False
      with Cons m nd show ?thesis by (simp add: finish_def float_split_def Let_def digit_of_le_9_iff)
    next
      case True
      let ?fs = "takeWhile is_ascii_digit r" and ?q = "dropWhile is_ascii_digit r"
      have fl: "length ?fs \<le> U32_MAX"
        using length_takeWhile_le [of is_ascii_digit r] Cons len assms by simp
      have a: "as_decimal_loop cs dec_start = as_decimal_loop (?fs @ ?q) ?s1"
        using m(1) Cons True nd by (simp add: digit_of_le_9_iff)
      have "\<exists>k. as_decimal_loop (?fs @ ?q) ?s1 = as_decimal_loop ?q
          (?s1\<lparr>magnitude := k, overflow := dec_value ?ds > nat I64_MAX \<or> m * 10 ^ length ?fs + dec_value ?fs > nat I64_MAX,
            any_digit := ?ds \<noteq> [] \<or> ?fs \<noteq> [], fraction_digits := length ?fs\<rparr>) \<and>
        k \<le> nat I64_MAX \<and>
        (\<not> dec_value ?ds > nat I64_MAX \<longrightarrow> m * 10 ^ length ?fs + dec_value ?fs \<le> nat I64_MAX \<longrightarrow> k = m * 10 ^ length ?fs + dec_value ?fs)"
        using as_decimal_loop_digits [of ?fs ?s1 ?q] m(2) fl by simp
      then obtain k where k: "as_decimal_loop (?fs @ ?q) ?s1 = as_decimal_loop ?q
          (?s1\<lparr>magnitude := k, overflow := dec_value ?ds > nat I64_MAX \<or> m * 10 ^ length ?fs + dec_value ?fs > nat I64_MAX,
            any_digit := ?ds \<noteq> [] \<or> ?fs \<noteq> [], fraction_digits := length ?fs\<rparr>)"
        "\<not> dec_value ?ds > nat I64_MAX \<Longrightarrow> m * 10 ^ length ?fs + dec_value ?fs \<le> nat I64_MAX \<Longrightarrow> k = m * 10 ^ length ?fs + dec_value ?fs"
        by blast
      show ?thesis
      proof (cases ?q)
        case Nil
        then have r: "?fs = r" "all_digits r" by (auto simp: takeWhile_eq_all_conv all_digits_def)
        have v: "dec_value (?ds @ r) = dec_value ?ds * 10 ^ length r + dec_value r" by (rule dec_value_append)
        have big: "dec_value (?ds @ r) > nat I64_MAX" if "dec_value ?ds > nat I64_MAX"
          unfolding v using that by (rule shift_digits_greater)
        have ov: "(dec_value ?ds > nat I64_MAX \<or> m * 10 ^ length r + dec_value r > nat I64_MAX) \<longleftrightarrow>
            int (dec_value (?ds @ r)) > I64_MAX"
          unfolding i64 using big m(3) v by (cases "dec_value ?ds > nat I64_MAX") auto
        have kv: "k = dec_value (?ds @ r)" if "\<not> int (dec_value (?ds @ r)) > I64_MAX"
          using that k(2) m(3) big v unfolding i64 r(1) by auto
        have "as_decimal_loop cs dec_start = Inr (?s1\<lparr>magnitude := k, overflow := int (dec_value (?ds @ r)) > I64_MAX,
            any_digit := ?ds \<noteq> [] \<or> r \<noteq> [], fraction_digits := length r\<rparr>)"
          using a k(1) Nil unfolding r(1) ov by simp
        then show ?thesis
          using \<open>?r = c # r\<close> True r(2) kv by (auto simp: finish_def float_split_def Let_def)
      next
        case (Cons d q)
        have "\<not> is_ascii_digit d" using Cons by (metis hd_dropWhile list.distinct(1) list.sel(1))
        moreover have "\<not> all_digits r"
          using Cons calculation by (metis all_digits_def dropWhile_eq_Nil_conv list.distinct(1))
        ultimately show ?thesis
          using a k(1) Cons \<open>?r = c # r\<close> True
          by (simp add: finish_def float_split_def Let_def digit_of_le_9_iff)
      qed
    qed
  qed
qed

lemma as_decimal_eq: "length v \<le> U32_MAX \<Longrightarrow> as_decimal v = float_value v"
proof (cases v)
  case (Cons c rest)
  moreover assume "length v \<le> U32_MAX"
  ultimately show ?thesis
    using finish_loop [of rest True] finish_loop [of v False]
    by (cases "c = 45") (simp_all add: as_decimal_def float_value_def finish_def [symmetric])
qed (simp add: as_decimal_def float_value_def float_split_def)


subsection \<open>The canonical form\<close>

definition decimal_ok :: "decimal \<Rightarrow> bool" where
  "decimal_ok d \<longleftrightarrow> I64_MIN \<le> mantissa d \<and> mantissa d \<le> I64_MAX \<and> - 128 \<le> exponent d \<and> exponent d \<le> 127"

definition decimal_text :: "decimal \<Rightarrow> bytes" where
  "decimal_text d =
     (let ds = dec_digits (nat \<bar>mantissa d\<bar>); frac = nat (- exponent d) in
      (if mantissa d < 0 then [45] else []) @
      (if exponent d \<ge> 0 then ds @ (if mantissa d \<noteq> 0 then replicate (nat (exponent d)) ZERO else [])
       else if length ds > frac then take (length ds - frac) ds @ 46 # drop (length ds - frac) ds
       else ZERO # 46 # replicate (frac - length ds) ZERO @ ds))"

lemma digit_slots_eq: "n < 10 ^ k \<Longrightarrow> 0 < k \<Longrightarrow> digit_slots k n acc = dec_digits n @ acc"
proof (induction k n acc rule: digit_slots.induct)
  case (2 k n acc)
  show ?case
  proof (cases "n < 10")
    case True
    then show ?thesis by (simp add: dec_digits_small Let_def)
  next
    case False
    with 2(2) have "n div 10 < 10 ^ k" "0 < k" by (auto intro!: Nat.gr0I simp: div_less_iff_less_mult)
    with 2(1) [OF refl refl] False show ?thesis
      by (simp add: dec_digits_snoc [of n] Let_def div_eq_0_iff)
  qed
qed simp

lemma w_put_all_eq:
  "length cs \<le> slots w \<Longrightarrow> w_put_all cs w = w\<lparr>slots := slots w - length cs, written := written w @ cs\<rparr>"
  unfolding w_put_all_def by (induction cs arbitrary: w) (auto simp: w_put_def)

lemma w_repeat_eq:
  "n \<le> slots w \<Longrightarrow> w_repeat c n w = w\<lparr>slots := slots w - n, written := written w @ replicate n c\<rparr>"
  unfolding w_repeat_def by (induction n) (auto simp: w_put_def replicate_append_same [symmetric])

lemma w_put_eq: "0 < slots w \<Longrightarrow> w_put c w = w\<lparr>slots := slots w - 1, written := written w @ [c]\<rparr>"
  by (simp add: w_put_def)

lemma decimal_digits_length:
  assumes "decimal_ok d"
  shows "nat \<bar>mantissa d\<bar> < 10 ^ 20" and "length (dec_digits (nat \<bar>mantissa d\<bar>)) \<le> 19"
proof -
  have "nat \<bar>mantissa d\<bar> < 10 ^ 19" using assms by (auto simp: decimal_ok_def nat_less_iff)
  then show "nat \<bar>mantissa d\<bar> < 10 ^ 20" "length (dec_digits (nat \<bar>mantissa d\<bar>)) \<le> 19"
    using length_dec_digits_le [of "nat \<bar>mantissa d\<bar>" 19] by simp_all
qed

lemma decimal_format_eq:
  assumes "decimal_ok d"
  shows "decimal_format d = decimal_text d"
proof -
  have e: "nat (exponent d) \<le> 127" "nat (- exponent d) \<le> 128" using assms by (auto simp: decimal_ok_def)
  note l = decimal_digits_length [OF assms]
  define ds where "ds = dec_digits (nat \<bar>mantissa d\<bar>)"
  have dg: "digit_slots 20 (nat \<bar>mantissa d\<bar>) [] = ds" and ld: "length ds \<le> 19"
    using l digit_slots_eq [of "nat \<bar>mantissa d\<bar>" 20 "[]"] by (simp_all add: ds_def)
  define w where "w = (if mantissa d < 0 then w_put 45 (Writer_new MAX_LEN) else Writer_new MAX_LEN)"
  have w: "146 \<le> slots w" "written w = (if mantissa d < 0 then [45] else [])"
    by (simp_all add: w_def w_put_def Writer_new_def MAX_LEN_def)
  show ?thesis
  proof (cases "0 \<le> exponent d")
    case True
    then show ?thesis
      unfolding decimal_format_def decimal_text_def Let_def dg w_def [symmetric] ds_def [symmetric]
      using w ld e(1) by (simp add: w_put_all_eq w_repeat_eq)
  next
    case False
    define frac where "frac = nat (- exponent d)"
    show ?thesis
      unfolding decimal_format_def decimal_text_def Let_def dg w_def [symmetric] ds_def [symmetric] frac_def [symmetric]
      using False w ld e(2) [folded frac_def] by (simp add: w_put_all_eq w_repeat_eq w_put_eq)
  qed
qed

lemma decimal_text_length: "decimal_ok d \<Longrightarrow> length (decimal_text d) \<le> MAX_LEN"
  using decimal_digits_length [of d] by (auto simp: decimal_text_def decimal_ok_def MAX_LEN_def Let_def)

lemma float_split_plain: "all_digits ds \<Longrightarrow> float_split ds = Some (ds, [])"
proof -
  assume "all_digits ds"
  then have "takeWhile is_ascii_digit ds = ds" "dropWhile is_ascii_digit ds = []"
    by (auto simp: all_digits_def takeWhile_eq_all_conv)
  then show ?thesis by (simp only: float_split_def Let_def list.case)
qed

lemma float_split_point: "all_digits ds \<Longrightarrow> all_digits fs \<Longrightarrow> float_split (ds @ 46 # fs) = Some (ds, fs)"
proof -
  assume a: "all_digits ds" "all_digits fs"
  have "\<not> is_ascii_digit 46" by (simp add: is_ascii_digit_def)
  with a have "takeWhile is_ascii_digit (ds @ 46 # fs) = ds" "dropWhile is_ascii_digit (ds @ 46 # fs) = 46 # fs"
    by (simp_all add: all_digits_def takeWhile_append2 dropWhile_append2)
  with a(2) show ?thesis by (simp add: float_split_def)
qed

lemma zero_digit [simp]: "is_ascii_digit ZERO" "digit_of ZERO = 0"
  by (simp_all add: is_ascii_digit_def digit_of_def)

lemma all_digits_replicate [simp]: "all_digits (replicate n ZERO)"
  by (simp add: all_digits_def)

lemma dec_value_zeros [simp]: "dec_value (replicate n ZERO @ ds) = dec_value ds"
  by (induction n) (simp_all add: dec_value_Cons)

lemma all_digits_take_drop: "all_digits ds \<Longrightarrow> all_digits (take k ds) \<and> all_digits (drop k ds)"
  by (auto simp: all_digits_def dest: in_set_takeD in_set_dropD)

lemma float_value_signed:
  assumes "float_split cs = Some (ds, fs)" "ds @ fs \<noteq> []" "length fs \<le> 128" "cs \<noteq> []" "hd cs \<noteq> 45"
    and "int (dec_value (ds @ fs)) \<le> I64_MAX"
  shows "float_value ((if neg then [45] else []) @ cs) =
    Inr (Decimal_new ((if neg then - 1 else 1) * int (dec_value (ds @ fs))) (- int (length fs)))"
  using assms by (auto simp: float_value_def Let_def)

lemma digits_hd: "all_digits ds \<Longrightarrow> ds \<noteq> [] \<Longrightarrow> hd (ds @ cs) \<noteq> 45"
  using digit_ne_control(3) by (cases ds) auto

lemma decimal_round_trip:
  assumes "\<bar>mantissa d\<bar> \<le> I64_MAX" "- 128 \<le> exponent d" "exponent d \<le> 0"
  shows "float_value (decimal_text d) = Inr d"
proof -
  let ?n = "nat \<bar>mantissa d\<bar>"
  let ?ds = "dec_digits ?n" and ?frac = "nat (- exponent d)" and ?neg = "mantissa d < 0"
  have v: "int (dec_value ?ds) = \<bar>mantissa d\<bar>" by simp
  have f128: "?frac \<le> 128" using assms(2) by simp
  have m: "(if ?neg then - 1 else 1) * \<bar>mantissa d\<bar> = mantissa d" by simp
  consider (zero) "exponent d = 0" | (inner) "exponent d < 0" "length ?ds > ?frac"
    | (outer) "exponent d < 0" "length ?ds \<le> ?frac" using assms(3) by linarith
  then show ?thesis
  proof cases
    case zero
    then have "decimal_text d = (if ?neg then [45] else []) @ ?ds" by (simp add: decimal_text_def Let_def)
    then show ?thesis
      using float_value_signed [OF float_split_plain [of ?ds], of ?neg] assms(1) v m zero digits_hd [of ?ds "[]"]
      by (simp add: Decimal_new_def)
  next
    case inner
    let ?w = "take (length ?ds - ?frac) ?ds" and ?t = "drop (length ?ds - ?frac) ?ds"
    have t: "decimal_text d = (if ?neg then [45] else []) @ (?w @ 46 # ?t)"
      using inner by (simp add: decimal_text_def Let_def)
    have ad: "all_digits ?w" "all_digits ?t" using all_digits_take_drop [of ?ds] by simp_all
    have "?w \<noteq> []" "length ?t = ?frac" using inner by auto
    then have "float_value (decimal_text d) = Inr (Decimal_new ((if ?neg then - 1 else 1) * int (dec_value (?w @ ?t))) (- int (length ?t)))"
      unfolding t using assms v digits_hd [OF ad(1)]
      by (intro float_value_signed [OF float_split_point [OF ad]]) simp_all
    then show ?thesis
      unfolding append_take_drop_id v m \<open>length ?t = ?frac\<close> using inner(1) by (simp add: Decimal_new_def)
  next
    case outer
    let ?z = "replicate (?frac - length ?ds) ZERO @ ?ds"
    have t: "decimal_text d = (if ?neg then [45] else []) @ ([ZERO] @ 46 # ?z)"
      using outer by (simp add: decimal_text_def Let_def)
    have "dec_value ([ZERO] @ ?z) = dec_value ?ds" "length ?z = ?frac"
      using outer by (simp_all add: dec_value_Cons)
    moreover have "float_value (decimal_text d) = Inr (Decimal_new ((if ?neg then - 1 else 1) * int (dec_value ([ZERO] @ ?z))) (- int (length ?z)))"
      unfolding t using assms v calculation f128
      by (intro float_value_signed float_split_point) simp_all
    ultimately show ?thesis
      unfolding v m using outer(1) by (simp add: Decimal_new_def)
  qed
qed

subsection \<open>Properties\<close>

text \<open>\<open>as_decimal\<close> reads a FIX float exactly: digits with at most one point and an optional minus
  sign become the mantissa and the (negated) number of fraction digits; the result is refused as
  \<open>Overflow\<close> exactly when the mantissa leaves 64 bits or the fraction is longer than an exponent
  can state, and as \<open>NotANumber\<close> exactly when the text is not of that shape.\<close>

theorem as_decimal_correct:
  assumes "length v \<le> U32_MAX"
  shows "as_decimal v = float_value v"
  by (rule as_decimal_eq [OF assms])

theorem as_decimal_correct_witness: "as_decimal (b ''-12.50'') = float_value (b ''-12.50'')"
  by (rule as_decimal_correct) (simp add: b_def)

text \<open>Writing a decimal never drops a byte: for every 64-bit mantissa and 8-bit exponent the text
  the fixed buffer produces is the full decimal notation of the number, and it fits the buffer.\<close>

theorem decimal_format_complete:
  assumes "decimal_ok d"
  shows "decimal_format d = decimal_text d \<and> length (decimal_text d) \<le> MAX_LEN"
  using decimal_format_eq [OF assms] decimal_text_length [OF assms] by simp

theorem decimal_format_complete_witness:
  "decimal_format \<lparr>mantissa = - 1250, exponent = - 2\<rparr> = decimal_text \<lparr>mantissa = - 1250, exponent = - 2\<rparr> \<and>
   length (decimal_text \<lparr>mantissa = - 1250, exponent = - 2\<rparr>) \<le> MAX_LEN"
  by (rule decimal_format_complete) (simp add: decimal_ok_def)

text \<open>A decimal with no positive exponent survives writing and reading back with mantissa and
  exponent unchanged, so trailing zeros (the precision a price was quoted with) are kept.\<close>

theorem decimal_reads_back:
  assumes "\<bar>mantissa d\<bar> \<le> I64_MAX" "- 128 \<le> exponent d" "exponent d \<le> 0"
  shows "as_decimal (decimal_format d) = Inr d"
proof -
  have ok: "decimal_ok d" using assms by (auto simp: decimal_ok_def)
  have "length (decimal_text d) \<le> U32_MAX" using decimal_text_length [OF ok] by (simp add: MAX_LEN_def)
  then show ?thesis
    using decimal_round_trip [OF assms] by (simp add: decimal_format_eq [OF ok] as_decimal_eq)
qed

theorem decimal_reads_back_witness:
  "as_decimal (decimal_format \<lparr>mantissa = - 1250, exponent = - 2\<rparr>) = Inr \<lparr>mantissa = - 1250, exponent = - 2\<rparr>"
  by (rule decimal_reads_back) simp_all

end
