(* ===== verification/Timestamp.thy ===== *)
theory Timestamp
  imports Checksum
begin

text \<open>
  \<open>crates/codec/src/timestamp.rs\<close>: the cached \<open>UTCTimestamp\<close> writer and the calendar
  conversion behind it. The cache keeps the fifteen bytes that change once a minute; the theorem
  of this theory is that the cache never shows: every call writes what a fresh formatting writes.
\<close>

datatype precision = Millis | Micros | Nanos

definition fractional_digits :: "precision \<Rightarrow> nat" where
  "fractional_digits p = (case p of Millis \<Rightarrow> 3 | Micros \<Rightarrow> 6 | Nanos \<Rightarrow> 9)"

definition precision_bytes :: "precision \<Rightarrow> nat" where
  "precision_bytes p = 18 + fractional_digits p"

definition from_fractional_digits :: "nat \<Rightarrow> precision option" where
  "from_fractional_digits n =
     (if n = 3 then Some Millis else if n = 6 then Some Micros else if n = 9 then Some Nanos else None)"

definition coarser :: "precision \<Rightarrow> precision \<Rightarrow> precision" where
  "coarser p q = (if fractional_digits p \<le> fractional_digits q then p else q)"

abbreviation (input) TIMESTAMP_LEN :: nat where "TIMESTAMP_LEN \<equiv> 21"
abbreviation (input) TIMESTAMP_MAX_LEN :: nat where "TIMESTAMP_MAX_LEN \<equiv> 27"

subsection \<open>Days to a civil date\<close>

text \<open>Rust's integer division truncates towards zero.\<close>

definition trunc_div :: "int \<Rightarrow> int \<Rightarrow> int" where
  "trunc_div x y = (if x \<ge> 0 then x div y else - ((- x) div y))"

definition year_of_era :: "nat \<Rightarrow> nat" where
  "year_of_era doe = (doe - doe div 1460 + doe div 36524 - doe div 146096) div 365"

definition civil_from_days :: "int \<Rightarrow> nat \<times> nat \<times> nat" where
  "civil_from_days z0 =
     (let z = z0 + 719468;
          era = trunc_div (if z \<ge> 0 then z else z - 146096) 146097;
          doe = nat (z - era * 146097);
          yoe = year_of_era doe;
          y = int yoe + era * 400;
          doy = doe - (365 * yoe + yoe div 4 - yoe div 100);
          mp = (5 * doy + 2) div 153;
          d = doy - (153 * mp + 2) div 5 + 1;
          m = (if mp < 10 then mp + 3 else mp - 9);
          y = (if m \<le> 2 then y + 1 else y)
      in (nat (y mod 2 ^ 32), m, d))"

subsection \<open>The cache\<close>

record timestamp_cache =
  ts_buf :: bytes
  ts_minute :: nat
  ts_precision :: precision

definition TimestampCache_with_precision :: "precision \<Rightarrow> timestamp_cache" where
  "TimestampCache_with_precision p =
     \<lparr>ts_buf = replicate TIMESTAMP_MAX_LEN ZERO, ts_minute = U64_MAX, ts_precision = p\<rparr>"

definition TimestampCache_new :: timestamp_cache where
  "TimestampCache_new = TimestampCache_with_precision Millis"

text \<open>Two and four digits into place; the narrowing to a byte is the word's.\<close>

definition write2 :: "nat \<Rightarrow> nat \<Rightarrow> bytes \<Rightarrow> bytes" where
  "write2 at v out = out[at := digit_byte (v div 10), at + 1 := digit_byte (v mod 10)]"

definition write4 :: "nat \<Rightarrow> nat \<Rightarrow> bytes \<Rightarrow> bytes" where
  "write4 at v out = out[at := digit_byte (v div 1000), at + 1 := digit_byte (v div 100 mod 10),
     at + 2 := digit_byte (v div 10 mod 10), at + 3 := digit_byte (v mod 10)]"

definition rebuild_prefix :: "nat \<Rightarrow> bytes \<Rightarrow> bytes" where
  "rebuild_prefix minute buf =
     (let days = int (minute div 1440);
          mins_of_day = minute mod 1440;
          (y, m, d) = civil_from_days days;
          buf = write4 0 y buf;
          buf = write2 4 m buf;
          buf = write2 6 d buf;
          buf = buf[8 := 45];
          buf = write2 9 (mins_of_day div 60) buf;
          buf = buf[11 := 58];
          buf = write2 12 (mins_of_day mod 60) buf
      in buf[14 := 58])"

text \<open>The fraction digits, least significant first, into the slots counted down from \<open>k\<close>.\<close>

fun write_fraction :: "nat \<Rightarrow> nat \<Rightarrow> nat \<Rightarrow> bytes \<Rightarrow> bytes" where
  "write_fraction at 0 fraction out = out"
| "write_fraction at (Suc k) fraction out =
     write_fraction at k (fraction div 10) (out[at + k := digit_byte (fraction mod 10)])"

definition ts_format :: "timestamp_cache \<Rightarrow> nat \<Rightarrow> nat \<Rightarrow> bytes \<times> timestamp_cache" where
  "ts_format c millis sub_ms_nanos =
     (let secs = millis div 1000;
          minute = secs div 60;
          c = (if minute \<noteq> ts_minute c
               then c\<lparr>ts_buf := rebuild_prefix minute (ts_buf c), ts_minute := minute\<rparr> else c);
          s = secs mod 60;
          ms = millis mod 1000
      in if ts_precision c = Millis then
           let buf = (ts_buf c)[15 := digit_byte (s div 10), 16 := digit_byte (s mod 10), 17 := 46,
                 18 := digit_byte (ms div 100), 19 := digit_byte (ms div 10 mod 10), 20 := digit_byte (ms mod 10)]
           in (take TIMESTAMP_LEN buf, c\<lparr>ts_buf := buf\<rparr>)
         else
           let nanos = (if sub_ms_nanos \<ge> 1000000 then 999999 else sub_ms_nanos);
               end = 18 + fractional_digits (ts_precision c);
               fraction = (case ts_precision c of
                   Millis \<Rightarrow> ms
                 | Micros \<Rightarrow> ms * 1000 + nanos div 1000
                 | Nanos \<Rightarrow> ms * 1000000 + nanos);
               buf = (ts_buf c)[15 := digit_byte (s div 10), 16 := digit_byte (s mod 10), 17 := 46];
               buf = write_fraction 18 (fractional_digits (ts_precision c)) fraction buf
           in (take end buf, c\<lparr>ts_buf := buf\<rparr>))"

subsection \<open>The stamp a fresh formatting writes\<close>

definition two_digits :: "nat \<Rightarrow> bytes" where
  "two_digits v = [digit_byte (v div 10), digit_byte (v mod 10)]"

definition four_digits :: "nat \<Rightarrow> bytes" where
  "four_digits v = [digit_byte (v div 1000), digit_byte (v div 100 mod 10), digit_byte (v div 10 mod 10), digit_byte (v mod 10)]"

fun fixed_digits :: "nat \<Rightarrow> nat \<Rightarrow> bytes" where
  "fixed_digits 0 v = []"
| "fixed_digits (Suc k) v = fixed_digits k (v div 10) @ [digit_byte (v mod 10)]"

definition minute_prefix :: "nat \<Rightarrow> bytes" where
  "minute_prefix minute =
     (case civil_from_days (int (minute div 1440)) of (y, m, d) \<Rightarrow>
        four_digits y @ two_digits m @ two_digits d @ [45] @ two_digits (minute mod 1440 div 60) @ [58] @
        two_digits (minute mod 1440 mod 60) @ [58])"

definition stamp_fraction :: "precision \<Rightarrow> nat \<Rightarrow> nat \<Rightarrow> nat" where
  "stamp_fraction p millis nanos =
     (case p of Millis \<Rightarrow> millis mod 1000
              | Micros \<Rightarrow> millis mod 1000 * 1000 + min nanos 999999 div 1000
              | Nanos \<Rightarrow> millis mod 1000 * 1000000 + min nanos 999999)"

definition stamp_text :: "precision \<Rightarrow> nat \<Rightarrow> nat \<Rightarrow> bytes" where
  "stamp_text p millis nanos =
     minute_prefix (millis div 60000) @ two_digits (millis div 1000 mod 60) @ [46] @
     fixed_digits (fractional_digits p) (stamp_fraction p millis nanos)"

subsection \<open>The cache is transparent\<close>

definition ts_ok :: "timestamp_cache \<Rightarrow> bool" where
  "ts_ok c \<longleftrightarrow> length (ts_buf c) = TIMESTAMP_MAX_LEN \<and>
     (ts_minute c = U64_MAX \<or> take 15 (ts_buf c) = minute_prefix (ts_minute c))"

lemma length_minute_prefix [simp]: "length (minute_prefix m) = 15"
  by (simp add: minute_prefix_def four_digits_def two_digits_def split: prod.splits)

lemma length_fixed_digits [simp]: "length (fixed_digits k v) = k"
  by (induction k arbitrary: v) auto


lemma rebuild_prefix_take:
  assumes "length buf = TIMESTAMP_MAX_LEN"
  shows "take 15 (rebuild_prefix minute buf) = minute_prefix minute"
proof -
  obtain as where as: "as = take 15 buf" "length as = Suc (Suc (Suc (Suc (Suc (Suc (Suc (Suc (Suc (Suc (Suc (Suc (Suc (Suc (Suc 0))))))))))))))"
    using assms by simp
  obtain a0 a1 a2 a3 a4 a5 a6 a7 a8 a9 a10 a11 a12 a13 a14
    where "as = [a0, a1, a2, a3, a4, a5, a6, a7, a8, a9, a10, a11, a12, a13, a14]"
    using as(2) by (simp only: length_Suc_conv length_0_conv) blast
  then have "take 15 buf = [a0, a1, a2, a3, a4, a5, a6, a7, a8, a9, a10, a11, a12, a13, a14]"
    using as(1) by simp
  then show ?thesis
    by (simp add: rebuild_prefix_def minute_prefix_def write4_def write2_def four_digits_def two_digits_def
        take_update_swap Let_def split: prod.splits)
qed

lemma length_rebuild_prefix [simp]: "length (rebuild_prefix m buf) = length buf"
  by (simp add: rebuild_prefix_def write4_def write2_def Let_def split: prod.splits)

lemma length_write_fraction [simp]: "length (write_fraction at k f out) = length out"
  by (induction at k f out rule: write_fraction.induct) auto

lemma write_fraction_eq:
  "at + k \<le> length out \<Longrightarrow>
   write_fraction at k f out = take at out @ fixed_digits k f @ drop (at + k) out"
proof (induction at k f out rule: write_fraction.induct)
  case (2 at k f out)
  then show ?case
    by (simp add: drop_update_swap take_update_swap)
      (simp add: Cons_nth_drop_Suc[symmetric] list_update_beyond)
qed (simp)


lemma fraction_digits:
  "ms < 1000 \<Longrightarrow> fixed_digits 3 ms = [digit_byte (ms div 100), digit_byte (ms div 10 mod 10), digit_byte (ms mod 10)]"
  by (simp add: numeral_3_eq_3 div_mult2_eq [symmetric])

definition refreshed :: "timestamp_cache \<Rightarrow> nat \<Rightarrow> timestamp_cache" where
  "refreshed c minute =
     (if minute \<noteq> ts_minute c
      then c\<lparr>ts_buf := rebuild_prefix minute (ts_buf c), ts_minute := minute\<rparr> else c)"

lemma refreshed_prefix:
  assumes "ts_ok c" "minute < U64_MAX"
  shows "take 15 (ts_buf (refreshed c minute)) = minute_prefix minute"
    "length (ts_buf (refreshed c minute)) = TIMESTAMP_MAX_LEN"
    "ts_minute (refreshed c minute) = minute" "ts_precision (refreshed c minute) = ts_precision c"
  using assms by (auto simp: refreshed_def ts_ok_def rebuild_prefix_take)

lemma after_prefix:
  assumes "take 15 buf = p" "length buf = TIMESTAMP_MAX_LEN"
  obtains r0 r1 r2 r3 r4 r5 rest where "buf = p @ r0 # r1 # r2 # r3 # r4 # r5 # rest" "length rest = 6" "length p = 15"
proof -
  have "length (drop 15 buf) = Suc (Suc (Suc (Suc (Suc (Suc 6)))))"
    using assms(2) by simp
  then obtain r0 r1 r2 r3 r4 r5 rest where "drop 15 buf = r0 # r1 # r2 # r3 # r4 # r5 # rest" "length rest = 6"
    by (simp only: length_Suc_conv) blast
  then show thesis
    using that [of r0 r1 r2 r3 r4 r5 rest] assms append_take_drop_id [of 15 buf] by auto
qed

lemma write_fraction_stamp:
  "length p = 15 \<Longrightarrow> length tail = 9 \<Longrightarrow> k \<le> 9 \<Longrightarrow>
   write_fraction 18 k f (p @ x # y # z # tail) = p @ x # y # z # fixed_digits k f @ drop k tail"
  by (simp add: write_fraction_eq numeral_3_eq_3)

lemma fractional_digits_le: "fractional_digits p \<le> 9"
  by (simp add: fractional_digits_def split: precision.splits)

lemma stamp_fraction_eq:
  "p \<noteq> Millis \<Longrightarrow> stamp_fraction p millis ns =
     (case p of Millis \<Rightarrow> millis mod 1000
       | Micros \<Rightarrow> millis mod 1000 * 1000 + (if ns \<ge> 1000000 then 999999 else ns) div 1000
       | Nanos \<Rightarrow> millis mod 1000 * 1000000 + (if ns \<ge> 1000000 then 999999 else ns))"
  by (cases p) (auto simp: stamp_fraction_def min_def)

lemma ts_format_eq:
  assumes "ts_ok c" "millis \<le> U64_MAX"
  shows "\<exists>rest. length rest = 9 - fractional_digits (ts_precision c) \<and>
     ts_format c millis ns = (stamp_text (ts_precision c) millis ns,
       (refreshed c (millis div 60000))\<lparr>ts_buf := stamp_text (ts_precision c) millis ns @ rest\<rparr>)"
proof -
  let ?m = "millis div 60000" and ?p = "ts_precision c"
  have m': "millis div 1000 div 60 = ?m" by (simp add: div_mult2_eq [symmetric])
  have "?m < U64_MAX" using assms(2) by simp
  note r = refreshed_prefix [OF assms(1) this]
  obtain r0 r1 r2 r3 r4 r5 rest where buf: "length rest = 6"
      "ts_buf (refreshed c ?m) = minute_prefix ?m @ r0 # r1 # r2 # r3 # r4 # r5 # rest"
    using after_prefix [OF r(1,2)] by metis
  show ?thesis
  proof (cases "?p = Millis")
    case True
    then show ?thesis
      using buf r(4)
      by (intro exI [of _ rest]) (simp add: ts_format_def Let_def m' refreshed_def [symmetric] stamp_text_def
          stamp_fraction_def two_digits_def fractional_digits_def fraction_digits list_update_append)
  next
    case False
    have "ts_format c millis ns = (stamp_text ?p millis ns,
       (refreshed c ?m)\<lparr>ts_buf := stamp_text ?p millis ns @ drop (fractional_digits ?p) (r3 # r4 # r5 # rest)\<rparr>)"
      using buf r(4) False fractional_digits_le [of ?p]
      by (simp add: ts_format_def Let_def m' refreshed_def [symmetric] stamp_text_def
          stamp_fraction_eq [symmetric] two_digits_def write_fraction_stamp list_update_append numeral_3_eq_3)
    then show ?thesis
      using buf(1) by (intro exI [of _ "drop (fractional_digits ?p) (r3 # r4 # r5 # rest)"]) simp
  qed
qed

theorem ts_format_stamp:
  assumes "ts_ok c" "millis \<le> U64_MAX"
  shows "fst (ts_format c millis ns) = stamp_text (ts_precision c) millis ns"
    and "ts_ok (snd (ts_format c millis ns))"
    and "ts_precision (snd (ts_format c millis ns)) = ts_precision c"
proof -
  have m: "millis div 60000 < U64_MAX" using assms(2) by simp
  show "fst (ts_format c millis ns) = stamp_text (ts_precision c) millis ns"
    "ts_precision (snd (ts_format c millis ns)) = ts_precision c"
    "ts_ok (snd (ts_format c millis ns))"
    using ts_format_eq [OF assms, of ns] refreshed_prefix [OF assms(1) m] fractional_digits_le [of "ts_precision c"]
    by (auto simp: ts_ok_def stamp_text_def two_digits_def)
qed

lemma ts_ok_new [simp]: "ts_ok (TimestampCache_with_precision p)"
  by (simp add: ts_ok_def TimestampCache_with_precision_def)

subsection \<open>Properties\<close>

text \<open>A run of calls on one cache.\<close>

fun ts_run :: "timestamp_cache \<Rightarrow> (nat \<times> nat) list \<Rightarrow> bytes list" where
  "ts_run c [] = []"
| "ts_run c ((millis, ns) # rest) = (let (out, c') = ts_format c millis ns in out # ts_run c' rest)"

lemma ts_run_stamps:
  "ts_ok c \<Longrightarrow> \<forall>(millis, ns) \<in> set calls. millis \<le> U64_MAX \<Longrightarrow>
   ts_run c calls = map (\<lambda>(millis, ns). stamp_text (ts_precision c) millis ns) calls"
proof (induction calls arbitrary: c)
  case (Cons call calls)
  obtain millis ns where call: "call = (millis, ns)" by force
  note f = ts_format_stamp [OF Cons.prems(1), of millis ns]
  show ?case
    using Cons.prems f Cons.IH [of "snd (ts_format c millis ns)"]
    by (cases "ts_format c millis ns") (simp add: call)
qed simp

text \<open>The minute cache is transparent. Over any sequence of instants, in any order and at any of
  the three precisions, every stamp a cache writes is the one a fresh formatting of that instant
  gives: no call leaves behind a prefix that a later call in another minute shows.\<close>

theorem stamp_cache_transparent:
  assumes "\<forall>(millis, ns) \<in> set calls. millis \<le> U64_MAX"
  shows "ts_run (TimestampCache_with_precision p) calls = map (\<lambda>(millis, ns). stamp_text p millis ns) calls"
  using ts_run_stamps [OF ts_ok_new assms] by (simp add: TimestampCache_with_precision_def)

theorem stamp_cache_transparent_witness:
  "ts_run (TimestampCache_with_precision Micros) [(60000, 5), (0, 7), (60001, 0)] =
   map (\<lambda>(millis, ns). stamp_text Micros millis ns) [(60000, 5), (0, 7), (60001, 0)]"
  by (rule stamp_cache_transparent) simp

end
