(* ===== verification/Clock.thy ===== *)
theory Clock
  imports Timestamp
begin

text \<open>
  \<open>crates/session/src/clock.rs\<close>: reading a \<open>UTCTimestamp\<close>. The writer's calendar
  (\<open>civil_from_days\<close> of \<open>crates/codec/src/timestamp.rs\<close>) and the reader's
  (\<open>days_from_civil\<close>) are proved inverse, and a stamp the cache writes reads back as the
  instant it was written for.
\<close>

abbreviation (input) DAYS_YEAR_ZERO_TO_EPOCH :: int where "DAYS_YEAR_ZERO_TO_EPOCH \<equiv> 719528"
abbreviation (input) MILLIS_YEAR_ZERO_TO_EPOCH :: nat where "MILLIS_YEAR_ZERO_TO_EPOCH \<equiv> 719528 * 86400000"
abbreviation (input) LEN_SECONDS :: nat where "LEN_SECONDS \<equiv> 17"
abbreviation (input) LEN_MAX :: nat where "LEN_MAX \<equiv> 30"
abbreviation (input) LEN_MILLIS :: nat where "LEN_MILLIS \<equiv> 21"

subsection \<open>Calendar\<close>

definition is_leap :: "nat \<Rightarrow> bool" where
  "is_leap y \<longleftrightarrow> 4 dvd y \<and> (\<not> 100 dvd y \<or> 400 dvd y)"

definition days_in_month :: "nat \<Rightarrow> nat \<Rightarrow> nat" where
  "days_in_month y m =
     (if m \<in> {1, 3, 5, 7, 8, 10, 12} then 31
      else if m \<in> {4, 6, 9, 11} then 30
      else if m = 2 then (if is_leap y then 29 else 28)
      else 0)"

definition days_from_civil :: "int \<Rightarrow> nat \<Rightarrow> nat \<Rightarrow> int" where
  "days_from_civil y0 m d =
     (let y = (if m \<le> 2 then y0 - 1 else y0);
          era = trunc_div (if y \<ge> 0 then y else y - 399) 400;
          yoe = nat (y - era * 400);
          mp = (if m > 2 then m - 3 else m + 9);
          doy = (153 * mp + 2) div 5 + d - 1;
          doe = yoe * 365 + yoe div 4 - yoe div 100 + doy
      in era * 146097 + int doe - 719468)"

subsection \<open>Reading a stamp\<close>

fun num_loop :: "nat \<Rightarrow> bytes \<Rightarrow> nat option" where
  "num_loop v [] = Some v"
| "num_loop v (c # cs) = (if is_ascii_digit c then num_loop (v * 10 + digit_of c) cs else None)"

definition num :: "bytes \<Rightarrow> nat \<Rightarrow> nat \<Rightarrow> nat option" where
  "num s at width = (case get_range s at (at + width) of None \<Rightarrow> None | Some ds \<Rightarrow> num_loop 0 ds)"

text \<open>The three arms of the width match: no fraction, three digits read in place, and the general
  rule, which pads a short fraction on the right.\<close>

definition parse_milli :: "bytes \<Rightarrow> nat option" where
  "parse_milli s =
     (let n = length s in
      if n = LEN_SECONDS then Some 0
      else if n = LEN_MILLIS then
        (case get_range s LEN_SECONDS LEN_MILLIS of
           Some [dot, h, t, u] \<Rightarrow>
             if dot = 46 \<and> is_ascii_digit h \<and> is_ascii_digit t \<and> is_ascii_digit u
             then Some (digit_of h * 100 + digit_of t * 10 + digit_of u) else None
         | _ \<Rightarrow> None)
      else if LEN_SECONDS + 2 \<le> n \<and> n \<le> LEN_MAX then
        if nth_opt s LEN_SECONDS \<noteq> Some 46 then None
        else (case get_from s (LEN_SECONDS + 1) of
            None \<Rightarrow> None
          | Some frac \<Rightarrow>
              if \<not> list_all is_ascii_digit frac then None
              else let digit = (\<lambda>i. digit_of (case nth_opt frac i of Some c \<Rightarrow> c | None \<Rightarrow> ZERO))
                   in Some (digit 0 * 100 + digit 1 * 10 + digit 2))
      else None)"

definition parse_utc :: "bytes \<Rightarrow> nat option" where
  "parse_utc s =
     (case parse_milli s of None \<Rightarrow> None | Some milli \<Rightarrow>
      if nth_opt s 8 \<noteq> Some 45 \<or> nth_opt s 11 \<noteq> Some 58 \<or> nth_opt s 14 \<noteq> Some 58 then None
      else case num s 0 4 of None \<Rightarrow> None | Some year \<Rightarrow>
      case num s 4 2 of None \<Rightarrow> None | Some month \<Rightarrow>
      case num s 6 2 of None \<Rightarrow> None | Some day \<Rightarrow>
      case num s 9 2 of None \<Rightarrow> None | Some hour \<Rightarrow>
      case num s 12 2 of None \<Rightarrow> None | Some minute \<Rightarrow>
      case num s 15 2 of None \<Rightarrow> None | Some second \<Rightarrow>
      if \<not> (1 \<le> month \<and> month \<le> 12) \<or> day < 1 \<or> day > days_in_month year month then None
      else if hour > 23 \<or> minute > 59 \<or> second > 60 then None
      else let days = days_from_civil (int year) month day + DAYS_YEAR_ZERO_TO_EPOCH in
        if days < 0 then None
        else Some (nat days * 86400000 + hour * 3600000 + minute * 60000 + second * 1000 + milli))"

subsection \<open>The two calendar conversions are inverse\<close>

text \<open>A day of an era: its century, its four-year cycle, its year in the cycle and its day in
  that year. Only a cycle's last year has a 366th day, and a century's last cycle only in the last
  century.\<close>

definition era_day :: "nat \<Rightarrow> nat \<Rightarrow> nat \<Rightarrow> nat \<Rightarrow> nat" where
  "era_day c q r t = 36524 * c + 1461 * q + 365 * r + t"

definition era_day_ok :: "nat \<Rightarrow> nat \<Rightarrow> nat \<Rightarrow> nat \<Rightarrow> bool" where
  "era_day_ok c q r t \<longleftrightarrow> c < 4 \<and> q < 25 \<and> r < 4 \<and> t \<le> 365 \<and> (t = 365 \<longrightarrow> r = 3 \<and> (q = 24 \<longrightarrow> c = 3))"

lemma era_day_exists:
  assumes "doe < 146097"
  obtains c q r t where "doe = era_day c q r t" "era_day_ok c q r t"
proof -
  define c where "c = min 3 (doe div 36524)"
  define d1 where "d1 = doe - 36524 * c"
  define q where "q = d1 div 1461"
  define d2 where "d2 = d1 mod 1461"
  define r where "r = min 3 (d2 div 365)"
  have c: "doe = 36524 * c + d1" "c \<le> 3" "d1 \<le> 36524" "d1 = 36524 \<longrightarrow> c = 3"
    using assms by (auto simp: c_def d1_def min_def)
  have q: "d1 = 1461 * q + d2" "d2 \<le> 1460" by (simp_all add: q_def d2_def)
  have r: "365 * r \<le> d2" "r \<le> 3" "d2 - 365 * r \<le> 365" "d2 - 365 * r = 365 \<longrightarrow> r = 3"
    using q(2) by (auto simp: r_def min_def)
  have "era_day_ok c q r (d2 - 365 * r)"
    unfolding era_day_ok_def using c q r by arith
  moreover have "doe = era_day c q r (d2 - 365 * r)"
    unfolding era_day_def using c q r by arith
  ultimately show thesis using that by blast
qed

lemma div_between: "k * n \<le> (m::nat) \<Longrightarrow> m < k * n + k \<Longrightarrow> m div k = n"
  by (metis add.commute div_nat_eqI mult.commute mult_Suc)

lemma era_day_bounds:
  assumes "era_day_ok c q r t"
  shows "1461 * q + 365 * r + t \<le> 36524" "1461 * q + 365 * r + t = 36524 \<Longrightarrow> c = 3"
    "q + 365 * r + t \<le> 1484" "t = 365 \<Longrightarrow> r = 3" "c \<le> 3" "q \<le> 24" "r \<le> 3" "t \<le> 365"
  using assms unfolding era_day_ok_def by linarith+

lemma era_day_centuries:
  assumes "era_day_ok c q r t"
  obtains g where "era_day c q r t div 36524 = c + g" "era_day c q r t div 146096 = g"
proof (cases "1461 * q + 365 * r + t = 36524")
  case True
  then have "era_day c q r t = 146096" "c = 3"
    using era_day_bounds(2) [OF assms] by (auto simp: era_day_def)
  then show thesis using that [of 1] by simp
next
  case False
  then have "1461 * q + 365 * r + t < 36524" using era_day_bounds(1) [OF assms] by linarith
  then have "era_day c q r t div 36524 = c" "era_day c q r t div 146096 = 0"
    using era_day_bounds(5) [OF assms] unfolding era_day_def by (intro div_between; linarith)+
  then show thesis using that [of 0] by simp
qed

lemma era_day_cycles:
  assumes "era_day_ok c q r t"
  obtains e where "era_day c q r t div 1460 = 25 * c + q + e" "e \<le> t" "t - e < 365"
proof (cases "24 * c + q + 365 * r + t \<ge> 1460")
  case True
  have "1460 * (25 * c + q + 1) \<le> era_day c q r t" "era_day c q r t < 1460 * (25 * c + q + 1) + 1460"
    using True era_day_bounds(3,5) [OF assms] unfolding era_day_def by simp_all
  then have "era_day c q r t div 1460 = 25 * c + q + 1" by (rule div_between)
  moreover have "1 \<le> t" "t - 1 < 365" using True era_day_bounds [OF assms] by linarith+
  ultimately show thesis using that by blast
next
  case False
  then have "1460 * (25 * c + q + 0) \<le> era_day c q r t" "era_day c q r t < 1460 * (25 * c + q + 0) + 1460"
    unfolding era_day_def by simp_all
  then have "era_day c q r t div 1460 = 25 * c + q + 0" by (rule div_between)
  moreover have "t < 365" using False era_day_bounds(4,8) [OF assms] by linarith
  ultimately show thesis using that [of 0] by simp
qed

lemma year_of_era_day:
  assumes "era_day_ok c q r t"
  shows "year_of_era (era_day c q r t) = 100 * c + 4 * q + r"
proof -
  obtain g where g: "era_day c q r t div 36524 = c + g" "era_day c q r t div 146096 = g"
    using era_day_centuries [OF assms] .
  obtain e where e: "era_day c q r t div 1460 = 25 * c + q + e" "e \<le> t" "t - e < 365"
    using era_day_cycles [OF assms] .
  have "era_day c q r t - (25 * c + q + e) + (c + g) - g = 365 * (100 * c + 4 * q + r) + (t - e)"
    using e(2) by (simp add: era_day_def)
  then have "year_of_era (era_day c q r t) = (365 * (100 * c + 4 * q + r) + (t - e)) div 365"
    by (simp only: year_of_era_def e(1) g)
  then show ?thesis using e(3) by simp
qed


definition month_part :: "nat \<Rightarrow> nat" where "month_part doy = (5 * doy + 2) div 153"
definition month_start :: "nat \<Rightarrow> nat" where "month_start mp = (153 * mp + 2) div 5"

text \<open>Months counted from March: where each starts, as the linear formula of the source has it.\<close>

lemma month_part_bounds:
  assumes "t \<le> 365"
  shows "month_part t \<le> 11" "month_start (month_part t) \<le> t" "t < month_start (month_part t + 1)"
proof -
  have p: "153 * month_part t \<le> 5 * t + 2" "5 * t + 2 < 153 * month_part t + 153"
    unfolding month_part_def by simp_all
  have s: "5 * month_start k \<le> 153 * k + 2" "153 * k + 2 < 5 * month_start k + 5" for k
    unfolding month_start_def by simp_all
  show "month_part t \<le> 11" using p(1) assms by linarith
  show "month_start (month_part t) \<le> t" using p(1) s(1) [of "month_part t"] by linarith
  show "t < month_start (month_part t + 1)" using p(2) s(2) [of "month_part t + 1"] by simp
qed

lemma month_length:
  assumes "mp \<le> 11" "m = (if mp < 10 then mp + 3 else mp - 9)" "m \<noteq> 2"
  shows "month_start (mp + 1) - month_start mp = days_in_month y m"
proof -
  have "mp = 0 \<or> mp = 1 \<or> mp = 2 \<or> mp = 3 \<or> mp = 4 \<or> mp = 5 \<or> mp = 6 \<or> mp = 7 \<or> mp = 8 \<or> mp = 9 \<or> mp = 10 \<or> mp = 11"
    using assms(1) by presburger
  then show ?thesis
    using assms(2,3) by (elim disjE) (simp_all add: month_start_def days_in_month_def)
qed

lemma is_leap_era: "is_leap (y + 400 * e) \<longleftrightarrow> is_leap y"
proof -
  have "4 dvd 400 * e" "100 dvd 400 * e" by (rule dvd_mult2; simp)+
  then show ?thesis by (simp add: is_leap_def dvd_add_left_iff)
qed

lemma is_leap_after:
  assumes "era_day_ok c q 3 365"
  shows "is_leap (100 * c + 4 * q + 3 + 1)"
proof -
  have e: "100 * c + 4 * q + 3 + 1 = 4 * (25 * c + (q + 1))" by simp
  have "100 dvd 100 * c + 4 * q + 3 + 1 \<longleftrightarrow> 4 * 25 dvd 4 * (25 * c + (q + 1))"
    unfolding e by simp
  also have "\<dots> \<longleftrightarrow> 25 dvd 25 * c + (q + 1)" by (subst nat_mult_dvd_cancel_disj) simp
  also have "\<dots> \<longleftrightarrow> 25 dvd q + 1" by (rule dvd_add_right_iff) simp
  finally have "100 dvd 100 * c + 4 * q + 3 + 1 \<Longrightarrow> c = 3 \<and> q = 24"
    using assms dvd_imp_le [of 25 "q + 1"] unfolding era_day_ok_def by linarith
  then show ?thesis unfolding is_leap_def e by auto
qed


text \<open>What \<open>civil_from_days\<close> computes, from the day of the era.\<close>

lemma year_start_day:
  assumes "era_day_ok c q r t" "y = 100 * c + 4 * q + r"
  shows "365 * y + y div 4 - y div 100 + t = era_day c q r t"
proof -
  have "y div 4 = 25 * c + q" "y div 100 = c"
    using assms unfolding era_day_ok_def by (intro div_between; simp)+
  then show ?thesis using assms(2) by (simp add: era_day_def)
qed

lemma civil_from_days_eq:
  assumes "days + 719468 = 146097 * era + era_day c q r t" "era_day_ok c q r t" "days < 1000000000000"
    and "mp = month_part t" "m = (if mp < 10 then mp + 3 else mp - 9)" "y = 100 * c + 4 * q + r"
  shows "civil_from_days (int days) =
     (y + 400 * era + (if m \<le> 2 then 1 else 0), m, t - month_start mp + 1)"
proof -
  have d: "era_day c q r t < 146097"
    using era_day_bounds [OF assms(2)] unfolding era_day_def by linarith
  have z: "int days + 719468 = int (146097 * era + era_day c q r t)" using assms(1) by linarith
  have era: "int (146097 * era + era_day c q r t) div 146097 = int era" using d by simp
  have y: "year_of_era (era_day c q r t) = y" using year_of_era_day [OF assms(2)] assms(6) by simp
  have doy: "era_day c q r t - (365 * y + y div 4 - y div 100) = t"
    using year_start_day [OF assms(2,6)] by linarith
  have "y + 400 * era + 1 < 2 ^ 32"
    using assms(1,3,6) era_day_bounds [OF assms(2)] by simp
  then have w: "nat ((int y + int era * 400) mod 2 ^ 32) = y + 400 * era"
    "nat ((int y + int era * 400 + 1) mod 2 ^ 32) = y + 400 * era + 1"
    by auto
  have e: "trunc_div (int (146097 * era + era_day c q r t)) 146097 = int era"
    using era by (simp add: trunc_div_def)
  have n: "nat (int (146097 * era + era_day c q r t) - int era * 146097) = era_day c q r t" by simp
  have p: "0 \<le> int (146097 * era + era_day c q r t)" by simp
  have "civil_from_days (int days) =
    (nat ((if m \<le> 2 then int y + int era * 400 + 1 else int y + int era * 400) mod 2 ^ 32), m, t - month_start mp + 1)"
    by (simp only: civil_from_days_def Let_def z p if_True e n y doy month_part_def [symmetric] month_start_def [symmetric] assms(4) [symmetric] assms(5) [symmetric])
  then show ?thesis using w by (cases "m \<le> 2") (simp_all only: if_True if_False add_0_right)
qed

lemma civil_decompose:
  assumes "days < 1000000000000" "civil_from_days (int days) = (y, m, d)"
  obtains era c q r t mp y0 where "days + 719468 = 146097 * era + era_day c q r t" "era_day_ok c q r t"
    "mp = month_part t" "m = (if mp < 10 then mp + 3 else mp - 9)" "y0 = 100 * c + 4 * q + r"
    "y = y0 + 400 * era + (if m \<le> 2 then 1 else 0)" "d = t - month_start mp + 1"
proof -
  have lt: "(days + 719468) mod 146097 < 146097" by simp
  obtain c q r t where doe: "(days + 719468) mod 146097 = era_day c q r t" "era_day_ok c q r t"
    using era_day_exists [OF lt] .
  have days: "days + 719468 = 146097 * ((days + 719468) div 146097) + era_day c q r t"
    using mult_div_mod_eq [of 146097 "days + 719468"] doe(1) by linarith
  show thesis
    using civil_from_days_eq [OF days doe(2) assms(1) refl refl refl] assms(2)
    by (intro that [OF days doe(2) refl _ refl]) simp_all
qed

text \<open>The writer's date is a date the reader accepts, and the reader recovers the day.\<close>

lemma civil_valid:
  assumes "days < 1000000000000" "civil_from_days (int days) = (y, m, d)"
  shows "1 \<le> m" "m \<le> 12" "1 \<le> d" "d \<le> days_in_month y m"
proof -
  obtain era c q r t mp y0 where doe: "era_day_ok c q r t" and mp: "mp = month_part t"
    and m: "m = (if mp < 10 then mp + 3 else mp - 9)" and y0: "y0 = 100 * c + 4 * q + r"
    and y: "y = y0 + 400 * era + (if m \<le> 2 then 1 else 0)" and d: "d = t - month_start mp + 1"
    using civil_decompose [OF assms] .
  note b = month_part_bounds [OF era_day_bounds(8) [OF doe], folded mp]
  show "1 \<le> m" "m \<le> 12" "1 \<le> d" using m d b(1) by auto
  show "d \<le> days_in_month y m"
  proof (cases "m = 2")
    case False
    then show ?thesis using month_length [OF b(1) m] b(2,3) d by simp
  next
    case True
    then have mp: "mp = 11" using m b(1) by (auto split: if_splits)
    have y: "y = y0 + 1 + 400 * era" using y True by simp
    have "t = 365 \<Longrightarrow> is_leap y"
      using is_leap_after [of c q] doe era_day_bounds(4) [OF doe] is_leap_era [of "y0 + 1" era]
      by (simp add: y y0)
    moreover have "t = 365 \<or> t \<le> 364" using era_day_bounds(8) [OF doe] by linarith
    ultimately show ?thesis using d mp True by (auto simp: days_in_month_def month_start_def)
  qed
qed

lemma civil_inverse:
  assumes "days < 1000000000000" "civil_from_days (int days) = (y, m, d)"
  shows "days_from_civil (int y) m d = int days"
proof -
  obtain era c q r t mp y0 where days: "days + 719468 = 146097 * era + era_day c q r t" and doe: "era_day_ok c q r t"
    and mp: "mp = month_part t" and m: "m = (if mp < 10 then mp + 3 else mp - 9)" and y0: "y0 = 100 * c + 4 * q + r"
    and y: "y = y0 + 400 * era + (if m \<le> 2 then 1 else 0)" and d: "d = t - month_start mp + 1"
    using civil_decompose [OF assms] .
  note b = month_part_bounds [OF era_day_bounds(8) [OF doe], folded mp]
  have Y: "(if m \<le> 2 then int y - 1 else int y) = int (y0 + 400 * era)" using y by auto
  have M: "(if m > 2 then m - 3 else m + 9) = mp" using m b(1) by auto
  have D: "month_start mp + d - 1 = t" using d b(2) by simp
  have y400: "y0 < 400" using era_day_bounds(5-7) [OF doe] y0 by linarith
  have E: "trunc_div (int (y0 + 400 * era)) 400 = int era" using y400 by (simp add: trunc_div_def)
  have N: "nat (int (y0 + 400 * era) - int era * 400) = y0" by simp
  have P: "0 \<le> int (y0 + 400 * era)" by simp
  have "days_from_civil (int y) m d = int era * 146097 + int (y0 * 365 + y0 div 4 - y0 div 100 + t) - 719468"
    by (simp only: days_from_civil_def Let_def Y M P if_True E N month_start_def [symmetric] D)
  also have "y0 * 365 + y0 div 4 - y0 div 100 + t = era_day c q r t"
    using year_start_day [OF doe y0] by (simp add: mult.commute)
  finally show ?thesis using days by linarith
qed


subsection \<open>A stamp reads back\<close>

lemma civil_year_bound:
  assumes "days < 2932897" "civil_from_days (int days) = (y, m, d)"
  shows "y < 10000"
proof -
  have lt: "days < 1000000000000" using assms(1) by simp
  obtain era c q r t mp y0 where days: "days + 719468 = 146097 * era + era_day c q r t" and doe: "era_day_ok c q r t"
    and mp: "mp = month_part t" and m: "m = (if mp < 10 then mp + 3 else mp - 9)" and y0: "y0 = 100 * c + 4 * q + r"
    and y: "y = y0 + 400 * era + (if m \<le> 2 then 1 else 0)"
    using civil_decompose [OF lt assms(2)] .
  note b = era_day_bounds(5-8) [OF doe]
  have "era \<le> 24" using days assms(1) by linarith
  moreover have "y0 \<le> 399" using b y0 by linarith
  moreover have False if "era = 24" "y0 = 399" "m \<le> 2"
  proof -
    have "mp \<ge> 10" using that(3) m by (auto split: if_splits)
    then have "t \<ge> 306" using mp by (simp add: month_part_def)
    moreover have "c = 3" "q = 24" "r = 3" using b y0 that(2) by linarith+
    ultimately show False using days assms(1) that(1) by (simp add: era_day_def)
  qed
  ultimately show ?thesis using y by (cases "m \<le> 2"; cases "era = 24"; cases "y0 = 399") auto
qed

lemma num_loop_two [simp]: "v < 100 \<Longrightarrow> num_loop 0 (two_digits v) = Some v"
  by (simp add: two_digits_def)

lemma shift_in: "t * 10 + (d::nat) = v \<Longrightarrow> x = t \<Longrightarrow> x * 10 + d = v"
  by simp

lemma four_digits_value: "(v::nat) div 1000 * 1000 + v div 100 mod 10 * 100 + v div 10 mod 10 * 10 + v mod 10 = v"
proof -
  have q: "v div 1000 = v div 10 div 100" "v div 100 = v div 10 div 10" by (simp_all flip: div_mult2_eq)
  have "(v div 1000 * 100 + v div 100 mod 10 * 10 + v div 10 mod 10) * 10 + v mod 10 = v"
    unfolding q by (rule shift_in [OF div_mult_mod_eq three_digits])
  then show ?thesis by (simp add: distrib_right)
qed

lemma num_loop_four [simp]: "v < 10000 \<Longrightarrow> num_loop 0 (four_digits v) = Some v"
  using four_digits_value [of v] by (simp add: four_digits_def distrib_right)

lemma fixed_digits_ascii: "list_all is_ascii_digit (fixed_digits k v)"
  by (induction k arbitrary: v) auto

lemma fixed_digits_split: "fixed_digits (k + j) v = fixed_digits k (v div 10 ^ j) @ fixed_digits j v"
  by (induction j arbitrary: v) (simp_all add: div_mult2_eq)


lemma parse_milli_fraction:
  assumes "length pre = 17" "f < 1000 * 10 ^ j" "j \<le> 9"
  shows "parse_milli (pre @ 46 # fixed_digits (3 + j) f) = Some (f div 10 ^ j)"
proof -
  have v: "f div 10 ^ j < 1000" using assms(2) by (simp add: less_mult_imp_div_less)
  have ds: "fixed_digits (3 + j) f = digit_byte (f div 10 ^ j div 100) # digit_byte (f div 10 ^ j div 10 mod 10) #
     digit_byte (f div 10 ^ j mod 10) # fixed_digits j f"
    using fixed_digits_split [of 3 j f] fraction_digits [OF v] by simp
  have sum: "f div 10 ^ j div 100 * 100 + f div 10 ^ j div 10 mod 10 * 10 + f div 10 ^ j mod 10 = f div 10 ^ j"
    by (rule three_digits)
  have "f div 10 ^ j div 100 < 10" using v by (simp add: less_mult_imp_div_less)
  then show ?thesis
    unfolding ds using assms(1,3) sum fixed_digits_ascii [of j f]
    by (cases "j = 0") (simp_all add: parse_milli_def get_range_def get_from_def nth_opt_def nth_append Let_def)
qed


lemma stamp_fraction_milli:
  "stamp_fraction p millis ns < 1000 * 10 ^ (fractional_digits p - 3)"
  "stamp_fraction p millis ns div 10 ^ (fractional_digits p - 3) = millis mod 1000"
proof -
  have n: "min ns 999999 < 1000000" "min ns 999999 div 1000 < 1000" by auto
  have "millis mod 1000 < 1000" by simp
  then show "stamp_fraction p millis ns < 1000 * 10 ^ (fractional_digits p - 3)"
    using n by (cases p) (simp_all add: stamp_fraction_def fractional_digits_def)
  show "stamp_fraction p millis ns div 10 ^ (fractional_digits p - 3) = millis mod 1000"
    using n by (cases p) (simp_all add: stamp_fraction_def fractional_digits_def)
qed

definition date_time :: "nat \<Rightarrow> nat \<Rightarrow> nat \<Rightarrow> nat \<Rightarrow> nat \<Rightarrow> nat \<Rightarrow> bytes" where
  "date_time y m d h mi sc = four_digits y @ two_digits m @ two_digits d @ [45] @ two_digits h @ [58] @ two_digits mi @ [58] @ two_digits sc"

lemma length_date_time [simp]: "length (date_time y m d h mi sc) = 17"
  by (simp add: date_time_def four_digits_def two_digits_def)

lemma date_time_fields:
  "nth_opt (date_time y m d h mi sc @ r) 8 = Some 45" "nth_opt (date_time y m d h mi sc @ r) 11 = Some 58"
  "nth_opt (date_time y m d h mi sc @ r) 14 = Some 58"
  "y < 10000 \<Longrightarrow> num (date_time y m d h mi sc @ r) 0 4 = Some y"
  "m < 100 \<Longrightarrow> num (date_time y m d h mi sc @ r) 4 2 = Some m" "d < 100 \<Longrightarrow> num (date_time y m d h mi sc @ r) 6 2 = Some d"
  "h < 100 \<Longrightarrow> num (date_time y m d h mi sc @ r) 9 2 = Some h" "mi < 100 \<Longrightarrow> num (date_time y m d h mi sc @ r) 12 2 = Some mi"
  "sc < 100 \<Longrightarrow> num (date_time y m d h mi sc @ r) 15 2 = Some sc"
  using four_digits_value [of y]
  by (simp_all add: date_time_def num_def get_range_def nth_opt_def four_digits_def two_digits_def distrib_right)

lemma millis_split:
  fixes ms :: nat
  shows "ms div 60000 div 1440 * 86400000 + ms div 60000 mod 1440 div 60 * 3600000 +
     ms div 60000 mod 1440 mod 60 * 60000 + ms div 1000 mod 60 * 1000 + ms mod 1000 = ms"
proof -
  have eq: "ms div 60000 = ms div 1000 div 60" by (simp flip: div_mult2_eq)
  have combine: "day * 86400000 + h * 3600000 + mi * 60000 + sc * 1000 + r = n"
    if "s * 1000 + r = n" "min * 60 + sc = s" "day * 1440 + w = min" "h * 60 + mi = w" for day h mi sc r s min w n :: nat
    using that by linarith
  show ?thesis
    unfolding eq by (rule combine [OF div_mult_mod_eq div_mult_mod_eq div_mult_mod_eq div_mult_mod_eq])
qed

lemma parse_utc_stamp:
  assumes "millis < 253402300800000"
  shows "parse_utc (stamp_text p millis ns) = Some (millis + MILLIS_YEAR_ZERO_TO_EPOCH)"
proof -
  define days where "days = millis div 60000 div 1440"
  obtain y m d where ymd: "civil_from_days (int days) = (y, m, d)" by (metis prod_cases3)
  have days: "days < 2932897" "days < 1000000000000"
    using assms by (auto simp: days_def simp flip: div_mult2_eq)
  note v = civil_valid [OF days(2) ymd] civil_inverse [OF days(2) ymd] civil_year_bound [OF days(1) ymd]
  define h where "h = millis div 60000 mod 1440 div 60"
  define mi where "mi = millis div 60000 mod 1440 mod 60"
  define sc where "sc = millis div 1000 mod 60"
  have hms: "h < 24" "mi < 60" "sc < 60"
    by (simp_all add: h_def mi_def sc_def less_mult_imp_div_less)
  have md: "m < 100" "d < 100" using v(2,4) by (auto simp: days_in_month_def split: if_splits)
  let ?f = "stamp_fraction p millis ns"
  have k: "fractional_digits p = 3 + (fractional_digits p - 3)" "fractional_digits p - 3 \<le> 9"
    by (cases p; simp add: fractional_digits_def)+
  have s: "stamp_text p millis ns = date_time y m d h mi sc @ 46 # fixed_digits (3 + (fractional_digits p - 3)) ?f"
    using ymd k(1) by (simp add: stamp_text_def minute_prefix_def date_time_def h_def mi_def sc_def days_def)
  have milli: "parse_milli (stamp_text p millis ns) = Some (millis mod 1000)"
    unfolding s using parse_milli_fraction [OF length_date_time stamp_fraction_milli(1) k(2)] stamp_fraction_milli(2) by metis
  have "days * 86400000 + h * 3600000 + mi * 60000 + sc * 1000 + millis mod 1000 = millis"
    unfolding days_def h_def mi_def sc_def by (rule millis_split)
  then show ?thesis
    using milli v hms md unfolding parse_utc_def by (simp add: s date_time_fields Let_def)
qed

subsection \<open>Properties\<close>

text \<open>The codec's day-to-date conversion and the session's date-to-day conversion are inverse, and
  every date the codec produces is a date of the Gregorian calendar the session accepts: the month
  is 1 to 12 and the day does not exceed the month's length, leap years included.\<close>

theorem calendar_inverse:
  assumes "days < 1000000000000" "civil_from_days (int days) = (y, m, d)"
  shows "days_from_civil (int y) m d = int days \<and> 1 \<le> m \<and> m \<le> 12 \<and> 1 \<le> d \<and> d \<le> days_in_month y m"
  using civil_inverse [OF assms] civil_valid [OF assms] by blast

theorem calendar_inverse_witness:
  "days_from_civil (int 2024) 2 29 = int 19782 \<and> (1::nat) \<le> 2 \<and> (2::nat) \<le> 12 \<and> (1::nat) \<le> 29 \<and> 29 \<le> days_in_month 2024 2"
proof (rule calendar_inverse)
  show "civil_from_days (int 19782) = (2024, 2, 29)"
    by (subst civil_from_days_eq [of 19782 5 0 5 3 365 11 2 23])
      (simp_all add: era_day_def era_day_ok_def month_part_def month_start_def)
qed simp

text \<open>A \<open>SendingTime\<close> the engine writes is one it reads back to the same millisecond: up to the
  end of the year 9999 and at each of the three precisions, formatting an instant with the cache and
  parsing the text gives the instant on the session's scale. The digits finer than a millisecond
  are dropped and never rounded up.\<close>

theorem stamp_reads_back:
  assumes "millis < 253402300800000" "ts_ok c"
  shows "parse_utc (fst (ts_format c millis ns)) = Some (millis + MILLIS_YEAR_ZERO_TO_EPOCH)"
proof -
  have "millis \<le> U64_MAX" using assms(1) by simp
  then show ?thesis using ts_format_stamp(1) [OF assms(2)] parse_utc_stamp [OF assms(1)] by simp
qed

theorem stamp_reads_back_witness:
  "parse_utc (fst (ts_format (TimestampCache_with_precision Nanos) 1709164800999 999999)) =
   Some (1709164800999 + MILLIS_YEAR_ZERO_TO_EPOCH)"
  by (rule stamp_reads_back) simp_all

text \<open>A leap second rolls into the next minute. \<open>23:59:60\<close> on the last day of 2016 is read as
  the same instant as midnight of the next day, not as the last second of its minute.\<close>

theorem leap_second_rolls_over:
  "parse_utc (b ''20161231-23:59:60'') = parse_utc (b ''20170101-00:00:00'')"
proof -
  have leap: "b ''20161231-23:59:60'' = date_time 2016 12 31 23 59 60 @ []"
    and midnight: "b ''20170101-00:00:00'' = date_time 2017 1 1 0 0 0 @ []"
    by (simp_all add: b_def date_time_def four_digits_def two_digits_def digit_byte_def)
  have "parse_milli (date_time y m d h mi sc @ []) = Some 0" for y m d h mi sc
    by (simp add: parse_milli_def)
  then show ?thesis
    unfolding leap midnight parse_utc_def
    by (simp add: date_time_fields days_in_month_def days_from_civil_def trunc_div_def del: append_Nil2)
qed

end
