(* ===== verification/Template.thy ===== *)
theory Template
  imports Parse_Correct "HOL-Library.Product_Lexorder"
begin

text \<open>
  \<open>crates/codec/src/template.rs\<close>: message skeletons. A builder collects fields, slots and
  group holes; \<open>build\<close> sorts them into wire order once and lays the fixed bytes out; \<open>encode_with\<close>
  writes the body, then the prefix right-aligned in front of it, then the checksum. Arrays of the
  source with a count are lists with a capacity; a slice that would panic is the error value
  \<open>IndexPanic\<close>, which the source does not have. An operation that fails returns the error only:
  what it wrote before failing is never read again.
\<close>

abbreviation (input) MAX_BODY_DIGITS :: nat where "MAX_BODY_DIGITS \<equiv> 5"
abbreviation (input) TRAILER_LEN :: nat where "TRAILER_LEN \<equiv> 7"
abbreviation (input) MAX_DEPTH :: nat where "MAX_DEPTH \<equiv> 8"

datatype encode_error =
    OutputTooSmall
  | BodyTooLong
  | TooManyParts
  | ScratchFull
  | ReservedTag nat
  | UnknownGroup nat
  | NotAGroupMember nat
  | MissingDelimiter nat
  | MsgTypeMissing
  | GroupTooDeep
  | DataWithoutLength nat
  | IndexPanic

datatype group_data = GroupData (gd_counter: nat) (gd_entries: "group_entry_data list")
  and group_entry_data = GroupEntryData (ge_fields: "(nat \<times> bytes) list") (ge_groups: "group_data list")

datatype part =
    PStatic nat nat
  | PSlot nat
  | PGroup nat
  | PDataLen nat nat

datatype kind = KStatic | KSlot | KGroup | KDataLen nat

record entry =
  en_tag :: nat
  en_at :: nat
  en_len :: nat
  en_kind :: kind

record template =
  t_scratch :: bytes
  t_begin_at :: nat
  t_begin_len :: nat
  t_mt_at :: nat
  t_mt_len :: nat
  t_parts :: "part list"

record template_builder =
  tb_max_parts :: nat
  tb_scratch :: bytes
  tb_used :: nat
  tb_begin_at :: nat
  tb_begin_len :: nat
  tb_entries :: "entry list"
  tb_err :: "encode_error option"

subsection \<open>Numbers and sort keys\<close>

fun render_loop :: "nat \<Rightarrow> bytes \<Rightarrow> bytes" where
  "render_loop v acc = (if v = 0 then acc else render_loop (v div 10) (digit_byte (v mod 10) # acc))"

declare render_loop.simps [simp del]

definition render_u32 :: "nat \<Rightarrow> bytes" where
  "render_u32 v = (if v = 0 then [ZERO] else render_loop v [])"

fun tag_prefix_loop :: "nat \<Rightarrow> nat \<Rightarrow> nat" where
  "tag_prefix_loop tag n = (if tag \<ge> 10 then tag_prefix_loop (tag div 10) (n + 1) else n + 1)"

declare tag_prefix_loop.simps [simp del]

definition tag_prefix_len :: "nat \<Rightarrow> nat" where
  "tag_prefix_len tag = tag_prefix_loop tag 1"

definition reserved :: "nat \<Rightarrow> encode_error + unit" where
  "reserved tag = (if tag \<in> {8, 9, 10} then Inl (ReservedTag tag) else Inr ())"

definition tag_key :: "('z) dictionary_scheme \<Rightarrow> nat \<Rightarrow> nat \<times> nat \<times> nat" where
  "tag_key D t =
     (let (rank, tag) = (if t = 35 then (0, 0) else if is_header D t then (1, t) else (2, t))
      in case data_length_tag D t of
           Some len_tag \<Rightarrow> if rank = 2 then (rank, len_tag, 1) else (rank, tag, 0)
         | None \<Rightarrow> (rank, tag, 0))"

definition entry_key :: "('z) dictionary_scheme \<Rightarrow> entry \<Rightarrow> nat \<times> nat \<times> nat" where
  "entry_key D e = tag_key D (en_tag e)"

subsection \<open>The builder\<close>

definition tb_write :: "bytes \<Rightarrow> template_builder \<Rightarrow> encode_error + template_builder" where
  "tb_write bs tb =
     bindR (ok_or (write_at (tb_scratch tb) (tb_used tb) bs) ScratchFull) (\<lambda>scratch.
       if length bs > U16_MAX then Inl ScratchFull
       else Inr (tb\<lparr>tb_scratch := scratch, tb_used := wrap16 (tb_used tb + length bs)\<rparr>))"

definition tb_write_tag :: "nat \<Rightarrow> template_builder \<Rightarrow> encode_error + template_builder" where
  "tb_write_tag tag tb =
     (let s = render_u32 tag in
      bindR (ok_or (write_at (tb_scratch tb) (tb_used tb) (s @ [EQ_SIGN])) ScratchFull) (\<lambda>scratch.
        Inr (tb\<lparr>tb_scratch := scratch, tb_used := wrap16 (tb_used tb + (length s + 1))\<rparr>)))"

definition tb_stash :: "bytes \<Rightarrow> template_builder \<Rightarrow> (nat \<times> nat \<times> template_builder) option" where
  "tb_stash bs tb =
     (case tb_write bs tb of Inl _ \<Rightarrow> None | Inr tb' \<Rightarrow> Some (tb_used tb, tb_used tb' - tb_used tb, tb'))"

definition tb_write_field :: "nat \<Rightarrow> bytes \<Rightarrow> template_builder \<Rightarrow> encode_error + template_builder" where
  "tb_write_field tag value tb =
     bindR (tb_write_tag tag tb) (\<lambda>tb. bindR (tb_write value tb) (tb_write [SOH]))"

definition stash_field :: "nat \<Rightarrow> bytes \<Rightarrow> template_builder \<Rightarrow> (nat \<times> nat \<times> template_builder) option" where
  "stash_field tag value tb =
     (case tb_write_field tag value tb of
        Inl _ \<Rightarrow> None | Inr tb' \<Rightarrow> Some (tb_used tb, tb_used tb' - tb_used tb, tb'))"

definition TemplateBuilder_new :: "nat \<Rightarrow> nat \<Rightarrow> bytes \<Rightarrow> template_builder" where
  "TemplateBuilder_new P S begin_string =
     (let tb = \<lparr>tb_max_parts = P, tb_scratch = replicate S 0, tb_used = 0, tb_begin_at = 0, tb_begin_len = 0,
               tb_entries = [], tb_err = None\<rparr>
      in case tb_stash begin_string tb of
           Some (at, len, tb') \<Rightarrow> tb'\<lparr>tb_begin_at := at, tb_begin_len := len\<rparr>
         | None \<Rightarrow> tb\<lparr>tb_err := Some ScratchFull\<rparr>)"

definition tb_entry :: "entry \<Rightarrow> template_builder \<Rightarrow> encode_error + template_builder" where
  "tb_entry e tb =
     (if length (tb_entries tb) < tb_max_parts tb
      then Inr (tb\<lparr>tb_entries := tb_entries tb @ [e]\<rparr>) else Inl TooManyParts)"

definition push_field :: "nat \<Rightarrow> bytes \<Rightarrow> template_builder \<Rightarrow> encode_error + template_builder" where
  "push_field tag value tb =
     bindR (reserved tag) (\<lambda>_.
       let at = tb_used tb in
       bindR (tb_write_field tag value tb) (\<lambda>tb.
         tb_entry \<lparr>en_tag = tag, en_at = at, en_len = tb_used tb - at, en_kind = KStatic\<rparr> tb))"

definition push_slot :: "nat \<Rightarrow> template_builder \<Rightarrow> encode_error + template_builder" where
  "push_slot tag tb =
     bindR (reserved tag) (\<lambda>_. tb_entry \<lparr>en_tag = tag, en_at = 0, en_len = 0, en_kind = KSlot\<rparr> tb)"

definition push_group :: "nat \<Rightarrow> template_builder \<Rightarrow> encode_error + template_builder" where
  "push_group counter tb =
     bindR (reserved counter) (\<lambda>_. tb_entry \<lparr>en_tag = counter, en_at = 0, en_len = 0, en_kind = KGroup\<rparr> tb)"

text \<open>\<open>self.err.get_or_insert(e)\<close>: the first error is the one \<open>build\<close> reports.\<close>

definition tb_or_err :: "encode_error + template_builder \<Rightarrow> template_builder \<Rightarrow> template_builder" where
  "tb_or_err r tb =
     (case r of Inr tb' \<Rightarrow> tb'
      | Inl e \<Rightarrow> (if tb_err tb = None then tb\<lparr>tb_err := Some e\<rparr> else tb))"

definition tb_field :: "nat \<Rightarrow> bytes \<Rightarrow> template_builder \<Rightarrow> template_builder" where
  "tb_field tag value tb = tb_or_err (push_field tag value tb) tb"

definition tb_slot :: "nat \<Rightarrow> template_builder \<Rightarrow> template_builder" where
  "tb_slot tag tb = tb_or_err (push_slot tag tb) tb"

definition tb_group :: "nat \<Rightarrow> template_builder \<Rightarrow> template_builder" where
  "tb_group counter tb = tb_or_err (push_group counter tb) tb"

subsection \<open>Sorting and laying out\<close>

definition swap_adj :: "nat \<Rightarrow> 'a list \<Rightarrow> 'a list" where
  "swap_adj j xs = xs[j := xs ! Suc j, Suc j := xs ! j]"

fun sift_down :: "('a \<Rightarrow> 'k::linorder) \<Rightarrow> nat \<Rightarrow> 'a list \<Rightarrow> 'a list" where
  "sift_down key 0 xs = xs"
| "sift_down key (Suc j) xs =
     (if key (xs ! j) > key (xs ! Suc j) then sift_down key j (swap_adj j xs) else xs)"

definition insertion_sort :: "('a \<Rightarrow> 'k::linorder) \<Rightarrow> 'a list \<Rightarrow> 'a list" where
  "insertion_sort key xs = fold (sift_down key) [1..<length xs] xs"

text \<open>The DATA rule: every DATA entry needs its length entry; a static DATA value fixes the length
  now, a DATA slot makes the length one the encoder writes.\<close>

definition link_data :: "('z) dictionary_scheme \<Rightarrow> nat \<Rightarrow> template_builder \<Rightarrow> encode_error + template_builder" where
  "link_data D i tb =
     (let e = tb_entries tb ! i in
      case data_length_tag D (en_tag e) of
        None \<Rightarrow> Inr tb
      | Some len_tag \<Rightarrow>
          (case find (\<lambda>k. en_tag (tb_entries tb ! k) = len_tag) [0..<length (tb_entries tb)] of
             None \<Rightarrow> Inl (DataWithoutLength (en_tag e))
           | Some j \<Rightarrow>
               (case en_kind e of
                  KStatic \<Rightarrow>
                    let n = en_len e - (tag_prefix_len (en_tag e) + 1) in
                    (case stash_field len_tag (render_u32 n) tb of
                       None \<Rightarrow> Inl ScratchFull
                     | Some (at, len, tb') \<Rightarrow>
                         Inr (tb'\<lparr>tb_entries := (tb_entries tb')[j := (tb_entries tb' ! j)\<lparr>en_at := at, en_len := len, en_kind := KStatic\<rparr>]\<rparr>))
                | _ \<Rightarrow> Inr (tb\<lparr>tb_entries := (tb_entries tb)[j := (tb_entries tb ! j)\<lparr>en_kind := KDataLen (en_tag e)\<rparr>]\<rparr>))))"

record layout =
  lo_used :: nat
  lo_template :: template
  lo_has_group :: bool

definition put_part :: "nat \<Rightarrow> part \<Rightarrow> layout \<Rightarrow> encode_error + layout" where
  "put_part P p lo =
     (if length (t_parts (lo_template lo)) < P
      then Inr (lo\<lparr>lo_template := (lo_template lo)\<lparr>t_parts := t_parts (lo_template lo) @ [p]\<rparr>\<rparr>)
      else Inl TooManyParts)"

definition lay_static :: "nat \<Rightarrow> bytes \<Rightarrow> entry \<Rightarrow> layout \<Rightarrow> encode_error + layout" where
  "lay_static P scratch e lo =
     bindR (ok_or (get_range scratch (en_at e) (en_at e + en_len e)) IndexPanic) (\<lambda>src.
       let used = lo_used lo; t = lo_template lo;
           t = (if en_tag e = 35 then t\<lparr>t_mt_at := wrap16 (used + 3), t_mt_len := en_len e - 4\<rparr> else t) in
       bindR (ok_or (write_at (t_scratch t) used src) ScratchFull) (\<lambda>out.
         let t = t\<lparr>t_scratch := out\<rparr>; lo = lo\<lparr>lo_template := t, lo_used := used + length src\<rparr> in
         (case rev (t_parts t) of
            PStatic at len # before \<Rightarrow>
              if at + len = used
              then Inr (lo\<lparr>lo_template := t\<lparr>t_parts := rev before @ [PStatic at (wrap16 (len + en_len e))]\<rparr>\<rparr>)
              else put_part P (PStatic (wrap16 used) (en_len e)) lo
          | _ \<Rightarrow> put_part P (PStatic (wrap16 used) (en_len e)) lo)))"

definition lay_entry :: "nat \<Rightarrow> bytes \<Rightarrow> entry \<Rightarrow> layout \<Rightarrow> encode_error + layout" where
  "lay_entry P scratch e lo =
     (case en_kind e of
        KStatic \<Rightarrow> lay_static P scratch e lo
      | KGroup \<Rightarrow> bindR (put_part P (PGroup (en_tag e)) lo) (\<lambda>lo. Inr (lo\<lparr>lo_has_group := True\<rparr>))
      | KDataLen data_tag \<Rightarrow> put_part P (PDataLen (en_tag e) data_tag) lo
      | KSlot \<Rightarrow> put_part P (PSlot (en_tag e)) lo)"

definition build :: "('z) dictionary_scheme \<Rightarrow> template_builder \<Rightarrow> encode_error + template" where
  "build D tb =
     (case tb_err tb of
        Some e \<Rightarrow> Inl e
      | None \<Rightarrow>
          let P = tb_max_parts tb; S = length (tb_scratch tb); bl = tb_begin_len tb; ba = tb_begin_at tb;
              tb = tb\<lparr>tb_entries := insertion_sort (entry_key D) (tb_entries tb)\<rparr> in
          bindR (ok_or (get_range (tb_scratch tb) ba (ba + bl)) IndexPanic) (\<lambda>bs.
          bindR (ok_or (write_at (replicate S 0) 0 bs) ScratchFull) (\<lambda>scratch.
          bindR (foldR (link_data D) [0..<length (tb_entries tb)] tb) (\<lambda>tb.
          bindR (foldR (lay_entry P (tb_scratch tb)) (tb_entries tb)
              \<lparr>lo_used = bl,
               lo_template = \<lparr>t_scratch = scratch, t_begin_at = 0, t_begin_len = bl, t_mt_at = 0, t_mt_len = 0, t_parts = []\<rparr>,
               lo_has_group = False\<rparr>) (\<lambda>lo.
          if lo_has_group lo \<and> t_mt_len (lo_template lo) = 0 then Inl MsgTypeMissing
          else if length (t_parts (lo_template lo)) > 255 then Inl TooManyParts
          else Inr (lo_template lo))))))"

subsection \<open>Writing a message\<close>

type_synonym cursor = "bytes \<times> nat"

definition put :: "nat \<Rightarrow> bytes \<Rightarrow> cursor \<Rightarrow> encode_error + cursor" where
  "put tag value = (\<lambda>(out, w).
     let bs = render_u32 tag @ [EQ_SIGN] @ value @ [SOH] in
     bindR (ok_or (write_at out w bs) OutputTooSmall) (\<lambda>out. Inr (out, w + length bs)))"

definition find_field :: "nat \<Rightarrow> (nat \<times> bytes) list \<Rightarrow> bytes option" where
  "find_field tag fs = map_option snd (find (\<lambda>(t, _). t = tag) fs)"

definition data_owner :: "('z) dictionary_scheme \<Rightarrow> nat list \<Rightarrow> nat \<Rightarrow> nat option" where
  "data_owner D order tag = find (\<lambda>t. data_length_tag D t = Some tag) order"

text \<open>The checks on one entry of a group, all of them before a byte of it is written.\<close>

definition check_entry :: "('z) dictionary_scheme \<Rightarrow> nat list \<Rightarrow> nat \<Rightarrow> group_entry_data \<Rightarrow> encode_error + unit" where
  "check_entry D order counter e =
     (case find (\<lambda>(t, _). t \<notin> set order) (ge_fields e) of
        Some (t, _) \<Rightarrow> Inl (NotAGroupMember t)
      | None \<Rightarrow>
        (case find (\<lambda>sub. gd_counter sub \<notin> set order) (ge_groups e) of
           Some sub \<Rightarrow> Inl (NotAGroupMember (gd_counter sub))
         | None \<Rightarrow>
           (case order of
              [] \<Rightarrow> Inl (UnknownGroup counter)
            | delimiter # _ \<Rightarrow>
                if \<not> list_ex (\<lambda>(t, _). t = delimiter) (ge_fields e) then Inl (MissingDelimiter counter)
                else (case find (\<lambda>(t, _). (case data_length_tag D t of Some l \<Rightarrow> l \<notin> set order | None \<Rightarrow> False)) (ge_fields e) of
                        Some (t, _) \<Rightarrow> Inl (DataWithoutLength t)
                      | None \<Rightarrow> Inr ()))))"

text \<open>\<open>put_group\<close> recurses with \<open>depth + 1\<close> and refuses at \<open>MAX_DEPTH\<close>; the model recurses
  on the levels that remain.\<close>

primrec put_group ::
  "nat \<Rightarrow> ('z) dictionary_scheme \<Rightarrow> bytes \<Rightarrow> group_data \<Rightarrow> cursor \<Rightarrow> encode_error + cursor" where
  "put_group 0 D msg_type g c = Inl GroupTooDeep"
| "put_group (Suc left) D msg_type g c =
     (let order = group_order D msg_type (gd_counter g) in
      if order = [] then Inl (UnknownGroup (gd_counter g))
      else if length (gd_entries g) > U32_MAX then Inl BodyTooLong
      else bindR (put (gd_counter g) (render_u32 (length (gd_entries g))) c)
       (foldR (\<lambda>e c. bindR (check_entry D order (gd_counter g) e) (\<lambda>_.
          foldR (\<lambda>tag c.
            (case find_field tag (ge_fields e) of
               Some v \<Rightarrow>
                 (case Option.bind (data_owner D order tag) (\<lambda>d. find_field d (ge_fields e)) of
                    Some dv \<Rightarrow> if length dv > U32_MAX then Inl BodyTooLong else put tag (render_u32 (length dv)) c
                  | None \<Rightarrow> put tag v c)
             | None \<Rightarrow>
                 (case find (\<lambda>s. gd_counter s = tag) (ge_groups e) of
                    Some sub \<Rightarrow> put_group left D msg_type sub c
                  | None \<Rightarrow> Inr c))) order c)) (gd_entries g)))"

definition put_parts_step ::
  "('z) dictionary_scheme \<Rightarrow> template \<Rightarrow> (nat \<times> bytes) list \<Rightarrow> group_data list \<Rightarrow> part \<Rightarrow> cursor \<Rightarrow> encode_error + cursor" where
  "put_parts_step D t slots groups p c =
     (case p of
        PStatic at len \<Rightarrow>
          bindR (ok_or (get_range (t_scratch t) at (at + len)) IndexPanic) (\<lambda>src.
            bindR (ok_or (write_at (fst c) (snd c) src) OutputTooSmall) (\<lambda>out. Inr (out, snd c + length src)))
      | PDataLen tag data_tag \<Rightarrow>
          (case find_field data_tag slots of
             Some value \<Rightarrow> if length value > U32_MAX then Inl BodyTooLong else put tag (render_u32 (length value)) c
           | None \<Rightarrow> Inr c)
      | PSlot tag \<Rightarrow> (case find_field tag slots of Some value \<Rightarrow> put tag value c | None \<Rightarrow> Inr c)
      | PGroup counter \<Rightarrow>
          (case find (\<lambda>g. gd_counter g = counter) groups of
             Some g \<Rightarrow>
               bindR (ok_or (get_range (t_scratch t) (t_mt_at t) (t_mt_at t + t_mt_len t)) IndexPanic) (\<lambda>mt.
                 put_group MAX_DEPTH D mt g c)
           | None \<Rightarrow> Inr c))"

definition reserve :: "template \<Rightarrow> nat" where
  "reserve t = 2 + t_begin_len t + 1 + 2 + MAX_BODY_DIGITS + 1"

text \<open>The prefix array of the source has 43 bytes.\<close>

definition frame_prefix :: "template \<Rightarrow> nat \<Rightarrow> encode_error + bytes" where
  "frame_prefix t body_len =
     (let bl = t_begin_len t; digits = render_u32 body_len in
      if 2 + bl > 43 then Inl OutputTooSmall
      else bindR (ok_or (get_range (t_scratch t) (t_begin_at t) (t_begin_at t + bl)) IndexPanic) (\<lambda>bs.
        let pre = [56, EQ_SIGN] @ bs @ [SOH, 57, EQ_SIGN] @ digits @ [SOH] in
        if length pre > 43 then Inl IndexPanic else Inr pre))"

definition encode_with ::
  "('z) dictionary_scheme \<Rightarrow> template \<Rightarrow> bytes \<Rightarrow> (nat \<times> bytes) list \<Rightarrow> group_data list \<Rightarrow>
   encode_error + bytes \<times> nat \<times> nat" where
  "encode_with D t out slots groups =
     (let k = reserve t in
      bindR (foldR (put_parts_step D t slots groups) (t_parts t) (out, k)) (\<lambda>(out, w).
        let body_len = w - k in
        if body_len \<ge> 100000 then Inl BodyTooLong
        else bindR (frame_prefix t body_len) (\<lambda>pre.
          if length pre > k then Inl IndexPanic
          else let start = k - length pre in
            bindR (ok_or (write_at out start pre) OutputTooSmall) (\<lambda>out.
              let sum = checksum (take (w - start) (drop start out)) in
              bindR (ok_or (write_at out w (b ''10='' @ format_checksum sum @ [SOH])) OutputTooSmall) (\<lambda>out.
                Inr (out, start, w + TRAILER_LEN))))))"

definition template_encode :: "template \<Rightarrow> bytes \<Rightarrow> (nat \<times> bytes) list \<Rightarrow> encode_error + bytes \<times> nat \<times> nat" where
  "template_encode t out slots = encode_with NoDict t out slots []"

end
