(* ===== verification/Template_Correct.thy ===== *)
theory Template_Correct
  imports Template
begin

text \<open>
  What a template writes. The reference is the text of its parts, with no buffer and no cursor; the
  encoder is proved to write exactly that text, framed by \<open>wire_frame\<close>, when it fits, and the
  builder to lay its declarations out in the order of their sort keys.
\<close>

subsection \<open>Numbers\<close>

lemma render_loop_eq: "v > 0 \<Longrightarrow> render_loop v acc = dec_digits v @ acc"
proof (induction v arbitrary: acc rule: less_induct)
  case (less v)
  show ?case
  proof (cases "v < 10")
    case True
    then show ?thesis using less.prems by (simp add: render_loop.simps [of v] render_loop.simps [of 0] dec_digits_small)
  next
    case False
    then have "v div 10 < v" "v div 10 > 0" using less.prems by auto
    then show ?thesis
      using less.IH [of "v div 10"] False less.prems by (simp add: render_loop.simps [of v] dec_digits_snoc [of v])
  qed
qed

lemma render_u32_eq [simp]: "render_u32 v = dec_digits v"
  by (simp add: render_u32_def render_loop_eq dec_digits_small digit_byte_def)

lemma tag_prefix_loop_eq: "tag_prefix_loop t n = n + length (dec_digits t)"
proof (induction t n rule: tag_prefix_loop.induct)
  case (1 t n)
  then show ?case
    by (cases "t \<ge> 10") (simp_all add: tag_prefix_loop.simps [of t n] dec_digits_snoc [of t] dec_digits_small)
qed

lemma tag_prefix_len_eq: "tag_prefix_len t = length (dec_digits t) + 1"
  by (simp add: tag_prefix_len_def tag_prefix_loop_eq)

subsection \<open>The sort is the stable sort by key\<close>

lemma swap_adj_append:
  "swap_adj (length xs) (xs @ y # x # zs) = xs @ x # y # zs"
  by (simp add: swap_adj_def nth_append list_update_append)

lemma sift_down_append:
  fixes key :: "'a \<Rightarrow> 'k::linorder"
  assumes "sorted (map key xs)"
  shows "sift_down key (length xs) (xs @ x # zs) =
    takeWhile (\<lambda>y. key y \<le> key x) xs @ x # dropWhile (\<lambda>y. key y \<le> key x) xs @ zs"
  using assms
proof (induction xs arbitrary: zs rule: rev_induct)
  case (snoc y xs)
  show ?case
  proof (cases "key y > key x")
    case True
    have "sift_down key (length (xs @ [y])) ((xs @ [y]) @ x # zs) = sift_down key (length xs) (xs @ x # y # zs)"
      using True swap_adj_append [of xs y x zs] by (simp add: nth_append)
    also have "\<dots> = takeWhile (\<lambda>y. key y \<le> key x) xs @ x # dropWhile (\<lambda>y. key y \<le> key x) xs @ y # zs"
      using snoc.IH [of "y # zs"] snoc.prems by (simp add: sorted_append)
    finally show ?thesis using True by (auto simp: takeWhile_append dropWhile_append)
  next
    case False
    then have "\<forall>z \<in> set xs. key z \<le> key x" using snoc.prems by (fastforce simp: sorted_append)
    then have "takeWhile (\<lambda>y. key y \<le> key x) (xs @ [y]) = xs @ [y]" "dropWhile (\<lambda>y. key y \<le> key x) (xs @ [y]) = []"
      using False by (auto simp: takeWhile_eq_all_conv)
    then show ?thesis using False by (simp add: nth_append)
  qed
qed simp

definition insert_after :: "('a \<Rightarrow> 'k::linorder) \<Rightarrow> 'a \<Rightarrow> 'a list \<Rightarrow> 'a list" where
  "insert_after key x xs = takeWhile (\<lambda>y. key y \<le> key x) xs @ x # dropWhile (\<lambda>y. key y \<le> key x) xs"

lemma insert_after_simps [simp]:
  "insert_after key x [] = [x]"
  "insert_after key x (y # ys) = (if key y \<le> key x then y # insert_after key x ys else x # y # ys)"
  by (simp_all add: insert_after_def)

lemma insert_after_insort_key:
  "insert_after key x (insort_key key y ys) = insort_key key y (insert_after key x ys)"
  by (induction ys) auto

lemma insert_after_sort_key: "insert_after key x (sort_key key xs) = sort_key key (xs @ [x])"
  by (induction xs) (simp_all add: insert_after_insort_key)

lemma insertion_sort_prefix:
  "k < length xs \<Longrightarrow> fold (sift_down key) [1..<Suc k] xs = sort_key key (take (Suc k) xs) @ drop (Suc k) xs"
proof (induction k)
  case 0
  then show ?case by (cases xs) auto
next
  case (Suc k)
  then have "drop (Suc k) xs = xs ! Suc k # drop (Suc (Suc k)) xs" by (simp add: Cons_nth_drop_Suc)
  with Suc show ?case
    using sift_down_append [of key "sort_key key (take (Suc k) xs)" "xs ! Suc k" "drop (Suc (Suc k)) xs"]
      insert_after_sort_key [of key "xs ! Suc k" "take (Suc k) xs"]
    by (simp add: insert_after_def take_Suc_conv_app_nth del: upt_Suc) (simp add: upt_Suc)
qed

lemma insertion_sort_eq: "insertion_sort key xs = sort_key key xs"
  using insertion_sort_prefix [of "length xs - 1" xs key] by (cases xs) (simp_all add: insertion_sort_def)

subsection \<open>The cursor\<close>

definition emit :: "bytes \<Rightarrow> cursor \<Rightarrow> encode_error + cursor" where
  "emit bs c = (if snd c + length bs \<le> length (fst c)
     then Inr (take (snd c) (fst c) @ bs @ drop (snd c + length bs) (fst c), snd c + length bs)
     else Inl OutputTooSmall)"

lemma emit_Nil [simp]: "snd c \<le> length (fst c) \<Longrightarrow> emit [] c = Inr c"
  by (simp add: emit_def)

lemma emit_append: "bindR (emit xs c) (emit ys) = emit (xs @ ys) c"
  by (auto simp: emit_def ac_simps)

lemma put_emit: "put tag v c = emit (wire_field (tag, v)) c"
  by (cases c) (simp add: put_def emit_def wire_field_def write_at_def Let_def)

text \<open>\<open>writes f g\<close>: the step \<open>f\<close> puts exactly the text \<open>g\<close> at the cursor, and fails where there is
  no text.\<close>

definition writes :: "(cursor \<Rightarrow> encode_error + cursor) \<Rightarrow> encode_error + bytes \<Rightarrow> bool" where
  "writes f g \<longleftrightarrow> (\<forall>c. snd c \<le> length (fst c) \<longrightarrow>
     (case g of Inr bs \<Rightarrow> f c = emit bs c | Inl _ \<Rightarrow> (\<exists>e. f c = Inl e)))"

fun collectR :: "('x \<Rightarrow> 'e + bytes) \<Rightarrow> 'x list \<Rightarrow> 'e + bytes" where
  "collectR g [] = Inr []"
| "collectR g (x # xs) = bindR (g x) (\<lambda>bs. bindR (collectR g xs) (\<lambda>rest. Inr (bs @ rest)))"

lemma emit_bound: "emit bs c = Inr c' \<Longrightarrow> snd c' \<le> length (fst c')"
  by (auto simp: emit_def split: if_splits)

lemma writes_bindR:
  assumes "writes f g" "writes f' g'"
  shows "writes (\<lambda>c. bindR (f c) f') (bindR g (\<lambda>bs. bindR g' (\<lambda>rest. Inr (bs @ rest))))"
proof -
  have "case bindR g (\<lambda>bs. bindR g' (\<lambda>rest. Inr (bs @ rest))) of
      Inr bs \<Rightarrow> bindR (f c) f' = emit bs c | Inl _ \<Rightarrow> (\<exists>e. bindR (f c) f' = Inl e)" if "snd c \<le> length (fst c)" for c
  proof (cases g)
    case (Inl e)
    then show ?thesis using assms(1) that by (fastforce simp: writes_def)
  next
    case (Inr bs)
    then have f: "f c = emit bs c" using assms(1) that by (cases c) (simp add: writes_def)
    show ?thesis
    proof (cases "emit bs c")
      case (Inl e)
      then show ?thesis using f Inr emit_append [of bs c] by (cases g') (auto simp: bindR_def)
    next
      case r: (Inr c')
      then show ?thesis
        using f Inr assms(2) emit_bound [OF r] emit_append [of bs c] by (cases g') (force simp: writes_def)+
    qed
  qed
  then show ?thesis by (simp add: writes_def)
qed

lemma writes_foldR: "(\<And>x. writes (f x) (g x)) \<Longrightarrow> writes (foldR f xs) (collectR g xs)"
proof (induction xs)
  case (Cons x xs)
  from writes_bindR [OF Cons.prems [of x] Cons.IH [OF Cons.prems]] show ?case by simp
qed (simp add: writes_def)

lemma writes_put [intro]: "writes (put tag v) (Inr (wire_field (tag, v)))"
  by (simp add: writes_def put_emit)

lemma writes_Inl [intro]: "writes (\<lambda>c. Inl e) (Inl e)"
  by (simp add: writes_def)

lemma writes_skip [intro]: "writes Inr (Inr [])"
  by (simp add: writes_def)

lemma writes_emit [intro]: "writes (emit bs) (Inr bs)"
  by (simp add: writes_def)


subsection \<open>The text of a group\<close>

primrec group_text :: "nat \<Rightarrow> ('z) dictionary_scheme \<Rightarrow> bytes \<Rightarrow> group_data \<Rightarrow> encode_error + bytes" where
  "group_text 0 D mt g = Inl GroupTooDeep"
| "group_text (Suc left) D mt g =
     (let order = group_order D mt (gd_counter g); n = length (gd_entries g) in
      if order = [] then Inl (UnknownGroup (gd_counter g))
      else if n > U32_MAX then Inl BodyTooLong
      else bindR (collectR (\<lambda>e. bindR (check_entry D order (gd_counter g) e) (\<lambda>_.
          collectR (\<lambda>tag.
            (case find_field tag (ge_fields e) of
               Some v \<Rightarrow>
                 (case Option.bind (data_owner D order tag) (\<lambda>d. find_field d (ge_fields e)) of
                    Some dv \<Rightarrow> if length dv > U32_MAX then Inl BodyTooLong else Inr (wire_field (tag, dec_digits (length dv)))
                  | None \<Rightarrow> Inr (wire_field (tag, v)))
             | None \<Rightarrow>
                 (case find (\<lambda>s. gd_counter s = tag) (ge_groups e) of
                    Some sub \<Rightarrow> group_text left D mt sub
                  | None \<Rightarrow> Inr []))) order)) (gd_entries g))
       (\<lambda>entries. Inr (wire_field (gd_counter g, dec_digits n) @ entries)))"

lemma writes_case_option:
  "(\<And>x. m = Some x \<Longrightarrow> writes (f x) (g x)) \<Longrightarrow> (m = None \<Longrightarrow> writes f' g') \<Longrightarrow>
   writes (\<lambda>c. case m of Some x \<Rightarrow> f x c | None \<Rightarrow> f' c) (case m of Some x \<Rightarrow> g x | None \<Rightarrow> g')"
  by (cases m) auto

lemma writes_if:
  "writes f g \<Longrightarrow> writes f' g' \<Longrightarrow> writes (\<lambda>c. if P then f c else f' c) (if P then g else g')"
  by auto

lemma writes_check: "writes f g \<Longrightarrow> writes (\<lambda>c. bindR r (\<lambda>_. f c)) (bindR r (\<lambda>_. g))"
  by (cases r) auto

lemmas writes_intros = writes_case_option writes_if writes_check writes_foldR writes_Inl writes_put writes_skip

lemma put_group_writes: "writes (put_group left D mt g) (group_text left D mt g)"
proof (induction left arbitrary: g)
  case (Suc left)
  have h: "writes (\<lambda>c. bindR (put t v c) f) (bindR g (\<lambda>r. Inr (wire_field (t, v) @ r)))" if "writes f g" for t v f g
    using writes_bindR [OF writes_put that] by simp
  have "writes (\<lambda>c. put_group (Suc left) D mt g c) (group_text (Suc left) D mt g)"
    unfolding put_group.simps group_text.simps Let_def render_u32_eq
    by (intro h writes_intros Suc.IH)
  then show ?case by simp
qed (simp add: writes_def)

text \<open>The tags a group can write are its counter and the members its tables list, those of its nested
  groups included. \<open>free_of T bs\<close>: the bytes are fields none of which has a tag of \<open>T\<close>.\<close>

definition free_of :: "nat set \<Rightarrow> bytes \<Rightarrow> bool" where
  "free_of T bs \<longleftrightarrow> (\<exists>fs. bs = wire_body fs \<and> fst ` set fs \<inter> T = {})"

definition groups_free_of :: "('z) dictionary_scheme \<Rightarrow> nat set \<Rightarrow> bool" where
  "groups_free_of D T \<longleftrightarrow> (\<forall>mt c. group_order D mt c \<noteq> [] \<longrightarrow> c \<notin> T \<and> set (group_order D mt c) \<inter> T = {})"

lemma free_of_simps [simp]: "free_of T []" "t \<notin> T \<Longrightarrow> free_of T (wire_field (t, v))"
  unfolding free_of_def by (rule exI [of _ "[]"], simp) (rule exI [of _ "[(t, v)]"], simp)

lemma free_of_append: "free_of T xs \<Longrightarrow> free_of T ys \<Longrightarrow> free_of T (xs @ ys)"
  unfolding free_of_def by (metis Int_Un_distrib2 Un_empty image_Un set_append wire_body_simps(3))

lemma collectR_free:
  assumes "collectR g xs = Inr bs" "\<And>x bs. x \<in> set xs \<Longrightarrow> g x = Inr bs \<Longrightarrow> free_of T bs"
  shows "free_of T bs"
  using assms
proof (induction xs arbitrary: bs)
  case (Cons x xs)
  then obtain as rest where "g x = Inr as" "collectR g xs = Inr rest" "bs = as @ rest"
    by (auto simp: bindR_Inr_iff)
  with Cons show ?case by (auto intro: free_of_append)
qed simp

lemma group_text_free:
  assumes "groups_free_of D T" "group_text left D mt g = Inr bs"
  shows "free_of T bs"
  using assms(2)
proof (induction left arbitrary: g bs)
  case (Suc left)
  let ?order = "group_order D mt (gd_counter g)"
  let ?member = "\<lambda>e tag. case find_field tag (ge_fields e) of
      Some v \<Rightarrow>
        (case Option.bind (data_owner D ?order tag) (\<lambda>d. find_field d (ge_fields e)) of
           Some dv \<Rightarrow> if length dv > U32_MAX then Inl BodyTooLong else Inr (wire_field (tag, dec_digits (length dv)))
         | None \<Rightarrow> Inr (wire_field (tag, v)))
    | None \<Rightarrow>
        (case find (\<lambda>s. gd_counter s = tag) (ge_groups e) of
           Some sub \<Rightarrow> group_text left D mt sub | None \<Rightarrow> Inr [])"
  obtain es where o: "?order \<noteq> []" and bs: "bs = wire_field (gd_counter g, dec_digits (length (gd_entries g))) @ es"
    and es: "collectR (\<lambda>e. bindR (check_entry D ?order (gd_counter g) e) (\<lambda>_. collectR (?member e) ?order)) (gd_entries g) = Inr es"
    using Suc.prems by (auto simp: Let_def bindR_Inr_iff split: if_splits)
  have T: "gd_counter g \<notin> T" "tag \<notin> T" if "tag \<in> set ?order" for tag
    using assms(1) o that by (auto simp: groups_free_of_def)
  have "free_of T ws" if "tag \<in> set ?order" "?member e tag = Inr ws" for e tag ws
    using that(2) T(2) [OF that(1)] Suc.IH by (auto split: option.splits if_splits)
  then have "free_of T ws" if "bindR (check_entry D ?order (gd_counter g) e) (\<lambda>_. collectR (?member e) ?order) = Inr ws" for e ws
    using that by (auto simp: bindR_Inr_iff intro: collectR_free)
  with es have "free_of T es" by (auto intro: collectR_free)
  then show ?case unfolding bs using T(1) [OF hd_in_set [OF o]] by (intro free_of_append) simp_all
qed simp

text \<open>What an entry without nested groups writes.\<close>

definition entry_field :: "('z) dictionary_scheme \<Rightarrow> nat list \<Rightarrow> (nat \<times> bytes) list \<Rightarrow> nat \<Rightarrow> (nat \<times> bytes) list" where
  "entry_field D order fs tag =
     (case find_field tag fs of
        Some v \<Rightarrow>
          (case Option.bind (data_owner D order tag) (\<lambda>d. find_field d fs) of
             Some dv \<Rightarrow> [(tag, dec_digits (length dv))] | None \<Rightarrow> [(tag, v)])
      | None \<Rightarrow> [])"

definition entry_out :: "('z) dictionary_scheme \<Rightarrow> nat list \<Rightarrow> (nat \<times> bytes) list \<Rightarrow> (nat \<times> bytes) list" where
  "entry_out D order fs = concat (map (entry_field D order fs) order)"

lemma find_field_None: "find_field t fs = None \<longleftrightarrow> t \<notin> fst ` set fs"
  by (force simp: find_field_def find_None_iff)

lemma find_field_SomeD: "find_field t slots = Some v \<Longrightarrow> (t, v) \<in> set slots"
  by (induction slots) (auto simp: find_field_def split: if_splits)

lemma entry_field_tags: "fst ` set (entry_field D order fs tag) = {tag} \<inter> fst ` set fs"
  using find_field_None [of tag fs] by (cases "find_field tag fs") (auto simp: entry_field_def split: option.split)

lemma entry_out_tags: "fst ` set (entry_out D order fs) = set order \<inter> fst ` set fs"
  by (simp add: entry_out_def image_UN entry_field_tags Int_Un_distrib2)

lemma group_text_flat:
  assumes "order = group_order D mt c" "check_entry D order c (GroupEntryData fs []) = Inr ()"
    and "\<And>f. f \<in> set fs \<Longrightarrow> length (snd f) \<le> U32_MAX"
  shows "group_text (Suc left) D mt (GroupData c [GroupEntryData fs []]) = Inr (wire_body ((c, dec_digits 1) # entry_out D order fs))"
proof -
  have o: "order \<noteq> []" using assms(2) by (auto simp: check_entry_def split: option.splits)
  have le: "length dv \<le> U32_MAX" if "find_field d fs = Some dv" for d dv
    using assms(3) [OF find_field_SomeD [OF that]] by simp
  have one: "(case find_field tag fs of
       Some v \<Rightarrow>
         (case Option.bind (data_owner D order tag) (\<lambda>d. find_field d fs) of
            Some dv \<Rightarrow> if length dv > U32_MAX then Inl BodyTooLong else Inr (wire_field (tag, dec_digits (length dv)))
          | None \<Rightarrow> Inr (wire_field (tag, v)))
     | None \<Rightarrow> Inr []) = Inr (wire_body (entry_field D order fs tag))" for tag
  proof (cases "Option.bind (data_owner D order tag) (\<lambda>d. find_field d fs)")
    case (Some dv)
    then have "length dv \<le> U32_MAX" by (auto simp: bind_eq_Some_conv intro: le)
    with Some show ?thesis by (simp add: entry_field_def split: option.split)
  qed (simp add: entry_field_def split: option.split)
  have all: "collectR (\<lambda>tag. Inr (wire_body (f tag))) tags = Inr (wire_body (concat (map f tags)))"
    for f :: "nat \<Rightarrow> (nat \<times> bytes) list" and tags
    by (induction tags) simp_all
  show ?thesis
    unfolding group_text.simps Let_def group_data.sel group_entry_data.sel assms(1) [symmetric]
    using o assms(2) by (simp add: one all entry_out_def cong: option.case_cong)
qed


subsection \<open>The text of a template, and its frame\<close>

definition part_text ::
  "('z) dictionary_scheme \<Rightarrow> bytes \<Rightarrow> encode_error + bytes \<Rightarrow> (nat \<times> bytes) list \<Rightarrow> group_data list \<Rightarrow> part \<Rightarrow>
   encode_error + bytes" where
  "part_text D scratch mt slots groups p =
     (case p of
        PStatic at len \<Rightarrow> ok_or (get_range scratch at (at + len)) IndexPanic
      | PDataLen tag data_tag \<Rightarrow>
          (case find_field data_tag slots of
             Some value \<Rightarrow> if length value > U32_MAX then Inl BodyTooLong else Inr (wire_field (tag, dec_digits (length value)))
           | None \<Rightarrow> Inr [])
      | PSlot tag \<Rightarrow> (case find_field tag slots of Some value \<Rightarrow> Inr (wire_field (tag, value)) | None \<Rightarrow> Inr [])
      | PGroup counter \<Rightarrow>
          (case find (\<lambda>g. gd_counter g = counter) groups of
             Some g \<Rightarrow> bindR mt (\<lambda>mt. group_text MAX_DEPTH D mt g)
           | None \<Rightarrow> Inr []))"

definition template_mt :: "template \<Rightarrow> encode_error + bytes" where
  "template_mt t = ok_or (get_range (t_scratch t) (t_mt_at t) (t_mt_at t + t_mt_len t)) IndexPanic"

definition template_text ::
  "('z) dictionary_scheme \<Rightarrow> template \<Rightarrow> (nat \<times> bytes) list \<Rightarrow> group_data list \<Rightarrow> encode_error + bytes" where
  "template_text D t slots groups = collectR (part_text D (t_scratch t) (template_mt t) slots groups) (t_parts t)"

lemma put_static_emit:
  "bindR (ok_or (write_at (fst c) (snd c) src) OutputTooSmall) (\<lambda>out. Inr (out, snd c + length src)) = emit src c"
  by (simp add: emit_def write_at_def)

lemma writes_parts: "writes (put_parts_step D t slots groups p) (part_text D (t_scratch t) (template_mt t) slots groups p)"
proof (cases p)
  case (PStatic at len)
  show ?thesis
    unfolding put_parts_step_def part_text_def PStatic part.case put_static_emit
    by (cases "get_range (t_scratch t) at (at + len)") (auto simp: writes_def)
next
  case (PGroup counter)
  have "writes (\<lambda>c. bindR r (\<lambda>mt. put_group 8 D mt g c)) (bindR r (\<lambda>mt. group_text 8 D mt g))" for r g
    by (cases r) (auto intro: put_group_writes)
  then show ?thesis
    unfolding put_parts_step_def part_text_def PGroup part.case template_mt_def [symmetric] by (intro writes_case_option writes_skip)
qed (unfold put_parts_step_def part_text_def, simp_all only: part.case render_u32_eq, (intro writes_intros)+)

definition template_ok :: "template \<Rightarrow> bytes \<Rightarrow> bool" where
  "template_ok t bstr \<longleftrightarrow> get_range (t_scratch t) (t_begin_at t) (t_begin_at t + t_begin_len t) = Some bstr \<and>
     length bstr \<le> 32"

definition message_of :: "bytes \<times> nat \<times> nat \<Rightarrow> bytes" where
  "message_of r = (case r of (out, start, fin) \<Rightarrow> take (fin - start) (drop start out))"

lemma template_ok_len: "template_ok t bstr \<Longrightarrow> t_begin_len t = length bstr"
  by (auto simp: template_ok_def get_range_def split: if_splits)

lemma frame_prefix_eq:
  assumes "template_ok t bstr" "length body < 100000"
  shows "\<exists>pre. frame_prefix t (length body) = Inr pre \<and> pre @ body = wire_prefix bstr body \<and> length pre \<le> reserve t"
proof -
  have d: "length (dec_digits (length body)) \<le> 5"
    using length_dec_digits_le [of "length body" 5] assms(2) by simp
  have "frame_prefix t (length body) = Inr (b ''8='' @ bstr @ [SOH] @ b ''9='' @ dec_digits (length body) @ [SOH])"
    using assms(1) d template_ok_len [OF assms(1)] by (auto simp: frame_prefix_def template_ok_def Let_def b_def)
  then show ?thesis
    using template_ok_len [OF assms(1)] d by (simp add: wire_prefix_def reserve_def b_def)
qed

lemma write_at_end:
  "length xs = n \<Longrightarrow> write_at (xs @ ys) n tr = (if length tr \<le> length ys then Some (xs @ tr @ drop (length tr) ys) else None)"
  by (simp add: write_at_def)

lemma encode_with_eq:
  assumes ok: "template_ok t bstr" and len: "reserve t \<le> length out"
    and tt: "template_text D t slots groups = Inr body" and body: "length body < 100000"
  shows "encode_with D t out slots groups =
     (let k = reserve t; start = k + length body - length (wire_prefix bstr body) in
      if k + length body + 7 \<le> length out
      then Inr (take start out @ wire_frame bstr body @ drop (k + length body + 7) out, start, k + length body + 7)
      else Inl OutputTooSmall)"
proof -
  let ?k = "reserve t"
  have "writes (foldR (put_parts_step D t slots groups) (t_parts t)) (Inr body)"
    using writes_foldR [of "put_parts_step D t slots groups", OF writes_parts] tt by (metis template_text_def)
  then have w: "foldR (put_parts_step D t slots groups) (t_parts t) (out, ?k) = emit body (out, ?k)"
    using len by (simp add: writes_def)
  obtain pre where pre: "frame_prefix t (length body) = Inr pre" "pre @ body = wire_prefix bstr body" "length pre \<le> ?k"
    using frame_prefix_eq [OF ok body] by blast
  have start: "?k + length body - length (wire_prefix bstr body) = ?k - length pre"
    using pre(2) [symmetric] by simp
  show ?thesis
  proof (cases "?k + length body \<le> length out")
    case False
    then show ?thesis by (simp add: encode_with_def w emit_def Let_def)
  next
    case True
    let ?out1 = "take ?k out @ body @ drop (?k + length body) out"
    let ?out2 = "take (?k - length pre) out @ pre @ body @ drop (?k + length body) out"
    have wp: "write_at ?out1 (?k - length pre) pre = Some ?out2"
      using True pre(3) len by (auto simp: write_at_def min_def)
    have sum: "take (?k + length body - (?k - length pre)) (drop (?k - length pre) ?out2) = wire_prefix bstr body"
      using True pre(2,3) len by (auto simp: min_def)
    have wt: "write_at ?out2 (?k + length body) tr =
        (if ?k + length body + length tr \<le> length out
         then Some (take (?k - length pre) out @ pre @ body @ tr @ drop (?k + length body + length tr) out) else None)" for tr
    proof -
      have "length (take (?k - length pre) out @ pre @ body) = ?k + length body" using True pre(3) by auto
      from write_at_end [OF this, of "drop (?k + length body) out" tr] show ?thesis
        using True by (auto simp: ac_simps)
    qed
    show ?thesis
      using True pre(1,3) body wp sum wt pre(2) [symmetric] start
      by (simp add: encode_with_def w emit_def Let_def wire_frame_def b_def length_format_checksum)
  qed
qed


lemma encode_with_frame:
  assumes ok: "template_ok t bstr" and len: "reserve t + length body + 7 \<le> length out"
    and tt: "template_text D t slots groups = Inr body" and body: "length body < 100000"
  shows "\<exists>r. encode_with D t out slots groups = Inr r \<and> message_of r = wire_frame bstr body \<and> length (fst r) = length out"
proof -
  let ?start = "reserve t + length body - length (wire_prefix bstr body)"
  let ?r = "(take ?start out @ wire_frame bstr body @ drop (reserve t + length body + 7) out, ?start, reserve t + length body + 7)"
  have le: "length (wire_prefix bstr body) \<le> reserve t + length body"
    using frame_prefix_eq [OF ok body] by (metis add_le_mono1 length_append)
  have fl: "length (wire_frame bstr body) = length (wire_prefix bstr body) + 7"
    by (simp add: wire_frame_def b_def length_format_checksum)
  have "encode_with D t out slots groups = Inr ?r"
    using encode_with_eq [OF ok _ tt body, of out] len by (simp add: Let_def)
  moreover have "message_of ?r = wire_frame bstr body"
    using len le fl by (simp add: message_of_def)
  moreover have "length (fst ?r) = length out" using len le fl by simp
  ultimately show ?thesis by blast
qed

lemma encode_with_InrD:
  assumes "encode_with D t out slots groups = Inr r" and ok: "template_ok t bstr" and len: "reserve t \<le> length out"
  shows "\<exists>body. template_text D t slots groups = Inr body \<and> length body < 100000 \<and>
    reserve t + length body + 7 \<le> length out \<and> message_of r = wire_frame bstr body"
proof -
  have "writes (foldR (put_parts_step D t slots groups) (t_parts t)) (template_text D t slots groups)"
    using writes_foldR [of "put_parts_step D t slots groups", OF writes_parts] by (metis template_text_def)
  then have w: "case template_text D t slots groups of
      Inr bs \<Rightarrow> foldR (put_parts_step D t slots groups) (t_parts t) (out, reserve t) = emit bs (out, reserve t)
    | Inl _ \<Rightarrow> (\<exists>e. foldR (put_parts_step D t slots groups) (t_parts t) (out, reserve t) = Inl e)"
    using len unfolding writes_def by (metis fst_conv snd_conv)
  obtain c where c: "foldR (put_parts_step D t slots groups) (t_parts t) (out, reserve t) = Inr c" "snd c - reserve t < 100000"
    using assms(1) by (auto simp: encode_with_def Let_def bindR_Inr_iff split: if_splits)
  then obtain body where tt: "template_text D t slots groups = Inr body" and e: "emit body (out, reserve t) = Inr c"
    using w by (cases "template_text D t slots groups") auto
  have body: "length body < 100000" using e c(2) by (auto simp: emit_def split: if_splits)
  have "reserve t + length body + 7 \<le> length out"
    using encode_with_eq [OF ok len tt body] assms(1) by (auto simp: Let_def split: if_splits)
  then show ?thesis using encode_with_frame [OF ok _ tt body] assms(1) tt body by fastforce
qed


subsection \<open>What a builder declares, and what \<open>build\<close> makes of it\<close>

datatype decl = Field nat bytes | Slot nat | Group nat

fun decl_tag :: "decl \<Rightarrow> nat" where
  "decl_tag (Field t v) = t" | "decl_tag (Slot t) = t" | "decl_tag (Group t) = t"

fun tb_declare :: "decl \<Rightarrow> template_builder \<Rightarrow> template_builder" where
  "tb_declare (Field t v) tb = tb_field t v tb"
| "tb_declare (Slot t) tb = tb_slot t tb"
| "tb_declare (Group t) tb = tb_group t tb"

fun decl_text ::
  "('z) dictionary_scheme \<Rightarrow> encode_error + bytes \<Rightarrow> (nat \<times> bytes) list \<Rightarrow> group_data list \<Rightarrow> decl \<Rightarrow> encode_error + bytes" where
  "decl_text D mt slots groups (Field t v) = Inr (wire_field (t, v))"
| "decl_text D mt slots groups (Slot t) =
     (case find_field t slots of Some v \<Rightarrow> Inr (wire_field (t, v)) | None \<Rightarrow> Inr [])"
| "decl_text D mt slots groups (Group c) =
     (case find (\<lambda>g. gd_counter g = c) groups of
        Some g \<Rightarrow> bindR mt (\<lambda>mt. group_text MAX_DEPTH D mt g) | None \<Rightarrow> Inr [])"

fun entry_decl :: "bytes \<Rightarrow> nat \<Rightarrow> entry \<Rightarrow> decl \<Rightarrow> bool" where
  "entry_decl scratch used e (Field t v) \<longleftrightarrow> en_tag e = t \<and> en_kind e = KStatic \<and>
     get_range scratch (en_at e) (en_at e + en_len e) = Some (wire_field (t, v)) \<and> en_at e + en_len e \<le> used"
| "entry_decl scratch used e (Slot t) \<longleftrightarrow> en_tag e = t \<and> en_kind e = KSlot"
| "entry_decl scratch used e (Group t) \<longleftrightarrow> en_tag e = t \<and> en_kind e = KGroup"

definition tb_inv :: "nat \<Rightarrow> bytes \<Rightarrow> decl list \<Rightarrow> template_builder \<Rightarrow> bool" where
  "tb_inv S bstr ds tb \<longleftrightarrow> length (tb_scratch tb) = S \<and> S \<le> U16_MAX \<and> tb_used tb \<le> S \<and>
     get_range (tb_scratch tb) (tb_begin_at tb) (tb_begin_at tb + tb_begin_len tb) = Some bstr \<and>
     tb_begin_at tb + tb_begin_len tb \<le> tb_used tb \<and>
     list_all2 (entry_decl (tb_scratch tb) (tb_used tb)) (tb_entries tb) ds"

lemma get_range_write_at_before:
  "write_at out w src = Some out' \<Longrightarrow> hi \<le> w \<Longrightarrow> get_range out' lo hi = get_range out lo hi"
  by (auto simp: write_at_def get_range_def drop_take min_def split: if_splits)

lemma get_range_write_at_extend:
  "write_at out w src = Some out' \<Longrightarrow> get_range out lo w = Some xs \<Longrightarrow> get_range out' lo (w + length src) = Some (xs @ src)"
  by (auto simp: write_at_def get_range_def drop_take split: if_splits)

lemma write_at_append:
  "write_at out w xs = Some out1 \<Longrightarrow> write_at out1 (w + length xs) ys = Some out2 \<Longrightarrow> write_at out w (xs @ ys) = Some out2"
  by (auto simp: write_at_def ac_simps split: if_splits)

text \<open>A successful write of \<open>bs\<close> at the end of the builder's scratch.\<close>

definition wrote :: "bytes \<Rightarrow> template_builder \<Rightarrow> template_builder \<Rightarrow> bool" where
  "wrote bs tb tb' \<longleftrightarrow> (\<exists>s. write_at (tb_scratch tb) (tb_used tb) bs = Some s \<and>
    tb' = tb\<lparr>tb_scratch := s, tb_used := tb_used tb + length bs\<rparr> \<and> tb_used tb + length bs \<le> length s)"

definition small :: "template_builder \<Rightarrow> bool" where
  "small tb \<longleftrightarrow> length (tb_scratch tb) \<le> U16_MAX"

lemma tb_write_InrD: "tb_write bs tb = Inr tb' \<Longrightarrow> small tb \<Longrightarrow> wrote bs tb tb'"
  by (auto simp: tb_write_def bindR_Inr_iff ok_or_Inr_iff write_at_def wrap16_def wrote_def small_def split: if_splits)

lemma tb_write_tag_InrD: "tb_write_tag t tb = Inr tb' \<Longrightarrow> small tb \<Longrightarrow> wrote (dec_digits t @ [EQ_SIGN]) tb tb'"
  by (auto simp: tb_write_tag_def Let_def bindR_Inr_iff ok_or_Inr_iff write_at_def wrap16_def wrote_def small_def split: if_splits)

lemma wrote_small: "wrote bs tb tb' \<Longrightarrow> small tb' = small tb"
  by (auto simp: wrote_def small_def dest: write_at_length)

lemma wrote_trans: "wrote xs tb tb' \<Longrightarrow> wrote ys tb' tb'' \<Longrightarrow> wrote (xs @ ys) tb tb''"
  by (auto simp: wrote_def add.assoc dest: write_at_append)

lemma tb_write_field_InrD:
  assumes "tb_write_field t v tb = Inr tb'" "small tb"
  shows "wrote (wire_field (t, v)) tb tb'"
proof -
  obtain tb1 tb2 where "tb_write_tag t tb = Inr tb1" "tb_write v tb1 = Inr tb2" "tb_write [SOH] tb2 = Inr tb'"
    using assms(1) by (auto simp: tb_write_field_def bindR_Inr_iff)
  then have w: "wrote (dec_digits t @ [EQ_SIGN]) tb tb1" "wrote v tb1 tb2" "wrote [SOH] tb2 tb'"
    using assms(2) tb_write_InrD tb_write_tag_InrD wrote_small by metis+
  show ?thesis using wrote_trans [OF w(1) wrote_trans [OF w(2,3)]] by (simp add: wire_field_def)
qed

lemma entry_decl_wrote: "wrote bs tb tb' \<Longrightarrow> entry_decl (tb_scratch tb) (tb_used tb) e d \<Longrightarrow> entry_decl (tb_scratch tb') (tb_used tb') e d"
  by (cases d) (auto simp: wrote_def get_range_write_at_before)

lemma tb_inv_wrote:
  assumes "tb_inv S bstr ds tb" "wrote bs tb tb'"
  shows "tb_inv S bstr ds tb'"
  using assms list_all2_mono [OF _ entry_decl_wrote [OF assms(2)]]
  by (auto simp: wrote_def tb_inv_def get_range_write_at_before dest: write_at_length)

lemma tb_inv_entry:
  assumes "tb_inv S bstr ds tb" "tb_entry e tb = Inr tb'" "entry_decl (tb_scratch tb) (tb_used tb) e d"
  shows "tb_inv S bstr (ds @ [d]) tb' \<and> tb_err tb' = tb_err tb \<and> tb_max_parts tb' = tb_max_parts tb"
  using assms by (auto simp: tb_inv_def tb_entry_def list_all2_appendI split: if_splits)

lemma push_field_inv:
  assumes "tb_inv S bstr ds tb" "push_field t v tb = Inr tb'"
  shows "tb_inv S bstr (ds @ [Field t v]) tb' \<and> tb_err tb' = tb_err tb \<and> tb_max_parts tb' = tb_max_parts tb"
proof -
  obtain tb1 where w: "tb_write_field t v tb = Inr tb1"
    and e: "tb_entry \<lparr>en_tag = t, en_at = tb_used tb, en_len = tb_used tb1 - tb_used tb, en_kind = KStatic\<rparr> tb1 = Inr tb'"
    using assms(2) by (auto simp: push_field_def Let_def bindR_Inr_iff)
  have "small tb" using assms(1) by (simp add: tb_inv_def small_def)
  then have w: "wrote (wire_field (t, v)) tb tb1" using tb_write_field_InrD [OF w] by simp
  then have "entry_decl (tb_scratch tb1) (tb_used tb1)
     \<lparr>en_tag = t, en_at = tb_used tb, en_len = tb_used tb1 - tb_used tb, en_kind = KStatic\<rparr> (Field t v)"
    by (auto simp: wrote_def write_at_def get_range_def split: if_splits)
  from tb_inv_entry [OF tb_inv_wrote [OF assms(1) w] e this] w show ?thesis
    by (auto simp: wrote_def)
qed

lemma push_hole_inv:
  assumes "tb_inv S bstr ds tb"
  shows "push_slot t tb = Inr tb' \<Longrightarrow> tb_inv S bstr (ds @ [Slot t]) tb' \<and> tb_err tb' = tb_err tb \<and> tb_max_parts tb' = tb_max_parts tb"
    and "push_group t tb = Inr tb' \<Longrightarrow> tb_inv S bstr (ds @ [Group t]) tb' \<and> tb_err tb' = tb_err tb \<and> tb_max_parts tb' = tb_max_parts tb"
  using assms by (auto simp: push_slot_def push_group_def bindR_Inr_iff dest: tb_inv_entry [where d = "Slot t"] tb_inv_entry [where d = "Group t"])

lemma tb_declare_inv:
  assumes "tb_inv S bstr ds tb" "tb_err (tb_declare d tb) = None"
  shows "tb_inv S bstr (ds @ [d]) (tb_declare d tb) \<and> tb_err tb = None \<and> tb_max_parts (tb_declare d tb) = tb_max_parts tb"
  using assms push_field_inv [OF assms(1)] push_hole_inv [OF assms(1)]
  by (cases d) (auto simp: tb_field_def tb_slot_def tb_group_def tb_or_err_def split: sum.splits if_splits)

lemma tb_write_err: "tb_write bs tb = Inr tb' \<Longrightarrow> tb_err tb' = tb_err tb" "tb_write_tag t tb = Inr tb' \<Longrightarrow> tb_err tb' = tb_err tb"
  "tb_entry e tb = Inr tb' \<Longrightarrow> tb_err tb' = tb_err tb"
  by (auto simp: tb_write_def tb_write_tag_def tb_entry_def Let_def bindR_Inr_iff split: if_splits)

lemma tb_declare_err: "tb_err tb \<noteq> None \<Longrightarrow> tb_err (tb_declare d tb) \<noteq> None"
  by (cases d) (auto simp: tb_field_def tb_slot_def tb_group_def tb_or_err_def push_field_def push_slot_def push_group_def
      tb_write_field_def Let_def bindR_Inr_iff split: sum.splits dest!: tb_write_err)

lemma declare_all_err: "tb_err tb \<noteq> None \<Longrightarrow> tb_err (fold tb_declare ds tb) \<noteq> None"
  using tb_declare_err by (induction ds arbitrary: tb) simp_all

lemma declare_all_inv:
  "tb_inv S bstr ds tb \<Longrightarrow> tb_err (fold tb_declare ds' tb) = None \<Longrightarrow>
   tb_inv S bstr (ds @ ds') (fold tb_declare ds' tb) \<and> tb_err tb = None \<and> tb_max_parts (fold tb_declare ds' tb) = tb_max_parts tb"
proof (induction ds' arbitrary: ds tb)
  case (Cons d ds')
  have "tb_err (tb_declare d tb) = None"
    using declare_all_err [of "tb_declare d tb" ds'] Cons.prems(2) by (cases "tb_err (tb_declare d tb)") simp_all
  from tb_declare_inv [OF Cons.prems(1) this] Cons.IH [of "ds @ [d]" "tb_declare d tb"] Cons.prems(2)
  show ?case by simp
qed simp

lemma TemplateBuilder_new_inv:
  assumes "S \<le> U16_MAX" "tb_err (TemplateBuilder_new P S bstr) = None"
  shows "tb_inv S bstr [] (TemplateBuilder_new P S bstr) \<and> tb_max_parts (TemplateBuilder_new P S bstr) = P"
proof -
  define tb where "tb = \<lparr>tb_max_parts = P, tb_scratch = replicate S 0, tb_used = 0, tb_begin_at = 0, tb_begin_len = 0,
               tb_entries = [], tb_err = None :: encode_error option\<rparr>"
  obtain tb' where w: "tb_write bstr tb = Inr tb'"
    and new: "TemplateBuilder_new P S bstr = tb'\<lparr>tb_begin_at := tb_used tb, tb_begin_len := tb_used tb' - tb_used tb\<rparr>"
    using assms(2) by (auto simp: TemplateBuilder_new_def tb_stash_def tb_def [symmetric] split: sum.splits)
  have "small tb" using assms(1) by (simp add: tb_def small_def)
  from tb_write_InrD [OF w this] assms(1) show ?thesis
    unfolding new by (auto simp: wrote_def tb_inv_def tb_def write_at_def get_range_def split: if_splits)
qed


lemma list_all2_in_set1: "list_all2 R xs ys \<Longrightarrow> x \<in> set xs \<Longrightarrow> \<exists>y \<in> set ys. R x y"
  by (induction rule: list_all2_induct) auto

lemma list_all2_sort_key:
  assumes "list_all2 R xs ys" "\<And>x y. R x y \<Longrightarrow> f x = g y"
  shows "list_all2 R (sort_key f xs) (sort_key g ys)"
  using assms(1)
proof (induction rule: list_all2_induct)
  case (Cons x xs y ys)
  have "list_all2 R (insort_key f x as) (insort_key g y bs)" if "list_all2 R as bs" for as bs
    using that Cons.hyps(1) assms(2) by (induction rule: list_all2_induct) auto
  then show ?case using Cons.IH by simp
qed simp

subsection \<open>Laying out\<close>

lemma bindR_assoc: "bindR (bindR r f) g = bindR r (\<lambda>x. bindR (f x) g)"
  by (cases r) auto

lemma collectR_snoc: "collectR g (xs @ [x]) = bindR (collectR g xs) (\<lambda>as. bindR (g x) (\<lambda>bs. Inr (as @ bs)))"
  by (induction xs) (auto simp: bindR_def split: sum.splits)

fun part_within :: "nat \<Rightarrow> part \<Rightarrow> bool" where
  "part_within used (PStatic at len) \<longleftrightarrow> at + len \<le> used"
| "part_within used _ \<longleftrightarrow> True"

lemma part_text_write_at:
  "part_within w p \<Longrightarrow> write_at scratch w src = Some scratch' \<Longrightarrow>
   part_text D scratch' mt slots groups p = part_text D scratch mt slots groups p"
  by (cases p) (auto simp: part_text_def get_range_write_at_before)

lemma parts_text_write_at:
  assumes "\<forall>p \<in> set ps. part_within w p" "write_at scratch w src = Some scratch'"
  shows "collectR (part_text D scratch' mt slots groups) ps = collectR (part_text D scratch mt slots groups) ps"
  using assms(1) by (induction ps) (simp_all add: part_text_write_at [OF _ assms(2)])

text \<open>The message type a template knows: the value of its static tag 35.\<close>

fun static_mt :: "decl list \<Rightarrow> bytes option" where
  "static_mt [] = None"
| "static_mt (d # ds) = (case static_mt ds of Some v \<Rightarrow> Some v
     | None \<Rightarrow> (case d of Field t v \<Rightarrow> if t = 35 then Some v else None | _ \<Rightarrow> None))"

lemma static_mt_snoc: "static_mt (ds @ [d]) = (case d of Field t v \<Rightarrow> if t = 35 then Some v else static_mt ds | _ \<Rightarrow> static_mt ds)"
  by (induction ds) (auto split: decl.splits)

definition mt_known :: "bytes \<Rightarrow> nat \<Rightarrow> nat \<Rightarrow> nat \<Rightarrow> bytes option \<Rightarrow> bool" where
  "mt_known scratch at len used m \<longleftrightarrow>
     (case m of Some v \<Rightarrow> get_range scratch at (at + len) = Some v \<and> at + len \<le> used | None \<Rightarrow> at = 0 \<and> len = 0)"

definition lay_inv :: "('z) dictionary_scheme \<Rightarrow> nat \<Rightarrow> bytes \<Rightarrow> decl list \<Rightarrow> bytes option \<Rightarrow> layout \<Rightarrow> bool" where
  "lay_inv D S bstr ds m lo \<longleftrightarrow>
     length (t_scratch (lo_template lo)) = S \<and> S \<le> U16_MAX \<and> lo_used lo \<le> S \<and>
     t_begin_at (lo_template lo) = 0 \<and> t_begin_len (lo_template lo) = length bstr \<and> length bstr \<le> lo_used lo \<and>
     get_range (t_scratch (lo_template lo)) 0 (length bstr) = Some bstr \<and>
     (\<forall>p \<in> set (t_parts (lo_template lo)). part_within (lo_used lo) p) \<and>
     (\<forall>mt slots groups. collectR (part_text D (t_scratch (lo_template lo)) mt slots groups) (t_parts (lo_template lo)) =
        collectR (decl_text D mt slots groups) ds) \<and>
     mt_known (t_scratch (lo_template lo)) (t_mt_at (lo_template lo)) (t_mt_len (lo_template lo)) (lo_used lo) m"

lemma put_part_inv:
  assumes "lay_inv D S bstr ds m lo" "put_part P p lo = Inr lo'" "part_within (lo_used lo) p"
    and "\<And>mt slots groups. part_text D (t_scratch (lo_template lo)) mt slots groups p = decl_text D mt slots groups d"
  shows "lay_inv D S bstr (ds @ [d]) m lo'"
  using assms by (auto simp: put_part_def lay_inv_def collectR_snoc split: if_splits)

lemma lay_hole_inv:
  assumes "lay_inv D S bstr ds m lo" "lay_entry P scratch e lo = Inr lo'" "entry_decl scratch used e d" "\<forall>t v. d \<noteq> Field t v"
  shows "lay_inv D S bstr (ds @ [d]) m lo'"
proof -
  have flag: "lay_inv D S bstr ds' m (lo\<lparr>lo_has_group := g\<rparr>) = lay_inv D S bstr ds' m lo" for ds' lo g
    by (simp add: lay_inv_def)
  show ?thesis
  proof (cases d)
    case (Slot t)
    then show ?thesis using assms put_part_inv [OF assms(1), of P "PSlot t" lo' "Slot t"]
      by (simp add: lay_entry_def part_text_def)
  next
    case (Group t)
    then obtain lo1 where "put_part P (PGroup t) lo = Inr lo1" "lo' = lo1\<lparr>lo_has_group := True\<rparr>"
      using assms by (auto simp: lay_entry_def bindR_Inr_iff)
    then show ?thesis using put_part_inv [OF assms(1), of P "PGroup t" lo1 "Group t"] Group
      by (simp add: flag part_text_def)
  qed (use assms in simp)
qed

text \<open>The bytes of a static entry at the end of the template's scratch, before it is made a part.\<close>

definition laid :: "entry \<Rightarrow> bytes \<Rightarrow> bytes \<Rightarrow> layout \<Rightarrow> layout" where
  "laid e src out lo = lo\<lparr>lo_template :=
     (if en_tag e = 35 then (lo_template lo)\<lparr>t_mt_at := wrap16 (lo_used lo + 3), t_mt_len := en_len e - 4\<rparr> else lo_template lo)
       \<lparr>t_scratch := out\<rparr>, lo_used := lo_used lo + length src\<rparr>"

lemma wire_field_35: "drop 3 (wire_field (35, v)) = v @ [SOH]" "length (wire_field (35, v)) = length v + 4"
  by (simp_all add: wire_field_def dec_digits.simps numeral_3_eq_3)

lemma mt_known_laid:
  assumes "mt_known scratch at len used m" "write_at scratch used (wire_field (t, v)) = Some out"
  shows "mt_known out (if t = 35 then used + 3 else at) (if t = 35 then length (wire_field (t, v)) - 4 else len)
     (used + length (wire_field (t, v))) (if t = 35 then Some v else m)"
proof (cases "t = 35")
  case True
  then have "get_range out (used + 3) (used + 3 + length v) = Some v"
    using assms(2) wire_field_35 [of v] by (auto simp: write_at_def get_range_def split: if_splits)
  then show ?thesis using True wire_field_35 [of v] by (simp add: mt_known_def)
next
  case False
  then show ?thesis using assms by (auto simp: mt_known_def get_range_write_at_before split: option.splits)
qed

lemma laid_inv:
  assumes "lay_inv D S bstr ds m lo" "en_tag e = t" "en_len e = length (wire_field (t, v))"
    and out: "write_at (t_scratch (lo_template lo)) (lo_used lo) (wire_field (t, v)) = Some out"
  shows "lay_inv D S bstr ds (if t = 35 then Some v else m) (laid e (wire_field (t, v)) out lo)"
proof -
  have fits: "lo_used lo + length (wire_field (t, v)) \<le> S" "length out = S"
    using assms(1) out by (auto simp: write_at_def lay_inv_def split: if_splits)
  have w: "wrap16 (lo_used lo + 3) = lo_used lo + 3" if "t = 35"
    using fits(1) assms(1) wire_field_35(2) [of v] that by (simp add: lay_inv_def wrap16_def)
  have "\<forall>p \<in> set (t_parts (lo_template lo)). part_within (lo_used lo + length (wire_field (t, v))) p"
    using assms(1) part_within.elims(2) part_within.simps(1)
    by (fastforce simp: lay_inv_def elim!: part_within.elims(2))
  then show ?thesis
    using assms fits w mt_known_laid [OF _ out, of "t_mt_at (lo_template lo)" "t_mt_len (lo_template lo)" m]
      parts_text_write_at [OF _ out, of "t_parts (lo_template lo)" D] get_range_write_at_before [OF out, of "length bstr" 0]
    by (cases "t = 35") (simp_all add: lay_inv_def laid_def)
qed

lemma lay_static_unfold:
  assumes "get_range scratch (en_at e) (en_at e + en_len e) = Some src"
    and "write_at (t_scratch (lo_template lo)) (lo_used lo) src = Some out"
  shows "lay_static P scratch e lo =
    (case rev (t_parts (lo_template lo)) of
       PStatic at len # before \<Rightarrow>
         if at + len = lo_used lo
         then Inr ((laid e src out lo)\<lparr>lo_template := (lo_template (laid e src out lo))
                \<lparr>t_parts := rev before @ [PStatic at (wrap16 (len + en_len e))]\<rparr>\<rparr>)
         else put_part P (PStatic (wrap16 (lo_used lo)) (en_len e)) (laid e src out lo)
     | _ \<Rightarrow> put_part P (PStatic (wrap16 (lo_used lo)) (en_len e)) (laid e src out lo))"
  using assms by (simp add: lay_static_def laid_def Let_def split: list.splits part.splits)

lemma laid_simps [simp]: "t_parts (lo_template (laid e src out lo)) = t_parts (lo_template lo)"
  "lo_used (laid e src out lo) = lo_used lo + length src" "t_scratch (lo_template (laid e src out lo)) = out"
  by (simp_all add: laid_def)

lemma lay_static_inv:
  assumes inv: "lay_inv D S bstr ds m lo" and lay: "lay_static P scratch e lo = Inr lo'" and e: "entry_decl scratch used e (Field t v)"
  shows "lay_inv D S bstr (ds @ [Field t v]) (if t = 35 then Some v else m) lo'"
proof -
  let ?src = "wire_field (t, v)"
  from e have src: "get_range scratch (en_at e) (en_at e + en_len e) = Some ?src" and tag: "en_tag e = t" by auto
  have len: "en_len e = length ?src" using get_range_length [OF src] by simp
  from lay src obtain out where out: "write_at (t_scratch (lo_template lo)) (lo_used lo) ?src = Some out"
    by (auto simp: lay_static_def Let_def bindR_Inr_iff ok_or_Inr_iff split: if_splits)
  then have fits: "lo_used lo + length ?src \<le> U16_MAX" using inv by (auto simp: write_at_def lay_inv_def split: if_splits)
  let ?lo1 = "laid e ?src out lo"
  note base = laid_inv [OF inv tag len out]
  have new: "lay_inv D S bstr (ds @ [Field t v]) (if t = 35 then Some v else m) lo'"
    if "put_part P (PStatic (wrap16 (lo_used lo)) (en_len e)) ?lo1 = Inr lo'"
  proof (rule put_part_inv [OF base that])
    show "part_within (lo_used ?lo1) (PStatic (wrap16 (lo_used lo)) (en_len e))"
      using fits len by (simp add: wrap16_def)
    show "part_text D (t_scratch (lo_template ?lo1)) mt slots groups (PStatic (wrap16 (lo_used lo)) (en_len e)) =
        decl_text D mt slots groups (Field t v)" for mt slots groups
      using fits len out by (auto simp: part_text_def wrap16_def write_at_def get_range_def split: if_splits)
  qed
  show ?thesis
  proof (cases "\<exists>at len before. rev (t_parts (lo_template lo)) = PStatic at len # before \<and> at + len = lo_used lo")
    case False
    then have "put_part P (PStatic (wrap16 (lo_used lo)) (en_len e)) ?lo1 = Inr lo'"
      using lay lay_static_unfold [OF src out, of P] by (auto split: list.splits part.splits if_splits)
    then show ?thesis by (rule new)
  next
    case True
    then obtain at n before where parts: "t_parts (lo_template lo) = rev before @ [PStatic at n]" and at: "at + n = lo_used lo"
      by (metis rev_eq_Cons_iff)
    then have lo': "lo' = ?lo1\<lparr>lo_template := (lo_template ?lo1)\<lparr>t_parts := rev before @ [PStatic at (n + length ?src)]\<rparr>\<rparr>"
      using lay lay_static_unfold [OF src out, of P] len fits by (simp add: wrap16_def)
    have merge: "part_text D out mt slots groups (PStatic at (n + length ?src)) =
        bindR (part_text D out mt slots groups (PStatic at n)) (\<lambda>bs. Inr (bs @ ?src))" for mt slots groups
    proof -
      have "at \<le> lo_used lo" "lo_used lo \<le> length (t_scratch (lo_template lo))" using at inv by (auto simp: lay_inv_def)
      then obtain xs where xs: "get_range (t_scratch (lo_template lo)) at (lo_used lo) = Some xs" by (simp add: get_range_def)
      from get_range_write_at_before [OF out, of "lo_used lo" at] get_range_write_at_extend [OF out xs] xs at
      show ?thesis by (simp add: part_text_def add.assoc [symmetric])
    qed
    have "collectR (part_text D out mt slots groups) (rev before @ [PStatic at (n + length ?src)]) =
        collectR (decl_text D mt slots groups) (ds @ [Field t v])" for mt slots groups
    proof -
      have "collectR (decl_text D mt slots groups) ds = collectR (part_text D out mt slots groups) (rev before @ [PStatic at n])"
        using base parts by (simp add: lay_inv_def)
      then show ?thesis using merge by (simp add: collectR_snoc bindR_assoc)
    qed
    then show ?thesis
      using base parts at fits unfolding lo' lay_inv_def by auto
  qed
qed


lemma lay_entries_inv:
  "lay_inv D S bstr ds (static_mt ds) lo \<Longrightarrow> list_all2 (entry_decl scratch used) es ds' \<Longrightarrow>
   foldR (lay_entry P scratch) es lo = Inr lo' \<Longrightarrow> lay_inv D S bstr (ds @ ds') (static_mt (ds @ ds')) lo'"
proof (induction es arbitrary: ds ds' lo)
  case (Cons e es)
  obtain d ds1 where ds': "ds' = d # ds1" "entry_decl scratch used e d" "list_all2 (entry_decl scratch used) es ds1"
    using Cons.prems(2) by (auto simp: list_all2_Cons1)
  obtain lo1 where lo1: "lay_entry P scratch e lo = Inr lo1" "foldR (lay_entry P scratch) es lo1 = Inr lo'"
    using Cons.prems(3) by (auto simp: bindR_Inr_iff)
  have "lay_inv D S bstr (ds @ [d]) (static_mt (ds @ [d])) lo1"
  proof (cases d)
    case (Field t v)
    have "lay_static P scratch e lo = Inr lo1" using lo1(1) ds'(2) Field by (simp add: lay_entry_def)
    from lay_static_inv [OF Cons.prems(1) this ds'(2) [unfolded Field]] Field show ?thesis
      by (simp add: static_mt_snoc)
  qed (use lay_hole_inv [OF Cons.prems(1) lo1(1) ds'(2)] in \<open>simp_all add: static_mt_snoc\<close>)
  from Cons.IH [OF this ds'(3) lo1(2)] ds'(1) show ?case by simp
qed simp

definition decl_key :: "('z) dictionary_scheme \<Rightarrow> decl \<Rightarrow> nat \<times> nat \<times> nat" where
  "decl_key D d = tag_key D (decl_tag d)"

definition no_data :: "('z) dictionary_scheme \<Rightarrow> decl list \<Rightarrow> bool" where
  "no_data D ds \<longleftrightarrow> list_all (\<lambda>d. data_length_tag D (decl_tag d) = None) ds"

lemma link_data_skip:
  assumes "\<forall>e \<in> set (tb_entries tb). data_length_tag D (en_tag e) = None"
  shows "foldR (link_data D) [0..<length (tb_entries tb)] tb = Inr tb"
proof -
  have "foldR (link_data D) is tb = Inr tb" if "\<forall>i \<in> set is. i < length (tb_entries tb)" for "is"
    using that assms by (induction "is") (simp_all add: link_data_def Let_def)
  then show ?thesis by simp
qed

lemma entry_decl_tag: "entry_decl scratch used e d \<Longrightarrow> en_tag e = decl_tag d"
  by (cases d) auto

text \<open>A built template writes its declarations in the order of their keys: tag 35, then the header
  tags ascending, then the body tags ascending.\<close>

lemma sorted_entries:
  assumes "tb_inv S bstr ds tb"
  shows "list_all2 (entry_decl (tb_scratch tb) (tb_used tb)) (sort_key (entry_key D) (tb_entries tb)) (sort_key (decl_key D) ds)"
  using assms by (intro list_all2_sort_key) (auto simp: tb_inv_def entry_key_def decl_key_def entry_decl_tag)

lemma link_sorted:
  assumes "list_all2 (entry_decl scratch used) es (sort_key (decl_key D) ds)" "no_data D ds"
  shows "foldR (link_data D) [0..<length es] (tb\<lparr>tb_entries := es\<rparr>) = Inr (tb\<lparr>tb_entries := es\<rparr>)"
proof -
  have "data_length_tag D (en_tag e) = None" if "e \<in> set es" for e
    using list_all2_in_set1 [OF assms(1) that] assms(2) by (auto simp: no_data_def list_all_iff dest: entry_decl_tag)
  then show ?thesis using link_data_skip [of "tb\<lparr>tb_entries := es\<rparr>" D] by simp
qed

lemma lay_inv_start:
  assumes "write_at (replicate S 0) 0 bstr = Some scratch" "S \<le> U16_MAX" "bl = length bstr"
  shows "lay_inv D S bstr [] (static_mt []) \<lparr>lo_used = bl, lo_template = \<lparr>t_scratch = scratch, t_begin_at = 0,
      t_begin_len = bl, t_mt_at = 0, t_mt_len = 0, t_parts = []\<rparr>, lo_has_group = False\<rparr>"
  using assms by (auto simp: lay_inv_def mt_known_def write_at_def get_range_def split: if_splits)

lemma build_text:
  assumes "S \<le> U16_MAX" "build D (fold tb_declare ds (TemplateBuilder_new P S bstr)) = Inr t"
    and "no_data D ds" "length bstr \<le> 32"
  shows "template_ok t bstr" "t_begin_len t = length bstr"
    "template_text D t slots groups = collectR (decl_text D (template_mt t) slots groups) (sort_key (decl_key D) ds)"
proof -
  let ?new = "TemplateBuilder_new P S bstr"
  define tb where "tb = fold tb_declare ds ?new"
  have err: "tb_err tb = None" using assms(2) by (auto simp: build_def tb_def split: option.splits)
  then have "tb_err ?new = None" using declare_all_err [of ?new ds] by (cases "tb_err ?new") (auto simp: tb_def)
  from declare_all_inv [OF conjunct1 [OF TemplateBuilder_new_inv [OF assms(1) this]]] err
  have inv: "tb_inv S bstr ds tb" by (simp add: tb_def)
  let ?es = "sort_key (entry_key D) (tb_entries tb)" and ?ds = "sort_key (decl_key D) ds"
  note es = sorted_entries [OF inv, of D]
  note link = link_sorted [OF es assms(3)]
  obtain scratch lo where sc: "write_at (replicate S 0) 0 bstr = Some scratch"
    and lo: "foldR (lay_entry (tb_max_parts tb) (tb_scratch tb)) ?es
       \<lparr>lo_used = tb_begin_len tb, lo_template = \<lparr>t_scratch = scratch, t_begin_at = 0, t_begin_len = tb_begin_len tb,
         t_mt_at = 0, t_mt_len = 0, t_parts = []\<rparr>, lo_has_group = False\<rparr> = Inr lo" and t: "t = lo_template lo"
    using assms(2) inv err link unfolding tb_def [symmetric] build_def
    by (auto simp: Let_def insertion_sort_eq bindR_Inr_iff ok_or_Inr_iff tb_inv_def split: if_splits)
  have bl: "tb_begin_len tb = length bstr" using inv get_range_length by (fastforce simp: tb_inv_def)
  from lay_entries_inv [OF lay_inv_start [OF sc assms(1) bl, of D] es lo] assms(4) show "template_ok t bstr" "t_begin_len t = length bstr"
    "template_text D t slots groups = collectR (decl_text D (template_mt t) slots groups) ?ds"
    by (auto simp: lay_inv_def t template_ok_def template_text_def)
qed

subsection \<open>Templates with DATA fields\<close>

text \<open>The DATA rule rewrites the value of a field that states a length and nothing else: the
  declarations a built template writes are those of the builder, up to such values.\<close>

definition relinked :: "('z) dictionary_scheme \<Rightarrow> decl list \<Rightarrow> decl list \<Rightarrow> bool" where
  "relinked D = list_all2 (\<lambda>d d'. d' = d \<or> (\<exists>t v. data_length_tag D t = Some (decl_tag d) \<and> d' = Field (decl_tag d) v))"

definition data_static :: "('z) dictionary_scheme \<Rightarrow> decl list \<Rightarrow> bool" where
  "data_static D ds \<longleftrightarrow> (\<forall>d \<in> set ds. data_length_tag D (decl_tag d) \<noteq> None \<longrightarrow> (\<exists>v. d = Field (decl_tag d) v))"

lemma relinked_refl: "relinked D ds ds"
  by (simp add: relinked_def list.rel_refl)

lemma relinked_update:
  assumes "data_length_tag D t = Some l" "decl_tag (ds ! j) = l" "j < length ds"
  shows "relinked D ds (ds[j := Field l v])"
  using assms by (auto simp: relinked_def list_all2_conv_all_nth nth_list_update)

lemma relinked_trans: "relinked D ds ds' \<Longrightarrow> relinked D ds' ds'' \<Longrightarrow> relinked D ds ds''"
  unfolding relinked_def by (rule list_all2_trans [rotated], assumption+) auto

lemma relinked_static: "relinked D ds ds' \<Longrightarrow> data_static D ds \<Longrightarrow> data_static D ds'"
  unfolding relinked_def data_static_def by (induction rule: list_all2_induct) auto

lemma link_data_relinked:
  assumes "tb_inv S bstr ds tb" "data_static D ds" "i < length ds" "link_data D i tb = Inr tb'"
  shows "\<exists>ds'. tb_inv S bstr ds' tb' \<and> relinked D ds ds'"
proof (cases "data_length_tag D (en_tag (tb_entries tb ! i))")
  case None
  then show ?thesis using assms(1,4) relinked_refl by (auto simp: link_data_def)
next
  case (Some l)
  let ?e = "tb_entries tb ! i"
  have es: "list_all2 (entry_decl (tb_scratch tb) (tb_used tb)) (tb_entries tb) ds" "small tb"
    using assms(1) by (auto simp: tb_inv_def small_def)
  have e: "entry_decl (tb_scratch tb) (tb_used tb) ?e (ds ! i)"
    using list_all2_nthD2 [OF es(1) assms(3)] .
  obtain v where d: "ds ! i = Field (decl_tag (ds ! i)) v"
    using assms(2,3) Some entry_decl_tag [OF e] nth_mem [OF assms(3)] by (fastforce simp: data_static_def)
  then have k: "en_kind ?e = KStatic" using e by (cases "ds ! i") auto
  obtain j where j: "find (\<lambda>k. en_tag (tb_entries tb ! k) = l) [0..<length (tb_entries tb)] = Some j"
    using assms(4) Some by (auto simp: link_data_def Let_def split: option.splits)
  then have jl: "j < length ds" "en_tag (tb_entries tb ! j) = l"
    using list_all2_lengthD [OF es(1)] by (auto simp: find_Some_iff)
  have dj: "decl_tag (ds ! j) = l" using list_all2_nthD2 [OF es(1) jl(1)] jl(2) by (metis entry_decl_tag)
  obtain n tb1 where w: "tb_write_field l (render_u32 n) tb = Inr tb1"
    and tb': "tb' = tb1\<lparr>tb_entries := (tb_entries tb1)[j := (tb_entries tb1 ! j)\<lparr>en_at := tb_used tb,
        en_len := tb_used tb1 - tb_used tb, en_kind := KStatic\<rparr>]\<rparr>"
    using assms(4) Some k j by (auto simp: link_data_def stash_field_def Let_def split: sum.splits option.splits)
  from tb_write_field_InrD [OF w es(2)] have wr: "wrote (wire_field (l, dec_digits n)) tb tb1" by simp
  have inv1: "tb_inv S bstr ds tb1" by (rule tb_inv_wrote [OF assms(1) wr])
  have te: "tb_entries tb1 = tb_entries tb" using wr by (auto simp: wrote_def)
  have "entry_decl (tb_scratch tb1) (tb_used tb1) ((tb_entries tb1 ! j)\<lparr>en_at := tb_used tb,
        en_len := tb_used tb1 - tb_used tb, en_kind := KStatic\<rparr>) (Field l (dec_digits n))"
    using wr jl(2) unfolding te by (auto simp: wrote_def write_at_def get_range_def split: if_splits)
  with inv1 have "tb_inv S bstr (ds[j := Field l (dec_digits n)]) tb'"
    unfolding tb' by (auto simp: tb_inv_def intro: list_all2_update_cong)
  with relinked_update [OF Some dj jl(1)] show ?thesis by blast
qed

lemma link_all_relinked:
  assumes "tb_inv S bstr ds tb" "data_static D ds" "foldR (link_data D) is tb = Inr tb'" "\<forall>i \<in> set is. i < length ds"
  shows "\<exists>ds'. tb_inv S bstr ds' tb' \<and> relinked D ds ds'"
  using assms
proof (induction "is" arbitrary: ds tb)
  case (Cons i "is")
  from Cons.prems(3) obtain tb1 where s: "link_data D i tb = Inr tb1" "foldR (link_data D) is tb1 = Inr tb'"
    by (auto simp: bindR_Inr_iff)
  from link_data_relinked [OF Cons.prems(1,2) _ s(1)] Cons.prems(4) obtain ds1 where
    d1: "tb_inv S bstr ds1 tb1" "relinked D ds ds1" by auto
  have "length ds1 = length ds" using d1(2) by (auto simp: relinked_def dest: list_all2_lengthD)
  with Cons.IH [OF d1(1) relinked_static [OF d1(2) Cons.prems(2)] s(2)] Cons.prems(4) d1(2)
  show ?case by (auto intro: relinked_trans)
qed (auto intro: relinked_refl)

lemma data_static_sort: "data_static D (sort_key f ds) \<longleftrightarrow> data_static D ds"
  by (simp add: data_static_def)

lemma build_relinked:
  assumes "S \<le> U16_MAX" "build D (fold tb_declare ds (TemplateBuilder_new P S bstr)) = Inr t"
    and "data_static D ds" "length bstr \<le> 32"
  shows "template_ok t bstr \<and> t_begin_len t = length bstr \<and> (\<exists>ds'. relinked D (sort_key (decl_key D) ds) ds' \<and>
    (\<forall>slots groups. template_text D t slots groups = collectR (decl_text D (template_mt t) slots groups) ds'))"
proof -
  let ?new = "TemplateBuilder_new P S bstr"
  define tb where "tb = fold tb_declare ds ?new"
  have err: "tb_err tb = None" using assms(2) by (auto simp: build_def tb_def split: option.splits)
  then have "tb_err ?new = None" using declare_all_err [of ?new ds] by (cases "tb_err ?new") (auto simp: tb_def)
  from declare_all_inv [OF conjunct1 [OF TemplateBuilder_new_inv [OF assms(1) this]]] err
  have inv: "tb_inv S bstr ds tb" by (simp add: tb_def)
  let ?es = "sort_key (entry_key D) (tb_entries tb)" and ?ds = "sort_key (decl_key D) ds"
  let ?tb = "tb\<lparr>tb_entries := ?es\<rparr>"
  have inv': "tb_inv S bstr ?ds ?tb" using inv sorted_entries [OF inv, of D] by (simp add: tb_inv_def)
  obtain scratch tb1 lo where sc: "write_at (replicate S 0) 0 bstr = Some scratch"
    and link: "foldR (link_data D) [0..<length ?es] ?tb = Inr tb1"
    and lo: "foldR (lay_entry (tb_max_parts tb) (tb_scratch tb1)) (tb_entries tb1)
       \<lparr>lo_used = tb_begin_len tb, lo_template = \<lparr>t_scratch = scratch, t_begin_at = 0, t_begin_len = tb_begin_len tb,
         t_mt_at = 0, t_mt_len = 0, t_parts = []\<rparr>, lo_has_group = False\<rparr> = Inr lo" and t: "t = lo_template lo"
    using assms(2) inv err unfolding tb_def [symmetric] build_def
    by (auto simp: Let_def insertion_sort_eq bindR_Inr_iff ok_or_Inr_iff tb_inv_def split: if_splits)
  have "length ?es = length ?ds" using inv by (auto simp: tb_inv_def dest: list_all2_lengthD)
  then obtain ds' where ds': "tb_inv S bstr ds' tb1" "relinked D ?ds ds'"
    using link_all_relinked [OF inv' _ link] assms(3) by (auto simp: data_static_sort)
  have es: "list_all2 (entry_decl (tb_scratch tb1) (tb_used tb1)) (tb_entries tb1) ds'" using ds'(1) by (simp add: tb_inv_def)
  have bl: "tb_begin_len tb = length bstr" using inv get_range_length by (fastforce simp: tb_inv_def)
  from lay_entries_inv [OF lay_inv_start [OF sc assms(1) bl, of D] es lo] assms(4) ds'(2) show ?thesis
    by (auto simp: lay_inv_def t template_ok_def template_text_def)
qed

subsection \<open>Building succeeds when everything fits\<close>

fun decl_size :: "decl \<Rightarrow> nat" where
  "decl_size (Field t v) = length (wire_field (t, v))"
| "decl_size (Slot t) = 0"
| "decl_size (Group t) = 0"

lemma tb_write_ok:
  assumes "small tb" "tb_used tb + length bs \<le> length (tb_scratch tb)"
  shows "\<exists>tb'. tb_write bs tb = Inr tb' \<and> wrote bs tb tb'"
proof -
  have "\<exists>tb'. tb_write bs tb = Inr tb'" using assms by (simp add: tb_write_def write_at_def small_def)
  then show ?thesis using tb_write_InrD assms(1) by blast
qed

lemma tb_write_tag_ok:
  assumes "small tb" "tb_used tb + length (dec_digits t) + 1 \<le> length (tb_scratch tb)"
  shows "\<exists>tb'. tb_write_tag t tb = Inr tb' \<and> wrote (dec_digits t @ [EQ_SIGN]) tb tb'"
proof -
  have "\<exists>tb'. tb_write_tag t tb = Inr tb'" using assms by (simp add: tb_write_tag_def write_at_def Let_def)
  then show ?thesis using tb_write_tag_InrD assms(1) by blast
qed

lemma wrote_used: "wrote bs tb tb' \<Longrightarrow> tb_used tb' = tb_used tb + length bs \<and> length (tb_scratch tb') = length (tb_scratch tb) \<and>
  tb_entries tb' = tb_entries tb \<and> tb_max_parts tb' = tb_max_parts tb \<and> tb_err tb' = tb_err tb"
  by (auto simp: wrote_def dest: write_at_length)

lemma tb_write_field_ok:
  assumes "small tb" "tb_used tb + length (wire_field (t, v)) \<le> length (tb_scratch tb)"
  shows "\<exists>tb'. tb_write_field t v tb = Inr tb' \<and> wrote (wire_field (t, v)) tb tb'"
proof -
  obtain tb1 where 1: "tb_write_tag t tb = Inr tb1" "wrote (dec_digits t @ [EQ_SIGN]) tb tb1"
    using tb_write_tag_ok [OF assms(1), of t] assms(2) by (auto simp: wire_field_def)
  obtain tb2 where 2: "tb_write v tb1 = Inr tb2" "wrote v tb1 tb2"
    using tb_write_ok [of tb1 v] wrote_small [OF 1(2)] wrote_used [OF 1(2)] assms by (auto simp: wire_field_def)
  obtain tb3 where 3: "tb_write [SOH] tb2 = Inr tb3"
    using tb_write_ok [of tb2 "[SOH]"] wrote_small [OF 1(2)] wrote_used [OF 1(2)] wrote_small [OF 2(2)] wrote_used [OF 2(2)] assms
    by (auto simp: wire_field_def)
  have "tb_write_field t v tb = Inr tb3" by (simp add: tb_write_field_def 1 2 3)
  then show ?thesis using tb_write_field_InrD assms(1) by blast
qed

lemma tb_declare_ok:
  assumes "tb_inv S bstr ds tb" "tb_err tb = None" "decl_tag d \<notin> {8, 9, 10}"
    and "length (tb_entries tb) < tb_max_parts tb" "tb_used tb + decl_size d \<le> S"
  shows "tb_err (tb_declare d tb) = None \<and> tb_used (tb_declare d tb) = tb_used tb + decl_size d \<and>
    length (tb_entries (tb_declare d tb)) = length (tb_entries tb) + 1"
proof (cases d)
  case (Field t v)
  obtain tb' where "tb_write_field t v tb = Inr tb'" "wrote (wire_field (t, v)) tb tb'"
    using tb_write_field_ok [of tb t v] assms(1,5) Field by (auto simp: tb_inv_def small_def)
  then show ?thesis
    using assms wrote_used [of "wire_field (t, v)" tb tb'] Field
    by (simp add: tb_field_def push_field_def reserved_def tb_or_err_def tb_entry_def Let_def)
qed (use assms in \<open>simp_all add: tb_slot_def tb_group_def push_slot_def push_group_def reserved_def tb_or_err_def tb_entry_def\<close>)

definition decls_fit :: "nat \<Rightarrow> decl list \<Rightarrow> bool" where
  "decls_fit room ds \<longleftrightarrow> sum_list (map decl_size ds) \<le> room \<and> list_all (\<lambda>d. decl_tag d \<notin> {8, 9, 10}) ds"

lemma declare_all_ok:
  "tb_inv S bstr ds tb \<Longrightarrow> tb_err tb = None \<Longrightarrow> length (tb_entries tb) + length ds' \<le> tb_max_parts tb \<Longrightarrow>
   tb_used tb \<le> S \<Longrightarrow> decls_fit (S - tb_used tb) ds' \<Longrightarrow> tb_err (fold tb_declare ds' tb) = None"
proof (induction ds' arbitrary: ds tb)
  case (Cons d ds')
  have ok: "tb_err (tb_declare d tb) = None \<and> tb_used (tb_declare d tb) = tb_used tb + decl_size d \<and>
      length (tb_entries (tb_declare d tb)) = length (tb_entries tb) + 1"
    using tb_declare_ok [OF Cons.prems(1,2), of d] Cons.prems(3-5) by (auto simp: decls_fit_def)
  from tb_declare_inv [OF Cons.prems(1), of d] ok Cons.IH [of "ds @ [d]" "tb_declare d tb"] Cons.prems(3-5)
  show ?case by (auto simp: decls_fit_def)
qed simp

lemma lay_entry_ok:
  assumes "lay_inv D S bstr ds m lo" "entry_decl scratch used e d" "length (t_parts (lo_template lo)) < P"
    and "lo_used lo + decl_size d \<le> S"
  shows "\<exists>lo'. lay_entry P scratch e lo = Inr lo' \<and> lo_used lo' = lo_used lo + decl_size d \<and>
    length (t_parts (lo_template lo')) \<le> length (t_parts (lo_template lo)) + 1 \<and>
    ((\<forall>c. d \<noteq> Group c) \<longrightarrow> lo_has_group lo' = lo_has_group lo)"
proof (cases d)
  case (Field t v)
  then have src: "get_range scratch (en_at e) (en_at e + en_len e) = Some (wire_field (t, v))" using assms(2) by simp
  obtain out where out: "write_at (t_scratch (lo_template lo)) (lo_used lo) (wire_field (t, v)) = Some out"
    using assms(1,4) Field by (auto simp: lay_inv_def write_at_def)
  have g: "lo_has_group (laid e src' out lo) = lo_has_group lo" for src' by (simp add: laid_def)
  have "rev (t_parts (lo_template lo)) = PStatic at n # before \<Longrightarrow>
      length (rev before @ [PStatic at n']) = length (t_parts (lo_template lo))" for at n before n'
    by (metis length_Cons length_append_singleton length_rev)
  then show ?thesis
    using assms(2,3) Field lay_static_unfold [OF src out, of P]
    by (auto simp: lay_entry_def put_part_def g split: list.split part.split)
qed (use assms in \<open>simp_all add: lay_entry_def put_part_def\<close>)

lemma lay_entries_ok:
  "lay_inv D S bstr ds (static_mt ds) lo \<Longrightarrow> list_all2 (entry_decl scratch used) es ds' \<Longrightarrow>
   length (t_parts (lo_template lo)) + length ds' \<le> P \<Longrightarrow> lo_used lo + sum_list (map decl_size ds') \<le> S \<Longrightarrow>
   \<exists>lo'. foldR (lay_entry P scratch) es lo = Inr lo' \<and>
     length (t_parts (lo_template lo')) \<le> length (t_parts (lo_template lo)) + length ds' \<and>
     ((\<forall>c. Group c \<notin> set ds') \<longrightarrow> lo_has_group lo' = lo_has_group lo)"
proof (induction es arbitrary: ds ds' lo)
  case (Cons e es)
  obtain d ds1 where ds': "ds' = d # ds1" "entry_decl scratch used e d" "list_all2 (entry_decl scratch used) es ds1"
    using Cons.prems(2) by (auto simp: list_all2_Cons1)
  obtain lo1 where lo1: "lay_entry P scratch e lo = Inr lo1" "lo_used lo1 = lo_used lo + decl_size d"
      "length (t_parts (lo_template lo1)) \<le> length (t_parts (lo_template lo)) + 1"
      "(\<forall>c. d \<noteq> Group c) \<longrightarrow> lo_has_group lo1 = lo_has_group lo"
    using lay_entry_ok [OF Cons.prems(1) ds'(2), of P] Cons.prems(3,4) ds'(1) by auto
  have "foldR (lay_entry P scratch) [e] lo = Inr lo1" "list_all2 (entry_decl scratch used) [e] [d]"
    using lo1(1) ds'(2) by simp_all
  from lay_entries_inv [OF Cons.prems(1) this(2,1)] have inv: "lay_inv D S bstr (ds @ [d]) (static_mt (ds @ [d])) lo1" .
  have p: "length (t_parts (lo_template lo1)) + length ds1 \<le> P" "lo_used lo1 + sum_list (map decl_size ds1) \<le> S"
    using lo1(2,3) Cons.prems(3,4) ds'(1) by auto
  from Cons.IH [OF inv ds'(3) p] lo1 ds'(1) show ?case by fastforce
qed simp

lemma sum_list_sort_key: "sum_list (map f (sort_key g xs)) = sum_list (map f xs)" for f :: "'a \<Rightarrow> nat"
proof -
  have "sum_list (map f (insort_key g x ys)) = f x + sum_list (map f ys)" for x ys
    by (induction ys) auto
  then show ?thesis by (induction xs) auto
qed

lemma build_ok:
  assumes "S \<le> U16_MAX" "no_data D ds" "length ds \<le> P" "P \<le> 255" "length bstr \<le> S" "decls_fit (S - length bstr) ds"
    and "\<forall>c. Group c \<notin> set ds"
  shows "\<exists>t. build D (fold tb_declare ds (TemplateBuilder_new P S bstr)) = Inr t"
proof -
  let ?new = "TemplateBuilder_new P S bstr"
  define tb0 where "tb0 = \<lparr>tb_max_parts = P, tb_scratch = replicate S 0, tb_used = 0, tb_begin_at = 0, tb_begin_len = 0,
     tb_entries = [], tb_err = None :: encode_error option\<rparr>"
  obtain tb1 where tb1: "tb_write bstr tb0 = Inr tb1" "wrote bstr tb0 tb1"
    using tb_write_ok [of tb0 bstr] assms(1,5) by (auto simp: tb0_def small_def)
  then have new: "tb_err ?new = None" "tb_used ?new = length bstr" "tb_entries ?new = []"
    using wrote_used [OF tb1(2)] by (auto simp: TemplateBuilder_new_def tb_stash_def tb0_def [symmetric]) (simp_all add: tb0_def)
  note inv0 = TemplateBuilder_new_inv [OF assms(1) new(1)]
  define tb where "tb = fold tb_declare ds ?new"
  have err: "tb_err tb = None"
    unfolding tb_def using declare_all_ok [OF conjunct1 [OF inv0] new(1)] new(2,3) inv0 assms(3,5,6) by simp
  have inv: "tb_inv S bstr ds tb" "tb_max_parts tb = P"
    using declare_all_inv [OF conjunct1 [OF inv0]] err inv0 by (auto simp: tb_def)
  let ?es = "sort_key (entry_key D) (tb_entries tb)" and ?ds = "sort_key (decl_key D) ds"
  note es = sorted_entries [OF inv(1), of D]
  note link = link_sorted [OF es assms(2)]
  obtain scratch where sc: "write_at (replicate S 0) 0 bstr = Some scratch" using assms(5) by (simp add: write_at_def)
  have size: "sum_list (map decl_size ?ds) = sum_list (map decl_size ds)"
    by (rule sum_list_sort_key)
  have total: "length bstr + sum_list (map decl_size ds) \<le> S" using assms(5,6) by (auto simp: decls_fit_def)
  have bl: "tb_begin_len tb = length bstr" using inv get_range_length by (fastforce simp: tb_inv_def)
  obtain lo where lo: "foldR (lay_entry P (tb_scratch tb)) ?es
       \<lparr>lo_used = tb_begin_len tb, lo_template = \<lparr>t_scratch = scratch, t_begin_at = 0, t_begin_len = tb_begin_len tb,
         t_mt_at = 0, t_mt_len = 0, t_parts = []\<rparr>, lo_has_group = False\<rparr> = Inr lo"
      "length (t_parts (lo_template lo)) \<le> length ?ds" "\<not> lo_has_group lo"
    using lay_entries_ok [OF lay_inv_start [OF sc assms(1) bl, of D] es, of P] assms(3,7) bl size total by auto
  then show ?thesis
    using inv err link sc assms(3,4) unfolding tb_def [symmetric] build_def
    by (auto simp: Let_def insertion_sort_eq tb_inv_def)
qed

subsection \<open>Templates without groups: the fields, and the round trip\<close>

fun decl_fields :: "(nat \<times> bytes) list \<Rightarrow> decl \<Rightarrow> (nat \<times> bytes) list" where
  "decl_fields slots (Field t v) = [(t, v)]"
| "decl_fields slots (Slot t) = (case find_field t slots of Some v \<Rightarrow> [(t, v)] | None \<Rightarrow> [])"
| "decl_fields slots (Group c) = []"

definition template_fields :: "('z) dictionary_scheme \<Rightarrow> (nat \<times> bytes) list \<Rightarrow> decl list \<Rightarrow> (nat \<times> bytes) list" where
  "template_fields D slots ds = concat (map (decl_fields slots) (sort_key (decl_key D) ds))"

lemma collectR_decl_fields:
  "collectR (decl_text D mt slots []) ds = Inr (wire_body (concat (map (decl_fields slots) ds)))"
proof (induction ds)
  case (Cons d ds)
  have "decl_text D mt slots [] d = Inr (wire_body (decl_fields slots d))"
    by (cases d) (auto simp: wire_body_def split: option.splits)
  with Cons.IH show ?case by (simp add: wire_body_def)
qed (simp add: wire_body_def)

lemma built_template_frame:
  assumes "S \<le> U16_MAX" "build D (fold tb_declare ds (TemplateBuilder_new P S bstr)) = Inr t"
    and "no_data D ds" "length bstr \<le> 32"
    and body: "length (wire_body (template_fields D slots ds)) < 100000"
    and out: "length bstr + 18 + length (wire_body (template_fields D slots ds)) \<le> length out"
  shows "\<exists>r. encode_with D t out slots [] = Inr r \<and> message_of r = wire_frame bstr (wire_body (template_fields D slots ds)) \<and>
    length (fst r) = length out"
proof -
  note b = build_text [OF assms(1-4)]
  have "template_text D t slots [] = Inr (wire_body (template_fields D slots ds))"
    using b(3) [of slots "[]"] by (simp add: collectR_decl_fields template_fields_def)
  from encode_with_frame [OF b(1) _ this body, of out] out b(2) show ?thesis
    by (simp add: reserve_def)
qed

lemma decl_fields_tag: "f \<in> set (decl_fields slots d) \<Longrightarrow> fst f = decl_tag d"
  by (cases d) (auto split: option.splits)

text \<open>Declarations and slot values a reader can delimit.\<close>

definition values_ok :: "(nat \<times> bytes) list \<Rightarrow> decl list \<Rightarrow> bool" where
  "values_ok slots ds \<longleftrightarrow> list_all (\<lambda>d. decl_tag d \<le> U32_MAX \<and> decl_tag d \<noteq> 10 \<and>
     list_all (\<lambda>(t, v). SOH \<notin> set v \<and> length v \<le> U16_MAX) (decl_fields slots d)) ds"

lemma fields_ok_plain:
  "list_all (\<lambda>(t, v). t \<le> U32_MAX \<and> t \<noteq> 10 \<and> length v \<le> U16_MAX \<and> SOH \<notin> set v \<and> data_length_tag D t = None) fs \<Longrightarrow>
   fields_ok D prev fs"
  by (induction fs arbitrary: prev) auto

lemma template_fields_ok:
  assumes "no_data D ds" "values_ok slots ds"
  shows "fields_ok D prev (template_fields D slots ds)"
  using assms
  by (intro fields_ok_plain) (fastforce simp: template_fields_def no_data_def values_ok_def list_all_iff dest: decl_fields_tag)

subsection \<open>Properties\<close>

text \<open>The builder's sort is the stable sort by wire key. The in-place insertion sort of the source,
  swap by swap, leaves the entries exactly as the library's \<open>sort_key\<close> does: ascending by key and
  in the order of declaration where keys are equal.\<close>

theorem build_sort_correct: "insertion_sort (entry_key D) es = sort_key (entry_key D) es"
  by (rule insertion_sort_eq)

text \<open>What a built template sends is a well-formed frame around its fields in wire order. For
  fields and slots declared in any order, encoding writes into the range it returns exactly the
  begin string, the true body length, the fields present (unfilled slots are skipped) sorted with
  tag 35 first, then header tags ascending, then body tags ascending, and the true checksum.\<close>

theorem template_sends_sorted_frame:
  assumes "S \<le> U16_MAX" "build D (fold tb_declare ds (TemplateBuilder_new P S bstr)) = Inr t"
    and "no_data D ds" "length bstr \<le> 32"
    and "length (wire_body (template_fields D slots ds)) < 100000"
    and "length bstr + 18 + length (wire_body (template_fields D slots ds)) \<le> length out"
  shows "\<exists>r. encode_with D t out slots [] = Inr r \<and>
    message_of r = wire_frame bstr (wire_body (concat (map (decl_fields slots) (sort_key (decl_key D) ds))))"
  using built_template_frame [OF assms] by (auto simp: template_fields_def)

text \<open>C31: A message a template of plain fields sends is one the parser reads back. Take a template the
  builder accepted, over a scratch of at most 65535 bytes, that declares no DATA field, with a
  BeginString of at most 32 bytes; encode it with no group supplied. If no value declared or filled
  in (nor the BeginString) holds the separator, each is at most 65535 bytes, no tag is 10 and every tag is within 32
  bits, the fields come to fewer than 100000 bytes, and the output and the index have room for them,
  then the encoding succeeds, and parsing the bytes of the returned range with both checks on
  consumes the whole range and shows the begin string, the body length, the fields in wire order
  with the values of the declarations and slots, and a checksum.\<close>

theorem template_message_parses_back:
  assumes "S \<le> U16_MAX" "build D (fold tb_declare ds (TemplateBuilder_new P S bstr)) = Inr t"
    and "no_data D ds" "values_ok slots ds" "length bstr \<le> 32" "SOH \<notin> set bstr"
    and "length (wire_body (template_fields D slots ds)) < 100000"
    and "length bstr + 18 + length (wire_body (template_fields D slots ds)) \<le> length out"
    and "length (template_fields D slots ds) + 3 \<le> fi_cap idx0" "length (template_fields D slots ds) + 3 \<le> U16_MAX"
  shows "\<exists>r idx sum. encode_with D t out slots [] = Inr r \<and>
    parse_into D Validation_ALL (message_of r) idx0 = (Inr (Complete (length (message_of r))), idx) \<and>
    mv_fields (fi_view idx (message_of r)) =
      (8, Some bstr) # (9, Some (dec_digits (length (wire_body (template_fields D slots ds))))) #
      map (\<lambda>f. (fst f, Some (snd f))) (template_fields D slots ds) @ [(10, Some sum)]"
proof -
  let ?fs = "template_fields D slots ds"
  obtain r where r: "encode_with D t out slots [] = Inr r" "message_of r = wire_frame bstr (wire_body ?fs)"
    using built_template_frame [OF assms(1-3,5,7,8)] by blast
  have len: "length (message_of r @ []) \<le> U32_MAX"
    using assms(5,7) length_dec_digits_le [of "length (wire_body ?fs)" 5] r(2)
    by (simp add: wire_frame_def wire_prefix_def b_def length_format_checksum)
  have u16: "length bstr \<le> U16_MAX" using assms(5) by simp
  show ?thesis
    using parse_into_wire [OF template_fields_ok [OF assms(3,4)] assms(6) u16 assms(9,10) r(2) len, of Validation_ALL] r(1) by auto
qed

definition sample_decls :: "decl list" where
  "sample_decls = [Field 56 (b ''B''), Field 35 (b ''0''), Slot 112, Slot 34, Field 49 (b ''A'')]"

lemma sample_template:
  "\<exists>t. build NoDict (fold tb_declare sample_decls (TemplateBuilder_new 24 320 (b ''FIX.4.4''))) = Inr t"
  by (rule build_ok) (simp_all add: sample_decls_def no_data_def NoDict_def decls_fit_def wire_field_def dec_digits.simps b_def)

lemma sample_sorted: "sort_key (decl_key NoDict) sample_decls = [Field 35 (b ''0''), Slot 34, Field 49 (b ''A''), Field 56 (b ''B''), Slot 112]"
  by (simp add: sample_decls_def decl_key_def tag_key_def NoDict_def)

lemma sample_template_fields:
  "template_fields NoDict [(34, b ''7'')] sample_decls = [(35, b ''0''), (34, b ''7''), (49, b ''A''), (56, b ''B'')]"
  by (simp add: template_fields_def sample_sorted find_field_def)

lemma sample_template_body: "length (wire_body (template_fields NoDict [(34, b ''7'')] sample_decls)) = 20"
  unfolding sample_template_fields by (simp add: wire_body_def wire_field_def dec_digits.simps b_def)

lemma sample_decls_ok: "no_data NoDict sample_decls" "values_ok [(34, b ''7'')] sample_decls"
  by (simp_all add: no_data_def values_ok_def sample_decls_def NoDict_def find_field_def b_def)

theorem template_sends_sorted_frame_witness:
  "\<exists>t r. build NoDict (fold tb_declare sample_decls (TemplateBuilder_new 24 320 (b ''FIX.4.4''))) = Inr t \<and>
    encode_with NoDict t (replicate 100 0) [(34, b ''7'')] [] = Inr r \<and>
    message_of r = wire_frame (b ''FIX.4.4'') (wire_body [(35, b ''0''), (34, b ''7''), (49, b ''A''), (56, b ''B'')])"
proof -
  obtain t where t: "build NoDict (fold tb_declare sample_decls (TemplateBuilder_new 24 320 (b ''FIX.4.4''))) = Inr t"
    using sample_template by blast
  show ?thesis
    using template_sends_sorted_frame [OF _ t sample_decls_ok(1), of "[(34, b ''7'')]" "replicate 100 0"]
      t sample_template_body sample_template_fields by (simp add: template_fields_def b_def)
qed

theorem template_message_parses_back_witness:
  "\<exists>t r idx sum. build NoDict (fold tb_declare sample_decls (TemplateBuilder_new 24 320 (b ''FIX.4.4''))) = Inr t \<and>
    encode_with NoDict t (replicate 100 0) [(34, b ''7'')] [] = Inr r \<and>
    mv_fields (fi_view idx (message_of r)) =
      [(8, Some (b ''FIX.4.4'')), (9, Some (dec_digits 20)), (35, Some (b ''0'')), (34, Some (b ''7'')),
       (49, Some (b ''A'')), (56, Some (b ''B'')), (10, Some sum)]"
proof -
  obtain t where t: "build NoDict (fold tb_declare sample_decls (TemplateBuilder_new 24 320 (b ''FIX.4.4''))) = Inr t"
    using sample_template by blast
  have "length (b ''FIX.4.4'') \<le> 32" "SOH \<notin> set (b ''FIX.4.4'')"
    "length (b ''FIX.4.4'') + 18 + length (wire_body (template_fields NoDict [(34, b ''7'')] sample_decls)) \<le> length (replicate 100 (0::byte))"
    "length (template_fields NoDict [(34, b ''7'')] sample_decls) + 3 \<le> fi_cap (FieldIndex_new 16)"
    "length (template_fields NoDict [(34, b ''7'')] sample_decls) + 3 \<le> U16_MAX"
    unfolding sample_template_fields by (simp_all add: wire_field_def dec_digits.simps b_def FieldIndex_new_def)
  note c = this
  have s: "320 \<le> U16_MAX" by simp
  have l: "length (wire_body (template_fields NoDict [(34, b ''7'')] sample_decls)) < 100000"
    by (simp only: sample_template_body)
  note p = template_message_parses_back [OF s t sample_decls_ok c(1,2) l c(3-5)]
  from p obtain r idx sum where "encode_with NoDict t (replicate 100 0) [(34, b ''7'')] [] = Inr r"
    "mv_fields (fi_view idx (message_of r)) =
      (8, Some (b ''FIX.4.4'')) # (9, Some (dec_digits (length (wire_body (template_fields NoDict [(34, b ''7'')] sample_decls))))) #
      map (\<lambda>f. (fst f, Some (snd f))) (template_fields NoDict [(34, b ''7'')] sample_decls) @ [(10, Some sum)]"
    by blast
  with t show ?thesis unfolding sample_template_body unfolding sample_template_fields by (intro exI conjI) simp_all
qed

text \<open>A repeating group is written in the dictionary's declaration order with its true entry
  count. When the tables know the group, the encoder puts at the cursor exactly the reference text
  (counter and number of entries, then for each entry the members it has in table order, nested
  groups in place) if that fits the buffer, and nothing is accepted where the reference refuses:
  nesting beyond eight levels, a foreign member, a missing delimiter.\<close>

theorem group_writes_declaration_order:
  assumes "w \<le> length out"
  shows "put_group left D mt g (out, w) = Inr c \<longleftrightarrow>
    (\<exists>bs. group_text left D mt g = Inr bs \<and> emit bs (out, w) = Inr c)"
proof -
  have "case group_text left D mt g of
      Inr bs \<Rightarrow> put_group left D mt g (out, w) = emit bs (out, w) | Inl _ \<Rightarrow> (\<exists>e. put_group left D mt g (out, w) = Inl e)"
    using put_group_writes [of left D mt g] assms unfolding writes_def by (metis fst_conv snd_conv)
  then show ?thesis by (cases "group_text left D mt g") auto
qed

text \<open>The group \<open>NoLinesOfText\<close> of FIX 4.4: \<open>EncodedText\<close> (355) is a DATA field whose length is
  \<open>EncodedTextLen\<close> (354).\<close>

definition lines_dict :: dictionary where
  "lines_dict = NoDict\<lparr>data_length_tag := (\<lambda>t. if t = 355 then Some 354 else None),
     group_order := (\<lambda>_ c. if c = 33 then [58, 354, 355] else [])\<rparr>"

definition unframed_entry :: group_data where
  "unframed_entry = GroupData 33 [GroupEntryData [(58, b ''x''), (355, b ''y'')] []]"

lemma unframed_text:
  "group_text (Suc k) lines_dict (b ''B'') unframed_entry = Inr (wire_body [(33, b ''1''), (58, b ''x''), (355, b ''y'')])"
  by (simp add: unframed_entry_def lines_dict_def NoDict_def check_entry_def find_field_def data_owner_def
      wire_body_def dec_digits_small digit_byte_def b_def)

lemma unframed_text_8:
  "group_text 8 lines_dict (b ''B'') unframed_entry = Inr (wire_body [(33, b ''1''), (58, b ''x''), (355, b ''y'')])"
  using unframed_text [of 7] by simp

lemma unframed_len: "length (wire_body [(33, b ''1''), (58, b ''x''), (355, b ''y'')]) \<le> 32"
  by (simp add: wire_body_def wire_field_def dec_digits.simps b_def)

theorem group_writes_declaration_order_witness:
  "\<exists>bs c. group_text 8 lines_dict (b ''B'') unframed_entry = Inr bs \<and> emit bs (replicate 32 0, 0) = Inr c \<and>
    put_group 8 lines_dict (b ''B'') unframed_entry (replicate 32 0, 0) = Inr c"
proof -
  obtain c where c: "emit (wire_body [(33, b ''1''), (58, b ''x''), (355, b ''y'')]) (replicate 32 0, 0) = Inr c"
    using unframed_len by (simp add: emit_def)
  have "put_group 8 lines_dict (b ''B'') unframed_entry (replicate 32 0, 0) = Inr c"
    using group_writes_declaration_order [of 0 "replicate 32 0" 8 lines_dict "b ''B''" unframed_entry c] c unframed_text_8
    by auto
  with c unframed_text_8 show ?thesis by blast
qed

text \<open>C34: A group entry may carry DATA no reader can frame. Under any dictionary, take a flat entry
  with its delimiter and members of the group only, in which a DATA field \<open>d\<close> is supplied and the field
  \<open>l\<close> that states its length is not: as long as the group's table lists \<open>l\<close> (the one thing the check
  asks), the encoder accepts the entry when it fits and writes \<open>d\<close> with no \<open>l\<close> anywhere in the group.
  No parser can delimit that value: whichever field of the group stands in front of \<open>d\<close>, the parser
  answers that its length is missing.\<close>

theorem group_data_without_length:
  assumes "group_order D mt c = delimiter # members" "delimiter \<in> fst ` set fs" "fst ` set fs \<subseteq> set (delimiter # members)"
    and "list_all (\<lambda>(t, v). length v \<le> U32_MAX \<and> (\<forall>k. data_length_tag D t = Some k \<longrightarrow> k \<in> set (delimiter # members))) fs"
    and "d \<in> fst ` set fs" "data_length_tag D d = Some l" "l \<notin> fst ` set fs" "l \<noteq> c"
    and "w + length (wire_body ((c, b ''1'') # entry_out D (delimiter # members) fs)) \<le> length out"
  shows "\<exists>out' fields. put_group 8 D mt (GroupData c [GroupEntryData fs []]) (out, w) = Inr (out', w + length (wire_body fields)) \<and>
    take (length (wire_body fields)) (drop w out') = wire_body fields \<and>
    d \<in> set (map fst fields) \<and> l \<notin> set (map fst fields) \<and>
    (\<forall>buf tr vs idx e. fi_last idx = Some e \<and> fe_tag e \<in> set (map fst fields) \<longrightarrow>
       value_len D buf tr d vs idx = Inl (MissingLengthField d))"
proof -
  let ?order = "delimiter # members"
  let ?fields = "(c, b ''1'') # entry_out D ?order fs"
  have "check_entry D ?order c (GroupEntryData fs []) = Inr ()"
  proof -
    have m: "find (\<lambda>(t, _). t \<notin> set ?order) fs = None" using assms(3) by (force simp: find_None_iff)
    have l: "find (\<lambda>(t, _). case data_length_tag D t of Some k \<Rightarrow> k \<notin> set ?order | None \<Rightarrow> False) fs = None"
      using assms(4) by (force simp: find_None_iff list_all_iff split: option.splits)
    have "list_ex (\<lambda>(t, _). t = delimiter) fs" using assms(2) by (force simp: list_ex_iff)
    then show ?thesis
      unfolding check_entry_def group_entry_data.sel m l list.case option.case find.simps by simp
  qed
  moreover have "length (snd f) \<le> U32_MAX" if "f \<in> set fs" for f
    using assms(4) that by (cases f) (auto simp: list_all_iff)
  ultimately have "group_text 8 D mt (GroupData c [GroupEntryData fs []]) = Inr (wire_body ?fields)"
    using group_text_flat [OF assms(1) [symmetric], of fs 7] by (simp add: b_def dec_digits_small digit_byte_def)
  then have p: "put_group 8 D mt (GroupData c [GroupEntryData fs []]) (out, w) = emit (wire_body ?fields) (out, w)"
    using put_group_writes [of 8 D mt "GroupData c [GroupEntryData fs []]"] assms(9) by (simp add: writes_def)
  have tags: "set (map fst ?fields) = insert c (fst ` set fs)"
    using entry_out_tags [of D ?order fs] assms(3) by auto
  have "value_len D buf tr d vs idx = Inl (MissingLengthField d)"
    if "fi_last idx = Some e" "fe_tag e \<in> set (map fst ?fields)" for buf tr vs idx e
    using that assms(6-8) unfolding tags by (auto simp: value_len_def data_value_len_def)
  moreover have "d \<in> set (map fst ?fields)" "l \<notin> set (map fst ?fields)" unfolding tags using assms(5,7,8) by auto
  ultimately show ?thesis
    using p assms(9) by (intro exI [of _ "take w out @ wire_body ?fields @ drop (w + length (wire_body ?fields)) out"] exI [of _ ?fields])
      (simp add: emit_def)
qed

theorem group_data_without_length_witness:
  "\<exists>out' fields. put_group 8 lines_dict (b ''B'') unframed_entry (replicate 32 0, 0) = Inr (out', length (wire_body fields)) \<and>
    take (length (wire_body fields)) out' = wire_body fields \<and> 355 \<in> set (map fst fields) \<and> 354 \<notin> set (map fst fields)"
proof -
  have o: "group_order lines_dict (b ''B'') 33 = 58 # [354, 355]" by (simp add: lines_dict_def)
  let ?fs = "[(58, b ''x''), (355, b ''y'')]"
  have e: "entry_out lines_dict (58 # [354, 355]) ?fs = [(58, b ''x''), (355, b ''y'')]"
    by (simp add: entry_out_def entry_field_def find_field_def data_owner_def lines_dict_def NoDict_def)
  show ?thesis
    unfolding unframed_entry_def
    using group_data_without_length [OF o, of ?fs 355 354 0 "replicate 32 0", unfolded e] unframed_len
    by (simp add: lines_dict_def NoDict_def b_def) blast
qed

end
