(* ===== verification/Schedule.thy ===== *)
theory Schedule
  imports Clock
begin

text \<open>
  \<open>crates/session/src/schedule.rs\<close>: when a session is open and which instants belong to the
  same session. Instants are milliseconds since 0000-01-01; unsigned 64-bit sums wrap as in a
  release build, and the checked ones answer \<open>None\<close>.
\<close>

abbreviation (input) DAY_MS :: nat where "DAY_MS \<equiv> 86400000"
abbreviation (input) WEEK_MS :: nat where "WEEK_MS \<equiv> 604800000"
abbreviation (input) LAST_SECOND_OF_DAY :: nat where "LAST_SECOND_OF_DAY \<equiv> 86399"

datatype weekday = Monday | Tuesday | Wednesday | Thursday | Friday | Saturday | Sunday

definition weekday_index :: "weekday \<Rightarrow> nat" where
  "weekday_index d = (case d of Monday \<Rightarrow> 0 | Tuesday \<Rightarrow> 1 | Wednesday \<Rightarrow> 2 | Thursday \<Rightarrow> 3
     | Friday \<Rightarrow> 4 | Saturday \<Rightarrow> 5 | Sunday \<Rightarrow> 6)"

definition from_days_since_year_zero :: "nat \<Rightarrow> weekday" where
  "from_days_since_year_zero days =
     (let r = (days + 5) mod 7 in
      if r = 0 then Monday else if r = 1 then Tuesday else if r = 2 then Wednesday else if r = 3 then Thursday
      else if r = 4 then Friday else if r = 5 then Saturday else Sunday)"

text \<open>A set of weekdays is a seven-bit mask.\<close>

type_synonym weekdays = byte

definition Weekdays_ALL :: weekdays where "Weekdays_ALL = 127"
definition Weekdays_WEEKDAYS :: weekdays where "Weekdays_WEEKDAYS = 31"
definition Weekdays_WEEKEND :: weekdays where "Weekdays_WEEKEND = 96"
definition Weekdays_NONE :: weekdays where "Weekdays_NONE = 0"

definition wd_and :: "weekdays \<Rightarrow> weekday \<Rightarrow> weekdays" where
  "wd_and ds d = or ds (push_bit (weekday_index d) 1)"

definition wd_only :: "weekday \<Rightarrow> weekdays" where
  "wd_only d = wd_and Weekdays_NONE d"

definition wd_contains :: "weekdays \<Rightarrow> weekday \<Rightarrow> bool" where
  "wd_contains ds d \<longleftrightarrow> and ds (push_bit (weekday_index d) 1) \<noteq> 0"

definition wd_is_empty :: "weekdays \<Rightarrow> bool" where
  "wd_is_empty ds \<longleftrightarrow> ds = 0"

record window =
  w_period_ms :: nat
  w_open :: nat
  w_close :: nat
  w_days :: weekdays

record schedule =
  s_window :: "window option"
  s_offset_ms :: int

definition Schedule_always :: schedule where
  "Schedule_always = \<lparr>s_window = None, s_offset_ms = 0\<rparr>"

definition Schedule_daily :: "nat \<Rightarrow> nat \<Rightarrow> schedule option" where
  "Schedule_daily open_sod close_sod =
     (if open_sod > LAST_SECOND_OF_DAY \<or> close_sod > LAST_SECOND_OF_DAY then None
      else if open_sod = close_sod then None
      else Some \<lparr>s_window = Some \<lparr>w_period_ms = DAY_MS, w_open = open_sod * 1000, w_close = close_sod * 1000,
                                 w_days = Weekdays_ALL\<rparr>, s_offset_ms = 0\<rparr>)"

definition Schedule_weekly :: "weekday \<Rightarrow> nat \<Rightarrow> weekday \<Rightarrow> nat \<Rightarrow> schedule option" where
  "Schedule_weekly open_day open_sod close_day close_sod =
     (if open_sod > LAST_SECOND_OF_DAY \<or> close_sod > LAST_SECOND_OF_DAY then None
      else let open = weekday_index open_day * DAY_MS + open_sod * 1000;
               close = weekday_index close_day * DAY_MS + close_sod * 1000 in
        if open = close then None
        else Some \<lparr>s_window = Some \<lparr>w_period_ms = WEEK_MS, w_open = open, w_close = close, w_days = Weekdays_ALL\<rparr>,
                   s_offset_ms = 0\<rparr>)"

definition with_weekdays :: "weekdays \<Rightarrow> schedule \<Rightarrow> schedule option" where
  "with_weekdays days s =
     (if wd_is_empty days then None
      else case s_window s of
             Some w \<Rightarrow> if w_period_ms w = DAY_MS then Some (s\<lparr>s_window := Some (w\<lparr>w_days := days\<rparr>)\<rparr>) else None
           | None \<Rightarrow> None)"

definition with_utc_offset_ms :: "int \<Rightarrow> schedule \<Rightarrow> schedule option" where
  "with_utc_offset_ms off s =
     (if off \<le> - int DAY_MS \<or> off \<ge> int DAY_MS then None else Some (s\<lparr>s_offset_ms := off\<rparr>))"

definition checked_add_signed :: "nat \<Rightarrow> int \<Rightarrow> nat option" where
  "checked_add_signed t d = (let x = int t + d in if 0 \<le> x \<and> x \<le> int U64_MAX then Some (nat x) else None)"

definition wrap64 :: "nat \<Rightarrow> nat" where
  "wrap64 n = n mod 2 ^ 64"

text \<open>Where the interval containing a local instant began, before the weekday filter.\<close>

definition local_start :: "window \<Rightarrow> nat \<Rightarrow> nat option" where
  "local_start w local =
     (let into = local mod w_period_ms w; base = local - into in
      if w_open w < w_close w then
        (if into \<ge> w_open w \<and> into < w_close w then Some (wrap64 (base + w_open w)) else None)
      else if into \<ge> w_open w then Some (wrap64 (base + w_open w))
      else if into < w_close w then
        (let o' = wrap64 (base + w_open w) in if o' \<ge> w_period_ms w then Some (o' - w_period_ms w) else None)
      else None)"

definition session_start :: "schedule \<Rightarrow> nat \<Rightarrow> nat option" where
  "session_start s t =
     (case s_window s of
        None \<Rightarrow> Some 0
      | Some w \<Rightarrow>
          Option.bind (checked_add_signed t (s_offset_ms s)) (\<lambda>local.
            Option.bind (local_start w local) (\<lambda>start_local.
              if w_period_ms w = DAY_MS \<and>
                 \<not> wd_contains (w_days w) (from_days_since_year_zero (start_local div DAY_MS)) then None
              else checked_add_signed start_local (- s_offset_ms s))))"

definition sched_contains :: "schedule \<Rightarrow> nat \<Rightarrow> bool" where
  "sched_contains s t \<longleftrightarrow> session_start s t \<noteq> None"

definition same_session :: "schedule \<Rightarrow> nat \<Rightarrow> nat \<Rightarrow> bool" where
  "same_session s x y =
     (case (session_start s x, session_start s y) of (Some p, Some q) \<Rightarrow> p = q | _ \<Rightarrow> False)"

subsection \<open>Windows\<close>

text \<open>A schedule the constructors can make.\<close>

definition window_ok :: "window \<Rightarrow> bool" where
  "window_ok w \<longleftrightarrow> w_period_ms w \<in> {DAY_MS, WEEK_MS} \<and> w_open w < w_period_ms w \<and> w_close w < w_period_ms w \<and> w_open w \<noteq> w_close w"

definition schedule_ok :: "schedule \<Rightarrow> bool" where
  "schedule_ok s \<longleftrightarrow> (case s_window s of None \<Rightarrow> True | Some w \<Rightarrow> window_ok w) \<and> \<bar>s_offset_ms s\<bar> < int DAY_MS"

lemma weekday_index_le: "weekday_index d \<le> 6"
  by (cases d) (simp_all add: weekday_index_def)

lemma schedule_ok_constructors:
  "schedule_ok Schedule_always"
  "Schedule_daily o' c = Some s \<Longrightarrow> schedule_ok s"
  "Schedule_weekly od o' cd c = Some s \<Longrightarrow> schedule_ok s"
  "schedule_ok s \<Longrightarrow> with_weekdays ds s = Some s' \<Longrightarrow> schedule_ok s'"
  "schedule_ok s \<Longrightarrow> with_utc_offset_ms off s = Some s' \<Longrightarrow> schedule_ok s'"
  using weekday_index_le [of od] weekday_index_le [of cd]
  by (auto simp: schedule_ok_def Schedule_always_def Schedule_daily_def Schedule_weekly_def with_weekdays_def
      with_utc_offset_ms_def window_ok_def Let_def split: if_splits option.splits)

definition duration :: "window \<Rightarrow> nat" where
  "duration w = (if w_open w < w_close w then w_close w - w_open w else w_period_ms w - w_open w + w_close w)"

lemma div_unique: "k * p \<le> (n::nat) \<Longrightarrow> n < k * p + p \<Longrightarrow> n div p = k \<and> n mod p = n - k * p"
  by (metis add.commute div_nat_eqI minus_mult_div_eq_mod mult.commute mult_Suc)

lemma local_start_eq:
  assumes "window_ok w" "local \<le> 2 ^ 63"
  shows "local_start w local =
     (let p = w_period_ms w; q = local div p; r = local mod p in
      if w_open w < w_close w then
        (if r \<ge> w_open w \<and> r < w_close w then Some (q * p + w_open w) else None)
      else if r \<ge> w_open w then Some (q * p + w_open w)
      else if r < w_close w then (if q \<ge> 1 then Some ((q - 1) * p + w_open w) else None)
      else None)"
proof -
  let ?p = "w_period_ms w" and ?q = "local div w_period_ms w"
  have base: "local - local mod ?p = ?q * ?p" by (simp add: minus_mod_eq_div_mult)
  have "?q * ?p \<le> local" by simp
  then have wr: "wrap64 (?q * ?p + w_open w) = ?q * ?p + w_open w"
    using assms by (auto simp: wrap64_def window_ok_def)
  have "w_open w < ?p" using assms(1) by (simp add: window_ok_def)
  then have "?q * ?p + w_open w \<ge> ?p \<longleftrightarrow> ?q \<ge> 1" by (cases ?q) auto
  moreover have "?q \<ge> 1 \<Longrightarrow> ?q * ?p + w_open w - ?p = (?q - 1) * ?p + w_open w" by (cases ?q) auto
  ultimately show ?thesis by (simp add: local_start_def base wr Let_def)
qed

lemma local_start_iff:
  assumes "window_ok w" "local \<le> 2 ^ 63"
  shows "local_start w local = Some s \<longleftrightarrow>
    (\<exists>k. s = k * w_period_ms w + w_open w \<and> s \<le> local \<and> local < s + duration w)"
proof
  let ?p = "w_period_ms w"
  define q where "q = local div ?p"
  define r where "r = local mod ?p"
  have l: "local = q * ?p + r" "r < ?p" using assms(1) by (auto simp: q_def r_def window_ok_def)
  note w = assms(1) [unfolded window_ok_def]
  {
    assume "local_start w local = Some s"
    then consider "w_open w < w_close w" "r \<ge> w_open w" "r < w_close w" "s = q * ?p + w_open w"
      | "\<not> w_open w < w_close w" "r \<ge> w_open w" "s = q * ?p + w_open w"
      | "\<not> w_open w < w_close w" "r < w_close w" "q \<ge> 1" "s = (q - 1) * ?p + w_open w"
      using local_start_eq [OF assms] by (auto simp: Let_def q_def r_def split: if_splits)
    then show "\<exists>k. s = k * ?p + w_open w \<and> s \<le> local \<and> local < s + duration w"
    proof cases
      case 1
      then show ?thesis using l by (intro exI [of _ q] conjI) (simp_all add: duration_def)
    next
      case 2
      then show ?thesis using l w by (intro exI [of _ q] conjI) (auto simp: duration_def)
    next
      case 3
      have "q * ?p = (q - 1) * ?p + ?p" using 3(3) by (cases q) auto
      then show ?thesis using l w 3 by (intro exI [of _ "q - 1"] conjI) (auto simp: duration_def)
    qed
  }
  assume "\<exists>k. s = k * ?p + w_open w \<and> s \<le> local \<and> local < s + duration w"
  then obtain k where k: "s = k * ?p + w_open w" "s \<le> local" "local < s + duration w" by blast
  show "local_start w local = Some s"
  proof (cases "w_open w < w_close w \<or> local < k * ?p + ?p")
    case True
    then have "k * ?p \<le> local" "local < k * ?p + ?p"
      using k w by (auto simp: duration_def split: if_splits)
    from div_unique [OF this] show ?thesis
      using k w True local_start_eq [OF assms] by (auto simp: Let_def duration_def split: if_splits)
  next
    case False
    then have "(k + 1) * ?p \<le> local" "local < (k + 1) * ?p + ?p"
      using k w by (auto simp: duration_def split: if_splits)
    from div_unique [OF this] show ?thesis
      using k w False local_start_eq [OF assms] by (auto simp: Let_def duration_def split: if_splits)
  qed
qed

text \<open>Every instant from the start of an interval to any instant of it belongs to that interval.\<close>

lemma local_start_convex:
  assumes "window_ok w" "local \<le> 2 ^ 63" "local_start w local = Some s" "s \<le> u" "u \<le> local"
  shows "local_start w u = Some s"
proof -
  have "u \<le> 2 ^ 63" using assms by simp
  then show ?thesis using assms local_start_iff [OF assms(1,2), of s] local_start_iff [OF assms(1), of u s] by auto
qed

lemma session_start_SomeD:
  assumes "schedule_ok s" "s_window s = Some w" "t < 2 ^ 62" "session_start s t = Some st"
  obtains local sl where "int local = int t + s_offset_ms s" "int st = int sl - s_offset_ms s" "local_start w local = Some sl"
    "w_period_ms w = DAY_MS \<longrightarrow> wd_contains (w_days w) (from_days_since_year_zero (sl div DAY_MS))"
    "local \<le> 2 ^ 63" "sl \<le> local" "window_ok w"
proof -
  from assms obtain local sl where l: "checked_add_signed t (s_offset_ms s) = Some local" "local_start w local = Some sl"
    "checked_add_signed sl (- s_offset_ms s) = Some st"
    "w_period_ms w = DAY_MS \<longrightarrow> wd_contains (w_days w) (from_days_since_year_zero (sl div DAY_MS))"
    by (auto simp: session_start_def bind_eq_Some_conv split: if_splits)
  have e: "int local = int t + s_offset_ms s" "int st = int sl - s_offset_ms s"
    using l(1,3) by (auto simp: checked_add_signed_def Let_def split: if_splits)
  have ok: "window_ok w" "\<bar>s_offset_ms s\<bar> < int DAY_MS" using assms(1,2) by (auto simp: schedule_ok_def)
  have b: "local \<le> 2 ^ 63" using e ok(2) assms(3) by simp
  then have "sl \<le> local" using local_start_iff [OF ok(1) b] l(2) by blast
  then show thesis using that e l ok(1) b by blast
qed

lemma session_start_convex:
  assumes ok: "schedule_ok s" and t: "t < 2 ^ 62" and st: "session_start s t = Some st" and u: "st \<le> u" "u \<le> t"
  shows "session_start s u = Some st"
proof (cases "s_window s")
  case (Some w)
  obtain local sl where l: "int local = int t + s_offset_ms s" "int st = int sl - s_offset_ms s" "local_start w local = Some sl"
    "w_period_ms w = DAY_MS \<longrightarrow> wd_contains (w_days w) (from_days_since_year_zero (sl div DAY_MS))"
    "local \<le> 2 ^ 63" "sl \<le> local" "window_ok w"
    using session_start_SomeD [OF ok Some t st] .
  define lu where "lu = nat (int u + s_offset_ms s)"
  have lu: "int lu = int u + s_offset_ms s" "sl \<le> lu" "lu \<le> local"
    using l(1,2) u by (auto simp: lu_def)
  have "st < 2 ^ 63" using u t by simp
  then have "checked_add_signed u (s_offset_ms s) = Some lu" "checked_add_signed sl (- s_offset_ms s) = Some st"
    using lu l by (auto simp: checked_add_signed_def Let_def simp flip: l(2))
  moreover have "local_start w lu = Some sl" using local_start_convex [OF l(7,5,3) lu(2,3)] .
  ultimately show ?thesis using Some l(4) by (simp add: session_start_def)
qed (use st in \<open>simp add: session_start_def\<close>)

lemma session_start_le:
  assumes "schedule_ok s" "t < 2 ^ 62" "session_start s t = Some st"
  shows "st \<le> t"
proof (cases "s_window s")
  case (Some w)
  obtain local sl where "int local = int t + s_offset_ms s" "int st = int sl - s_offset_ms s" "sl \<le> local"
    using session_start_SomeD [OF assms(1) Some assms(2,3)] .
  then show ?thesis by linarith
qed (use assms(3) in \<open>simp add: session_start_def\<close>)

lemma same_session_iff:
  "same_session s x y \<longleftrightarrow> (\<exists>st. session_start s x = Some st \<and> session_start s y = Some st)"
  by (auto simp: same_session_def split: option.splits)

subsection \<open>Properties\<close>

text \<open>A session does not reset in the middle. For every schedule the constructors can make, if two
  instants belong to the same session then so does every instant between them: an interval of a
  schedule, wrapped around midnight or around the week or shifted by an offset, is contiguous on
  the millisecond timeline.\<close>

theorem same_session_contiguous:
  assumes "schedule_ok s" "y < 2 ^ 62" "same_session s x y" "x \<le> u" "u \<le> y"
  shows "same_session s x u \<and> same_session s u y"
proof -
  obtain st where st: "session_start s x = Some st" "session_start s y = Some st"
    using assms(3) by (auto simp: same_session_iff)
  have "st \<le> x" using session_start_le [OF assms(1) _ st(1)] assms(2,4,5) by simp
  then have "session_start s u = Some st"
    using session_start_convex [OF assms(1,2) st(2)] assms(4,5) by simp
  then show ?thesis using st by (simp add: same_session_iff)
qed

definition night :: schedule where
  "night = \<lparr>s_window = Some \<lparr>w_period_ms = DAY_MS, w_open = 79200000, w_close = 21600000, w_days = Weekdays_ALL\<rparr>, s_offset_ms = 0\<rparr>"

lemma night_daily: "Schedule_daily 79200 21600 = Some night"
  by (simp add: Schedule_daily_def night_def)

lemma wd_contains_ALL: "wd_contains Weekdays_ALL d"
  by (cases d) (simp_all add: wd_contains_def Weekdays_ALL_def weekday_index_def)

lemma night_open: "session_start night 165600000 = Some 165600000" "session_start night 194399999 = Some 165600000"
  by (simp_all add: session_start_def night_def checked_add_signed_def local_start_def wrap64_def wd_contains_ALL Let_def)

theorem same_session_contiguous_witness: "same_session night 165600000 172800000 \<and> same_session night 172800000 194399999"
  by (rule same_session_contiguous)
    (simp_all add: schedule_ok_constructors(2) [OF night_daily] same_session_iff night_open)

text \<open>A daily window is open exactly in its hours. From the second day of the timeline on, an
  instant is inside the session of \<open>daily open close\<close> iff its time of day is at or after the opening
  and before the closing, where a window that closes before it opens runs over midnight.\<close>

theorem daily_open_iff:
  assumes "Schedule_daily o' c = Some s" "DAY_MS \<le> t" "t < 2 ^ 62"
  shows "sched_contains s t \<longleftrightarrow> (if o' < c then o' * 1000 \<le> t mod DAY_MS \<and> t mod DAY_MS < c * 1000
                                 else o' * 1000 \<le> t mod DAY_MS \<or> t mod DAY_MS < c * 1000)"
proof -
  define w where "w = \<lparr>w_period_ms = DAY_MS, w_open = o' * 1000, w_close = c * 1000, w_days = Weekdays_ALL\<rparr>"
  have s: "s = \<lparr>s_window = Some w, s_offset_ms = 0\<rparr>" "o' \<le> 86399" "c \<le> 86399" "o' \<noteq> c"
    using assms(1) by (auto simp: Schedule_daily_def w_def split: if_splits)
  have ok: "window_ok w" using s by (simp add: window_ok_def w_def)
  have "checked_add_signed t 0 = Some t" using assms(3) by (simp add: checked_add_signed_def)
  moreover have "sl \<le> t" if "local_start w t = Some sl" for sl
    using local_start_iff [OF ok, of t sl] that assms(3) by auto
  then have "checked_add_signed sl 0 = Some sl" if "local_start w t = Some sl" for sl
    using that assms(3) by (fastforce simp: checked_add_signed_def)
  ultimately have "sched_contains s t \<longleftrightarrow> local_start w t \<noteq> None"
    by (cases "local_start w t") (simp_all add: sched_contains_def session_start_def s(1) wd_contains_ALL w_def)
  also have "\<dots> \<longleftrightarrow> (if o' < c then o' * 1000 \<le> t mod DAY_MS \<and> t mod DAY_MS < c * 1000
                                 else o' * 1000 \<le> t mod DAY_MS \<or> t mod DAY_MS < c * 1000)"
    using local_start_eq [OF ok, of t] assms(2,3) s(4) by (auto simp: w_def Let_def)
  finally show ?thesis .
qed

theorem daily_open_iff_witness:
  "sched_contains night 100000000 \<longleftrightarrow> (if 79200 < (21600::nat) then 79200 * 1000 \<le> 100000000 mod DAY_MS \<and> 100000000 mod DAY_MS < 21600 * 1000
     else 79200 * 1000 \<le> 100000000 mod DAY_MS \<or> 100000000 mod DAY_MS < 21600 * 1000)"
  by (rule daily_open_iff [OF night_daily]) simp_all

lemma seven: "(d::nat) mod 7 = 0 \<longleftrightarrow> (d + 5) mod 7 = 5"
  by presburger

text \<open>C32: A weekly window opens on the wrong weekday. Weekday numbers count from Monday while the
  week is cut at multiples of seven days from 0000-01-01, which is a Saturday: a window declared
  from Monday 00:00 to Tuesday 00:00 is open exactly on the days that the same module's weekday
  function calls Saturday.\<close>

theorem weekly_monday_opens_on_saturday:
  assumes "Schedule_weekly Monday 0 Tuesday 0 = Some s" "t < 2 ^ 62"
  shows "sched_contains s t \<longleftrightarrow> from_days_since_year_zero (t div DAY_MS) = Saturday"
proof -
  define w where "w = \<lparr>w_period_ms = WEEK_MS, w_open = 0, w_close = DAY_MS, w_days = Weekdays_ALL\<rparr>"
  have s: "s = \<lparr>s_window = Some w, s_offset_ms = 0\<rparr>"
    using assms(1) by (auto simp: Schedule_weekly_def weekday_index_def w_def Let_def split: if_splits)
  have ok: "window_ok w" by (simp add: window_ok_def w_def)
  have le: "sl \<le> t" if "local_start w t = Some sl" for sl
    using local_start_iff [OF ok, of t sl] that assms(2) by auto
  have "checked_add_signed t 0 = Some t" using assms(2) by (simp add: checked_add_signed_def)
  moreover have "checked_add_signed sl 0 = Some sl" if "local_start w t = Some sl" for sl
    using le [OF that] assms(2) by (simp add: checked_add_signed_def)
  ultimately have "sched_contains s t \<longleftrightarrow> local_start w t \<noteq> None"
    by (cases "local_start w t") (simp_all add: sched_contains_def session_start_def s w_def)
  also have "\<dots> \<longleftrightarrow> t mod WEEK_MS < DAY_MS"
    using local_start_eq [OF ok, of t] assms(2) by (simp add: w_def Let_def)
  also have "\<dots> \<longleftrightarrow> t div DAY_MS mod 7 = 0"
  proof -
    have m: "t mod (DAY_MS * 7) = DAY_MS * (t div DAY_MS mod 7) + t mod DAY_MS" by (rule mod_mult2_eq)
    have "DAY_MS * q + r < DAY_MS \<longleftrightarrow> q = 0" if "r < DAY_MS" for q r using that by (cases q) auto
    from this [of "t mod DAY_MS" "t div DAY_MS mod 7"] show ?thesis unfolding m [symmetric] by simp
  qed
  also have "\<dots> \<longleftrightarrow> (t div DAY_MS + 5) mod 7 = 5" by (rule seven)
  also have "\<dots> \<longleftrightarrow> from_days_since_year_zero (t div DAY_MS) = Saturday"
    by (simp add: from_days_since_year_zero_def Let_def)
  finally show ?thesis .
qed

theorem weekly_monday_opens_on_saturday_witness:
  "\<exists>s. Schedule_weekly Monday 0 Tuesday 0 = Some s \<and>
     (sched_contains s 0 \<longleftrightarrow> from_days_since_year_zero (0 div DAY_MS) = Saturday)"
proof -
  obtain s where s: "Schedule_weekly Monday 0 Tuesday 0 = Some s"
    by (simp add: Schedule_weekly_def weekday_index_def)
  from s weekly_monday_opens_on_saturday [OF s, of 0] show ?thesis by auto
qed

end
