(* ===== verification/Session_Text.thy ===== *)
theory Session_Text
  imports Template_Correct
begin

text \<open>
  \<open>crates/session/src/text.rs\<close>: the reasons a session gives on a Reject or a Logout, with the
  reject code each goes with and the text written into the caller's buffer.
\<close>

datatype session_text =
    InvalidTagNumber
  | RequiredTagMissing
  | TagNotDefinedForThisMessageType
  | TagSpecifiedWithoutValue
  | ValueIsIncorrect
  | IncorrectDataFormat
  | CompIdProblem
  | SendingTimeAccuracyProblem
  | InvalidMsgType
  | TagAppearsMoreThanOnce
  | TagSpecifiedOutOfRequiredOrder
  | IncorrectNumInGroupCount
  | IncorrectBeginString
  | UnsupportedMessageType
  | NoProductsFound
  | MsgSeqNumTooLow nat nat

definition SessionText_ALL :: "session_text list" where
  "SessionText_ALL = [InvalidTagNumber, RequiredTagMissing, TagNotDefinedForThisMessageType, TagSpecifiedWithoutValue,
     ValueIsIncorrect, IncorrectDataFormat, CompIdProblem, SendingTimeAccuracyProblem, InvalidMsgType,
     TagAppearsMoreThanOnce, TagSpecifiedOutOfRequiredOrder, IncorrectNumInGroupCount, IncorrectBeginString,
     UnsupportedMessageType, NoProductsFound]"

definition TEXT_MAX_FIXED_LEN :: nat where "TEXT_MAX_FIXED_LEN = 46"
definition TEXT_MAX_LEN :: nat where "TEXT_MAX_LEN = 29 + 10 + 14 + 10"

fun session_reject_reason :: "session_text \<Rightarrow> nat option" where
  "session_reject_reason InvalidTagNumber = Some 0"
| "session_reject_reason RequiredTagMissing = Some 1"
| "session_reject_reason TagNotDefinedForThisMessageType = Some 2"
| "session_reject_reason TagSpecifiedWithoutValue = Some 4"
| "session_reject_reason ValueIsIncorrect = Some 5"
| "session_reject_reason IncorrectDataFormat = Some 6"
| "session_reject_reason CompIdProblem = Some 9"
| "session_reject_reason SendingTimeAccuracyProblem = Some 10"
| "session_reject_reason InvalidMsgType = Some 11"
| "session_reject_reason TagAppearsMoreThanOnce = Some 13"
| "session_reject_reason TagSpecifiedOutOfRequiredOrder = Some 14"
| "session_reject_reason IncorrectNumInGroupCount = Some 16"
| "session_reject_reason IncorrectBeginString = None"
| "session_reject_reason UnsupportedMessageType = None"
| "session_reject_reason NoProductsFound = None"
| "session_reject_reason (MsgSeqNumTooLow _ _) = None"

fun text_as_str :: "session_text \<Rightarrow> bytes option" where
  "text_as_str InvalidTagNumber = Some (b ''Invalid tag number'')"
| "text_as_str RequiredTagMissing = Some (b ''Required tag missing'')"
| "text_as_str TagNotDefinedForThisMessageType = Some (b ''Tag not defined for this message type'')"
| "text_as_str TagSpecifiedWithoutValue = Some (b ''Tag specified without a value'')"
| "text_as_str ValueIsIncorrect = Some (b ''Value is incorrect (out of range) for this tag'')"
| "text_as_str IncorrectDataFormat = Some (b ''Incorrect data format for value'')"
| "text_as_str CompIdProblem = Some (b ''CompID problem'')"
| "text_as_str SendingTimeAccuracyProblem = Some (b ''SendingTime accuracy problem'')"
| "text_as_str InvalidMsgType = Some (b ''Invalid MsgType'')"
| "text_as_str TagAppearsMoreThanOnce = Some (b ''Tag appears more than once'')"
| "text_as_str TagSpecifiedOutOfRequiredOrder = Some (b ''Tag specified out of required order'')"
| "text_as_str IncorrectNumInGroupCount = Some (b ''Incorrect NumInGroup count for repeating group'')"
| "text_as_str IncorrectBeginString = Some (b ''Incorrect BeginString'')"
| "text_as_str UnsupportedMessageType = Some (b ''Unsupported Message Type'')"
| "text_as_str NoProductsFound = Some (b ''No Products found for this Class Symbol'')"
| "text_as_str (MsgSeqNumTooLow _ _) = None"

text \<open>The digit loop fills ten slots from the right and stops early when the number runs out.\<close>

fun digits_loop :: "nat \<Rightarrow> nat \<Rightarrow> bytes \<Rightarrow> bytes" where
  "digits_loop 0 v acc = acc"
| "digits_loop (Suc i) v acc = (if v > 0 then digits_loop i (v div 10) (digit_byte (v mod 10) # acc) else acc)"

definition digits :: "nat \<Rightarrow> bytes" where
  "digits v = (if v = 0 then [ZERO] else digits_loop 10 v [])"

definition text_render :: "session_text \<Rightarrow> bytes \<Rightarrow> (bytes \<times> nat) option" where
  "text_render t out =
     (case text_as_str t of
        Some s \<Rightarrow> map_option (\<lambda>o'. (o', length s)) (write_at out 0 s)
      | None \<Rightarrow>
          (case t of
             MsgSeqNumTooLow expecting received \<Rightarrow>
               let bs = b ''MsgSeqNum too low, expecting '' @ digits expecting @ b '' but received '' @ digits received
               in map_option (\<lambda>o'. (o', length bs)) (write_at out 0 bs)
           | _ \<Rightarrow> None))"

text \<open>The text, with no buffer.\<close>

definition text_bytes :: "session_text \<Rightarrow> bytes" where
  "text_bytes t = (case t of MsgSeqNumTooLow e r \<Rightarrow> b ''MsgSeqNum too low, expecting '' @ dec_digits e @ b '' but received '' @ dec_digits r
     | _ \<Rightarrow> the (text_as_str t))"

lemma digits_loop_eq: "0 < v \<Longrightarrow> v < 10 ^ i \<Longrightarrow> digits_loop i v acc = dec_digits v @ acc"
proof (induction i arbitrary: v acc)
  case (Suc i)
  show ?case
  proof (cases "v < 10")
    case True
    then have "digits_loop i 0 acc' = acc'" for acc' by (cases i) auto
    with True Suc.prems show ?thesis by (simp add: dec_digits_small)
  next
    case False
    moreover have "v div 10 < 10 ^ i" using Suc.prems(2) by (simp add: less_mult_imp_div_less mult.commute)
    ultimately show ?thesis using Suc.IH [of "v div 10"] Suc.prems by (simp add: dec_digits_snoc [of v])
  qed
qed simp

lemma digits_eq: "v \<le> U32_MAX \<Longrightarrow> digits v = dec_digits v"
  using digits_loop_eq [of v 10 "[]"] by (simp add: digits_def dec_digits_small digit_byte_def)

fun text_ok :: "session_text \<Rightarrow> bool" where
  "text_ok (MsgSeqNumTooLow e r) \<longleftrightarrow> e \<le> U32_MAX \<and> r \<le> U32_MAX"
| "text_ok _ \<longleftrightarrow> True"

lemma u32_digits: "v \<le> U32_MAX \<Longrightarrow> length (dec_digits v) \<le> 10"
  by (rule length_dec_digits_le) simp_all

lemma text_bytes_len: "text_ok t \<Longrightarrow> length (text_bytes t) \<le> TEXT_MAX_LEN"
proof (cases t)
  case (MsgSeqNumTooLow e r)
  moreover assume "text_ok t"
  ultimately show ?thesis using u32_digits [of e] u32_digits [of r] by (simp add: text_bytes_def TEXT_MAX_LEN_def b_def)
qed (simp_all add: text_bytes_def TEXT_MAX_LEN_def b_def)

lemma text_render_eq:
  assumes "text_ok t" "length (text_bytes t) \<le> length out"
  shows "text_render t out = Some (text_bytes t @ drop (length (text_bytes t)) out, length (text_bytes t))"
  using assms by (cases t) (simp_all add: text_render_def text_bytes_def write_at_def digits_eq Let_def)

subsection \<open>Properties\<close>

text \<open>Every reason a session can give fits the buffer sized for it and is written whole. For each
  text, the sequence-number one with any two 32-bit numbers included, rendering into a buffer of
  \<open>MAX_LEN\<close> bytes succeeds and the first bytes are the text; a shorter buffer is refused instead of
  being half filled.\<close>

theorem text_render_whole:
  assumes "text_ok t"
  shows "(TEXT_MAX_LEN \<le> length out \<longrightarrow>
      (\<exists>out' n. text_render t out = Some (out', n) \<and> take n out' = text_bytes t \<and> n \<le> TEXT_MAX_LEN)) \<and>
    (length out < length (text_bytes t) \<longrightarrow> text_render t out = None)"
proof -
  have "text_render t out = None" if "length out < length (text_bytes t)"
    using that assms by (cases t) (simp_all add: text_render_def text_bytes_def write_at_def digits_eq Let_def)
  then show ?thesis using text_render_eq [OF assms, of out] text_bytes_len [OF assms] by auto
qed

theorem text_render_whole_witness:
  "\<exists>out' n. text_render (MsgSeqNumTooLow 4294967295 7) (replicate 63 0) = Some (out', n) \<and>
     take n out' = text_bytes (MsgSeqNumTooLow 4294967295 7) \<and> n \<le> TEXT_MAX_LEN"
proof -
  have ok: "text_ok (MsgSeqNumTooLow 4294967295 7)" by simp
  show ?thesis using text_render_whole [OF ok, of "replicate 63 0"] by (simp add: TEXT_MAX_LEN_def)
qed

end
