(* ===== verification/Field_Type.thy ===== *)
theory Field_Type
  imports Clock Decimal
begin

text \<open>
  \<open>crates/dict/src/field_type.rs\<close>: the value formats of the FIX data types. A subscript of the
  source that is in range at its place is written with \<open>!\<close>; every use is guarded by the length
  test in front of it.
\<close>

datatype field_type =
    FtInt | FtLength | FtSeqNum | FtNumInGroup | FtFloat | FtQty | FtPrice | FtPriceOffset | FtAmt | FtPercentage
  | FtChar | FtBoolean | FtString | FtMultipleValueString | FtCurrency | FtCountry | FtExchange | FtMonthYear
  | FtLocalMktDate | FtUtcDateOnly | FtUtcTimeOnly | FtUtcTimestamp | FtData | FtLanguage | FtTagNum
  | FtMultipleCharValue | FtLocalMktTime | FtTzTimeOnly | FtTzTimestamp

definition from_xml :: "string \<Rightarrow> field_type option" where
  "from_xml name = map_of [
     (''INT'', FtInt), (''LENGTH'', FtLength), (''SEQNUM'', FtSeqNum), (''NUMINGROUP'', FtNumInGroup),
     (''FLOAT'', FtFloat), (''QTY'', FtQty), (''PRICE'', FtPrice), (''PRICEOFFSET'', FtPriceOffset), (''AMT'', FtAmt),
     (''PERCENTAGE'', FtPercentage), (''CHAR'', FtChar), (''BOOLEAN'', FtBoolean), (''STRING'', FtString),
     (''MULTIPLEVALUESTRING'', FtMultipleValueString), (''CURRENCY'', FtCurrency), (''EXCHANGE'', FtExchange),
     (''COUNTRY'', FtCountry), (''MONTHYEAR'', FtMonthYear), (''LOCALMKTDATE'', FtLocalMktDate),
     (''UTCDATEONLY'', FtUtcDateOnly), (''UTCTIMEONLY'', FtUtcTimeOnly), (''UTCTIMESTAMP'', FtUtcTimestamp),
     (''DATA'', FtData), (''XID'', FtString), (''XIDREF'', FtString), (''MULTIPLESTRINGVALUE'', FtMultipleValueString),
     (''XMLDATA'', FtData), (''LANGUAGE'', FtLanguage), (''TAGNUM'', FtTagNum),
     (''MULTIPLECHARVALUE'', FtMultipleCharValue), (''LOCALMKTTIME'', FtLocalMktTime), (''TZTIMEONLY'', FtTzTimeOnly),
     (''TZTIMESTAMP'', FtTzTimestamp)] name"

definition is_ascii_alphabetic :: "byte \<Rightarrow> bool" where
  "is_ascii_alphabetic c \<longleftrightarrow> (65 \<le> c \<and> c \<le> 90) \<or> (97 \<le> c \<and> c \<le> 122)"

definition strip_minus :: "bytes \<Rightarrow> bytes" where
  "strip_minus v = (case v of c # rest \<Rightarrow> if c = 45 then rest else v | [] \<Rightarrow> v)"

definition unsigned_int :: "bytes \<Rightarrow> bool" where
  "unsigned_int v \<longleftrightarrow> v \<noteq> [] \<and> list_all is_ascii_digit v"

definition signed_int :: "bytes \<Rightarrow> bool" where
  "signed_int v \<longleftrightarrow> unsigned_int (strip_minus v)"

text \<open>\<open>splitn(2, '.')\<close>: what is in front of the first point and, if there is one, what is behind it.\<close>

definition signed_number :: "bytes \<Rightarrow> bool" where
  "signed_number v0 \<longleftrightarrow>
     (let v = strip_minus v0 in
      if v = [] then False
      else let whole = takeWhile (\<lambda>c. c \<noteq> 46) v;
               tail = (case dropWhile (\<lambda>c. c \<noteq> 46) v of [] \<Rightarrow> None | _ # t \<Rightarrow> Some t) in
        if whole = [] \<and> (case tail of None \<Rightarrow> True | Some t \<Rightarrow> t = []) then False
        else list_all is_ascii_digit whole \<and> (case tail of None \<Rightarrow> True | Some t \<Rightarrow> list_all is_ascii_digit t))"

definition pair_value :: "bytes \<Rightarrow> nat \<Rightarrow> nat" where
  "pair_value v at = digit_of (v ! at) * 10 + digit_of (v ! (at + 1))"

definition month_year :: "bytes \<Rightarrow> bool" where
  "month_year v \<longleftrightarrow>
     (if \<not> (length v = 6 \<or> length v = 8) \<or> \<not> list_all is_ascii_digit (take 6 v) then False
      else let m = pair_value v 4 in
        if \<not> (1 \<le> m \<and> m \<le> 12) then False
        else length v = 6 \<or> list_all is_ascii_digit (drop 6 v) \<or> (v ! 6 = 119 \<and> is_ascii_digit (v ! 7)))"

definition date_ok :: "bytes \<Rightarrow> bool" where
  "date_ok v \<longleftrightarrow>
     (if length v \<noteq> 8 \<or> \<not> list_all is_ascii_digit v then False
      else let m = pair_value v 4; d = pair_value v 6 in 1 \<le> m \<and> m \<le> 12 \<and> 1 \<le> d \<and> d \<le> 31)"

definition time_ok :: "bytes \<Rightarrow> bool" where
  "time_ok v \<longleftrightarrow>
     (if \<not> (length v = 8 \<or> (10 \<le> length v \<and> length v \<le> 21)) then False
      else if v ! 2 \<noteq> 58 \<or> v ! 5 \<noteq> 58 then False
      else if \<not> (list_all is_ascii_digit (take 2 v) \<and> list_all is_ascii_digit (take 2 (drop 3 v)) \<and>
                 list_all is_ascii_digit (take 2 (drop 6 v))) then False
      else if pair_value v 0 > 23 \<or> pair_value v 3 > 59 \<or> pair_value v 6 > 60 then False
      else length v = 8 \<or> (v ! 8 = 46 \<and> list_all is_ascii_digit (drop 9 v)))"

definition utc_timestamp :: "bytes \<Rightarrow> bool" where
  "utc_timestamp v \<longleftrightarrow>
     (if 8 \<le> length v then (case drop 8 v of c # t \<Rightarrow> c = 45 \<and> date_ok (take 8 v) \<and> time_ok t | [] \<Rightarrow> False) else False)"

definition split_tail :: "bytes \<Rightarrow> nat \<Rightarrow> (bytes \<times> bytes) option" where
  "split_tail v n = (if n \<le> length v then Some (take (length v - n) v, drop (length v - n) v) else None)"

definition two_digit :: "byte \<Rightarrow> byte \<Rightarrow> nat option" where
  "two_digit x y = (if is_ascii_digit x \<and> is_ascii_digit y then Some (digit_of x * 10 + digit_of y) else None)"

definition zone_hour :: "byte \<Rightarrow> byte \<Rightarrow> bool" where
  "zone_hour x y \<longleftrightarrow> (case two_digit x y of Some h \<Rightarrow> 1 \<le> h \<and> h \<le> 12 | None \<Rightarrow> False)"

definition zone_minutes :: "bytes \<Rightarrow> bool" where
  "zone_minutes t \<longleftrightarrow> (case t of
       [sign, h1, h2, colon, m1, m2] \<Rightarrow> colon = 58 \<and> (sign = 43 \<or> sign = 45) \<and> zone_hour h1 h2 \<and>
         (case two_digit m1 m2 of Some m \<Rightarrow> m \<le> 59 | None \<Rightarrow> False)
     | _ \<Rightarrow> False)"

definition zone_hours :: "bytes \<Rightarrow> bool" where
  "zone_hours t \<longleftrightarrow> (case t of [sign, h1, h2] \<Rightarrow> (sign = 43 \<or> sign = 45) \<and> zone_hour h1 h2 | _ \<Rightarrow> False)"

definition strip_zone :: "bytes \<Rightarrow> bytes" where
  "strip_zone v =
     (if v \<noteq> [] \<and> last v = 90 then butlast v
      else case split_tail v 6 of
        Some (head, t) \<Rightarrow> if zone_minutes t then head
          else (case split_tail v 3 of Some (head, t) \<Rightarrow> if zone_hours t then head else v | None \<Rightarrow> v)
      | None \<Rightarrow> (case split_tail v 3 of Some (head, t) \<Rightarrow> if zone_hours t then head else v | None \<Rightarrow> v))"

definition hour_minute :: "bytes \<Rightarrow> bool" where
  "hour_minute v \<longleftrightarrow> (case v of
       [h1, h2, colon, m1, m2] \<Rightarrow> colon = 58 \<and> (case two_digit h1 h2 of Some h \<Rightarrow> h \<le> 23 | None \<Rightarrow> False) \<and>
         (case two_digit m1 m2 of Some m \<Rightarrow> m \<le> 59 | None \<Rightarrow> False)
     | _ \<Rightarrow> False)"

fun split_on :: "byte \<Rightarrow> bytes \<Rightarrow> bytes list" where
  "split_on c [] = [[]]"
| "split_on c (x # xs) = (case split_on c xs of
       t # ts \<Rightarrow> if x = c then [] # t # ts else (x # t) # ts
     | [] \<Rightarrow> [[x]])"

definition accepts :: "field_type \<Rightarrow> bytes \<Rightarrow> bool" where
  "accepts ft value \<longleftrightarrow>
     (if ft = FtData then True
      else if value = [] then False
      else case ft of
          FtData \<Rightarrow> True
        | FtInt \<Rightarrow> signed_int value
        | FtFloat \<Rightarrow> signed_number value
        | FtQty \<Rightarrow> signed_number value
        | FtPrice \<Rightarrow> signed_number value
        | FtPriceOffset \<Rightarrow> signed_number value
        | FtAmt \<Rightarrow> signed_number value
        | FtPercentage \<Rightarrow> signed_number value
        | FtLength \<Rightarrow> unsigned_int value
        | FtNumInGroup \<Rightarrow> unsigned_int value
        | FtSeqNum \<Rightarrow> unsigned_int value
        | FtChar \<Rightarrow> length value = 1
        | FtBoolean \<Rightarrow> value = b ''Y'' \<or> value = b ''N''
        | FtString \<Rightarrow> SOH \<notin> set value
        | FtMultipleValueString \<Rightarrow> SOH \<notin> set value
        | FtExchange \<Rightarrow> SOH \<notin> set value
        | FtCurrency \<Rightarrow> length value = 3 \<and> list_all is_ascii_alphabetic value
        | FtCountry \<Rightarrow> length value = 2 \<and> list_all is_ascii_alphabetic value
        | FtMonthYear \<Rightarrow> month_year value
        | FtLocalMktDate \<Rightarrow> date_ok value
        | FtUtcDateOnly \<Rightarrow> date_ok value
        | FtUtcTimeOnly \<Rightarrow> time_ok value
        | FtUtcTimestamp \<Rightarrow> utc_timestamp value
        | FtLanguage \<Rightarrow> length value = 2 \<and> list_all is_ascii_alphabetic value
        | FtTagNum \<Rightarrow> unsigned_int value \<and> nth_opt value 0 \<noteq> Some ZERO
        | FtMultipleCharValue \<Rightarrow> list_all (\<lambda>t. length t = 1) (split_on 32 value)
        | FtLocalMktTime \<Rightarrow> length value = 8 \<and> time_ok value
        | FtTzTimeOnly \<Rightarrow> (let head = strip_zone value in if length head = 8 then time_ok head else hour_minute head)
        | FtTzTimestamp \<Rightarrow> utc_timestamp (strip_zone value))"

subsection \<open>The float types and \<open>as_decimal\<close>\<close>

lemma float_split_iff:
  "(\<exists>ds fs. float_split v = Some (ds, fs) \<and> ds @ fs \<noteq> []) \<longleftrightarrow>
   (let whole = takeWhile (\<lambda>c. c \<noteq> 46) v;
        tail = (case dropWhile (\<lambda>c. c \<noteq> 46) v of [] \<Rightarrow> None | _ # t \<Rightarrow> Some t) in
    \<not> (whole = [] \<and> (case tail of None \<Rightarrow> True | Some t \<Rightarrow> t = [])) \<and>
    list_all is_ascii_digit whole \<and> (case tail of None \<Rightarrow> True | Some t \<Rightarrow> list_all is_ascii_digit t))"
proof (cases "list_all is_ascii_digit (takeWhile (\<lambda>c. c \<noteq> 46) v)")
  case True
  have dot: "\<not> is_ascii_digit 46" by (simp add: is_ascii_digit_def word_le_nat_alt)
  have split: "v = takeWhile (\<lambda>c. c \<noteq> 46) v @ dropWhile (\<lambda>c. c \<noteq> 46) v" by simp
  have "takeWhile is_ascii_digit v = takeWhile (\<lambda>c. c \<noteq> 46) v \<and> dropWhile is_ascii_digit v = dropWhile (\<lambda>c. c \<noteq> 46) v"
  proof (cases "dropWhile (\<lambda>c. c \<noteq> 46) v")
    case Nil
    then have v: "takeWhile (\<lambda>c. c \<noteq> 46) v = v" using split by simp
    then have "\<forall>c \<in> set v. is_ascii_digit c" using True unfolding v by (simp only: list_all_iff)
    then have d: "takeWhile is_ascii_digit v = v" "dropWhile is_ascii_digit v = []" by simp_all
    show ?thesis by (simp only: v Nil d)
  next
    case (Cons x t)
    then have "x = 46" by (metis (mono_tags) hd_dropWhile list.sel(1) list.distinct(1))
    obtain w where w: "w = takeWhile (\<lambda>c. c \<noteq> 46) v" by simp
    then have v: "v = w @ x # t" using split Cons by simp
    have d: "\<forall>c \<in> set w. is_ascii_digit c" using True w by (simp add: list_all_iff)
    then have "takeWhile is_ascii_digit v = w" "dropWhile is_ascii_digit v = x # t"
      using dot \<open>x = 46\<close> unfolding v by (simp_all add: takeWhile_append2 dropWhile_append2)
    then show ?thesis using w Cons by simp
  qed
  moreover have "x = 46" if "dropWhile (\<lambda>c. c \<noteq> 46) v = x # t" for x t
    using that by (metis (mono_tags) hd_dropWhile list.sel(1) list.distinct(1))
  ultimately have eqs: "takeWhile is_ascii_digit v = takeWhile (\<lambda>c. c \<noteq> 46) v"
      "dropWhile is_ascii_digit v = dropWhile (\<lambda>c. c \<noteq> 46) v"
    and pt: "\<And>x t. dropWhile (\<lambda>c. c \<noteq> 46) v = x # t \<Longrightarrow> x = 46" by blast+
  obtain w r where wr: "takeWhile (\<lambda>c. c \<noteq> 46) v = w" "dropWhile (\<lambda>c. c \<noteq> 46) v = r" by simp
  show ?thesis
    using True pt unfolding float_split_def eqs wr
    by (cases r) (auto simp: Let_def all_digits_def list_all_iff)
next
  case False
  then have "\<exists>c \<in> set (takeWhile (\<lambda>c. c \<noteq> 46) v). \<not> is_ascii_digit c" by (auto simp: list_all_iff)
  then have "float_split v = None"
  proof (induction v)
    case (Cons c cs)
    have step: "float_split (c # cs) = None" if "is_ascii_digit c" "float_split cs = None"
      using that by (cases "dropWhile is_ascii_digit cs") (auto simp: float_split_def split: if_splits)
    have stop: "float_split (c # cs) = None" if "\<not> is_ascii_digit c" "c \<noteq> 46"
      using that by (simp add: float_split_def)
    show ?case using Cons step stop by (auto split: if_splits)
  qed simp
  then show ?thesis using False by (simp add: Let_def)
qed

lemma signed_number_iff:
  "signed_number v \<longleftrightarrow> (\<exists>ds fs. float_split (strip_minus v) = Some (ds, fs) \<and> ds @ fs \<noteq> [])"
  unfolding float_split_iff by (auto simp: signed_number_def Let_def)

lemma strip_minus_eq: "strip_minus v = (if v \<noteq> [] \<and> hd v = 45 then tl v else v)"
  by (cases v) (auto simp: strip_minus_def)

lemma float_value_NotANumber:
  "float_value v = Inl NotANumber \<longleftrightarrow> \<not> (\<exists>ds fs. float_split (strip_minus v) = Some (ds, fs) \<and> ds @ fs \<noteq> [])"
  by (auto simp: float_value_def strip_minus_eq Let_def split: option.splits)

subsection \<open>\<open>UTCTimestamp\<close> and \<open>parse_utc\<close>\<close>

lemma num2_Some:
  assumes "num s at 2 = Some n"
  shows "at + 2 \<le> length s" "is_ascii_digit (s ! at)" "is_ascii_digit (s ! (at + 1))" "n = pair_value s at"
proof -
  have l: "at + 2 \<le> length s" using assms by (auto simp: num_def get_range_def split: if_splits)
  then have "take 2 (drop at s) = [s ! at, s ! (at + 1)]"
    by (simp add: take_Suc_conv_app_nth numeral_2_eq_2)
  then show "at + 2 \<le> length s" "is_ascii_digit (s ! at)" "is_ascii_digit (s ! (at + 1))" "n = pair_value s at"
    using assms l by (auto simp: num_def get_range_def pair_value_def split: if_splits)
qed

lemma num_digits: "num s at w = Some n \<Longrightarrow> list_all is_ascii_digit (take w (drop at s))"
proof -
  have "num_loop k ds = Some n \<Longrightarrow> list_all is_ascii_digit ds" for k ds
    by (induction k ds rule: num_loop.induct) (auto split: if_splits)
  then show "num s at w = Some n \<Longrightarrow> ?thesis" by (auto simp: num_def get_range_def split: if_splits option.splits)
qed

lemma parse_milli_Some:
  assumes "parse_milli s = Some m"
  shows "length s = 17 \<or> (19 \<le> length s \<and> length s \<le> 30 \<and> s ! 17 = 46 \<and> list_all is_ascii_digit (drop 18 s))"
proof (cases "length s = 21")
  case True
  then have "length (drop 17 s) = Suc (Suc (Suc (Suc 0)))" by simp
  then obtain c h t u where d: "drop 17 s = [c, h, t, u]"
    by (simp only: length_Suc_conv length_0_conv) blast
  then have "s ! 17 = c" "drop 18 s = [h, t, u]"
    using True nth_drop [of 17 s 0] drop_drop [of 1 17 s] by simp_all
  then show ?thesis using assms True d by (auto simp: parse_milli_def get_range_def Let_def split: if_splits)
next
  case False
  then show ?thesis
    using assms by (auto simp: parse_milli_def get_from_def nth_opt_def Let_def split: if_splits)
qed

lemma accepts_number: "v = [] \<Longrightarrow> \<not> signed_number v"
  by (simp add: signed_number_def strip_minus_def)

lemma parse_utc_Some:
  assumes "parse_utc s = Some t"
  obtains m y mo d h mi sec where "parse_milli s = Some m" "nth_opt s 8 = Some 45" "nth_opt s 11 = Some 58" "nth_opt s 14 = Some 58"
    "num s 0 4 = Some y" "num s 4 2 = Some mo" "num s 6 2 = Some d" "num s 9 2 = Some h" "num s 12 2 = Some mi" "num s 15 2 = Some sec"
    "1 \<le> mo" "mo \<le> 12" "1 \<le> d" "d \<le> 31" "h \<le> 23" "mi \<le> 59" "sec \<le> 60"
proof -
  have dim: "days_in_month y m \<le> 31" for y m by (simp add: days_in_month_def)
  obtain m where m: "parse_milli s = Some m" using assms by (cases "parse_milli s") (simp_all add: parse_utc_def)
  have seps: "nth_opt s 8 = Some 45" "nth_opt s 11 = Some 58" "nth_opt s 14 = Some 58"
    using assms by (auto simp: parse_utc_def m simp del: num_def split: if_splits)
  note p = assms [unfolded parse_utc_def m seps]
  obtain y where y: "num s 0 4 = Some y" using p by (cases "num s 0 4") simp_all
  obtain mo where mo: "num s 4 2 = Some mo" using p by (cases "num s 4 2") (simp_all add: y)
  obtain d where d: "num s 6 2 = Some d" using p by (cases "num s 6 2") (simp_all add: y mo)
  obtain h where h: "num s 9 2 = Some h" using p by (cases "num s 9 2") (simp_all add: y mo d)
  obtain mi where mi: "num s 12 2 = Some mi" using p by (cases "num s 12 2") (simp_all add: y mo d h)
  obtain sec where sec: "num s 15 2 = Some sec" using p by (cases "num s 15 2") (simp_all add: y mo d h mi)
  have "1 \<le> mo \<and> mo \<le> 12 \<and> 1 \<le> d \<and> d \<le> days_in_month y mo" "h \<le> 23 \<and> mi \<le> 59 \<and> sec \<le> 60"
    using p by (auto simp: y mo d h mi sec split: if_splits)
  with dim [of y mo] show ?thesis
    by (intro that [OF m seps y mo d h mi sec]) linarith+
qed

subsection \<open>Properties\<close>

text \<open>The float types accept exactly the texts that read as a number. A value passes the format
  check of a price iff the decimal reader does not call it \<open>NotANumber\<close>: what the dictionary lets
  through can be read (or is out of the 64-bit range), and what reads is let through.\<close>

theorem float_format_is_readable:
  assumes "length v \<le> U32_MAX"
  shows "accepts FtPrice v \<longleftrightarrow> as_decimal v \<noteq> Inl NotANumber"
proof -
  have "accepts FtPrice v \<longleftrightarrow> signed_number v"
    using accepts_number [of v] by (cases "v = []") (simp_all add: accepts_def)
  also have "\<dots> \<longleftrightarrow> float_value v \<noteq> Inl NotANumber"
    unfolding signed_number_iff float_value_NotANumber by blast
  finally show ?thesis unfolding as_decimal_eq [OF assms] .
qed

theorem float_format_is_readable_witness:
  "accepts FtPrice (b ''-12.50'') \<longleftrightarrow> as_decimal (b ''-12.50'') \<noteq> Inl NotANumber"
  by (rule float_format_is_readable) (simp add: b_def)

text \<open>Every timestamp the session's clock reads passes the dictionary's format check. If
  \<open>parse_utc\<close> returns an instant for a text then the text is a well-formed \<open>UTCTimestamp\<close>, so a
  sending time the session can judge is never refused for its format.\<close>

theorem read_time_is_well_formed:
  assumes "parse_utc v = Some t"
  shows "accepts FtUtcTimestamp v"
proof -
  obtain m y mo d h mi sec where a: "parse_milli v = Some m" "nth_opt v 8 = Some 45" "nth_opt v 11 = Some 58" "nth_opt v 14 = Some 58"
    "num v 0 4 = Some y" "num v 4 2 = Some mo" "num v 6 2 = Some d" "num v 9 2 = Some h" "num v 12 2 = Some mi" "num v 15 2 = Some sec"
    "1 \<le> mo" "mo \<le> 12" "1 \<le> d" "d \<le> 31" "h \<le> 23" "mi \<le> 59" "sec \<le> 60"
    using assms by (rule parse_utc_Some)
  note milli = parse_milli_Some [OF a(1)]
  then have len: "17 \<le> length v" "length v \<noteq> 18" "length v \<le> 30" by auto
  have at: "v ! 8 = 45" "v ! 11 = 58" "v ! 14 = 58"
    using a(2-4) len by (simp_all add: nth_opt_def)
  have v8: "drop 8 v = 45 # drop 9 v"
    using at(1) len Cons_nth_drop_Suc [of 8 v] by simp
  have split: "take 8 v = take 4 v @ take 2 (drop 4 v) @ take 2 (drop 6 v)"
    using take_add [of 4 4 v] take_add [of 2 2 "drop 4 v"] by simp
  have "list_all is_ascii_digit (take 8 v)"
    using num_digits [OF a(5)] num_digits [OF a(6)] num_digits [OF a(7)] unfolding split by simp
  moreover have "pair_value (take 8 v) 4 = mo" "pair_value (take 8 v) 6 = d"
    using num2_Some(4) [OF a(6)] num2_Some(4) [OF a(7)] by (simp_all add: pair_value_def)
  ultimately have date: "date_ok (take 8 v)" using a(11-14) len by (simp add: date_ok_def)
  obtain w where w: "w = drop 9 v" by simp
  have nths: "w ! i = v ! (9 + i)" for i using len by (simp add: w)
  have pairs: "pair_value w 0 = h" "pair_value w 3 = mi" "pair_value w 6 = sec"
    using num2_Some(4) [OF a(8)] num2_Some(4) [OF a(9)] num2_Some(4) [OF a(10)] by (simp_all add: pair_value_def nths)
  have digs: "list_all is_ascii_digit (take 2 w)" "list_all is_ascii_digit (take 2 (drop 3 w))"
    "list_all is_ascii_digit (take 2 (drop 6 w))"
    using num_digits [OF a(8)] num_digits [OF a(9)] num_digits [OF a(10)] by (simp_all add: w)
  have frac: "length w = 8 \<or> (w ! 8 = 46 \<and> list_all is_ascii_digit (drop 9 w))"
    using milli by (auto simp: w)
  have "length w = 8 \<or> (10 \<le> length w \<and> length w \<le> 21)" using len by (auto simp: w)
  then have time: "time_ok w"
    using pairs digs frac at a(15-17) by (simp add: time_ok_def nths)
  have "v \<noteq> []" using len by auto
  then show ?thesis using len v8 date time by (simp add: accepts_def utc_timestamp_def w)
qed

theorem read_time_is_well_formed_witness: "accepts FtUtcTimestamp (b ''20161231-23:59:60'')"
proof -
  have t: "b ''20161231-23:59:60'' = date_time 2016 12 31 23 59 60 @ []"
    by (simp add: b_def date_time_def four_digits_def two_digits_def digit_byte_def)
  have "parse_milli (date_time 2016 12 31 23 59 60 @ []) = Some 0" by (simp add: parse_milli_def)
  then have "parse_utc (date_time 2016 12 31 23 59 60 @ []) \<noteq> None" unfolding parse_utc_def
    by (simp add: date_time_fields days_in_month_def days_from_civil_def trunc_div_def del: append_Nil2)
  then show ?thesis unfolding t by (auto intro: read_time_is_well_formed)
qed

end
