(* ===== verification/Group.thy ===== *)
theory Group
  imports Template_Correct
begin

text \<open>
  \<open>crates/codec/src/group.rs\<close>: repeating groups, read off the flat field index. A group is a
  window of positions; a scan steps over nested regions. The two scans of the source call each
  other with \<open>depth + 1\<close>, bounded by \<open>MAX_DEPTH\<close>: the model recurses on the levels that remain
  and keeps the loops as \<open>while\<close>, whose termination is the subject of the first lemmas.
\<close>

subsection \<open>The scans\<close>

definition tag_at :: "field_entry list \<Rightarrow> nat \<Rightarrow> nat option" where
  "tag_at es i = map_option fe_tag (nth_opt es i)"

text \<open>\<open>region_end\<close>, over the entry scan of its level.\<close>

definition region_with :: "(nat \<Rightarrow> nat) \<Rightarrow> field_entry list \<Rightarrow> nat \<Rightarrow> nat \<Rightarrow> nat \<Rightarrow> nat \<times> nat" where
  "region_with entry es delimiter from limit =
     while (\<lambda>(i, counted). i < limit \<and> tag_at es i = Some delimiter)
       (\<lambda>(i, counted). (entry i, min (counted + 1) U16_MAX)) (from, 0)"

text \<open>The loop of \<open>entry_end\<close>: \<open>skip tag i\<close> is where the scan continues after the member
  \<open>tag\<close> in front of position \<open>i\<close>.\<close>

definition member_at :: "field_entry list \<Rightarrow> nat \<Rightarrow> nat list \<Rightarrow> nat \<Rightarrow> nat option" where
  "member_at es delimiter members i =
     (case tag_at es i of Some tag \<Rightarrow> if tag = delimiter \<or> tag \<notin> set members then None else Some tag | None \<Rightarrow> None)"

definition entry_scan ::
  "(nat \<Rightarrow> nat \<Rightarrow> nat) \<Rightarrow> field_entry list \<Rightarrow> nat \<Rightarrow> nat list \<Rightarrow> nat \<Rightarrow> nat \<Rightarrow> nat" where
  "entry_scan skip es delimiter members from limit =
     while (\<lambda>i. i < limit \<and> member_at es delimiter members i \<noteq> None)
       (\<lambda>i. skip (the (member_at es delimiter members i)) (i + 1)) (from + 1)"

primrec entry_end ::
  "nat \<Rightarrow> ('z) dictionary_scheme \<Rightarrow> field_entry list \<Rightarrow> bytes \<Rightarrow> nat \<Rightarrow> nat \<Rightarrow> nat list \<Rightarrow> nat \<Rightarrow> nat" where
  "entry_end 0 D es mt limit delimiter members from = entry_scan (\<lambda>_ i. i) es delimiter members from limit"
| "entry_end (Suc left) D es mt limit delimiter members from =
     entry_scan (\<lambda>tag i. case group_delimiter D mt tag of
         Some d \<Rightarrow> fst (region_with (entry_end left D es mt limit d (group_members D mt tag)) es d i limit)
       | None \<Rightarrow> i) es delimiter members from limit"

definition region_end ::
  "nat \<Rightarrow> ('z) dictionary_scheme \<Rightarrow> field_entry list \<Rightarrow> bytes \<Rightarrow> nat \<Rightarrow> nat \<Rightarrow> nat list \<Rightarrow> nat \<Rightarrow> nat \<times> nat" where
  "region_end left D es mt limit delimiter members from =
     region_with (entry_end left D es mt limit delimiter members) es delimiter from limit"

subsection \<open>Opening and iterating\<close>

record group_iter =
  gi_view :: message_view
  gi_msg_type :: bytes
  gi_delimiter :: nat
  gi_members :: "nat list"
  gi_declared :: "nat option"
  gi_counted :: nat
  gi_end :: nat
  gi_pos :: nat

record group_entry =
  ge_view :: message_view
  ge_start :: nat
  ge_end :: nat

definition advance :: "('z) dictionary_scheme \<Rightarrow> group_iter \<Rightarrow> group_entry option \<times> group_iter" where
  "advance D it =
     (let es = mv_entries (gi_view it); from = gi_pos it; limit = gi_end it in
      if from \<ge> limit \<or> tag_at es from \<noteq> Some (gi_delimiter it) then (None, it)
      else let e = entry_end MAX_DEPTH D es (gi_msg_type it) limit (gi_delimiter it) (gi_members it) from in
        (Some \<lparr>ge_view = gi_view it, ge_start = wrap16 from, ge_end = wrap16 e\<rparr>, it\<lparr>gi_pos := wrap16 e\<rparr>))"

definition ge_get :: "group_entry \<Rightarrow> nat \<Rightarrow> bytes option" where
  "ge_get e tag =
     map_option snd (List.find (\<lambda>(t, _). t = tag) (List.map_filter (field_at (ge_view e)) [ge_start e..<ge_end e]))"

text \<open>The search for the counter: a region met on the way is stepped over at the top level.\<close>

definition open_search ::
  "('z) dictionary_scheme \<Rightarrow> field_entry list \<Rightarrow> bytes \<Rightarrow> nat \<Rightarrow> nat \<Rightarrow> nat \<Rightarrow> bool \<Rightarrow> nat" where
  "open_search D es mt counter from limit top_level =
     while (\<lambda>i. i < limit \<and> tag_at es i \<noteq> None \<and> tag_at es i \<noteq> Some counter)
       (\<lambda>i. let tag = the (tag_at es i) in
          if top_level then
            (case group_delimiter D mt tag of
               Some d \<Rightarrow> fst (region_end (MAX_DEPTH - 1) D es mt limit d (group_members D mt tag) (i + 1))
             | None \<Rightarrow> i + 1)
          else i + 1) from"

definition group_open ::
  "('z) dictionary_scheme \<Rightarrow> message_view \<Rightarrow> bytes \<Rightarrow> nat \<Rightarrow> nat \<Rightarrow> nat \<Rightarrow> bool \<Rightarrow> group_iter option" where
  "group_open D view mt counter from limit top_level =
     (let es = mv_entries view in
      case group_delimiter D mt counter of
        None \<Rightarrow> None
      | Some delimiter \<Rightarrow>
          let members = group_members D mt counter;
              at = open_search D es mt counter from limit top_level in
          if at \<ge> limit \<or> tag_at es at = None then None
          else let declared = (case field_at view at of
                     Some (_, v) \<Rightarrow> (case as_u32 v of Inr n \<Rightarrow> Some n | Inl _ \<Rightarrow> None) | None \<Rightarrow> None);
                   start = at + 1;
                   (e, counted) = region_end MAX_DEPTH D es mt limit delimiter members start in
            Some \<lparr>gi_view = view, gi_msg_type = mt, gi_delimiter = delimiter, gi_members = members,
                  gi_declared = declared, gi_counted = counted, gi_end = wrap16 e, gi_pos = wrap16 start\<rparr>)"

definition mv_group :: "('z) dictionary_scheme \<Rightarrow> message_view \<Rightarrow> bytes \<Rightarrow> nat \<Rightarrow> group_iter option" where
  "mv_group D view mt counter = group_open D view mt counter 0 (mv_len view) True"

definition ge_group :: "('z) dictionary_scheme \<Rightarrow> group_entry \<Rightarrow> bytes \<Rightarrow> nat \<Rightarrow> group_iter option" where
  "ge_group D e mt counter = group_open D (ge_view e) mt counter (ge_start e) (ge_end e) False"

text \<open>\<open>for entry in iter\<close>: at most \<open>n\<close> calls of \<open>next\<close>, stopping at the first \<open>None\<close>.\<close>

primrec gi_collect :: "nat \<Rightarrow> ('z) dictionary_scheme \<Rightarrow> group_iter \<Rightarrow> group_entry list" where
  "gi_collect 0 D it = []"
| "gi_collect (Suc n) D it =
     (case advance D it of (Some e, it') \<Rightarrow> e # gi_collect n D it' | (None, _) \<Rightarrow> [])"

subsection \<open>Termination and bounds of the scans\<close>

text \<open>A loop over positions that only moves forward and stays below its limit ends.\<close>

lemma while_forward:
  fixes "from" limit :: nat
  assumes "\<And>i. I i \<Longrightarrow> c i \<Longrightarrow> i < limit \<and> i < f i \<and> I (f i)" "I from"
  shows "I (while c f from) \<and> from \<le> while c f from \<and> \<not> c (while c f from)"
proof -
  have "I (while c f from) \<and> from \<le> while c f from \<and> \<not> c (while c f from)"
  proof (rule while_rule [where P = "\<lambda>i. I i \<and> from \<le> i" and r = "measure (\<lambda>i. limit - i)"])
    fix s assume "I s \<and> from \<le> s" "c s"
    then show "I (f s) \<and> from \<le> f s" "(f s, s) \<in> measure (\<lambda>i. limit - i)"
      using assms(1) [of s] by (auto intro: le_trans)
  qed (use assms(2) in auto)
  then show ?thesis .
qed


text \<open>A region scan whose entry scan moves forward inside the limit: where it stops, and that the
  count is the number of entry scans made.\<close>

inductive entries_run :: "(nat \<Rightarrow> nat) \<Rightarrow> field_entry list \<Rightarrow> nat \<Rightarrow> nat \<Rightarrow> nat \<Rightarrow> nat list \<Rightarrow> nat \<Rightarrow> bool"
  for entry es delimiter limit where
  run_end: "\<not> (i < limit \<and> tag_at es i = Some delimiter) \<Longrightarrow> entries_run entry es delimiter limit i [] i"
| run_step: "i < limit \<Longrightarrow> tag_at es i = Some delimiter \<Longrightarrow> entries_run entry es delimiter limit (entry i) is k \<Longrightarrow>
    entries_run entry es delimiter limit i (i # is) k"

inductive_cases entries_run_Nil: "entries_run entry es delimiter limit i [] k"
inductive_cases entries_run_Cons: "entries_run entry es delimiter limit i (j # js) k"

lemma entries_run_exists:
  assumes "\<And>i. i < limit \<Longrightarrow> i < entry i \<and> entry i \<le> limit"
  shows "\<exists>is k. entries_run entry es delimiter limit i is k"
proof (induction "limit - i" arbitrary: i rule: less_induct)
  case less
  show ?case
  proof (cases "i < limit \<and> tag_at es i = Some delimiter")
    case True
    with assms [of i] less [of "entry i"] show ?thesis by (meson diff_less_mono2 run_step)
  qed (blast intro: run_end)
qed

lemma region_with_run:
  fixes m :: nat
  assumes "entries_run entry es delimiter limit i is k"
  shows "while (\<lambda>(i, counted). i < limit \<and> tag_at es i = Some delimiter)
       (\<lambda>(i, counted). (entry i, min (counted + 1) m)) (i, min n m) = (k, min (n + length is) m)"
  using assms
proof (induction arbitrary: n rule: entries_run.induct)
  case (run_end i)
  then show ?case by (subst while_unfold) auto
next
  case (run_step i "is" k)
  have "min (min n m + 1) m = min (Suc n) m" by simp
  with run_step show ?case by (subst while_unfold) simp
qed

lemma region_with_eq:
  "entries_run entry es delimiter limit from is k \<Longrightarrow> region_with entry es delimiter from limit = (k, min (length is) U16_MAX)"
  using region_with_run [of entry es delimiter limit "from" "is" k U16_MAX 0] by (simp add: region_with_def)

lemma entries_run_bounds:
  assumes "entries_run entry es delimiter limit i is k"
    and "\<And>i. i < limit \<Longrightarrow> i < entry i \<and> entry i \<le> limit"
  shows "i \<le> k \<and> (i \<le> limit \<longrightarrow> k \<le> limit)"
  using assms(1)
proof induction
  case (run_step i "is" k)
  with assms(2) [of i] show ?case by auto
qed simp

lemma region_with_bounds:
  assumes "\<And>i. i < limit \<Longrightarrow> i < entry i \<and> entry i \<le> limit"
  shows "from \<le> fst (region_with entry es delimiter from limit) \<and>
    (from \<le> limit \<longrightarrow> fst (region_with entry es delimiter from limit) \<le> limit)"
proof -
  obtain "is" k where r: "entries_run entry es delimiter limit from is k"
    using entries_run_exists [of limit entry es delimiter "from"] assms by blast
  show ?thesis using entries_run_bounds [OF r assms] region_with_eq [OF r] by simp
qed

lemma entry_scan_bounds:
  assumes "\<And>tag i. i \<le> limit \<Longrightarrow> i \<le> skip tag i \<and> skip tag i \<le> limit" "from < limit"
  shows "from < entry_scan skip es delimiter members from limit \<and>
    entry_scan skip es delimiter members from limit \<le> limit \<and>
    (entry_scan skip es delimiter members from limit < limit \<longrightarrow>
      member_at es delimiter members (entry_scan skip es delimiter members from limit) = None)"
proof -
  let ?c = "\<lambda>i. i < limit \<and> member_at es delimiter members i \<noteq> None"
  let ?f = "\<lambda>i. skip (the (member_at es delimiter members i)) (i + 1)"
  have "?f i \<le> limit \<and> i < ?f i" if "?c i" for i
    using assms(1) [of "i + 1" "the (member_at es delimiter members i)"] that by auto
  then have "while ?c ?f (from + 1) \<le> limit \<and> from + 1 \<le> while ?c ?f (from + 1) \<and> \<not> ?c (while ?c ?f (from + 1))"
    using while_forward [of "\<lambda>i. i \<le> limit" ?c limit ?f "from + 1"] assms(2) by auto
  then show ?thesis by (auto simp: entry_scan_def)
qed

lemma entry_end_bounds:
  "from < limit \<Longrightarrow> from < entry_end left D es mt limit delimiter members from \<and>
     entry_end left D es mt limit delimiter members from \<le> limit \<and>
     (entry_end left D es mt limit delimiter members from < limit \<longrightarrow>
       member_at es delimiter members (entry_end left D es mt limit delimiter members from) = None)"
proof (induction left arbitrary: "from" delimiter members)
  case 0
  then show ?case unfolding entry_end.simps by (intro entry_scan_bounds) auto
next
  case (Suc left)
  then have "i \<le> fst (region_with (entry_end left D es mt limit d m) es d i limit) \<and>
      fst (region_with (entry_end left D es mt limit d m) es d i limit) \<le> limit" if "i \<le> limit" for i d m
    using region_with_bounds [of limit "entry_end left D es mt limit d m" i es d] that by blast
  then show ?case unfolding entry_end.simps
    by (intro entry_scan_bounds) (auto split: option.split simp: Suc.prems)
qed

lemma region_end_run:
  "\<exists>is k. entries_run (entry_end left D es mt limit delimiter members) es delimiter limit from is k \<and>
    region_end left D es mt limit delimiter members from = (k, min (length is) U16_MAX)"
  using entries_run_exists [of limit "entry_end left D es mt limit delimiter members" es delimiter "from"]
    entry_end_bounds [of _ limit left D es mt delimiter members] region_with_eq
  unfolding region_end_def by metis

lemma region_end_bounds:
  "from \<le> fst (region_end left D es mt limit delimiter members from) \<and>
    (from \<le> limit \<longrightarrow> fst (region_end left D es mt limit delimiter members from) \<le> limit)"
  unfolding region_end_def by (rule region_with_bounds) (use entry_end_bounds in blast)

subsection \<open>A scan that ends below a smaller limit is the scan with that limit\<close>

lemma while_agree:
  fixes i limit limit' :: nat
  assumes fwd: "\<And>i. c i \<Longrightarrow> i < limit \<and> i < f i"
    and c': "\<And>i. i < limit' \<Longrightarrow> c' i = c i" "\<And>i. limit' \<le> i \<Longrightarrow> \<not> c' i"
    and f': "\<And>i. c i \<Longrightarrow> f i \<le> limit' \<Longrightarrow> f' i = f i"
  shows "while c f i \<le> limit' \<Longrightarrow> while c' f' i = while c f i"
proof (induction "limit - i" arbitrary: i rule: less_induct)
  case less
  show ?case
  proof (cases "c i")
    case True
    then have w: "while c f i = while c f (f i)" by (subst while_unfold) simp
    have "f i \<le> while c f (f i)" using while_forward [of "\<lambda>_. True" c limit f "f i"] fwd by blast
    then have "f i \<le> limit'" using less.prems w by simp
    then have "c' i" "f' i = f i" using c'(1) [of i] f' [OF True] fwd [OF True] True by auto
    then have "while c' f' i = while c' f' (f i)" by (subst while_unfold) simp
    with less w True fwd [of i] show ?thesis by (simp add: diff_less_mono2)
  next
    case False
    then have w: "while c f i = i" by (subst while_unfold) simp
    have "\<not> c' i" using c' [of i] False by (cases "i < limit'") auto
    then show ?thesis unfolding w by (subst while_unfold) simp
  qed
qed

lemma entries_run_limit:
  assumes "entries_run entry es delimiter limit i is k" "k \<le> limit'" "limit' \<le> limit"
    and "\<And>i. i < limit \<Longrightarrow> i < entry i \<and> entry i \<le> limit"
    and "\<And>i. i < limit' \<Longrightarrow> entry i \<le> limit' \<Longrightarrow> entry' i = entry i"
  shows "entries_run entry' es delimiter limit' i is k"
  using assms(1,2)
proof induction
  case (run_end i)
  then show ?case using assms(3) by (intro entries_run.run_end) auto
next
  case (run_step i "is" k)
  have "entry i \<le> k" using entries_run_bounds [OF run_step.hyps(3) assms(4)] by simp
  moreover from this have "entry i \<le> limit'" "i < limit'" using assms(4) [OF run_step.hyps(1)] run_step.prems by auto
  ultimately show ?case using run_step assms(5) [of i] by (intro entries_run.run_step) auto
qed

lemma entry_scan_limit:
  assumes "\<And>tag i. i \<le> limit \<Longrightarrow> i \<le> skip tag i \<and> skip tag i \<le> limit"
    and "\<And>tag i. i \<le> limit' \<Longrightarrow> skip tag i \<le> limit' \<Longrightarrow> skip' tag i = skip tag i"
    and "limit' \<le> limit" "entry_scan skip es delimiter members from limit \<le> limit'"
  shows "entry_scan skip' es delimiter members from limit' = entry_scan skip es delimiter members from limit"
  unfolding entry_scan_def
proof (rule while_agree [where limit = limit])
  fix i
  assume c: "i < limit \<and> member_at es delimiter members i \<noteq> None"
  then show "i < limit \<and> i < skip (the (member_at es delimiter members i)) (i + 1)"
    using assms(1) [of "i + 1" "the (member_at es delimiter members i)"] by auto
  assume "skip (the (member_at es delimiter members i)) (i + 1) \<le> limit'"
  moreover from this have "i + 1 \<le> limit'" using assms(1) [of "i + 1" "the (member_at es delimiter members i)"] c by auto
  ultimately show "skip' (the (member_at es delimiter members i)) (i + 1) = skip (the (member_at es delimiter members i)) (i + 1)"
    using assms(2) by blast
qed (use assms(3,4) in \<open>auto simp: entry_scan_def\<close>)

lemma entry_end_limit:
  assumes "limit' \<le> limit"
  shows "entry_end left D es mt limit delimiter members from \<le> limit' \<Longrightarrow>
    entry_end left D es mt limit' delimiter members from = entry_end left D es mt limit delimiter members from"
proof (induction left arbitrary: "from" delimiter members)
  case 0
  then show ?case unfolding entry_end.simps by (intro entry_scan_limit [OF _ _ assms]) auto
next
  case (Suc left)
  let ?r = "\<lambda>l d m i. fst (region_with (entry_end left D es mt l d m) es d i l)"
  have b: "i < limit \<Longrightarrow> i < entry_end left D es mt limit d m i \<and> entry_end left D es mt limit d m i \<le> limit" for i d m
    using entry_end_bounds by blast
  have "?r limit' d m i = ?r limit d m i" if le: "?r limit d m i \<le> limit'" for d m i
  proof -
    obtain "is" k where r: "entries_run (entry_end left D es mt limit d m) es d limit i is k"
      using entries_run_exists [of limit "entry_end left D es mt limit d m" es d i] b by blast
    have "entries_run (entry_end left D es mt limit' d m) es d limit' i is k"
      by (rule entries_run_limit [OF r _ assms]) (use b Suc.IH le region_with_eq [OF r] in auto)
    from region_with_eq [OF this] region_with_eq [OF r] show ?thesis by simp
  qed
  moreover have "i \<le> ?r limit d m i \<and> ?r limit d m i \<le> limit" if "i \<le> limit" for d m i
    using region_with_bounds [of limit "entry_end left D es mt limit d m" i es d] b that by blast
  ultimately show ?case using Suc.prems unfolding entry_end.simps
    by (intro entry_scan_limit [OF _ _ assms]) (auto split: option.split)
qed

subsection \<open>The iterator\<close>

fun tiles :: "nat \<Rightarrow> (nat \<times> nat) list \<Rightarrow> nat \<Rightarrow> bool" where
  "tiles p [] z \<longleftrightarrow> p = z"
| "tiles p ((s, e) # ws) z \<longleftrightarrow> s = p \<and> s < e \<and> tiles e ws z"

definition window_of :: "group_entry \<Rightarrow> nat \<times> nat" where
  "window_of e = (ge_start e, ge_end e)"

lemma window_of_simp [simp]: "window_of \<lparr>ge_view = v, ge_start = s, ge_end = e\<rparr> = (s, e)"
  by (simp add: window_of_def)

lemma tiles_le: "tiles p ws z \<Longrightarrow> p + length ws \<le> z"
  by (induction p ws z rule: tiles.induct) auto

lemma tiles_length: "tiles p ws z \<Longrightarrow> length ws \<le> z"
  using tiles_le by (meson add_leD2)

lemma gi_collect_run:
  assumes "entries_run (entry_end MAX_DEPTH D es mt limit dl members) es dl limit i is k"
    and "k \<le> limit" "limit \<le> U16_MAX" "length is < n"
    and "it = \<lparr>gi_view = view, gi_msg_type = mt, gi_delimiter = dl, gi_members = members,
                  gi_declared = dc, gi_counted = ct, gi_end = k, gi_pos = i\<rparr>" "es = mv_entries view"
  shows "tiles i (map window_of (gi_collect n D it)) k \<and> map ge_start (gi_collect n D it) = is \<and>
    list_all (\<lambda>e. tag_at es (ge_start e) = Some dl \<and> ge_view e = view) (gi_collect n D it)"
  using assms
proof (induction arbitrary: n it rule: entries_run.induct)
  case (run_end i)
  then obtain m where "n = Suc m" by (cases n) auto
  then show ?case using run_end by (simp add: advance_def Let_def)
next
  case (run_step i "is" k)
  then obtain m where n: "n = Suc m" "length is < m" by (cases n) auto
  let ?e = "entry_end MAX_DEPTH D es mt limit dl members i"
  have b: "i < ?e" "?e \<le> limit" using entry_end_bounds run_step.hyps(1) by blast+
  have ek: "?e \<le> k" using entries_run_bounds [OF run_step.hyps(3)] entry_end_bounds by blast
  have eq: "entry_end MAX_DEPTH D es mt k dl members i = ?e"
    by (rule entry_end_limit [OF run_step.prems(1) ek])
  have w: "wrap16 i = i" "wrap16 ?e = ?e" using b run_step.prems(2) by (simp_all add: wrap16_def)
  have adv: "advance D it = (Some \<lparr>ge_view = view, ge_start = i, ge_end = ?e\<rparr>, it\<lparr>gi_pos := ?e\<rparr>)"
    using run_step.hyps(1,2) b ek eq w
    by (simp add: advance_def run_step.prems(4) run_step.prems(5) [symmetric] Let_def)
  have ih: "tiles ?e (map window_of (gi_collect m D (it\<lparr>gi_pos := ?e\<rparr>))) k \<and>
      map ge_start (gi_collect m D (it\<lparr>gi_pos := ?e\<rparr>)) = is \<and>
      list_all (\<lambda>e. tag_at es (ge_start e) = Some dl \<and> ge_view e = view) (gi_collect m D (it\<lparr>gi_pos := ?e\<rparr>))"
    by (rule run_step.IH [OF run_step.prems(1,2) n(2) _ run_step.prems(5)]) (simp add: run_step.prems(4))
  then show ?case using b run_step.hyps(2) unfolding n(1) gi_collect.simps adv by simp
qed

lemma group_open_SomeD:
  assumes "group_open D view mt counter from limit top_level = Some it" "limit \<le> U16_MAX"
  obtains "is" k at dl members dc where "at < limit"
    "entries_run (entry_end MAX_DEPTH D (mv_entries view) mt limit dl members) (mv_entries view) dl limit (at + 1) is k"
    "k \<le> limit"
    "it = \<lparr>gi_view = view, gi_msg_type = mt, gi_delimiter = dl, gi_members = members, gi_declared = dc,
       gi_counted = min (length is) U16_MAX, gi_end = k, gi_pos = at + 1\<rparr>"
proof -
  obtain dl where dl: "group_delimiter D mt counter = Some dl" using assms(1) by (cases "group_delimiter D mt counter") (auto simp: group_open_def)
  let ?at = "open_search D (mv_entries view) mt counter from limit top_level"
  let ?m = "group_members D mt counter"
  obtain "is" k where r: "entries_run (entry_end MAX_DEPTH D (mv_entries view) mt limit dl ?m) (mv_entries view) dl limit (?at + 1) is k"
      "region_end MAX_DEPTH D (mv_entries view) mt limit dl ?m (?at + 1) = (k, min (length is) U16_MAX)"
    using region_end_run by blast
  have at: "?at < limit" using assms(1) dl by (auto simp: group_open_def Let_def split: if_splits)
  then have k: "k \<le> limit" "?at + 1 \<le> k" using region_end_bounds [of "?at + 1" MAX_DEPTH D "mv_entries view" mt limit dl ?m] r(2) by auto
  have "wrap16 k = k" "wrap16 (?at + 1) = ?at + 1" using k assms(2) by (simp_all add: wrap16_def)
  with assms(1) dl r(2) show ?thesis
    by (intro that [OF at r(1) k(1)]) (auto simp: group_open_def Let_def split: if_splits)
qed

subsection \<open>Properties\<close>

text \<open>A scan over a repeating group always ends, forwards and inside its limit, whatever the tables
  say. From a delimiter at \<open>from\<close>, the entry scan of any nesting budget stops strictly after
  \<open>from\<close> and at or before the limit, at a field that is not a further member of the entry.\<close>

theorem entry_scan_terminates:
  assumes "from < limit"
  shows "from < entry_end left D es mt limit delimiter members from \<and>
    entry_end left D es mt limit delimiter members from \<le> limit \<and>
    (entry_end left D es mt limit delimiter members from = limit \<or>
     member_at es delimiter members (entry_end left D es mt limit delimiter members from) = None)"
  using entry_end_bounds [OF assms, of left D es mt delimiter members] by auto

theorem entry_scan_terminates_witness:
  "0 < entry_end 8 NoDict [] [] 3 448 [447] 0 \<and> entry_end 8 NoDict [] [] 3 448 [447] 0 \<le> 3 \<and>
   (entry_end 8 NoDict [] [] 3 448 [447] 0 = 3 \<or> member_at [] 448 [447] (entry_end 8 NoDict [] [] 3 448 [447] 0) = None)"
  by (rule entry_scan_terminates) simp

text \<open>The iterator returns exactly the entries that opening the group counted. For a message of at
  most 65535 fields, a for-loop over an opened group ends within \<open>limit\<close> calls; it returns
  \<open>counted\<close> entries, each begins with the delimiter, and their windows follow one another without
  gap or overlap from behind the counter to the end of the region, inside the searched range.\<close>

theorem group_iter_exact:
  assumes "group_open D view mt counter from limit top_level = Some it" "limit \<le> U16_MAX" "limit \<le> n"
  shows "length (gi_collect n D it) = gi_counted it \<and>
    tiles (gi_pos it) (map window_of (gi_collect n D it)) (gi_end it) \<and> gi_end it \<le> limit \<and>
    list_all (\<lambda>e. tag_at (mv_entries view) (ge_start e) = Some (gi_delimiter it) \<and> ge_view e = view) (gi_collect n D it)"
proof -
  obtain "is" k at dl members dc where g: "at < limit"
    "entries_run (entry_end MAX_DEPTH D (mv_entries view) mt limit dl members) (mv_entries view) dl limit (at + 1) is k"
    "k \<le> limit"
    "it = \<lparr>gi_view = view, gi_msg_type = mt, gi_delimiter = dl, gi_members = members, gi_declared = dc,
       gi_counted = min (length is) U16_MAX, gi_end = k, gi_pos = at + 1\<rparr>"
    using group_open_SomeD [OF assms(1,2)] .
  have c: "tiles (at + 1) (map window_of (gi_collect m D it)) k \<and> map ge_start (gi_collect m D it) = is \<and>
      list_all (\<lambda>e. tag_at (mv_entries view) (ge_start e) = Some dl \<and> ge_view e = view) (gi_collect m D it)"
    if "length is < m" for m by (rule gi_collect_run [OF g(2,3) assms(2) that g(4) refl])
  have "length (gi_collect m D it) = length is" if "length is < m" for m using c [OF that] length_map by metis
  moreover have "tiles (at + 1) (map window_of (gi_collect (Suc (length is)) D it)) k" using c by blast
  ultimately have "at + 1 + length is \<le> k" using tiles_le by (metis length_map lessI)
  then have len: "length is < limit" using g(3) by simp
  then have "length (gi_collect n D it) = length is" using c [of n] assms(3) length_map by (metis order.strict_trans2)
  with c [of n] len assms(2,3) g show ?thesis by simp
qed

definition parties_dict :: dictionary where
  "parties_dict = NoDict\<lparr>group_delimiter := (\<lambda>_ c. if c = 453 then Some 448 else None),
     group_members := (\<lambda>_ c. if c = 453 then [448, 447] else [])\<rparr>"

definition parties_view :: message_view where
  "parties_view = \<lparr>mv_buf = [], mv_idx = \<lparr>fi_cap = 8,
     fi_fields = map (\<lambda>t. \<lparr>fe_tag = t, fe_offset = 0, fe_len = 0\<rparr>) [35, 453, 448, 447, 448, 447, 58]\<rparr>\<rparr>"

theorem group_iter_exact_witness:
  "\<exists>it. group_open parties_dict parties_view (b ''D'') 453 0 7 True = Some it \<and>
    length (gi_collect 7 parties_dict it) = gi_counted it \<and>
    tiles (gi_pos it) (map window_of (gi_collect 7 parties_dict it)) (gi_end it)"
proof -
  have "open_search parties_dict (mv_entries parties_view) (b ''D'') 453 0 7 True = 1"
    by (simp add: open_search_def while_unfold tag_at_def nth_opt_def parties_view_def parties_dict_def NoDict_def
        mv_entries_def fi_entries_def)
  then have "group_open parties_dict parties_view (b ''D'') 453 0 7 True \<noteq> None"
    by (simp add: group_open_def Let_def parties_dict_def tag_at_def nth_opt_def parties_view_def mv_entries_def
        fi_entries_def split: prod.split)
  then obtain it where it: "group_open parties_dict parties_view (b ''D'') 453 0 7 True = Some it" by blast
  with group_iter_exact [OF it, of 7] show ?thesis by auto
qed

end
