(* ===== verification/Validate.thy ===== *)
theory Validate
  imports Session_Text Field_Type Group
begin

text \<open>
  The dictionary checks of \<open>crates/session/src/lib.rs\<close> and the byte-level helpers beside them.
  \<open>Tables\<close> (\<open>crates/dict/src/tables.rs\<close>) extends the codec's dictionary; its generated
  implementations are a parameter. A copied value \<open>Held<N>\<close> is its bytes.
\<close>

record tables = dictionary +
  is_defined_tag :: "nat \<Rightarrow> bool"
  is_defined_tag_for :: "bytes \<Rightarrow> nat \<Rightarrow> bool"
  required_header :: "nat list"
  required :: "bytes \<Rightarrow> nat list"
  allows :: "bytes \<Rightarrow> nat \<Rightarrow> bool"
  enum_allows :: "nat \<Rightarrow> bytes \<Rightarrow> bool option"
  tag_type :: "nat \<Rightarrow> field_type option"
  is_msg_type :: "bytes \<Rightarrow> bool"
  is_admin :: "bytes \<Rightarrow> bool"

record dictionary_checks =
  allow_unknown_msg_fields :: bool
  skip_user_defined_fields :: bool

definition DictionaryChecks_new :: dictionary_checks where
  "DictionaryChecks_new = \<lparr>allow_unknown_msg_fields = False, skip_user_defined_fields = False\<rparr>"

definition allowing_unknown_msg_fields :: "dictionary_checks \<Rightarrow> dictionary_checks" where
  "allowing_unknown_msg_fields c = c\<lparr>allow_unknown_msg_fields := True\<rparr>"

definition skipping_user_defined_fields :: "dictionary_checks \<Rightarrow> dictionary_checks" where
  "skipping_user_defined_fields c = c\<lparr>skip_user_defined_fields := True\<rparr>"

abbreviation (input) FIRST_USER_DEFINED_TAG :: nat where "FIRST_USER_DEFINED_TAG \<equiv> 5000"

subsection \<open>Small helpers\<close>

text \<open>The decimal digits of a number, filled from the right of a ten-byte buffer.\<close>

fun lib_digits_loop :: "nat \<Rightarrow> bytes \<Rightarrow> bytes" where
  "lib_digits_loop n acc =
     (let acc' = digit_byte (n mod 10) # acc in if n div 10 = 0 then acc' else lib_digits_loop (n div 10) acc')"

declare lib_digits_loop.simps [simp del]

definition lib_digits :: "nat \<Rightarrow> bytes" where
  "lib_digits n = lib_digits_loop n []"

definition copy :: "nat \<Rightarrow> bytes option \<Rightarrow> bytes option" where
  "copy n value = Option.bind value (\<lambda>v. if length v > n then None else Some v)"

definition tag_text :: "nat \<Rightarrow> bytes option" where
  "tag_text tag = copy 12 (Some (lib_digits tag))"

definition is_signed_integer :: "bytes \<Rightarrow> bool" where
  "is_signed_integer v = (let digits = strip_minus v in digits \<noteq> [] \<and> list_all is_ascii_digit digits)"

fun digits_to_u32_loop :: "bytes \<Rightarrow> nat \<Rightarrow> nat option" where
  "digits_to_u32_loop [] n = Some n"
| "digits_to_u32_loop (c # cs) n =
     Option.bind (checked_mul U32_MAX n 10) (\<lambda>n10.
       if c < ZERO then None
       else Option.bind (checked_add U32_MAX n10 (unat (c - ZERO))) (\<lambda>n'.
         if c > 57 then None else digits_to_u32_loop cs n'))"

definition digits_to_u32 :: "bytes \<Rightarrow> nat option" where
  "digits_to_u32 text = (if text = [] then None else digits_to_u32_loop text 0)"

text \<open>\<open>windows(n).position(..)\<close>: where a needle first occurs.\<close>

fun windows_position :: "bytes \<Rightarrow> bytes \<Rightarrow> nat option" where
  "windows_position needle [] = None"
| "windows_position needle (x # xs) =
     (if length (x # xs) < length needle then None
      else if take (length needle) (x # xs) = needle then Some 0
      else map_option Suc (windows_position needle xs))"

definition msg_type_of :: "bytes \<Rightarrow> bytes option" where
  "msg_type_of bs =
     Option.bind (if take 3 bs = b ''35='' then Some 3
                  else map_option (\<lambda>i. i + 4) (windows_position (SOH # b ''35='') bs))
       (\<lambda>at. map_option (\<lambda>len. take len (drop at bs)) (position (\<lambda>c. c = SOH) (drop at bs)))"

subsection \<open>Faults\<close>

type_synonym fault = "session_text \<times> bytes option"

text \<open>The first answer of a loop that returns on a fault.\<close>

primrec first_fault :: "('x \<Rightarrow> fault option) \<Rightarrow> 'x list \<Rightarrow> fault option" where
  "first_fault f [] = None"
| "first_fault f (x # xs) = (case f x of Some e \<Rightarrow> Some e | None \<Rightarrow> first_fault f xs)"

definition ignored :: "dictionary_checks \<Rightarrow> nat \<Rightarrow> bool" where
  "ignored checks tag \<longleftrightarrow> skip_user_defined_fields checks \<and> tag \<ge> FIRST_USER_DEFINED_TAG"

definition in_a_group_before ::
  "('z) tables_scheme \<Rightarrow> message_view \<Rightarrow> bytes \<Rightarrow> nat \<Rightarrow> nat \<Rightarrow> dictionary_checks \<Rightarrow> bool" where
  "in_a_group_before D view mt tag limit checks =
     list_ex (\<lambda>i. case field_at view i of
         None \<Rightarrow> False
       | Some (counter, _) \<Rightarrow> \<not> ignored checks counter \<and>
           group_delimiter D mt counter \<noteq> None \<and> tag \<in> set (group_members D mt counter)) [0..<limit]"

definition in_a_group :: "('z) tables_scheme \<Rightarrow> message_view \<Rightarrow> bytes \<Rightarrow> nat \<Rightarrow> bool" where
  "in_a_group D view mt tag =
     list_ex (\<lambda>i. case field_at view i of
         None \<Rightarrow> False
       | Some (counter, _) \<Rightarrow> group_delimiter D mt counter \<noteq> None \<and> tag \<in> set (group_members D mt counter))
       [0..<mv_len view]"

definition missing_required :: "('z) tables_scheme \<Rightarrow> message_view \<Rightarrow> bytes \<Rightarrow> fault option" where
  "missing_required D view mt =
     first_fault (\<lambda>tag. if mv_get view tag = None then Some (RequiredTagMissing, tag_text tag) else None)
       (required_header D @ required D mt)"

definition out_of_family_appl_ver_id :: "('z) tables_scheme \<Rightarrow> message_view \<Rightarrow> bytes \<Rightarrow> fault option" where
  "out_of_family_appl_ver_id D view mt =
     (if is_admin D mt then None
      else case mv_get view 1128 of
        None \<Rightarrow> None
      | Some v \<Rightarrow> if v \<noteq> b ''7'' \<and> v \<noteq> b ''8'' \<and> v \<noteq> b ''9'' then Some (ValueIsIncorrect, tag_text 1128) else None)"

subsection \<open>Group counters\<close>

text \<open>Iterating an opened group needs at most as many calls as the message has fields.\<close>

definition group_entries :: "('z) tables_scheme \<Rightarrow> message_view \<Rightarrow> group_iter \<Rightarrow> group_entry list" where
  "group_entries D view it = gi_collect (mv_len view) D it"

primrec bad_nested_count :: "nat \<Rightarrow> ('z) tables_scheme \<Rightarrow> group_entry \<Rightarrow> bytes \<Rightarrow> nat \<Rightarrow> fault option" where
  "bad_nested_count 0 D entry mt parent = None"
| "bad_nested_count (Suc left) D entry mt parent =
     first_fault (\<lambda>member.
       if group_delimiter D mt member = None then None
       else case ge_group D entry mt member of
         None \<Rightarrow> None
       | Some nested \<Rightarrow>
           if gi_declared nested \<noteq> Some (gi_counted nested) then Some (IncorrectNumInGroupCount, tag_text member)
           else first_fault (\<lambda>child. bad_nested_count left D child mt member) (group_entries D (ge_view entry) nested))
       (group_members D mt parent)"

text \<open>The top-level loop calls with \<open>depth = 1\<close>, so seven of the \<open>MAX_GROUP_NESTING = 8\<close> levels
  remain.\<close>

definition bad_group_count :: "('z) tables_scheme \<Rightarrow> message_view \<Rightarrow> bytes \<Rightarrow> fault option" where
  "bad_group_count D view mt =
     first_fault (\<lambda>i. case field_at view i of
         None \<Rightarrow> None
       | Some (counter, _) \<Rightarrow>
           if group_delimiter D mt counter = None then None
           else case mv_group D view mt counter of
             None \<Rightarrow> None
           | Some grp \<Rightarrow>
               if gi_declared grp \<noteq> Some (gi_counted grp) then Some (IncorrectNumInGroupCount, tag_text counter)
               else first_fault (\<lambda>entry. bad_nested_count 7 D entry mt counter) (group_entries D view grp))
       [0..<mv_len view]"

subsection \<open>The scan in wire order\<close>

abbreviation (input) SEEN :: nat where "SEEN \<equiv> 32"

record seen_counters =
  sc_tags :: "nat list"
  sc_full :: bool

definition SeenCounters_new :: seen_counters where
  "SeenCounters_new = \<lparr>sc_tags = [], sc_full = False\<rparr>"

definition sc_is_empty :: "seen_counters \<Rightarrow> bool" where
  "sc_is_empty s \<longleftrightarrow> sc_tags s = []"

definition sc_record :: "nat \<Rightarrow> seen_counters \<Rightarrow> seen_counters" where
  "sc_record tag s =
     (if tag \<in> set (sc_tags s) then s
      else if length (sc_tags s) < SEEN then s\<lparr>sc_tags := sc_tags s @ [tag]\<rparr>
      else s\<lparr>sc_full := True\<rparr>)"

definition sc_defers ::
  "('z) tables_scheme \<Rightarrow> seen_counters \<Rightarrow> message_view \<Rightarrow> bytes \<Rightarrow> nat \<Rightarrow> nat \<Rightarrow> dictionary_checks \<Rightarrow> bool" where
  "sc_defers D s view mt tag limit checks =
     (if sc_full s then in_a_group_before D view mt tag limit checks
      else list_ex (\<lambda>counter. tag \<in> set (group_members D mt counter)) (sc_tags s))"

text \<open>The two arms that a group member's field waits with.\<close>

definition value_fault :: "('z) tables_scheme \<Rightarrow> nat \<Rightarrow> bytes \<Rightarrow> fault option" where
  "value_fault D tag value =
     (if enum_allows D tag value = Some False then Some (ValueIsIncorrect, tag_text tag)
      else case tag_type D tag of
        Some t \<Rightarrow> if \<not> accepts t value then Some (IncorrectDataFormat, tag_text tag) else None
      | None \<Rightarrow> None)"

text \<open>The arms in front of them, answered in wire order for every field.\<close>

definition shape_fault ::
  "('z) tables_scheme \<Rightarrow> message_view \<Rightarrow> bytes \<Rightarrow> dictionary_checks \<Rightarrow> bool \<Rightarrow> nat \<Rightarrow> nat \<Rightarrow> bytes \<Rightarrow> fault option" where
  "shape_fault D view mt checks in_body i tag value =
     (if is_header D tag \<and> in_body then Some (TagSpecifiedOutOfRequiredOrder, tag_text tag)
      else if \<not> is_defined_tag_for D mt tag then Some (InvalidTagNumber, tag_text tag)
      else if value = [] \<and> tag_type D tag \<noteq> Some FtData then Some (TagSpecifiedWithoutValue, tag_text tag)
      else if \<not> allow_unknown_msg_fields checks \<and> \<not> allows D mt tag then
        Some (TagNotDefinedForThisMessageType, tag_text tag)
      else if (case find_from view 0 tag of Some (at, _) \<Rightarrow> at < i | None \<Rightarrow> False) \<and> \<not> in_a_group D view mt tag then
        Some (TagAppearsMoreThanOnce, tag_text tag)
      else None)"

definition scan_field ::
  "('z) tables_scheme \<Rightarrow> message_view \<Rightarrow> bytes \<Rightarrow> dictionary_checks \<Rightarrow> nat \<Rightarrow> bool \<times> seen_counters \<Rightarrow>
   fault + bool \<times> seen_counters" where
  "scan_field D view mt checks i = (\<lambda>(in_body, seen).
     case field_at view i of
       None \<Rightarrow> Inr (in_body, seen)
     | Some (tag, value) \<Rightarrow>
         if ignored checks tag then Inr (in_body, seen)
         else case shape_fault D view mt checks in_body i tag value of
           Some e \<Rightarrow> Inl e
         | None \<Rightarrow>
           let in_body = (if is_header D tag then in_body else if tag \<noteq> 10 then True else in_body) in
           case (if sc_is_empty seen \<or> \<not> sc_defers D seen view mt tag i checks then value_fault D tag value else None) of
             Some e \<Rightarrow> Inl e
           | None \<Rightarrow>
               Inr (in_body, if tag_type D tag = Some FtNumInGroup \<and> group_delimiter D mt tag \<noteq> None
                             then sc_record tag seen else seen))"

definition scan_fields ::
  "('z) tables_scheme \<Rightarrow> message_view \<Rightarrow> bytes \<Rightarrow> dictionary_checks \<Rightarrow> seen_counters \<Rightarrow> fault + bool \<times> seen_counters" where
  "scan_fields D view mt checks seen = foldR (scan_field D view mt checks) [0..<mv_len view] (False, seen)"

definition scan_group_members ::
  "('z) tables_scheme \<Rightarrow> message_view \<Rightarrow> bytes \<Rightarrow> dictionary_checks \<Rightarrow> seen_counters \<Rightarrow> fault option" where
  "scan_group_members D view mt checks seen =
     (if sc_is_empty seen then None
      else first_fault (\<lambda>i. case field_at view i of
          None \<Rightarrow> None
        | Some (tag, value) \<Rightarrow>
            if ignored checks tag then None
            else if \<not> sc_defers D seen view mt tag (mv_len view) checks then None
            else value_fault D tag value) [0..<mv_len view])"

definition validate_fault ::
  "('z) tables_scheme \<Rightarrow> message_view \<Rightarrow> bytes \<Rightarrow> dictionary_checks \<Rightarrow> fault option" where
  "validate_fault D view mt checks =
     (case scan_fields D view mt checks SeenCounters_new of
        Inl e \<Rightarrow> Some e
      | Inr (_, seen) \<Rightarrow>
         (case missing_required D view mt of
            Some e \<Rightarrow> Some e
          | None \<Rightarrow>
             (case bad_group_count D view mt of
                Some e \<Rightarrow> Some e
              | None \<Rightarrow> scan_group_members D view mt checks seen)))"

definition validate_with ::
  "('z) tables_scheme \<Rightarrow> message_view \<Rightarrow> bytes \<Rightarrow> dictionary_checks \<Rightarrow> session_text option" where
  "validate_with D view mt checks = map_option fst (validate_fault D view mt checks)"

definition validate :: "('z) tables_scheme \<Rightarrow> message_view \<Rightarrow> bytes \<Rightarrow> session_text option" where
  "validate D view mt = validate_with D view mt DictionaryChecks_new"

subsection \<open>Digits\<close>

lemma lib_digits_loop_eq: "lib_digits_loop n acc = dec_digits n @ acc"
proof (induction n acc rule: lib_digits_loop.induct)
  case (1 n acc)
  show ?case
  proof (cases "n < 10")
    case True
    then show ?thesis by (subst lib_digits_loop.simps) (simp add: dec_digits_small)
  next
    case False
    then show ?thesis using 1 by (subst lib_digits_loop.simps) (simp add: dec_digits_snoc [of n] Let_def)
  qed
qed

lemma lib_digits_eq: "lib_digits n = dec_digits n"
  by (simp add: lib_digits_def lib_digits_loop_eq)

lemma tag_text_eq: "tag \<le> U32_MAX \<Longrightarrow> tag_text tag = Some (dec_digits tag)"
  using u32_digits [of tag] by (simp add: tag_text_def copy_def lib_digits_eq)

lemma byte_range: "c < ZERO \<or> c > 57 \<longleftrightarrow> \<not> is_ascii_digit c"
  by (auto simp: is_ascii_digit_def not_le)

lemma digits_to_u32_loop_eq:
  "digits_to_u32_loop cs n = (if all_digits cs \<and> n * 10 ^ length cs + dec_value cs \<le> U32_MAX
     then Some (n * 10 ^ length cs + dec_value cs) else None)" if "n \<le> U32_MAX"
  using that
proof (induction cs arbitrary: n)
  case (Cons c cs)
  have v: "n * 10 ^ length (c # cs) + dec_value (c # cs) = (n * 10 + digit_of c) * 10 ^ length cs + dec_value cs"
    by (simp add: dec_value_Cons algebra_simps)
  show ?case
  proof (cases "is_ascii_digit c \<and> n * 10 + digit_of c \<le> U32_MAX")
    case True
    then have "\<not> c < ZERO" "\<not> c > 57" using byte_range [of c] by auto
    with True Cons.IH [of "n * 10 + digit_of c"] show ?thesis
      unfolding v by (simp add: checked_mul_def checked_add_def digit_of_def [symmetric])
  next
    case False
    have big: "U32_MAX < n * 10 + digit_of c \<Longrightarrow> U32_MAX < (n * 10 + digit_of c) * 10 ^ length cs + dec_value cs"
      by (rule shift_digits_greater)
    have "digits_to_u32_loop (c # cs) n = None"
      using False byte_range [of c]
      by (auto simp: checked_mul_def checked_add_def digit_of_def [symmetric] bind_eq_None_conv)
    then show ?thesis using False big unfolding v by auto
  qed
qed simp

lemma digits_to_u32_eq:
  "digits_to_u32 v = (if v \<noteq> [] \<and> all_digits v \<and> dec_value v \<le> U32_MAX then Some (dec_value v) else None)"
  by (simp add: digits_to_u32_def digits_to_u32_loop_eq)

lemma digits_to_u32_dec_digits: "n \<le> U32_MAX \<Longrightarrow> digits_to_u32 (dec_digits n) = Some n"
  by (simp add: digits_to_u32_eq)

subsection \<open>The counters seen are a cache\<close>

text \<open>The specification of the checks: a member waits iff one of the fields in front of it is the
  counter of a group it belongs to, asked of the message itself.\<close>

definition scan_field_ref ::
  "('z) tables_scheme \<Rightarrow> message_view \<Rightarrow> bytes \<Rightarrow> dictionary_checks \<Rightarrow> nat \<Rightarrow> bool \<Rightarrow> fault + bool" where
  "scan_field_ref D view mt checks i in_body =
     (case field_at view i of
       None \<Rightarrow> Inr in_body
     | Some (tag, value) \<Rightarrow>
         if ignored checks tag then Inr in_body
         else case shape_fault D view mt checks in_body i tag value of
           Some e \<Rightarrow> Inl e
         | None \<Rightarrow>
           (case (if in_a_group_before D view mt tag i checks then None else value_fault D tag value) of
             Some e \<Rightarrow> Inl e
           | None \<Rightarrow> Inr (in_body \<or> (\<not> is_header D tag \<and> tag \<noteq> 10))))"

definition members_ref :: "('z) tables_scheme \<Rightarrow> message_view \<Rightarrow> bytes \<Rightarrow> dictionary_checks \<Rightarrow> fault option" where
  "members_ref D view mt checks =
     first_fault (\<lambda>i. case field_at view i of
          None \<Rightarrow> None
        | Some (tag, value) \<Rightarrow>
            if ignored checks tag then None
            else if \<not> in_a_group_before D view mt tag (mv_len view) checks then None
            else value_fault D tag value) [0..<mv_len view]"

definition validate_ref :: "('z) tables_scheme \<Rightarrow> message_view \<Rightarrow> bytes \<Rightarrow> dictionary_checks \<Rightarrow> fault option" where
  "validate_ref D view mt checks =
     (case foldR (scan_field_ref D view mt checks) [0..<mv_len view] False of
        Inl e \<Rightarrow> Some e
      | Inr _ \<Rightarrow>
         (case missing_required D view mt of
            Some e \<Rightarrow> Some e
          | None \<Rightarrow>
             (case bad_group_count D view mt of Some e \<Rightarrow> Some e | None \<Rightarrow> members_ref D view mt checks)))"

definition counters_before :: "('z) tables_scheme \<Rightarrow> message_view \<Rightarrow> bytes \<Rightarrow> dictionary_checks \<Rightarrow> nat \<Rightarrow> nat set" where
  "counters_before D view mt checks i =
     {c. \<exists>j < i. \<exists>v. field_at view j = Some (c, v) \<and> \<not> ignored checks c \<and> group_delimiter D mt c \<noteq> None}"

lemma counters_before_Suc:
  "counters_before D view mt checks (Suc i) =
     (case field_at view i of
        Some (c, _) \<Rightarrow> if \<not> ignored checks c \<and> group_delimiter D mt c \<noteq> None
                       then insert c (counters_before D view mt checks i) else counters_before D view mt checks i
      | None \<Rightarrow> counters_before D view mt checks i)"
  by (auto simp: counters_before_def less_Suc_eq split: option.splits)

lemma in_a_group_before_iff:
  "in_a_group_before D view mt tag i checks \<longleftrightarrow>
     (\<exists>c \<in> counters_before D view mt checks i. tag \<in> set (group_members D mt c))"
proof -
  have c: "(case f of None \<Rightarrow> False | Some (c, _) \<Rightarrow> P c) \<longleftrightarrow> (\<exists>c v. f = Some (c, v) \<and> P c)" for f :: "(nat \<times> bytes) option" and P
    by (auto split: option.splits)
  show ?thesis unfolding in_a_group_before_def list_ex_iff counters_before_def c
    by (simp only: set_upt atLeast0LessThan Bex_def lessThan_iff mem_Collect_eq) blast
qed

definition seen_inv :: "nat set \<Rightarrow> seen_counters \<Rightarrow> bool" where
  "seen_inv C s \<longleftrightarrow> set (sc_tags s) \<subseteq> C \<and> (\<not> sc_full s \<longrightarrow> set (sc_tags s) = C) \<and> (sc_full s \<longrightarrow> sc_tags s \<noteq> [])"

lemma seen_inv_record: "seen_inv C s \<Longrightarrow> seen_inv (insert c C) (sc_record c s)"
  by (auto simp: seen_inv_def sc_record_def)

lemma seen_inv_defers:
  assumes "seen_inv (counters_before D view mt checks i) s"
  shows "\<not> sc_is_empty s \<and> sc_defers D s view mt tag i checks \<longleftrightarrow> in_a_group_before D view mt tag i checks"
  using assms by (cases "sc_full s") (auto simp: seen_inv_def sc_is_empty_def sc_defers_def in_a_group_before_iff list_ex_iff)

text \<open>What the cache relies on: the tables type every counter of a group as \<open>NumInGroup\<close>.\<close>

definition counters_typed :: "('z) tables_scheme \<Rightarrow> bytes \<Rightarrow> bool" where
  "counters_typed D mt \<longleftrightarrow> (\<forall>t. group_delimiter D mt t \<noteq> None \<longrightarrow> tag_type D t = Some FtNumInGroup)"

lemma scan_field_ref:
  assumes "counters_typed D mt"
    and "seen_inv (counters_before D view mt checks i) s"
  shows "case scan_field D view mt checks i (ib, s) of
      Inl e \<Rightarrow> scan_field_ref D view mt checks i ib = Inl e
    | Inr (ib', s') \<Rightarrow> scan_field_ref D view mt checks i ib = Inr ib' \<and> seen_inv (counters_before D view mt checks (Suc i)) s'"
proof (cases "field_at view i")
  case None
  then show ?thesis using assms(2) by (simp add: scan_field_def scan_field_ref_def counters_before_Suc)
next
  case (Some f)
  obtain tag v where f: "field_at view i = Some (tag, v)" using Some by (cases f) auto
  have d: "(sc_is_empty s \<or> \<not> sc_defers D s view mt tag i checks) = (\<not> in_a_group_before D view mt tag i checks)"
    using seen_inv_defers [OF assms(2), of tag] by blast
  have r: "seen_inv (insert tag (counters_before D view mt checks i)) (sc_record tag s)"
    by (rule seen_inv_record [OF assms(2)])
  show ?thesis
    using assms r
    by (auto simp: counters_typed_def scan_field_def scan_field_ref_def f d counters_before_Suc Let_def split: option.splits)
qed

lemma scan_fields_ref:
  assumes "counters_typed D mt"
  shows "case foldR (scan_field D view mt checks) [0..<n] (False, SeenCounters_new) of
      Inl e \<Rightarrow> foldR (scan_field_ref D view mt checks) [0..<n] False = Inl e
    | Inr (ib, s) \<Rightarrow> foldR (scan_field_ref D view mt checks) [0..<n] False = Inr ib \<and> seen_inv (counters_before D view mt checks n) s"
proof (induction n)
  case 0
  show ?case by (simp add: seen_inv_def SeenCounters_new_def counters_before_def)
next
  case (Suc n)
  show ?case
  proof (cases "foldR (scan_field D view mt checks) [0..<n] (False, SeenCounters_new)")
    case (Inr p)
    obtain ib s where p: "p = (ib, s)" by (cases p) auto
    have inv: "seen_inv (counters_before D view mt checks n) s" using Suc Inr p by simp
    show ?thesis
      using Suc Inr p scan_field_ref [OF assms inv, of ib]
      by (cases "scan_field D view mt checks n (ib, s)") (auto simp: foldR_append)
  qed (use Suc in \<open>simp add: foldR_append\<close>)
qed

lemma first_fault_None: "(\<And>x. x \<in> set xs \<Longrightarrow> f x = None) \<Longrightarrow> first_fault f xs = None"
  by (induction xs) auto

lemma members_ref_eq:
  assumes "seen_inv (counters_before D view mt checks (mv_len view)) s"
  shows "scan_group_members D view mt checks s = members_ref D view mt checks"
proof (cases "sc_is_empty s")
  case True
  then have "members_ref D view mt checks = None"
    using seen_inv_defers [OF assms] unfolding members_ref_def
    by (intro first_fault_None) (auto split: option.splits)
  then show ?thesis using True by (simp add: scan_group_members_def)
next
  case False
  then have "sc_defers D s view mt tag (mv_len view) checks = in_a_group_before D view mt tag (mv_len view) checks" for tag
    using seen_inv_defers [OF assms] by blast
  then show ?thesis using False unfolding scan_group_members_def members_ref_def by (simp only: if_False)
qed

subsection \<open>Properties\<close>

text \<open>The array of seen group counters is only a cache. For any message and any number of group
  counters, the checks that remember at most 32 counters and fall back to a walk over the message
  give the same verdict, with the same tag, as the specification that asks the message each time
  whether a counter of the field's group came before it. The tables must type every group counter
  as \<open>NumInGroup\<close>.\<close>

theorem seen_counters_are_a_cache:
  assumes "counters_typed D mt"
  shows "validate_fault D view mt checks = validate_ref D view mt checks"
proof (cases "scan_fields D view mt checks SeenCounters_new")
  case (Inl e)
  then show ?thesis using scan_fields_ref [OF assms, of view checks "mv_len view"]
    by (simp add: validate_fault_def validate_ref_def scan_fields_def)
next
  case (Inr p)
  obtain ib s where p: "p = (ib, s)" by (cases p) auto
  have "foldR (scan_field_ref D view mt checks) [0..<mv_len view] False = Inr ib"
    "seen_inv (counters_before D view mt checks (mv_len view)) s"
    using scan_fields_ref [OF assms, of view checks "mv_len view"] Inr p by (simp_all add: scan_fields_def)
  then show ?thesis using Inr p members_ref_eq [of D view mt checks s] by (simp add: validate_fault_def validate_ref_def split: option.split)
qed

text \<open>Tables with the one group \<open>NoPartyIDs\<close>.\<close>

definition parties_tables :: tables where
  "parties_tables = \<lparr>is_header = (\<lambda>t. t \<in> {8, 9, 35, 34, 49, 56, 52}), data_length_tag = (\<lambda>_. None),
     group_delimiter = (\<lambda>_ c. if c = 453 then Some 448 else None),
     group_members = (\<lambda>_ c. if c = 453 then [448, 447] else []),
     group_order = (\<lambda>_ c. if c = 453 then [448, 447] else []),
     is_defined_tag = (\<lambda>t. t < 1000), is_defined_tag_for = (\<lambda>_ t. t < 1000),
     required_header = [35], required = (\<lambda>_. [453]), allows = (\<lambda>_ _. True),
     enum_allows = (\<lambda>t v. if t = 447 then Some (v = b ''D'') else None),
     tag_type = (\<lambda>t. if t = 453 then Some FtNumInGroup else Some FtString), is_msg_type = (\<lambda>_. True), is_admin = (\<lambda>_. False)\<rparr>"

theorem seen_counters_are_a_cache_witness:
  "validate_fault parties_tables parties_view (b ''D'') DictionaryChecks_new =
   validate_ref parties_tables parties_view (b ''D'') DictionaryChecks_new"
  by (rule seen_counters_are_a_cache) (simp add: counters_typed_def parties_tables_def)

end
