(* ===== verification/Resend.thy ===== *)
theory Resend
  imports Validate
begin

text \<open>
  Rewriting a message for the wire (\<open>as_resend\<close> and \<open>rebuild\<close> of
  \<open>crates/session/src/lib.rs\<close>): an application message this end originates is renumbered and
  stamped, a kept one is replayed as a possible duplicate. The source takes the message apart at
  the separators and puts the fields into a template builder.
\<close>

definition rebuild_field :: "bytes option \<Rightarrow> bool \<Rightarrow> bytes \<Rightarrow> template_builder \<Rightarrow> unit + template_builder" where
  "rebuild_field seq resend f tb =
     (if f = [] then Inr tb
      else case position (\<lambda>c. c = EQ_SIGN) f of
        None \<Rightarrow> Inl ()
      | Some eq \<Rightarrow>
          (case digits_to_u32 (take eq f) of
             None \<Rightarrow> Inl ()
           | Some tag \<Rightarrow>
               let value = drop (eq + 1) f in
               if tag = 43 \<or> tag = 122 then Inr tb
               else if tag = 34 \<and> seq \<noteq> None then Inr tb
               else if tag = 52 then (if resend then Inr (tb_field 122 value tb) else Inr tb)
               else Inr (tb_field tag value tb)))"

definition rebuild ::
  "('z) dictionary_scheme \<Rightarrow> bytes \<Rightarrow> bytes option \<Rightarrow> bytes \<Rightarrow> nat option \<Rightarrow> bool \<Rightarrow> bytes \<Rightarrow> (bytes \<times> nat \<times> nat) option" where
  "rebuild D src seq now last_processed resend out =
     (case windows_position (SOH # b ''35='') src of
        None \<Rightarrow> None
      | Some i35 \<Rightarrow>
          let at_35 = i35 + 1;
              at_10 = (case windows_position (SOH # b ''10='') src of Some i \<Rightarrow> i + 1 | None \<Rightarrow> length src) in
          (case position (\<lambda>c. c = SOH) src of
             None \<Rightarrow> None
           | Some begin_end \<Rightarrow>
               (case get_range src 2 begin_end of
                  None \<Rightarrow> None
                | Some bs \<Rightarrow>
                    let tb = tb_field 52 now (TemplateBuilder_new 128 1024 bs);
                        tb = (case last_processed of Some v \<Rightarrow> if \<not> resend then tb_field 369 (lib_digits v) tb else tb | None \<Rightarrow> tb);
                        tb = (if resend then tb_field 43 (b ''Y'') tb else tb);
                        tb = (case seq of Some n \<Rightarrow> tb_field 34 n tb | None \<Rightarrow> tb) in
                    (case get_range src at_35 at_10 of
                       None \<Rightarrow> None
                     | Some body \<Rightarrow>
                         (case foldR (rebuild_field seq resend) (split_on SOH body) tb of
                            Inl _ \<Rightarrow> None
                          | Inr tb \<Rightarrow>
                              (case build D tb of
                                 Inl _ \<Rightarrow> None
                               | Inr t \<Rightarrow>
                                   (case encode_with D t out [] [] of Inl _ \<Rightarrow> None | Inr r \<Rightarrow> Some r)))))))"

definition as_resend :: "('z) dictionary_scheme \<Rightarrow> bytes \<Rightarrow> bytes \<Rightarrow> bytes \<Rightarrow> (bytes \<times> nat \<times> nat) option" where
  "as_resend D kept now out = rebuild D kept None now None True out"

subsection \<open>Taking a frame apart\<close>

lemma windows_position_chunk:
  assumes "SOH \<notin> set p"
  shows "windows_position (SOH # n) (p @ SOH # rest) =
    (if take (length n) rest = n then Some (length p)
     else map_option (\<lambda>i. length p + 1 + i) (windows_position (SOH # n) rest))"
  using assms
proof (induction p)
  case Nil
  have short: "length s < length n + 1 \<Longrightarrow> windows_position (SOH # n) s = None" for s by (cases s) auto
  have "take (length n) rest = n \<Longrightarrow> length n \<le> length rest" by (metis length_take min.cobounded1)
  then show ?case using short [of rest] by (auto simp: option.map_comp comp_def)
next
  case (Cons x p)
  have short: "length s < length n + 1 \<Longrightarrow> windows_position (SOH # n) s = None" for s by (cases s) auto
  show ?case
  proof (cases "length (x # p @ SOH # rest) < length (SOH # n)")
    case True
    then have "take (length n) rest \<noteq> n" "windows_position (SOH # n) rest = None"
      using short [of rest] by (auto dest!: arg_cong [of _ n length])
    with True show ?thesis by auto
  next
    case False
    then show ?thesis using Cons by (auto simp: option.map_comp comp_def)
  qed
qed

lemma split_on_ne [simp]: "split_on c xs \<noteq> []"
  by (induction xs) (auto split: list.splits)

lemma split_on_chunk: "c \<notin> set p \<Longrightarrow> split_on c (p @ c # rest) = p # split_on c rest"
  by (induction p) (auto split: list.splits)

definition field_text :: "nat \<times> bytes \<Rightarrow> bytes" where
  "field_text f = dec_digits (fst f) @ EQ_SIGN # snd f"

lemma wire_field_text: "wire_field f = field_text f @ [SOH]"
  by (simp add: wire_field_def field_text_def)

definition plain_field :: "nat \<times> bytes \<Rightarrow> bool" where
  "plain_field f \<longleftrightarrow> fst f \<le> U32_MAX \<and> fst f \<noteq> 10 \<and> SOH \<notin> set (snd f)"

lemma SOH_field_text: "plain_field f \<Longrightarrow> SOH \<notin> set (field_text f)"
  using SOH_notin_digits [OF all_digits_dec_digits, of "fst f"] by (auto simp: plain_field_def field_text_def)

lemma split_on_body: "list_all plain_field fs \<Longrightarrow> split_on SOH (wire_body fs) = map field_text fs @ [[]]"
proof (induction fs)
  case (Cons f fs)
  then have "split_on SOH (field_text f @ SOH # wire_body fs) = field_text f # split_on SOH (wire_body fs)"
    by (intro split_on_chunk SOH_field_text) simp
  with Cons show ?case by (simp add: wire_field_text)
qed (simp add: wire_body_def)

lemma takeWhile_digits: "takeWhile (\<lambda>c. c \<noteq> EQ_SIGN) (dec_digits t @ EQ_SIGN # r) = dec_digits t"
  using EQ_notin_digits [OF all_digits_dec_digits, of t] by (subst takeWhile_append2) auto

lemma field_tag_10: "take 3 (field_text f @ rest) = b ''10='' \<Longrightarrow> fst f = 10"
proof -
  assume t: "take 3 (field_text f @ rest) = b ''10=''"
  have "field_text f @ rest = take 3 (field_text f @ rest) @ drop 3 (field_text f @ rest)"
    by (rule append_take_drop_id [symmetric])
  also have "\<dots> = dec_digits 10 @ EQ_SIGN # drop 3 (field_text f @ rest)"
    unfolding t by (simp add: dec_digits.simps b_def digit_byte_def)
  finally have "dec_digits (fst f) = dec_digits 10"
    using takeWhile_digits [of "fst f"] takeWhile_digits [of 10] by (metis field_text_def append.assoc append_Cons)
  then show ?thesis by (metis dec_value_dec_digits)
qed

lemma trailer_position:
  assumes "list_all plain_field fs" "SOH \<notin> set p" "fs \<noteq> []"
  shows "windows_position (SOH # b ''10='') (p @ SOH # wire_body fs @ b ''10='' @ rest) = Some (length p + length (wire_body fs))"
  using assms
proof (induction fs arbitrary: p)
  case (Cons f fs)
  have ne: "take 3 (field_text f @ SOH # wire_body fs @ b ''10='' @ rest) \<noteq> b ''10=''"
    using field_tag_10 [of f] Cons.prems(1) by (auto simp: plain_field_def)
  have l: "length (b ''10='') = 3" by (simp add: b_def)
  have f: "SOH \<notin> set (field_text f)" using Cons.prems(1) by (simp add: SOH_field_text)
  have here: "windows_position (SOH # b ''10='') (p @ SOH # wire_body (f # fs) @ b ''10='' @ rest) =
      map_option (\<lambda>i. length p + 1 + i) (windows_position (SOH # b ''10='') (field_text f @ SOH # wire_body fs @ b ''10='' @ rest))"
  proof -
    have "p @ SOH # wire_body (f # fs) @ b ''10='' @ rest = p @ SOH # field_text f @ SOH # wire_body fs @ b ''10='' @ rest"
      by (simp add: wire_field_text)
    then show ?thesis by (simp only: windows_position_chunk [OF Cons.prems(2)] l ne if_False)
  qed
  show ?case
  proof (cases fs)
    case Nil
    have "take (length (b ''10='')) (b ''10='' @ rest) = b ''10=''" by simp
    then show ?thesis unfolding here using windows_position_chunk [OF f, of "b ''10=''" "b ''10='' @ rest"] Nil
      by (simp add: wire_field_text)
  next
    case (Cons g gs)
    then show ?thesis unfolding here using Cons.IH [OF _ f] Cons.prems(1) by (simp add: wire_field_text)
  qed
qed simp

subsection \<open>What a rewritten message holds\<close>

definition rebuilt_field :: "bytes option \<Rightarrow> bool \<Rightarrow> nat \<times> bytes \<Rightarrow> decl list" where
  "rebuilt_field seq resend = (\<lambda>(t, v).
     if t = 43 \<or> t = 122 then [] else if t = 34 \<and> seq \<noteq> None then []
     else if t = 52 then (if resend then [Field 122 v] else []) else [Field t v])"

definition rebuilt :: "bytes option \<Rightarrow> bytes \<Rightarrow> nat option \<Rightarrow> bool \<Rightarrow> (nat \<times> bytes) list \<Rightarrow> decl list" where
  "rebuilt seq now lp resend fs =
     [Field 52 now] @ (case lp of Some v \<Rightarrow> if \<not> resend then [Field 369 (dec_digits v)] else [] | None \<Rightarrow> []) @
     (if resend then [Field 43 (b ''Y'')] else []) @ (case seq of Some n \<Rightarrow> [Field 34 n] | None \<Rightarrow> []) @
     concat (map (rebuilt_field seq resend) fs)"

lemma rebuild_field_text:
  assumes "plain_field f"
  shows "rebuild_field seq resend (field_text f) tb = Inr (fold tb_declare (rebuilt_field seq resend f) tb)"
proof -
  obtain t v where f: "f = (t, v)" by (cases f)
  have p: "position (\<lambda>c. c = EQ_SIGN) (dec_digits t @ EQ_SIGN # v) = Some (length (dec_digits t))"
    using EQ_notin_digits [OF all_digits_dec_digits, of t] by (intro position_skip) auto
  have d: "digits_to_u32 (dec_digits t) = Some t" using assms by (intro digits_to_u32_dec_digits) (simp add: plain_field_def f)
  show ?thesis by (auto simp: rebuild_field_def field_text_def f p d rebuilt_field_def)
qed

lemma rebuild_fields:
  "list_all plain_field fs \<Longrightarrow> foldR (rebuild_field seq resend) (map field_text fs @ [[]]) tb =
     Inr (fold tb_declare (concat (map (rebuilt_field seq resend) fs)) tb)"
proof (induction fs arbitrary: tb)
  case Nil
  show ?case by (simp add: rebuild_field_def)
qed (simp add: rebuild_field_text)

lemma body_35: "take 3 (wire_body ((35, mt) # fs) @ rest) = b ''35=''"
  by (simp add: wire_field_def dec_digits.simps b_def digit_byte_def)

lemma rebuild_frame:
  assumes "SOH \<notin> set bstr" "list_all plain_field ((35, mt) # fs)"
  shows "rebuild D (wire_frame bstr (wire_body ((35, mt) # fs))) seq now lp resend out =
    (case build D (fold tb_declare (rebuilt seq now lp resend ((35, mt) # fs)) (TemplateBuilder_new 128 1024 bstr)) of
       Inl _ \<Rightarrow> None | Inr t \<Rightarrow> (case encode_with D t out [] [] of Inl _ \<Rightarrow> None | Inr r \<Rightarrow> Some r))"
proof -
  let ?fs = "(35, mt) # fs"
  let ?body = "wire_body ?fs"
  let ?len = "b ''9='' @ dec_digits (length ?body)"
  obtain tl where tl: "format_checksum (checksum (wire_prefix bstr ?body)) @ [SOH] = tl" by simp
  have src: "wire_frame bstr ?body = (b ''8='' @ bstr) @ SOH # (?len @ SOH # ?body @ b ''10='' @ tl)"
    unfolding tl [symmetric] wire_frame_def wire_prefix_def by simp
  have p1: "SOH \<notin> set (b ''8='' @ bstr)" using assms(1) by (simp add: b_def)
  have p2: "SOH \<notin> set ?len" using SOH_notin_digits [OF all_digits_dec_digits, of "length ?body"] by (simp add: b_def)
  have n35: "take 3 (?len @ SOH # ?body @ b ''10='' @ tl) \<noteq> b ''35=''"
    and n10: "take 3 (?len @ SOH # ?body @ b ''10='' @ tl) \<noteq> b ''10=''" by (simp_all add: b_def numeral_3_eq_3)
  have l: "length (b ''35='') = 3" "length (b ''10='') = 3" by (simp_all add: b_def)
  have at35: "windows_position (SOH # b ''35='') (wire_frame bstr ?body) = Some (length (b ''8='' @ bstr) + 1 + length ?len)"
    unfolding src by (simp only: windows_position_chunk [OF p1] windows_position_chunk [OF p2] l n35 body_35 simp_thms if_False if_True option.map)
  have at10: "windows_position (SOH # b ''10='') (wire_frame bstr ?body) =
      Some (length (b ''8='' @ bstr) + 1 + (length ?len + length ?body))"
    unfolding src windows_position_chunk [OF p1] trailer_position [OF assms(2) p2 list.distinct(2)]
    by (simp only: l n10 if_False option.map)
  have soh: "position (\<lambda>c. c = SOH) (wire_frame bstr ?body) = Some (length (b ''8='' @ bstr))"
    unfolding src using p1 by (intro position_skip) auto
  have bs: "get_range (wire_frame bstr ?body) 2 (length (b ''8='' @ bstr)) = Some bstr"
    unfolding src by (rule get_range_at [of _ "b ''8=''"]) (simp_all add: b_def)
  have body: "get_range (wire_frame bstr ?body) (length (b ''8='' @ bstr) + 1 + length ?len + 1)
      (length (b ''8='' @ bstr) + 1 + (length ?len + length ?body) + 1) = Some ?body"
    unfolding src by (rule get_range_at [of _ "(b ''8='' @ bstr) @ SOH # ?len @ [SOH]"]) simp_all
  show ?thesis
    unfolding rebuild_def at35 at10 soh Let_def option.case bs body split_on_body [OF assms(2)] rebuild_fields [OF assms(2)]
    by (simp add: rebuilt_def lib_digits_eq split: option.split)
qed

lemma rebuilt_plain: "\<forall>c. Group c \<notin> set (rebuilt seq now lp resend fs)"
  by (auto simp: rebuilt_def rebuilt_field_def split: option.splits if_splits)

text \<open>The limits of the source: 128 fields and 1024 bytes of text in the builder, and the caller's
  buffer.\<close>

definition rebuild_fits :: "('z) dictionary_scheme \<Rightarrow> bytes \<Rightarrow> decl list \<Rightarrow> nat \<Rightarrow> bool" where
  "rebuild_fits D bstr ds room \<longleftrightarrow> length ds \<le> 128 \<and> no_data D ds \<and> length bstr \<le> 32 \<and>
     decls_fit (1024 - length bstr) ds \<and> length bstr + 18 + length (wire_body (template_fields D [] ds)) \<le> room \<and>
     length (wire_body (template_fields D [] ds)) < 100000"

lemma rebuild_ok:
  assumes "SOH \<notin> set bstr" "list_all plain_field ((35, mt) # fs)"
    and "rebuild_fits D bstr (rebuilt seq now lp resend ((35, mt) # fs)) (length out)"
  shows "\<exists>r. rebuild D (wire_frame bstr (wire_body ((35, mt) # fs))) seq now lp resend out = Some r \<and>
    message_of r = wire_frame bstr (wire_body (template_fields D [] (rebuilt seq now lp resend ((35, mt) # fs))))"
proof -
  let ?ds = "rebuilt seq now lp resend ((35, mt) # fs)"
  note fits = assms(3) [unfolded rebuild_fits_def]
  obtain t where t: "build D (fold tb_declare ?ds (TemplateBuilder_new 128 1024 bstr)) = Inr t"
    using build_ok [of 1024 D ?ds 128 bstr] fits rebuilt_plain by auto
  obtain r where "encode_with D t out [] [] = Inr r" "message_of r = wire_frame bstr (wire_body (template_fields D [] ?ds))"
    using built_template_frame [OF _ t, of "[]" out] fits by auto
  with t show ?thesis unfolding rebuild_frame [OF assms(1,2)] by simp
qed

subsection \<open>Properties\<close>

text \<open>C33: A replayed message is the kept one marked as a possible duplicate. For a kept frame none
  of whose tags the dictionary calls DATA, whose values are free of the separator and that fits the builder, the
  rewrite succeeds and sends exactly
  the kept fields (the original sequence number included) with \<open>43=Y\<close> and the fresh sending time
  in place of whatever stood there, and the original sending time as \<open>122\<close>, in wire order with a
  true length and checksum.\<close>

theorem resend_is_possible_duplicate:
  assumes "SOH \<notin> set bstr" "list_all plain_field ((35, mt) # fs)"
    and "rebuild_fits D bstr (rebuilt None now None True ((35, mt) # fs)) (length out)"
  shows "\<exists>r. as_resend D (wire_frame bstr (wire_body ((35, mt) # fs))) now out = Some r \<and>
    message_of r = wire_frame bstr (wire_body (template_fields D []
      ([Field 52 now, Field 43 (b ''Y'')] @
       concat (map (\<lambda>(t, v). if t = 43 \<or> t = 122 then [] else if t = 52 then [Field 122 v] else [Field t v]) ((35, mt) # fs)))))"
proof -
  have "rebuilt_field None True = (\<lambda>(t, v). if t = 43 \<or> t = 122 then [] else if t = 52 then [Field 122 v] else [Field t v])"
    by (auto simp: rebuilt_field_def fun_eq_iff)
  then have "rebuilt None now None True fs' = [Field 52 now, Field 43 (b ''Y'')] @
      concat (map (\<lambda>(t, v). if t = 43 \<or> t = 122 then [] else if t = 52 then [Field 122 v] else [Field t v]) fs')" for fs'
    by (simp add: rebuilt_def)
  then show ?thesis using rebuild_ok [OF assms] unfolding as_resend_def by metis
qed

lemma kept_sorted:
  "template_fields NoDict [] (rebuilt None (b ''T2'') None True [(35, b ''D''), (34, b ''2''), (52, b ''T1''), (58, b ''x'')]) =
     [(35, b ''D''), (34, b ''2''), (43, b ''Y''), (52, b ''T2''), (58, b ''x''), (122, b ''T1'')]"
  by (simp add: template_fields_def rebuilt_def rebuilt_field_def decl_key_def tag_key_def NoDict_def)

lemma kept_fits:
  "rebuild_fits NoDict (b ''FIX.4.4'') (rebuilt None (b ''T2'') None True [(35, b ''D''), (34, b ''2''), (52, b ''T1''), (58, b ''x'')])
     (length (replicate 512 (0 :: byte)))"
  unfolding rebuild_fits_def kept_sorted
  by (simp add: rebuilt_def rebuilt_field_def no_data_def NoDict_def decls_fit_def wire_field_def dec_digits.simps b_def)

theorem resend_is_possible_duplicate_witness:
  "\<exists>r. as_resend NoDict (wire_frame (b ''FIX.4.4'') (wire_body [(35, b ''D''), (34, b ''2''), (52, b ''T1''), (58, b ''x'')]))
        (b ''T2'') (replicate 512 0) = Some r \<and>
     message_of r = wire_frame (b ''FIX.4.4'')
       (wire_body [(35, b ''D''), (34, b ''2''), (43, b ''Y''), (52, b ''T2''), (58, b ''x''), (122, b ''T1'')])"
proof -
  have "SOH \<notin> set (b ''FIX.4.4'')" "list_all plain_field [(35, b ''D''), (34, b ''2''), (52, b ''T1''), (58, b ''x'')]"
    by (simp_all add: b_def plain_field_def)
  from resend_is_possible_duplicate [OF this kept_fits] kept_sorted show ?thesis
    by (simp add: rebuilt_def rebuilt_field_def)
qed

end
