(* ===== verification/Journal.thy ===== *)
theory Journal
  imports Parse_Correct
begin

text \<open>
  The message store a session answers resend requests from: the trait \<open>Journal\<close> and
  \<open>NoJournal\<close> of \<open>crates/session/src/journal.rs\<close>, and the ring \<open>MemJournal\<close> of
  \<open>crates/engine/src/journal.rs\<close>. An implementation is a record of functions over its state;
  the locale \<open>journal_laws\<close> states what every implementation promises the session, and
  \<open>marked_journal\<close> adds what one that remembers its marks promises a restart.
\<close>

record 'j journal =
  j_put :: "nat \<Rightarrow> bytes \<Rightarrow> 'j \<Rightarrow> bool \<times> 'j"
  j_get :: "'j \<Rightarrow> nat \<Rightarrow> bytes option"
  j_highest :: "'j \<Rightarrow> nat option"
  j_oldest :: "'j \<Rightarrow> nat option"
  j_mark_in :: "nat \<Rightarrow> 'j \<Rightarrow> 'j"
  j_mark_active :: "nat \<Rightarrow> 'j \<Rightarrow> 'j"
  j_last_active :: "'j \<Rightarrow> nat option"
  j_retire :: "'j \<Rightarrow> 'j"
  j_unwritten :: "'j \<Rightarrow> nat"
  j_highest_in :: "'j \<Rightarrow> nat option"
  j_mark_out :: "nat \<Rightarrow> 'j \<Rightarrow> 'j"
  j_highest_out :: "'j \<Rightarrow> nat option"

definition NoJournal :: "unit journal" where
  "NoJournal = \<lparr>j_put = (\<lambda>_ _ j. (False, j)), j_get = (\<lambda>_ _. None), j_highest = (\<lambda>_. None), j_oldest = (\<lambda>_. None),
     j_mark_in = (\<lambda>_ j. j), j_mark_active = (\<lambda>_ j. j), j_last_active = (\<lambda>_. None), j_retire = (\<lambda>j. j),
     j_unwritten = (\<lambda>_. 0), j_highest_in = (\<lambda>_. None), j_mark_out = (\<lambda>_ j. j), j_highest_out = (\<lambda>_. None)\<rparr>"

subsection \<open>The ring\<close>

record slot =
  sl_seq :: nat
  sl_len :: nat
  sl_buf :: bytes

record mem_journal =
  mj_slots :: "slot list"
  mj_high_water :: "nat option"
  mj_highest_in :: "nat option"
  mj_highest_out :: "nat option"

definition MemJournal_new :: "nat \<Rightarrow> nat \<Rightarrow> mem_journal" where
  "MemJournal_new N LEN = \<lparr>mj_slots = replicate N \<lparr>sl_seq = 0, sl_len = 0, sl_buf = replicate LEN 0\<rparr>,
     mj_high_water = None, mj_highest_in = None, mj_highest_out = None\<rparr>"

definition raise_mark :: "nat option \<Rightarrow> nat \<Rightarrow> nat option" where
  "raise_mark h seq = Some (case h of None \<Rightarrow> seq | Some m \<Rightarrow> max m seq)"

definition mj_put :: "nat \<Rightarrow> nat \<Rightarrow> nat \<Rightarrow> bytes \<Rightarrow> mem_journal \<Rightarrow> bool \<times> mem_journal" where
  "mj_put N LEN seq bs j =
     (if length bs > LEN \<or> N = 0 then (False, j)
      else if length bs > U16_MAX then (False, j)
      else case nth_opt (mj_slots j) (seq mod N) of
        None \<Rightarrow> (False, j)
      | Some s \<Rightarrow>
          (True, j\<lparr>mj_slots := (mj_slots j)[seq mod N := \<lparr>sl_seq = seq, sl_len = length bs, sl_buf = bs @ drop (length bs) (sl_buf s)\<rparr>],
                  mj_high_water := raise_mark (mj_high_water j) seq,
                  mj_highest_out := raise_mark (mj_highest_out j) seq\<rparr>))"

definition mj_get :: "nat \<Rightarrow> mem_journal \<Rightarrow> nat \<Rightarrow> bytes option" where
  "mj_get N j seq =
     (if N = 0 then None
      else case nth_opt (mj_slots j) (seq mod N) of
        None \<Rightarrow> None
      | Some s \<Rightarrow> if sl_seq s = seq \<and> sl_len s > 0 then Some (take (sl_len s) (sl_buf s)) else None)"

definition mj_oldest :: "nat \<Rightarrow> mem_journal \<Rightarrow> nat option" where
  "mj_oldest N j =
     (if N = 0 then None
      else let n = min N U32_MAX in map_option (\<lambda>h. max (h - (n - 1)) 1) (mj_high_water j))"

definition mj_highest :: "mem_journal \<Rightarrow> nat option" where
  "mj_highest j = (let ss = map sl_seq (filter (\<lambda>s. sl_len s > 0) (mj_slots j)) in if ss = [] then None else Some (Max (set ss)))"

definition mj_mark_in :: "nat \<Rightarrow> mem_journal \<Rightarrow> mem_journal" where
  "mj_mark_in seq j = j\<lparr>mj_highest_in := raise_mark (mj_highest_in j) seq\<rparr>"

definition mj_mark_out :: "nat \<Rightarrow> mem_journal \<Rightarrow> mem_journal" where
  "mj_mark_out seq j = j\<lparr>mj_highest_out := raise_mark (mj_highest_out j) seq\<rparr>"

definition MemJournal :: "nat \<Rightarrow> nat \<Rightarrow> mem_journal journal" where
  "MemJournal N LEN = \<lparr>j_put = mj_put N LEN, j_get = mj_get N, j_highest = mj_highest, j_oldest = mj_oldest N,
     j_mark_in = mj_mark_in, j_mark_active = (\<lambda>_ j. j), j_last_active = (\<lambda>_. None), j_retire = (\<lambda>j. j),
     j_unwritten = (\<lambda>_. 0), j_highest_in = mj_highest_in, j_mark_out = mj_mark_out, j_highest_out = mj_highest_out\<rparr>"

subsection \<open>The contract\<close>

datatype journal_op = Put nat bytes | MarkIn nat | MarkOut nat | MarkActive nat

primrec apply_op :: "'j journal \<Rightarrow> journal_op \<Rightarrow> 'j \<Rightarrow> 'j" where
  "apply_op J (Put seq bs) j = snd (j_put J seq bs j)"
| "apply_op J (MarkIn seq) j = j_mark_in J seq j"
| "apply_op J (MarkOut seq) j = j_mark_out J seq j"
| "apply_op J (MarkActive t) j = j_mark_active J t j"

locale journal_laws =
  fixes J :: "'j journal"
  assumes put_kept: "j_put J seq bs j = (True, j') \<Longrightarrow> bs \<noteq> [] \<Longrightarrow> j_get J j' seq = Some bs"
    and put_empty: "j_put J seq [] j = (True, j') \<Longrightarrow> j_get J j' seq = None"
    and put_refused: "j_put J seq bs j = (False, j') \<Longrightarrow> j' = j"
    and put_other: "j_put J seq bs j = (r, j') \<Longrightarrow> n \<noteq> seq \<Longrightarrow> j_get J j' n = None \<or> j_get J j' n = j_get J j n"
    and get_mark_in: "j_get J (j_mark_in J seq j) n = j_get J j n"
    and get_mark_out: "j_get J (j_mark_out J seq j) n = j_get J j n"
    and get_mark_active: "j_get J (j_mark_active J t j) n = j_get J j n"
begin

text \<open>What a journal answers for a number was offered under that number, by the last offer it kept:
  no operation in between changed it.\<close>

lemma get_after_op:
  assumes "j_get J (apply_op J p j) n = Some bs"
  shows "p = Put n bs \<or> j_get J j n = Some bs"
proof (cases p)
  case (Put seq bs')
  obtain r j' where r: "j_put J seq bs' j = (r, j')" by (cases "j_put J seq bs' j")
  with assms Put have g: "j_get J j' n = Some bs" by simp
  show ?thesis
  proof (cases "n = seq")
    case True
    show ?thesis
    proof (cases r)
      case True
      then show ?thesis using r g put_kept [of seq bs' j j'] put_empty [of seq j j'] Put \<open>n = seq\<close> by (cases "bs' = []") auto
    next
      case False
      then have "j' = j" using r put_refused by simp
      with g show ?thesis by simp
    qed
  next
    case False
    with put_other [OF r False] g show ?thesis by auto
  qed
qed (use assms in \<open>simp_all add: get_mark_in get_mark_out get_mark_active\<close>)

lemma get_was_put:
  assumes "j_get J (fold (apply_op J) ps j) n = Some bs" "j_get J j n = None"
  shows "\<exists>before after. ps = before @ Put n bs # after \<and> j_get J (fold (apply_op J) (before @ [Put n bs]) j) n = Some bs"
  using assms
proof (induction ps rule: rev_induct)
  case (snoc p ps)
  then have "j_get J (apply_op J p (fold (apply_op J) ps j)) n = Some bs" by simp
  then consider "p = Put n bs" | "j_get J (fold (apply_op J) ps j) n = Some bs" using get_after_op by blast
  then show ?case
  proof cases
    case 1
    then show ?thesis using snoc.prems(1) by (intro exI [of _ ps] exI [of _ "[]"]) simp
  next
    case 2
    then show ?thesis using snoc.IH snoc.prems(2) by fastforce
  qed
qed simp

end

locale marked_journal = journal_laws +
  assumes mark_out_high: "j_highest_out J (j_mark_out J seq j) = raise_mark (j_highest_out J j) seq"
    and mark_in_high: "j_highest_in J (j_mark_in J seq j) = raise_mark (j_highest_in J j) seq"
    and mark_in_out: "j_highest_out J (j_mark_in J seq j) = j_highest_out J j"
    and mark_out_in: "j_highest_in J (j_mark_out J seq j) = j_highest_in J j"
    and active_out: "j_highest_out J (j_mark_active J t j) = j_highest_out J j"
    and put_high: "j_put J seq bs j = (True, j') \<Longrightarrow> j_highest_out J j' = raise_mark (j_highest_out J j) seq"
begin

lemma put_high_le:
  assumes "j_highest_out J j = Some h"
  shows "\<exists>h'. j_highest_out J (snd (j_put J seq bs j)) = Some h' \<and> h \<le> h'"
proof (cases "fst (j_put J seq bs j)")
  case True
  then have "j_put J seq bs j = (True, snd (j_put J seq bs j))" by (metis prod.collapse)
  from put_high [OF this] assms show ?thesis by (simp add: raise_mark_def)
next
  case False
  then have "j_put J seq bs j = (False, snd (j_put J seq bs j))" by (metis prod.collapse)
  from put_refused [OF this] assms show ?thesis by simp
qed

text \<open>The outbound mark never goes back, whatever is done to the journal afterwards.\<close>

lemma highest_out_mono:
  "j_highest_out J j = Some h \<Longrightarrow> \<exists>h'. j_highest_out J (fold (apply_op J) ps j) = Some h' \<and> h \<le> h'"
proof (induction ps arbitrary: j h)
  case (Cons p ps)
  have "\<exists>h'. j_highest_out J (apply_op J p j) = Some h' \<and> h \<le> h'"
    using Cons.prems put_high_le
    by (cases p) (auto simp: mark_out_high mark_in_out active_out raise_mark_def)
  then show ?case using Cons.IH by (fastforce intro: le_trans)
qed simp

lemma highest_out_covers:
  "MarkOut seq \<in> set ps \<Longrightarrow> \<exists>h. j_highest_out J (fold (apply_op J) ps j) = Some h \<and> seq \<le> h"
proof -
  assume "MarkOut seq \<in> set ps"
  then obtain xs ys where ps: "ps = xs @ MarkOut seq # ys" by (meson split_list)
  have "\<exists>h. j_highest_out J (apply_op J (MarkOut seq) (fold (apply_op J) xs j)) = Some h \<and> seq \<le> h"
    by (auto simp: mark_out_high raise_mark_def split: option.split)
  then show ?thesis unfolding ps using highest_out_mono by (fastforce intro: le_trans)
qed

end

interpretation no_journal: journal_laws NoJournal
  by unfold_locales (simp_all add: NoJournal_def)

lemma mj_get_put:
  assumes "mj_put N LEN seq bs j = (True, j')"
  shows "mj_get N j' seq = (if bs = [] then None else Some bs)"
  using assms by (auto simp: mj_put_def mj_get_def nth_opt_def split: if_splits option.splits)

lemma mj_get_put_other:
  assumes "mj_put N LEN seq bs j = (r, j')" "n \<noteq> seq"
  shows "mj_get N j' n = None \<or> mj_get N j' n = mj_get N j n"
  using assms by (cases "n mod N = seq mod N")
    (auto simp: mj_put_def mj_get_def nth_opt_def split: if_splits option.splits)

lemma mj_get_marks [simp]: "mj_get N (mj_mark_in seq j) n = mj_get N j n" "mj_get N (mj_mark_out seq j) n = mj_get N j n"
  by (simp_all add: mj_get_def mj_mark_in_def mj_mark_out_def)

lemma mj_put_refused: "mj_put N LEN seq bs j = (False, j') \<Longrightarrow> j' = j"
  and mj_put_high: "mj_put N LEN seq bs j = (True, j') \<Longrightarrow> mj_highest_out j' = raise_mark (mj_highest_out j) seq"
  by (auto simp: mj_put_def split: if_splits option.splits)

interpretation mem_journal: marked_journal "MemJournal N LEN" for N LEN
proof unfold_locales
  fix seq bs j j' r n
  assume "j_put (MemJournal N LEN) seq bs j = (r, j')" "n \<noteq> seq"
  then show "j_get (MemJournal N LEN) j' n = None \<or> j_get (MemJournal N LEN) j' n = j_get (MemJournal N LEN) j n"
    using mj_get_put_other by (simp add: MemJournal_def)
qed (simp_all add: MemJournal_def mj_get_put mj_put_high mj_mark_in_def mj_mark_out_def mj_put_refused [of N LEN],
     simp_all only: mj_put_refused mj_get_marks [unfolded mj_mark_in_def mj_mark_out_def])

subsection \<open>What the ring still holds\<close>

lemma mj_put_shape:
  assumes "mj_put N LEN seq bs j = (True, j')"
  shows "0 < N" "length (mj_slots j') = length (mj_slots j)" "mj_high_water j' = raise_mark (mj_high_water j) seq"
    "n mod N \<noteq> seq mod N \<Longrightarrow> mj_get N j' n = mj_get N j n"
  using assms by (auto simp: mj_put_def mj_get_def nth_opt_def split: if_splits option.splits)

text \<open>Offers in ascending order, each kept.\<close>

fun put_all :: "nat \<Rightarrow> nat \<Rightarrow> (nat \<times> bytes) list \<Rightarrow> mem_journal \<Rightarrow> mem_journal option" where
  "put_all N LEN [] j = Some j"
| "put_all N LEN ((seq, bs) # ps) j =
     (case mj_put N LEN seq bs j of (True, j') \<Rightarrow> put_all N LEN ps j' | (False, _) \<Rightarrow> None)"

lemma put_all_append:
  "put_all N LEN (ps @ qs) j = Option.bind (put_all N LEN ps j) (put_all N LEN qs)"
  by (induction ps arbitrary: j) (auto split: bool.splits prod.splits)

lemma put_all_high:
  "put_all N LEN ps j = Some j' \<Longrightarrow> mj_high_water j' = fold (\<lambda>(s, _) h. raise_mark h s) ps (mj_high_water j)"
  by (induction ps arbitrary: j) (auto split: bool.splits prod.splits simp: mj_put_shape(3))

lemma put_all_frame:
  "put_all N LEN ps j = Some j' \<Longrightarrow> \<forall>(s, bs) \<in> set ps. s mod N \<noteq> n mod N \<Longrightarrow> mj_get N j' n = mj_get N j n"
proof (induction ps arbitrary: j)
  case (Cons p ps)
  obtain s bs where p: "p = (s, bs)" by (cases p)
  obtain j1 where j1: "mj_put N LEN s bs j = (True, j1)" "put_all N LEN ps j1 = Some j'"
    using Cons.prems(1) unfolding p by (auto split: prod.splits bool.splits)
  have "mj_get N j' n = mj_get N j1 n" using Cons.IH [OF j1(2)] Cons.prems(2) by auto
  also have "\<dots> = mj_get N j n" using mj_put_shape(4) [OF j1(1), of n] Cons.prems(2) by (auto simp: p)
  finally show ?case .
qed simp

lemma fold_raise_sorted:
  "sorted (map fst ps) \<Longrightarrow> \<forall>s \<in> set (map fst ps). h \<le> s \<Longrightarrow>
   fold (\<lambda>(s, _) h. raise_mark h s) ps (Some h) = Some (last (h # map fst ps))"
  by (induction ps arbitrary: h) (auto simp: raise_mark_def max_def)

lemma near_mod_ne: "n < s \<Longrightarrow> s < n + N \<Longrightarrow> s mod N \<noteq> n mod (N :: nat)"
proof
  assume a: "n < s" "s < n + N" "s mod N = n mod N"
  then have "N dvd s - n" by (simp add: mod_eq_dvd_iff_nat)
  then show False using a by (auto dest: dvd_imp_le)
qed

lemma put_all_last:
  assumes "put_all N LEN ps (MemJournal_new N' LEN') = Some j" "sorted (map fst ps)" "ps \<noteq> []"
  shows "mj_high_water j = Some (last (map fst ps))"
proof -
  obtain s bs qs where ps: "ps = (s, bs) # qs" using assms(3) by (cases ps) auto
  have "mj_high_water j = fold (\<lambda>(s, _) h. raise_mark h s) ps None"
    using put_all_high [OF assms(1)] by (simp add: MemJournal_new_def)
  then show ?thesis using fold_raise_sorted [of qs s] assms(2) by (simp add: ps raise_mark_def)
qed

subsection \<open>Properties\<close>

text \<open>A resend never carries anybody else's bytes. Whatever was put into the ring and marked in it,
  in any order and with any numbers, the bytes it answers for a number are ones that were offered
  under exactly that number, and they were there right after that offer: colliding slots and reused
  numbers included.\<close>

theorem ring_answers_what_was_put:
  assumes "mj_get N (fold (apply_op (MemJournal N LEN)) ps (MemJournal_new N LEN)) n = Some bs"
  shows "\<exists>before after. ps = before @ Put n bs # after \<and>
    mj_get N (fold (apply_op (MemJournal N LEN)) (before @ [Put n bs]) (MemJournal_new N LEN)) n = Some bs"
proof -
  have "mj_get N (MemJournal_new N LEN) n = None" by (auto simp: mj_get_def MemJournal_new_def nth_opt_def)
  with mem_journal.get_was_put [of N LEN ps "MemJournal_new N LEN" n bs] assms show ?thesis
    by (simp add: MemJournal_def)
qed

theorem ring_answers_what_was_put_witness:
  "\<exists>before after. [Put 1 [65], Put 5 [66]] = before @ Put 5 [66] # after \<and>
    mj_get 4 (fold (apply_op (MemJournal 4 8)) (before @ [Put 5 [66]]) (MemJournal_new 4 8)) 5 = Some [66]"
  by (rule ring_answers_what_was_put)
    (simp add: MemJournal_def MemJournal_new_def mj_put_def mj_get_def nth_opt_def)

text \<open>The ring keeps everything from its floor up. When messages are kept in ascending order, each
  one numbered at or above what \<open>oldest\<close> answers is still there with its own bytes: a number above
  the floor that is missing was never kept.\<close>

theorem ring_keeps_from_floor_up:
  assumes "put_all N LEN ps (MemJournal_new N LEN) = Some j" "sorted_wrt (<) (map fst ps)" "N \<le> U32_MAX"
    and "(n, bs) \<in> set ps" "bs \<noteq> []" "mj_oldest N j = Some lo" "lo \<le> n"
  shows "mj_get N j n = Some bs"
proof -
  obtain xs ys where ps: "ps = xs @ (n, bs) # ys" using assms(4) by (meson split_list)
  have sorted: "sorted (map fst ps)" using assms(2) by (simp add: strict_sorted_imp_sorted)
  have hw: "mj_high_water j = Some (last (map fst ps))" using put_all_last [OF assms(1) sorted] ps by simp
  have N: "N \<noteq> 0" using assms(6) by (cases N) (simp_all add: mj_oldest_def)
  have le: "s \<le> last (map fst ps)" if "s \<in> set (map fst ys)" for s
    using that sorted ps by (cases ys rule: rev_cases) (auto simp: sorted_append)
  have near: "s mod N \<noteq> n mod N" if "s \<in> set (map fst ys)" for s
  proof (rule near_mod_ne)
    show "n < s" using assms(2) that ps by (auto simp: sorted_wrt_append)
    have "last (map fst ps) - (N - 1) \<le> n" using assms(3,6,7) hw N by (auto simp: mj_oldest_def Let_def)
    then show "s < n + N" using le [OF that] N by linarith
  qed
  obtain j0 where j0: "put_all N LEN xs (MemJournal_new N LEN) = Some j0" "put_all N LEN ((n, bs) # ys) j0 = Some j"
    using assms(1) unfolding ps put_all_append by (auto simp: Option.bind_eq_Some_conv)
  then obtain j1 where j1: "mj_put N LEN n bs j0 = (True, j1)" "put_all N LEN ys j1 = Some j"
    by (auto split: prod.splits bool.splits)
  have "mj_get N j n = mj_get N j1 n" by (rule put_all_frame [OF j1(2)]) (use near in force)
  with mj_get_put [OF j1(1)] assms(5) show ?thesis by simp
qed

theorem ring_keeps_from_floor_up_witness:
  "\<exists>j. put_all 4 8 [(2, [65]), (5, [66]), (7, [67])] (MemJournal_new 4 8) = Some j \<and> mj_oldest 4 j = Some 4 \<and> mj_get 4 j 5 = Some [66]"
proof -
  obtain j where j: "put_all 4 8 [(2, [65]), (5, [66]), (7, [67])] (MemJournal_new 4 8) = Some j" "mj_oldest 4 j = Some 4"
    by (simp add: MemJournal_new_def mj_put_def nth_opt_def mj_oldest_def raise_mark_def)
  have "mj_get 4 j 5 = Some [66]" by (rule ring_keeps_from_floor_up [OF j(1) _ _ _ _ j(2)]) simp_all
  with j show ?thesis by blast
qed

text \<open>Below its floor the ring may still hold messages. After keeping numbers 1 and 10 in a ring of
  four slots the floor is 7, and number 1 is still answered.\<close>

theorem floor_does_not_mean_gone:
  "\<exists>j. put_all 4 8 [(1, [65]), (10, [66])] (MemJournal_new 4 8) = Some j \<and> mj_oldest 4 j = Some 7 \<and> mj_get 4 j 1 = Some [65]"
  by (simp add: MemJournal_new_def mj_put_def mj_get_def nth_opt_def mj_oldest_def raise_mark_def)

text \<open>The journal always knows a highest outbound number at least as high as every one it was told
  of. Once a number was marked as spent, no later operation on the ring lowers what a restart
  would read.\<close>

theorem spent_number_is_remembered:
  assumes "MarkOut seq \<in> set ps"
  shows "\<exists>h. mj_highest_out (fold (apply_op (MemJournal N LEN)) ps j) = Some h \<and> seq \<le> h"
  using mem_journal.highest_out_covers [OF assms, of N LEN j] by (simp add: MemJournal_def)

theorem spent_number_is_remembered_witness:
  "\<exists>h. mj_highest_out (fold (apply_op (MemJournal 4 8)) [MarkOut 9, Put 3 [65]] (MemJournal_new 4 8)) = Some h \<and> 9 \<le> h"
  by (rule spent_number_is_remembered) simp

end
