(* ===== verification/Config.thy ===== *)
theory Config
  imports Schedule Validate
begin

text \<open>
  The configuration of a session (\<open>Config\<close>, \<open>ResetPolicy\<close> and the states, refusals and drop
  reasons of \<open>crates/session/src/lib.rs\<close>). A \<open>Name<N>\<close> is its first \<open>N\<close> bytes and whether that
  was all of it; the array behind it is zero past its length, so comparing two names compares these.
\<close>

record name =
  nm_bytes :: bytes
  nm_fits :: bool

definition Name_new :: "nat \<Rightarrow> bytes \<Rightarrow> name" where
  "Name_new N src = \<lparr>nm_bytes = take (if length src < N then length src else N) src, nm_fits = length src \<le> N\<rparr>"

definition nm_matches :: "name \<Rightarrow> bytes \<Rightarrow> bool" where
  "nm_matches n other \<longleftrightarrow> nm_fits n \<and> nm_bytes n = other"

definition nm_get :: "name \<Rightarrow> bytes option" where
  "nm_get n = (if nm_fits n then Some (nm_bytes n) else None)"

lemma nm_get_new: "nm_get (Name_new N src) = (if length src \<le> N then Some src else None)"
  by (simp add: nm_get_def Name_new_def)

lemma nm_matches_new: "nm_matches (Name_new N src) other \<longleftrightarrow> length src \<le> N \<and> src = other"
  by (auto simp: nm_matches_def Name_new_def)

abbreviation (input) MAX_BEGIN_STRING_LEN :: nat where "MAX_BEGIN_STRING_LEN \<equiv> 16"
abbreviation (input) MAX_COMP_ID_LEN :: nat where "MAX_COMP_ID_LEN \<equiv> 32"
abbreviation (input) MAX_APPL_VER_ID_LEN :: nat where "MAX_APPL_VER_ID_LEN \<equiv> 16"
abbreviation (input) DEFAULT_MAX_SKEW_MS :: nat where "DEFAULT_MAX_SKEW_MS \<equiv> 120000"
abbreviation (input) DEFAULT_HEART_BT_INT :: nat where "DEFAULT_HEART_BT_INT \<equiv> 30"
abbreviation (input) DEFAULT_RESEND_BATCH :: nat where "DEFAULT_RESEND_BATCH \<equiv> 8"

subsection \<open>Reset policy\<close>

record reset_policy =
  rp_on_logon :: bool
  rp_on_logout :: bool
  rp_on_disconnect :: bool

definition ResetPolicy_new :: reset_policy where
  "ResetPolicy_new = \<lparr>rp_on_logon = False, rp_on_logout = False, rp_on_disconnect = False\<rparr>"

definition on_logon :: "reset_policy \<Rightarrow> reset_policy" where "on_logon p = p\<lparr>rp_on_logon := True\<rparr>"
definition on_logout :: "reset_policy \<Rightarrow> reset_policy" where "on_logout p = p\<lparr>rp_on_logout := True\<rparr>"
definition on_disconnect :: "reset_policy \<Rightarrow> reset_policy" where "on_disconnect p = p\<lparr>rp_on_disconnect := True\<rparr>"

subsection \<open>Config\<close>

record config =
  cf_begin_string :: name
  cf_sender_comp_id :: name
  cf_target_comp_id :: name
  cf_max_skew_ms :: nat
  cf_heart_bt_int :: nat
  cf_schedule :: schedule
  cf_resend_batch :: nat
  cf_next_expected :: bool
  cf_last_processed :: bool
  cf_timestamp_precision :: precision
  cf_reset :: reset_policy
  cf_logon_timeout_ms :: nat
  cf_logout_timeout_ms :: nat
  cf_validation :: dictionary_checks
  cf_default_appl_ver_id :: "name option"

definition Config_acceptor :: "bytes \<Rightarrow> bytes \<Rightarrow> bytes \<Rightarrow> config" where
  "Config_acceptor begin_string sender target =
     \<lparr>cf_begin_string = Name_new MAX_BEGIN_STRING_LEN begin_string, cf_sender_comp_id = Name_new MAX_COMP_ID_LEN sender,
      cf_target_comp_id = Name_new MAX_COMP_ID_LEN target, cf_max_skew_ms = DEFAULT_MAX_SKEW_MS,
      cf_heart_bt_int = DEFAULT_HEART_BT_INT, cf_schedule = Schedule_always, cf_resend_batch = DEFAULT_RESEND_BATCH,
      cf_next_expected = False, cf_last_processed = False, cf_timestamp_precision = Millis, cf_reset = ResetPolicy_new,
      cf_logon_timeout_ms = 0, cf_logout_timeout_ms = 0, cf_validation = DictionaryChecks_new, cf_default_appl_ver_id = None\<rparr>"

definition Config_acceptor_fixt :: "bytes \<Rightarrow> bytes \<Rightarrow> bytes \<Rightarrow> bytes \<Rightarrow> config" where
  "Config_acceptor_fixt begin_string sender target ver =
     (Config_acceptor begin_string sender target)\<lparr>cf_default_appl_ver_id := Some (Name_new MAX_APPL_VER_ID_LEN ver)\<rparr>"

definition Config_initiator :: "bytes \<Rightarrow> bytes \<Rightarrow> bytes \<Rightarrow> config" where
  "Config_initiator begin_string sender target = Config_acceptor begin_string sender target"

definition with_heart_bt_int :: "nat \<Rightarrow> config \<Rightarrow> config" where "with_heart_bt_int n c = c\<lparr>cf_heart_bt_int := n\<rparr>"
definition with_next_expected :: "bool \<Rightarrow> config \<Rightarrow> config" where "with_next_expected on c = c\<lparr>cf_next_expected := on\<rparr>"
definition with_last_processed :: "bool \<Rightarrow> config \<Rightarrow> config" where "with_last_processed on c = c\<lparr>cf_last_processed := on\<rparr>"
definition with_timestamp_precision :: "precision \<Rightarrow> config \<Rightarrow> config" where
  "with_timestamp_precision p c = c\<lparr>cf_timestamp_precision := p\<rparr>"
definition with_resend_batch :: "nat \<Rightarrow> config \<Rightarrow> config" where
  "with_resend_batch n c = c\<lparr>cf_resend_batch := (if n = 0 then 1 else n)\<rparr>"
definition with_reset :: "reset_policy \<Rightarrow> config \<Rightarrow> config" where "with_reset r c = c\<lparr>cf_reset := r\<rparr>"
definition with_logon_timeout_ms :: "nat \<Rightarrow> config \<Rightarrow> config" where "with_logon_timeout_ms n c = c\<lparr>cf_logon_timeout_ms := n\<rparr>"
definition with_logout_timeout_ms :: "nat \<Rightarrow> config \<Rightarrow> config" where "with_logout_timeout_ms n c = c\<lparr>cf_logout_timeout_ms := n\<rparr>"
definition with_validation :: "dictionary_checks \<Rightarrow> config \<Rightarrow> config" where "with_validation v c = c\<lparr>cf_validation := v\<rparr>"
definition with_schedule :: "schedule \<Rightarrow> config \<Rightarrow> config" where "with_schedule s c = c\<lparr>cf_schedule := s\<rparr>"
definition with_max_skew_ms :: "nat \<Rightarrow> config \<Rightarrow> config" where "with_max_skew_ms n c = c\<lparr>cf_max_skew_ms := n\<rparr>"

definition inbound_sender_matches :: "config \<Rightarrow> bytes \<Rightarrow> bool" where
  "inbound_sender_matches c comp_id = nm_matches (cf_target_comp_id c) comp_id"

definition inbound_target_matches :: "config \<Rightarrow> bytes \<Rightarrow> bool" where
  "inbound_target_matches c comp_id = nm_matches (cf_sender_comp_id c) comp_id"

definition is_fixt :: "config \<Rightarrow> bool" where
  "is_fixt c = nm_matches (cf_begin_string c) (b ''FIXT.1.1'')"

definition appl_ver_id_held :: "config \<Rightarrow> bytes option" where
  "appl_ver_id_held c = Option.bind (cf_default_appl_ver_id c) (\<lambda>n. copy MAX_APPL_VER_ID_LEN (nm_get n))"

definition same_identity_as :: "config \<Rightarrow> config \<Rightarrow> bool" where
  "same_identity_as c d \<longleftrightarrow> cf_begin_string c = cf_begin_string d \<and> cf_sender_comp_id c = cf_sender_comp_id d \<and>
     cf_target_comp_id c = cf_target_comp_id d"

definition serves :: "config \<Rightarrow> bytes \<Rightarrow> bytes \<Rightarrow> bool" where
  "serves c sender target \<longleftrightarrow> inbound_sender_matches c sender \<and> inbound_target_matches c target"

subsection \<open>States, refusals and drop reasons\<close>

datatype state = Disconnected | AwaitingLogon | MustLogon | LoggedOn | AwaitingLogout | LoggingOut

datatype link = Up | Dropped

datatype refusal =
    WrongBeginString | NotALogon | LogonIncomplete | LogonWithoutDefaultApplVerId | WrongSenderCompId
  | WrongTargetCompId | NeverTicked | BadSendingTime | BadSeqNum | OutsideSchedule | CannotSend

datatype drop_reason =
    DrWrongBeginString | DrNotALogon | DrLogonIncomplete | DrLogonWithoutDefaultApplVerId | DrWrongSenderCompId
  | DrWrongTargetCompId | DrSendingTimeOutOfRange | DrNeverTicked | DrSequenceNumberTooLow | DrNextExpectedTooHigh
  | DrOutsideSchedule | DrCannotSend | DrHeartbeatTimeout | DrLogonTimedOut | DrLogoutTimedOut | DrPeerLogout
  | DrScheduleClosed | DrTransportClosed | DrDuplicateIdentity | DrRefusedByDeployment | DrSlowApplication
  | DrSlowConsumer | DrEngineShutdown

definition drop_reason_of :: "refusal \<Rightarrow> drop_reason" where
  "drop_reason_of r = (case r of
       WrongBeginString \<Rightarrow> DrWrongBeginString | NotALogon \<Rightarrow> DrNotALogon | LogonIncomplete \<Rightarrow> DrLogonIncomplete
     | LogonWithoutDefaultApplVerId \<Rightarrow> DrLogonWithoutDefaultApplVerId | WrongSenderCompId \<Rightarrow> DrWrongSenderCompId
     | WrongTargetCompId \<Rightarrow> DrWrongTargetCompId | NeverTicked \<Rightarrow> DrNeverTicked | BadSendingTime \<Rightarrow> DrSendingTimeOutOfRange
     | BadSeqNum \<Rightarrow> DrSequenceNumberTooLow | OutsideSchedule \<Rightarrow> DrOutsideSchedule | CannotSend \<Rightarrow> DrCannotSend)"

subsection \<open>The outbound templates\<close>

text \<open>\<open>Outbound\<close> (\<open>crates/session/src/out.rs\<close>): one template per message the session writes itself.\<close>

datatype which = WLogon | WLogout | WReject | WHeartbeat | WTestRequest | WResendRequest | WGapFill

definition out_head :: "bytes \<Rightarrow> bytes \<Rightarrow> bytes \<Rightarrow> decl list" where
  "out_head mt sender target = [Field 35 mt, Field 49 sender, Field 56 target]"

definition out_slots :: "which \<Rightarrow> nat list" where
  "out_slots w = (case w of
       WLogon \<Rightarrow> [34, 52, 369, 98, 108, 141, 789, 1137]
     | WLogout \<Rightarrow> [34, 52, 369, 58]
     | WReject \<Rightarrow> [34, 52, 369, 115, 116, 144, 128, 129, 145, 45, 58, 371, 372, 373]
     | WHeartbeat \<Rightarrow> [34, 52, 369, 112]
     | WTestRequest \<Rightarrow> [34, 52, 369, 112]
     | WResendRequest \<Rightarrow> [34, 52, 369, 7, 16]
     | WGapFill \<Rightarrow> [34, 43, 52, 369, 122, 36, 123])"

definition out_msg_type :: "which \<Rightarrow> bytes" where
  "out_msg_type w = (case w of WLogon \<Rightarrow> b ''A'' | WLogout \<Rightarrow> b ''5'' | WReject \<Rightarrow> b ''3'' | WHeartbeat \<Rightarrow> b ''0''
     | WTestRequest \<Rightarrow> b ''1'' | WResendRequest \<Rightarrow> b ''2'' | WGapFill \<Rightarrow> b ''4'')"

definition out_template :: "('z) dictionary_scheme \<Rightarrow> bytes \<Rightarrow> bytes \<Rightarrow> bytes \<Rightarrow> which \<Rightarrow> encode_error + template" where
  "out_template D begin_string sender target w =
     build D (fold tb_declare (out_head (out_msg_type w) sender target @ map Slot (out_slots w))
       (TemplateBuilder_new 24 320 begin_string))"

record outbound =
  ob_logon :: template
  ob_logout :: template
  ob_reject :: template
  ob_heartbeat :: template
  ob_test_request :: template
  ob_resend_request :: template
  ob_gap_fill :: template

definition Outbound_new :: "('z) dictionary_scheme \<Rightarrow> bytes \<Rightarrow> bytes \<Rightarrow> bytes \<Rightarrow> outbound option" where
  "Outbound_new D begin_string sender target =
     (let T = out_template D begin_string sender target in
      case (bindR (T WLogon) (\<lambda>logon. bindR (T WLogout) (\<lambda>logout. bindR (T WReject) (\<lambda>reject.
            bindR (T WHeartbeat) (\<lambda>heartbeat. bindR (T WTestRequest) (\<lambda>test_request.
            bindR (T WResendRequest) (\<lambda>resend_request. bindR (T WGapFill) (\<lambda>gap_fill.
              Inr \<lparr>ob_logon = logon, ob_logout = logout, ob_reject = reject, ob_heartbeat = heartbeat,
                   ob_test_request = test_request, ob_resend_request = resend_request, ob_gap_fill = gap_fill\<rparr>)))))))) of
        Inl _ \<Rightarrow> None | Inr ob \<Rightarrow> Some ob)"

definition ob_template :: "outbound \<Rightarrow> which \<Rightarrow> template" where
  "ob_template ob w = (case w of WLogon \<Rightarrow> ob_logon ob | WLogout \<Rightarrow> ob_logout ob | WReject \<Rightarrow> ob_reject ob
     | WHeartbeat \<Rightarrow> ob_heartbeat ob | WTestRequest \<Rightarrow> ob_test_request ob | WResendRequest \<Rightarrow> ob_resend_request ob
     | WGapFill \<Rightarrow> ob_gap_fill ob)"

lemma Outbound_new_template:
  "Outbound_new D bs sender target = Some ob \<Longrightarrow> out_template D bs sender target w = Inr (ob_template ob w)"
  by (cases w) (auto simp: Outbound_new_def ob_template_def bindR_Inr_iff Let_def split: sum.splits)

end
