(* ===== verification/Session.thy ===== *)
theory Session
  imports Config Resend Journal
begin

text \<open>
  The session state machine of \<open>crates/session/src/lib.rs\<close>: its state and every operation but the
  judging of an inbound message. The callback \<open>emit\<close> is the field \<open>s_wire\<close>, the messages
  emitted so far in order. What the source borrows from outside (the dictionary, the capacity of the
  field index, the role, the application, the journal) is the record \<open>env\<close>. A fallible operation
  answers \<open>refusal + 'a\<close> beside the session it leaves, because the state changes in front of an
  error stay. Unsigned sums wrap as in a release build.
\<close>

record replay =
  rp_next :: nat
  rp_end :: nat

record queued =
  q_seq :: nat
  q_bytes :: bytes

abbreviation (input) QUEUED :: nat where "QUEUED \<equiv> 4"
abbreviation (input) QUEUED_LEN :: nat where "QUEUED_LEN \<equiv> 512"

record session =
  s_cfg :: config
  s_state :: state
  s_now_ms :: nat
  s_now_sub_ms_nanos :: nat
  s_now_resolution :: precision
  s_out :: "outbound option"
  s_stamp :: timestamp_cache
  s_next_out :: nat
  s_next_in :: nat
  s_beat_ms :: nat
  s_session_mark :: "nat option"
  s_last_drop_reason :: "drop_reason option"
  s_peer_appl_ver_id :: "bytes option"
  s_last_skew_ms :: "int option"
  s_last_sent_ms :: nat
  s_last_recv_ms :: nat
  s_test_requests :: nat
  s_resend_from :: nat
  s_last_in :: nat
  s_resend_to :: nat
  s_resumed :: bool
  s_queue :: "queued list"
  s_owed :: "replay option"
  s_puts_refused :: nat
  s_resend_beyond_journal :: nat
  s_awaiting_logon_since_ms :: "nat option"
  s_logging_out_since_ms :: "nat option"
  s_wire :: "bytes list"

text \<open>The header an application gets with a message, and what a session is built over.\<close>

record header =
  h_seq :: nat
  h_stamp :: bytes
  h_last_processed :: "nat option"

record ('a, 'j) env =
  e_tables :: tables
  e_fields :: nat
  e_app_scratch :: nat
  e_speaks_first :: bool
  e_on_message :: "'a \<Rightarrow> bytes \<Rightarrow> header \<Rightarrow> nat \<Rightarrow> bytes option \<times> 'a"
  e_journal :: "'j journal"

type_synonym slots = "(nat \<times> bytes) list"

definition emit_msg :: "bytes \<Rightarrow> session \<Rightarrow> session" where
  "emit_msg m s = s\<lparr>s_wire := s_wire s @ [m]\<rparr>"

subsection \<open>Construction\<close>

definition Session_new :: "('a, 'j) env \<Rightarrow> config \<Rightarrow> session" where
  "Session_new e cfg =
     (let names_fit = (case cf_default_appl_ver_id cfg of None \<Rightarrow> True | Some n \<Rightarrow> nm_get n \<noteq> None);
          out = (case (nm_get (cf_begin_string cfg), nm_get (cf_sender_comp_id cfg)) of
                   (Some bs, Some sender) \<Rightarrow>
                     if names_fit then Option.bind (nm_get (cf_target_comp_id cfg)) (\<lambda>target. Outbound_new (e_tables e) bs sender target)
                     else None
                 | _ \<Rightarrow> None) in
      \<lparr>s_cfg = cfg, s_state = Disconnected, s_now_ms = 0, s_now_sub_ms_nanos = 0, s_now_resolution = Millis, s_out = out,
       s_stamp = TimestampCache_with_precision (cf_timestamp_precision cfg), s_next_out = 1, s_next_in = 1, s_beat_ms = 0,
       s_session_mark = None, s_last_drop_reason = None, s_peer_appl_ver_id = None, s_last_skew_ms = None,
       s_last_sent_ms = 0, s_last_recv_ms = 0, s_test_requests = 0, s_resend_from = 0, s_last_in = 0, s_resend_to = 0,
       s_resumed = False, s_queue = replicate QUEUED \<lparr>q_seq = 0, q_bytes = []\<rparr>, s_owed = None, s_puts_refused = 0,
       s_resend_beyond_journal = 0, s_awaiting_logon_since_ms = None, s_logging_out_since_ms = None, s_wire = []\<rparr>)"

definition Session_resume :: "('a, 'j) env \<Rightarrow> config \<Rightarrow> nat \<Rightarrow> nat \<Rightarrow> session" where
  "Session_resume e cfg next_out next_in =
     (Session_new e cfg)\<lparr>s_next_out := next_out, s_next_in := next_in, s_resumed := True\<rparr>"

definition Session_resume_at :: "('a, 'j) env \<Rightarrow> config \<Rightarrow> nat \<Rightarrow> nat \<Rightarrow> nat \<Rightarrow> session" where
  "Session_resume_at e cfg next_out next_in last_active_ms =
     (Session_resume e cfg next_out next_in)\<lparr>s_session_mark := Some last_active_ms\<rparr>"

subsection \<open>Time\<close>

definition stamp_precision :: "session \<Rightarrow> precision" where
  "stamp_precision s = coarser (cf_timestamp_precision (s_cfg s)) (s_now_resolution s)"

definition stamp_now :: "session \<Rightarrow> bytes \<times> session" where
  "stamp_now s =
     (let unix = s_now_ms s - MILLIS_YEAR_ZERO_TO_EPOCH;
          len = precision_bytes (stamp_precision s);
          (full, cache) = ts_format (s_stamp s) unix (s_now_sub_ms_nanos s) in
      ((if len \<le> length full then take len full else replicate len 0), s\<lparr>s_stamp := cache\<rparr>))"

definition roll_if_a_boundary_passed :: "nat \<Rightarrow> session \<Rightarrow> session" where
  "roll_if_a_boundary_passed now_ms s =
     (case s_session_mark s of
        None \<Rightarrow> s\<lparr>s_session_mark := Some now_ms\<rparr>
      | Some mark \<Rightarrow>
          let s = (if \<not> same_session (cf_schedule (s_cfg s)) mark now_ms
                   then s\<lparr>s_next_out := 1, s_next_in := 1, s_resend_from := 0, s_resend_to := 0, s_owed := None\<rparr> else s) in
          s\<lparr>s_session_mark := Some now_ms\<rparr>)"

definition end_session :: "drop_reason \<Rightarrow> session \<Rightarrow> session" where
  "end_session why s =
     (let by_logout = (why = DrPeerLogout); reset = cf_reset (s_cfg s);
          s = (if (by_logout \<and> rp_on_logout reset) \<or> (\<not> by_logout \<and> rp_on_disconnect reset)
               then s\<lparr>s_next_out := 1, s_next_in := 1\<rparr> else s) in
      s\<lparr>s_last_drop_reason := Some why, s_state := Disconnected, s_owed := None\<rparr>)"

subsection \<open>Sending\<close>

definition send_as :: "('a, 'j) env \<Rightarrow> which \<Rightarrow> nat option \<Rightarrow> slots \<Rightarrow> session \<Rightarrow> (refusal + unit) \<times> session" where
  "send_as e which at extra s =
     (let (stamp, s) = stamp_now s;
          seq = lib_digits (case at of Some n \<Rightarrow> n | None \<Rightarrow> s_next_out s);
          last = (if cf_last_processed (s_cfg s) then [(369, lib_digits (s_last_in s))] else []) in
      case s_out s of
        None \<Rightarrow> (Inl CannotSend, s)
      | Some ob \<Rightarrow>
          let slots = [(34, seq), (52, stamp)] @ last @ extra in
          if length slots > 18 then (Inl CannotSend, s)
          else case encode_with (e_tables e) (ob_template ob which) (replicate 512 0) slots [] of
            Inl _ \<Rightarrow> (Inl CannotSend, s)
          | Inr r \<Rightarrow>
              let s = emit_msg (message_of r) s;
                  s = (if at = None then s\<lparr>s_next_out := wrap32 (s_next_out s + 1)\<rparr> else s) in
              (Inr (), s\<lparr>s_last_sent_ms := s_now_ms s\<rparr>))"

definition send :: "('a, 'j) env \<Rightarrow> which \<Rightarrow> slots \<Rightarrow> session \<Rightarrow> (refusal + unit) \<times> session" where
  "send e which extra s = send_as e which None extra s"

definition is_ok :: "'e + 'x \<Rightarrow> bool" where
  "is_ok r = (case r of Inr _ \<Rightarrow> True | Inl _ \<Rightarrow> False)"

definition set_next_out :: "nat \<Rightarrow> session \<Rightarrow> bool \<times> session" where
  "set_next_out n s = (if n = 0 then (False, s) else (True, s\<lparr>s_next_out := n\<rparr>))"

definition set_next_in :: "nat \<Rightarrow> session \<Rightarrow> bool \<times> session" where
  "set_next_in n s = (if n = 0 then (False, s) else (True, s\<lparr>s_next_in := n\<rparr>))"

definition send_sequence_reset :: "('a, 'j) env \<Rightarrow> nat \<Rightarrow> session \<Rightarrow> bool \<times> session" where
  "send_sequence_reset e n s =
     (if n = 0 then (False, s)
      else let (r, s) = send_as e WGapFill None [(36, lib_digits n), (123, b ''N'')] s in
        if is_ok r then (True, s\<lparr>s_next_out := n\<rparr>) else (False, s))"

definition send_heartbeat :: "('a, 'j) env \<Rightarrow> session \<Rightarrow> bool \<times> session" where
  "send_heartbeat e s =
     (if s_state s \<noteq> LoggedOn then (False, s) else let (r, s) = send e WHeartbeat [] s in (is_ok r, s))"

definition send_test_request :: "('a, 'j) env \<Rightarrow> bytes \<Rightarrow> session \<Rightarrow> bool \<times> session" where
  "send_test_request e req_id s =
     (if s_state s \<noteq> LoggedOn then (False, s) else let (r, s) = send e WTestRequest [(112, req_id)] s in (is_ok r, s))"

definition send_resend_request :: "('a, 'j) env \<Rightarrow> nat \<Rightarrow> nat \<Rightarrow> session \<Rightarrow> bool \<times> session" where
  "send_resend_request e from to s =
     (if s_state s \<noteq> LoggedOn then (False, s)
      else let (r, s) = send e WResendRequest [(7, lib_digits from), (16, lib_digits to)] s in (is_ok r, s))"

definition is_logged_on :: "session \<Rightarrow> bool" where
  "is_logged_on s \<longleftrightarrow> s_state s = LoggedOn"

definition tell_journal :: "('a, 'j) env \<Rightarrow> session \<Rightarrow> 'j \<Rightarrow> 'j" where
  "tell_journal e s j = (if s_next_out s > 1 then j_mark_out (e_journal e) (s_next_out s - 1) j else j)"

definition send_sequence_reset_with :: "('a, 'j) env \<Rightarrow> nat \<Rightarrow> session \<Rightarrow> 'j \<Rightarrow> bool \<times> session \<times> 'j" where
  "send_sequence_reset_with e n s j = (let (sent, s) = send_sequence_reset e n s in (sent, s, tell_journal e s j))"

subsection \<open>The link\<close>

definition connect :: "('a, 'j) env \<Rightarrow> session \<Rightarrow> link \<times> session" where
  "connect e s =
     (let s = s\<lparr>s_state := AwaitingLogon, s_last_drop_reason := None, s_awaiting_logon_since_ms := None,
                s_logging_out_since_ms := None\<rparr>;
          s = (if \<not> s_resumed s \<or> rp_on_logon (cf_reset (s_cfg s)) then s\<lparr>s_next_out := 1, s_next_in := 1\<rparr> else s) in
      (Up, if e_speaks_first e then s\<lparr>s_state := MustLogon\<rparr> else s))"

definition note_drop_reason :: "drop_reason \<Rightarrow> session \<Rightarrow> session" where
  "note_drop_reason why s = (if s_last_drop_reason s = None then s\<lparr>s_last_drop_reason := Some why\<rparr> else s)"

definition disconnect_with :: "drop_reason \<Rightarrow> session \<Rightarrow> link \<times> session" where
  "disconnect_with why s =
     (Dropped, if s_last_drop_reason s = None then end_session why s else s\<lparr>s_state := Disconnected\<rparr>)"

definition disconnect :: "session \<Rightarrow> link \<times> session" where
  "disconnect s = disconnect_with DrTransportClosed s"

definition begin_logout :: "('a, 'j) env \<Rightarrow> bytes \<Rightarrow> session \<Rightarrow> link \<times> session" where
  "begin_logout e txt' s =
     (if s_state s \<noteq> LoggedOn then
        (Dropped, if s_state s \<noteq> Disconnected then end_session DrEngineShutdown s else s)
      else let (r, s) = send e WLogout (if txt' = [] then [] else [(58, txt')]) s in
        if is_ok r then (Up, s\<lparr>s_state := LoggingOut\<rparr>) else (Dropped, end_session DrCannotSend s))"

definition begin_logout_with :: "('a, 'j) env \<Rightarrow> bytes \<Rightarrow> session \<Rightarrow> 'j \<Rightarrow> link \<times> session \<times> 'j" where
  "begin_logout_with e txt' s j = (let (l, s) = begin_logout e txt' s in (l, s, tell_journal e s j))"

definition logout_now :: "('a, 'j) env \<Rightarrow> bytes \<Rightarrow> session \<Rightarrow> link \<times> session" where
  "logout_now e txt' s =
     (if s_state s = Disconnected \<or> s_state s = AwaitingLogout then (Dropped, s)
      else let (_, s) = send e WLogout [(58, txt')] s in (Dropped, s\<lparr>s_state := AwaitingLogout\<rparr>))"

definition logout_now_with :: "('a, 'j) env \<Rightarrow> bytes \<Rightarrow> session \<Rightarrow> 'j \<Rightarrow> link \<times> session \<times> 'j" where
  "logout_now_with e txt' s j = (let (l, s) = logout_now e txt' s in (l, s, tell_journal e s j))"

definition logout_with :: "('a, 'j) env \<Rightarrow> session_text \<Rightarrow> session \<Rightarrow> link \<times> session" where
  "logout_with e why s =
     (let s = (case text_render why (replicate TEXT_MAX_LEN 0) of
                 None \<Rightarrow> s
               | Some (buf, n) \<Rightarrow> snd (send e WLogout [(58, take n buf)] s)) in
      (Dropped, s\<lparr>s_state := AwaitingLogout\<rparr>))"

subsection \<open>Rejecting\<close>

record reject =
  rj_text :: session_text
  rj_ref_tag :: "bytes option"
  rj_ref_msg_type :: "bytes option"
  rj_ref_seq :: "nat option"
  rj_route :: slots

definition opt_slot :: "nat \<Rightarrow> bytes option \<Rightarrow> slots" where
  "opt_slot tag v = (case v of Some x \<Rightarrow> [(tag, x)] | None \<Rightarrow> [])"

definition send_reject :: "('a, 'j) env \<Rightarrow> reject \<Rightarrow> session \<Rightarrow> link \<times> session" where
  "send_reject e r s =
     (case text_render (rj_text r) (replicate TEXT_MAX_LEN 0) of
        None \<Rightarrow> (Dropped, end_session DrCannotSend s)
      | Some (buf, len) \<Rightarrow>
          let extra = rj_route r @ opt_slot 45 (map_option lib_digits (rj_ref_seq r)) @ [(58, take len buf)] @
                opt_slot 371 (rj_ref_tag r) @ opt_slot 372 (rj_ref_msg_type r) @
                opt_slot 373 (map_option lib_digits (session_reject_reason (rj_text r)));
              (sent, s) = send e WReject extra s in
          if \<not> is_ok sent then (Dropped, end_session DrCannotSend s)
          else if rj_text r = CompIdProblem \<or> rj_text r = SendingTimeAccuracyProblem then
            (Dropped, (snd (send e WLogout [] s))\<lparr>s_state := AwaitingLogout\<rparr>)
          else (Up, s))"

subsection \<open>The queue of messages ahead of the count\<close>

definition enqueue :: "nat \<Rightarrow> bytes \<Rightarrow> session \<Rightarrow> session" where
  "enqueue seq bs s =
     (if length bs > QUEUED_LEN then s
      else case List.find (\<lambda>i. q_seq (s_queue s ! i) = seq \<or> q_seq (s_queue s ! i) = 0) [0..<QUEUED] of
        None \<Rightarrow> s
      | Some i \<Rightarrow> s\<lparr>s_queue := (s_queue s)[i := \<lparr>q_seq = seq, q_bytes = bs\<rparr>]\<rparr>)"

definition advance_past :: "nat \<Rightarrow> session \<Rightarrow> session" where
  "advance_past seq s =
     (let s = s\<lparr>s_next_in := wrap32 (seq + 1)\<rparr> in
      if s_resend_from s \<noteq> 0 \<and> seq \<ge> s_resend_to s then s\<lparr>s_resend_from := 0, s_resend_to := 0\<rparr> else s)"

definition too_high :: "('a, 'j) env \<Rightarrow> nat \<Rightarrow> bytes \<Rightarrow> session \<Rightarrow> link \<times> session" where
  "too_high e seq bs s =
     (let s = enqueue seq bs s in
      if s_resend_from s \<noteq> 0 \<and> seq \<ge> s_resend_from s then (Up, s)
      else let s = s\<lparr>s_resend_from := s_next_in s, s_resend_to := seq - 1\<rparr>;
               (r, s) = send e WResendRequest [(7, lib_digits (s_next_in s)), (16, b ''0'')] s in
        if is_ok r then (Up, s) else (Dropped, end_session DrCannotSend s))"

subsection \<open>Replaying\<close>

definition kept :: "('a, 'j) env \<Rightarrow> 'j \<Rightarrow> nat \<Rightarrow> bool" where
  "kept e j seq \<longleftrightarrow> j_get (e_journal e) j seq \<noteq> None"

definition replay_one :: "('a, 'j) env \<Rightarrow> nat \<Rightarrow> 'j \<Rightarrow> session \<Rightarrow> (refusal + bool) \<times> session" where
  "replay_one e seq j s =
     (let (now, s) = stamp_now s in
      case j_get (e_journal e) j seq of
        None \<Rightarrow> (Inr False, s)
      | Some m \<Rightarrow>
          (case s_out s of
             None \<Rightarrow> (Inl CannotSend, s)
           | Some _ \<Rightarrow>
               (case as_resend (e_tables e) m now (replicate (e_app_scratch e) 0) of
                  None \<Rightarrow> (Inl CannotSend, s)
                | Some r \<Rightarrow> (Inr True, (emit_msg (message_of r) s)\<lparr>s_last_sent_ms := s_now_ms s\<rparr>))))"

definition fill :: "('a, 'j) env \<Rightarrow> nat \<Rightarrow> nat \<Rightarrow> session \<Rightarrow> (refusal + unit) \<times> session" where
  "fill e from upto' s =
     (let (orig, s) = stamp_now s in
      send_as e WGapFill (Some from) [(43, b ''Y''), (122, orig), (36, lib_digits upto'), (123, b ''Y'')] s)"

text \<open>The search above the floor. The source's \<open>n += 1\<close> does not wrap while the end of the replay is below
  the largest 32-bit number, which it is unless \<open>next_out\<close> itself has wrapped to 0.\<close>

function skip_unkept :: "(nat \<Rightarrow> bool) \<Rightarrow> nat \<Rightarrow> nat \<Rightarrow> nat" where
  "skip_unkept p n hi = (if n \<le> hi \<and> \<not> p n then skip_unkept p (n + 1) hi else n)"
  by auto
termination by (relation "measure (\<lambda>(p, n, hi). Suc hi - n)") auto

declare skip_unkept.simps [simp del]

definition saturating_add32 :: "nat \<Rightarrow> nat \<Rightarrow> nat" where
  "saturating_add32 x y = min (x + y) U32_MAX"

definition fill_to :: "('a, 'j) env \<Rightarrow> 'j \<Rightarrow> nat \<Rightarrow> nat \<Rightarrow> nat" where
  "fill_to e j from hi =
     (let floor = (case j_oldest (e_journal e) j of Some f \<Rightarrow> f | None \<Rightarrow> U32_MAX);
          n = (if from < floor then min floor (saturating_add32 hi 1) else saturating_add32 from 1) in
      skip_unkept (kept e j) n hi)"

primrec replay_loop :: "nat \<Rightarrow> ('a, 'j) env \<Rightarrow> 'j \<Rightarrow> replay \<Rightarrow> session \<Rightarrow> (refusal + replay) \<times> session" where
  "replay_loop 0 e j r s = (Inr r, s)"
| "replay_loop (Suc budget) e j r s =
     (if rp_next r > rp_end r then (Inr r, s)
      else case replay_one e (rp_next r) j s of
        (Inl why, s) \<Rightarrow> (Inl why, s)
      | (Inr True, s) \<Rightarrow> replay_loop budget e j (r\<lparr>rp_next := wrap32 (rp_next r + 1)\<rparr>) s
      | (Inr False, s) \<Rightarrow>
          let from = rp_next r; n = fill_to e j from (rp_end r);
              s = (case j_oldest (e_journal e) j of
                     Some floor \<Rightarrow> s\<lparr>s_resend_beyond_journal := wrap32 (s_resend_beyond_journal s + (min n floor - from))\<rparr>
                   | None \<Rightarrow> s) in
          (case fill e from n s of
             (Inl why, s) \<Rightarrow> (Inl why, s)
           | (Inr _, s) \<Rightarrow> replay_loop budget e j (r\<lparr>rp_next := n\<rparr>) s))"

definition continue_replay :: "('a, 'j) env \<Rightarrow> 'j \<Rightarrow> session \<Rightarrow> (refusal + unit) \<times> session" where
  "continue_replay e j s =
     (case s_owed s of
        None \<Rightarrow> (Inr (), s)
      | Some r \<Rightarrow>
          (case replay_loop (max (cf_resend_batch (s_cfg s)) 1) e j r s of
             (Inl why, s) \<Rightarrow> (Inl why, s)
           | (Inr r, s) \<Rightarrow> (Inr (), s\<lparr>s_owed := (if rp_next r \<le> rp_end r then Some r else None)\<rparr>)))"

subsection \<open>The clock\<close>

definition logon_extra :: "session \<Rightarrow> slots" where
  "logon_extra s =
     [(98, b ''0''), (108, lib_digits (cf_heart_bt_int (s_cfg s)))] @
     (if cf_next_expected (s_cfg s) then [(789, lib_digits (s_next_in s))] else []) @
     opt_slot 1137 (appl_ver_id_held (s_cfg s))"

definition timed_out :: "nat \<Rightarrow> nat \<Rightarrow> nat \<Rightarrow> bool" where
  "timed_out limit since now_ms \<longleftrightarrow> limit \<noteq> 0 \<and> now_ms - since \<ge> limit"

text \<open>The heartbeat timers, the last part of \<open>tick_inner\<close>.\<close>

definition tick_beat :: "('a, 'j) env \<Rightarrow> nat \<Rightarrow> session \<Rightarrow> link \<times> session" where
  "tick_beat e now_ms s =
     (if s_beat_ms s = 0 then (Up, s)
      else let quiet = now_ms - s_last_recv_ms s; silent = now_ms - s_last_sent_ms s in
        if quiet \<ge> wrap64 (s_beat_ms s * 24) div 10 then (Dropped, end_session DrHeartbeatTimeout s)
        else
          let s = (if quiet \<ge> wrap64 (wrap64 (s_beat_ms s * 12) * wrap32 (s_test_requests s + 1)) div 10
                   then snd (send e WTestRequest [(112, b ''TEST'')] (s\<lparr>s_test_requests := wrap32 (s_test_requests s + 1)\<rparr>))
                   else s);
              s = (if s_test_requests s = 0 \<and> silent \<ge> s_beat_ms s then snd (send e WHeartbeat [] s) else s) in
          (Up, s))"

definition tick_inner :: "('a, 'j) env \<Rightarrow> nat \<Rightarrow> session \<Rightarrow> link \<times> session" where
  "tick_inner e now_ms s0 =
     (let s = roll_if_a_boundary_passed now_ms (s0\<lparr>s_now_ms := now_ms\<rparr>) in
      if s_state s = LoggedOn \<and> \<not> sched_contains (cf_schedule (s_cfg s)) now_ms then
        (Dropped, (snd (send e WLogout [] s))\<lparr>s_last_drop_reason := Some DrScheduleClosed, s_state := AwaitingLogout\<rparr>)
      else case s_state s of
        Disconnected \<Rightarrow> (Dropped, s)
      | AwaitingLogout \<Rightarrow> (Dropped, s)
      | AwaitingLogon \<Rightarrow>
          let since = (case s_awaiting_logon_since_ms s of Some t \<Rightarrow> t | None \<Rightarrow> now_ms);
              s = s\<lparr>s_awaiting_logon_since_ms := Some since\<rparr> in
          if timed_out (cf_logon_timeout_ms (s_cfg s)) since now_ms then (Dropped, end_session DrLogonTimedOut s) else (Up, s)
      | MustLogon \<Rightarrow>
          let s = s\<lparr>s_state := AwaitingLogon, s_beat_ms := cf_heart_bt_int (s_cfg s) * 1000, s_last_recv_ms := now_ms\<rparr> in
          (Up, snd (send e WLogon (logon_extra s) s))
      | LoggedOn \<Rightarrow> tick_beat e now_ms s
      | LoggingOut \<Rightarrow>
          let since = (case s_logging_out_since_ms s of Some t \<Rightarrow> t | None \<Rightarrow> now_ms);
              s = s\<lparr>s_logging_out_since_ms := Some since\<rparr> in
          if timed_out (cf_logout_timeout_ms (s_cfg s)) since now_ms then (Dropped, end_session DrLogoutTimedOut s)
          else tick_beat e now_ms s)"

definition tick :: "('a, 'j) env \<Rightarrow> nat \<Rightarrow> session \<Rightarrow> link \<times> session" where
  "tick e now_ms s = tick_inner e now_ms (s\<lparr>s_now_sub_ms_nanos := 0, s_now_resolution := Millis\<rparr>)"

definition tick_at :: "('a, 'j) env \<Rightarrow> nat \<Rightarrow> nat \<Rightarrow> session \<Rightarrow> link \<times> session" where
  "tick_at e now_ms sub s = tick_inner e now_ms (s\<lparr>s_now_sub_ms_nanos := sub, s_now_resolution := Nanos\<rparr>)"

definition tick_after_inner :: "('a, 'j) env \<Rightarrow> nat \<Rightarrow> 'j \<Rightarrow> session \<Rightarrow> link \<times> session" where
  "tick_after_inner e now_ms j s =
     (let (l, s) = tick_inner e now_ms s in
      if l = Up \<and> s_owed s \<noteq> None then
        (case continue_replay e j s of
           (Inl why, s) \<Rightarrow> (Dropped, end_session (drop_reason_of why) s)
         | (Inr _, s) \<Rightarrow> (l, s))
      else (l, s))"

definition tick_with :: "('a, 'j) env \<Rightarrow> nat \<Rightarrow> session \<Rightarrow> 'j \<Rightarrow> link \<times> session \<times> 'j" where
  "tick_with e now_ms s j =
     (let (l, s) = tick_after_inner e now_ms j (s\<lparr>s_now_sub_ms_nanos := 0, s_now_resolution := Millis\<rparr>) in
      (l, s, tell_journal e s j))"

definition tick_at_with :: "('a, 'j) env \<Rightarrow> nat \<Rightarrow> nat \<Rightarrow> session \<Rightarrow> 'j \<Rightarrow> link \<times> session \<times> 'j" where
  "tick_at_with e now_ms sub s j =
     (let (l, s) = tick_after_inner e now_ms j (s\<lparr>s_now_sub_ms_nanos := sub, s_now_resolution := Nanos\<rparr>) in
      (l, s, tell_journal e s j))"

definition send_application :: "('a, 'j) env \<Rightarrow> bytes \<Rightarrow> session \<Rightarrow> 'j \<Rightarrow> link \<times> session \<times> 'j" where
  "send_application e m s j =
     (if s_state s \<noteq> LoggedOn then (Up, s, j)
      else
        let (now, s) = stamp_now s; seq_out = s_next_out s;
            last_processed = (if cf_last_processed (s_cfg s) then Some (s_last_in s) else None) in
        case s_out s of
          None \<Rightarrow> (Up, s, j)
        | Some _ \<Rightarrow>
            (case rebuild (e_tables e) m (Some (lib_digits seq_out)) now last_processed False (replicate (e_app_scratch e) 0) of
               None \<Rightarrow> (Up, s, j)
             | Some r \<Rightarrow>
                 let (ok, j) = j_put (e_journal e) seq_out (message_of r) j;
                     s = (if \<not> ok then s\<lparr>s_puts_refused := wrap32 (s_puts_refused s + 1)\<rparr> else s);
                     s = (emit_msg (message_of r) s)\<lparr>s_next_out := wrap32 (s_next_out s + 1), s_last_sent_ms := s_now_ms s\<rparr> in
                 (Up, s, tell_journal e s j)))"

end
