(* ===== verification/Judge.thy ===== *)
theory Judge
  imports Session
begin

text \<open>
  \<open>Session::judge\<close> of \<open>crates/session/src/lib.rs\<close> and the receiving side around it, in the pieces
  the source has: reading the frame, the gates in front of everything, the values copied out of the
  view, the sequence number rules, and one answer per message type. A piece that may return early
  answers \<open>Inl\<close> of the result of the whole.
\<close>

record ('a, 'j) world =
  w_ses :: session
  w_app :: 'a
  w_jnl :: 'j

type_synonym judged = "(refusal + link) \<times> session"

definition ok_link :: "link \<times> session \<Rightarrow> judged" where
  "ok_link r = (Inr (fst r), snd r)"

definition garbled :: "bytes \<Rightarrow> session \<Rightarrow> link \<times> session" where
  "garbled bs s = (if msg_type_of bs = Some (b ''A'') then (Dropped, end_session DrLogonIncomplete s) else (Up, s))"

definition view_u32 :: "message_view \<Rightarrow> nat \<Rightarrow> nat option" where
  "view_u32 view tag = (case mv_get view tag of
     Some v \<Rightarrow> (case as_u32 v of Inr n \<Rightarrow> Some n | Inl _ \<Rightarrow> None) | None \<Rightarrow> None)"

subsection \<open>Reading the frame\<close>

definition judge_bad_tag :: "('a, 'j) env \<Rightarrow> bytes \<Rightarrow> nat \<Rightarrow> message_view \<Rightarrow> session \<Rightarrow> link \<times> session" where
  "judge_bad_tag e bs at view s =
     (let tag = tag_text_at bs at in
      if \<not> (case tag of Some t \<Rightarrow> is_signed_integer t | None \<Rightarrow> False) then garbled bs s
      else
        let r = \<lparr>rj_text = InvalidTagNumber, rj_ref_tag = copy 12 tag, rj_ref_msg_type = copy 8 (mv_get view 35),
                 rj_ref_seq = view_u32 view 34, rj_route = []\<rparr>;
            s = (case rj_ref_seq r of
                   Some seq \<Rightarrow> if seq \<ge> s_next_in s then s\<lparr>s_next_in := wrap32 (seq + 1)\<rparr> else s
                 | None \<Rightarrow> s) in
        send_reject e r s)"

definition judge_parse :: "('a, 'j) env \<Rightarrow> bytes \<Rightarrow> session \<Rightarrow> judged + message_view" where
  "judge_parse e bs s =
     (let (r, idx) = parse_into (e_tables e) Validation_ALL bs (FieldIndex_new (e_fields e)); view = fi_view idx bs in
      case r of
        Inr Incomplete \<Rightarrow> Inl (Inr Up, s)
      | Inr (Complete _) \<Rightarrow>
          if map_option fst (field_at view 2) \<noteq> Some 35 then Inl (ok_link (garbled bs s)) else Inr view
      | Inl (BadTag at) \<Rightarrow>
          if s_state s = LoggedOn then Inl (ok_link (judge_bad_tag e bs at view s)) else Inl (ok_link (garbled bs s))
      | Inl _ \<Rightarrow> Inl (ok_link (garbled bs s)))"

subsection \<open>The gates\<close>

text \<open>\<open>now_ms\<close> against a sending time, as a signed 64-bit difference that saturates.\<close>

definition skew_ms :: "nat \<Rightarrow> nat \<Rightarrow> int" where
  "skew_ms now_ms t = (if now_ms \<ge> t then (if int (now_ms - t) \<le> I64_MAX then int (now_ms - t) else I64_MAX)
     else (if int (t - now_ms) \<le> I64_MAX then - int (t - now_ms) else I64_MIN))"

definition judge_gate :: "('a, 'j) env \<Rightarrow> message_view \<Rightarrow> session \<Rightarrow> judged + (bool \<times> bool \<times> bool) \<times> session" where
  "judge_gate e view s =
     (let cfg = s_cfg s in
      if \<not> (case mv_get view 8 of Some v \<Rightarrow> nm_matches (cf_begin_string cfg) v | None \<Rightarrow> False) then
        (if s_state s = LoggedOn then Inl (ok_link (logout_with e IncorrectBeginString s)) else Inl (Inl WrongBeginString, s))
      else if s_now_ms s = 0 then Inl (Inl NeverTicked, s)
      else if \<not> sched_contains (cf_schedule cfg) (s_now_ms s) then Inl (Inl OutsideSchedule, s)
      else if s_state s = AwaitingLogon \<and> mv_get view 35 \<noteq> Some (b ''A'') then Inl (Inl NotALogon, s)
      else
        let sender_ok = (case mv_get view 49 of Some v \<Rightarrow> inbound_sender_matches cfg v | None \<Rightarrow> False);
            target_ok = (case mv_get view 56 of Some v \<Rightarrow> inbound_target_matches cfg v | None \<Rightarrow> False);
            stamp = Option.bind (mv_get view 52) parse_utc;
            s = (case stamp of Some t \<Rightarrow> s\<lparr>s_last_skew_ms := Some (skew_ms (s_now_ms s) t)\<rparr> | None \<Rightarrow> s);
            time_ok = (case stamp of
                Some t \<Rightarrow> (if t \<ge> s_now_ms s then t - s_now_ms s else s_now_ms s - t) \<le> cf_max_skew_ms cfg
              | None \<Rightarrow> False) in
        if s_state s = AwaitingLogon \<and> \<not> sender_ok then Inl (Inl WrongSenderCompId, s)
        else if s_state s = AwaitingLogon \<and> \<not> target_ok then Inl (Inl WrongTargetCompId, s)
        else if s_state s = AwaitingLogon \<and> \<not> time_ok then Inl (Inl BadSendingTime, s)
        else Inr ((sender_ok, target_ok, time_ok), s))"

subsection \<open>What is copied out of the message\<close>

definition ROUTING :: "(nat \<times> nat) list" where
  "ROUTING = [(115, 128), (116, 129), (144, 145), (128, 115), (129, 116), (145, 144)]"

definition route_of :: "message_view \<Rightarrow> slots" where
  "route_of view = concat (map (\<lambda>(from, to).
     case mv_get view from of
       Some v \<Rightarrow> if v \<noteq> [] then opt_slot to (copy 32 (Some v)) else []
     | None \<Rightarrow> []) ROUTING)"

definition or_else :: "'x option \<Rightarrow> 'x option \<Rightarrow> 'x option" where
  "or_else x y = (case x of Some v \<Rightarrow> Some v | None \<Rightarrow> y)"

definition judge_fault :: "('a, 'j) env \<Rightarrow> message_view \<Rightarrow> bool \<times> bool \<times> bool \<Rightarrow> session \<Rightarrow> fault option" where
  "judge_fault e view oks s =
     (let D = e_tables e; (sender_ok, target_ok, time_ok) = oks;
          mt = (case mv_get view 35 of Some v \<Rightarrow> v | None \<Rightarrow> []); checks = cf_validation (s_cfg s) in
      if s_state s \<noteq> LoggedOn then None
      else if \<not> is_msg_type D mt then Some (InvalidMsgType, None)
      else case scan_fields D view mt checks SeenCounters_new of
          Inl f \<Rightarrow> Some f
        | Inr (_, seen) \<Rightarrow>
            or_else (if is_fixt (s_cfg s) then out_of_family_appl_ver_id D view mt else None)
           (or_else (missing_required D view mt)
           (or_else (bad_group_count D view mt)
           (or_else (scan_group_members D view mt checks seen)
           (or_else (if \<not> sender_ok \<or> \<not> target_ok then Some (CompIdProblem, None) else None)
                    (if \<not> time_ok then Some (SendingTimeAccuracyProblem, None) else None))))))"

record inbound =
  in_msg_type :: bytes
  in_msg_type_held :: "bytes option"
  in_ref_seq :: "nat option"
  in_route :: slots
  in_fault :: "fault option"
  in_gap_fill :: bool
  in_new_seq_no :: "nat option"
  in_orig_sending_time :: "nat option"
  in_sending_time :: "nat option"
  in_begin_seq_no :: "nat option"
  in_end_seq_no :: "nat option"
  in_reset_seq :: bool
  in_next_expected :: "nat option"
  in_test_req_id :: "bytes option"
  in_seq :: nat
  in_poss_dup :: bool
  in_encrypt :: "bytes option"
  in_heart_bt :: "bytes option"
  in_has_appl_ver_id :: bool
  in_appl_ver_id :: "bytes option"

definition judge_extract :: "('a, 'j) env \<Rightarrow> message_view \<Rightarrow> bool \<times> bool \<times> bool \<Rightarrow> session \<Rightarrow> refusal + inbound" where
  "judge_extract e view oks s =
     (case view_u32 view 34 of
        None \<Rightarrow> Inl BadSeqNum
      | Some seq \<Rightarrow>
          Inr \<lparr>in_msg_type = (case mv_get view 35 of Some v \<Rightarrow> v | None \<Rightarrow> []), in_msg_type_held = copy 8 (mv_get view 35),
               in_ref_seq = view_u32 view 34, in_route = route_of view, in_fault = judge_fault e view oks s,
               in_gap_fill = (mv_get view 123 = Some (b ''Y'')), in_new_seq_no = view_u32 view 36,
               in_orig_sending_time = Option.bind (mv_get view 122) parse_utc,
               in_sending_time = Option.bind (mv_get view 52) parse_utc,
               in_begin_seq_no = view_u32 view 7, in_end_seq_no = view_u32 view 16,
               in_reset_seq = (mv_get view 141 = Some (b ''Y'')), in_next_expected = view_u32 view 789,
               in_test_req_id = copy 64 (mv_get view 112), in_seq = seq,
               in_poss_dup = (mv_get view 43 = Some (b ''Y'')), in_encrypt = copy 8 (mv_get view 98),
               in_heart_bt = copy 8 (mv_get view 108), in_has_appl_ver_id = (mv_get view 1137 \<noteq> None),
               in_appl_ver_id = copy MAX_APPL_VER_ID_LEN (mv_get view 1137)\<rparr>)"

definition reject_of :: "session_text \<Rightarrow> bytes option \<Rightarrow> inbound \<Rightarrow> reject" where
  "reject_of t ref_tag m = \<lparr>rj_text = t, rj_ref_tag = ref_tag, rj_ref_msg_type = in_msg_type_held m,
     rj_ref_seq = in_ref_seq m, rj_route = in_route m\<rparr>"

abbreviation is_logon :: "inbound \<Rightarrow> bool" where "is_logon m \<equiv> in_msg_type m = b ''A''"
abbreviation is_logout :: "inbound \<Rightarrow> bool" where "is_logout m \<equiv> in_msg_type m = b ''5''"
abbreviation is_test_request :: "inbound \<Rightarrow> bool" where "is_test_request m \<equiv> in_msg_type m = b ''1''"
abbreviation is_resend_request :: "inbound \<Rightarrow> bool" where "is_resend_request m \<equiv> in_msg_type m = b ''2''"
abbreviation is_sequence_reset :: "inbound \<Rightarrow> bool" where "is_sequence_reset m \<equiv> in_msg_type m = b ''4''"

definition SESSION_OWNED :: "bytes list" where
  "SESSION_OWNED = [b ''0'', b ''1'', b ''2'', b ''3'', b ''4'', b ''5'', b ''A'']"

definition is_application :: "inbound \<Rightarrow> bool" where
  "is_application m \<longleftrightarrow> in_msg_type m \<notin> set SESSION_OWNED"

subsection \<open>The sequence number\<close>

definition skips_sequencing :: "inbound \<Rightarrow> bool" where
  "skips_sequencing m \<longleftrightarrow> is_logout m \<or> is_resend_request m \<or> (is_sequence_reset m \<and> \<not> in_gap_fill m)"

definition judge_too_low :: "('a, 'j) env \<Rightarrow> inbound \<Rightarrow> session \<Rightarrow> link \<times> session" where
  "judge_too_low e m s =
     (if in_poss_dup m then
        (if is_sequence_reset m then (Up, s)
         else case in_orig_sending_time m of
           None \<Rightarrow> send_reject e (reject_of RequiredTagMissing (tag_text 122) m) s
         | Some orig \<Rightarrow>
             if (case in_sending_time m of Some sent \<Rightarrow> orig > sent | None \<Rightarrow> False)
             then send_reject e (reject_of SendingTimeAccuracyProblem None m) s else (Up, s))
      else logout_with e (MsgSeqNumTooLow (s_next_in s) (in_seq m)) s)"

definition judge_sequence :: "('a, 'j) env \<Rightarrow> bytes \<Rightarrow> inbound \<Rightarrow> session \<Rightarrow> judged + session" where
  "judge_sequence e bs m s =
     (let s = (if is_logon m \<and> in_reset_seq m then s\<lparr>s_next_in := 1, s_next_out := 1\<rparr> else s) in
      if \<not> skips_sequencing m \<and> in_seq m < s_next_in s then Inl (ok_link (judge_too_low e m s))
      else if \<not> skips_sequencing m \<and> \<not> is_logon m \<and> in_seq m > s_next_in s then Inl (ok_link (too_high e (in_seq m) bs s))
      else
        let s = (if \<not> is_sequence_reset m \<and> \<not> is_logon m then advance_past (in_seq m) s else s) in
        Inr (s\<lparr>s_last_recv_ms := s_now_ms s, s_test_requests := 0, s_last_in := in_seq m\<rparr>))"

subsection \<open>One answer per message type\<close>

definition logon_reply :: "bytes \<Rightarrow> bytes \<Rightarrow> inbound \<Rightarrow> session \<Rightarrow> slots" where
  "logon_reply encrypt heart_bt m s =
     [(98, encrypt), (108, heart_bt)] @ (if in_reset_seq m then [(141, b ''Y'')] else []) @
     (if cf_next_expected (s_cfg s) then [(789, lib_digits (saturating_add32 (s_next_in s) 1))] else []) @
     opt_slot 1137 (appl_ver_id_held (s_cfg s))"

definition wrapping_pred32 :: "nat \<Rightarrow> nat" where
  "wrapping_pred32 n = (if n = 0 then U32_MAX else n - 1)"

text \<open>The last steps of a Logon: what the peer's \<open>789\<close> says is owed, and the gap in front of it.\<close>

definition logon_tail :: "('a, 'j) env \<Rightarrow> bytes \<Rightarrow> inbound \<Rightarrow> nat option \<Rightarrow> session \<Rightarrow> judged" where
  "logon_tail e bs m owes s =
     (let s = (case owes of Some want \<Rightarrow> s\<lparr>s_owed := Some \<lparr>rp_next = want, rp_end = wrapping_pred32 (s_next_out s)\<rparr>\<rparr> | None \<Rightarrow> s) in
      if in_seq m > s_next_in s then ok_link (too_high e (in_seq m) bs s) else (Inr Up, advance_past (in_seq m) s))"

definition judge_logon :: "('a, 'j) env \<Rightarrow> bytes \<Rightarrow> inbound \<Rightarrow> session \<Rightarrow> judged" where
  "judge_logon e bs m s =
     (if is_fixt (s_cfg s) \<and> \<not> in_has_appl_ver_id m then (Inl LogonWithoutDefaultApplVerId, s)
      else case (in_encrypt m, in_heart_bt m) of
        (Some encrypt, Some heart_bt) \<Rightarrow>
          let s = s\<lparr>s_peer_appl_ver_id := in_appl_ver_id m\<rparr> in
          if (case in_next_expected m of Some want \<Rightarrow> want > s_next_out s | None \<Rightarrow> False) then
            ok_link (logout_now e (b ''NextExpectedMsgSeqNum too high'') (note_drop_reason DrNextExpectedTooHigh s))
          else
            let owes = (case in_next_expected m of Some want \<Rightarrow> if want < s_next_out s then Some want else None | None \<Rightarrow> None);
                s = s\<lparr>s_beat_ms := (case as_u32 heart_bt of Inr n \<Rightarrow> n * 1000 | Inl _ \<Rightarrow> 0), s_state := LoggedOn\<rparr> in
            if \<not> e_speaks_first e then
              (case send e WLogon (logon_reply encrypt heart_bt m s) s of
                 (Inl why, s) \<Rightarrow> (Inl why, s)
               | (Inr _, s) \<Rightarrow> logon_tail e bs m owes s)
            else logon_tail e bs m owes s
      | _ \<Rightarrow> (Inl LogonIncomplete, s))"

definition judge_logout :: "('a, 'j) env \<Rightarrow> session \<Rightarrow> judged" where
  "judge_logout e s =
     (if s_state s \<noteq> LoggingOut then
        (case send e WLogout [] s of
           (Inl why, s) \<Rightarrow> (Inl why, s)
         | (Inr _, s) \<Rightarrow> (Inr Dropped, end_session DrPeerLogout s))
      else (Inr Dropped, end_session DrPeerLogout s))"

definition judge_test_request :: "('a, 'j) env \<Rightarrow> inbound \<Rightarrow> session \<Rightarrow> judged" where
  "judge_test_request e m s =
     (case send e WHeartbeat [(112, case in_test_req_id m of Some v \<Rightarrow> v | None \<Rightarrow> [])] s of
        (Inl why, s) \<Rightarrow> (Inl why, s)
      | (Inr _, s) \<Rightarrow> (Inr Up, s))"

definition judge_resend_request :: "inbound \<Rightarrow> session \<Rightarrow> judged" where
  "judge_resend_request m s =
     (let last = s_next_out s - 1;
          hi = (case in_end_seq_no m of Some n \<Rightarrow> if n \<noteq> 0 \<and> n \<le> last then n else last | None \<Rightarrow> last) in
      case in_begin_seq_no m of
        Some from \<Rightarrow> (Inr Up, if from \<le> hi then s\<lparr>s_owed := Some \<lparr>rp_next = from, rp_end = hi\<rparr>\<rparr> else s)
      | None \<Rightarrow> (Inr Up, s))"

definition judge_sequence_reset :: "('a, 'j) env \<Rightarrow> inbound \<Rightarrow> session \<Rightarrow> judged" where
  "judge_sequence_reset e m s =
     (case in_new_seq_no m of
        None \<Rightarrow> (Inr Up, s)
      | Some new_seq \<Rightarrow>
          if new_seq > s_next_in s then (Inr Up, s\<lparr>s_next_in := new_seq\<rparr>)
          else if new_seq < s_next_in s then ok_link (send_reject e (reject_of ValueIsIncorrect None m) s)
          else (Inr Up, s))"

definition judge_application :: "('a, 'j) env \<Rightarrow> bytes \<Rightarrow> ('a, 'j) world \<Rightarrow> (refusal + link) \<times> ('a, 'j) world" where
  "judge_application e bs w =
     (let (stamp, s) = stamp_now (w_ses w); w = w\<lparr>w_ses := s\<rparr>; seq_out = s_next_out s;
          hdr = \<lparr>h_seq = seq_out, h_stamp = stamp,
                 h_last_processed = (if cf_last_processed (s_cfg s) then Some (s_last_in s) else None)\<rparr> in
      case s_out s of
        None \<Rightarrow> (Inl CannotSend, w)
      | Some _ \<Rightarrow>
          (case e_on_message e (w_app w) bs hdr (e_app_scratch e) of
             (None, a) \<Rightarrow> (Inr Up, w\<lparr>w_app := a\<rparr>)
           | (Some reply, a) \<Rightarrow>
               let (ok, j) = j_put (e_journal e) seq_out reply (w_jnl w); s = emit_msg reply s;
                   s = (if \<not> ok then s\<lparr>s_puts_refused := wrap32 (s_puts_refused s + 1)\<rparr> else s) in
               (Inr Up, w\<lparr>w_app := a, w_jnl := j,
                          w_ses := s\<lparr>s_next_out := wrap32 (s_next_out s + 1), s_last_sent_ms := s_now_ms s\<rparr>\<rparr>)))"

subsection \<open>Judging and receiving\<close>

definition with_ses :: "('a, 'j) world \<Rightarrow> 'r \<times> session \<Rightarrow> 'r \<times> ('a, 'j) world" where
  "with_ses w r = (fst r, w\<lparr>w_ses := snd r\<rparr>)"

definition judge_dispatch :: "('a, 'j) env \<Rightarrow> bytes \<Rightarrow> inbound \<Rightarrow> session \<Rightarrow> ('a, 'j) world \<Rightarrow> (refusal + link) \<times> ('a, 'j) world" where
  "judge_dispatch e bs m s w =
     (case in_fault m of
        Some (t, ref_tag) \<Rightarrow> with_ses w (ok_link (send_reject e (reject_of t ref_tag m) s))
      | None \<Rightarrow>
          if is_logon m then with_ses w (judge_logon e bs m s)
          else if is_logout m then with_ses w (judge_logout e s)
          else if is_test_request m then with_ses w (judge_test_request e m s)
          else if is_resend_request m then with_ses w (judge_resend_request m s)
          else if is_sequence_reset m then with_ses w (judge_sequence_reset e m s)
          else if is_application m then judge_application e bs (w\<lparr>w_ses := s\<rparr>)
          else (Inr Up, w\<lparr>w_ses := s\<rparr>))"

definition judge :: "('a, 'j) env \<Rightarrow> bytes \<Rightarrow> ('a, 'j) world \<Rightarrow> (refusal + link) \<times> ('a, 'j) world" where
  "judge e bs w =
     (let s = w_ses w in
      case judge_parse e bs s of
        Inl r \<Rightarrow> with_ses w r
      | Inr view \<Rightarrow>
         (case judge_gate e view s of
            Inl r \<Rightarrow> with_ses w r
          | Inr (oks, s) \<Rightarrow>
             (case judge_extract e view oks s of
                Inl why \<Rightarrow> (Inl why, w\<lparr>w_ses := s\<rparr>)
              | Inr m \<Rightarrow>
                 (case judge_sequence e bs m s of
                    Inl r \<Rightarrow> with_ses w r
                  | Inr s \<Rightarrow> judge_dispatch e bs m s w))))"

definition settle :: "(refusal + link) \<times> ('a, 'j) world \<Rightarrow> link \<times> ('a, 'j) world" where
  "settle r = (case r of
       (Inr l, w) \<Rightarrow> (l, w)
     | (Inl why, w) \<Rightarrow> (Dropped, w\<lparr>w_ses := end_session (drop_reason_of why) (w_ses w)\<rparr>))"

primrec drain_loop :: "nat \<Rightarrow> ('a, 'j) env \<Rightarrow> ('a, 'j) world \<Rightarrow> link \<times> ('a, 'j) world" where
  "drain_loop 0 e w = (Up, w)"
| "drain_loop (Suc n) e w =
     (let s = w_ses w in
      case List.find (\<lambda>i. q_seq (s_queue s ! i) = s_next_in s) [0..<QUEUED] of
        None \<Rightarrow> (Up, w)
      | Some i \<Rightarrow>
          let held = q_bytes (s_queue s ! i);
              w = w\<lparr>w_ses := s\<lparr>s_queue := (s_queue s)[i := (s_queue s ! i)\<lparr>q_seq := 0\<rparr>]\<rparr>\<rparr> in
          (case settle (judge e held w) of
             (Up, w) \<Rightarrow> drain_loop n e w
           | (Dropped, w) \<Rightarrow> (Dropped, w)))"

definition drain :: "('a, 'j) env \<Rightarrow> ('a, 'j) world \<Rightarrow> link \<times> ('a, 'j) world" where
  "drain e w = drain_loop QUEUED e w"

definition received_inner :: "('a, 'j) env \<Rightarrow> bytes \<Rightarrow> ('a, 'j) world \<Rightarrow> link \<times> ('a, 'j) world" where
  "received_inner e bs w =
     (if s_state (w_ses w) = Disconnected \<or> s_state (w_ses w) = AwaitingLogout then (Dropped, w)
      else case settle (judge e bs w) of
        (Dropped, w) \<Rightarrow> (Dropped, w)
      | (Up, w) \<Rightarrow>
          let (l, w) = drain e w in
          if l \<noteq> Dropped \<and> s_owed (w_ses w) \<noteq> None then
            (case continue_replay e (w_jnl w) (w_ses w) of
               (Inl why, s) \<Rightarrow> (Dropped, w\<lparr>w_ses := end_session (drop_reason_of why) s\<rparr>)
             | (Inr _, s) \<Rightarrow> (l, w\<lparr>w_ses := s\<rparr>))
          else (l, w))"

definition received_with :: "('a, 'j) env \<Rightarrow> bytes \<Rightarrow> ('a, 'j) world \<Rightarrow> link \<times> ('a, 'j) world" where
  "received_with e bs w =
     (let (l, w) = received_inner e bs w; s = w_ses w;
          j = (if s_next_in s > 1 then j_mark_in (e_journal e) (s_next_in s - 1) (w_jnl w) else w_jnl w) in
      (l, w\<lparr>w_jnl := tell_journal e s j\<rparr>))"

text \<open>\<open>received\<close>: with the application \<open>Silent\<close> and no journal.\<close>

definition silent_env :: "('a, 'j) env \<Rightarrow> (unit, unit) env" where
  "silent_env e = \<lparr>e_tables = e_tables e, e_fields = e_fields e, e_app_scratch = e_app_scratch e,
     e_speaks_first = e_speaks_first e, e_on_message = (\<lambda>a _ _ _. (None, a)), e_journal = NoJournal\<rparr>"

definition received :: "('a, 'j) env \<Rightarrow> bytes \<Rightarrow> session \<Rightarrow> link \<times> session" where
  "received e bs s = (let (l, w) = received_with (silent_env e) bs \<lparr>w_ses = s, w_app = (), w_jnl = ()\<rparr> in (l, w_ses w))"

end
