(* ===== verification/Session_Inv.thy ===== *)
theory Session_Inv
  imports Judge
begin

text \<open>
  The invariant of a session and the relation every operation respects: the configuration and the
  templates stay, what was emitted stays emitted, and the invariant is kept. Each operation has one
  lemma; the summary over all events is a rule induction over the reachable states.
\<close>

definition out_ok :: "('a, 'j) env \<Rightarrow> config \<Rightarrow> outbound option \<Rightarrow> bool" where
  "out_ok e cfg out = (case out of None \<Rightarrow> True | Some ob \<Rightarrow>
     (\<exists>bs sender target. nm_get (cf_begin_string cfg) = Some bs \<and> nm_get (cf_sender_comp_id cfg) = Some sender \<and>
        nm_get (cf_target_comp_id cfg) = Some target \<and>
        (\<forall>w. out_template (e_tables e) bs sender target w = Inr (ob_template ob w))))"

definition queue_ok :: "queued list \<Rightarrow> bool" where
  "queue_ok qs \<longleftrightarrow> length qs = QUEUED \<and> list_all (\<lambda>q. q_seq q \<le> U32_MAX \<and> length (q_bytes q) \<le> QUEUED_LEN) qs"

definition owed_ok :: "replay option \<Rightarrow> bool" where
  "owed_ok r = (case r of None \<Rightarrow> True | Some r \<Rightarrow> rp_next r \<le> U32_MAX \<and> rp_end r \<le> U32_MAX)"

definition ses_ok :: "('a, 'j) env \<Rightarrow> session \<Rightarrow> bool" where
  "ses_ok e s \<longleftrightarrow>
     s_now_ms s \<le> U64_MAX \<and> s_next_out s \<le> U32_MAX \<and> s_next_in s \<le> U32_MAX \<and> s_last_in s \<le> U32_MAX \<and>
     s_resend_from s \<le> U32_MAX \<and> s_resend_to s \<le> U32_MAX \<and> s_test_requests s \<le> U32_MAX \<and>
     s_puts_refused s \<le> U32_MAX \<and> s_resend_beyond_journal s \<le> U32_MAX \<and>
     queue_ok (s_queue s) \<and> owed_ok (s_owed s) \<and>
     ts_ok (s_stamp s) \<and> ts_precision (s_stamp s) = cf_timestamp_precision (s_cfg s) \<and> out_ok e (s_cfg s) (s_out s)"

definition ok_step :: "('a, 'j) env \<Rightarrow> session \<Rightarrow> session \<Rightarrow> bool" where
  "ok_step e s s' \<longleftrightarrow> s_cfg s' = s_cfg s \<and> s_out s' = s_out s \<and> (\<exists>ms. s_wire s' = s_wire s @ ms) \<and>
     (ses_ok e s \<longrightarrow> ses_ok e s')"

lemma ok_step_refl [simp, intro]: "ok_step e s s"
  by (simp add: ok_step_def)

lemma ok_step_trans [trans]: "ok_step e s t \<Longrightarrow> ok_step e t u \<Longrightarrow> ok_step e s u"
  by (auto simp: ok_step_def)

subsection \<open>Sending\<close>

lemma stamp_now_snd:
  "snd (stamp_now s) = s\<lparr>s_stamp := snd (ts_format (s_stamp s) (s_now_ms s - MILLIS_YEAR_ZERO_TO_EPOCH) (s_now_sub_ms_nanos s))\<rparr>"
  by (simp add: stamp_now_def Let_def split_beta)

lemma stamp_now_ok: "ok_step e s (snd (stamp_now s))"
proof -
  have "ts_ok (snd (ts_format c (t - d) ns)) \<and> ts_precision (snd (ts_format c (t - d) ns)) = ts_precision c"
    if "ts_ok c" "t \<le> U64_MAX" for c t d ns
    using ts_format_stamp [of c "t - d" ns] that by simp
  then show ?thesis unfolding stamp_now_snd by (simp add: ok_step_def ses_ok_def)
qed

text \<open>The text of the stamp: the current time at the coarser of the configured precision and that of
  the clock.\<close>

lemma stamp_now_text:
  assumes "ses_ok e s"
  shows "fst (stamp_now s) =
    take (precision_bytes (stamp_precision s)) (stamp_text (cf_timestamp_precision (s_cfg s)) (s_now_ms s - MILLIS_YEAR_ZERO_TO_EPOCH) (s_now_sub_ms_nanos s))"
proof -
  let ?t = "stamp_text (cf_timestamp_precision (s_cfg s)) (s_now_ms s - MILLIS_YEAR_ZERO_TO_EPOCH) (s_now_sub_ms_nanos s)"
  have f: "fst (ts_format (s_stamp s) (s_now_ms s - MILLIS_YEAR_ZERO_TO_EPOCH) (s_now_sub_ms_nanos s)) = ?t"
  proof -
    have "s_now_ms s - d \<le> U64_MAX" for d using assms by (auto simp: ses_ok_def intro: le_trans [OF diff_le_self])
    from ts_format_stamp(1) [OF _ this] show ?thesis using assms by (simp add: ses_ok_def)
  qed
  have "precision_bytes (stamp_precision s) \<le> length ?t"
    by (simp add: stamp_text_def stamp_precision_def coarser_def precision_bytes_def two_digits_def)
  with f show ?thesis by (simp add: stamp_now_def Let_def split_beta)
qed

definition send_slots :: "nat option \<Rightarrow> slots \<Rightarrow> session \<Rightarrow> slots" where
  "send_slots at extra s =
     [(34, lib_digits (case at of Some n \<Rightarrow> n | None \<Rightarrow> s_next_out s)), (52, fst (stamp_now s))] @
     (if cf_last_processed (s_cfg s) then [(369, lib_digits (s_last_in s))] else []) @ extra"

definition sent_session :: "nat option \<Rightarrow> bytes \<Rightarrow> session \<Rightarrow> session" where
  "sent_session at m s = (snd (stamp_now s))\<lparr>s_wire := s_wire s @ [m],
     s_next_out := (if at = None then wrap32 (s_next_out s + 1) else s_next_out s), s_last_sent_ms := s_now_ms s\<rparr>"

lemma send_as_eq:
  "send_as e which at extra s =
     (case s_out s of
        None \<Rightarrow> (Inl CannotSend, snd (stamp_now s))
      | Some ob \<Rightarrow>
          if length (send_slots at extra s) > 18 then (Inl CannotSend, snd (stamp_now s))
          else case encode_with (e_tables e) (ob_template ob which) (replicate 512 0) (send_slots at extra s) [] of
            Inl _ \<Rightarrow> (Inl CannotSend, snd (stamp_now s))
          | Inr r \<Rightarrow> (Inr (), sent_session at (message_of r) s))"
proof -
  obtain st s1 where st: "stamp_now s = (st, s1)" by (cases "stamp_now s")
  have s1: "s_out s1 = s_out s" "s_next_out s1 = s_next_out s" "s_cfg s1 = s_cfg s" "s_last_in s1 = s_last_in s"
    "s_wire s1 = s_wire s" "s_now_ms s1 = s_now_ms s"
    using stamp_now_snd [of s] st by simp_all
  have slots: "[(34, lib_digits (case at of Some n \<Rightarrow> n | None \<Rightarrow> s_next_out s)), (52, st)] @
     (if cf_last_processed (s_cfg s) then [(369, lib_digits (s_last_in s))] else []) @ extra = send_slots at extra s"
    by (simp add: send_slots_def st)
  show ?thesis
    unfolding send_as_def st prod.case Let_def s1 slots
    by (simp add: sent_session_def st s1 emit_msg_def split: option.split sum.split)
qed

lemma send_as_cases:
  obtains (refused) "send_as e which at extra s = (Inl CannotSend, snd (stamp_now s))"
  | (sent) ob r where "s_out s = Some ob" "length (send_slots at extra s) \<le> 18"
    "encode_with (e_tables e) (ob_template ob which) (replicate 512 0) (send_slots at extra s) [] = Inr r"
    "send_as e which at extra s = (Inr (), sent_session at (message_of r) s)"
proof (cases "s_out s")
  case None
  then show ?thesis by (intro refused) (simp add: send_as_eq)
next
  case (Some ob)
  show ?thesis
  proof (cases "length (send_slots at extra s) > 18")
    case True
    then show ?thesis using Some by (intro refused) (simp add: send_as_eq)
  next
    case False
    then show ?thesis using Some sent [OF Some] refused
      by (cases "encode_with (e_tables e) (ob_template ob which) (replicate 512 0) (send_slots at extra s) []")
        (simp_all add: send_as_eq)
  qed
qed

lemma send_as_ok: "ok_step e s (snd (send_as e which at extra s))"
proof (cases rule: send_as_cases [of e which at extra s])
  case refused
  then show ?thesis by (simp add: stamp_now_ok)
next
  case (sent ob r)
  then show ?thesis using stamp_now_ok [of e s] unfolding stamp_now_snd by (simp add: ok_step_def ses_ok_def sent_session_def stamp_now_snd)
qed

lemma send_ok: "ok_step e s (snd (send e which extra s))"
  unfolding send_def by (rule send_as_ok)

lemma end_session_ok: "ok_step e s (end_session why s)"
  by (simp add: ok_step_def ses_ok_def end_session_def Let_def owed_ok_def)

lemma state_update_ok: "ok_step e s (s\<lparr>s_state := st\<rparr>)"
  by (simp add: ok_step_def ses_ok_def)

text \<open>What sending leaves alone.\<close>

lemma send_as_keeps [simp]:
  "s_state (snd (send_as e which at extra s)) = s_state s" "s_next_in (snd (send_as e which at extra s)) = s_next_in s"
  "s_owed (snd (send_as e which at extra s)) = s_owed s" "s_queue (snd (send_as e which at extra s)) = s_queue s"
  "s_cfg (snd (send_as e which at extra s)) = s_cfg s" "s_out (snd (send_as e which at extra s)) = s_out s"
  "s_now_ms (snd (send_as e which at extra s)) = s_now_ms s" "s_beat_ms (snd (send_as e which at extra s)) = s_beat_ms s"
  "s_test_requests (snd (send_as e which at extra s)) = s_test_requests s"
  "s_last_drop_reason (snd (send_as e which at extra s)) = s_last_drop_reason s"
  "s_resend_from (snd (send_as e which at extra s)) = s_resend_from s"
  "s_resend_to (snd (send_as e which at extra s)) = s_resend_to s"
  by (cases rule: send_as_cases [of e which at extra s]; simp add: stamp_now_snd sent_session_def)+

lemma send_keeps [simp]:
  "s_state (snd (send e which extra s)) = s_state s" "s_next_in (snd (send e which extra s)) = s_next_in s"
  "s_owed (snd (send e which extra s)) = s_owed s" "s_queue (snd (send e which extra s)) = s_queue s"
  "s_cfg (snd (send e which extra s)) = s_cfg s" "s_out (snd (send e which extra s)) = s_out s"
  "s_now_ms (snd (send e which extra s)) = s_now_ms s" "s_beat_ms (snd (send e which extra s)) = s_beat_ms s"
  "s_test_requests (snd (send e which extra s)) = s_test_requests s"
  "s_last_drop_reason (snd (send e which extra s)) = s_last_drop_reason s"
  "s_resend_from (snd (send e which extra s)) = s_resend_from s"
  "s_resend_to (snd (send e which extra s)) = s_resend_to s"
  by (simp_all add: send_def)

lemma stamp_now_keeps [simp]:
  "s_state (snd (stamp_now s)) = s_state s" "s_next_in (snd (stamp_now s)) = s_next_in s"
  "s_next_out (snd (stamp_now s)) = s_next_out s" "s_owed (snd (stamp_now s)) = s_owed s"
  "s_queue (snd (stamp_now s)) = s_queue s" "s_cfg (snd (stamp_now s)) = s_cfg s" "s_out (snd (stamp_now s)) = s_out s"
  "s_now_ms (snd (stamp_now s)) = s_now_ms s" "s_wire (snd (stamp_now s)) = s_wire s"
  "s_last_in (snd (stamp_now s)) = s_last_in s"
  by (simp_all add: stamp_now_snd)

subsection \<open>Closed sessions\<close>

text \<open>A session that answers \<open>Dropped\<close> is closed; one that answers \<open>Up\<close> is not.\<close>

definition closed :: "session \<Rightarrow> bool" where
  "closed s \<longleftrightarrow> s_state s = Disconnected \<or> s_state s = AwaitingLogout"

definition link_agrees :: "link \<times> session \<Rightarrow> bool" where
  "link_agrees r \<longleftrightarrow> (fst r = Dropped \<longleftrightarrow> closed (snd r))"

lemma closed_end [simp]: "closed (end_session why s)" "s_state (end_session why s) = Disconnected"
  by (simp_all add: closed_def end_session_def Let_def)

lemma closed_send [simp]: "closed (snd (send e which extra s)) = closed s"
  by (simp add: closed_def)

text \<open>One lemma per operation: it is a good step and, from an open session, its answer agrees with
  the state.\<close>

definition good :: "('a, 'j) env \<Rightarrow> session \<Rightarrow> link \<times> session \<Rightarrow> bool" where
  "good e s r \<longleftrightarrow> ok_step e s (snd r) \<and> (\<not> closed s \<longrightarrow> link_agrees r)"

lemma goodI: "ok_step e s s' \<Longrightarrow> (\<not> closed s \<Longrightarrow> l = Dropped \<longleftrightarrow> closed s') \<Longrightarrow> good e s (l, s')"
  by (simp add: good_def link_agrees_def)

lemma good_trans: "ok_step e s t \<Longrightarrow> closed t = closed s \<Longrightarrow> good e t r \<Longrightarrow> good e s r"
  by (auto simp: good_def intro: ok_step_trans)

lemma good_end: "good e s (Dropped, end_session why s)"
  by (rule goodI) (simp_all add: end_session_ok)

lemma good_up: "good e s (Up, s)"
  by (rule goodI) simp_all

lemma logout_with_good: "good e s (logout_with e why s)"
proof -
  have "ok_step e s ((snd (send e WLogout x s))\<lparr>s_state := AwaitingLogout\<rparr>)" for x
    by (rule ok_step_trans [OF send_ok state_update_ok])
  then show ?thesis
    by (auto simp: logout_with_def Let_def good_def link_agrees_def closed_def state_update_ok split: option.split)
qed

lemma send_reject_good: "good e s (send_reject e r s)"
proof (cases "text_render (rj_text r) (replicate TEXT_MAX_LEN 0)")
  case None
  then show ?thesis by (simp add: send_reject_def good_end)
next
  case (Some p)
  obtain buf len where p: "p = (buf, len)" by (cases p)
  obtain sent s1 where s1: "send e WReject (rj_route r @ opt_slot 45 (map_option lib_digits (rj_ref_seq r)) @ [(58, take len buf)] @
                opt_slot 371 (rj_ref_tag r) @ opt_slot 372 (rj_ref_msg_type r) @
                opt_slot 373 (map_option lib_digits (session_reject_reason (rj_text r)))) s = (sent, s1)"
    by (metis prod.exhaust)
  have ok: "ok_step e s s1" "closed s1 = closed s"
    using send_ok closed_send s1 by (metis snd_conv)+
  have "good e s1 (if \<not> is_ok sent then (Dropped, end_session DrCannotSend s1)
          else if rj_text r = CompIdProblem \<or> rj_text r = SendingTimeAccuracyProblem then
            (Dropped, (snd (send e WLogout [] s1))\<lparr>s_state := AwaitingLogout\<rparr>)
          else (Up, s1))"
    using ok_step_trans [OF send_ok state_update_ok]
    by (auto simp: good_end good_up intro!: goodI simp: closed_def)
  then show ?thesis using good_trans [OF ok] s1 unfolding send_reject_def Some p option.case prod.case Let_def by simp
qed

lemma enqueue_ok: "seq \<le> U32_MAX \<Longrightarrow> ok_step e s (enqueue seq bs s)"
  by (auto simp: enqueue_def ok_step_def ses_ok_def queue_ok_def list_all_iff split: option.split dest!: set_update_subset_insert [THEN subsetD])

lemma enqueue_closed [simp]: "closed (enqueue seq bs s) = closed s" "s_next_in (enqueue seq bs s) = s_next_in s"
  by (auto simp: enqueue_def closed_def split: option.split)

lemma advance_past_ok: "ok_step e s (advance_past seq s)" "closed (advance_past seq s) = closed s"
  by (simp_all add: advance_past_def ok_step_def ses_ok_def Let_def closed_def)

lemma too_high_good:
  assumes "seq \<le> U32_MAX"
  shows "good e s (too_high e seq bs s)"
proof -
  let ?q = "enqueue seq bs s"
  let ?r = "?q\<lparr>s_resend_from := s_next_in ?q, s_resend_to := seq - 1\<rparr>"
  have r: "ok_step e s ?r" "closed ?r = closed s"
  proof -
    have "seq - 1 \<le> U32_MAX" using assms by linarith
    then have "ok_step e ?q ?r" by (simp add: ok_step_def ses_ok_def)
    with enqueue_ok [OF assms] show "ok_step e s ?r" by (rule ok_step_trans)
    show "closed ?r = closed s" using enqueue_closed(1) [of seq bs s] by (simp add: closed_def)
  qed
  obtain x s1 where s1: "send e WResendRequest [(7, lib_digits (s_next_in ?r)), (16, b ''0'')] ?r = (x, s1)" by (metis prod.exhaust)
  have os: "ok_step e s s1" using ok_step_trans [OF r(1) send_ok] s1 by (metis snd_conv)
  have cs: "closed s1 = closed s" using closed_send s1 r(2) by (metis snd_conv)
  have "good e s (if is_ok x then (Up, s1) else (Dropped, end_session DrCannotSend s1))"
    using good_trans [OF os cs good_up] good_trans [OF os cs good_end] by simp
  moreover have "good e s (Up, ?q)" by (rule goodI) (simp_all add: enqueue_ok assms)
  ultimately show ?thesis using s1 unfolding too_high_def Let_def by simp
qed

subsection \<open>Replay\<close>

lemma replay_one_ok: "ok_step e s (snd (replay_one e seq j s))"
  and replay_one_keeps [simp]: "s_state (snd (replay_one e seq j s)) = s_state s" "s_owed (snd (replay_one e seq j s)) = s_owed s"
    "s_cfg (snd (replay_one e seq j s)) = s_cfg s" "s_next_in (snd (replay_one e seq j s)) = s_next_in s"
    "s_next_out (snd (replay_one e seq j s)) = s_next_out s"
proof -
  obtain st s1 where st: "stamp_now s = (st, s1)" by (cases "stamp_now s")
  have s1: "ok_step e s s1" "s_state s1 = s_state s" "s_owed s1 = s_owed s" "s_cfg s1 = s_cfg s" "s_next_in s1 = s_next_in s"
      "s_next_out s1 = s_next_out s"
    using stamp_now_ok [of e s] stamp_now_keeps [of s] st by simp_all
  have "ok_step e s ((emit_msg m s1)\<lparr>s_last_sent_ms := t\<rparr>)" for m t
    by (rule ok_step_trans [OF s1(1)]) (simp add: ok_step_def ses_ok_def emit_msg_def)
  then show "ok_step e s (snd (replay_one e seq j s))"
    using s1(1) by (auto simp: replay_one_def st split: option.split)
  show "s_state (snd (replay_one e seq j s)) = s_state s" "s_owed (snd (replay_one e seq j s)) = s_owed s"
    "s_cfg (snd (replay_one e seq j s)) = s_cfg s" "s_next_in (snd (replay_one e seq j s)) = s_next_in s"
    "s_next_out (snd (replay_one e seq j s)) = s_next_out s"
    by (auto simp: replay_one_def st s1 emit_msg_def split: option.split)
qed

lemma fill_ok: "ok_step e s (snd (fill e from upto' s))"
  and fill_keeps [simp]: "s_state (snd (fill e from upto' s)) = s_state s" "s_owed (snd (fill e from upto' s)) = s_owed s"
    "s_cfg (snd (fill e from upto' s)) = s_cfg s" "s_next_in (snd (fill e from upto' s)) = s_next_in s"
proof -
  obtain st s1 where st: "stamp_now s = (st, s1)" by (cases "stamp_now s")
  have s1: "ok_step e s s1" "s_state s1 = s_state s" "s_owed s1 = s_owed s" "s_cfg s1 = s_cfg s" "s_next_in s1 = s_next_in s"
    using stamp_now_ok [of e s] stamp_now_keeps [of s] st by simp_all
  show "ok_step e s (snd (fill e from upto' s))" "s_state (snd (fill e from upto' s)) = s_state s"
    "s_owed (snd (fill e from upto' s)) = s_owed s" "s_cfg (snd (fill e from upto' s)) = s_cfg s"
    "s_next_in (snd (fill e from upto' s)) = s_next_in s"
    using ok_step_trans [OF s1(1) send_as_ok] by (simp_all add: fill_def st s1)
qed

lemma beyond_ok:
  "ok_step e s (s\<lparr>s_resend_beyond_journal := wrap32 n\<rparr>)"
  by (simp add: ok_step_def ses_ok_def)

lemma replay_loop_ok:
  "ok_step e s (snd (replay_loop budget e j r s)) \<and> s_state (snd (replay_loop budget e j r s)) = s_state s \<and>
   s_owed (snd (replay_loop budget e j r s)) = s_owed s \<and> s_next_in (snd (replay_loop budget e j r s)) = s_next_in s \<and>
   (\<forall>r'. fst (replay_loop budget e j r s) = Inr r' \<longrightarrow> rp_end r' = rp_end r)"
proof (induction budget arbitrary: r s)
  case (Suc budget)
  show ?case
  proof (cases "rp_next r > rp_end r")
    case False
    obtain x s1 where x: "replay_one e (rp_next r) j s = (x, s1)" by (metis prod.exhaust)
    have s1: "ok_step e s s1" "s_state s1 = s_state s" "s_owed s1 = s_owed s" "s_next_in s1 = s_next_in s"
      using replay_one_ok [of e s "rp_next r" j] replay_one_keeps [of e "rp_next r" j s] x by simp_all
    consider (err) why where "x = Inl why" | (kept) "x = Inr True" | (gap) "x = Inr False"
      by (metis sum.exhaust bool.exhaust)
    then show ?thesis
    proof cases
      case err
      then show ?thesis using False s1 by (simp add: x)
    next
      case kept
      then show ?thesis using False s1 Suc.IH [of s1 "r\<lparr>rp_next := wrap32 (rp_next r + 1)\<rparr>"] ok_step_trans [OF s1(1)]
        by (simp add: x)
    next
      case gap
      let ?n = "fill_to e j (rp_next r) (rp_end r)"
      let ?s2 = "case j_oldest (e_journal e) j of
                     Some floor \<Rightarrow> s1\<lparr>s_resend_beyond_journal := wrap32 (s_resend_beyond_journal s1 + (min ?n floor - rp_next r))\<rparr>
                   | None \<Rightarrow> s1"
      have s2: "ok_step e s ?s2" "s_state ?s2 = s_state s" "s_owed ?s2 = s_owed s" "s_next_in ?s2 = s_next_in s"
        using s1 ok_step_trans [OF s1(1) beyond_ok] by (auto split: option.split)
      obtain y s3 where y: "fill e (rp_next r) ?n ?s2 = (y, s3)" by (metis prod.exhaust)
      have s3: "ok_step e s s3" "s_state s3 = s_state s" "s_owed s3 = s_owed s" "s_next_in s3 = s_next_in s"
        using ok_step_trans [OF s2(1) fill_ok, of "rp_next r" ?n] fill_keeps [of e "rp_next r" ?n ?s2] s2(2-4) y by simp_all
      show ?thesis
      proof (cases y)
        case (Inl why)
        then show ?thesis using False s3 gap by (simp add: x y Let_def)
      next
        case (Inr u)
        then show ?thesis using False s3 gap Suc.IH [of s3 "r\<lparr>rp_next := ?n\<rparr>"] ok_step_trans [OF s3(1)]
          by (simp add: x y Let_def)
      qed
    qed
  qed simp
qed simp

lemma continue_replay_ok:
  "ok_step e s (snd (continue_replay e j s)) \<and> s_state (snd (continue_replay e j s)) = s_state s \<and>
   s_next_in (snd (continue_replay e j s)) = s_next_in s"
proof (cases "s_owed s")
  case None
  then show ?thesis by (simp add: continue_replay_def)
next
  case (Some r)
  let ?l = "replay_loop (max (cf_resend_batch (s_cfg s)) 1) e j r s"
  obtain x s1 where x: "?l = (x, s1)" by (metis prod.exhaust)
  note l = replay_loop_ok [of e s "max (cf_resend_batch (s_cfg s)) 1" j r, unfolded x]
  show ?thesis
  proof (cases x)
    case (Inl why)
    then show ?thesis using l x by (simp add: continue_replay_def Some)
  next
    case (Inr r')
    have "ok_step e s (s1\<lparr>s_owed := (if rp_next r' \<le> rp_end r' then Some r' else None)\<rparr>)"
      using l Some Inr by (auto simp: ok_step_def ses_ok_def owed_ok_def)
    then show ?thesis using l x Inr by (simp add: continue_replay_def Some)
  qed
qed

subsection \<open>The clock\<close>

lemma roll_ok: "now_ms \<le> U64_MAX \<Longrightarrow> ok_step e s (roll_if_a_boundary_passed t (s\<lparr>s_now_ms := now_ms\<rparr>))"
  by (auto simp: roll_if_a_boundary_passed_def ok_step_def ses_ok_def Let_def owed_ok_def split: option.split)

lemma roll_keeps [simp]: "s_state (roll_if_a_boundary_passed t s) = s_state s" "s_cfg (roll_if_a_boundary_passed t s) = s_cfg s"
  by (simp_all add: roll_if_a_boundary_passed_def Let_def split: option.split)

lemma tick_beat_good: "good e s (tick_beat e now_ms s)"
proof -
  let ?n = "wrap32 (s_test_requests s + 1)"
  let ?t = "snd (send e WTestRequest [(112, b ''TEST'')] (s\<lparr>s_test_requests := ?n\<rparr>))"
  have t: "ok_step e s ?t" "closed ?t = closed s"
  proof -
    have "ok_step e s (s\<lparr>s_test_requests := ?n\<rparr>)" by (simp add: ok_step_def ses_ok_def)
    then show "ok_step e s ?t" by (rule ok_step_trans [OF _ send_ok])
    show "closed ?t = closed s" by (simp add: closed_def)
  qed
  have beat: "good e s (Up, if p u then snd (send e WHeartbeat [] u) else u)" if "ok_step e s u" "closed u = closed s" for p u
    using good_trans [OF that(1,2) good_up] ok_step_trans [OF that(1) send_ok] that(2) by (auto intro!: goodI)
  show ?thesis
    unfolding tick_beat_def Let_def
    using beat [OF t, of "\<lambda>u. s_test_requests u = 0 \<and> now_ms - s_last_sent_ms s \<ge> s_beat_ms u"]
      beat [OF ok_step_refl refl, of "\<lambda>u. s_test_requests u = 0 \<and> now_ms - s_last_sent_ms s \<ge> s_beat_ms u"]
    by (auto simp: good_up good_end)
qed

lemma tick_inner_good: "now_ms \<le> U64_MAX \<Longrightarrow> ok_step e s (snd (tick_inner e now_ms s))" and tick_inner_link: "link_agrees (tick_inner e now_ms s)"
proof -
  define u where "u = roll_if_a_boundary_passed now_ms (s\<lparr>s_now_ms := now_ms\<rparr>)"
  have u: "now_ms \<le> U64_MAX \<Longrightarrow> ok_step e s u" unfolding u_def by (rule roll_ok)
  have T: "tick_inner e now_ms s =
     (if s_state u = LoggedOn \<and> \<not> sched_contains (cf_schedule (s_cfg u)) now_ms then
        (Dropped, (snd (send e WLogout [] u))\<lparr>s_last_drop_reason := Some DrScheduleClosed, s_state := AwaitingLogout\<rparr>)
      else case s_state u of
        Disconnected \<Rightarrow> (Dropped, u)
      | AwaitingLogout \<Rightarrow> (Dropped, u)
      | AwaitingLogon \<Rightarrow>
          let since = (case s_awaiting_logon_since_ms u of Some t \<Rightarrow> t | None \<Rightarrow> now_ms);
              u = u\<lparr>s_awaiting_logon_since_ms := Some since\<rparr> in
          if timed_out (cf_logon_timeout_ms (s_cfg u)) since now_ms then (Dropped, end_session DrLogonTimedOut u) else (Up, u)
      | MustLogon \<Rightarrow>
          let u = u\<lparr>s_state := AwaitingLogon, s_beat_ms := cf_heart_bt_int (s_cfg u) * 1000, s_last_recv_ms := now_ms\<rparr> in
          (Up, snd (send e WLogon (logon_extra u) u))
      | LoggedOn \<Rightarrow> tick_beat e now_ms u
      | LoggingOut \<Rightarrow>
          let since = (case s_logging_out_since_ms u of Some t \<Rightarrow> t | None \<Rightarrow> now_ms);
              u = u\<lparr>s_logging_out_since_ms := Some since\<rparr> in
          if timed_out (cf_logout_timeout_ms (s_cfg u)) since now_ms then (Dropped, end_session DrLogoutTimedOut u)
          else tick_beat e now_ms u)"
    unfolding tick_inner_def u_def Let_def ..
  have a: "ok_step e u (u\<lparr>s_awaiting_logon_since_ms := x\<rparr>)" "ok_step e u (u\<lparr>s_logging_out_since_ms := x\<rparr>)"
     "ok_step e u (u\<lparr>s_state := AwaitingLogon, s_beat_ms := y, s_last_recv_ms := now_ms\<rparr>)" for x y
    by (simp_all add: ok_step_def ses_ok_def)
  have l: "ok_step e u ((snd (send e WLogout [] u))\<lparr>s_last_drop_reason := Some DrScheduleClosed, s_state := AwaitingLogout\<rparr>)"
    by (rule ok_step_trans [OF send_ok [of e u WLogout "[]"]]) (simp add: ok_step_def ses_ok_def)
  have "ok_step e u (snd (tick_inner e now_ms s)) \<and> link_agrees (tick_inner e now_ms s)"
  proof (cases "s_state u")
    case AwaitingLogon
    then show ?thesis using a(1) ok_step_trans [OF a(1) end_session_ok]
      unfolding T by (auto simp: Let_def link_agrees_def closed_def)
  next
    case MustLogon
    then show ?thesis using ok_step_trans [OF a(3) send_ok] unfolding T by (auto simp: Let_def link_agrees_def closed_def)
  next
    case LoggedOn
    then show ?thesis using l tick_beat_good [of e u now_ms]
      unfolding T by (auto simp: good_def link_agrees_def closed_def)
  next
    case LoggingOut
    let ?u = "u\<lparr>s_logging_out_since_ms := Some (case s_logging_out_since_ms u of Some t \<Rightarrow> t | None \<Rightarrow> now_ms)\<rparr>"
    have c: "closed ?u = closed u" by (simp add: closed_def)
    have "good e u (tick_beat e now_ms ?u)" by (rule good_trans [OF a(2) c tick_beat_good])
    moreover have "good e u (Dropped, end_session DrLogoutTimedOut ?u)" by (rule good_trans [OF a(2) c good_end])
    moreover have "\<not> closed u" using LoggingOut by (simp add: closed_def)
    ultimately show ?thesis using LoggingOut unfolding T by (simp add: good_def Let_def)
  qed (simp_all add: T link_agrees_def closed_def)
  then show "now_ms \<le> U64_MAX \<Longrightarrow> ok_step e s (snd (tick_inner e now_ms s))" "link_agrees (tick_inner e now_ms s)"
    using ok_step_trans [OF u] by blast+
qed

lemma tick_after_inner_good: "now_ms \<le> U64_MAX \<Longrightarrow> ok_step e s (snd (tick_after_inner e now_ms j s))"
    and tick_after_inner_link: "link_agrees (tick_after_inner e now_ms j s)"
proof -
  obtain l u where u: "tick_inner e now_ms s = (l, u)" by (metis prod.exhaust)
  note t = tick_inner_good [of now_ms e s, unfolded u snd_conv] tick_inner_link [of e now_ms s, unfolded u]
  obtain x v where v: "continue_replay e j u = (x, v)" by (metis prod.exhaust)
  have v': "ok_step e u v" "closed v = closed u"
    using continue_replay_ok [of e u j] v by (simp_all add: closed_def)
  show "link_agrees (tick_after_inner e now_ms j s)"
    using t(2) v'(2) by (cases x) (auto simp: tick_after_inner_def u v link_agrees_def)
  show "ok_step e s (snd (tick_after_inner e now_ms j s))" if "now_ms \<le> U64_MAX"
    using t(1) [OF that] ok_step_trans [OF t(1) [OF that] v'(1)] ok_step_trans [OF ok_step_trans [OF t(1) [OF that] v'(1)] end_session_ok]
    by (cases x) (auto simp: tick_after_inner_def u v)
qed

subsection \<open>Judging\<close>

definition jgood :: "('a, 'j) env \<Rightarrow> session \<Rightarrow> judged \<Rightarrow> bool" where
  "jgood e s r \<longleftrightarrow> ok_step e s (snd r) \<and> (\<forall>l. \<not> closed s \<and> fst r = Inr l \<longrightarrow> link_agrees (l, snd r))"

lemma jgood_link: "good e s r \<Longrightarrow> jgood e s (ok_link r)"
  by (simp add: jgood_def good_def ok_link_def)

lemma jgood_refuse: "ok_step e s t \<Longrightarrow> jgood e s (Inl why, t)"
  by (simp add: jgood_def)

lemma jgood_up: "ok_step e s t \<Longrightarrow> (closed t \<Longrightarrow> closed s) \<Longrightarrow> jgood e s (Inr Up, t)"
  by (auto simp: jgood_def link_agrees_def)

lemma jgood_trans: "ok_step e s t \<Longrightarrow> (closed t \<Longrightarrow> closed s) \<Longrightarrow> jgood e t r \<Longrightarrow> jgood e s r"
  by (auto simp: jgood_def intro: ok_step_trans)

lemma view_u32_bound: "view_u32 view tag = Some n \<Longrightarrow> n \<le> U32_MAX"
  by (auto simp: view_u32_def as_u32_bound split: option.splits sum.splits)

lemma garbled_good: "good e s (garbled bs s)"
  by (simp add: garbled_def good_end good_up)

lemma judge_bad_tag_good: "good e s (judge_bad_tag e bs at view s)"
proof -
  have "good e s (send_reject e r (case x of Some seq \<Rightarrow> if seq \<ge> s_next_in s then s\<lparr>s_next_in := wrap32 (seq + 1)\<rparr> else s | None \<Rightarrow> s))" for r x
    by (rule good_trans [OF _ _ send_reject_good]) (auto simp: ok_step_def ses_ok_def closed_def split: option.split)
  then show ?thesis unfolding judge_bad_tag_def Let_def by (auto simp: garbled_good simp del: reject.simps split: option.split)
qed

lemma judge_parse_good:
  assumes "judge_parse e bs s = Inl r"
  shows "jgood e s r"
proof -
  obtain q idx where p: "parse_into (e_tables e) Validation_ALL bs (FieldIndex_new (e_fields e)) = (q, idx)" by (metis prod.exhaust)
  note g = jgood_link [OF garbled_good, of e s bs] jgood_link [OF judge_bad_tag_good, of e s bs _ "fi_view idx bs"]
  show ?thesis
  proof (cases q)
    case (Inl err)
    then show ?thesis using assms g by (cases err) (auto simp: judge_parse_def p split: if_splits)
  next
    case (Inr d)
    then show ?thesis using assms g jgood_up [OF ok_step_refl, of s e] by (cases d) (auto simp: judge_parse_def p Let_def split: if_splits)
  qed
qed

lemma judge_gate_good:
  shows "judge_gate e view s = Inl r \<Longrightarrow> jgood e s r"
    and "judge_gate e view s = Inr (oks, t) \<Longrightarrow> ok_step e s t \<and> (\<exists>x. t = s\<lparr>s_last_skew_ms := x\<rparr>)"
proof -
  define u where "u = (case Option.bind (mv_get view 52) parse_utc of
      Some t \<Rightarrow> s\<lparr>s_last_skew_ms := Some (skew_ms (s_now_ms s) t)\<rparr> | None \<Rightarrow> s)"
  have u: "ok_step e s u" by (auto simp: u_def ok_step_def ses_ok_def split: option.split)
  have x: "\<exists>x. u = s\<lparr>s_last_skew_ms := x\<rparr>"
  proof (cases "Option.bind (mv_get view 52) parse_utc")
    case None
    then have "u = s\<lparr>s_last_skew_ms := s_last_skew_ms s\<rparr>" by (simp add: u_def)
    then show ?thesis ..
  next
    case (Some t)
    then have "u = s\<lparr>s_last_skew_ms := Some (skew_ms (s_now_ms s) t)\<rparr>" by (simp add: u_def)
    then show ?thesis ..
  qed
  show "judge_gate e view s = Inl r \<Longrightarrow> jgood e s r"
    unfolding judge_gate_def Let_def u_def [symmetric]
    by (auto simp: jgood_link logout_with_good jgood_refuse u split: if_splits)
  show "judge_gate e view s = Inr (oks, t) \<Longrightarrow> ok_step e s t \<and> (\<exists>x. t = s\<lparr>s_last_skew_ms := x\<rparr>)"
    unfolding judge_gate_def Let_def u_def [symmetric] using u x by (auto split: if_splits)
qed

definition in_bounded :: "inbound \<Rightarrow> bool" where
  "in_bounded m \<longleftrightarrow> in_seq m \<le> U32_MAX \<and>
     (\<forall>n. in_new_seq_no m = Some n \<or> in_begin_seq_no m = Some n \<or> in_end_seq_no m = Some n \<or> in_next_expected m = Some n \<longrightarrow> n \<le> U32_MAX)"

lemma judge_extract_bounded: "judge_extract e view oks s = Inr m \<Longrightarrow> in_bounded m"
  unfolding judge_extract_def in_bounded_def by (auto dest: view_u32_bound split: option.splits)

lemma judge_too_low_good: "good e s (judge_too_low e m s)"
  unfolding judge_too_low_def
  by (simp add: good_up send_reject_good logout_with_good split: option.split)

text \<open>What the sequencing leaves when it lets a message through.\<close>

definition after_sequence :: "inbound \<Rightarrow> session \<Rightarrow> session" where
  "after_sequence m s =
     (let s = (if is_logon m \<and> in_reset_seq m then s\<lparr>s_next_in := 1, s_next_out := 1\<rparr> else s);
          s = (if \<not> is_sequence_reset m \<and> \<not> is_logon m then advance_past (in_seq m) s else s) in
      s\<lparr>s_last_recv_ms := s_now_ms s, s_test_requests := 0, s_last_in := in_seq m\<rparr>)"

lemma reset_ok: "ok_step e s (if p then s\<lparr>s_next_in := 1, s_next_out := 1\<rparr> else s)"
  by (simp add: ok_step_def ses_ok_def)

lemma judge_sequence_good:
  assumes "in_bounded m"
  shows "judge_sequence e bs m s = Inl r \<Longrightarrow> jgood e s r"
    and "judge_sequence e bs m s = Inr t \<Longrightarrow> t = after_sequence m s \<and> ok_step e s t \<and> closed t = closed s"
proof -
  define u where "u = (if is_logon m \<and> in_reset_seq m then s\<lparr>s_next_in := 1, s_next_out := 1\<rparr> else s)"
  have u: "ok_step e s u" "closed u = closed s" unfolding u_def by (rule reset_ok, simp add: closed_def)
  have b: "in_seq m \<le> U32_MAX" using assms by (simp add: in_bounded_def)
  have low: "jgood e s (ok_link (judge_too_low e m u))"
    by (rule jgood_trans [OF u(1) _ jgood_link [OF judge_too_low_good]]) (simp add: u(2))
  have high: "jgood e s (ok_link (too_high e (in_seq m) bs u))"
    by (rule jgood_trans [OF u(1) _ jgood_link [OF too_high_good [OF b]]]) (simp add: u(2))
  show "judge_sequence e bs m s = Inl r \<Longrightarrow> jgood e s r"
    unfolding judge_sequence_def u_def [symmetric] Let_def using low high by (simp split: if_split_asm)
  define v where "v = (if \<not> is_sequence_reset m \<and> \<not> is_logon m then advance_past (in_seq m) u else u)"
  have v: "ok_step e s v" "closed v = closed s"
    using ok_step_trans [OF u(1) advance_past_ok(1)] u advance_past_ok(2) [of "in_seq m" u] by (simp_all add: v_def)
  let ?w = "v\<lparr>s_last_recv_ms := s_now_ms v, s_test_requests := 0, s_last_in := in_seq m\<rparr>"
  have w: "ok_step e v ?w" "closed ?w = closed v"
    using b by (simp_all add: ok_step_def ses_ok_def closed_def)
  have aft: "after_sequence m s = ?w"
    unfolding after_sequence_def u_def [symmetric] Let_def v_def [symmetric] ..
  have "t = ?w" if "judge_sequence e bs m s = Inr t"
    using that unfolding judge_sequence_def u_def [symmetric] Let_def v_def [symmetric] by (simp split: if_split_asm)
  then show "judge_sequence e bs m s = Inr t \<Longrightarrow> t = after_sequence m s \<and> ok_step e s t \<and> closed t = closed s"
    using ok_step_trans [OF v(1) w(1)] v(2) w(2) unfolding aft by simp
qed

lemma logon_tail_good:
  assumes "in_bounded m" "\<And>n. owes = Some n \<Longrightarrow> n \<le> U32_MAX"
  shows "jgood e s (logon_tail e bs m owes s)"
proof -
  let ?u = "case owes of Some want \<Rightarrow> s\<lparr>s_owed := Some \<lparr>rp_next = want, rp_end = wrapping_pred32 (s_next_out s)\<rparr>\<rparr> | None \<Rightarrow> s"
  have u: "ok_step e s ?u" "closed ?u = closed s"
    using assms(2) by (auto simp: ok_step_def ses_ok_def owed_ok_def wrapping_pred32_def closed_def split: option.split)
  have "in_seq m \<le> U32_MAX" using assms(1) by (simp add: in_bounded_def)
  then have "jgood e ?u (ok_link (too_high e (in_seq m) bs ?u))" by (intro jgood_link too_high_good)
  moreover have "jgood e ?u (Inr Up, advance_past (in_seq m) ?u)" by (rule jgood_up) (simp_all add: advance_past_ok)
  ultimately show ?thesis
    unfolding logon_tail_def Let_def by (auto intro: jgood_trans [OF u(1)] simp: u(2))
qed

lemma logout_now_good: "good e s (logout_now e txt' s)"
proof -
  have "ok_step e s ((snd (send e WLogout x s))\<lparr>s_state := AwaitingLogout\<rparr>)" for x
    by (rule ok_step_trans [OF send_ok state_update_ok])
  then show ?thesis by (auto simp: logout_now_def Let_def split_beta good_def link_agrees_def closed_def)
qed

text \<open>An answer that stops when the send fails.\<close>

lemma jgood_send:
  assumes "\<And>t. ok_step e s t \<Longrightarrow> closed t = closed s \<Longrightarrow> jgood e s (f t)"
  shows "jgood e s (case send e which extra s of (Inl why, t) \<Rightarrow> (Inl why, t) | (Inr _, t) \<Rightarrow> f t)"
proof -
  obtain x t where t: "send e which extra s = (x, t)" by (metis prod.exhaust)
  have "ok_step e s t" "closed t = closed s" using send_ok closed_send t by (metis snd_conv)+
  then show ?thesis using assms t by (cases x) (auto simp: jgood_refuse)
qed

lemma judge_logon_good:
  assumes "in_bounded m"
  shows "jgood e s (judge_logon e bs m s)"
proof (cases "is_fixt (s_cfg s) \<and> \<not> in_has_appl_ver_id m \<or> in_encrypt m = None \<or> in_heart_bt m = None")
  case True
  then show ?thesis by (auto simp: judge_logon_def jgood_refuse split: option.split)
next
  case False
  then obtain enc hb where eh: "in_encrypt m = Some enc" "in_heart_bt m = Some hb" by auto
  let ?p = "s\<lparr>s_peer_appl_ver_id := in_appl_ver_id m\<rparr>"
  let ?beat = "case as_u32 hb of Inr n \<Rightarrow> n * 1000 | Inl _ \<Rightarrow> 0"
  let ?l = "?p\<lparr>s_beat_ms := ?beat, s_state := LoggedOn\<rparr>"
  let ?owes = "case in_next_expected m of Some want \<Rightarrow> if want < s_next_out ?p then Some want else None | None \<Rightarrow> None"
  have p: "ok_step e s (note_drop_reason why ?p)" "closed (note_drop_reason why ?p) = closed s" for why
    by (simp_all add: note_drop_reason_def ok_step_def ses_ok_def closed_def)
  have l: "ok_step e s ?l" "\<not> closed ?l" by (simp_all add: ok_step_def ses_ok_def closed_def)
  have owes: "n \<le> U32_MAX" if "?owes = Some n" for n
    using that assms by (auto simp: in_bounded_def split: option.splits if_splits)
  have tail: "jgood e s (logon_tail e bs m ?owes t)" if "ok_step e s t" "\<not> closed t" for t
    by (rule jgood_trans [OF that(1) _ logon_tail_good [OF assms owes]]) (use that(2) in auto)
  have sent: "jgood e s (case send e WLogon x ?l of (Inl why, t) \<Rightarrow> (Inl why, t) | (Inr _, t) \<Rightarrow> logon_tail e bs m ?owes t)" for x
  proof -
    obtain y t where t: "send e WLogon x ?l = (y, t)" by (metis prod.exhaust)
    have "ok_step e s t" "\<not> closed t" using ok_step_trans [OF l(1) send_ok] closed_send l(2) t by (metis snd_conv)+
    then show ?thesis using tail t by (cases y) (simp_all add: jgood_refuse)
  qed
  have high: "jgood e s (ok_link (logout_now e x (note_drop_reason y ?p)))" for x y
    by (rule jgood_trans [OF p(1) _ jgood_link [OF logout_now_good]]) (simp add: p(2))
  have J: "judge_logon e bs m s =
      (if (case in_next_expected m of Some want \<Rightarrow> want > s_next_out ?p | None \<Rightarrow> False) then
         ok_link (logout_now e (b ''NextExpectedMsgSeqNum too high'') (note_drop_reason DrNextExpectedTooHigh ?p))
       else if \<not> e_speaks_first e then
         (case send e WLogon (logon_reply enc hb m ?l) ?l of (Inl why, t) \<Rightarrow> (Inl why, t) | (Inr _, t) \<Rightarrow> logon_tail e bs m ?owes t)
       else logon_tail e bs m ?owes ?l)"
    using False unfolding judge_logon_def eh by (simp only: option.case prod.case Let_def if_False simp_thms de_Morgan_disj split: if_split)
  show ?thesis unfolding J by (simp only: if_split sent high tail [OF l] simp_thms)
qed

lemma jgood_end: "ok_step e s t \<Longrightarrow> jgood e s (Inr Dropped, end_session why t)"
  using ok_step_trans [OF _ end_session_ok] by (auto simp: jgood_def link_agrees_def)

lemma judge_logout_good: "jgood e s (judge_logout e s)"
  unfolding judge_logout_def by (auto intro: jgood_send jgood_end)

lemma judge_test_request_good: "jgood e s (judge_test_request e m s)"
  unfolding judge_test_request_def by (auto intro: jgood_send jgood_up)

lemma judge_resend_request_good:
  assumes "in_bounded m"
  shows "jgood e s (judge_resend_request m s)"
proof -
  let ?hi = "case in_end_seq_no m of Some n \<Rightarrow> if n \<noteq> 0 \<and> n \<le> s_next_out s - 1 then n else s_next_out s - 1 | None \<Rightarrow> s_next_out s - 1"
  have "s_next_out s \<le> U32_MAX \<Longrightarrow> ?hi \<le> U32_MAX" using assms by (auto simp: in_bounded_def split: option.split)
  moreover have "from \<le> U32_MAX" if "in_begin_seq_no m = Some from" for "from" using that assms by (auto simp: in_bounded_def)
  ultimately have "ok_step e s (s\<lparr>s_owed := Some \<lparr>rp_next = from, rp_end = ?hi\<rparr>\<rparr>)" if "in_begin_seq_no m = Some from" for "from"
    using that by (simp add: ok_step_def ses_ok_def owed_ok_def)
  then show ?thesis unfolding judge_resend_request_def Let_def
    by (cases "in_begin_seq_no m") (auto simp: closed_def intro: jgood_up)
qed

lemma judge_sequence_reset_good:
  assumes "in_bounded m"
  shows "jgood e s (judge_sequence_reset e m s)"
proof (cases "in_new_seq_no m")
  case (Some n)
  then have "ok_step e s (s\<lparr>s_next_in := n\<rparr>)" using assms by (auto simp: in_bounded_def ok_step_def ses_ok_def)
  then show ?thesis using Some jgood_link [OF send_reject_good] by (auto simp: judge_sequence_reset_def closed_def intro: jgood_up)
qed (simp add: judge_sequence_reset_def jgood_up)

definition wgood :: "('a, 'j) env \<Rightarrow> session \<Rightarrow> (refusal + link) \<times> ('a, 'j) world \<Rightarrow> bool" where
  "wgood e s r \<longleftrightarrow> jgood e s (fst r, w_ses (snd r))"

lemma wgood_ses: "jgood e s r \<Longrightarrow> wgood e s (with_ses w r)"
  by (simp add: wgood_def with_ses_def)

lemma wgood_if: "wgood e s x \<Longrightarrow> wgood e s y \<Longrightarrow> wgood e s (if p then x else y)"
  by simp

lemma wgood_trans: "ok_step e s t \<Longrightarrow> (closed t \<Longrightarrow> closed s) \<Longrightarrow> wgood e t r \<Longrightarrow> wgood e s r"
  unfolding wgood_def by (rule jgood_trans)

text \<open>The session a delivered message leaves, by the answer of the application.\<close>

lemma judge_application_cases:
  obtains (no_template) st s where "stamp_now (w_ses w) = (st, s)" "s_out (w_ses w) = None"
      "judge_application e bs w = (Inl CannotSend, w\<lparr>w_ses := s\<rparr>)"
  | (silent) st s hdr a where "stamp_now (w_ses w) = (st, s)"
      "e_on_message e (w_app w) bs hdr (e_app_scratch e) = (None, a)" "h_seq hdr = s_next_out (w_ses w)" "h_stamp hdr = st"
      "judge_application e bs w = (Inr Up, w\<lparr>w_ses := s, w_app := a\<rparr>)"
  | (reply) st s hdr m a ok j n where "stamp_now (w_ses w) = (st, s)"
      "e_on_message e (w_app w) bs hdr (e_app_scratch e) = (Some m, a)" "h_seq hdr = s_next_out (w_ses w)" "h_stamp hdr = st"
      "j_put (e_journal e) (s_next_out (w_ses w)) m (w_jnl w) = (ok, j)"
      "n = (if ok then s_puts_refused s else wrap32 (s_puts_refused s + 1))"
      "judge_application e bs w = (Inr Up, w\<lparr>w_app := a, w_jnl := j,
         w_ses := s\<lparr>s_wire := s_wire (w_ses w) @ [m], s_puts_refused := n,
            s_next_out := wrap32 (s_next_out (w_ses w) + 1), s_last_sent_ms := s_now_ms (w_ses w)\<rparr>\<rparr>)"
proof -
  obtain st s where st: "stamp_now (w_ses w) = (st, s)" by (metis prod.exhaust)
  have s: "s_out s = s_out (w_ses w)" "s_next_out s = s_next_out (w_ses w)" "s_wire s = s_wire (w_ses w)" "s_now_ms s = s_now_ms (w_ses w)"
    using stamp_now_keeps [of "w_ses w"] st by simp_all
  define hdr where "hdr = \<lparr>h_seq = s_next_out s, h_stamp = st,
                 h_last_processed = (if cf_last_processed (s_cfg s) then Some (s_last_in s) else None)\<rparr>"
  have hdr: "h_seq hdr = s_next_out (w_ses w)" "h_stamp hdr = st" by (simp_all add: hdr_def s)
  show thesis
  proof (cases "s_out (w_ses w)")
    case None
    then show ?thesis using no_template [OF st] by (simp add: judge_application_def st s Let_def)
  next
    case ob: (Some ob)
    obtain rep a where rep: "e_on_message e (w_app w) bs hdr (e_app_scratch e) = (rep, a)" by (metis prod.exhaust)
    show ?thesis
    proof (cases rep)
      case None
      show ?thesis
        by (rule silent [OF st rep [unfolded None] hdr], unfold judge_application_def st prod.case Let_def hdr_def [symmetric])
          (simp add: s ob rep None)
    next
      case (Some m)
      obtain ok j where put: "j_put (e_journal e) (s_next_out (w_ses w)) m (w_jnl w) = (ok, j)" by (metis prod.exhaust)
      show ?thesis
        by (rule reply [OF st rep [unfolded Some] hdr put refl], unfold judge_application_def st prod.case Let_def hdr_def [symmetric])
          (simp add: s ob rep Some put emit_msg_def)
    qed
  qed
qed

lemma judge_application_good: "wgood e (w_ses w) (judge_application e bs w)"
proof -
  have s: "ok_step e (w_ses w) s" "s_state s = s_state (w_ses w)" "s_wire s = s_wire (w_ses w)" if "stamp_now (w_ses w) = (st, s)" for st s
    using stamp_now_ok [of e "w_ses w"] stamp_now_keeps [of "w_ses w"] that by simp_all
  show ?thesis
  proof (cases rule: judge_application_cases [of w e bs])
    case no_template
    then show ?thesis using s by (simp add: wgood_def jgood_refuse)
  next
    case silent
    then show ?thesis using s by (auto simp: wgood_def closed_def intro: jgood_up)
  next
    case (reply st t hdr m a ok j n)
    have "ok_step e t (t\<lparr>s_wire := s_wire (w_ses w) @ [m], s_puts_refused := n,
            s_next_out := wrap32 (s_next_out (w_ses w) + 1), s_last_sent_ms := s_now_ms (w_ses w)\<rparr>)"
      using s(3) [OF reply(1)] reply(6) by (auto simp: ok_step_def ses_ok_def)
    from ok_step_trans [OF s(1) [OF reply(1)] this] show ?thesis
      using s(2) [OF reply(1)] reply(7) by (auto simp: wgood_def closed_def intro!: jgood_up)
  qed
qed

lemma judge_dispatch_good:
  assumes "in_bounded m"
  shows "wgood e s (judge_dispatch e bs m s w)"
proof (cases "in_fault m")
  case None
  have app: "wgood e s (judge_application e bs (w\<lparr>w_ses := s\<rparr>))"
    using judge_application_good [of e "w\<lparr>w_ses := s\<rparr>"] by simp
  have up: "wgood e s (Inr Up, w\<lparr>w_ses := s\<rparr>)" by (simp add: wgood_def jgood_up)
  show ?thesis
    unfolding judge_dispatch_def None option.case
    by (intro wgood_if wgood_ses judge_logon_good judge_logout_good judge_test_request_good judge_resend_request_good
        judge_sequence_reset_good app up assms)
next
  case (Some f)
  then show ?thesis unfolding judge_dispatch_def by (cases f) (simp add: wgood_ses jgood_link send_reject_good)
qed

text \<open>The cases of \<open>judge\<close>: stopped at the frame, at a gate, without a sequence number, by the sequence
  rules, or dispatched.\<close>

lemma judge_cases:
  obtains (parse) r where "judge_parse e bs (w_ses w) = Inl r" "judge e bs w = with_ses w r"
  | (gate) view r where "judge_parse e bs (w_ses w) = Inr view" "judge_gate e view (w_ses w) = Inl r" "judge e bs w = with_ses w r"
  | (no_seq) view oks t why where "judge_parse e bs (w_ses w) = Inr view" "judge_gate e view (w_ses w) = Inr (oks, t)"
      "judge_extract e view oks t = Inl why" "judge e bs w = (Inl why, w\<lparr>w_ses := t\<rparr>)"
  | (sequence) view oks t m r where "judge_parse e bs (w_ses w) = Inr view" "judge_gate e view (w_ses w) = Inr (oks, t)"
      "judge_extract e view oks t = Inr m" "judge_sequence e bs m t = Inl r" "judge e bs w = with_ses w r"
  | (dispatch) view oks t m u where "judge_parse e bs (w_ses w) = Inr view" "judge_gate e view (w_ses w) = Inr (oks, t)"
      "judge_extract e view oks t = Inr m" "judge_sequence e bs m t = Inr u" "judge e bs w = judge_dispatch e bs m u w"
proof (cases "judge_parse e bs (w_ses w)")
  case (Inl r)
  then show ?thesis by (intro parse) (simp_all add: judge_def)
next
  case p: (Inr view)
  show ?thesis
  proof (cases "judge_gate e view (w_ses w)")
    case (Inl r)
    then show ?thesis using p by (intro gate) (simp_all add: judge_def)
  next
    case (Inr ot)
    obtain oks t where g: "judge_gate e view (w_ses w) = Inr (oks, t)" using Inr by (cases ot) simp
    show ?thesis
    proof (cases "judge_extract e view oks t")
      case (Inl why)
      then show ?thesis by (intro no_seq [OF p g]) (simp_all add: judge_def p g)
    next
      case x: (Inr m)
      show ?thesis
      proof (cases "judge_sequence e bs m t")
        case (Inl r)
        then show ?thesis by (intro sequence [OF p g x]) (simp_all add: judge_def p g x)
      next
        case (Inr u)
        then show ?thesis by (intro dispatch [OF p g x]) (simp_all add: judge_def p g x)
      qed
    qed
  qed
qed

lemma judge_good: "wgood e (w_ses w) (judge e bs w)"
proof (cases rule: judge_cases [of e bs w])
  case (parse r)
  then show ?thesis by (simp add: wgood_ses judge_parse_good)
next
  case (gate view r)
  then show ?thesis by (simp add: wgood_ses judge_gate_good(1))
next
  case (no_seq view oks t why)
  then show ?thesis using judge_gate_good(2) [OF no_seq(2)] by (simp add: wgood_def jgood_refuse)
next
  case (sequence view oks t m r)
  have t: "ok_step e (w_ses w) t" "closed t = closed (w_ses w)"
    using judge_gate_good(2) [OF sequence(2)] by (auto simp: closed_def)
  have "jgood e t r" by (rule judge_sequence_good(1) [OF judge_extract_bounded [OF sequence(3)] sequence(4)])
  then show ?thesis unfolding sequence(5) by (intro wgood_ses jgood_trans [OF t(1)]) (simp_all add: t(2))
next
  case (dispatch view oks t m u)
  have t: "ok_step e (w_ses w) t" "closed t = closed (w_ses w)"
    using judge_gate_good(2) [OF dispatch(2)] by (auto simp: closed_def)
  note b = judge_extract_bounded [OF dispatch(3)]
  have u: "ok_step e (w_ses w) u" "closed u = closed (w_ses w)"
    using judge_sequence_good(2) [OF b dispatch(4)] ok_step_trans [OF t(1)] t(2) by blast+
  show ?thesis unfolding dispatch(5) by (rule wgood_trans [OF u(1) _ judge_dispatch_good [OF b]]) (simp add: u(2))
qed

lemma settle_good: "wgood e s r \<Longrightarrow> good e s (fst (settle r), w_ses (snd (settle r)))"
  by (cases r; cases "fst r")
    (auto simp: wgood_def jgood_def settle_def good_def link_agrees_def intro: ok_step_trans [OF _ end_session_ok])

lemma clear_ok: "ok_step e s (s\<lparr>s_queue := (s_queue s)[i := (s_queue s ! i)\<lparr>q_seq := 0\<rparr>]\<rparr>)"
  "closed (s\<lparr>s_queue := q\<rparr>) = closed s"
proof -
  have "queue_ok ((s_queue s)[i := (s_queue s ! i)\<lparr>q_seq := 0\<rparr>])" if "queue_ok (s_queue s)"
  proof (cases "i < length (s_queue s)")
    case True
    then show ?thesis using that by (auto simp: queue_ok_def list_all_iff dest!: set_update_subset_insert [THEN subsetD])
  qed (use that in \<open>simp add: list_update_beyond\<close>)
  then show "ok_step e s (s\<lparr>s_queue := (s_queue s)[i := (s_queue s ! i)\<lparr>q_seq := 0\<rparr>]\<rparr>)"
    by (simp add: ok_step_def ses_ok_def)
qed (simp add: closed_def)

lemma drain_loop_good: "good e (w_ses w) (fst (drain_loop n e w), w_ses (snd (drain_loop n e w)))"
proof (induction n arbitrary: w)
  case (Suc n)
  show ?case
  proof (cases "List.find (\<lambda>i. q_seq (s_queue (w_ses w) ! i) = s_next_in (w_ses w)) [0..<QUEUED]")
    case None
    then show ?thesis by (simp only: drain_loop.simps Let_def) (simp add: good_up)
  next
    case (Some i)
    define c where "c = w\<lparr>w_ses := (w_ses w)\<lparr>s_queue := (s_queue (w_ses w))[i := (s_queue (w_ses w) ! i)\<lparr>q_seq := 0\<rparr>]\<rparr>\<rparr>"
    have c: "ok_step e (w_ses w) (w_ses c)" "closed (w_ses c) = closed (w_ses w)"
      unfolding c_def using clear_ok by auto
    obtain l v where l: "settle (judge e (q_bytes (s_queue (w_ses w) ! i)) c) = (l, v)" by (metis prod.exhaust)
    have g: "good e (w_ses w) (l, w_ses v)"
      using settle_good [OF judge_good [of e c "q_bytes (s_queue (w_ses w) ! i)"]] l good_trans [OF c] by simp
    have D: "drain_loop (Suc n) e w = (case l of Up \<Rightarrow> drain_loop n e v | Dropped \<Rightarrow> (Dropped, v))"
      using Some l by (simp only: drain_loop.simps Let_def option.case c_def [symmetric] prod.case)
    show ?thesis
    proof (cases l)
      case Up
      then show ?thesis using g Suc.IH [of v] ok_step_trans unfolding D by (auto simp: good_def link_agrees_def intro: ok_step_trans)
    next
      case Dropped
      then show ?thesis using g unfolding D by simp
    qed
  qed
qed (simp add: good_up)

lemma received_inner_good:
  "ok_step e (w_ses w) (w_ses (snd (received_inner e bs w)))"
  "link_agrees (fst (received_inner e bs w), w_ses (snd (received_inner e bs w)))"
proof -
  let ?r = "received_inner e bs w"
  have "ok_step e (w_ses w) (w_ses (snd ?r)) \<and> link_agrees (fst ?r, w_ses (snd ?r))"
  proof (cases "closed (w_ses w)")
    case True
    then show ?thesis by (auto simp: received_inner_def closed_def link_agrees_def)
  next
    case False
    then have op: "\<not> (s_state (w_ses w) = Disconnected \<or> s_state (w_ses w) = AwaitingLogout)" by (simp add: closed_def)
    obtain l v where l: "settle (judge e bs w) = (l, v)" by (metis prod.exhaust)
    have v: "ok_step e (w_ses w) (w_ses v)" "link_agrees (l, w_ses v)"
      using settle_good [OF judge_good [of e w bs]] l False by (simp_all add: good_def)
    show ?thesis
    proof (cases l)
      case Dropped
      then show ?thesis using v op by (simp add: received_inner_def l)
    next
      case Up
      obtain k u where u: "drain e v = (k, u)" by (metis prod.exhaust)
      have du: "ok_step e (w_ses w) (w_ses u)" "link_agrees (k, w_ses u)"
        using drain_loop_good [of e v QUEUED] u v Up ok_step_trans [OF v(1)] by (auto simp: drain_def good_def link_agrees_def)
      obtain x t where t: "continue_replay e (w_jnl u) (w_ses u) = (x, t)" by (metis prod.exhaust)
      have ct: "ok_step e (w_ses w) t" "closed t = closed (w_ses u)"
        using continue_replay_ok [of e "w_ses u" "w_jnl u"] t ok_step_trans [OF du(1)] by (simp_all add: closed_def)
      show ?thesis using du ct ok_step_trans [OF ct(1) end_session_ok] op Up
        by (cases x) (auto simp: received_inner_def l u t link_agrees_def)
    qed
  qed
  then show "ok_step e (w_ses w) (w_ses (snd ?r))" "link_agrees (fst ?r, w_ses (snd ?r))" by blast+
qed

subsection \<open>Every call\<close>

text \<open>The entry points that have no answer to agree with the state.\<close>

lemma counts_ok:
  "n \<le> U32_MAX \<Longrightarrow> ok_step e s (snd (set_next_out n s))" "n \<le> U32_MAX \<Longrightarrow> ok_step e s (snd (set_next_in n s))"
  by (simp_all add: set_next_out_def set_next_in_def ok_step_def ses_ok_def)

lemma send_sequence_reset_ok: "n \<le> U32_MAX \<Longrightarrow> ok_step e s (snd (send_sequence_reset e n s))"
proof -
  assume n: "n \<le> U32_MAX"
  obtain x t where t: "send_as e WGapFill None [(36, lib_digits n), (123, b ''N'')] s = (x, t)" by (metis prod.exhaust)
  have "ok_step e s t" using send_as_ok t by (metis snd_conv)
  moreover from n have "ok_step e t (t\<lparr>s_next_out := n\<rparr>)" by (simp add: ok_step_def ses_ok_def)
  ultimately show ?thesis using ok_step_trans by (auto simp: send_sequence_reset_def t)
qed

lemma direct_sends_ok:
  "ok_step e s (snd (send_heartbeat e s))" "ok_step e s (snd (send_test_request e rid s))" "ok_step e s (snd (send_resend_request e lo hi s))"
  using send_ok by (auto simp: send_heartbeat_def send_test_request_def send_resend_request_def split_beta Let_def)

lemma connect_ok: "ok_step e s (snd (connect e s))"
  by (simp add: connect_def Let_def ok_step_def ses_ok_def)

lemma disconnect_with_ok: "ok_step e s (snd (disconnect_with why s))"
  by (simp add: disconnect_with_def end_session_ok state_update_ok)

lemma note_drop_reason_ok: "ok_step e s (note_drop_reason why s)"
  by (simp add: note_drop_reason_def ok_step_def ses_ok_def)

lemma begin_logout_ok: "ok_step e s (snd (begin_logout e txt' s))"
proof -
  obtain x t where t: "send e WLogout (if txt' = [] then [] else [(58, txt')]) s = (x, t)" by (metis prod.exhaust)
  have "ok_step e s t" using send_ok t by (metis snd_conv)
  then show ?thesis using ok_step_trans [OF _ end_session_ok] ok_step_trans [OF _ state_update_ok]
    by (auto simp: begin_logout_def t end_session_ok)
qed

lemma send_application_ok: "ok_step e s (fst (snd (send_application e m s j)))"
proof -
  obtain st u where st: "stamp_now s = (st, u)" by (metis prod.exhaust)
  have u: "ok_step e s u" using stamp_now_ok [of e s] st by simp
  have v: "ok_step e s ((emit_msg x u)\<lparr>s_next_out := wrap32 k, s_last_sent_ms := t\<rparr>)"
    "ok_step e s ((emit_msg x (u\<lparr>s_puts_refused := wrap32 n\<rparr>))\<lparr>s_next_out := wrap32 k, s_last_sent_ms := t\<rparr>)" for x n k t
    by (rule ok_step_trans [OF u], simp add: ok_step_def ses_ok_def emit_msg_def)+
  show ?thesis
  proof (cases "s_state s = LoggedOn \<and> s_out u \<noteq> None")
    case False
    then show ?thesis using u by (auto simp: send_application_def st Let_def)
  next
    case True
    let ?rb = "rebuild (e_tables e) m (Some (lib_digits (s_next_out u))) st
        (if cf_last_processed (s_cfg u) then Some (s_last_in u) else None) False (replicate (e_app_scratch e) 0)"
    show ?thesis
    proof (cases ?rb)
      case None
      then show ?thesis using True u unfolding send_application_def st prod.case Let_def by auto
    next
      case (Some r)
      obtain ok j' where "j_put (e_journal e) (s_next_out u) (message_of r) j = (ok, j')" by (metis prod.exhaust)
      then show ?thesis using True Some v unfolding send_application_def st prod.case Let_def by auto
    qed
  qed
qed

text \<open>One step per call a caller can make; the numbers a caller passes are 32 and 64 bits wide.\<close>

inductive session_step :: "('a, 'j) env \<Rightarrow> ('a, 'j) world \<Rightarrow> ('a, 'j) world \<Rightarrow> bool" for e where
  connected: "connect e (w_ses w) = (l, s) \<Longrightarrow> session_step e w (w\<lparr>w_ses := s\<rparr>)"
| disconnected: "disconnect_with why (w_ses w) = (l, s) \<Longrightarrow> session_step e w (w\<lparr>w_ses := s\<rparr>)"
| noted: "session_step e w (w\<lparr>w_ses := note_drop_reason why (w_ses w)\<rparr>)"
| ticked: "now \<le> U64_MAX \<Longrightarrow> tick_with e now (w_ses w) (w_jnl w) = (l, s, j) \<Longrightarrow> session_step e w (w\<lparr>w_ses := s, w_jnl := j\<rparr>)"
| ticked_at: "now \<le> U64_MAX \<Longrightarrow> tick_at_with e now sub (w_ses w) (w_jnl w) = (l, s, j) \<Longrightarrow> session_step e w (w\<lparr>w_ses := s, w_jnl := j\<rparr>)"
| was_received: "received_with e bs w = (l, w') \<Longrightarrow> session_step e w w'"
| app_sent: "send_application e m (w_ses w) (w_jnl w) = (l, s, j) \<Longrightarrow> session_step e w (w\<lparr>w_ses := s, w_jnl := j\<rparr>)"
| logout_begun: "begin_logout_with e txt' (w_ses w) (w_jnl w) = (l, s, j) \<Longrightarrow> session_step e w (w\<lparr>w_ses := s, w_jnl := j\<rparr>)"
| logout_sent: "logout_now_with e txt' (w_ses w) (w_jnl w) = (l, s, j) \<Longrightarrow> session_step e w (w\<lparr>w_ses := s, w_jnl := j\<rparr>)"
| out_set: "n \<le> U32_MAX \<Longrightarrow> session_step e w (w\<lparr>w_ses := snd (set_next_out n (w_ses w))\<rparr>)"
| in_set: "n \<le> U32_MAX \<Longrightarrow> session_step e w (w\<lparr>w_ses := snd (set_next_in n (w_ses w))\<rparr>)"
| reset_sent: "n \<le> U32_MAX \<Longrightarrow> send_sequence_reset_with e n (w_ses w) (w_jnl w) = (ok, s, j) \<Longrightarrow>
    session_step e w (w\<lparr>w_ses := s, w_jnl := j\<rparr>)"
| heartbeat_sent: "session_step e w (w\<lparr>w_ses := snd (send_heartbeat e (w_ses w))\<rparr>)"
| test_sent: "session_step e w (w\<lparr>w_ses := snd (send_test_request e rid (w_ses w))\<rparr>)"
| resend_asked: "session_step e w (w\<lparr>w_ses := snd (send_resend_request e lo hi (w_ses w))\<rparr>)"

lemma clock_set_ok: "ok_step e s (s\<lparr>s_now_sub_ms_nanos := x, s_now_resolution := y\<rparr>)"
  by (simp add: ok_step_def ses_ok_def)

lemma session_step_ok: "session_step e w w' \<Longrightarrow> ok_step e (w_ses w) (w_ses w')"
proof (induction rule: session_step.induct)
  case (connected w l s)
  then show ?case using connect_ok [of e "w_ses w"] by simp
next
  case (disconnected why w l s)
  then show ?case using disconnect_with_ok [of e "w_ses w" why] by simp
next
  case (ticked now w l s j)
  then show ?case using ok_step_trans [OF clock_set_ok tick_after_inner_good [OF ticked(1)]]
    by (auto simp: tick_with_def Let_def split_beta)
next
  case (ticked_at now sub w l s j)
  then show ?case using ok_step_trans [OF clock_set_ok tick_after_inner_good [OF ticked_at(1)]]
    by (auto simp: tick_at_with_def Let_def split_beta)
next
  case (was_received bs w l w')
  then show ?case using received_inner_good(1) [of e w bs] by (auto simp: received_with_def Let_def split_beta)
next
  case (app_sent m w l s j)
  then show ?case using send_application_ok [of e "w_ses w" m "w_jnl w"] by simp
next
  case (logout_begun txt' w l s j)
  then show ?case using begin_logout_ok [of e "w_ses w" txt'] by (auto simp: begin_logout_with_def split_beta)
next
  case (logout_sent txt' w l s j)
  then show ?case using logout_now_good [of e "w_ses w" txt'] by (auto simp: logout_now_with_def split_beta good_def)
next
  case (reset_sent n w ok s j)
  then show ?case using send_sequence_reset_ok [of n e "w_ses w"] by (auto simp: send_sequence_reset_with_def split_beta)
qed (simp_all add: counts_ok direct_sends_ok note_drop_reason_ok)

text \<open>The names of a configuration are held inline, so their lengths are bounded.\<close>

definition cfg_ok :: "config \<Rightarrow> bool" where
  "cfg_ok c \<longleftrightarrow> length (nm_bytes (cf_begin_string c)) \<le> MAX_BEGIN_STRING_LEN \<and>
     length (nm_bytes (cf_sender_comp_id c)) \<le> MAX_COMP_ID_LEN \<and> length (nm_bytes (cf_target_comp_id c)) \<le> MAX_COMP_ID_LEN"

inductive reachable :: "('a, 'j) env \<Rightarrow> config \<Rightarrow> ('a, 'j) world \<Rightarrow> bool" for e cfg where
  started: "reachable e cfg \<lparr>w_ses = Session_new e cfg, w_app = a, w_jnl = j\<rparr>"
| resumed: "out \<le> U32_MAX \<Longrightarrow> inn \<le> U32_MAX \<Longrightarrow>
    reachable e cfg \<lparr>w_ses = Session_resume_at e cfg out inn active, w_app = a, w_jnl = j\<rparr>"
| stepped: "reachable e cfg w \<Longrightarrow> session_step e w w' \<Longrightarrow> reachable e cfg w'"

lemma Session_new_ok: "ses_ok e (Session_new e cfg)"
proof -
  let ?out = "case (nm_get (cf_begin_string cfg), nm_get (cf_sender_comp_id cfg)) of
     (Some bs, Some sender) \<Rightarrow>
       if (case cf_default_appl_ver_id cfg of None \<Rightarrow> True | Some n \<Rightarrow> nm_get n \<noteq> None)
       then Option.bind (nm_get (cf_target_comp_id cfg)) (\<lambda>target. Outbound_new (e_tables e) bs sender target) else None
   | _ \<Rightarrow> None"
  have "out_ok e cfg ?out"
    by (auto simp: out_ok_def Option.bind_eq_Some_conv dest: Outbound_new_template split: option.split if_split)
  then show ?thesis
    unfolding Session_new_def Let_def
    by (simp add: ses_ok_def queue_ok_def owed_ok_def list_all_iff TimestampCache_with_precision_def [THEN arg_cong, of ts_precision])
qed

lemma reachable_ok: "reachable e cfg w \<Longrightarrow> s_cfg (w_ses w) = cfg \<and> ses_ok e (w_ses w)"
proof (induction rule: reachable.induct)
  case (started a j)
  have "s_cfg (Session_new e cfg) = cfg" by (simp add: Session_new_def Let_def)
  then show ?case by (simp add: Session_new_ok)
next
  case (resumed out inn active a j)
  have "s_cfg (Session_new e cfg) = cfg" by (simp add: Session_new_def Let_def)
  then show ?case using resumed Session_new_ok [of e cfg] by (simp add: Session_resume_at_def Session_resume_def ses_ok_def)
next
  case (stepped w w')
  then show ?case using session_step_ok [OF stepped(2)] by (simp add: ok_step_def)
qed

inductive_cases session_stepE: "session_step e w w'"

subsection \<open>Properties\<close>

definition silent_app :: "(unit, unit) env" where
  "silent_app = \<lparr>e_tables = parties_tables, e_fields = 64, e_app_scratch = 512, e_speaks_first = False,
     e_on_message = (\<lambda>a _ _ _. (None, a)), e_journal = NoJournal\<rparr>"

definition acceptor :: config where
  "acceptor = Config_acceptor (b ''FIX.4.4'') (b ''SRV'') (b ''CLI'')"

definition fresh :: "(unit, unit) world" where
  "fresh = \<lparr>w_ses = Session_new silent_app acceptor, w_app = (), w_jnl = ()\<rparr>"

text \<open>C1: Whatever sequence of calls a session gets (connections and their loss, ticks, received bytes,
  application sends, logouts, administration of the numbers), it keeps the configuration it was made
  with and its invariant: every counter is a 32-bit number, the queue has its four slots each within
  its size, a replay in progress stays within 32 bits, the cached timestamp text is coherent with
  the minute it stands for, and the outbound templates are those of the configured identity.\<close>

theorem session_invariant:
  assumes "reachable e cfg w"
  shows "s_cfg (w_ses w) = cfg \<and> ses_ok e (w_ses w)"
  by (rule reachable_ok [OF assms])

theorem session_invariant_witness:
  "ses_ok silent_app (w_ses (fresh\<lparr>w_ses := snd (connect silent_app (w_ses fresh))\<rparr>))"
proof -
  have "session_step silent_app fresh (fresh\<lparr>w_ses := snd (connect silent_app (w_ses fresh))\<rparr>)"
    by (rule session_step.connected) (rule prod.collapse [symmetric])
  with reachable.started [of silent_app acceptor] have
    "reachable silent_app acceptor (fresh\<lparr>w_ses := snd (connect silent_app (w_ses fresh))\<rparr>)"
    unfolding fresh_def by (rule reachable.stepped)
  then show ?thesis using session_invariant by blast
qed

text \<open>C6: The answer to a call agrees with the state it leaves. Receiving bytes and ticking answer
  \<open>Dropped\<close> exactly when the session they leave is closed (disconnected, or having said its goodbye),
  whatever the bytes, the time, the application and the journal; so a connection is kept exactly as
  long as its session is alive.\<close>

theorem dropped_iff_closed:
  "(fst (received_with e bs w) = Dropped \<longleftrightarrow> closed (w_ses (snd (received_with e bs w)))) \<and>
   (fst (tick_with e now s j) = Dropped \<longleftrightarrow> closed (fst (snd (tick_with e now s j)))) \<and>
   (fst (tick_at_with e now sub s j) = Dropped \<longleftrightarrow> closed (fst (snd (tick_at_with e now sub s j))))"
proof (intro conjI)
  show "fst (received_with e bs w) = Dropped \<longleftrightarrow> closed (w_ses (snd (received_with e bs w)))"
    using received_inner_good(2) [of e bs w] by (simp add: received_with_def Let_def split_beta link_agrees_def)
  show "fst (tick_with e now s j) = Dropped \<longleftrightarrow> closed (fst (snd (tick_with e now s j)))"
    using tick_after_inner_link [of e now j] by (simp add: tick_with_def Let_def split_beta link_agrees_def)
  show "fst (tick_at_with e now sub s j) = Dropped \<longleftrightarrow> closed (fst (snd (tick_at_with e now sub s j)))"
    using tick_after_inner_link [of e now j] by (simp add: tick_at_with_def Let_def split_beta link_agrees_def)
qed

end
