(* ===== verification/Session_Send.thy ===== *)
theory Session_Send
  imports Session_Inv
begin

text \<open>
  What \<open>send\<close> and \<open>send_as\<close> of \<open>crates/session/src/lib.rs\<close> put on the wire: the frame of the
  template, with the session's own number and stamp, whenever it fits the 512 bytes of the buffer.
\<close>

subsection \<open>The text of a message\<close>

definition out_decls :: "config \<Rightarrow> which \<Rightarrow> decl list" where
  "out_decls c which = out_head (out_msg_type which) (nm_bytes (cf_sender_comp_id c)) (nm_bytes (cf_target_comp_id c)) @ map Slot (out_slots which)"

definition session_frame :: "('a, 'j) env \<Rightarrow> config \<Rightarrow> which \<Rightarrow> slots \<Rightarrow> bytes" where
  "session_frame e c which sl =
     wire_frame (nm_bytes (cf_begin_string c)) (wire_body (template_fields (e_tables e) sl (out_decls c which)))"

text \<open>No field of the session's own messages is a DATA field.\<close>

definition plain_header :: "('a, 'j) env \<Rightarrow> bool" where
  "plain_header e \<longleftrightarrow> (\<forall>which c. no_data (e_tables e) (out_decls c which))"

lemma plain_headerI:
  assumes "list_all (\<lambda>t. data_length_tag (e_tables e) t = None)
    [35, 49, 56, 34, 52, 369, 98, 108, 141, 789, 1137, 58, 115, 116, 144, 128, 129, 145, 45, 371, 372, 373, 112, 7, 16, 43, 122, 36, 123]"
  shows "plain_header e"
proof -
  have "no_data (e_tables e) (out_decls c which)" for c which
    using assms by (cases which) (simp_all add: no_data_def out_decls_def out_head_def out_slots_def)
  then show ?thesis by (simp add: plain_header_def)
qed

definition decl_len :: "slots \<Rightarrow> decl \<Rightarrow> nat" where
  "decl_len sl d = length (wire_body (decl_fields sl d))"

lemma body_len: "length (wire_body (template_fields D sl ds)) = sum_list (map (decl_len sl) ds)"
proof -
  have "length (wire_body (concat (map (decl_fields sl) es))) = sum_list (map (decl_len sl) es)" for es
    by (induction es) (simp_all add: decl_len_def)
  then show ?thesis by (simp add: template_fields_def sum_list_sort_key)
qed

definition slots_fit :: "config \<Rightarrow> which \<Rightarrow> slots \<Rightarrow> bool" where
  "slots_fit c which sl \<longleftrightarrow> length sl \<le> 18 \<and>
     length (nm_bytes (cf_begin_string c)) + 18 + sum_list (map (decl_len sl) (out_decls c which)) \<le> 512"

lemma out_ok_decls:
  assumes "out_ok e c (Some ob)"
  shows "build (e_tables e) (fold tb_declare (out_decls c which) (TemplateBuilder_new 24 320 (nm_bytes (cf_begin_string c)))) = Inr (ob_template ob which)"
  using assms by (auto simp: out_ok_def out_template_def out_decls_def nm_get_def split: if_splits)

text \<open>A send that fits goes out, whole and as built.\<close>

lemma send_as_frame:
  assumes "ses_ok e s" "s_out s \<noteq> None" "cfg_ok (s_cfg s)" "plain_header e" "slots_fit (s_cfg s) which (send_slots at extra s)"
  shows "send_as e which at extra s = (Inr (), sent_session at (session_frame e (s_cfg s) which (send_slots at extra s)) s)"
proof -
  let ?bs = "nm_bytes (cf_begin_string (s_cfg s))" and ?slots = "send_slots at extra s" and ?ds = "out_decls (s_cfg s) which"
  obtain ob where ob: "s_out s = Some ob" using assms(2) by blast
  have t: "build (e_tables e) (fold tb_declare ?ds (TemplateBuilder_new 24 320 ?bs)) = Inr (ob_template ob which)"
    using assms(1) ob by (intro out_ok_decls) (simp add: ses_ok_def)
  have len: "length ?bs + 18 + length (wire_body (template_fields (e_tables e) ?slots ?ds)) \<le> length (replicate 512 (0 :: byte))"
    using assms(5) by (simp add: slots_fit_def body_len)
  have bs: "length ?bs \<le> 32" using assms(3) by (simp add: cfg_ok_def)
  have "length (wire_body (template_fields (e_tables e) ?slots ?ds)) < 100000" using len by simp
  from built_template_frame [OF _ t _ bs this len] assms(4)
  obtain r where "encode_with (e_tables e) (ob_template ob which) (replicate 512 0) ?slots [] = Inr r"
      "message_of r = session_frame e (s_cfg s) which ?slots"
    by (auto simp: plain_header_def session_frame_def)
  then show ?thesis using ob assms(5) by (simp add: send_as_eq slots_fit_def)
qed

subsection \<open>Lengths\<close>

lemma wire_field_len: "length (wire_field f) = length (dec_digits (fst f)) + length (snd f) + 2"
  by (simp add: wire_field_def)

lemma tag_len: "t < 10000 \<Longrightarrow> length (dec_digits t) \<le> 4"
  by (rule length_dec_digits_le) simp_all

lemma digits_len: "n \<le> U32_MAX \<Longrightarrow> length (lib_digits n) \<le> 10"
  using u32_digits [of n] by (simp add: lib_digits_eq)

lemma stamp_len: "ses_ok e s \<Longrightarrow> length (fst (stamp_now s)) \<le> 27"
proof -
  have "precision_bytes p \<le> 27" for p by (cases p) (simp_all add: precision_bytes_def fractional_digits_def)
  then show "ses_ok e s \<Longrightarrow> ?thesis" by (simp add: stamp_now_text min.coboundedI2)
qed

text \<open>A slot takes at most its value and six bytes; an unfilled one takes none.\<close>

lemma decl_len_slot:
  assumes "t < 10000" "\<And>v. find_field t sl = Some v \<Longrightarrow> length v \<le> n"
  shows "decl_len sl (Slot t) \<le> n + 6"
  using assms tag_len [of t] by (cases "find_field t sl") (auto simp: decl_len_def wire_field_len)

lemma decl_len_field: "t < 10000 \<Longrightarrow> decl_len sl (Field t v) \<le> length v + 6"
  using tag_len [of t] by (simp add: decl_len_def wire_field_len)

lemma sum_list_bound: "\<forall>x \<in> set xs. f x \<le> k \<Longrightarrow> sum_list (map f xs) \<le> length xs * k" for f :: "'x \<Rightarrow> nat"
  by (induction xs) auto

text \<open>Enough: forty bytes a slot, which holds for every message the session composes from numbers,
  stamps and flags.\<close>

lemma slots_fit_short:
  assumes "cfg_ok c" "length sl \<le> 18" "list_all (\<lambda>(t, v). length v \<le> 30) sl" "which \<noteq> WReject"
  shows "slots_fit c which sl"
proof -
  have v: "length v \<le> 30" if "find_field t sl = Some v" for t v
    using find_field_SomeD [OF that] assms(3) by (auto simp: list_all_iff)
  have s: "decl_len sl (Slot t) \<le> 36" if "t < 10000" for t
    using decl_len_slot [OF that, of sl 30] v by auto
  have "\<forall>t \<in> set (out_slots which). t < 10000" by (cases which) (simp_all add: out_slots_def)
  then have a: "sum_list (map (decl_len sl) (map Slot (out_slots which))) \<le> length (out_slots which) * 36"
    using sum_list_bound [of "out_slots which" "\<lambda>t. decl_len sl (Slot t)" 36] s by (simp add: o_def)
  have l: "length (out_slots which) \<le> 8" using assms(4) by (cases which) (simp_all add: out_slots_def)
  have h: "sum_list (map (decl_len sl) (out_head (out_msg_type which) sd tg)) \<le> 19 + length sd + length tg" for sd tg
    using decl_len_field [of 35 sl "out_msg_type which"] decl_len_field [of 49 sl sd] decl_len_field [of 56 sl tg]
    by (cases which) (simp_all add: out_head_def out_msg_type_def b_def)
  have "sum_list (map (decl_len sl) (out_decls c which)) =
      sum_list (map (decl_len sl) (out_head (out_msg_type which) (nm_bytes (cf_sender_comp_id c)) (nm_bytes (cf_target_comp_id c)))) +
      sum_list (map (decl_len sl) (map Slot (out_slots which)))"
    by (simp add: out_decls_def)
  also have "\<dots> \<le> 371"
    using a l h [of "nm_bytes (cf_sender_comp_id c)" "nm_bytes (cf_target_comp_id c)"] assms(1) unfolding cfg_ok_def by linarith
  finally have "sum_list (map (decl_len sl) (out_decls c which)) \<le> 371" .
  then show ?thesis using assms(1,2) by (simp add: slots_fit_def cfg_ok_def)
qed

subsection \<open>Templates of a configuration\<close>

lemma out_template_ok:
  assumes "no_data D (out_head (out_msg_type w) sender target @ map Slot (out_slots w))"
    and "length bs \<le> 16" "length sender \<le> 32" "length target \<le> 32"
  shows "\<exists>t. out_template D bs sender target w = Inr t"
proof -
  let ?ds = "out_head (out_msg_type w) sender target @ map Slot (out_slots w)"
  have "length ?ds \<le> 24" by (cases w) (simp_all add: out_head_def out_slots_def)
  moreover have "decls_fit (320 - length bs) ?ds"
    using assms(2-4) tag_len [of 35] tag_len [of 49] tag_len [of 56]
    by (cases w) (simp_all add: decls_fit_def out_head_def out_slots_def out_msg_type_def wire_field_len b_def)
  moreover have "\<forall>c. Group c \<notin> set ?ds" by (auto simp: out_head_def)
  ultimately show ?thesis unfolding out_template_def using assms(1,2) by (intro build_ok) simp_all
qed

lemma Outbound_new_ok:
  assumes "\<And>w. \<exists>t. out_template D bs sender target w = Inr t"
  shows "Outbound_new D bs sender target \<noteq> None"
proof -
  obtain T where "\<And>w. out_template D bs sender target w = Inr (T w)" using assms by metis
  then show ?thesis by (simp add: Outbound_new_def Let_def)
qed

text \<open>A configuration whose names fit can send.\<close>

lemma Session_new_out:
  assumes "plain_header e"
  shows "s_out (Session_new e (Config_acceptor bs sender target)) \<noteq> None \<longleftrightarrow>
    length bs \<le> 16 \<and> length sender \<le> 32 \<and> length target \<le> 32"
proof -
  have "Outbound_new (e_tables e) bs sender target \<noteq> None" if "length bs \<le> 16" "length sender \<le> 32" "length target \<le> 32"
  proof (rule Outbound_new_ok, rule out_template_ok [OF _ that])
    fix w
    show "no_data (e_tables e) (out_head (out_msg_type w) sender target @ map Slot (out_slots w))"
      using assms [unfolded plain_header_def, rule_format, of "Config_acceptor bs sender target" w] that
      by (simp add: out_decls_def Config_acceptor_def Name_new_def)
  qed
  then show ?thesis by (simp add: Session_new_def Let_def Config_acceptor_def nm_get_new split: option.split)
qed

lemma cfg_ok_acceptor: "cfg_ok (Config_acceptor bs sender target)"
  by (simp add: cfg_ok_def Config_acceptor_def Name_new_def)

lemma plain_silent_app: "plain_header silent_app"
  by (rule plain_headerI) (simp add: silent_app_def parties_tables_def)

lemma fresh_out: "s_out (w_ses fresh) \<noteq> None"
  using Session_new_out [OF plain_silent_app, of "b ''FIX.4.4''" "b ''SRV''" "b ''CLI''"] by (simp add: fresh_def acceptor_def b_def)

subsection \<open>Properties\<close>

text \<open>C7: A message of the session goes out under the session's next number and the current time. From
  any reachable state of a session with templates, sending a message whose fields fit emits exactly
  one frame: the configured begin string, the message type and both identities, \<open>34\<close> the outbound
  count, \<open>52\<close> the current time at the coarser of the configured precision and that of the clock,
  \<open>369\<close> when configured, and the given fields, in wire order with true length and checksum; the
  count moves on by one and the time of the last send is now.\<close>

theorem send_numbers_message:
  assumes "reachable e cfg w" "cfg_ok cfg" "plain_header e" "s_out (w_ses w) \<noteq> None"
    and "s = w_ses w" "stamp = take (precision_bytes (stamp_precision s))
      (stamp_text (cf_timestamp_precision cfg) (s_now_ms s - MILLIS_YEAR_ZERO_TO_EPOCH) (s_now_sub_ms_nanos s))"
    and "flds = [(34, dec_digits (s_next_out s)), (52, stamp)] @
      (if cf_last_processed cfg then [(369, dec_digits (s_last_in s))] else []) @ extra"
    and "slots_fit cfg which flds"
  shows "\<exists>s'. send e which extra s = (Inr (), s') \<and>
     s_wire s' = s_wire s @ [wire_frame (nm_bytes (cf_begin_string cfg)) (wire_body (template_fields (e_tables e) flds (out_decls cfg which)))] \<and>
     s_next_out s' = (s_next_out s + 1) mod 2 ^ 32 \<and> s_last_sent_ms s' = s_now_ms s"
proof -
  have ok: "s_cfg s = cfg" "ses_ok e s" using reachable_ok [OF assms(1)] assms(5) by simp_all
  have f: "send_slots None extra s = flds"
    using stamp_now_text [OF ok(2)] assms(6,7) ok(1) by (simp add: send_slots_def lib_digits_eq)
  show ?thesis
    using send_as_frame [OF ok(2), of which None extra] assms(2-5,8) ok(1) f
    by (simp add: send_def sent_session_def session_frame_def wrap32_def)
qed

theorem send_numbers_message_witness:
  "\<exists>s'. send silent_app WHeartbeat [] (w_ses fresh) = (Inr (), s') \<and> length (s_wire s') = 1 \<and> s_next_out s' = 2"
proof -
  have r: "reachable silent_app acceptor fresh" unfolding fresh_def by (rule reachable.started)
  have c: "cfg_ok acceptor" by (simp add: acceptor_def cfg_ok_acceptor)
  define stamp where "stamp = take (precision_bytes (stamp_precision (w_ses fresh)))
      (stamp_text (cf_timestamp_precision acceptor) (s_now_ms (w_ses fresh) - MILLIS_YEAR_ZERO_TO_EPOCH) (s_now_sub_ms_nanos (w_ses fresh)))"
  define flds :: slots where "flds = [(34, dec_digits (s_next_out (w_ses fresh))), (52, stamp)] @
      (if cf_last_processed acceptor then [(369, dec_digits (s_last_in (w_ses fresh)))] else []) @ []"
  have ok: "ses_ok silent_app (w_ses fresh)" using reachable_ok [OF r] by simp
  have s: "length stamp \<le> 27" using stamp_len [OF ok] stamp_now_text [OF ok] reachable_ok [OF r] by (simp add: stamp_def)
  have v: "s_next_out (w_ses fresh) = 1" "s_wire (w_ses fresh) = []" "\<not> cf_last_processed acceptor"
    by (simp_all add: fresh_def Session_new_def Let_def acceptor_def Config_acceptor_def)
  have "slots_fit acceptor WHeartbeat flds"
    by (rule slots_fit_short [OF c]) (use s v in \<open>simp_all add: flds_def dec_digits.simps\<close>)
  from send_numbers_message [OF r c plain_silent_app fresh_out refl stamp_def flds_def this] show ?thesis
    by (auto simp: v)
qed

end
