(* ===== verification/Replay_Plan.thy ===== *)
theory Replay_Plan
  imports Session_Send
begin

text \<open>
  Replay against its specification. The plan of a resend request says, number by number, what goes
  out: a kept message again, or one gap fill over a run of numbers. \<open>continue_replay\<close> of
  \<open>crates/session/src/lib.rs\<close> is shown to emit exactly the next items of the plan at every call,
  so that repeated calls finish it.
\<close>

subsection \<open>The plan\<close>

datatype item = Again nat | Fill nat nat

text \<open>Where a fill ends: in front of the first number at or above the floor that is kept, or one past
  the end of the request.\<close>

definition next_stop :: "(nat \<Rightarrow> bool) \<Rightarrow> nat \<Rightarrow> nat \<Rightarrow> nat \<Rightarrow> nat" where
  "next_stop p floor n hi = (case List.find (\<lambda>m. floor \<le> m \<and> p m) [Suc n..<Suc hi] of Some m \<Rightarrow> m | None \<Rightarrow> Suc hi)"

lemma next_stop_props:
  assumes "n \<le> hi"
  shows "n < next_stop p floor n hi" "next_stop p floor n hi \<le> Suc hi"
    "\<And>k. n < k \<Longrightarrow> k < next_stop p floor n hi \<Longrightarrow> floor \<le> k \<Longrightarrow> \<not> p k"
    "next_stop p floor n hi \<le> hi \<Longrightarrow> floor \<le> next_stop p floor n hi \<and> p (next_stop p floor n hi)"
proof -
  have *: "n < next_stop p floor n hi \<and> next_stop p floor n hi \<le> Suc hi \<and>
    (\<forall>k. n < k \<and> k < next_stop p floor n hi \<and> floor \<le> k \<longrightarrow> \<not> p k) \<and>
    (next_stop p floor n hi \<le> hi \<longrightarrow> floor \<le> next_stop p floor n hi \<and> p (next_stop p floor n hi))"
  proof (cases "List.find (\<lambda>m. floor \<le> m \<and> p m) [Suc n..<Suc hi]")
    case None
    then have "next_stop p floor n hi = Suc hi" by (simp add: next_stop_def del: upt_Suc)
    with None show ?thesis using assms by (auto simp: find_None_iff)
  next
    case (Some m)
    then obtain i where i: "i < length [Suc n..<Suc hi]" "floor \<le> [Suc n..<Suc hi] ! i \<and> p ([Suc n..<Suc hi] ! i)" "m = [Suc n..<Suc hi] ! i"
        "\<forall>j<i. \<not> (floor \<le> [Suc n..<Suc hi] ! j \<and> p ([Suc n..<Suc hi] ! j))"
      unfolding find_Some_iff by blast
    have m: "m = Suc n + i" "m \<le> hi" using i(1,3) by (simp_all add: nth_upt del: upt_Suc)
    have "\<not> p k" if "n < k" "k < m" "floor \<le> k" for k
    proof -
      have "k - Suc n < i" using that m(1) by arith
      moreover from this have "[Suc n..<Suc hi] ! (k - Suc n) = k" using that i(1) by (simp add: nth_upt del: upt_Suc)
      ultimately show ?thesis using i(4) that(3) by metis
    qed
    then show ?thesis using Some i(2,3) m by (simp add: next_stop_def del: upt_Suc)
  qed
  then show "n < next_stop p floor n hi" "next_stop p floor n hi \<le> Suc hi"
    "\<And>k. n < k \<Longrightarrow> k < next_stop p floor n hi \<Longrightarrow> floor \<le> k \<Longrightarrow> \<not> p k"
    "next_stop p floor n hi \<le> hi \<Longrightarrow> floor \<le> next_stop p floor n hi \<and> p (next_stop p floor n hi)"
    by blast+
qed

function replay_plan :: "(nat \<Rightarrow> bool) \<Rightarrow> nat \<Rightarrow> nat \<Rightarrow> nat \<Rightarrow> item list" where
  "replay_plan p floor n hi =
     (if n > hi then []
      else if p n then Again n # replay_plan p floor (Suc n) hi
      else Fill n (next_stop p floor n hi) # replay_plan p floor (next_stop p floor n hi) hi)"
  by auto
termination
  by (relation "measure (\<lambda>(p, floor, n, hi). Suc hi - n)") (auto simp: next_stop_props(1) diff_less_mono2)

declare replay_plan.simps [simp del]

fun item_range :: "item \<Rightarrow> nat list" where
  "item_range (Again n) = [n]"
| "item_range (Fill a z) = [a..<z]"

lemma replay_plan_tiles: "concat (map item_range (replay_plan p floor n hi)) = [n..<Suc hi]"
proof (induction p floor n hi rule: replay_plan.induct)
  case (1 p floor n hi)
  consider (past) "n > hi" | (again) "n \<le> hi" "p n" | (fill) "n \<le> hi" "\<not> p n" by fastforce
  then show ?case
  proof cases
    case past
    then show ?thesis by (simp add: replay_plan.simps)
  next
    case again
    then show ?thesis using 1(1) by (simp add: replay_plan.simps [of p floor n] upt_rec [of n] del: upt_Suc)
  next
    case fill
    note s = next_stop_props(1,2) [OF fill(1), of p floor]
    have "[n..<next_stop p floor n hi] @ [next_stop p floor n hi..<Suc hi] = [n..<Suc hi]"
      using s upt_add_eq_append [of n "next_stop p floor n hi" "Suc hi - next_stop p floor n hi"] by simp
    then show ?thesis using 1(2) fill by (simp add: replay_plan.simps [of p floor n] del: upt_Suc)
  qed
qed

lemma replay_plan_items:
  "it \<in> set (replay_plan p floor n hi) \<Longrightarrow>
     (case it of Again k \<Rightarrow> p k \<and> n \<le> k \<and> k \<le> hi
      | Fill a z \<Rightarrow> a < z \<and> z \<le> Suc hi \<and> (\<forall>k. a \<le> k \<and> k < z \<and> floor \<le> k \<longrightarrow> \<not> p k))"
proof (induction p floor n hi rule: replay_plan.induct)
  case (1 p floor n hi)
  consider (past) "n > hi" | (again) "n \<le> hi" "p n" | (fill) "n \<le> hi" "\<not> p n" by fastforce
  then show ?case
  proof cases
    case past
    then show ?thesis using 1(3) by (simp add: replay_plan.simps)
  next
    case again
    then consider "it = Again n" | "it \<in> set (replay_plan p floor (Suc n) hi)"
      using 1(3) by (auto simp: replay_plan.simps [of p floor n])
    then show ?thesis using again 1(1) by cases (auto split: item.splits)
  next
    case fill
    note s = next_stop_props [OF fill(1), where p = p and floor = floor]
    consider "it = Fill n (next_stop p floor n hi)" | "it \<in> set (replay_plan p floor (next_stop p floor n hi) hi)"
      using 1(3) fill by (auto simp: replay_plan.simps [of p floor n])
    then show ?thesis
    proof cases
      case a: 1
      have "\<not> p k" if "n \<le> k" "k < next_stop p floor n hi" "floor \<le> k" for k
        using s(3) [of k] that fill(2) by (cases "k = n") auto
      then show ?thesis using a s(1,2) by simp
    next
      case 2
      then show ?thesis using fill 1(2) s(1) by (auto split: item.splits)
    qed
  qed
qed

text \<open>Every number of the request that is kept at or above the floor is sent again.\<close>

lemma replay_plan_kept:
  assumes "p k" "floor \<le> k" "n \<le> k" "k \<le> hi"
  shows "Again k \<in> set (replay_plan p floor n hi)"
proof -
  have "k \<in> set (concat (map item_range (replay_plan p floor n hi)))" using assms(3,4) by (simp add: replay_plan_tiles del: upt_Suc set_concat)
  then obtain it where it: "it \<in> set (replay_plan p floor n hi)" "k \<in> set (item_range it)" by auto
  show ?thesis
  proof (cases it)
    case (Fill a z)
    then show ?thesis using replay_plan_items [OF it(1)] it(2) assms(1,2) by auto
  qed (use it in simp)
qed

lemma replay_plan_length: "length (replay_plan p floor n hi) \<le> Suc hi - n"
proof (induction p floor n hi rule: replay_plan.induct)
  case (1 p floor n hi)
  then show ?case using next_stop_props(1) [of n hi p floor] by (auto simp: replay_plan.simps [of p floor n])
qed

subsection \<open>The search of the code is the stop of the plan\<close>

lemma skip_unkept_eq:
  "skip_unkept p n hi = (if n > hi then n else case List.find p [n..<Suc hi] of Some m \<Rightarrow> m | None \<Rightarrow> Suc hi)"
proof (induction p n hi rule: skip_unkept.induct)
  case (1 p n hi)
  consider "n > hi" | "n \<le> hi" "p n" | "n \<le> hi" "\<not> p n" by fastforce
  then show ?case
  proof cases
    case 3
    then have "skip_unkept p n hi = skip_unkept p (n + 1) hi" by (simp add: skip_unkept.simps [of _ n])
    also have "\<dots> = (if n + 1 > hi then n + 1 else case List.find p [n + 1..<Suc hi] of Some m \<Rightarrow> m | None \<Rightarrow> Suc hi)"
      using 1 3 by simp
    finally show ?thesis using 3 by (auto simp: upt_rec [of n] simp del: upt_Suc split: option.split)
  qed (simp_all add: skip_unkept.simps [of _ n] upt_rec [of n] del: upt_Suc)
qed

definition journal_floor :: "('a, 'j) env \<Rightarrow> 'j \<Rightarrow> nat" where
  "journal_floor e j = (case j_oldest (e_journal e) j of Some f \<Rightarrow> f | None \<Rightarrow> U32_MAX)"

lemma find_append: "List.find p (xs @ ys) = (case List.find p xs of Some m \<Rightarrow> Some m | None \<Rightarrow> List.find p ys)"
  by (induction xs) auto

lemma find_cong_set: "(\<And>x. x \<in> set xs \<Longrightarrow> p x = q x) \<Longrightarrow> List.find p xs = List.find q xs"
  by (induction xs) auto

lemma fill_to_eq:
  assumes "n \<le> hi" "hi < U32_MAX"
  shows "fill_to e j n hi = next_stop (kept e j) (journal_floor e j) n hi"
proof -
  let ?p = "kept e j" and ?f = "journal_floor e j"
  define st where "st = (if n < ?f then min ?f (Suc hi) else Suc n)"
  have sat: "saturating_add32 hi 1 = Suc hi" "saturating_add32 n 1 = Suc n" using assms by (simp_all add: saturating_add32_def)
  have F: "fill_to e j n hi = skip_unkept ?p st hi"
    unfolding fill_to_def Let_def journal_floor_def [symmetric] sat st_def ..
  have st: "n < st" "st \<le> Suc hi" using assms by (auto simp: st_def)
  have split: "[Suc n..<Suc hi] = [Suc n..<st] @ [st..<Suc hi]"
    using st upt_add_eq_append [of "Suc n" st "Suc hi - st"] by simp
  have low: "List.find (\<lambda>m. ?f \<le> m \<and> ?p m) [Suc n..<st] = None"
    by (auto simp: find_None_iff st_def split: if_splits)
  have high: "List.find (\<lambda>m. ?f \<le> m \<and> ?p m) [st..<Suc hi] = List.find ?p [st..<Suc hi]"
    by (rule find_cong_set) (auto simp: st_def split: if_splits)
  show ?thesis
    unfolding F skip_unkept_eq next_stop_def split find_append low high option.case using st by auto
qed

subsection \<open>The messages of an item\<close>

definition fill_fields :: "session \<Rightarrow> nat \<Rightarrow> nat \<Rightarrow> slots" where
  "fill_fields s a z = [(34, dec_digits a), (52, fst (stamp_now s))] @
     (if cf_last_processed (s_cfg s) then [(369, dec_digits (s_last_in s))] else []) @
     [(43, b ''Y''), (122, fst (stamp_now s)), (36, dec_digits z), (123, b ''Y'')]"

fun item_text :: "('a, 'j) env \<Rightarrow> 'j \<Rightarrow> session \<Rightarrow> item \<Rightarrow> bytes" where
  "item_text e j s (Again n) =
     (case j_get (e_journal e) j n of
        None \<Rightarrow> []
      | Some m \<Rightarrow> (case as_resend (e_tables e) m (fst (stamp_now s)) (replicate (e_app_scratch e) 0) of
                     None \<Rightarrow> [] | Some r \<Rightarrow> message_of r))"
| "item_text e j s (Fill a z) = session_frame e (s_cfg s) WGapFill (fill_fields s a z)"

text \<open>What a session needs to replay: templates of its own, and kept messages that can be rewritten.\<close>

definition sendable :: "('a, 'j) env \<Rightarrow> session \<Rightarrow> bool" where
  "sendable e s \<longleftrightarrow> ses_ok e s \<and> s_out s \<noteq> None \<and> cfg_ok (s_cfg s) \<and> plain_header e"

definition resendable :: "('a, 'j) env \<Rightarrow> 'j \<Rightarrow> session \<Rightarrow> bool" where
  "resendable e j s \<longleftrightarrow> (\<forall>n m. j_get (e_journal e) j n = Some m \<longrightarrow>
     as_resend (e_tables e) m (fst (stamp_now s)) (replicate (e_app_scratch e) 0) \<noteq> None)"

definition same_clock :: "session \<Rightarrow> session \<Rightarrow> bool" where
  "same_clock s t \<longleftrightarrow> s_cfg t = s_cfg s \<and> s_out t = s_out s \<and> s_now_ms t = s_now_ms s \<and>
     s_now_sub_ms_nanos t = s_now_sub_ms_nanos s \<and> s_now_resolution t = s_now_resolution s \<and>
     s_last_in t = s_last_in s \<and> s_next_out t = s_next_out s"

lemma same_clock_refl [simp]: "same_clock s s"
  by (simp add: same_clock_def)

lemma same_clock_trans: "same_clock s t \<Longrightarrow> same_clock t u \<Longrightarrow> same_clock s u"
  by (simp add: same_clock_def)

lemma same_clock_stamp: "same_clock s t \<Longrightarrow> ses_ok e s \<Longrightarrow> ses_ok e t \<Longrightarrow> fst (stamp_now t) = fst (stamp_now s)"
  by (simp add: stamp_now_text same_clock_def stamp_precision_def)

lemma item_text_clock:
  assumes "same_clock s t" "ses_ok e s" "ses_ok e t"
  shows "item_text e j t = item_text e j s"
proof
  fix it
  show "item_text e j t it = item_text e j s it"
    using same_clock_stamp [OF assms] assms(1) by (cases it) (simp_all add: fill_fields_def same_clock_def split: option.split)
qed

lemma resendable_clock: "same_clock s t \<Longrightarrow> ses_ok e s \<Longrightarrow> ses_ok e t \<Longrightarrow> resendable e j s \<Longrightarrow> resendable e j t"
  by (simp add: resendable_def same_clock_stamp)

text \<open>Each step emits the text of its item and keeps the clock.\<close>

definition emits :: "('a, 'j) env \<Rightarrow> session \<Rightarrow> bytes list \<Rightarrow> session \<Rightarrow> bool" where
  "emits e s ms t \<longleftrightarrow> ses_ok e t \<and> same_clock s t \<and> s_wire t = s_wire s @ ms"

lemma emits_trans: "emits e s ms t \<Longrightarrow> emits e t ms' u \<Longrightarrow> emits e s (ms @ ms') u"
  by (auto simp: emits_def intro: same_clock_trans)

lemma stamp_emits:
  assumes "ses_ok e s"
  shows "emits e s [] (snd (stamp_now s))"
  using stamp_now_ok [of e s] assms by (simp add: emits_def ok_step_def same_clock_def stamp_now_snd)

lemma replay_one_kept:
  assumes "sendable e s" "resendable e j s" "kept e j n"
  shows "\<exists>t. replay_one e n j s = (Inr True, t) \<and> emits e s [item_text e j s (Again n)] t"
proof -
  obtain m where m: "j_get (e_journal e) j n = Some m" using assms(3) by (auto simp: kept_def)
  obtain r where r: "as_resend (e_tables e) m (fst (stamp_now s)) (replicate (e_app_scratch e) 0) = Some r"
    using assms(2) m unfolding resendable_def by blast
  let ?t = "(emit_msg (message_of r) (snd (stamp_now s)))\<lparr>s_last_sent_ms := s_now_ms s\<rparr>"
  have "replay_one e n j s = (Inr True, ?t)"
    using assms(1) m r by (auto simp: replay_one_def split_beta Let_def sendable_def)
  moreover have "emits e s [message_of r] ?t"
    using stamp_emits [of e s] assms(1) by (simp add: sendable_def emits_def same_clock_def emit_msg_def ses_ok_def)
  ultimately show ?thesis using m r by simp
qed

lemma replay_one_gap:
  assumes "ses_ok e s" "\<not> kept e j n"
  shows "replay_one e n j s = (Inr False, snd (stamp_now s))"
  using assms by (simp add: replay_one_def kept_def split_beta Let_def)

lemma fill_emits:
  assumes "sendable e s" "a \<le> U32_MAX" "z \<le> U32_MAX"
  shows "\<exists>t. fill e a z s = (Inr (), t) \<and> emits e s [item_text e j s (Fill a z)] t"
proof -
  let ?u = "snd (stamp_now s)" and ?T = "fst (stamp_now s)"
  let ?x = "[(43, b ''Y''), (122, ?T), (36, lib_digits z), (123, b ''Y'')]"
  have ok: "ses_ok e s" "cfg_ok (s_cfg s)" using assms(1) by (simp_all add: sendable_def)
  note u = stamp_emits [OF ok(1), unfolded emits_def]
  have T: "fst (stamp_now ?u) = ?T" using u ok same_clock_stamp [of s ?u e] by blast
  have sl: "send_slots (Some a) ?x ?u = fill_fields s a z" by (simp add: send_slots_def fill_fields_def T lib_digits_eq)
  have "s_last_in s \<le> U32_MAX" using ok(1) by (simp add: ses_ok_def)
  then have fit: "slots_fit (s_cfg s) WGapFill (fill_fields s a z)"
    using stamp_len [OF ok(1)] digits_len [OF assms(2)] digits_len [OF assms(3)] digits_len [of "s_last_in s"]
    by (intro slots_fit_short [OF ok(2)]) (simp_all add: fill_fields_def lib_digits_eq b_def)
  have "send_as e WGapFill (Some a) ?x ?u = (Inr (), sent_session (Some a) (session_frame e (s_cfg s) WGapFill (fill_fields s a z)) ?u)"
    using send_as_frame [of e ?u WGapFill "Some a" ?x] u ok assms(1) fit unfolding sl by (simp add: sendable_def)
  moreover have "ok_step e ?u (snd (send_as e WGapFill (Some a) ?x ?u))" by (rule send_as_ok)
  ultimately show ?thesis using u
    by (auto simp: fill_def split_beta Let_def emits_def ok_step_def same_clock_def sent_session_def stamp_now_snd)
qed

lemma sendable_emits: "sendable e s \<Longrightarrow> emits e s ms t \<Longrightarrow> sendable e t"
  by (simp add: sendable_def emits_def same_clock_def)

lemma beyond_emits: "ses_ok e s \<Longrightarrow> emits e s [] (s\<lparr>s_resend_beyond_journal := wrap32 n\<rparr>)"
  by (simp add: emits_def same_clock_def ses_ok_def)


subsection \<open>The loop\<close>

abbreviation plan_of :: "('a, 'j) env \<Rightarrow> 'j \<Rightarrow> replay \<Rightarrow> item list" where
  "plan_of e j r \<equiv> replay_plan (kept e j) (journal_floor e j) (rp_next r) (rp_end r)"

lemma plan_empty: "replay_plan p floor n hi = [] \<longleftrightarrow> n > hi"
  by (simp add: replay_plan.simps)

lemma replay_loop_plan:
  assumes "sendable e s" "resendable e j s" "rp_end r < U32_MAX"
  shows "\<exists>r' t. replay_loop budget e j r s = (Inr r', t) \<and> emits e s (map (item_text e j s) (take budget (plan_of e j r))) t \<and>
    rp_end r' = rp_end r \<and> plan_of e j r' = drop budget (plan_of e j r)"
  using assms
proof (induction budget arbitrary: r s)
  case 0
  then show ?case by (simp add: emits_def sendable_def)
next
  case (Suc budget)
  let ?p = "kept e j" and ?f = "journal_floor e j"
  have ok: "ses_ok e s" using Suc.prems(1) by (simp add: sendable_def)
  have go: "\<exists>r' v. replay_loop budget e j (r\<lparr>rp_next := n\<rparr>) u = (Inr r', v) \<and>
      emits e s (item_text e j s it # map (item_text e j s) (take budget (plan_of e j (r\<lparr>rp_next := n\<rparr>)))) v \<and>
      rp_end r' = rp_end r \<and> plan_of e j r' = drop budget (plan_of e j (r\<lparr>rp_next := n\<rparr>))"
    if u: "emits e s [item_text e j s it] u" for it n u
  proof -
    have c: "same_clock s u" "ses_ok e u" using u by (simp_all add: emits_def)
    have "sendable e u" "resendable e j u"
      using sendable_emits [OF Suc.prems(1) u] resendable_clock [OF c(1) ok c(2) Suc.prems(2)] by simp_all
    from Suc.IH [OF this, of "r\<lparr>rp_next := n\<rparr>"] Suc.prems(3) obtain r' v where
      "replay_loop budget e j (r\<lparr>rp_next := n\<rparr>) u = (Inr r', v)"
      "emits e u (map (item_text e j u) (take budget (plan_of e j (r\<lparr>rp_next := n\<rparr>)))) v"
      "rp_end r' = rp_end r" "plan_of e j r' = drop budget (plan_of e j (r\<lparr>rp_next := n\<rparr>))" by auto
    then show ?thesis using emits_trans [OF u] item_text_clock [OF c(1) ok c(2), of j] by auto
  qed
  consider (past) "rp_next r > rp_end r" | (again) "rp_next r \<le> rp_end r" "?p (rp_next r)"
    | (gap) "rp_next r \<le> rp_end r" "\<not> ?p (rp_next r)" by fastforce
  then show ?case
  proof cases
    case past
    then show ?thesis using ok by (simp add: plan_empty [THEN iffD2] emits_def)
  next
    case again
    obtain t where t: "replay_one e (rp_next r) j s = (Inr True, t)" "emits e s [item_text e j s (Again (rp_next r))] t"
      using replay_one_kept [OF Suc.prems(1,2) again(2)] by blast
    have w: "wrap32 (rp_next r + 1) = Suc (rp_next r)" using again(1) Suc.prems(3) by (simp add: wrap32_def)
    have P: "plan_of e j r = Again (rp_next r) # plan_of e j (r\<lparr>rp_next := Suc (rp_next r)\<rparr>)"
      using again by (simp add: replay_plan.simps [of _ _ "rp_next r"])
    show ?thesis using go [OF t(2), of "Suc (rp_next r)"] again(1) t(1) w unfolding P by simp
  next
    case gap
    let ?z = "next_stop ?p ?f (rp_next r) (rp_end r)"
    have z: "fill_to e j (rp_next r) (rp_end r) = ?z" using gap(1) Suc.prems(3) by (rule fill_to_eq)
    let ?u = "snd (stamp_now s)"
    let ?v = "case j_oldest (e_journal e) j of
         Some floor \<Rightarrow> ?u\<lparr>s_resend_beyond_journal := wrap32 (s_resend_beyond_journal ?u + (min ?z floor - rp_next r))\<rparr> | None \<Rightarrow> ?u"
    have v: "emits e s [] ?v"
      using stamp_emits [OF ok] emits_trans [OF stamp_emits [OF ok] beyond_emits] by (auto simp: emits_def split: option.split)
    have c: "same_clock s ?v" "ses_ok e ?v" using v by (simp_all add: emits_def)
    have b: "rp_next r \<le> U32_MAX" "?z \<le> U32_MAX"
      using next_stop_props(2) [OF gap(1), of ?p ?f] gap(1) Suc.prems(3) by simp_all
    obtain t where t: "fill e (rp_next r) ?z ?v = (Inr (), t)" "emits e ?v [item_text e j ?v (Fill (rp_next r) ?z)] t"
      using fill_emits [OF sendable_emits [OF Suc.prems(1) v] b, of j] by blast
    have t': "emits e s [item_text e j s (Fill (rp_next r) ?z)] t"
      using emits_trans [OF v t(2)] item_text_clock [OF c(1) ok c(2), of j] by simp
    have P: "plan_of e j r = Fill (rp_next r) ?z # plan_of e j (r\<lparr>rp_next := ?z\<rparr>)"
      using gap by (simp add: replay_plan.simps [of _ _ "rp_next r"])
    have L: "replay_loop (Suc budget) e j r s = replay_loop budget e j (r\<lparr>rp_next := ?z\<rparr>) t"
      unfolding replay_loop.simps replay_one_gap [OF ok gap(2)] Let_def z using gap(1) t(1) by simp
    show ?thesis using go [OF t', of ?z] unfolding P L by simp
  qed
qed


lemma owed_set_ok: "ses_ok e u \<Longrightarrow> owed_ok x \<Longrightarrow> ses_ok e (u\<lparr>s_owed := x\<rparr>)"
  by (simp add: ses_ok_def)

lemma continue_replay_plan:
  assumes "sendable e s" "resendable e j s" "s_owed s = Some r" "rp_end r < U32_MAX" "k = max (cf_resend_batch (s_cfg s)) 1"
  shows "\<exists>t. continue_replay e j s = (Inr (), t) \<and> emits e s (map (item_text e j s) (take k (plan_of e j r))) t \<and>
    (if length (plan_of e j r) \<le> k then s_owed t = None
     else \<exists>r'. s_owed t = Some r' \<and> rp_end r' = rp_end r \<and> plan_of e j r' = drop k (plan_of e j r))"
proof -
  obtain r' u where u: "replay_loop k e j r s = (Inr r', u)" "emits e s (map (item_text e j s) (take k (plan_of e j r))) u"
      "rp_end r' = rp_end r" "plan_of e j r' = drop k (plan_of e j r)"
    using replay_loop_plan [OF assms(1,2,4), of k] by blast
  let ?o = "if rp_next r' \<le> rp_end r' then Some r' else None"
  have n: "rp_next r' \<le> rp_end r' \<longleftrightarrow> \<not> length (plan_of e j r) \<le> k"
    using plan_empty [of "kept e j" "journal_floor e j" "rp_next r'" "rp_end r'"] u(4) by (simp add: linorder_not_less)
  have "emits e u [] (u\<lparr>s_owed := ?o\<rparr>)"
    using owed_set_ok [of e u ?o] u(2,3) assms(4) by (simp add: emits_def same_clock_def owed_ok_def)
  from emits_trans [OF u(2) this] show ?thesis
    using u(1,3,4) n assms(3,5) by (simp add: continue_replay_def)
qed

text \<open>Repeating the call.\<close>

definition replay_calls :: "nat \<Rightarrow> ('a, 'j) env \<Rightarrow> 'j \<Rightarrow> session \<Rightarrow> session" where
  "replay_calls n e j s = ((\<lambda>s. snd (continue_replay e j s)) ^^ n) s"

lemma replay_calls_Suc: "replay_calls (Suc n) e j s = replay_calls n e j (snd (continue_replay e j s))"
  by (simp add: replay_calls_def funpow_Suc_right del: funpow.simps)

lemma replay_calls_idle: "s_owed s = None \<Longrightarrow> replay_calls n e j s = s"
  by (induction n) (simp_all add: replay_calls_def continue_replay_def)

lemma replay_calls_end:
  assumes "sendable e s" "resendable e j s" "s_owed s = Some r" "rp_end r < U32_MAX" "length (plan_of e j r) \<le> n"
  shows "s_owed (replay_calls n e j s) = None \<or> n = 0" "emits e s (map (item_text e j s) (plan_of e j r)) (replay_calls n e j s)"
proof -
  have "(s_owed (replay_calls n e j s) = None \<or> n = 0) \<and> emits e s (map (item_text e j s) (plan_of e j r)) (replay_calls n e j s)"
    using assms
  proof (induction n arbitrary: s r)
    case 0
    then show ?case by (simp add: replay_calls_def emits_def sendable_def)
  next
    case (Suc n)
    define k where "k = max (cf_resend_batch (s_cfg s)) 1"
    obtain t where t: "continue_replay e j s = (Inr (), t)" "emits e s (map (item_text e j s) (take k (plan_of e j r))) t"
        "if length (plan_of e j r) \<le> k then s_owed t = None
         else \<exists>r'. s_owed t = Some r' \<and> rp_end r' = rp_end r \<and> plan_of e j r' = drop k (plan_of e j r)"
      using continue_replay_plan [OF Suc.prems(1-4) k_def] by blast
    have ok: "ses_ok e s" using Suc.prems(1) by (simp add: sendable_def)
    have c: "same_clock s t" "ses_ok e t" using t(2) by (simp_all add: emits_def)
    show ?case
    proof (cases "length (plan_of e j r) \<le> k")
      case True
      then show ?thesis using t by (simp add: replay_calls_Suc replay_calls_idle)
    next
      case False
      then obtain r' where r': "s_owed t = Some r'" "rp_end r' = rp_end r" "plan_of e j r' = drop k (plan_of e j r)" using t(3) by auto
      have k: "k \<ge> 1" by (simp add: k_def)
      have "s_owed (replay_calls n e j t) = None \<or> n = 0" "emits e t (map (item_text e j t) (plan_of e j r')) (replay_calls n e j t)"
        using Suc.IH [OF sendable_emits [OF Suc.prems(1) t(2)] resendable_clock [OF c(1) ok c(2) Suc.prems(2)] r'(1)]
          Suc.prems(4,5) r'(2,3) k by auto
      moreover have "n \<noteq> 0" using False k Suc.prems(5) by auto
      moreover have "map (item_text e j s) (plan_of e j r) =
          map (item_text e j s) (take k (plan_of e j r)) @ map (item_text e j t) (plan_of e j r')"
        unfolding r'(3) item_text_clock [OF c(1) ok c(2), of j] by (simp flip: map_append)
      ultimately show ?thesis using emits_trans [OF t(2)] t(1) by (simp add: replay_calls_Suc)
    qed
  qed
  then show "s_owed (replay_calls n e j s) = None \<or> n = 0" "emits e s (map (item_text e j s) (plan_of e j r)) (replay_calls n e j s)"
    by blast+
qed


subsection \<open>Properties\<close>

text \<open>C3: Every call of \<open>continue_replay\<close> refines the plan by one batch. For a session that keeps its
  invariant and can send, and a journal whose kept messages can be rewritten, the call succeeds,
  emits exactly the next \<open>resend_batch\<close> items of the plan (at least one) and nothing else, spends
  no sequence number, and leaves owed exactly the rest of the plan, or nothing once it is empty.\<close>

theorem replay_follows_plan:
  assumes "ses_ok e s" "s_out s \<noteq> None" "cfg_ok (s_cfg s)" "plain_header e" "resendable e j s"
    and "s_owed s = Some r" "rp_end r < U32_MAX"
    and "plan = replay_plan (kept e j) (journal_floor e j) (rp_next r) (rp_end r)" "k = max (cf_resend_batch (s_cfg s)) 1"
  shows "\<exists>t. continue_replay e j s = (Inr (), t) \<and> s_wire t = s_wire s @ map (item_text e j s) (take k plan) \<and>
    s_next_out t = s_next_out s \<and>
    (if length plan \<le> k then s_owed t = None
     else \<exists>r'. s_owed t = Some r' \<and> replay_plan (kept e j) (journal_floor e j) (rp_next r') (rp_end r') = drop k plan)"
proof -
  have "sendable e s" using assms(1-4) by (simp add: sendable_def)
  from continue_replay_plan [OF this assms(5-7,9)] obtain t where t: "continue_replay e j s = (Inr (), t)"
      "emits e s (map (item_text e j s) (take k plan)) t"
      "if length plan \<le> k then s_owed t = None else \<exists>r'. s_owed t = Some r' \<and> rp_end r' = rp_end r \<and> plan_of e j r' = drop k plan"
    unfolding assms(8) by blast
  have "s_wire t = s_wire s @ map (item_text e j s) (take k plan)" "s_next_out t = s_next_out s"
    using t(2) by (simp_all add: emits_def same_clock_def)
  moreover have "if length plan \<le> k then s_owed t = None else \<exists>r'. s_owed t = Some r' \<and> plan_of e j r' = drop k plan"
    using t(3) by (cases "length plan \<le> k") auto
  ultimately show ?thesis using t(1) by blast
qed

text \<open>C2: A replay that is owed ends, complete, when every kept message can be rewritten. Take a session
  that keeps its invariant and has its templates (no header tag being DATA), owing a request that ends below
  the largest 32-bit number, and a journal in which every message it keeps can be rewritten as a possible
  duplicate within the application's buffer (one whose value holds the separator cannot, and the session is
  then dropped). Calling \<open>continue_replay\<close> more often than there are
  numbers in the request leaves nothing owed, whatever the batch; by then the wire has grown by
  items that cover every number of the request once and in order, and every message the journal
  keeps at or above its floor is among those sent again.\<close>

theorem replay_finishes:
  assumes "ses_ok e s" "s_out s \<noteq> None" "cfg_ok (s_cfg s)" "plain_header e" "resendable e j s"
    and "s_owed s = Some r" "rp_end r < U32_MAX" "Suc (rp_end r) - rp_next r < n"
  shows "s_owed (replay_calls n e j s) = None \<and>
    (\<exists>items. s_wire (replay_calls n e j s) = s_wire s @ map (item_text e j s) items \<and>
       concat (map item_range items) = [rp_next r..<Suc (rp_end r)] \<and>
       {k \<in> {rp_next r..rp_end r}. kept e j k \<and> journal_floor e j \<le> k} \<subseteq> {k. Again k \<in> set items} \<and>
       {k. Again k \<in> set items} \<subseteq> {k. kept e j k})"
proof
  have s: "sendable e s" using assms(1-4) by (simp add: sendable_def)
  have l: "length (plan_of e j r) \<le> n" using replay_plan_length [of "kept e j" "journal_floor e j" "rp_next r" "rp_end r"] assms(8) by linarith
  note c = replay_calls_end [OF s assms(5-7) l]
  show "s_owed (replay_calls n e j s) = None" using c(1) assms(8) by linarith
  define items where "items = plan_of e j r"
  have "s_wire (replay_calls n e j s) = s_wire s @ map (item_text e j s) items"
    using c(2) by (simp add: emits_def items_def)
  moreover have "concat (map item_range items) = [rp_next r..<Suc (rp_end r)]" unfolding items_def by (rule replay_plan_tiles)
  moreover have "{k \<in> {rp_next r..rp_end r}. kept e j k \<and> journal_floor e j \<le> k} \<subseteq> {k. Again k \<in> set items}"
    unfolding items_def by (auto intro: replay_plan_kept)
  moreover have "{k. Again k \<in> set items} \<subseteq> {k. kept e j k}" unfolding items_def by (auto dest: replay_plan_items)
  ultimately show "\<exists>items. s_wire (replay_calls n e j s) = s_wire s @ map (item_text e j s) items \<and>
       concat (map item_range items) = [rp_next r..<Suc (rp_end r)] \<and>
       {k \<in> {rp_next r..rp_end r}. kept e j k \<and> journal_floor e j \<le> k} \<subseteq> {k. Again k \<in> set items} \<and>
       {k. Again k \<in> set items} \<subseteq> {k. kept e j k}"
    by blast
qed

text \<open>A session that owes numbers 1 to 3 and keeps no journal.\<close>

definition owing :: session where
  "owing = (w_ses fresh)\<lparr>s_owed := Some \<lparr>rp_next = 1, rp_end = 3\<rparr>\<rparr>"

lemma owing_ok: "ses_ok silent_app owing" "s_out owing \<noteq> None" "cfg_ok (s_cfg owing)" "resendable silent_app () owing"
    "s_owed owing = Some \<lparr>rp_next = 1, rp_end = 3\<rparr>" "s_wire owing = []"
proof -
  show "ses_ok silent_app owing"
    unfolding owing_def by (rule owed_set_ok) (simp_all add: fresh_def Session_new_ok owed_ok_def)
  show "s_out owing \<noteq> None" using fresh_out by (simp add: owing_def)
  show "cfg_ok (s_cfg owing)" by (simp add: owing_def fresh_def Session_new_def Let_def acceptor_def cfg_ok_acceptor)
  show "resendable silent_app () owing" by (simp add: resendable_def silent_app_def NoJournal_def)
  show "s_owed owing = Some \<lparr>rp_next = 1, rp_end = 3\<rparr>" "s_wire owing = []"
    by (simp_all add: owing_def fresh_def Session_new_def Let_def)
qed

lemma owing_plan: "replay_plan (kept silent_app ()) (journal_floor silent_app ()) 1 3 = [Fill 1 4]"
  by (simp add: replay_plan.simps next_stop_def kept_def silent_app_def NoJournal_def upt_rec)

theorem replay_follows_plan_witness:
  "\<exists>t. continue_replay silent_app () owing = (Inr (), t) \<and> s_wire t = [item_text silent_app () owing (Fill 1 4)] \<and> s_owed t = None"
proof -
  define k where "k = max (cf_resend_batch (s_cfg owing)) 1"
  have "k \<ge> 1" by (simp add: k_def)
  then show ?thesis
    using replay_follows_plan [OF owing_ok(1-3) plain_silent_app owing_ok(4,5) _ refl k_def] owing_plan owing_ok(6) by auto
qed

text \<open>The same session over a journal that keeps a message under number 2.\<close>

definition keeping_app :: "(unit, mem_journal) env" where
  "keeping_app = \<lparr>e_tables = parties_tables, e_fields = 64, e_app_scratch = 512, e_speaks_first = False,
     e_on_message = (\<lambda>a _ _ _. (None, a)), e_journal = MemJournal 4 128\<rparr>"

definition kept_fields :: "(nat \<times> bytes) list" where
  "kept_fields = [(34, b ''2''), (52, b ''T1''), (58, b ''x'')]"

definition kept_frame :: bytes where
  "kept_frame = wire_frame (b ''FIX.4.4'') (wire_body ((35, b ''D'') # kept_fields))"

definition keeping :: mem_journal where
  "keeping = snd (mj_put 4 128 2 kept_frame (MemJournal_new 4 128))"

lemma keeping_get: "mj_get 4 keeping n = (if n = 2 then Some kept_frame else None)"
proof -
  have l: "length kept_frame = 43"
    by (simp add: kept_frame_def kept_fields_def wire_frame_def wire_prefix_def wire_body_def wire_field_def b_def dec_digits.simps length_format_checksum)
  then have p: "mj_put 4 128 2 kept_frame (MemJournal_new 4 128) = (True, keeping)"
    by (simp add: keeping_def mj_put_def MemJournal_new_def nth_opt_def)
  show ?thesis
  proof (cases "n = 2")
    case True
    have "kept_frame \<noteq> []" using l by auto
    then show ?thesis using mj_get_put [OF p] True by simp
  next
    case False
    have "mj_get 4 (MemJournal_new 4 128) n = None" by (auto simp: mj_get_def MemJournal_new_def nth_opt_def)
    then show ?thesis using mj_get_put_other [OF p False] False by auto
  qed
qed

lemma keeping_rewrites:
  assumes "length now \<le> 27"
  shows "as_resend parties_tables kept_frame now (replicate 512 0) \<noteq> None"
proof -
  let ?ds = "rebuilt None now None True ((35, b ''D'') # kept_fields)"
  have ds: "?ds = [Field 52 now, Field 43 (b ''Y''), Field 35 (b ''D''), Field 34 (b ''2''), Field 122 (b ''T1''), Field 58 (b ''x'')]"
    by (simp add: rebuilt_def rebuilt_field_def kept_fields_def)
  have len: "sum_list (map (decl_len []) ?ds) \<le> 70"
    unfolding ds using assms decl_len_field [of 52 "[]" now] decl_len_field [of 43 "[]" "b ''Y''"] decl_len_field [of 35 "[]" "b ''D''"]
      decl_len_field [of 34 "[]" "b ''2''"] decl_len_field [of 122 "[]" "b ''T1''"] decl_len_field [of 58 "[]" "b ''x''"]
    by (simp add: b_def)
  have "rebuild_fits parties_tables (b ''FIX.4.4'') ?ds (length (replicate 512 (0 :: byte)))"
    unfolding rebuild_fits_def body_len using len assms unfolding ds
    by (simp add: no_data_def parties_tables_def decls_fit_def wire_field_def dec_digits.simps b_def)
  moreover have "SOH \<notin> set (b ''FIX.4.4'')" "list_all plain_field ((35, b ''D'') # kept_fields)"
    by (simp_all add: kept_fields_def plain_field_def b_def)
  ultimately show ?thesis
    using rebuild_ok unfolding as_resend_def kept_frame_def by (metis option.distinct(1))
qed

lemma keeping_resendable: "ses_ok e s \<Longrightarrow> resendable keeping_app keeping s"
  using keeping_rewrites [OF stamp_len [of e s]] keeping_get
  by (auto simp: resendable_def keeping_app_def MemJournal_def split: if_splits)

lemma keeping_ok:
  shows "ses_ok keeping_app owing" and "plain_header keeping_app" and "kept keeping_app keeping 2" and "journal_floor keeping_app keeping = 1"
proof -
  have same: "e_tables keeping_app = e_tables silent_app" by (simp add: keeping_app_def silent_app_def)
  have "out_ok keeping_app = out_ok silent_app" by (intro ext) (unfold out_ok_def same, rule refl)
  then show "ses_ok keeping_app owing" using owing_ok(1) by (simp add: ses_ok_def)
  show "plain_header keeping_app" by (rule plain_headerI) (simp add: keeping_app_def parties_tables_def)
  have "mj_oldest 4 keeping = Some 1"
    by (simp add: keeping_def mj_put_def MemJournal_new_def nth_opt_def mj_oldest_def raise_mark_def)
      (simp add: kept_frame_def kept_fields_def wire_frame_def wire_prefix_def wire_body_def wire_field_def b_def dec_digits.simps length_format_checksum)
  then show "kept keeping_app keeping 2" "journal_floor keeping_app keeping = 1"
    using keeping_get [of 2] by (simp_all add: kept_def journal_floor_def keeping_app_def MemJournal_def)
qed

theorem replay_finishes_witness:
  "s_owed (replay_calls 4 keeping_app keeping owing) = None \<and>
   (\<exists>items. s_wire (replay_calls 4 keeping_app keeping owing) = map (item_text keeping_app keeping owing) items \<and>
      concat (map item_range items) = [1, 2, 3] \<and> Again 2 \<in> set items)"
proof -
  let ?r = "\<lparr>rp_next = 1, rp_end = 3\<rparr>" and ?t = "replay_calls 4 keeping_app keeping owing"
  have n: "rp_end ?r < U32_MAX" "Suc (rp_end ?r) - rp_next ?r < 4" by simp_all
  note f = replay_finishes [OF keeping_ok(1) owing_ok(2,3) keeping_ok(2) keeping_resendable [OF owing_ok(1)] owing_ok(5) n]
  then obtain items where i: "s_wire ?t = s_wire owing @ map (item_text keeping_app keeping owing) items"
      "concat (map item_range items) = [rp_next ?r..<Suc (rp_end ?r)]"
      "{k \<in> {rp_next ?r..rp_end ?r}. kept keeping_app keeping k \<and> journal_floor keeping_app keeping \<le> k} \<subseteq> {k. Again k \<in> set items}" by blast
  have "[rp_next ?r..<Suc (rp_end ?r)] = [1, 2, 3]" by (simp add: upt_rec)
  moreover have "Again 2 \<in> set items" using subsetD [OF i(3), of 2] keeping_ok(3,4) by simp
  moreover have "s_wire ?t = map (item_text keeping_app keeping owing) items" using i(1) owing_ok(6) by simp
  ultimately show ?thesis using f i(2) by auto
qed

definition ring_app :: "(unit, mem_journal) env" where
  "ring_app = \<lparr>e_tables = parties_tables, e_fields = 64, e_app_scratch = 512, e_speaks_first = False,
     e_on_message = (\<lambda>a _ _ _. (None, a)), e_journal = MemJournal 4 8\<rparr>"

text \<open>A replay may gap-fill a message the journal still holds. In a ring of four that kept numbers 3
  and 10 the floor is 7 though 3 is still held; replaying from 1, the code takes every number under
  the floor for gone, and its first fill runs to 10, over the kept 3.\<close>

theorem replay_fills_over_kept:
  "\<exists>j. put_all 4 8 [(3, [65]), (10, [66])] (MemJournal_new 4 8) = Some j \<and> kept ring_app j 3 \<and> \<not> kept ring_app j 1 \<and>
    fill_to ring_app j 1 10 = 10"
proof -
  obtain j where j: "put_all 4 8 [(3, [65]), (10, [66])] (MemJournal_new 4 8) = Some j" "mj_oldest 4 j = Some 7"
      "mj_get 4 j 3 = Some [65]" "mj_get 4 j 10 = Some [66]" "mj_get 4 j 1 = None" "mj_get 4 j 7 = None" "mj_get 4 j 8 = None" "mj_get 4 j 9 = None"
    by (simp add: MemJournal_new_def mj_put_def mj_get_def nth_opt_def mj_oldest_def raise_mark_def)
  have k: "kept ring_app j n \<longleftrightarrow> mj_get 4 j n \<noteq> None" for n by (simp add: kept_def ring_app_def MemJournal_def)
  have o: "j_oldest (e_journal ring_app) j = Some 7" by (simp add: ring_app_def MemJournal_def j(2))
  have "skip_unkept (kept ring_app j) 7 10 = 10"
    by (simp add: skip_unkept.simps [of _ 7] skip_unkept.simps [of _ 8] skip_unkept.simps [of _ 9] skip_unkept.simps [of _ 10] k j)
  then have "fill_to ring_app j 1 10 = 10" by (simp add: fill_to_def Let_def o saturating_add32_def)
  with j k show ?thesis by auto
qed

end
