(* ===== verification/Session_Rules.thy ===== *)
theory Session_Rules
  imports Replay_Plan
begin

text \<open>
  The rules of an inbound message: what a peer that has not logged on can cause, when a message reaches
  the application, what a sequence number that is too low costs, and when silence ends a session.
\<close>

subsection \<open>Before the Logon\<close>

text \<open>A Logon this session may act on: the configured begin string and both identities, a sending time
  within the skew of a clock that has ticked, inside the schedule.\<close>

definition authentic :: "session \<Rightarrow> message_view \<Rightarrow> bool" where
  "authentic s view \<longleftrightarrow> mv_get view 35 = Some (b ''A'') \<and>
     (\<exists>v. mv_get view 8 = Some v \<and> nm_matches (cf_begin_string (s_cfg s)) v) \<and>
     (\<exists>v. mv_get view 49 = Some v \<and> inbound_sender_matches (s_cfg s) v) \<and>
     (\<exists>v. mv_get view 56 = Some v \<and> inbound_target_matches (s_cfg s) v) \<and>
     (case Option.bind (mv_get view 52) parse_utc of
        Some t \<Rightarrow> (if t \<ge> s_now_ms s then t - s_now_ms s else s_now_ms s - t) \<le> cf_max_skew_ms (s_cfg s)
      | None \<Rightarrow> False) \<and>
     s_now_ms s \<noteq> 0 \<and> sched_contains (cf_schedule (s_cfg s)) (s_now_ms s)"

lemma gate_authentic:
  assumes "s_state s = AwaitingLogon" "judge_gate e view s = Inr (oks, t)"
  shows "authentic s view"
proof -
  define u where "u = (case Option.bind (mv_get view 52) parse_utc of
      Some t \<Rightarrow> s\<lparr>s_last_skew_ms := Some (skew_ms (s_now_ms s) t)\<rparr> | None \<Rightarrow> s)"
  have u: "s_state u = s_state s" "s_now_ms u = s_now_ms s" by (simp_all add: u_def split: option.split)
  show ?thesis
    using assms(2) unfolding judge_gate_def Let_def u_def [symmetric] u
    by (auto simp: assms(1) authentic_def split: if_split_asm option.split_asm)
qed

text \<open>What a message that is turned away at the frame or at a gate leaves of the session.\<close>

lemma garbled_quiet: "s_wire (snd (garbled bs s)) = s_wire s" "s_state (snd (garbled bs s)) \<in> {s_state s, Disconnected}"
    "fst (garbled bs s) = Up \<Longrightarrow> snd (garbled bs s) = s"
  by (auto simp: garbled_def end_session_def Let_def split: if_split_asm)

lemma judge_parse_quiet:
  assumes "s_state s = AwaitingLogon" "judge_parse e bs s = Inl r"
  shows "s_wire (snd r) = s_wire s \<and> s_state (snd r) \<in> {AwaitingLogon, Disconnected} \<and> (\<forall>l. fst r = Inr l \<longrightarrow> l = Up \<longrightarrow> snd r = s)"
proof -
  obtain q idx where p: "parse_into (e_tables e) Validation_ALL bs (FieldIndex_new (e_fields e)) = (q, idx)" by (metis prod.exhaust)
  have g: "s_wire (snd (ok_link (garbled bs s))) = s_wire s \<and> s_state (snd (ok_link (garbled bs s))) \<in> {AwaitingLogon, Disconnected} \<and>
      (\<forall>l. fst (ok_link (garbled bs s)) = Inr l \<longrightarrow> l = Up \<longrightarrow> snd (ok_link (garbled bs s)) = s)"
    using garbled_quiet [of bs s] assms(1) by (simp add: ok_link_def)
  show ?thesis
  proof (cases q)
    case (Inl err)
    then show ?thesis using assms g by (cases err) (auto simp: judge_parse_def p)
  next
    case (Inr d)
    then show ?thesis using assms g by (cases d) (auto simp: judge_parse_def p Let_def split: if_splits)
  qed
qed

lemma judge_gate_quiet:
  assumes "s_state s = AwaitingLogon" "judge_gate e view s = Inl r"
  shows "\<exists>why t. r = (Inl why, t) \<and> s_wire t = s_wire s"
proof -
  define u where "u = (case Option.bind (mv_get view 52) parse_utc of
      Some t \<Rightarrow> s\<lparr>s_last_skew_ms := Some (skew_ms (s_now_ms s) t)\<rparr> | None \<Rightarrow> s)"
  have u: "s_state u = s_state s" "s_now_ms u = s_now_ms s" "s_wire u = s_wire s" by (simp_all add: u_def split: option.split)
  show ?thesis
    using assms(2) unfolding judge_gate_def Let_def u_def [symmetric]
    by (auto simp: u assms(1) split: if_split_asm)
qed

lemma judge_awaiting:
  assumes "s_state (w_ses w) = AwaitingLogon" "\<And>view. judge_parse e bs (w_ses w) = Inr view \<Longrightarrow> \<not> authentic (w_ses w) view"
    and "settle (judge e bs w) = (l, w')"
  shows "w_app w' = w_app w \<and> w_jnl w' = w_jnl w \<and> s_wire (w_ses w') = s_wire (w_ses w) \<and> s_state (w_ses w') \<in> {AwaitingLogon, Disconnected} \<and>
    (l = Up \<longrightarrow> w' = w)"
proof (cases rule: judge_cases [of e bs w])
  case (parse r)
  obtain x t where r: "r = (x, t)" by (cases r)
  have q: "s_wire t = s_wire (w_ses w)" "s_state t \<in> {AwaitingLogon, Disconnected}" "\<And>l. x = Inr l \<Longrightarrow> l = Up \<Longrightarrow> t = w_ses w"
    using judge_parse_quiet [OF assms(1) parse(1)] r by auto
  have s: "settle (judge e bs w) = settle (x, w\<lparr>w_ses := t\<rparr>)" using parse(2) r by (simp add: with_ses_def)
  show ?thesis
    using q assms(3) unfolding s by (cases x) (auto simp: settle_def end_session_def Let_def)
next
  case (gate view r)
  then obtain why t where "r = (Inl why, t)" "s_wire t = s_wire (w_ses w)" using judge_gate_quiet [OF assms(1)] by blast
  then show ?thesis using assms(3) gate(3) by (auto simp: settle_def with_ses_def end_session_def Let_def)
qed (use gate_authentic [OF assms(1)] assms(2) in blast)+

lemma drain_none:
  assumes "\<forall>i < QUEUED. q_seq (s_queue (w_ses w) ! i) \<noteq> s_next_in (w_ses w)"
  shows "drain e w = (Up, w)"
proof -
  have "List.find (\<lambda>i. q_seq (s_queue (w_ses w) ! i) = s_next_in (w_ses w)) [0..<QUEUED] = None"
    using assms by (auto simp: find_None_iff)
  then have "drain_loop (Suc 3) e w = (Up, w)" by (simp only: drain_loop.simps Let_def option.case)
  then show ?thesis by (simp add: drain_def)
qed


subsection \<open>Delivery\<close>

lemma after_sequence_next_in:
  "\<not> is_logon m \<Longrightarrow> \<not> is_sequence_reset m \<Longrightarrow> s_next_in (after_sequence m s) = wrap32 (in_seq m + 1)"
  by (simp add: after_sequence_def advance_past_def Let_def)

lemma judge_sequence_exact:
  assumes "judge_sequence e bs m s = Inr t" "\<not> skips_sequencing m" "\<not> is_logon m"
  shows "in_seq m = s_next_in s"
proof -
  have "\<not> in_seq m < s_next_in s" "\<not> in_seq m > s_next_in s"
    using assms unfolding judge_sequence_def Let_def by (simp_all split: if_split_asm)
  then show ?thesis by simp
qed

lemma app_not_owned: "is_application m \<Longrightarrow> \<not> is_logon m \<and> \<not> is_logout m \<and> \<not> is_resend_request m \<and> \<not> is_sequence_reset m \<and> \<not> skips_sequencing m"
  by (auto simp: is_application_def SESSION_OWNED_def skips_sequencing_def)

lemma dispatch_app:
  obtains (quiet) "w_app (snd (judge_dispatch e bs m u w)) = w_app w" "w_jnl (snd (judge_dispatch e bs m u w)) = w_jnl w"
  | (app) "in_fault m = None" "is_application m" "judge_dispatch e bs m u w = judge_application e bs (w\<lparr>w_ses := u\<rparr>)"
proof (cases "in_fault m = None \<and> is_application m \<and> \<not> is_test_request m")
  case True
  then show ?thesis using app app_not_owned [of m] by (simp add: judge_dispatch_def)
next
  case False
  have q: "w_app (snd (with_ses w r)) = w_app w \<and> w_jnl (snd (with_ses w r)) = w_jnl w" for r :: judged by (simp add: with_ses_def)
  have "w_app (snd (judge_dispatch e bs m u w)) = w_app w \<and> w_jnl (snd (judge_dispatch e bs m u w)) = w_jnl w"
  proof (cases "in_fault m")
    case None
    then have "\<not> is_application m \<or> is_test_request m" using False by blast
    then show ?thesis unfolding judge_dispatch_def None option.case using q by (auto split: if_split)
  next
    case (Some f)
    then show ?thesis using q by (cases f) (simp add: judge_dispatch_def)
  qed
  then show ?thesis using quiet by blast
qed

subsection \<open>Numbers that are too low\<close>

lemma slots_fit_logout:
  assumes "cfg_ok c" "length sl \<le> 18" "list_all (\<lambda>(t, v). length v \<le> 64) sl"
  shows "slots_fit c WLogout sl"
proof -
  have v: "length v \<le> 64" if "find_field t sl = Some v" for t v
    using find_field_SomeD [OF that] assms(3) by (auto simp: list_all_iff)
  have s: "decl_len sl (Slot t) \<le> 70" if "t < 10000" for t
    using decl_len_slot [OF that, of sl 64] v by auto
  have h: "decl_len sl (Field 35 (b ''5'')) \<le> 7" "decl_len sl (Field 49 x) \<le> length x + 6" "decl_len sl (Field 56 x) \<le> length x + 6" for x
    using decl_len_field [of 35 sl "b ''5''"] decl_len_field [of 49 sl x] decl_len_field [of 56 sl x] by (simp_all add: b_def)
  show ?thesis
    using assms(1,2) s [of 34] s [of 52] s [of 369] s [of 58] h(1) h(2) [of "nm_bytes (cf_sender_comp_id c)"] h(3) [of "nm_bytes (cf_target_comp_id c)"]
    by (simp add: slots_fit_def cfg_ok_def out_decls_def out_head_def out_slots_def out_msg_type_def)
qed

lemma too_low_logout:
  assumes "sendable e s" "n \<le> U32_MAX"
  shows "\<exists>t. logout_with e (MsgSeqNumTooLow (s_next_in s) n) s = (Dropped, t) \<and> s_state t = AwaitingLogout \<and> s_next_in t = s_next_in s \<and>
    s_wire t = s_wire s @ [session_frame e (s_cfg s) WLogout (send_slots None
      [(58, b ''MsgSeqNum too low, expecting '' @ dec_digits (s_next_in s) @ b '' but received '' @ dec_digits n)] s)]"
proof -
  let ?t = "MsgSeqNumTooLow (s_next_in s) n"
  let ?x = "[(58, b ''MsgSeqNum too low, expecting '' @ dec_digits (s_next_in s) @ b '' but received '' @ dec_digits n)]"
  have ok: "ses_ok e s" "cfg_ok (s_cfg s)" "s_next_in s \<le> U32_MAX" "s_next_out s \<le> U32_MAX" "s_last_in s \<le> U32_MAX"
    using assms(1) by (simp_all add: sendable_def ses_ok_def)
  have tx: "text_ok ?t" using ok(3) assms(2) by simp
  have x: "?x = [(58, text_bytes ?t)]" by (simp add: text_bytes_def)
  have r: "text_render ?t (replicate TEXT_MAX_LEN 0) =
      Some (text_bytes ?t @ drop (length (text_bytes ?t)) (replicate TEXT_MAX_LEN 0), length (text_bytes ?t))"
    using text_render_eq [OF tx] text_bytes_len [OF tx] by simp
  have "slots_fit (s_cfg s) WLogout (send_slots None [(58, text_bytes ?t)] s)"
    by (rule slots_fit_logout [OF ok(2)])
      (use stamp_len [OF ok(1)] digits_len [OF ok(4)] digits_len [OF ok(5)] text_bytes_len [OF tx]
        in \<open>simp_all add: send_slots_def TEXT_MAX_LEN_def\<close>)
  then have "send e WLogout [(58, text_bytes ?t)] s =
      (Inr (), sent_session None (session_frame e (s_cfg s) WLogout (send_slots None [(58, text_bytes ?t)] s)) s)"
    unfolding send_def using assms(1) by (intro send_as_frame) (simp_all add: sendable_def)
  then show ?thesis unfolding x by (simp add: logout_with_def r sent_session_def stamp_now_snd)
qed

subsection \<open>Silence\<close>

lemma beat_arith: "beat \<le> U32_MAX * 1000 \<Longrightarrow> wrap64 (beat * 24) = beat * 24"
  by (simp add: wrap64_def)

lemma tick_beat_dropped:
  assumes "s_beat_ms s \<le> U32_MAX * 1000"
  shows "fst (tick_beat e now s) = Dropped \<longleftrightarrow> s_beat_ms s \<noteq> 0 \<and> now - s_last_recv_ms s \<ge> s_beat_ms s * 24 div 10"
  using beat_arith [OF assms] by (simp add: tick_beat_def Let_def)

lemma roll_times [simp]: "s_last_recv_ms (roll_if_a_boundary_passed t s) = s_last_recv_ms s" "s_beat_ms (roll_if_a_boundary_passed t s) = s_beat_ms s"
  by (simp_all add: roll_if_a_boundary_passed_def Let_def split: option.split)


subsection \<open>Properties\<close>

text \<open>C5: A peer that has not logged on hears nothing. While a session awaits the Logon, owes no replay and
  holds no queued message that is due next (a queue outlives its connection), bytes that are not an
  authentic Logon (the configured begin string and identities, a sending time within the skew, a
  clock that has ticked, inside the schedule) put nothing on the wire and reach no application, and
  the session goes on waiting or is disconnected.\<close>

theorem silence_before_logon:
  assumes "s_state (w_ses w) = AwaitingLogon" "s_owed (w_ses w) = None"
    and "\<forall>i < QUEUED. q_seq (s_queue (w_ses w) ! i) \<noteq> s_next_in (w_ses w)"
    and "\<forall>view. judge_parse e bs (w_ses w) = Inr view \<longrightarrow> \<not> authentic (w_ses w) view"
    and "received_with e bs w = (l, w')"
  shows "s_wire (w_ses w') = s_wire (w_ses w) \<and> w_app w' = w_app w \<and> s_state (w_ses w') \<in> {AwaitingLogon, Disconnected}"
proof -
  obtain k v where v: "settle (judge e bs w) = (k, v)" by (metis prod.exhaust)
  have q: "w_app v = w_app w" "s_wire (w_ses v) = s_wire (w_ses w)" "s_state (w_ses v) \<in> {AwaitingLogon, Disconnected}"
      "k = Up \<Longrightarrow> v = w"
    using judge_awaiting [OF assms(1) _ v] assms(4) by blast+
  have "snd (received_inner e bs w) = v"
    using q(4) drain_none [OF assms(3), of e] assms(1,2) by (cases k) (simp_all add: received_inner_def v)
  then show ?thesis
    using assms(5) q(1-3) by (auto simp: received_with_def Let_def split_beta)
qed

text \<open>A whole message whose first field is its type is handed to the gates with its fields.\<close>

lemma judge_parse_wire:
  assumes "fields_ok (e_tables e) (9, dec_digits (length (wire_body ((35, mt) # fs)))) ((35, mt) # fs)"
    and "SOH \<notin> set bstr" "length bstr \<le> U16_MAX" "length fs + 4 \<le> e_fields e" "length fs + 4 \<le> U16_MAX"
    and "length (wire_frame bstr (wire_body ((35, mt) # fs))) \<le> U32_MAX"
  shows "\<exists>view. judge_parse e (wire_frame bstr (wire_body ((35, mt) # fs))) s = Inr view \<and>
    mv_fields view = (8, Some bstr) # (9, Some (dec_digits (length (wire_body ((35, mt) # fs))))) # (35, Some mt) #
      map (\<lambda>f. (fst f, Some (snd f))) fs @
      [(10, Some (format_checksum (checksum (wire_prefix bstr (wire_body ((35, mt) # fs))))))]"
proof -
  let ?f = "wire_frame bstr (wire_body ((35, mt) # fs))"
  have cap: "length ((35, mt) # fs) + 3 \<le> fi_cap (FieldIndex_new (e_fields e))" "length ((35, mt) # fs) + 3 \<le> U16_MAX"
    using assms(4,5) by (simp_all add: FieldIndex_new_def)
  have len: "length (?f @ []) \<le> U32_MAX" using assms(6) by simp
  obtain idx where i: "parse_into (e_tables e) Validation_ALL (?f @ []) (FieldIndex_new (e_fields e)) = (Inr (Complete (length ?f)), idx)"
      "mv_fields (fi_view idx (?f @ [])) = (8, Some bstr) # (9, Some (dec_digits (length (wire_body ((35, mt) # fs))))) #
         map (\<lambda>f. (fst f, Some (snd f))) ((35, mt) # fs) @
         [(10, Some (format_checksum (checksum (wire_prefix bstr (wire_body ((35, mt) # fs))))))]"
    using parse_into_wire [OF assms(1-3) cap refl len] by blast
  have "field_at (fi_view idx ?f) 2 = Some (35, mt)" using i(2) by (simp add: field_at_eq nth_opt_def)
  then have "judge_parse e ?f s = Inr (fi_view idx ?f)" using i(1) by (simp add: judge_parse_def)
  then show ?thesis using i(2) by auto
qed

text \<open>A session one connection old whose clock has ticked, and a Logon from a party it does not know.\<close>

definition waiting :: "(unit, unit) world" where
  "waiting = fresh\<lparr>w_ses := (snd (connect silent_app (w_ses fresh)))\<lparr>s_now_ms := 1000\<rparr>\<rparr>"

definition stranger_fields :: "(nat \<times> bytes) list" where
  "stranger_fields = [(49, b ''BAD''), (56, b ''SRV''), (34, b ''1''), (52, b ''19700101-00:00:01''), (98, b ''0''), (108, b ''30'')]"

definition stranger_frame :: bytes where
  "stranger_frame = wire_frame (b ''FIX.4.4'') (wire_body ((35, b ''A'') # stranger_fields))"

lemma stranger_parsed:
  "\<exists>view. judge_parse silent_app stranger_frame s = Inr view \<and> mv_get view 49 = Some (b ''BAD'')"
proof -
  have f: "fields_ok (e_tables silent_app) p ((35, b ''A'') # stranger_fields)" for p
    by (simp add: stranger_fields_def silent_app_def parties_tables_def b_def)
  have n: "length stranger_fields + 4 \<le> e_fields silent_app" "length stranger_fields + 4 \<le> U16_MAX"
      "SOH \<notin> set (b ''FIX.4.4'')" "length (b ''FIX.4.4'') \<le> U16_MAX"
    by (simp_all add: stranger_fields_def silent_app_def b_def)
  have "length (wire_frame (b ''FIX.4.4'') (wire_body ((35, b ''A'') # stranger_fields))) \<le> U32_MAX"
    by (simp add: stranger_fields_def wire_frame_def wire_prefix_def wire_body_def wire_field_def b_def dec_digits.simps length_format_checksum)
  from judge_parse_wire [OF f n(3,4,1,2) this, of s] obtain view where
    v: "judge_parse silent_app stranger_frame s = Inr view"
      "mv_fields view = (8, Some (b ''FIX.4.4'')) # (9, Some (dec_digits (length (wire_body ((35, b ''A'') # stranger_fields))))) #
         (35, Some (b ''A'')) # map (\<lambda>f. (fst f, Some (snd f))) stranger_fields @
         [(10, Some (format_checksum (checksum (wire_prefix (b ''FIX.4.4'') (wire_body ((35, b ''A'') # stranger_fields))))))]"
    unfolding stranger_frame_def by blast
  have "mv_get view 49 = Some (b ''BAD'')" unfolding mv_get_eq v(2) by (simp add: stranger_fields_def)
  then show ?thesis using v(1) by blast
qed

theorem silence_before_logon_witness:
  "(\<exists>view. judge_parse silent_app stranger_frame (w_ses waiting) = Inr view) \<and>
   s_wire (w_ses (snd (received_with silent_app stranger_frame waiting))) = []"
proof -
  have w: "s_state (w_ses waiting) = AwaitingLogon" "s_owed (w_ses waiting) = None" "s_wire (w_ses waiting) = []"
      "\<forall>i < QUEUED. q_seq (s_queue (w_ses waiting) ! i) \<noteq> s_next_in (w_ses waiting)"
    by (simp_all add: waiting_def connect_def Let_def fresh_def Session_new_def silent_app_def)
  obtain view where v: "judge_parse silent_app stranger_frame (w_ses waiting) = Inr view" "mv_get view 49 = Some (b ''BAD'')"
    using stranger_parsed by blast
  have "\<not> inbound_sender_matches (s_cfg (w_ses waiting)) (b ''BAD'')"
    by (simp add: waiting_def connect_def Let_def fresh_def Session_new_def silent_app_def acceptor_def Config_acceptor_def
        inbound_sender_matches_def nm_matches_new b_def)
  then have "\<forall>x. judge_parse silent_app stranger_frame (w_ses waiting) = Inr x \<longrightarrow> \<not> authentic (w_ses waiting) x"
    using v by (auto simp: authentic_def)
  then show ?thesis using silence_before_logon [OF w(1,2,4)] w(3) v(1) by (metis prod.collapse)
qed

lemma judge_delivery:
  assumes "s = w_ses w" "w' = snd (judge e bs w)"
  shows "w_app w' = w_app w \<and> w_jnl w' = w_jnl w \<or>
    (\<exists>view oks t m hdr. judge_parse e bs s = Inr view \<and> judge_gate e view s = Inr (oks, t) \<and> judge_extract e view oks t = Inr m \<and>
       is_application m \<and> in_fault m = None \<and> in_seq m = s_next_in s \<and> s_next_in (w_ses w') = (s_next_in s + 1) mod 2 ^ 32 \<and>
       h_seq hdr = s_next_out s \<and> w_app w' = snd (e_on_message e (w_app w) bs hdr (e_app_scratch e)))"
proof (cases rule: judge_cases [of e bs w])
  case (dispatch view oks t m u)
  obtain x where t: "t = s\<lparr>s_last_skew_ms := x\<rparr>" using judge_gate_good(2) [OF dispatch(2)] assms(1) by blast
  have u: "u = after_sequence m t" using judge_sequence_good(2) [OF judge_extract_bounded [OF dispatch(3)] dispatch(4)] by blast
  show ?thesis
  proof (cases rule: dispatch_app [of e bs m u w])
    case quiet
    then show ?thesis using assms(2) dispatch(5) by simp
  next
    case app
    note no = app_not_owned [OF app(2)]
    have seq: "in_seq m = s_next_in s" using judge_sequence_exact [OF dispatch(4)] no t by simp
    have un: "s_next_in u = (s_next_in s + 1) mod 2 ^ 32" "s_next_out u = s_next_out s"
      using after_sequence_next_in [of m t] no seq unfolding u
      by (simp_all add: wrap32_def after_sequence_def advance_past_def Let_def t)
    have J: "judge e bs w = judge_application e bs (w\<lparr>w_ses := u\<rparr>)" using dispatch(5) app(3) by simp
    note found = dispatch(1-3) [folded assms(1)] app(1,2) seq
    show ?thesis
    proof (cases rule: judge_application_cases [of "w\<lparr>w_ses := u\<rparr>" e bs])
      case no_template
      then show ?thesis using assms(2) J by simp
    next
      case (silent st v hdr a)
      have "s_next_in v = s_next_in u" using silent(1) stamp_now_keeps(2) [of u] by simp
      then show ?thesis using silent un assms(2) J found by (intro disjI2) fastforce
    next
      case (reply st v hdr mm a ok j n)
      have "s_next_in v = s_next_in u" using reply(1) stamp_now_keeps(2) [of u] by simp
      then show ?thesis using reply un assms(2) J found by (intro disjI2) fastforce
    qed
  qed
qed (use assms in \<open>simp_all add: with_ses_def\<close>)

text \<open>C4: The application gets exactly the next message. Judging a message either leaves the application and
  the journal as they were, or the message is an application message without a fault whose number
  is the inbound count, the application was called once with its bytes and the outbound count, and
  the inbound count is the next number.\<close>

theorem application_gets_next_message:
  "let s = w_ses w; w' = snd (judge e bs w) in
     w_app w' = w_app w \<and> w_jnl w' = w_jnl w \<or>
     (\<exists>view oks t m hdr. judge_parse e bs s = Inr view \<and> judge_gate e view s = Inr (oks, t) \<and> judge_extract e view oks t = Inr m \<and>
        is_application m \<and> in_fault m = None \<and> in_seq m = s_next_in s \<and> s_next_in (w_ses w') = (s_next_in s + 1) mod 2 ^ 32 \<and>
        h_seq hdr = s_next_out s \<and> w_app w' = snd (e_on_message e (w_app w) bs hdr (e_app_scratch e)))"
  using judge_delivery [OF refl refl, of e bs w] unfolding Let_def .

text \<open>C8: A number that is too low ends the session. A message that is neither a possible duplicate nor
  exempt from sequencing, with a number below the inbound count, stops there with \<open>Dropped\<close>: the
  session says goodbye once, with a Logout naming both numbers, and the inbound count stays.\<close>

theorem too_low_ends_session:
  assumes "ses_ok e s" "s_out s \<noteq> None" "cfg_ok (s_cfg s)" "plain_header e"
    and "in_seq m < s_next_in s" "\<not> in_poss_dup m" "\<not> skips_sequencing m" "\<not> (is_logon m \<and> in_reset_seq m)"
  shows "\<exists>t. judge_sequence e bs m s = Inl (Inr Dropped, t) \<and> s_state t = AwaitingLogout \<and> s_next_in t = s_next_in s \<and>
    s_wire t = s_wire s @ [session_frame e (s_cfg s) WLogout (send_slots None
      [(58, b ''MsgSeqNum too low, expecting '' @ dec_digits (s_next_in s) @ b '' but received '' @ dec_digits (in_seq m))] s)]"
proof -
  have "sendable e s" using assms(1-4) by (simp add: sendable_def)
  moreover have "in_seq m \<le> U32_MAX" using assms(1,5) by (simp add: ses_ok_def)
  moreover have "judge_sequence e bs m s = Inl (ok_link (logout_with e (MsgSeqNumTooLow (s_next_in s) (in_seq m)) s))"
    using assms(5-7) unfolding judge_sequence_def if_not_P [OF assms(8)] Let_def by (simp add: judge_too_low_def)
  ultimately show ?thesis using too_low_logout [of e s "in_seq m"] by (auto simp: ok_link_def)
qed

text \<open>A heartbeat with number 2.\<close>

definition beat_two :: inbound where
  "beat_two = \<lparr>in_msg_type = b ''0'', in_msg_type_held = Some (b ''0''), in_ref_seq = Some 2, in_route = [], in_fault = None,
     in_gap_fill = False, in_new_seq_no = None, in_orig_sending_time = None, in_sending_time = None, in_begin_seq_no = None,
     in_end_seq_no = None, in_reset_seq = False, in_next_expected = None, in_test_req_id = None, in_seq = 2, in_poss_dup = False,
     in_encrypt = None, in_heart_bt = None, in_has_appl_ver_id = False, in_appl_ver_id = None\<rparr>"

theorem too_low_ends_session_witness:
  "\<exists>t. judge_sequence silent_app [] beat_two (owing\<lparr>s_next_in := 7\<rparr>) = Inl (Inr Dropped, t) \<and> s_state t = AwaitingLogout \<and> s_next_in t = 7"
proof -
  have "ses_ok silent_app (owing\<lparr>s_next_in := 7\<rparr>)" using owing_ok(1) by (simp add: ses_ok_def)
  moreover have "s_out (owing\<lparr>s_next_in := 7\<rparr>) \<noteq> None" "cfg_ok (s_cfg (owing\<lparr>s_next_in := 7\<rparr>))" using owing_ok(2,3) by simp_all
  moreover have "in_seq beat_two < s_next_in (owing\<lparr>s_next_in := 7\<rparr>)" "\<not> in_poss_dup beat_two" "\<not> skips_sequencing beat_two"
      "\<not> (is_logon beat_two \<and> in_reset_seq beat_two)"
    by (simp_all add: beat_two_def skips_sequencing_def b_def)
  ultimately show ?thesis using too_low_ends_session [of silent_app _ beat_two "[]"] plain_silent_app by fastforce
qed

text \<open>C9: Silence ends a session, and only silence. A tick of a logged-on session inside its schedule
  answers \<open>Dropped\<close> exactly when a heartbeat interval is agreed and nothing was received for 2.4
  times that interval.\<close>

theorem silence_ends_session:
  assumes "s_state s = LoggedOn" "sched_contains (cf_schedule (s_cfg s)) now" "s_beat_ms s \<le> U32_MAX * 1000"
  shows "fst (tick e now s) = Dropped \<longleftrightarrow> s_beat_ms s \<noteq> 0 \<and> now - s_last_recv_ms s \<ge> s_beat_ms s * 24 div 10"
  using assms tick_beat_dropped [of "roll_if_a_boundary_passed now (s\<lparr>s_now_sub_ms_nanos := 0, s_now_resolution := Millis, s_now_ms := now\<rparr>)" e now]
  by (simp add: tick_def tick_inner_def Let_def)

theorem silence_ends_session_witness:
  "fst (tick silent_app 100000 (owing\<lparr>s_state := LoggedOn, s_beat_ms := 30000, s_last_recv_ms := 1000\<rparr>)) = Dropped"
proof -
  let ?s = "owing\<lparr>s_state := LoggedOn, s_beat_ms := 30000, s_last_recv_ms := 1000\<rparr>"
  have "s_state ?s = LoggedOn" "sched_contains (cf_schedule (s_cfg ?s)) 100000" "s_beat_ms ?s \<le> U32_MAX * 1000"
    by (simp_all add: owing_def fresh_def Session_new_def Let_def acceptor_def Config_acceptor_def Schedule_always_def sched_contains_def session_start_def)
  from silence_ends_session [OF this, of silent_app] show ?thesis by simp
qed

text \<open>What the cut of a connection and a clean tick leave alone.\<close>

lemma send_mark: "s_session_mark (snd (send e which extra s)) = s_session_mark s"
  by (cases rule: send_as_cases [of e which None extra s]) (simp_all add: send_def sent_session_def stamp_now_snd)

text \<open>The cut the backpressure path makes, and the next connection.\<close>

definition cut_and_reconnect :: "('a, 'j) env \<Rightarrow> bytes \<Rightarrow> session \<Rightarrow> session" where
  "cut_and_reconnect e why s =
     snd (connect e (snd (disconnect (note_drop_reason DrSlowConsumer (snd (logout_now e why s))))))"

lemma cut_and_reconnect_keeps:
  assumes "ses_ok e s" "s_state s = LoggedOn" "\<not> e_speaks_first e"
  shows "ses_ok e (cut_and_reconnect e why s)" and "s_state (cut_and_reconnect e why s) = AwaitingLogon"
    and "s_owed (cut_and_reconnect e why s) = s_owed s" and "s_cfg (cut_and_reconnect e why s) = s_cfg s"
    and "s_out (cut_and_reconnect e why s) = s_out s" and "s_session_mark (cut_and_reconnect e why s) = s_session_mark s"
    and "s_awaiting_logon_since_ms (cut_and_reconnect e why s) = None"
proof -
  define v where "v = snd (logout_now e why s)"
  have v: "s_owed v = s_owed s" "s_cfg v = s_cfg s" "s_out v = s_out s" "s_session_mark v = s_session_mark s" "ses_ok e v"
    using logout_now_good [of e s why] assms(1,2)
    by (simp_all add: v_def logout_now_def split_beta Let_def good_def ok_step_def send_mark)
  have c: "cut_and_reconnect e why s = snd (connect e (snd (disconnect (note_drop_reason DrSlowConsumer v))))"
    by (simp add: cut_and_reconnect_def v_def)
  have "ok_step e v (cut_and_reconnect e why s)"
    unfolding c disconnect_def using ok_step_trans ok_step_trans note_drop_reason_ok disconnect_with_ok connect_ok by blast
  then show "ses_ok e (cut_and_reconnect e why s)" using v(5) by (simp add: ok_step_def)
  show "s_state (cut_and_reconnect e why s) = AwaitingLogon" "s_owed (cut_and_reconnect e why s) = s_owed s"
      "s_cfg (cut_and_reconnect e why s) = s_cfg s" "s_out (cut_and_reconnect e why s) = s_out s"
      "s_session_mark (cut_and_reconnect e why s) = s_session_mark s" "s_awaiting_logon_since_ms (cut_and_reconnect e why s) = None"
    unfolding c using v assms(3) by (auto simp: connect_def disconnect_def disconnect_with_def note_drop_reason_def Let_def)
qed

lemma tick_inner_awaiting:
  assumes "s_state t = AwaitingLogon" "s_awaiting_logon_since_ms t = None" "ses_ok e t" "now \<le> U64_MAX"
    and "case s_session_mark t of None \<Rightarrow> True | Some mark \<Rightarrow> same_session (cf_schedule (s_cfg t)) mark now"
  obtains u where "tick_inner e now t = (Up, u)" "ses_ok e u" "s_state u = AwaitingLogon" "s_owed u = s_owed t"
    "s_cfg u = s_cfg t" "s_out u = s_out t" "s_wire u = s_wire t"
proof -
  let ?u = "(t\<lparr>s_now_ms := now\<rparr>)\<lparr>s_session_mark := Some now, s_awaiting_logon_since_ms := Some now\<rparr>"
  have r: "roll_if_a_boundary_passed now (t\<lparr>s_now_ms := now\<rparr>) = t\<lparr>s_now_ms := now, s_session_mark := Some now\<rparr>"
    using assms(5) by (cases "s_session_mark t") (simp_all add: roll_if_a_boundary_passed_def)
  have "tick_inner e now t = (Up, ?u)"
    using assms(1,2) by (auto simp: tick_inner_def Let_def r timed_out_def)
  moreover have "ses_ok e ?u" using assms(3,4) by (simp add: ses_ok_def)
  ultimately show thesis using that [of ?u] assms(1) by simp
qed

text \<open>C35: A replay outlives the connection that asked for it. A logged-on session of an acceptor that owes a
  replay (with its invariant, its templates, and a journal whose messages can all be rewritten) and is cut
  off by the Logout and the noted reason the backpressure path uses still owes it on the next connection:
  the first tick there, with no boundary of the schedule in between, sends the first batch of the replay
  although nobody has logged on.\<close>

theorem replay_goes_to_next_connection:
  assumes "ses_ok e s" "s_out s \<noteq> None" "cfg_ok (s_cfg s)" "plain_header e" "\<not> e_speaks_first e"
    and "s_state s = LoggedOn" "s_owed s = Some r" "rp_next r \<le> rp_end r" "rp_end r < U32_MAX"
    and "\<forall>n m stamp. j_get (e_journal e) j n = Some m \<longrightarrow> length stamp \<le> 27 \<longrightarrow>
           as_resend (e_tables e) m stamp (replicate (e_app_scratch e) 0) \<noteq> None"
    and "case s_session_mark s of None \<Rightarrow> True | Some mark \<Rightarrow> same_session (cf_schedule (s_cfg s)) mark now" "now \<le> U64_MAX"
    and "t = snd (connect e (snd (disconnect (note_drop_reason DrSlowConsumer (snd (logout_now e why s))))))"
    and "items = take (max (cf_resend_batch (s_cfg s)) 1) (plan_of e j r)"
  shows "s_state t = AwaitingLogon \<and> s_owed t = Some r \<and> items \<noteq> [] \<and>
    (\<exists>u. tick_with e now t j = (Up, u, tell_journal e u j) \<and> s_state u = AwaitingLogon \<and>
       s_wire u = s_wire t @ map (item_text e j u) items)"
proof -
  have t: "t = cut_and_reconnect e why s" using assms(13) by (simp add: cut_and_reconnect_def)
  note k = cut_and_reconnect_keeps [OF assms(1,6,5), of why, folded t]
  let ?t = "t\<lparr>s_now_sub_ms_nanos := 0, s_now_resolution := Millis\<rparr>"
  have kt: "s_state ?t = AwaitingLogon" "s_awaiting_logon_since_ms ?t = None" "ses_ok e ?t"
    using k by (simp_all add: ses_ok_def)
  have km: "case s_session_mark ?t of None \<Rightarrow> True | Some mark \<Rightarrow> same_session (cf_schedule (s_cfg ?t)) mark now"
    using k assms(11) by (cases "s_session_mark s") simp_all
  obtain u where u: "tick_inner e now ?t = (Up, u)" "ses_ok e u" "s_state u = AwaitingLogon" "s_owed u = Some r"
      "s_cfg u = s_cfg s" "s_out u = s_out s" "s_wire u = s_wire t"
    using tick_inner_awaiting [OF kt(1-3) assms(12) km] k(3-5) assms(7) by auto
  have se: "sendable e u" using u assms(2-4) by (simp add: sendable_def)
  have re: "resendable e j u" using assms(10) stamp_len [OF u(2)] unfolding resendable_def by blast
  obtain x where x: "continue_replay e j u = (Inr (), x)" "emits e u (map (item_text e j u) items) x"
    using continue_replay_plan [OF se re u(4) assms(9) refl] unfolding assms(14) u(5) by blast
  have ix: "map (item_text e j x) items = map (item_text e j u) items"
    using item_text_clock [of u x e] x(2) u(2) by (simp add: emits_def)
  have sx: "s_state x = AwaitingLogon" using continue_replay_ok [of e u j] x(1) u(3) by simp
  have "tick_with e now t j = (Up, x, tell_journal e x j)"
    using u(1,4) x(1) by (simp add: tick_with_def tick_after_inner_def)
  moreover have "s_wire x = s_wire t @ map (item_text e j x) items" using x(2) u(7) ix by (simp add: emits_def)
  moreover have "items \<noteq> []"
    using plan_empty [of "kept e j" "journal_floor e j" "rp_next r" "rp_end r"] assms(8) unfolding assms(14) by auto
  ultimately show ?thesis using k(2,3) assms(7) sx by auto
qed

theorem replay_goes_to_next_connection_witness:
  "let t = snd (connect keeping_app (snd (disconnect (note_drop_reason DrSlowConsumer (snd (logout_now keeping_app (b ''slow'') (owing\<lparr>s_state := LoggedOn\<rparr>))))))) in
   s_owed t = Some \<lparr>rp_next = 1, rp_end = 3\<rparr> \<and>
   (\<exists>u. tick_with keeping_app 1000 t keeping = (Up, u, tell_journal keeping_app u keeping) \<and> s_state u = AwaitingLogon \<and> s_wire u \<noteq> s_wire t)"
proof -
  let ?s = "owing\<lparr>s_state := LoggedOn\<rparr>"
  have o: "s_session_mark owing = None" by (simp add: owing_def fresh_def Session_new_def Let_def)
  have s: "ses_ok keeping_app ?s" "s_out ?s \<noteq> None" "cfg_ok (s_cfg ?s)" "\<not> e_speaks_first keeping_app" "s_state ?s = LoggedOn"
      "s_owed ?s = Some \<lparr>rp_next = 1, rp_end = 3\<rparr>" "rp_next \<lparr>rp_next = 1, rp_end = 3\<rparr> \<le> rp_end \<lparr>rp_next = 1, rp_end = 3\<rparr>"
      "rp_end \<lparr>rp_next = 1, rp_end = 3\<rparr> < U32_MAX"
      "case s_session_mark ?s of None \<Rightarrow> True | Some mark \<Rightarrow> same_session (cf_schedule (s_cfg ?s)) mark 1000" "(1000 :: nat) \<le> U64_MAX"
    using keeping_ok(1) owing_ok(2,3,5) o by (simp_all add: ses_ok_def keeping_app_def)
  have r: "\<forall>n m stamp. j_get (e_journal keeping_app) keeping n = Some m \<longrightarrow> length stamp \<le> 27 \<longrightarrow>
      as_resend (e_tables keeping_app) m stamp (replicate (e_app_scratch keeping_app) 0) \<noteq> None"
    using keeping_rewrites keeping_get by (auto simp: keeping_app_def MemJournal_def split: if_splits)
  show ?thesis
    using replay_goes_to_next_connection [OF s(1-3) keeping_ok(2) s(4-8) r s(9,10) refl refl, of "b ''slow''"]
    unfolding Let_def by auto
qed







end
