(* ===== verification/Frame.thy ===== *)
theory Frame
  imports Resend
begin

text \<open>
  Cutting the byte stream of a connection into messages: \<open>crates/engine/src/frame.rs\<close> and the read
  loop of \<open>crates/engine/src/conn.rs\<close> around it. A framer is its fixed buffer and how much of it is
  used; sums of buffer positions stay below the width of \<open>usize\<close> because a length has at most nine
  digits.
\<close>

subsection \<open>The buffer\<close>

datatype cut = Message nat | Garbage nat | Need

record framer =
  fr_buf :: bytes
  fr_len :: nat

definition Framer_new :: "nat \<Rightarrow> framer" where
  "Framer_new N = \<lparr>fr_buf = replicate N 0, fr_len = 0\<rparr>"

definition fr_spare :: "framer \<Rightarrow> bytes" where
  "fr_spare f = drop (fr_len f) (fr_buf f)"

definition fr_filled :: "nat \<Rightarrow> framer \<Rightarrow> framer" where
  "fr_filled n f = f\<lparr>fr_len := (if fr_len f + n > length (fr_buf f) then length (fr_buf f) else fr_len f + n)\<rparr>"

definition fr_bytes :: "nat \<Rightarrow> framer \<Rightarrow> bytes" where
  "fr_bytes n f = take (min n (fr_len f)) (fr_buf f)"

definition fr_all :: "framer \<Rightarrow> bytes" where
  "fr_all f = take (fr_len f) (fr_buf f)"

definition fr_into_parts :: "framer \<Rightarrow> bytes \<times> nat" where
  "fr_into_parts f = (fr_buf f, fr_len f)"

text \<open>\<open>copy_within(n..len, 0)\<close>: the bytes above stay where they are.\<close>

definition fr_take :: "nat \<Rightarrow> framer \<Rightarrow> framer" where
  "fr_take n f =
     (let n = (if n > fr_len f then fr_len f else n); rest = take (fr_len f - n) (drop n (fr_buf f)) in
      \<lparr>fr_buf = rest @ drop (length rest) (fr_buf f), fr_len = fr_len f - n\<rparr>)"

subsection \<open>Where the front message ends\<close>

fun number_loop :: "bytes \<Rightarrow> nat \<Rightarrow> nat option" where
  "number_loop [] n = Some n"
| "number_loop (c # cs) n =
     (if c < ZERO then None else if unat (c - ZERO) > 9 then None else number_loop cs (n * 10 + unat (c - ZERO)))"

definition number :: "bytes \<Rightarrow> nat option" where
  "number txt = (if txt = [] \<or> length txt > 9 then None else number_loop txt 0)"

definition cut_bytes :: "nat \<Rightarrow> bytes \<Rightarrow> cut" where
  "cut_bytes N rx =
     (if rx = [] then Need
      else case windows_position (SOH # b ''9='') rx of
        None \<Rightarrow> if length rx = N then Garbage (length rx) else Need
      | Some at \<Rightarrow>
          let digs = drop (at + 3) rx in
          (case position (\<lambda>c. c = SOH) digs of
             None \<Rightarrow> if length rx = N then Garbage (length rx) else Need
           | Some fin \<Rightarrow>
               (case number (take fin digs) of
                  None \<Rightarrow> Garbage (length rx)
                | Some body_len \<Rightarrow>
                    let stop = at + 3 + fin + 1 + body_len in
                    if length rx < stop + 4 then (if stop + 4 > N then Garbage (length rx) else Need)
                    else if get_range rx stop (stop + 3) \<noteq> Some (b ''10='') then Garbage (length rx)
                    else (case position (\<lambda>c. c = SOH) (drop (stop + 3) rx) of
                            Some k \<Rightarrow> Message (stop + 3 + k + 1)
                          | None \<Rightarrow> if length rx = N then Garbage (length rx) else Need))))"

definition fr_cut :: "framer \<Rightarrow> cut" where
  "fr_cut f = cut_bytes (length (fr_buf f)) (fr_all f)"

subsection \<open>What an answer means\<close>

lemma windows_position_SomeD: "windows_position n xs = Some i \<Longrightarrow> i + length n \<le> length xs"
  by (induction n xs arbitrary: i rule: windows_position.induct) (auto split: if_splits)

lemma windows_position_append: "windows_position n xs = Some i \<Longrightarrow> windows_position n (xs @ ys) = Some i"
proof (induction n xs arbitrary: i rule: windows_position.induct)
  case (2 needle x xs)
  have "take (length needle) ((x # xs) @ ys) = take (length needle) (x # xs)" if "\<not> length (x # xs) < length needle"
    using that by (simp del: append_Cons)
  then show ?case using 2 by (auto split: if_splits)
qed simp

text \<open>A message or rubbish is never empty and never longer than what has arrived.\<close>

lemma cut_bytes_bound:
  assumes "rx \<noteq> []"
  shows "cut_bytes N rx = Message n \<Longrightarrow> 0 < n \<and> n \<le> length rx" "cut_bytes N rx = Garbage n \<Longrightarrow> 0 < n \<and> n \<le> length rx"
proof -
  have pos: "k < length zs" if "position p zs = Some k" for k p and zs :: bytes using position_SomeD [OF that] by blast
  show "cut_bytes N rx = Message n \<Longrightarrow> 0 < n \<and> n \<le> length rx" "cut_bytes N rx = Garbage n \<Longrightarrow> 0 < n \<and> n \<le> length rx"
    using assms unfolding cut_bytes_def by (auto simp: Let_def split: if_splits option.splits dest!: pos)
qed

lemma cut_bytes_Need: "length rx \<le> N \<Longrightarrow> 0 < N \<Longrightarrow> cut_bytes N rx = Need \<Longrightarrow> length rx < N"
  unfolding cut_bytes_def by (auto simp: Let_def split: if_splits option.splits)

text \<open>More bytes do not change an answer.\<close>

lemma cut_bytes_Message_append:
  assumes "cut_bytes N rx = Message n"
  shows "cut_bytes N (rx @ ys) = Message n"
proof -
  obtain at fin bl k where p: "rx \<noteq> []" "windows_position (SOH # b ''9='') rx = Some at"
      "position (\<lambda>c. c = SOH) (drop (at + 3) rx) = Some fin" "number (take fin (drop (at + 3) rx)) = Some bl"
      "\<not> length rx < at + 3 + fin + 1 + bl + 4" "get_range rx (at + 3 + fin + 1 + bl) (at + 3 + fin + 1 + bl + 3) = Some (b ''10='')"
      "position (\<lambda>c. c = SOH) (drop (at + 3 + fin + 1 + bl + 3) rx) = Some k" "n = at + 3 + fin + 1 + bl + 3 + k + 1"
    using assms unfolding cut_bytes_def by (auto simp: Let_def split: if_splits option.splits)
  have at: "at + 3 \<le> length rx" using windows_position_SomeD [OF p(2)] by (simp add: b_def)
  have fin: "fin < length (drop (at + 3) rx)" using position_SomeD [OF p(3)] by blast
  have g: "get_range (rx @ ys) (at + 3 + fin + 1 + bl) (at + 3 + fin + 1 + bl + 3) = Some (b ''10='')"
    using get_range_append [of "at + 3 + fin + 1 + bl + 3" rx ys] p(5,6) by simp
  show ?thesis
    unfolding cut_bytes_def windows_position_append [OF p(2), of ys] option.case Let_def
    using p at fin g by (simp add: position_append)
qed

lemma cut_bytes_Garbage_append:
  assumes "cut_bytes N rx = Garbage n" "length (rx @ ys) \<le> N"
  shows "cut_bytes N (rx @ ys) = Garbage (length (rx @ ys))"
proof (cases "ys = []")
  case True
  have "n = length rx" using assms(1) unfolding cut_bytes_def by (auto simp: Let_def split: if_splits option.splits)
  then show ?thesis using True assms(1) by simp
next
  case False
  then have short: "length rx < N" using assms(2) by (cases ys) auto
  obtain at fin where p: "rx \<noteq> []" "windows_position (SOH # b ''9='') rx = Some at" "position (\<lambda>c. c = SOH) (drop (at + 3) rx) = Some fin"
    using assms(1) short unfolding cut_bytes_def by (auto simp: Let_def split: if_splits option.splits)
  have at: "at + 3 \<le> length rx" using windows_position_SomeD [OF p(2)] by (simp add: b_def)
  have fin: "fin < length (drop (at + 3) rx)" using position_SomeD [OF p(3)] by blast
  have d: "position (\<lambda>c. c = SOH) (drop (at + 3) (rx @ ys)) = Some fin" "take fin (drop (at + 3) (rx @ ys)) = take fin (drop (at + 3) rx)"
    using p(3) at fin by (simp_all add: position_append)
  show ?thesis
  proof (cases "number (take fin (drop (at + 3) rx))")
    case None
    then show ?thesis unfolding cut_bytes_def windows_position_append [OF p(2), of ys] option.case Let_def d using p(1) by simp
  next
    case (Some bl)
    let ?stop = "at + 3 + fin + 1 + bl"
    have "length rx < ?stop + 4 \<and> ?stop + 4 > N \<or> \<not> length rx < ?stop + 4 \<and> get_range rx ?stop (?stop + 3) \<noteq> Some (b ''10='')"
      using assms(1) short p Some unfolding cut_bytes_def by (auto simp: Let_def split: if_splits option.splits)
    moreover have "get_range (rx @ ys) ?stop (?stop + 3) = get_range rx ?stop (?stop + 3)" if "\<not> length rx < ?stop + 4"
      using get_range_append [of "?stop + 3" rx ys] that by simp
    ultimately show ?thesis
      unfolding cut_bytes_def windows_position_append [OF p(2), of ys] option.case Let_def d Some using p(1) assms(2) by auto
  qed
qed

subsection \<open>The read loop\<close>

lemma cut_take_less: "fr_cut f = Message n \<or> fr_cut f = Garbage n \<Longrightarrow> fr_len (fr_take n f) < fr_len f"
proof -
  assume c: "fr_cut f = Message n \<or> fr_cut f = Garbage n"
  then have "fr_all f \<noteq> []" by (auto simp: fr_cut_def cut_bytes_def)
  then have "0 < n" "0 < fr_len f" using c cut_bytes_bound [of "fr_all f" "length (fr_buf f)" n] by (auto simp: fr_cut_def fr_all_def)
  then show ?thesis by (auto simp: fr_take_def Let_def)
qed

text \<open>The loop of \<open>Connection::turn\<close> that hands every piece to the session, as long as the session keeps the
  link: the pieces, and the framer left when more bytes are needed. The loop with its early exits (a
  message refused, the link dropped, the queue full) is \<open>cn_cuts\<close> of Conn, which hands over these pieces
  in this order up to the one that ends it.\<close>

function fr_pump :: "framer \<Rightarrow> bytes list \<times> framer" where
  "fr_pump f =
     (case fr_cut f of
        Need \<Rightarrow> ([], f)
      | Message n \<Rightarrow> (let (ps, f') = fr_pump (fr_take n f) in (fr_bytes n f # ps, f'))
      | Garbage n \<Rightarrow> (let (ps, f') = fr_pump (fr_take n f) in (fr_bytes n f # ps, f')))"
  by auto
termination by (relation "measure fr_len") (auto simp: cut_take_less)

declare fr_pump.simps [simp del]

text \<open>One read: the bytes that arrived go into the spare room, and every piece is taken.\<close>

definition fr_read :: "bytes \<Rightarrow> framer \<Rightarrow> bytes list \<times> framer" where
  "fr_read bs f = fr_pump (fr_filled (length bs) (f\<lparr>fr_buf := take (fr_len f) (fr_buf f) @ bs @ drop (length bs) (fr_spare f)\<rparr>))"

text \<open>Reading chunk after chunk; \<open>None\<close> when a chunk exceeds the room there is.\<close>

fun fr_reads :: "bytes list \<Rightarrow> framer \<Rightarrow> (bytes list \<times> framer) option" where
  "fr_reads [] f = Some ([], f)"
| "fr_reads (c # cs) f =
     (if length c > length (fr_spare f) then None
      else let (ps, f') = fr_read c f in map_option (\<lambda>(qs, g). (ps @ qs, g)) (fr_reads cs f'))"

definition fr_ok :: "framer \<Rightarrow> bool" where
  "fr_ok f \<longleftrightarrow> fr_len f \<le> length (fr_buf f)"

lemma fr_take_all:
  assumes "fr_ok f" "n \<le> fr_len f"
  shows "fr_all (fr_take n f) = drop n (fr_all f)" "length (fr_buf (fr_take n f)) = length (fr_buf f)" "fr_ok (fr_take n f)"
  using assms by (auto simp: fr_take_def fr_all_def fr_ok_def Let_def drop_take)

lemma fr_bytes_all: "n \<le> fr_len f \<Longrightarrow> fr_bytes n f = take n (fr_all f)"
  by (simp add: fr_bytes_def fr_all_def min_absorb1)

lemma fr_all_len: "fr_ok f \<Longrightarrow> length (fr_all f) = fr_len f"
  by (simp add: fr_ok_def fr_all_def)

subsection \<open>A stream of frames\<close>

definition framed :: "nat \<Rightarrow> bytes \<Rightarrow> bool" where
  "framed N m \<longleftrightarrow> length m \<le> N \<and> (\<exists>bstr body. m = wire_frame bstr body \<and> SOH \<notin> set bstr \<and> length body < 10 ^ 9)"

lemma number_loop_eq: "all_digits cs \<Longrightarrow> number_loop cs n = Some (n * 10 ^ length cs + dec_value cs)"
proof (induction cs arbitrary: n)
  case (Cons c cs)
  then have "\<not> c < ZERO" "unat (c - ZERO) = digit_of c" "digit_of c \<le> 9" 
    using byte_range [of c] digit_of_less_10 [of c] by (simp_all add: digit_of_def)
  then show ?case using Cons by (simp add: dec_value_Cons algebra_simps)
qed simp

lemma number_dec_digits: "n < 10 ^ 9 \<Longrightarrow> number (dec_digits n) = Some n"
  using length_dec_digits_le [of n 9] by (simp add: number_def number_loop_eq)

lemma drop_at: "xs = ys @ zs \<Longrightarrow> n = length ys \<Longrightarrow> drop n xs = zs"
  by simp

lemma cut_frame:
  assumes "SOH \<notin> set bstr" "length body < 10 ^ 9"
  shows "cut_bytes N (wire_frame bstr body @ rest) = Message (length (wire_frame bstr body))"
proof -
  let ?p = "b ''8='' @ bstr" and ?d = "dec_digits (length body)"
  let ?c = "format_checksum (checksum (wire_prefix bstr body))"
  let ?m = "wire_frame bstr body"
  have m: "?m @ rest = ?p @ SOH # b ''9='' @ ?d @ SOH # body @ b ''10='' @ ?c @ SOH # rest"
    by (simp add: wire_frame_def wire_prefix_def)
  have p: "SOH \<notin> set ?p" using assms(1) by (simp add: b_def)
  have l: "length (b ''9='') = 2" "length (b ''10='') = 3" by (simp_all add: b_def)
  have at: "windows_position (SOH # b ''9='') (?m @ rest) = Some (length ?p)"
    unfolding m windows_position_chunk [OF p] by (simp add: l)
  have d: "drop (length ?p + 3) (?m @ rest) = ?d @ SOH # body @ b ''10='' @ ?c @ SOH # rest"
    unfolding m by (simp add: l)
  have fin: "position (\<lambda>c. c = SOH) (?d @ SOH # body @ b ''10='' @ ?c @ SOH # rest) = Some (length ?d)"
    using SOH_notin_digits [OF all_digits_dec_digits, of "length body"] by (intro position_skip) auto
  let ?stop = "length ?p + 3 + length ?d + 1 + length body"
  have g: "get_range (?m @ rest) ?stop (?stop + 3) = Some (b ''10='')"
    by (rule get_range_at [of _ "?p @ SOH # b ''9='' @ ?d @ SOH # body"]) (simp_all add: m l)
  have k: "position (\<lambda>c. c = SOH) (drop (?stop + 3) (?m @ rest)) = Some (length ?c)"
  proof -
    let ?pre = "?p @ SOH # b ''9='' @ ?d @ SOH # body @ b ''10=''"
    have "?stop + 3 = length ?pre" "?m @ rest = ?pre @ ?c @ SOH # rest" unfolding m by (simp_all add: l)
    from drop_at [OF this(2,1)] have "drop (?stop + 3) (?m @ rest) = ?c @ SOH # rest" .
    moreover have "SOH \<notin> set ?c" by (intro SOH_notin_digits format_checksum_value)
    ultimately show ?thesis using position_skip [of ?c "\<lambda>c. c = SOH" SOH rest] by auto
  qed
  have len: "length ?m = ?stop + 3 + length ?c + 1" by (simp add: wire_frame_def wire_prefix_def l b_def)
  have "\<not> length (?m @ rest) < ?stop + 4" using len by simp
  then show ?thesis
    unfolding cut_bytes_def at option.case Let_def d fin take_append
    using g k len by (simp add: number_dec_digits [OF assms(2)] m [symmetric] wire_frame_def wire_prefix_def)
qed

lemma cut_framed: "framed N m \<Longrightarrow> cut_bytes N (m @ rest) = Message (length m)"
  by (auto simp: framed_def cut_frame)

lemma framed_ne: "framed N m \<Longrightarrow> m \<noteq> []"
  by (auto simp: framed_def wire_frame_def wire_prefix_def b_def)

text \<open>The front of a frame is not an answer yet.\<close>

lemma cut_part:
  assumes "framed N (x @ y)" "y \<noteq> []"
  shows "cut_bytes N x = Need"
proof (cases "cut_bytes N x")
  case (Message n)
  have "x \<noteq> []" using Message by (auto simp: cut_bytes_def)
  have "n \<le> length x" using cut_bytes_bound(1) [OF \<open>x \<noteq> []\<close> Message] by simp
  moreover have "n = length (x @ y)" using cut_bytes_Message_append [OF Message, of y] cut_framed [OF assms(1), of "[]"] by simp
  ultimately show ?thesis using assms(2) by simp
next
  case (Garbage n)
  have "length (x @ y) \<le> N" using assms(1) by (simp add: framed_def)
  from cut_bytes_Garbage_append [OF Garbage this] cut_framed [OF assms(1), of "[]"] show ?thesis by simp
qed

lemma pump_stream:
  assumes "fr_ok f" "length (fr_buf f) = N" "list_all (framed N) ms" "fr_all f @ rest = concat ms"
  shows "\<exists>ps qs f'. fr_pump f = (ps, f') \<and> ms = ps @ qs \<and> fr_ok f' \<and> length (fr_buf f') = N \<and>
    fr_all f' @ rest = concat qs \<and> (qs \<noteq> [] \<longrightarrow> length (fr_all f') < length (hd qs))"
  using assms
proof (induction ms arbitrary: f)
  case Nil
  then have "fr_cut f = Need" by (simp add: fr_cut_def cut_bytes_def)
  then show ?case using Nil by (simp add: fr_pump.simps)
next
  case (Cons m ms)
  show ?case
  proof (cases "length (fr_all f) < length m")
    case True
    then obtain y where y: "m = fr_all f @ y" "y \<noteq> []"
      using Cons.prems(4) by (auto simp: append_eq_append_conv2)
    then have "fr_cut f = Need" using cut_part [of N "fr_all f" y] Cons.prems(2,3) by (simp add: fr_cut_def)
    then show ?thesis using Cons.prems True by (intro exI [of _ "[]"] exI [of _ "m # ms"] exI [of _ f]) (simp add: fr_pump.simps)
  next
    case False
    then obtain x where x: "fr_all f = m @ x" using Cons.prems(4) by (auto simp: append_eq_append_conv2)
    have cut: "fr_cut f = Message (length m)" using cut_framed [of N m x] Cons.prems(2,3) x by (simp add: fr_cut_def)
    have n: "length m \<le> fr_len f" using fr_all_len [OF Cons.prems(1)] x by (metis length_append le_add1)
    note t = fr_take_all [OF Cons.prems(1) n]
    have "fr_all (fr_take (length m) f) @ rest = concat ms" using t(1) x Cons.prems(4) by simp
    from Cons.IH [OF t(3) _ _ this] t(2) Cons.prems(2,3) obtain ps qs f' where
      "fr_pump (fr_take (length m) f) = (ps, f')" "ms = ps @ qs" "fr_ok f'" "length (fr_buf f') = N"
      "fr_all f' @ rest = concat qs" "qs \<noteq> [] \<longrightarrow> length (fr_all f') < length (hd qs)" by auto
    moreover have "fr_bytes (length m) f = m" using fr_bytes_all [OF n] x by simp
    ultimately show ?thesis by (intro exI [of _ "m # ps"] exI [of _ qs] exI [of _ f']) (simp add: fr_pump.simps [of f] cut)
  qed
qed

lemma read_ok:
  assumes "fr_ok f" "length bs \<le> length (fr_spare f)"
  shows "fr_ok (fr_filled (length bs) (f\<lparr>fr_buf := take (fr_len f) (fr_buf f) @ bs @ drop (length bs) (fr_spare f)\<rparr>))"
    "length (fr_buf (fr_filled (length bs) (f\<lparr>fr_buf := take (fr_len f) (fr_buf f) @ bs @ drop (length bs) (fr_spare f)\<rparr>))) = length (fr_buf f)"
    "fr_all (fr_filled (length bs) (f\<lparr>fr_buf := take (fr_len f) (fr_buf f) @ bs @ drop (length bs) (fr_spare f)\<rparr>)) = fr_all f @ bs"
  using assms by (auto simp: fr_ok_def fr_filled_def fr_spare_def fr_all_def)

lemma reads_stream:
  assumes "fr_ok f" "length (fr_buf f) = N" "list_all (framed N) ms" "fr_all f @ concat cs @ rest = concat ms"
    and "fr_reads cs f = Some (ps, f')" "ms \<noteq> [] \<longrightarrow> length (fr_all f) < length (hd ms)"
  shows "\<exists>qs. ms = ps @ qs \<and> fr_ok f' \<and> length (fr_buf f') = N \<and> fr_all f' @ rest = concat qs \<and>
    (qs \<noteq> [] \<longrightarrow> length (fr_all f') < length (hd qs))"
  using assms
proof (induction cs arbitrary: f ms ps)
  case (Cons c cs)
  have room: "length c \<le> length (fr_spare f)" using Cons.prems(5) by (simp split: if_splits)
  let ?g = "fr_filled (length c) (f\<lparr>fr_buf := take (fr_len f) (fr_buf f) @ c @ drop (length c) (fr_spare f)\<rparr>)"
  note g = read_ok [OF Cons.prems(1) room]
  have "fr_all ?g @ (concat cs @ rest) = concat ms" using g(3) Cons.prems(4) by simp
  from pump_stream [OF g(1) _ Cons.prems(3) this] g(2) Cons.prems(2) obtain as qs h where
    h: "fr_pump ?g = (as, h)" "ms = as @ qs" "fr_ok h" "length (fr_buf h) = N" "fr_all h @ concat cs @ rest = concat qs"
      "qs \<noteq> [] \<longrightarrow> length (fr_all h) < length (hd qs)" by auto
  obtain bs where bs: "fr_reads cs h = Some (bs, f')" "ps = as @ bs"
    using Cons.prems(5) room h(1) by (auto simp: fr_read_def)
  have "list_all (framed N) qs" using Cons.prems(3) h(2) by simp
  from Cons.IH [OF h(3,4) this h(5) bs(1) h(6)] h(2) bs(2) show ?case by auto
qed simp

subsection \<open>Properties\<close>

text \<open>C13: A connection that stays up hands its session exactly the messages that were sent. However the bytes of a
  sequence of well-formed frames, each within the buffer, are cut into reads that fit the room
  there is, the pieces the loop hands over are the frames, whole, once each and in order, and when
  the last byte is in nothing is left in the buffer.\<close>

theorem framer_restores_messages:
  assumes "list_all (framed N) ms" "concat cs = concat ms" "fr_reads cs (Framer_new N) = Some (ps, f)"
  shows "ps = ms \<and> fr_len f = 0"
proof -
  have n: "fr_ok (Framer_new N)" "length (fr_buf (Framer_new N)) = N" "fr_all (Framer_new N) = []"
    by (simp_all add: fr_ok_def Framer_new_def fr_all_def)
  have "ms \<noteq> [] \<longrightarrow> length (fr_all (Framer_new N)) < length (hd ms)"
    using assms(1) framed_ne [of N "hd ms"] n(3) by (cases ms) auto
  then obtain qs where q: "ms = ps @ qs" "fr_ok f" "fr_all f = concat qs" "qs \<noteq> [] \<longrightarrow> length (fr_all f) < length (hd qs)"
    using reads_stream [OF n(1,2) assms(1), of cs "[]" ps f] assms(2,3) n(3) by auto
  have "qs = []" using q(3,4) by (cases qs) auto
  then show ?thesis using q fr_all_len [OF q(2)] by simp
qed

theorem framer_restores_messages_witness:
  "\<exists>ps f. fr_reads [take 9 (wire_frame (b ''FIX.4.4'') []), drop 9 (wire_frame (b ''FIX.4.4'') [])] (Framer_new 64) = Some (ps, f) \<and>
     ps = [wire_frame (b ''FIX.4.4'') []] \<and> fr_len f = 0"
proof -
  let ?m = "wire_frame (b ''FIX.4.4'') []"
  have l: "length ?m = 21" by (simp add: wire_frame_def wire_prefix_def b_def dec_digits.simps)
  have "SOH \<notin> set (b ''FIX.4.4'') \<and> length ([] :: bytes) < 10 ^ 9" by (simp add: b_def)
  then have "framed 64 ?m" using l unfolding framed_def by (intro conjI exI [of _ "b ''FIX.4.4''"] exI [of _ "[]"]) simp_all
  then have f: "list_all (framed 64) [?m]" by simp
  have "fr_reads [take 9 ?m, drop 9 ?m] (Framer_new 64) \<noteq> None"
  proof -
    have n: "fr_ok (Framer_new 64)" "length (fr_buf (Framer_new 64)) = 64" "fr_all (Framer_new 64) = []"
      by (simp_all add: fr_ok_def Framer_new_def fr_all_def)
    have "length (take 9 ?m) \<le> length (fr_spare (Framer_new 64))" using l by (simp add: fr_spare_def Framer_new_def)
    note g = read_ok [OF n(1) this]
    have "framed 64 (take 9 ?m @ drop 9 ?m)" using f by simp
    moreover have "drop 9 ?m \<noteq> []" using l by simp
    ultimately have "cut_bytes 64 (take 9 ?m) = Need" by (rule cut_part)
    then have "fr_read (take 9 ?m) (Framer_new 64) = ([], fr_filled 9 ((Framer_new 64)\<lparr>fr_buf := take 9 ?m @ drop 9 (replicate 64 0)\<rparr>))"
      using g n l by (simp add: fr_read_def fr_pump.simps fr_cut_def Framer_new_def fr_spare_def)
    then show ?thesis using l by (simp add: Framer_new_def fr_spare_def fr_filled_def split_beta Let_def)
  qed
  then obtain ps f where r: "fr_reads [take 9 ?m, drop 9 ?m] (Framer_new 64) = Some (ps, f)" by auto
  from framer_restores_messages [OF f _ r] r show ?thesis by auto
qed

text \<open>The buffer of a connection never wedges. Whatever bytes arrived, after the loop there is room for
  more: a full buffer is always a message or rubbish, and the loop ends because every piece it
  takes is at least one byte.\<close>

theorem framer_never_wedges:
  assumes "fr_len f \<le> length (fr_buf f)" "0 < length (fr_buf f)"
  shows "fr_spare (snd (fr_pump f)) \<noteq> []"
  using assms
proof (induction f rule: fr_pump.induct)
  case (1 f)
  have ok: "fr_ok f" using 1(3) by (simp add: fr_ok_def)
  have step: "fr_spare (snd (fr_pump (fr_take n f))) \<noteq> []"
    if "fr_cut f = Message n \<or> fr_cut f = Garbage n" for n
  proof -
    have "fr_all f \<noteq> []" using that by (auto simp: fr_cut_def cut_bytes_def)
    then have "n \<le> fr_len f" using that cut_bytes_bound [of "fr_all f" "length (fr_buf f)" n] fr_all_len [OF ok] by (auto simp: fr_cut_def)
    note t = fr_take_all [OF ok this]
    have "0 < length (fr_buf (fr_take n f))" "fr_len (fr_take n f) \<le> length (fr_buf (fr_take n f))"
      using t 1(4) by (simp_all only: fr_ok_def)
    then show ?thesis using that 1(1,2) by blast
  qed
  show ?case
  proof (cases "fr_cut f")
    case Need
    then have "length (fr_all f) < length (fr_buf f)" using 1(3,4) fr_all_len [OF ok] by (intro cut_bytes_Need) (simp_all add: fr_cut_def)
    then show ?thesis using Need fr_all_len [OF ok] by (simp add: fr_pump.simps [of f] fr_spare_def)
  qed (use step in \<open>simp_all add: fr_pump.simps [of f] split_beta Let_def\<close>)
qed

theorem framer_never_wedges_witness:
  "fr_spare (snd (fr_pump \<lparr>fr_buf = replicate 8 65, fr_len = 8\<rparr>)) \<noteq> []"
  by (rule framer_never_wedges) simp_all

end
