(* ===== verification/Redact.thy ===== *)
theory Redact
  imports Validate
begin

text \<open>
  The fields that must not reach a disk: \<open>crates/engine/src/redact.rs\<close>. The scan splits at SOH
  without a dictionary and hands out the ranges of secret values; masking overwrites them in place
  while the scan goes on. Positions are below the width of \<open>usize\<close>, where the saturating sums of the
  source are plain ones; a declared length saturates at that width.
\<close>

abbreviation (input) MASK :: byte where "MASK \<equiv> 42"

datatype secret_kind = KString | KData nat
datatype secret_scope = Every | SignOn

record secret =
  sx_tag :: nat
  sx_kind :: secret_kind
  sx_scope :: secret_scope

definition MASKED :: "secret list" where
  "MASKED =
     [\<lparr>sx_tag = 554, sx_kind = KString, sx_scope = Every\<rparr>,
      \<lparr>sx_tag = 925, sx_kind = KString, sx_scope = Every\<rparr>,
      \<lparr>sx_tag = 1402, sx_kind = KData 1401, sx_scope = Every\<rparr>,
      \<lparr>sx_tag = 1404, sx_kind = KData 1403, sx_scope = Every\<rparr>,
      \<lparr>sx_tag = 96, sx_kind = KData 95, sx_scope = SignOn\<rparr>]"

definition next_soh :: "bytes \<Rightarrow> nat \<Rightarrow> nat" where
  "next_soh bs from = (if from \<le> length bs then (case position (\<lambda>c. c = SOH) (drop from bs) of Some p \<Rightarrow> from + p | None \<Rightarrow> length bs)
     else length bs)"

fun parse_tag_loop :: "bytes \<Rightarrow> nat \<Rightarrow> nat option" where
  "parse_tag_loop [] n = Some n"
| "parse_tag_loop (c # cs) n =
     (if is_ascii_digit c then Option.bind (push_digit U32_MAX n (digit_of c)) (parse_tag_loop cs) else None)"

definition parse_tag :: "bytes \<Rightarrow> nat option" where
  "parse_tag ds = (if ds = [] then None else parse_tag_loop ds 0)"

definition parse_len :: "bytes \<Rightarrow> nat" where
  "parse_len ds = foldl (\<lambda>n c. min (min (n * 10) U64_MAX + digit_of c) U64_MAX) 0 (takeWhile is_ascii_digit ds)"

fun sign_on_loop :: "bytes list \<Rightarrow> bool \<Rightarrow> bool" where
  "sign_on_loop [] typed = (\<not> typed)"
| "sign_on_loop (f # fs) typed =
     (if take 3 f = b ''35='' then (drop 3 f = b ''A'' \<or> drop 3 f = b ''BE'' \<or> sign_on_loop fs True) else sign_on_loop fs typed)"

definition sign_on :: "bytes \<Rightarrow> bool" where
  "sign_on bs = sign_on_loop (split_on SOH bs) False"

record scan =
  sc_at :: nat
  sc_sign_on :: bool
  sc_declared :: "nat list"

definition Scan_new :: "bytes \<Rightarrow> scan" where
  "Scan_new bs = \<lparr>sc_at = 0, sc_sign_on = sign_on bs, sc_declared = replicate (length MASKED) 0\<rparr>"

text \<open>One field: the state behind it, and the range of its value when it is a secret.\<close>

definition declare_length :: "nat \<Rightarrow> bytes \<Rightarrow> nat list \<Rightarrow> nat list" where
  "declare_length tag val ds = map2 (\<lambda>s d. if sx_kind s = KData tag then parse_len val else d) MASKED ds"

definition secret_end :: "bytes \<Rightarrow> secret \<Rightarrow> nat \<Rightarrow> nat \<Rightarrow> nat \<Rightarrow> nat" where
  "secret_end bs s declared from field_end =
     (case sx_kind s of
        KString \<Rightarrow> field_end
      | KData _ \<Rightarrow> let by_len = min (from + declared) (length bs) in if by_len > field_end then next_soh bs by_len else field_end)"

definition redact_field :: "bytes \<Rightarrow> scan \<Rightarrow> (nat \<times> nat) option \<times> scan" where
  "redact_field bs sc =
     (let start = sc_at sc; field_end = next_soh bs start; sc = sc\<lparr>sc_at := field_end + 1\<rparr>;
          field = take (field_end - start) (drop start bs) in
      case position (\<lambda>c. c = EQ_SIGN) field of
        None \<Rightarrow> (None, sc)
      | Some eq \<Rightarrow>
          (case parse_tag (take eq field) of
             None \<Rightarrow> (None, sc)
           | Some tag \<Rightarrow>
               let from = start + eq + 1; sc = sc\<lparr>sc_declared := declare_length tag (drop (eq + 1) field) (sc_declared sc)\<rparr> in
               (case List.find (\<lambda>(s, _). sx_tag s = tag) (zip MASKED (sc_declared sc)) of
                  None \<Rightarrow> (None, sc)
                | Some (s, declared) \<Rightarrow>
                    if sx_scope s = SignOn \<and> \<not> sc_sign_on sc then (None, sc)
                    else let to = secret_end bs s declared from field_end in (Some (from, to), sc\<lparr>sc_at := to + 1\<rparr>))))"

lemma next_soh_ge: "from \<le> length bs \<Longrightarrow> from \<le> next_soh bs from \<and> next_soh bs from \<le> length bs"
  using position_SomeD [of "\<lambda>c. c = SOH" "drop from bs"] by (auto simp: next_soh_def split: option.split)

lemma next_soh_at: "from \<le> length bs \<Longrightarrow> next_soh bs from < length bs \<Longrightarrow> bs ! next_soh bs from = SOH"
  using position_SomeD [of "\<lambda>c. c = SOH" "drop from bs"] by (auto simp: next_soh_def split: option.splits)

lemma next_soh_none: "from \<le> i \<Longrightarrow> i < next_soh bs from \<Longrightarrow> i < length bs \<Longrightarrow> bs ! i \<noteq> SOH"
proof -
  assume a: "from \<le> i" "i < next_soh bs from" "i < length bs"
  show ?thesis
  proof (cases "position (\<lambda>c. c = SOH) (drop from bs)")
    case None
    have "drop from bs ! (i - from) \<in> set (drop from bs)" using a by (intro nth_mem) simp
    then have "drop from bs ! (i - from) \<noteq> SOH" using None unfolding position_None_iff by blast
    then show ?thesis using a by simp
  next
    case (Some p)
    have "next_soh bs from = from + p" using Some a by (simp add: next_soh_def)
    then have "i - from < p" using a by linarith
    then have "drop from bs ! (i - from) \<noteq> SOH" using position_SomeD [OF Some] by blast
    then show ?thesis using a by simp
  qed
qed

text \<open>A field is passed over up to its end, or is a secret whose range reaches at least to its end.\<close>

lemma redact_field_cases:
  obtains (skip) sc' where "redact_field bs sc = (None, sc')" "sc_at sc' = next_soh bs (sc_at sc) + 1" "sc_sign_on sc' = sc_sign_on sc"
  | (hit) sc' eq s d where "redact_field bs sc = (Some (sc_at sc + eq + 1, sc_at sc' - 1), sc')" "sc_sign_on sc' = sc_sign_on sc"
      "sc_at sc' = secret_end bs s d (sc_at sc + eq + 1) (next_soh bs (sc_at sc)) + 1"
      "position (\<lambda>c. c = EQ_SIGN) (take (next_soh bs (sc_at sc) - sc_at sc) (drop (sc_at sc) bs)) = Some eq"
proof -
  let ?fe = "next_soh bs (sc_at sc)"
  let ?field = "take (?fe - sc_at sc) (drop (sc_at sc) bs)"
  show thesis
  proof (cases "position (\<lambda>c. c = EQ_SIGN) ?field")
    case None
    then show ?thesis using skip by (simp add: redact_field_def Let_def)
  next
    case eq: (Some eq)
    show ?thesis
    proof (cases "parse_tag (take eq ?field)")
      case None
      then show ?thesis using skip eq by (simp add: redact_field_def Let_def)
    next
      case tag: (Some tag)
      let ?d = "declare_length tag (drop (eq + 1) ?field) (sc_declared sc)"
      show ?thesis
      proof (cases "List.find (\<lambda>(s, _). sx_tag s = tag) (zip MASKED ?d)")
        case None
        then show ?thesis using skip eq tag by (simp add: redact_field_def Let_def)
      next
        case (Some sd)
        obtain s d where sd: "sd = (s, d)" by (cases sd)
        show ?thesis
        proof (cases "sx_scope s = SignOn \<and> \<not> sc_sign_on sc")
          case True
          then show ?thesis using skip eq tag Some sd by (simp add: redact_field_def Let_def)
        next
          case False
          let ?to = "secret_end bs s d (sc_at sc + eq + 1) ?fe"
          show ?thesis
            by (rule hit [of eq "sc\<lparr>sc_at := ?to + 1, sc_declared := ?d\<rparr>" s d])
              (use False eq tag Some sd in \<open>simp_all add: redact_field_def Let_def\<close>)
        qed
      qed
    qed
  qed
qed

lemma secret_end_ge: "field_end \<le> length bs \<Longrightarrow> field_end \<le> secret_end bs s d from field_end \<and> secret_end bs s d from field_end \<le> length bs"
  using next_soh_ge [of "min (from + d) (length bs)" bs] by (auto simp: secret_end_def Let_def split: secret_kind.split)

lemma redact_field_advances:
  assumes "redact_field bs sc = (r, sc')" "sc_at sc < length bs"
  shows "sc_at sc < sc_at sc'" "next_soh bs (sc_at sc) < sc_at sc'"
proof -
  let ?fe = "next_soh bs (sc_at sc)"
  have fe: "sc_at sc \<le> ?fe" "?fe \<le> length bs" using next_soh_ge [of "sc_at sc" bs] assms(2) by auto
  have "?fe < sc_at sc'"
  proof (cases rule: redact_field_cases [of bs sc])
    case (skip t)
    then show ?thesis using assms(1) by simp
  next
    case (hit t eq s d)
    then show ?thesis using assms(1) secret_end_ge [OF fe(2), of s d "sc_at sc + eq + 1"] by auto
  qed
  then show "sc_at sc < sc_at sc'" "?fe < sc_at sc'" using fe by simp_all
qed

function scan_next :: "bytes \<Rightarrow> scan \<Rightarrow> ((nat \<times> nat) \<times> scan) option" where
  "scan_next bs sc =
     (if sc_at sc \<ge> length bs then None
      else case redact_field bs sc of
        (Some r, sc') \<Rightarrow> Some (r, sc')
      | (None, sc') \<Rightarrow> scan_next bs sc')"
  by auto
termination
  by (relation "measure (\<lambda>(bs, sc). length bs - sc_at sc)") (auto dest: redact_field_advances(1) [OF sym] intro!: diff_less_mono2)

declare scan_next.simps [simp del]

text \<open>The loop of \<open>mask\<close>.\<close>

definition fill_range :: "nat \<times> nat \<Rightarrow> bytes \<Rightarrow> bytes" where
  "fill_range r bs = (case r of (from, to) \<Rightarrow>
     if from \<le> to \<and> to \<le> length bs then take from bs @ replicate (to - from) MASK @ drop to bs else bs)"

lemma fill_range_length [simp]: "length (fill_range r bs) = length bs"
  by (cases r) (simp add: fill_range_def)

lemma scan_next_advances: "scan_next bs sc = Some (r, sc') \<Longrightarrow> sc_at sc < sc_at sc' \<and> sc_at sc < length bs"
proof (induction bs sc rule: scan_next.induct)
  case (1 bs sc)
  show ?case
  proof (cases "sc_at sc \<ge> length bs")
    case True
    then show ?thesis using 1(2) by (simp add: scan_next.simps)
  next
    case False
    obtain x t where t: "redact_field bs sc = (x, t)" by (metis prod.exhaust)
    have "sc_at sc < sc_at t" using redact_field_advances(1) [OF t] False by simp
    then show ?thesis using 1 False t by (cases x) (auto simp: scan_next.simps [of bs sc])
  qed
qed

function mask_loop :: "bytes \<Rightarrow> scan \<Rightarrow> nat \<Rightarrow> nat \<times> bytes" where
  "mask_loop bs sc masked =
     (case scan_next bs sc of
        None \<Rightarrow> (masked, bs)
      | Some (r, sc') \<Rightarrow> mask_loop (fill_range r bs) sc' (masked + 1))"
  by auto
termination
  by (relation "measure (\<lambda>(bs, sc, _). length bs - sc_at sc)") (auto dest: scan_next_advances intro: diff_less_mono2)

declare mask_loop.simps [simp del]

definition mask :: "bytes \<Rightarrow> nat \<times> bytes" where
  "mask bs = mask_loop bs (Scan_new bs) 0"

definition carries_secret :: "bytes \<Rightarrow> bool" where
  "carries_secret bs \<longleftrightarrow> scan_next bs (Scan_new bs) \<noteq> None"

subsection \<open>One field at a time\<close>

lemma mask_loop_skip:
  assumes "sc_at sc < length bs" "redact_field bs sc = (None, sc')"
  shows "mask_loop bs sc m = mask_loop bs sc' m"
proof -
  have "scan_next bs sc = scan_next bs sc'" using assms by (simp add: scan_next.simps [of bs sc])
  then show ?thesis by (simp add: mask_loop.simps [of bs])
qed

lemma mask_loop_hit:
  assumes "sc_at sc < length bs" "redact_field bs sc = (Some r, sc')"
  shows "mask_loop bs sc m = mask_loop (fill_range r bs) sc' (m + 1)"
  using assms by (simp add: mask_loop.simps [of bs] scan_next.simps [of bs sc])

lemma mask_loop_length [simp]: "length (snd (mask_loop bs sc m)) = length bs"
proof (induction bs sc m rule: mask_loop.induct)
  case (1 bs sc m)
  then show ?case by (cases "scan_next bs sc") (auto simp: mask_loop.simps [of bs])
qed

lemma fill_range_nth: "i < length bs \<Longrightarrow> fill_range (lo, hi) bs ! i = (if lo \<le> i \<and> i < hi \<and> hi \<le> length bs then MASK else bs ! i)"
  by (auto simp: fill_range_def nth_append)

lemma fill_range_drop: "hi \<le> k \<Longrightarrow> drop k (fill_range (lo, hi) bs) = drop k bs"
  by (simp add: fill_range_def)

lemma mask_loop_nth: "i < length bs \<Longrightarrow> snd (mask_loop bs sc m) ! i = MASK \<or> snd (mask_loop bs sc m) ! i = bs ! i"
proof (induction bs sc m rule: mask_loop.induct)
  case (1 bs sc m)
  show ?case
  proof (cases "scan_next bs sc")
    case (Some rs)
    obtain r sc' where rs: "rs = (r, sc')" by (cases rs)
    have "fill_range r bs ! i = MASK \<or> fill_range r bs ! i = bs ! i" using 1(2) by (cases r) (simp add: fill_range_nth)
    then show ?thesis using 1(1) [OF Some rs [symmetric]] 1(2) Some rs by (auto simp: mask_loop.simps [of bs])
  qed (simp add: mask_loop.simps [of bs])
qed

lemma redact_field_declared: "length (sc_declared sc) = 5 \<Longrightarrow> length (sc_declared (snd (redact_field bs sc))) = 5"
  by (simp add: redact_field_def Let_def declare_length_def MASKED_def split: option.split prod.split)

lemma next_soh_drop:
  assumes "drop k cur = drop k bs" "length cur = length bs" "k \<le> x"
  shows "next_soh cur x = next_soh bs x"
proof -
  have "drop x cur = drop (x - k) (drop k cur)" "drop x bs = drop (x - k) (drop k bs)" using assms(3) by simp_all
  then have "drop x cur = drop x bs" using assms(1) by metis
  then show ?thesis using assms(2) by (simp only: next_soh_def)
qed

text \<open>A range that reaches past a field boundary covers the whole field behind it.\<close>

lemma next_soh_le: "x \<le> i \<Longrightarrow> i < length bs \<Longrightarrow> bs ! i = SOH \<Longrightarrow> next_soh bs x \<le> i"
  using next_soh_none [of x i bs] by (meson not_le)

lemma next_soh_mono_gap:
  assumes "p \<le> x" "x \<le> length bs"
  shows "next_soh bs p \<le> next_soh bs x"
proof (cases "x \<le> next_soh bs p")
  case True
  show ?thesis
  proof (rule ccontr)
    assume "\<not> ?thesis"
    then have l: "next_soh bs x < next_soh bs p" by simp
    have "next_soh bs p \<le> length bs" using next_soh_ge [of p bs] assms by simp
    then have "bs ! next_soh bs x = SOH" "next_soh bs x < length bs" using next_soh_at [of x bs] assms(2) l by simp_all
    then show False using next_soh_none [of p "next_soh bs x" bs] next_soh_ge [OF assms(2)] assms(1) l by simp
  qed
next
  case False
  then show ?thesis using next_soh_ge [OF assms(2)] by simp
qed

text \<open>A field of a secret that is a STRING in every message.\<close>

definition string_secret_at :: "bytes \<Rightarrow> nat \<Rightarrow> bool" where
  "string_secret_at bs p \<longleftrightarrow> (p = 0 \<or> bs ! (p - 1) = SOH) \<and> (\<exists>v rest. (drop p bs = b ''554='' @ v @ rest \<or> drop p bs = b ''925='' @ v @ rest) \<and>
     next_soh bs p = p + 4 + length v)"

lemma redact_string_secret:
  assumes "string_secret_at bs p" "sc_at sc = p" "length (sc_declared sc) = 5" "drop p cur = drop p bs" "length cur = length bs"
  shows "\<exists>sc'. redact_field cur sc = (Some (p + 4, next_soh bs p), sc') \<and> sc_at sc' = next_soh bs p + 1"
proof -
  obtain v rest tag where tg: "tag = b ''554='' \<or> tag = b ''925=''" "drop p bs = tag @ v @ rest" "next_soh bs p = p + 4 + length v"
    using assms(1) unfolding string_secret_at_def by auto
  have fe: "next_soh cur p = p + 4 + length v" using next_soh_drop [OF assms(4,5), of p] tg(3) by simp
  have tl: "length tag = 4" using tg(1) by (auto simp: b_def)
  have field: "take (p + 4 + length v - p) (drop p cur) = tag @ v" using assms(4) tg(2) tl by simp
  have eq: "position (\<lambda>c. c = EQ_SIGN) (tag @ v) = Some 3" using tg(1) by (auto simp: b_def)
  have pt: "parse_tag (take 3 (tag @ v)) = Some (if tag = b ''554='' then 554 else 925)"
    using tg(1) by (auto simp: b_def parse_tag_def push_digit_eq is_ascii_digit_def digit_of_def)
  obtain d0 d1 d2 d3 d4 where d: "sc_declared sc = [d0, d1, d2, d3, d4]"
    using assms(3) by (auto simp: numeral_eq_Suc length_Suc_conv)
  have ne: "b ''554='' \<noteq> b ''925=''" by (simp add: b_def)
  show ?thesis
    using tg(1) ne unfolding redact_field_def Let_def assms(2) fe field eq option.case pt
    by (auto simp: declare_length_def d MASKED_def secret_end_def tg(3))
qed

lemma mask_string_secret:
  assumes "string_secret_at bs p" "sc_at sc \<le> p" "p < length bs" "length (sc_declared sc) = 5"
    and "drop (sc_at sc) cur = drop (sc_at sc) bs" "length cur = length bs" "p + 4 \<le> i" "i < next_soh bs p"
  shows "snd (mask_loop cur sc m) ! i = MASK"
  using assms(2,4-6)
proof (induction "length bs - sc_at sc" arbitrary: sc cur m rule: less_induct)
  case less
  let ?at = "sc_at sc"
  have il: "i < length bs" using assms(3,8) next_soh_ge [of p bs] by simp
  have atl: "?at < length cur" using less.prems assms(3) by simp
  have fe: "next_soh cur ?at = next_soh bs ?at" using next_soh_drop [OF less.prems(3,4)] by simp
  have masked: "snd (mask_loop (fill_range (lo, hi) cur) sc' m') ! i = MASK" if "lo \<le> i" "i < hi" "hi \<le> length bs" for lo hi sc' m'
    using mask_loop_nth [of i "fill_range (lo, hi) cur" sc' m'] that il less.prems(4) by (auto simp: fill_range_nth)
  show ?case
  proof (cases "?at = p")
    case True
    obtain sc' where "redact_field cur sc = (Some (p + 4, next_soh bs p), sc')"
      using redact_string_secret [OF assms(1) True less.prems(2) _ less.prems(4)] less.prems(3) True by auto
    then show ?thesis using mask_loop_hit [OF atl, of "(p + 4, next_soh bs p)" sc' m] masked assms(7,8) next_soh_ge [of p bs] assms(3) by simp
  next
    case False
    then have lt: "?at < p" using less.prems(1) by simp
    have sohp: "bs ! (p - 1) = SOH" using assms(1) lt by (auto simp: string_secret_at_def)
    have "next_soh bs ?at \<le> p - 1" by (rule next_soh_le) (use sohp lt assms(3) in simp_all)
    then have fep: "next_soh bs ?at < p" using lt by linarith
    note decl = redact_field_declared [OF less.prems(2), of cur]
    have later: "drop k cur = drop k bs" if "k \<ge> ?at" for k
      using less.prems(3) that by (metis drop_drop le_add_diff_inverse2)
    show ?thesis
    proof (cases rule: redact_field_cases [of cur sc])
      case (skip sc')
      have "sc_at sc' \<le> p" "?at < sc_at sc'" using skip(2) fe fep next_soh_ge [of ?at bs] lt assms(3) by simp_all
      then have "snd (mask_loop cur sc' m) ! i = MASK"
        using less.hyps [of sc' cur m] decl skip(1) later [of "sc_at sc'"] less.prems(4) lt assms(3) by simp
      then show ?thesis using mask_loop_skip [OF atl skip(1)] by simp
    next
      case (hit sc' eq s d)
      let ?from = "?at + eq + 1" and ?to = "sc_at sc' - 1"
      have to: "?to = secret_end cur s d ?from (next_soh bs ?at)" "sc_at sc' = ?to + 1" using hit(3) fe by simp_all
      have "eq < next_soh bs ?at - ?at" using position_SomeD [OF hit(4)] fe by simp
      then have frm: "?from \<le> next_soh bs ?at" by simp
      note ge = secret_end_ge [of "next_soh bs ?at" cur s d ?from]
      have tob: "next_soh bs ?at \<le> ?to" "?to \<le> length bs" using ge to(1) less.prems(4) fep assms(3) by simp_all
      have M: "mask_loop cur sc m = mask_loop (fill_range (?from, ?to) cur) sc' (m + 1)" by (rule mask_loop_hit [OF atl hit(1)])
      show ?thesis
      proof (cases "sc_at sc' \<le> p")
        case True
        have "?at < sc_at sc'" using to(2) tob(1) next_soh_ge [of ?at bs] lt assms(3) by simp
        moreover have "drop (sc_at sc') (fill_range (?from, ?to) cur) = drop (sc_at sc') bs"
          using fill_range_drop [of ?to "sc_at sc'" ?from cur] to(2) later [of "sc_at sc'"] calculation by simp
        ultimately have "snd (mask_loop (fill_range (?from, ?to) cur) sc' (m + 1)) ! i = MASK"
          using less.hyps [of sc' "fill_range (?from, ?to) cur" "m + 1"] decl hit(1) True less.prems(4) lt assms(3) by simp
        then show ?thesis unfolding M .
      next
        case False
        then have big: "p \<le> ?to" using to(2) by simp
        define x where "x = min (?from + d) (length cur)"
        have x: "?to = next_soh cur x" "next_soh bs ?at < x"
          using to(1) big fep by (auto simp: secret_end_def Let_def x_def split: secret_kind.splits if_splits)
        have xl: "x \<le> length bs" "?at \<le> x" using less.prems(4) x(2) next_soh_ge [of ?at bs] lt assms(3) by (simp_all add: x_def)
        have tx: "?to = next_soh bs x" using x(1) next_soh_drop [OF less.prems(3,4) xl(2)] by simp
        have "p \<le> x"
        proof (rule ccontr)
          assume "\<not> p \<le> x"
          then have "next_soh bs x \<le> p - 1" using next_soh_le [of x "p - 1" bs] sohp assms(3) by simp
          then show False using tx big lt by simp
        qed
        then have "next_soh bs p \<le> ?to" using next_soh_mono_gap [of p x bs] xl(1) tx by simp
        then show ?thesis unfolding M using masked [of ?from ?to sc' "m + 1"] frm fep assms(7,8) tob(2) by simp
      qed
    qed
  qed
qed

subsection \<open>Properties\<close>

text \<open>C30: A password never survives masking. Wherever a field \<open>554\<close> or \<open>925\<close> starts at the beginning of the
  bytes or behind a separator, whatever stands in front of it (rubbish, several frames, DATA fields
  with lengths that lie) and behind it, every byte of its value is overwritten, and the message
  keeps its length.\<close>

theorem password_is_masked:
  assumes "bs = pre @ tag @ v @ post" "tag = b ''554='' \<or> tag = b ''925=''" "pre = [] \<or> last pre = SOH"
    and "SOH \<notin> set v" "post = [] \<or> hd post = SOH"
  shows "take (length v) (drop (length pre + 4) (snd (mask bs))) = replicate (length v) MASK \<and> length (snd (mask bs)) = length bs"
proof -
  let ?p = "length pre"
  have tl: "length tag = 4" "SOH \<notin> set tag" using assms(2) by (auto simp: b_def)
  have d: "drop ?p bs = tag @ v @ post" using assms(1) by simp
  have ns: "next_soh bs ?p = ?p + 4 + length v"
  proof (cases post)
    case Nil
    then have "position (\<lambda>c. c = SOH) (tag @ v @ post) = None" using tl(2) assms(4) by (auto simp: position_None_iff)
    then show ?thesis using d assms(1) tl(1) Nil by (simp add: next_soh_def)
  next
    case (Cons c ps)
    then have "position (\<lambda>c. c = SOH) ((tag @ v) @ c # ps) = Some (length (tag @ v))"
      using tl(2) assms(4,5) by (intro position_skip) auto
    then show ?thesis using d assms(1) tl(1) Cons by (simp add: next_soh_def)
  qed
  have "?p = 0 \<or> bs ! (?p - 1) = SOH" using assms(1,3) by (cases pre rule: rev_cases) (auto simp: nth_append)
  then have sec: "string_secret_at bs ?p" unfolding string_secret_at_def using d ns assms(2) by blast
  have dl: "length (sc_declared (Scan_new bs)) = 5" by (simp add: Scan_new_def MASKED_def)
  have "snd (mask bs) ! i = MASK" if "?p + 4 \<le> i" "i < ?p + 4 + length v" for i
    unfolding mask_def
    by (rule mask_string_secret [OF sec _ _ dl refl refl that(1)]) (use that ns assms(1) tl(1) in \<open>simp_all add: Scan_new_def\<close>)
  then have "take (length v) (drop (?p + 4) (snd (mask bs))) = replicate (length v) MASK"
    using assms(1) tl(1) by (intro nth_equalityI) (simp_all add: mask_def)
  then show ?thesis by (simp add: mask_def)
qed

theorem password_is_masked_witness:
  "take 3 (drop 9 (snd (mask (b ''35=A'' @ [SOH] @ b ''554='' @ b ''key'' @ [SOH])))) = replicate 3 MASK"
  using password_is_masked [of "b ''35=A'' @ [SOH] @ b ''554='' @ b ''key'' @ [SOH]" "b ''35=A'' @ [SOH]" "b ''554=''" "b ''key''" "[SOH]"]
  by (simp add: b_def numeral_3_eq_3)

end
