(* ===== verification/Reconnect.thy ===== *)
theory Reconnect
  imports Schedule
begin

text \<open>
  When an initiator tries again: \<open>crates/engine/src/reconnect.rs\<close>. Times are 64-bit milliseconds; the
  left shift loses the bits above that width, as \<open>checked_shl\<close> checks the distance only.
\<close>

datatype next_try = Now | At nat | Stop
datatype policy_error = FirstIsZero | CeilingBelowFirst

record policy =
  po_first_ms :: nat
  po_ceiling_ms :: nat
  po_schedule :: schedule
  po_attempt :: nat
  po_not_before_ms :: nat
  po_stopped :: bool

definition Policy_new :: "nat \<Rightarrow> nat \<Rightarrow> policy_error + policy" where
  "Policy_new first_ms ceiling_ms =
     (if first_ms = 0 then Inl FirstIsZero
      else if ceiling_ms < first_ms then Inl CeilingBelowFirst
      else Inr \<lparr>po_first_ms = first_ms, po_ceiling_ms = ceiling_ms, po_schedule = Schedule_always, po_attempt = 0,
                po_not_before_ms = 0, po_stopped = False\<rparr>)"

definition po_with_schedule :: "schedule \<Rightarrow> policy \<Rightarrow> policy" where
  "po_with_schedule s p = p\<lparr>po_schedule := s\<rparr>"

definition checked_shl64 :: "nat \<Rightarrow> nat \<Rightarrow> nat option" where
  "checked_shl64 x k = (if k < 64 then Some (x * 2 ^ k mod 2 ^ 64) else None)"

definition saturating_add64 :: "nat \<Rightarrow> nat \<Rightarrow> nat" where
  "saturating_add64 x y = min (x + y) U64_MAX"

definition po_delay :: "policy \<Rightarrow> nat" where
  "po_delay p =
     (let steps = po_attempt p - 1 in
      if steps \<ge> 63 then po_ceiling_ms p
      else case checked_shl64 (po_first_ms p) steps of
        Some d \<Rightarrow> if d \<le> po_ceiling_ms p then d else po_ceiling_ms p
      | None \<Rightarrow> po_ceiling_ms p)"

definition po_dropped :: "nat \<Rightarrow> policy \<Rightarrow> policy" where
  "po_dropped now_ms p =
     (let p = p\<lparr>po_attempt := min (po_attempt p + 1) U32_MAX\<rparr> in
      p\<lparr>po_not_before_ms := saturating_add64 now_ms (po_delay p)\<rparr>)"

definition po_logged_on :: "policy \<Rightarrow> policy" where
  "po_logged_on p = p\<lparr>po_attempt := 0\<rparr>"

definition po_stop :: "policy \<Rightarrow> policy" where
  "po_stop p = p\<lparr>po_stopped := True\<rparr>"

definition po_next :: "nat \<Rightarrow> policy \<Rightarrow> next_try" where
  "po_next now_ms p =
     (if po_stopped p then Stop
      else if \<not> sched_contains (po_schedule p) now_ms then At (saturating_add64 now_ms (po_ceiling_ms p))
      else if now_ms \<ge> po_not_before_ms p then Now
      else At (po_not_before_ms p))"

subsection \<open>Backoff\<close>

lemma shift_bound: "0 < x \<Longrightarrow> x * 2 ^ k < 2 ^ n \<Longrightarrow> k < n" for x :: nat
proof (rule ccontr)
  assume a: "0 < x" "x * 2 ^ k < 2 ^ n" "\<not> k < n"
  then have "(2 :: nat) ^ n \<le> 2 ^ k" by (intro power_increasing) simp_all
  also have "\<dots> \<le> x * 2 ^ k" using a(1) by simp
  finally show False using a(2) by simp
qed

lemma po_delay_exact:
  assumes "0 < po_first_ms p" "po_first_ms p * 2 ^ (po_attempt p - 1) < 2 ^ 63"
  shows "po_delay p = min (po_ceiling_ms p) (po_first_ms p * 2 ^ (po_attempt p - 1))"
  using shift_bound [OF assms] assms(2) by (simp add: po_delay_def Let_def checked_shl64_def min_def)

lemma attempts: "po_attempt p \<le> U32_MAX \<Longrightarrow> po_attempt ((po_dropped now ^^ k) p) = min (po_attempt p + k) U32_MAX"
  by (induction k) (auto simp: po_dropped_def Let_def)

lemma dropped_keeps:
  "po_first_ms ((po_dropped now ^^ k) p) = po_first_ms p" "po_ceiling_ms ((po_dropped now ^^ k) p) = po_ceiling_ms p"
  "po_schedule ((po_dropped now ^^ k) p) = po_schedule p" "po_stopped ((po_dropped now ^^ k) p) = po_stopped p"
  by (induction k) (simp_all add: po_dropped_def Let_def)

subsection \<open>Properties\<close>

text \<open>The wait doubles with every attempt up to its ceiling. After \<open>k\<close> drops in a row, as long as the
  doubled wait fits 63 bits, the next attempt is allowed exactly
  \<open>min ceiling (first * 2^(k-1))\<close> after the last of them, and not a millisecond earlier.\<close>

theorem backoff_doubles:
  assumes "Policy_new first_ms ceiling_ms = Inr p0" "0 < k" "first_ms * 2 ^ (k - 1) < 2 ^ 63" "now_ms + ceiling_ms \<le> U64_MAX"
    and "p = (po_dropped now_ms ^^ k) p0"
  shows "po_next t p = (if now_ms + min ceiling_ms (first_ms * 2 ^ (k - 1)) \<le> t then Now else At (now_ms + min ceiling_ms (first_ms * 2 ^ (k - 1))))"
proof -
  obtain n where n: "k = Suc n" using assms(2) by (cases k) auto
  have p0: "po_first_ms p0 = first_ms" "po_ceiling_ms p0 = ceiling_ms" "po_attempt p0 = 0" "po_schedule p0 = Schedule_always"
      "\<not> po_stopped p0" "0 < first_ms"
    using assms(1) by (auto simp: Policy_new_def split: if_splits)
  have "k < 65" using shift_bound [OF p0(6) assms(3)] by simp
  let ?q = "(po_dropped now_ms ^^ n) p0"
  define a where "a = ?q\<lparr>po_attempt := min (po_attempt ?q + 1) U32_MAX\<rparr>"
  have a: "po_attempt a = k" "po_first_ms a = first_ms" "po_ceiling_ms a = ceiling_ms"
    using attempts [of p0 n now_ms] dropped_keeps [of n now_ms p0] p0 n \<open>k < 65\<close> by (simp_all add: a_def)
  have "po_delay a = min ceiling_ms (first_ms * 2 ^ (k - 1))"
    using po_delay_exact [of a] a p0(6) assms(3) by simp
  moreover have "po_dropped now_ms ?q = a\<lparr>po_not_before_ms := saturating_add64 now_ms (po_delay a)\<rparr>"
    unfolding po_dropped_def a_def Let_def ..
  ultimately have nb: "po_not_before_ms p = now_ms + min ceiling_ms (first_ms * 2 ^ (k - 1))"
    using assms(4,5) n by (simp add: saturating_add64_def)
  have "sched_contains (po_schedule p) t" "\<not> po_stopped p"
    using dropped_keeps(3,4) [of k now_ms p0] assms(5) p0(4,5)
    by (simp_all add: sched_contains_def session_start_def Schedule_always_def)
  then show ?thesis using nb by (simp add: po_next_def)
qed

theorem backoff_doubles_witness:
  "\<exists>p0. Policy_new 1000 30000 = Inr p0 \<and> po_next 3000 ((po_dropped 1000 ^^ 3) p0) = At 5000"
proof -
  obtain p0 where p0: "Policy_new 1000 30000 = Inr p0" by (simp add: Policy_new_def)
  have "po_next 3000 ((po_dropped 1000 ^^ 3) p0) = At 5000"
    using backoff_doubles [OF p0, of 3 1000 "(po_dropped 1000 ^^ 3) p0" 3000] by simp
  with p0 show ?thesis by blast
qed

text \<open>The wait can vanish. With a first wait of one second and a ceiling of thirty, the 62nd drop in a row
  shifts every bit of the wait out of the word, and the next attempt is due at once.\<close>

theorem backoff_can_vanish:
  "\<exists>p0. Policy_new 1000 30000 = Inr p0 \<and> po_next 5000 ((po_dropped 5000 ^^ 62) p0) = Now"
proof -
  obtain p0 where p0: "Policy_new 1000 30000 = Inr p0" by (simp add: Policy_new_def)
  then have e: "p0 = \<lparr>po_first_ms = 1000, po_ceiling_ms = 30000, po_schedule = Schedule_always, po_attempt = 0,
                po_not_before_ms = 0, po_stopped = False\<rparr>" by (simp add: Policy_new_def)
  let ?q = "(po_dropped 5000 ^^ 61) p0"
  have "po_attempt ?q = 61" using attempts [of p0 61 5000] e by simp
  then have "po_delay (?q\<lparr>po_attempt := min (po_attempt ?q + 1) U32_MAX\<rparr>) = 0"
    using dropped_keeps [of 61 5000 p0] e by (simp add: po_delay_def Let_def checked_shl64_def)
  then have nb: "po_not_before_ms (po_dropped 5000 ?q) = 5000" by (simp add: po_dropped_def Let_def saturating_add64_def)
  have d: "(po_dropped 5000 ^^ 62) p0 = po_dropped 5000 ?q" using funpow.simps(2) [of 61 "po_dropped 5000"] by simp
  have "sched_contains (po_schedule (po_dropped 5000 ?q)) 5000" "\<not> po_stopped (po_dropped 5000 ?q)"
    using dropped_keeps(3,4) [of 62 5000 p0] d e by (simp_all add: sched_contains_def session_start_def Schedule_always_def)
  then show ?thesis using nb p0 unfolding d [symmetric] by (auto simp: po_next_def)
qed

end
