(* ===== verification/Ring.thy ===== *)
theory Ring
  imports Prelude "HOL-Library.Sublist"
begin

text \<open>
  The single-producer single-consumer record queue of \<open>crates/engine/src/ring.rs\<close>: its operations, the
  queue of records they implement, and the interleavings of a producer that writes byte by byte
  with a consumer. The positions are 64-bit words, which wrap as the source's do. The memory is
  sequentially consistent: the acquire and release pairs of the source are what makes it so for the
  bytes behind a published tail.
\<close>

unbundle bit_operations_syntax

type_synonym usize = "64 word"

abbreviation (input) HEADER :: nat where "HEADER \<equiv> 4"

record ring =
  rg_buf :: bytes
  rg_tail :: usize
  rg_head :: usize
  rg_mask :: usize

definition rg_get :: "ring \<Rightarrow> usize \<Rightarrow> byte" where
  "rg_get r at = rg_buf r ! unat (at AND rg_mask r)"

definition rg_put :: "usize \<Rightarrow> byte \<Rightarrow> ring \<Rightarrow> ring" where
  "rg_put at x r = r\<lparr>rg_buf := (rg_buf r)[unat (at AND rg_mask r) := x]\<rparr>"

text \<open>\<open>next_power_of_two\<close>, for a capacity of at most \<open>2^63\<close>.\<close>

function pow2_from :: "nat \<Rightarrow> nat \<Rightarrow> nat" where
  "pow2_from p n = (if p \<ge> n \<or> p = 0 then p else pow2_from (2 * p) n)"
  by auto
termination by (relation "measure (\<lambda>(p, n). n - p)") auto

declare pow2_from.simps [simp del]

definition rg_pair :: "nat \<Rightarrow> ring" where
  "rg_pair capacity = (let cap = max (pow2_from 1 capacity) 1 in
     \<lparr>rg_buf = replicate cap 0, rg_tail = 0, rg_head = 0, rg_mask = of_nat (cap - 1)\<rparr>)"

definition rg_free :: "ring \<Rightarrow> nat" where
  "rg_free r = length (rg_buf r) - unat (rg_tail r - rg_head r)"

definition rg_capacity :: "ring \<Rightarrow> nat" where
  "rg_capacity r = length (rg_buf r)"

definition rg_fits :: "nat \<Rightarrow> ring \<Rightarrow> bool" where
  "rg_fits len r \<longleftrightarrow> HEADER + len \<le> rg_free r"

definition to_le_bytes :: "nat \<Rightarrow> bytes" where
  "to_le_bytes n = [of_nat n, of_nat (n div 256), of_nat (n div 65536), of_nat (n div 16777216)]"

definition from_le_bytes :: "bytes \<Rightarrow> nat" where
  "from_le_bytes bs = unat (bs ! 0) + 256 * unat (bs ! 1) + 65536 * unat (bs ! 2) + 16777216 * unat (bs ! 3)"

fun put_all_bytes :: "bytes \<Rightarrow> usize \<Rightarrow> ring \<Rightarrow> usize \<times> ring" where
  "put_all_bytes [] at r = (at, r)"
| "put_all_bytes (x # xs) at r = put_all_bytes xs (at + 1) (rg_put at x r)"

definition rg_push :: "bytes list \<Rightarrow> ring \<Rightarrow> bool \<times> ring" where
  "rg_push parts r =
     (let len = sum_list (map length parts) in
      if len > U32_MAX then (False, r)
      else if \<not> rg_fits len r then (False, r)
      else let (at, r') = put_all_bytes (concat (to_le_bytes len # parts)) (rg_tail r) r in (True, r'\<lparr>rg_tail := at\<rparr>))"

fun get_bytes :: "nat \<Rightarrow> usize \<Rightarrow> ring \<Rightarrow> bytes" where
  "get_bytes 0 at r = []"
| "get_bytes (Suc n) at r = rg_get r at # get_bytes n (at + 1) r"

text \<open>The answer, the buffer of the caller and the ring.\<close>

definition rg_pop :: "bytes \<Rightarrow> ring \<Rightarrow> nat option \<times> bytes \<times> ring" where
  "rg_pop out r =
     (let at = rg_head r in
      if unat (rg_tail r - at) < HEADER then (None, out, r)
      else let len = from_le_bytes (get_bytes HEADER at r); at = at + of_nat HEADER in
        if unat (rg_tail r - at) < len then (None, out, r)
        else if len > length out then (Some 0, out, r\<lparr>rg_head := at + of_nat len\<rparr>)
        else (Some len, get_bytes len at r @ drop len out, r\<lparr>rg_head := at + of_nat len\<rparr>))"

subsection \<open>Positions\<close>

definition rg_ok :: "nat \<Rightarrow> ring \<Rightarrow> bool" where
  "rg_ok k r \<longleftrightarrow> k < 64 \<and> length (rg_buf r) = 2 ^ k \<and> rg_mask r = mask k \<and> unat (rg_tail r - rg_head r) \<le> 2 ^ k"

lemma unat_small: "n \<le> 2 ^ k \<Longrightarrow> k < 64 \<Longrightarrow> unat (of_nat n :: usize) = n"
proof -
  assume n: "n \<le> 2 ^ k" and "k < 64"
  then have "(2 :: nat) ^ k < 2 ^ 64" by (intro power_strict_increasing) simp_all
  then show ?thesis using n by (simp add: unat_of_nat)
qed

lemma mask_index: "unat ((x :: usize) AND mask k) = unat x mod 2 ^ k"
proof -
  have "x AND mask k = take_bit k x" by (simp add: take_bit_eq_mask)
  moreover have "unat (take_bit k x) = take_bit k (unat x)" by (rule unsigned_take_bit_eq)
  ultimately show ?thesis by (simp only: take_bit_eq_mod)
qed

lemma unat_add_mod: "k < 64 \<Longrightarrow> unat ((x :: usize) + of_nat i) mod 2 ^ k = (unat x + i) mod 2 ^ k"
proof -
  assume "k < 64"
  then have "(2 :: nat) ^ k dvd 2 ^ 64" by (intro le_imp_power_dvd) simp
  moreover have "unat (x + of_nat i) = (unat x + i) mod 2 ^ 64"
    by (simp add: unat_word_ariths unat_of_nat mod_simps)
  ultimately show ?thesis by (simp add: mod_mod_cancel)
qed

lemma rg_get_at: "rg_ok k r \<Longrightarrow> rg_get r (x + of_nat i) = rg_buf r ! ((unat x + i) mod 2 ^ k)"
  by (simp add: rg_get_def rg_ok_def mask_index unat_add_mod)

lemma rg_put_at: "rg_ok k r \<Longrightarrow> rg_put (x + of_nat i) v r = r\<lparr>rg_buf := (rg_buf r)[(unat x + i) mod 2 ^ k := v]\<rparr>"
  by (simp add: rg_put_def rg_ok_def mask_index unat_add_mod)

lemma rg_put_ok [simp]: "rg_ok k (rg_put at v r) = rg_ok k r" "rg_tail (rg_put at v r) = rg_tail r" "rg_head (rg_put at v r) = rg_head r"
  by (simp_all add: rg_put_def rg_ok_def)

lemma mod_inj_window: "i < (m :: nat) \<Longrightarrow> j < m \<Longrightarrow> (x + i) mod m = (x + j) mod m \<Longrightarrow> i = j"
proof (induction i j rule: linorder_wlog)
  case (le i j)
  then have "m dvd (x + j) - (x + i)" using mod_eq_dvd_iff_nat [of "x + i" "x + j" m] by simp
  then have "m dvd j - i" by simp
  then show ?case using le by (auto dest: dvd_imp_le)
next
  case (sym i j)
  then show ?case by simp
qed

abbreviation ix :: "nat \<Rightarrow> usize \<Rightarrow> nat \<Rightarrow> nat" where
  "ix k x i \<equiv> (unat x + i) mod 2 ^ k"

lemma ix_less: "ix k x i < 2 ^ k"
  by simp

lemma ix_add: "k < 64 \<Longrightarrow> ix k (x + of_nat n) i = ix k x (n + i)"
  using unat_add_mod [of k x n] by (metis add.assoc mod_add_left_eq)

lemma get_bytes_eq: "rg_ok k r \<Longrightarrow> get_bytes n (x + of_nat o') r = map (\<lambda>i. rg_buf r ! ix k x i) [o'..<o' + n]"
proof (induction n arbitrary: o')
  case (Suc n)
  show ?case using Suc.IH [of "Suc o'"] Suc.prems rg_get_at [OF Suc.prems, of x o']
    by (simp add: upt_rec [of o'] ac_simps del: upt_Suc)
qed simp

subsection \<open>The queue a ring stands for\<close>

definition enc :: "bytes \<Rightarrow> bytes" where
  "enc m = to_le_bytes (length m) @ m"

definition enc_all :: "bytes list \<Rightarrow> bytes" where
  "enc_all qs = concat (map enc qs)"

definition rg_rep :: "nat \<Rightarrow> ring \<Rightarrow> bytes list \<Rightarrow> bool" where
  "rg_rep k r qs \<longleftrightarrow> rg_ok k r \<and> list_all (\<lambda>m. length m \<le> U32_MAX) qs \<and> unat (rg_tail r - rg_head r) = length (enc_all qs) \<and>
     (\<forall>i < length (enc_all qs). rg_buf r ! ix k (rg_head r) i = enc_all qs ! i)"

lemma length_enc [simp]: "length (enc m) = 4 + length m"
  by (simp add: enc_def to_le_bytes_def)

lemma enc_all_simps [simp]: "enc_all [] = []" "enc_all (m # qs) = enc m @ enc_all qs" "enc_all (qs @ qs') = enc_all qs @ enc_all qs'"
  by (simp_all add: enc_all_def)

lemma horner4: "(w :: nat) + 256 * (x + 256 * (y + 256 * z)) = w + 256 * x + 65536 * y + 16777216 * z"
  by simp

lemma le_bytes_round: "n \<le> U32_MAX \<Longrightarrow> from_le_bytes (to_le_bytes n) = n"
proof -
  assume "n \<le> U32_MAX"
  then have "n < 256 * 16777216" by simp
  then have top: "n div 16777216 mod 256 = n div 16777216" by (intro mod_less less_mult_imp_div_less)
  have split: "m mod 256 + 256 * (m div 256) = m" for m :: nat by (rule mod_mult_div_eq)
  have d: "n div 65536 = n div 256 div 256" "n div 16777216 = n div 65536 div 256" by (simp_all flip: div_mult2_eq)
  have u: "unat (of_nat m :: byte) = m mod 256" for m by (simp add: unat_of_nat)
  have "from_le_bytes (to_le_bytes n) = n mod 256 + 256 * (n div 256 mod 256 + 256 * (n div 65536 mod 256 + 256 * (n div 16777216)))"
    unfolding horner4 from_le_bytes_def to_le_bytes_def by (simp add: u top del: unsigned_of_nat of_nat_div)
  also have "\<dots> = n" unfolding d(2) split unfolding d(1) split by (rule refl)
  finally show ?thesis .
qed

lemma rep_used: "rg_rep k r qs \<Longrightarrow> rg_tail r = rg_head r + of_nat (length (enc_all qs)) \<and> length (enc_all qs) \<le> 2 ^ k \<and> k < 64 \<and> rg_ok k r"
proof -
  assume rep: "rg_rep k r qs"
  then have u: "unat (rg_tail r - rg_head r) = length (enc_all qs)" "rg_ok k r" by (simp_all add: rg_rep_def)
  have "of_nat (unat (rg_tail r - rg_head r)) = rg_tail r - rg_head r" by simp
  then have "rg_tail r = rg_head r + of_nat (length (enc_all qs))" unfolding u(1) by simp
  then show ?thesis using u by (simp add: rg_ok_def)
qed

lemma rep_free: "rg_rep k r qs \<Longrightarrow> rg_free r = 2 ^ k - length (enc_all qs)"
  by (simp add: rg_free_def rg_rep_def rg_ok_def)

text \<open>What lies behind the tail is nobody's business: a byte written there leaves the queue as it is.\<close>

lemma rep_put_behind:
  assumes "rg_rep k r qs" "length (enc_all qs) + i < 2 ^ k"
  shows "rg_rep k (rg_put (rg_tail r + of_nat i) v r) qs"
proof -
  let ?n = "length (enc_all qs)"
  have u: "rg_tail r = rg_head r + of_nat ?n" "k < 64" "rg_ok k r" using rep_used [OF assms(1)] by simp_all
  have at: "rg_tail r + of_nat i = rg_head r + of_nat (?n + i)" using u(1) by simp
  have "(rg_buf r)[ix k (rg_head r) (?n + i) := v] ! ix k (rg_head r) j = rg_buf r ! ix k (rg_head r) j" if "j < ?n" for j
    using mod_inj_window [of j "2 ^ k" "?n + i" "unat (rg_head r)"] that assms(2) by (intro nth_list_update_neq) auto
  then show ?thesis
    using assms(1) rg_put_at [OF u(3), of "rg_head r" "?n + i" v] unfolding at rg_rep_def by (auto simp: rg_ok_def)
qed


text \<open>A record is written behind the tail and published by moving the tail over it.\<close>

definition written :: "nat \<Rightarrow> ring \<Rightarrow> bytes \<Rightarrow> nat \<Rightarrow> bool" where
  "written k r xs i \<longleftrightarrow> (\<forall>j < i. rg_buf r ! ix k (rg_tail r) j = xs ! j)"

lemma written_step:
  assumes "rg_ok k r" "written k r xs i" "i < 2 ^ k"
  shows "written k (rg_put (rg_tail r + of_nat i) (xs ! i) r) xs (Suc i)"
proof -
  have "length (rg_buf r) = 2 ^ k" using assms(1) by (simp add: rg_ok_def)
  moreover have "ix k (rg_tail r) i = ix k (rg_tail r) j \<longleftrightarrow> i = j" if "j \<le> i" for j
    using mod_inj_window [of j "2 ^ k" i "unat (rg_tail r)"] that assms(3) by auto
  ultimately have "(rg_buf r)[ix k (rg_tail r) i := xs ! i] ! ix k (rg_tail r) j = (if i = j then xs ! i else rg_buf r ! ix k (rg_tail r) j)"
    if "j \<le> i" for j using that by (simp add: nth_list_update)
  then show ?thesis using assms(2) unfolding rg_put_at [OF assms(1)] written_def by (simp add: less_Suc_eq_le)
qed

lemma write_all:
  assumes "rg_rep k r qs" "length (enc_all qs) + length xs \<le> 2 ^ k" "i \<le> length xs" "written k r xs i"
  shows "\<exists>r'. put_all_bytes (drop i xs) (rg_tail r + of_nat i) r = (rg_tail r + of_nat (length xs), r') \<and>
    rg_rep k r' qs \<and> rg_tail r' = rg_tail r \<and> written k r' xs (length xs)"
  using assms
proof (induction "length xs - i" arbitrary: i r)
  case (Suc n)
  let ?r = "rg_put (rg_tail r + of_nat i) (xs ! i) r"
  have i: "i < length xs" using Suc.hyps(2) by simp
  have r: "rg_rep k ?r qs" using Suc.prems i by (intro rep_put_behind) simp_all
  have w: "written k ?r xs (Suc i)" using Suc.prems i by (intro written_step) (simp_all add: rg_rep_def)
  have d: "drop i xs = xs ! i # drop (Suc i) xs" by (rule Cons_nth_drop_Suc [OF i, symmetric])
  have n: "n = length xs - Suc i" using Suc.hyps(2) by simp
  have le: "Suc i \<le> length xs" using i by simp
  show ?case using Suc.hyps(1) [OF n r Suc.prems(2) le w] by (simp add: d ac_simps)
qed auto

lemma rep_publish:
  assumes "rg_rep k r qs" "length m \<le> U32_MAX" "length (enc_all qs) + length (enc m) \<le> 2 ^ k" "written k r (enc m) (length (enc m))"
  shows "rg_rep k (r\<lparr>rg_tail := rg_tail r + of_nat (length (enc m))\<rparr>) (qs @ [m])"
proof -
  let ?n = "length (enc_all qs)" and ?l = "length (enc m)"
  have u: "rg_tail r = rg_head r + of_nat ?n" "k < 64" "rg_ok k r" using rep_used [OF assms(1)] by simp_all
  have used: "unat (of_nat (?n + ?l) :: usize) = ?n + ?l" using assms(3) u(2) by (rule unat_small)
  have tail: "rg_tail r + of_nat ?l - rg_head r = of_nat (?n + ?l)" using u(1) by simp
  have byte: "rg_buf r ! ix k (rg_head r) i = (enc_all qs @ enc m) ! i" if "i < ?n + ?l" for i
  proof (cases "i < ?n")
    case True
    then show ?thesis using assms(1) by (simp add: rg_rep_def nth_append)
  next
    case False
    then have "i - ?n < ?l" using that by linarith
    then have "rg_buf r ! ix k (rg_tail r) (i - ?n) = enc m ! (i - ?n)" using assms(4) unfolding written_def by blast
    moreover have "ix k (rg_tail r) (i - ?n) = ix k (rg_head r) i" using False ix_add [OF u(2), of "rg_head r" ?n "i - ?n"] by (simp flip: u(1))
    ultimately show ?thesis using False by (simp add: nth_append)
  qed
  show ?thesis unfolding rg_rep_def using u(3) assms(1,2,3) byte by (simp add: rg_ok_def tail used rg_rep_def del: of_nat_add length_enc)
qed

lemma rep_pop:
  assumes "rg_rep k r (m # qs)"
  shows "rg_rep k (r\<lparr>rg_head := rg_head r + of_nat (length (enc m))\<rparr>) qs"
proof -
  let ?n = "length (enc_all qs)" and ?l = "length (enc m)"
  have u: "rg_tail r = rg_head r + of_nat (?l + ?n)" "?l + ?n \<le> 2 ^ k" "k < 64" "rg_ok k r" using rep_used [OF assms] by simp_all
  have used: "unat (of_nat ?n :: usize) = ?n" using u(2,3) by (intro unat_small [of _ k]) simp_all
  have tail: "rg_tail r - (rg_head r + of_nat ?l) = of_nat ?n" using u(1) by simp
  have "rg_buf r ! ix k (rg_head r + of_nat ?l) i = enc_all qs ! i" if "i < ?n" for i
    using assms that by (simp add: ix_add [OF u(3)] rg_rep_def nth_append del: length_enc)
  then show ?thesis unfolding rg_rep_def using u assms by (simp add: rg_ok_def tail used rg_rep_def del: length_enc)
qed

lemma rep_get:
  assumes "rg_rep k r qs" "o' + n \<le> length (enc_all qs)"
  shows "get_bytes n (rg_head r + of_nat o') r = take n (drop o' (enc_all qs))"
proof -
  have "get_bytes n (rg_head r + of_nat o') r = map (\<lambda>i. rg_buf r ! ix k (rg_head r) i) [o'..<o' + n]"
    using assms(1) by (intro get_bytes_eq) (simp add: rg_rep_def)
  also have "\<dots> = map ((!) (enc_all qs)) [o'..<o' + n]" using assms by (auto simp: rg_rep_def)
  also have "\<dots> = take n (drop o' (enc_all qs))" using assms(2) by (intro nth_equalityI) auto
  finally show ?thesis .
qed

subsection \<open>Push and pop\<close>

lemma concat_le: "concat (to_le_bytes (sum_list (map length parts)) # parts) = enc (concat parts)"
  by (simp add: enc_def length_concat)

definition rg_accepts :: "nat \<Rightarrow> bytes list \<Rightarrow> bytes \<Rightarrow> bool" where
  "rg_accepts k qs m \<longleftrightarrow> length m \<le> U32_MAX \<and> length (enc_all qs) + length (enc m) \<le> 2 ^ k"

lemma push_refines:
  assumes "rg_rep k r qs"
  shows "\<exists>r'. rg_push parts r = (rg_accepts k qs (concat parts), r') \<and>
    (if rg_accepts k qs (concat parts) then rg_rep k r' (qs @ [concat parts]) else r' = r)"
proof -
  define m where "m = concat parts"
  have used: "length (enc_all qs) \<le> 2 ^ k" using rep_used [OF assms] by simp
  have len: "sum_list (map length parts) = length m" by (simp add: m_def length_concat)
  have fits: "rg_fits (length m) r \<longleftrightarrow> length (enc_all qs) + length (enc m) \<le> 2 ^ k"
    using used by (auto simp: rg_fits_def rep_free [OF assms])
  show ?thesis
  proof (cases "rg_accepts k qs m")
    case True
    then have m: "length m \<le> U32_MAX" "length (enc_all qs) + length (enc m) \<le> 2 ^ k" by (simp_all only: rg_accepts_def)
    obtain r' where r': "put_all_bytes (enc m) (rg_tail r) r = (rg_tail r + of_nat (length (enc m)), r')" "rg_rep k r' qs"
        "rg_tail r' = rg_tail r" "written k r' (enc m) (length (enc m))"
      using write_all [OF assms m(2), of 0] by (auto simp: written_def)
    have "rg_push parts r = (True, r'\<lparr>rg_tail := rg_tail r' + of_nat (length (enc m))\<rparr>)"
      using m(1) r'(1,3) fits [THEN iffD2, OF m(2)] by (simp add: rg_push_def Let_def len enc_def flip: m_def)
    then show ?thesis using True rep_publish [OF r'(2) m r'(4)] by (simp add: m_def del: length_enc)
  next
    case False
    then show ?thesis unfolding m_def [symmetric] using fits by (auto simp: rg_push_def Let_def len rg_accepts_def)
  qed
qed

lemma pop_refines:
  assumes "rg_rep k r (m # qs)"
  shows "\<exists>r'. rg_pop out r = (if length m \<le> length out then (Some (length m), m @ drop (length m) out, r') else (Some 0, out, r')) \<and>
    rg_rep k r' qs"
proof -
  let ?l = "length (enc m)"
  have u: "unat (rg_tail r - rg_head r) = ?l + length (enc_all qs)" "length m \<le> U32_MAX" using assms by (simp_all add: rg_rep_def)
  have r': "rg_rep k (r\<lparr>rg_head := rg_head r + of_nat ?l\<rparr>) qs" by (rule rep_pop [OF assms])
  have len: "from_le_bytes (get_bytes HEADER (rg_head r) r) = length m"
    using rep_get [OF assms, of 0 4] le_bytes_round [OF u(2)] by (simp add: enc_def to_le_bytes_def)
  have bytes: "get_bytes (length m) (rg_head r + 4) r = m"
    using rep_get [OF assms, of 4 "length m"] by (simp add: enc_def to_le_bytes_def)
  have "rg_tail (r\<lparr>rg_head := rg_head r + of_nat ?l\<rparr>) - (rg_head r + 4) = of_nat (length m + length (enc_all qs))"
    using rep_used [OF assms] by simp
  then have rest: "unat (rg_tail r - (rg_head r + 4)) = length m + length (enc_all qs)"
    using rep_used [OF assms] unat_small [of "length m + length (enc_all qs)" k] by simp
  show ?thesis using u(1) rest r' by (auto simp: rg_pop_def Let_def len bytes add.assoc)
qed

lemma pop_empty:
  assumes "rg_rep k r []"
  shows "rg_pop out r = (None, out, r)"
  using assms by (simp add: rg_pop_def rg_rep_def)

lemma pow2_from_power: "n \<le> 2 ^ K \<Longrightarrow> j \<le> K \<Longrightarrow> \<exists>k \<le> K. pow2_from (2 ^ j) n = 2 ^ k \<and> n \<le> 2 ^ k"
proof (induction "K - j" arbitrary: j)
  case 0
  then show ?case by (subst pow2_from.simps) auto
next
  case (Suc d)
  have "\<exists>k \<le> K. pow2_from (2 ^ Suc j) n = 2 ^ k \<and> n \<le> 2 ^ k" using Suc.hyps(2) Suc.prems by (intro Suc.hyps(1)) simp_all
  then show ?case using Suc.prems by (subst pow2_from.simps) auto
qed

lemma pair_rep: "capacity \<le> 2 ^ 63 \<Longrightarrow> \<exists>k. rg_rep k (rg_pair capacity) [] \<and> capacity \<le> 2 ^ k"
proof -
  assume "capacity \<le> 2 ^ 63"
  then obtain k where k: "k \<le> 63" "pow2_from 1 capacity = 2 ^ k" "capacity \<le> 2 ^ k"
    using pow2_from_power [of capacity 63 0] by auto
  have "(of_nat (2 ^ k - 1) :: usize) = mask k" by (simp add: mask_eq_exp_minus_1 of_nat_diff)
  moreover have "max ((2 :: nat) ^ k) 1 = 2 ^ k" by (simp add: max_absorb1)
  ultimately show ?thesis using k by (intro exI [of _ k]) (simp add: rg_rep_def rg_ok_def rg_pair_def Let_def)
qed

subsection \<open>Two threads\<close>

text \<open>
  The producer and the consumer at the granularity of their loads and stores: a producer reads the
  head once (\<open>fits\<close>), writes byte by byte and publishes the tail; a consumer reads the tail once,
  reads byte by byte and publishes the head. \<open>wd_pushed\<close> and \<open>wd_popped\<close> are what went in and what the
  calls of \<open>pop\<close> answered, \<open>None\<close> for a record longer than the buffer of the caller, and \<open>wd_torn\<close>
  says that a header promised more than was published.
\<close>

record rg_world =
  wd_ring :: ring
  wd_prod :: "(bytes \<times> nat) option"
  wd_cons :: "(usize \<times> bytes) option"
  wd_pushed :: "bytes list"
  wd_popped :: "bytes option list"
  wd_torn :: bool

abbreviation rg_promised :: "usize \<Rightarrow> bytes \<Rightarrow> ring \<Rightarrow> bool" where
  "rg_promised t got r \<equiv> from_le_bytes got \<le> unat (t - (rg_head r + 4))"

inductive rg_step :: "nat \<Rightarrow> rg_world \<Rightarrow> rg_world \<Rightarrow> bool" for n where
  push_begin: "wd_prod w = None \<Longrightarrow> length m \<le> U32_MAX \<Longrightarrow> rg_fits (length m) (wd_ring w) \<Longrightarrow>
    rg_step n w (w\<lparr>wd_prod := Some (m, 0)\<rparr>)"
| push_byte: "wd_prod w = Some (m, i) \<Longrightarrow> i < length (enc m) \<Longrightarrow>
    rg_step n w (w\<lparr>wd_ring := rg_put (rg_tail (wd_ring w) + of_nat i) (enc m ! i) (wd_ring w), wd_prod := Some (m, Suc i)\<rparr>)"
| push_publish: "wd_prod w = Some (m, i) \<Longrightarrow> i = length (enc m) \<Longrightarrow>
    rg_step n w (w\<lparr>wd_ring := (wd_ring w)\<lparr>rg_tail := rg_tail (wd_ring w) + of_nat i\<rparr>, wd_prod := None, wd_pushed := wd_pushed w @ [m]\<rparr>)"
| pop_begin: "wd_cons w = None \<Longrightarrow> HEADER \<le> unat (rg_tail (wd_ring w) - rg_head (wd_ring w)) \<Longrightarrow>
    rg_step n w (w\<lparr>wd_cons := Some (rg_tail (wd_ring w), [])\<rparr>)"
| pop_byte: "wd_cons w = Some (t, got) \<Longrightarrow>
    length got < HEADER \<or> rg_promised t (take 4 got) (wd_ring w) \<and> from_le_bytes (take 4 got) \<le> n \<and> length got < HEADER + from_le_bytes (take 4 got) \<Longrightarrow>
    rg_step n w (w\<lparr>wd_cons := Some (t, got @ [rg_get (wd_ring w) (rg_head (wd_ring w) + of_nat (length got))])\<rparr>)"
| pop_torn: "wd_cons w = Some (t, got) \<Longrightarrow> length got = HEADER \<Longrightarrow> \<not> rg_promised t got (wd_ring w) \<Longrightarrow>
    rg_step n w (w\<lparr>wd_cons := None, wd_torn := True\<rparr>)"
| pop_long: "wd_cons w = Some (t, got) \<Longrightarrow> length got = HEADER \<Longrightarrow> rg_promised t got (wd_ring w) \<Longrightarrow> n < from_le_bytes got \<Longrightarrow>
    rg_step n w (w\<lparr>wd_ring := (wd_ring w)\<lparr>rg_head := rg_head (wd_ring w) + of_nat (HEADER + from_le_bytes got)\<rparr>, wd_cons := None,
      wd_popped := wd_popped w @ [None]\<rparr>)"
| pop_publish: "wd_cons w = Some (t, got) \<Longrightarrow> HEADER \<le> length got \<Longrightarrow> rg_promised t (take 4 got) (wd_ring w) \<Longrightarrow>
    length got = HEADER + from_le_bytes (take 4 got) \<Longrightarrow> from_le_bytes (take 4 got) \<le> n \<Longrightarrow>
    rg_step n w (w\<lparr>wd_ring := (wd_ring w)\<lparr>rg_head := rg_head (wd_ring w) + of_nat (length got)\<rparr>, wd_cons := None,
      wd_popped := wd_popped w @ [Some (drop 4 got)]\<rparr>)"

definition rg_start :: "nat \<Rightarrow> rg_world" where
  "rg_start capacity = \<lparr>wd_ring = rg_pair capacity, wd_prod = None, wd_cons = None, wd_pushed = [], wd_popped = [], wd_torn = False\<rparr>"

definition rg_answer :: "nat \<Rightarrow> bytes \<Rightarrow> bytes option" where
  "rg_answer n m = (if length m \<le> n then Some m else None)"

fun rg_producing :: "nat \<Rightarrow> ring \<Rightarrow> (bytes \<times> nat) option \<Rightarrow> bytes list \<Rightarrow> bool" where
  "rg_producing k r None qs \<longleftrightarrow> True"
| "rg_producing k r (Some (m, i)) qs \<longleftrightarrow> i \<le> length (enc m) \<and> rg_accepts k qs m \<and> written k r (enc m) i"

fun rg_consuming :: "usize \<Rightarrow> (usize \<times> bytes) option \<Rightarrow> bytes list \<Rightarrow> bool" where
  "rg_consuming head None qs \<longleftrightarrow> True"
| "rg_consuming head (Some (t, got)) qs \<longleftrightarrow>
     (\<exists>m ms rest. qs = m # ms @ rest \<and> t = head + of_nat (length (enc_all (m # ms))) \<and> got = take (length got) (enc m))"

definition rg_world_ok :: "nat \<Rightarrow> nat \<Rightarrow> rg_world \<Rightarrow> bytes list \<Rightarrow> bool" where
  "rg_world_ok k n w qs \<longleftrightarrow> rg_rep k (wd_ring w) qs \<and> rg_producing k (wd_ring w) (wd_prod w) qs \<and> rg_consuming (rg_head (wd_ring w)) (wd_cons w) qs \<and> \<not> wd_torn w \<and>
     map (rg_answer n) (wd_pushed w) = wd_popped w @ map (rg_answer n) qs"

lemma consuming_header:
  assumes "rg_rep k r (m # qs)" "got = take (length got) (enc m)" "HEADER \<le> length got"
  shows "from_le_bytes (take 4 got) = length m"
proof -
  have "take 4 got = to_le_bytes (length m)" using assms(2,3) by (metis enc_def append_eq_conv_conj min.absorb1 take_take length_enc add_diff_cancel_left' length_append add_right_cancel)
  then show ?thesis using le_bytes_round assms(1) by (simp add: rg_rep_def)
qed

lemma consuming_promised:
  assumes "rg_rep k r (m # ms @ rest)" "t = rg_head r + of_nat (length (enc_all (m # ms)))"
  shows "length m \<le> unat (t - (rg_head r + 4))"
proof -
  have "t - (rg_head r + 4) = of_nat (length m + length (enc_all ms))" using assms(2) by simp
  moreover have "length m + length (enc_all ms) \<le> 2 ^ k" "k < 64" using rep_used [OF assms(1)] by simp_all
  ultimately show ?thesis using unat_small [of "length m + length (enc_all ms)" k] by simp
qed

lemma consuming_obtain:
  assumes "rg_world_ok k n w qs" "wd_cons w = Some (t, got)"
  obtains m ms rest where "qs = m # ms @ rest" "t = rg_head (wd_ring w) + of_nat (length (enc_all (m # ms)))" "got = take (length got) (enc m)"
    "length m \<le> unat (t - (rg_head (wd_ring w) + 4))" "HEADER \<le> length got \<longrightarrow> from_le_bytes (take 4 got) = length m"
proof -
  from assms obtain m ms rest where q: "qs = m # ms @ rest" "t = rg_head (wd_ring w) + of_nat (length (enc_all (m # ms)))" "got = take (length got) (enc m)"
    by (auto simp: rg_world_ok_def)
  have rep: "rg_rep k (wd_ring w) (m # ms @ rest)" using assms(1) q(1) by (simp add: rg_world_ok_def)
  show ?thesis using that [OF q] consuming_promised [OF rep q(2)] consuming_header [OF rep q(3)] by blast
qed

lemma consuming_longer: "rg_consuming head c qs \<Longrightarrow> rg_consuming head c (qs @ qs')"
proof (induction head c qs rule: rg_consuming.induct)
  case (2 head t got qs)
  then obtain m ms rest where "qs = m # ms @ rest" "t = head + of_nat (length (enc_all (m # ms)))" "got = take (length got) (enc m)" by auto
  then have "qs @ qs' = m # ms @ rest @ qs' \<and> t = head + of_nat (length (enc_all (m # ms))) \<and> got = take (length got) (enc m)" by simp
  then show ?case unfolding rg_consuming.simps by blast
qed simp

lemma accepts_shorter: "rg_accepts k (m # qs) x \<Longrightarrow> rg_accepts k qs x"
  by (simp add: rg_accepts_def)

lemma world_popped:
  assumes "rg_world_ok k n w (m # qs)"
  shows "rg_world_ok k n (w\<lparr>wd_ring := (wd_ring w)\<lparr>rg_head := rg_head (wd_ring w) + of_nat (length (enc m))\<rparr>, wd_cons := None,
    wd_popped := wd_popped w @ [rg_answer n m]\<rparr>) qs"
  using assms rep_pop [of k "wd_ring w" m qs] accepts_shorter [of k m qs]
  by (cases "wd_prod w") (auto simp: rg_world_ok_def written_def simp del: length_enc)

lemma world_push_begin:
  assumes "wd_prod w = None" "length m \<le> U32_MAX" "rg_fits (length m) (wd_ring w)" "rg_world_ok k n w qs"
  shows "rg_world_ok k n (w\<lparr>wd_prod := Some (m, 0)\<rparr>) qs"
proof -
  have rep: "rg_rep k (wd_ring w) qs" using assms(4) by (simp add: rg_world_ok_def)
  have "rg_accepts k qs m" using rep_used [OF rep] assms(2,3) by (auto simp: rg_accepts_def rg_fits_def rep_free [OF rep])
  then show ?thesis using assms(4) by (simp add: rg_world_ok_def written_def)
qed

lemma world_push_byte:
  assumes "wd_prod w = Some (m, i)" "i < length (enc m)" "rg_world_ok k n w qs"
  shows "rg_world_ok k n (w\<lparr>wd_ring := rg_put (rg_tail (wd_ring w) + of_nat i) (enc m ! i) (wd_ring w), wd_prod := Some (m, Suc i)\<rparr>) qs"
proof -
  let ?r = "wd_ring w"
  have room: "length (enc_all qs) + length (enc m) \<le> 2 ^ k" and rep: "rg_rep k ?r qs" and wr: "written k ?r (enc m) i"
    using assms by (simp_all add: rg_world_ok_def rg_accepts_def)
  have "rg_rep k (rg_put (rg_tail ?r + of_nat i) (enc m ! i) ?r) qs" using rep room assms(2) by (intro rep_put_behind) simp_all
  moreover have "written k (rg_put (rg_tail ?r + of_nat i) (enc m ! i) ?r) (enc m) (Suc i)"
    using rep wr room assms(2) by (intro written_step) (simp_all add: rg_rep_def)
  ultimately show ?thesis using assms by (simp add: rg_world_ok_def)
qed

lemma world_push_publish:
  assumes "wd_prod w = Some (m, length (enc m))" "rg_world_ok k n w qs"
  shows "rg_world_ok k n (w\<lparr>wd_ring := (wd_ring w)\<lparr>rg_tail := rg_tail (wd_ring w) + of_nat (length (enc m))\<rparr>,
    wd_prod := None, wd_pushed := wd_pushed w @ [m]\<rparr>) (qs @ [m])"
proof -
  let ?r = "wd_ring w"
  have m: "length m \<le> U32_MAX" "length (enc_all qs) + length (enc m) \<le> 2 ^ k" and rep: "rg_rep k ?r qs" and wr: "written k ?r (enc m) (length (enc m))"
    using assms by (simp_all add: rg_world_ok_def rg_accepts_def)
  show ?thesis using rep_publish [OF rep m wr] assms consuming_longer [of "rg_head ?r" "wd_cons w" qs "[m]"]
    by (simp add: rg_world_ok_def del: length_enc)
qed

lemma world_pop_begin:
  assumes "HEADER \<le> unat (rg_tail (wd_ring w) - rg_head (wd_ring w))" "rg_world_ok k n w qs"
  shows "rg_world_ok k n (w\<lparr>wd_cons := Some (rg_tail (wd_ring w), [])\<rparr>) qs"
proof -
  have rep: "rg_rep k (wd_ring w) qs" using assms(2) by (simp add: rg_world_ok_def)
  then have "qs \<noteq> []" using assms(1) by (auto simp: rg_rep_def)
  then obtain m ms where "qs = m # ms @ []" by (cases qs) auto
  moreover from this have "rg_tail (wd_ring w) = rg_head (wd_ring w) + of_nat (length (enc_all (m # ms)))" using rep_used [OF rep] by simp
  moreover have "[] = take (length ([] :: bytes)) (enc m)" by simp
  ultimately have "rg_consuming (rg_head (wd_ring w)) (Some (rg_tail (wd_ring w), [])) qs" unfolding rg_consuming.simps by blast
  then show ?thesis using assms(2) by (simp add: rg_world_ok_def del: rg_consuming.simps)
qed

lemma world_pop_byte:
  assumes "wd_cons w = Some (t, got)" "rg_world_ok k n w qs" "length got < HEADER \<or> length got < HEADER + from_le_bytes (take 4 got)"
  defines "x \<equiv> rg_get (wd_ring w) (rg_head (wd_ring w) + of_nat (length got))"
  shows "rg_world_ok k n (w\<lparr>wd_cons := Some (t, got @ [x])\<rparr>) qs"
proof -
  from assms(2,1) obtain m ms rest where q: "qs = m # ms @ rest" "t = rg_head (wd_ring w) + of_nat (length (enc_all (m # ms)))"
      "got = take (length got) (enc m)" "HEADER \<le> length got \<longrightarrow> from_le_bytes (take 4 got) = length m"
    by (rule consuming_obtain)
  have rep: "rg_rep k (wd_ring w) qs" using assms(2) by (simp add: rg_world_ok_def)
  have lt: "length got < length (enc m)" using assms(3) q(4) by (cases "HEADER \<le> length got") simp_all
  have one: "take 1 (drop (length got) (enc_all qs)) = [enc m ! length got]"
    using lt q(1) by (simp add: nth_append take_Suc_conv_app_nth hd_drop_conv_nth take_Suc drop_eq_Nil del: length_enc)
  have "length got + 1 \<le> length (enc_all qs)" using lt q(1) by simp
  then have "[x] = [enc m ! length got]" using rep_get [OF rep, of "length got" 1] unfolding one x_def by simp
  then have "got @ [x] = take (length (got @ [x])) (enc m)" using take_Suc_conv_app_nth [OF lt] by (simp flip: q(3))
  with q(1,2) have "rg_consuming (rg_head (wd_ring w)) (Some (t, got @ [x])) qs" unfolding rg_consuming.simps by blast
  then show ?thesis using assms(2) by (simp add: rg_world_ok_def del: rg_consuming.simps)
qed

lemma world_step: "rg_step n w w' \<Longrightarrow> rg_world_ok k n w qs \<Longrightarrow> \<exists>qs'. rg_world_ok k n w' qs'"
proof (induction rule: rg_step.induct)
  case (push_begin w m)
  then show ?case by (blast intro: world_push_begin)
next
  case (push_byte w m i)
  then show ?case by (blast intro: world_push_byte)
next
  case (push_publish w m i)
  then show ?case using world_push_publish [of w m k n qs] by blast
next
  case (pop_begin w)
  then show ?case by (blast intro: world_pop_begin)
next
  case (pop_byte w t got)
  then show ?case by (blast intro: world_pop_byte)
next
  case (pop_torn w t got)
  from pop_torn(4,1) show ?case by (rule consuming_obtain) (use pop_torn(2,3) in simp)
next
  case (pop_long w t got)
  from pop_long(5,1) obtain m ms rest where q: "qs = m # ms @ rest" "HEADER \<le> length got \<longrightarrow> from_le_bytes (take 4 got) = length m"
    by (rule consuming_obtain)
  then have len: "from_le_bytes got = length m" using pop_long(2) by simp
  have w: "rg_world_ok k n w (m # ms @ rest)" using pop_long(5) q(1) by simp
  show ?case using world_popped [OF w] pop_long(4) unfolding len rg_answer_def length_enc by (intro exI [of _ "ms @ rest"]) simp
next
  case (pop_publish w t got)
  from pop_publish(6,1) obtain m ms rest where q: "qs = m # ms @ rest" "got = take (length got) (enc m)"
      "HEADER \<le> length got \<longrightarrow> from_le_bytes (take 4 got) = length m"
    by (rule consuming_obtain)
  then have len: "from_le_bytes (take 4 got) = length m" using pop_publish(2) by simp
  then have "length (enc m) \<le> length got" using pop_publish(4) by simp
  then have got: "got = enc m" using q(2) by (metis take_all)
  have w: "rg_world_ok k n w (m # ms @ rest)" using pop_publish(6) q(1) by simp
  have "drop 4 got = m" unfolding got by (simp add: enc_def to_le_bytes_def)
  then have ans: "rg_answer n m = Some (drop 4 got)" using pop_publish(5) len by (simp add: rg_answer_def)
  show ?case using world_popped [OF w] unfolding ans got by blast
qed

text \<open>The operations are runs of the threads, so the step relation adds interleavings and nothing else.\<close>

lemma put_all_bytes_end: "fst (put_all_bytes xs at r) = at + of_nat (length xs)" "rg_tail (snd (put_all_bytes xs at r)) = rg_tail r"
  by (induction xs arbitrary: at r) (simp_all add: ac_simps)

lemma put_steps:
  "wd_prod w = Some (m, i) \<Longrightarrow> i \<le> length (enc m) \<Longrightarrow>
   (rg_step n)\<^sup>*\<^sup>* w (w\<lparr>wd_ring := snd (put_all_bytes (drop i (enc m)) (rg_tail (wd_ring w) + of_nat i) (wd_ring w)), wd_prod := Some (m, length (enc m))\<rparr>)"
proof (induction "length (enc m) - i" arbitrary: i w)
  case 0
  then have i: "i = length (enc m)" by simp
  have "w\<lparr>wd_ring := wd_ring w, wd_prod := Some (m, length (enc m))\<rparr> = w" using 0 i by simp
  then show ?case by (simp add: i)
next
  case (Suc d)
  define w1 where "w1 = w\<lparr>wd_ring := rg_put (rg_tail (wd_ring w) + of_nat i) (enc m ! i) (wd_ring w), wd_prod := Some (m, Suc i)\<rparr>"
  have i: "i < length (enc m)" "d = length (enc m) - Suc i" "Suc i \<le> length (enc m)" using Suc.hyps(2) by linarith+
  have "rg_step n w w1" unfolding w1_def using Suc.prems(1) i(1) by (rule rg_step.push_byte)
  moreover have "(rg_step n)\<^sup>*\<^sup>* w1 (w1\<lparr>wd_ring := snd (put_all_bytes (drop (Suc i) (enc m)) (rg_tail (wd_ring w1) + of_nat (Suc i)) (wd_ring w1)), wd_prod := Some (m, length (enc m))\<rparr>)"
    using i by (intro Suc.hyps(1)) (simp_all add: w1_def)
  ultimately show ?case using Cons_nth_drop_Suc [OF i(1), symmetric] by (simp add: w1_def ac_simps converse_rtranclp_into_rtranclp del: length_enc)
qed

lemma push_steps:
  assumes "rg_push parts (wd_ring w) = (True, r')" "wd_prod w = None"
  shows "(rg_step n)\<^sup>*\<^sup>* w (w\<lparr>wd_ring := r', wd_pushed := wd_pushed w @ [concat parts]\<rparr>)"
proof -
  let ?m = "concat parts" and ?r = "wd_ring w"
  have len: "sum_list (map length parts) = length ?m" by (simp add: length_concat)
  define w1 where "w1 = w\<lparr>wd_prod := Some (?m, 0)\<rparr>"
  define w2 where "w2 = w1\<lparr>wd_ring := snd (put_all_bytes (enc ?m) (rg_tail ?r) ?r), wd_prod := Some (?m, length (enc ?m))\<rparr>"
  have c: "length ?m \<le> U32_MAX" "rg_fits (length ?m) ?r" using assms(1) by (auto simp: rg_push_def Let_def len split: if_splits)
  have r': "r' = (snd (put_all_bytes (enc ?m) (rg_tail ?r) ?r))\<lparr>rg_tail := fst (put_all_bytes (enc ?m) (rg_tail ?r) ?r)\<rparr>"
    using assms(1) c by (simp add: rg_push_def Let_def len enc_def case_prod_unfold)
  have "rg_step n w w1" unfolding w1_def using assms(2) c by (rule rg_step.push_begin)
  also have "(rg_step n)\<^sup>*\<^sup>* w1 w2" using put_steps [of w1 ?m 0 n] by (simp add: w1_def w2_def)
  also have "rg_step n w2 (w\<lparr>wd_ring := r', wd_prod := None, wd_pushed := wd_pushed w @ [?m]\<rparr>)"
    using rg_step.push_publish [of w2 ?m "length (enc ?m)" n] assms(2)
    by (simp add: w1_def w2_def r' put_all_bytes_end del: length_enc)
  finally show ?thesis using assms(2) by (cases w) simp
qed

lemma get_bytes_snoc: "get_bytes (Suc n) at r = get_bytes n at r @ [rg_get r (at + of_nat n)]"
proof (induction n arbitrary: at)
  case (Suc n)
  show ?case using Suc.IH [of "at + 1"] by (subst get_bytes.simps(2)) (simp add: ac_simps)
qed simp

lemma length_get_bytes [simp]: "length (get_bytes n at r) = n"
  by (induction n arbitrary: at) simp_all

lemma take_get_bytes: "i \<le> n \<Longrightarrow> take i (get_bytes n at r) = get_bytes i at r"
  by (induction n) (auto simp: get_bytes_snoc le_Suc_eq simp del: get_bytes.simps(2))

lemma get_bytes_add: "get_bytes (i + n) at r = get_bytes i at r @ get_bytes n (at + of_nat i) r"
  by (induction n) (simp_all add: get_bytes_snoc ac_simps del: get_bytes.simps(2))

text \<open>The reads of one call, up to \<open>i\<close> bytes.\<close>

lemma get_steps:
  fixes w
  defines "head \<equiv> rg_head (wd_ring w)" and "r \<equiv> wd_ring w"
  defines "len \<equiv> from_le_bytes (get_bytes HEADER head r)"
  assumes "wd_cons w = Some (t, [])" "i \<le> HEADER \<or> i \<le> HEADER + len \<and> len \<le> unat (t - (head + 4)) \<and> len \<le> n"
  shows "(rg_step n)\<^sup>*\<^sup>* w (w\<lparr>wd_cons := Some (t, get_bytes i head r)\<rparr>)"
  using assms(5)
proof (induction i)
  case 0
  have "w\<lparr>wd_cons := Some (t, [])\<rparr> = w" using assms(4) by (cases w) simp
  then show ?case by simp
next
  case (Suc i)
  define w1 where "w1 = w\<lparr>wd_cons := Some (t, get_bytes i head r)\<rparr>"
  have w1: "wd_cons w1 = Some (t, get_bytes i head r)" "wd_ring w1 = r" by (simp_all add: w1_def r_def)
  have "(rg_step n)\<^sup>*\<^sup>* w w1" unfolding w1_def using Suc by (intro Suc.IH) auto
  also have "rg_step n w1 (w1\<lparr>wd_cons := Some (t, get_bytes i head r @ [rg_get (wd_ring w1) (rg_head (wd_ring w1) + of_nat (length (get_bytes i head r)))])\<rparr>)"
    using w1(1)
  proof (rule rg_step.pop_byte)
    show "length (get_bytes i head r) < HEADER \<or> rg_promised t (take 4 (get_bytes i head r)) (wd_ring w1) \<and>
        from_le_bytes (take 4 (get_bytes i head r)) \<le> n \<and> length (get_bytes i head r) < HEADER + from_le_bytes (take 4 (get_bytes i head r))"
      using Suc.prems unfolding w1(2) by (cases "i < HEADER") (simp_all add: take_get_bytes len_def head_def r_def)
  qed
  finally show ?case unfolding w1(2) by (simp add: w1_def get_bytes_snoc head_def r_def del: get_bytes.simps(2))
qed

lemma pop_steps:
  assumes "rg_pop out (wd_ring w) = (Some l, out', r')" "wd_cons w = None"
  shows "\<exists>answer. (rg_step (length out))\<^sup>*\<^sup>* w (w\<lparr>wd_ring := r', wd_popped := wd_popped w @ [answer]\<rparr>) \<and>
    answer \<in> {None, Some (take l out')}"
proof -
  define head r where "head = rg_head (wd_ring w)" and "r = wd_ring w"
  define len where "len = from_le_bytes (get_bytes HEADER head r)"
  have c: "HEADER \<le> unat (rg_tail r - head)" "len \<le> unat (rg_tail r - (head + 4))" "r' = r\<lparr>rg_head := head + of_nat (HEADER + len)\<rparr>"
      "len \<le> length out \<Longrightarrow> l = len \<and> out' = get_bytes len (head + 4) r @ drop len out"
    using assms(1) by (auto simp: rg_pop_def Let_def head_def r_def len_def add.assoc split: if_splits)
  define w1 where "w1 = w\<lparr>wd_cons := Some (rg_tail r, [])\<rparr>"
  have first: "rg_step (length out) w w1" unfolding w1_def r_def using assms(2) c(1) by (intro rg_step.pop_begin) (simp_all add: head_def r_def)
  have w1: "wd_cons w1 = Some (rg_tail r, [])" "wd_ring w1 = r" "rg_head r = head" by (simp_all add: w1_def r_def head_def)
  have reads: "(rg_step (length out))\<^sup>*\<^sup>* w (w1\<lparr>wd_cons := Some (rg_tail r, get_bytes i head r)\<rparr>)"
    if "i \<le> HEADER \<or> i \<le> HEADER + len \<and> len \<le> length out" for i
    using get_steps [OF w1(1), of i "length out"] that c(2) first unfolding w1 len_def by (auto intro: converse_rtranclp_into_rtranclp)
  show ?thesis
  proof (cases "len \<le> length out")
    case True
    let ?got = "get_bytes (HEADER + len) head r"
    have header: "take 4 ?got = get_bytes HEADER head r" by (rule take_get_bytes) simp
    have data: "drop 4 ?got = get_bytes len (head + 4) r" by (simp add: get_bytes_add)
    note reads [of "HEADER + len"]
    also have "rg_step (length out) (w1\<lparr>wd_cons := Some (rg_tail r, ?got)\<rparr>)
        (w\<lparr>wd_ring := r', wd_cons := None, wd_popped := wd_popped w @ [Some (take l out')]\<rparr>)"
      using rg_step.pop_publish [of "w1\<lparr>wd_cons := Some (rg_tail r, ?got)\<rparr>" "rg_tail r" ?got "length out"] c True
      by (simp add: w1 header data flip: len_def) (simp add: w1_def)
    finally show ?thesis using True assms(2) by (intro exI [of _ "Some (take l out')"]) (cases w, simp)
  next
    case False
    let ?got = "get_bytes HEADER head r"
    note reads [of HEADER]
    also have "rg_step (length out) (w1\<lparr>wd_cons := Some (rg_tail r, ?got)\<rparr>)
        (w\<lparr>wd_ring := r', wd_cons := None, wd_popped := wd_popped w @ [None]\<rparr>)"
      using rg_step.pop_long [of "w1\<lparr>wd_cons := Some (rg_tail r, ?got)\<rparr>" "rg_tail r" ?got "length out"] c False
      by (simp add: w1 flip: len_def) (simp add: w1_def)
    finally show ?thesis using assms(2) by (intro exI [of _ None]) (cases w, simp)
  qed
qed

lemma world_reachable: "(rg_step n)\<^sup>*\<^sup>* w w' \<Longrightarrow> rg_world_ok k n w qs \<Longrightarrow> \<exists>qs'. rg_world_ok k n w' qs'"
  by (induction arbitrary: qs rule: converse_rtranclp_induct) (blast dest: world_step)+

text \<open>A record ring is a queue. Whatever \<open>push\<close> accepts is what \<open>pop\<close> answers, in that order, whole or
  not at all: \<open>push\<close> adds the concatenated parts at the end of the queue exactly when their length
  fits 32 bits and the bytes in use, the header and the record fit the buffer, and otherwise leaves
  the ring alone; \<open>pop\<close> takes the first record, answering \<open>Some 0\<close> with the buffer untouched when it is
  longer than the buffer, and answers \<open>None\<close> on the empty queue only.
\<close>

theorem ring_is_a_queue:
  assumes "rg_rep k r qs"
  shows "(\<exists>r'. rg_push parts r = (rg_accepts k qs (concat parts), r') \<and>
      (if rg_accepts k qs (concat parts) then rg_rep k r' (qs @ [concat parts]) else r' = r)) \<and>
    (case qs of [] \<Rightarrow> rg_pop out r = (None, out, r)
      | m # ms \<Rightarrow> \<exists>r'. rg_rep k r' ms \<and> rg_pop out r =
          (if length m \<le> length out then (Some (length m), m @ drop (length m) out, r') else (Some 0, out, r')))"
proof (cases qs)
  case Nil
  then show ?thesis using push_refines [OF assms, of parts] pop_empty [of k r out] assms by simp
next
  case (Cons m ms)
  then obtain r' where "rg_rep k r' ms" "rg_pop out r = (if length m \<le> length out then (Some (length m), m @ drop (length m) out, r') else (Some 0, out, r'))"
    using pop_refines [of k r m ms out] assms by blast
  then show ?thesis using push_refines [OF assms, of parts] Cons by auto
qed

text \<open>C26: With one producer and one consumer interleaved byte by byte, from a new ring of any capacity
  up to \<open>2^63\<close>, nothing is torn, lost, repeated or out of order: the answers of \<open>pop\<close> so far are a
  prefix of the records pushed so far, with \<open>None\<close> in place of the ones longer than the buffer of
  \<open>n\<close> bytes, and no header promises more than is published.
\<close>

theorem ring_interleaving_fifo:
  assumes "capacity \<le> 2 ^ 63" "(rg_step n)\<^sup>*\<^sup>* (rg_start capacity) w"
  shows "prefix (wd_popped w) (map (rg_answer n) (wd_pushed w)) \<and> \<not> wd_torn w"
proof -
  obtain k where "rg_rep k (rg_pair capacity) []" using pair_rep [OF assms(1)] by blast
  then have "rg_world_ok k n (rg_start capacity) []" by (simp add: rg_world_ok_def rg_start_def)
  from world_reachable [OF assms(2) this] show ?thesis by (auto simp: rg_world_ok_def prefix_def)
qed

theorem ring_is_a_queue_witness:
  "\<exists>r. rg_push [b ''AB'', b ''C''] (rg_pair 16) = (True, r) \<and> rg_rep 4 r [b ''ABC''] \<and> (\<exists>r'. rg_pop (b ''....'') r = (Some 3, b ''ABC.'', r') \<and> rg_rep 4 r' [])"
proof -
  have "pow2_from 1 16 = 16" by (simp add: pow2_from.simps)
  then have "rg_rep 4 (rg_pair 16) []"
    by (simp add: rg_rep_def rg_ok_def rg_pair_def Let_def mask_eq_exp_minus_1)
  from ring_is_a_queue [OF this, of "[b ''AB'', b ''C'']" "[]"] obtain r where
      r: "rg_push [b ''AB'', b ''C''] (rg_pair 16) = (True, r)" "rg_rep 4 r [b ''ABC'']"
    by (auto simp: rg_accepts_def b_def)
  from ring_is_a_queue [OF r(2), of "[]" "b ''....''"] show ?thesis using r by (auto simp: b_def)
qed

theorem ring_interleaving_fifo_witness:
  "\<exists>w. (rg_step 4)\<^sup>*\<^sup>* (rg_start 16) w \<and> wd_pushed w = [b ''ABC''] \<and> wd_popped w = [Some (b ''ABC'')]"
proof -
  have "pow2_from 1 16 = 16" by (simp add: pow2_from.simps)
  then have "rg_rep 4 (rg_pair 16) []"
    by (simp add: rg_rep_def rg_ok_def rg_pair_def Let_def mask_eq_exp_minus_1)
  from push_refines [OF this, of "[b ''AB'', b ''C'']"] obtain r where
      r: "rg_push [b ''AB'', b ''C''] (rg_pair 16) = (True, r)" "rg_rep 4 r [b ''ABC'']"
    by (auto simp: rg_accepts_def b_def)
  from pop_refines [OF r(2), of "b ''....''"] obtain r' where p: "rg_pop (b ''....'') r = (Some 3, b ''ABC.'', r')" by (auto simp: b_def)
  define w where "w = (rg_start 16)\<lparr>wd_ring := r, wd_pushed := [b ''ABC'']\<rparr>"
  have "(rg_step 4)\<^sup>*\<^sup>* (rg_start 16) w"
    using push_steps [of "[b ''AB'', b ''C'']" "rg_start 16" r 4] r by (simp add: rg_start_def w_def b_def)
  moreover have "length (b ''....'') = 4" by (simp add: b_def)
  then obtain x where "(rg_step 4)\<^sup>*\<^sup>* w (w\<lparr>wd_ring := r', wd_popped := [x]\<rparr>)"
    using pop_steps [of "b ''....''" w 3 "b ''ABC.''" r'] p by (auto simp: w_def rg_start_def)
  ultimately have run: "(rg_step 4)\<^sup>*\<^sup>* (rg_start 16) (w\<lparr>wd_ring := r', wd_popped := [x]\<rparr>)" by (rule rtranclp_trans)
  have "rg_answer 4 (b ''ABC'') = Some (b ''ABC'')" by (simp add: rg_answer_def b_def)
  then have "x = Some (b ''ABC'')" using ring_interleaving_fifo [OF _ run] by (simp add: w_def)
  then show ?thesis using run by (intro exI [of _ "w\<lparr>wd_ring := r', wd_popped := [x]\<rparr>"]) (simp add: w_def)
qed

end
