(* ===== verification/Dispatch.thy ===== *)
theory Dispatch
  imports Ring Le_Bytes Session
begin

text \<open>
  Where a message goes once the session has accepted it, \<open>crates/engine/src/dispatch.rs\<close>: straight to a
  handler, or over a pair of record rings to an application on another thread and back. Each end of
  a ring pair holds a handle on rings that both share, so the operations take the rings they work on
  beside the state of their own end. The application is a function from its state, a message, a
  header and a reply buffer to the range it filled (if any), the buffer and its next state.
\<close>

subsection \<open>The two dispatchers\<close>

abbreviation (input) STAMP :: nat where "STAMP \<equiv> 21"
abbreviation (input) OUT_HEADER :: nat where "OUT_HEADER \<equiv> 38"
abbreviation (input) BACK_HEADER :: nat where "BACK_HEADER \<equiv> 8"

type_synonym 'h handler = "'h \<Rightarrow> bytes \<Rightarrow> header \<Rightarrow> bytes \<Rightarrow> (nat \<times> nat) option \<times> bytes \<times> 'h"

definition inline_deliver :: "'h handler \<Rightarrow> bytes \<Rightarrow> header \<Rightarrow> bytes \<Rightarrow> 'h \<Rightarrow> (nat \<times> nat) option \<times> bytes \<times> 'h" where
  "inline_deliver on_message msg hdr out h = on_message h msg hdr out"

definition inline_on_logon :: "('h \<Rightarrow> nat \<Rightarrow> 'peer \<Rightarrow> bytes \<Rightarrow> (nat \<times> nat) option \<times> bytes \<times> 'h) \<Rightarrow> nat \<Rightarrow> 'peer \<Rightarrow> bytes \<Rightarrow> 'h \<Rightarrow> (nat \<times> nat) option \<times> bytes \<times> 'h" where
  "inline_on_logon handler n peer out h = handler h n peer out"

record ring_dispatch =
  rd_scratch :: bytes
  rd_refused :: nat
  rd_refused_since :: bool
  rd_dropped :: nat

definition RingDispatch_new :: "nat \<Rightarrow> ring_dispatch" where
  "RingDispatch_new M = \<lparr>rd_scratch = replicate M 0, rd_refused = 0, rd_refused_since = False, rd_dropped = 0\<rparr>"

text \<open>The fixed part of a record on its way out: connection, number, whether 369 is reported and which
  number, and the stamp.\<close>

definition out_fixed :: "nat \<Rightarrow> header \<Rightarrow> bytes" where
  "out_fixed conn hdr =
     (let n = min (length (h_stamp hdr)) STAMP in
      to_le 8 conn @ to_le 4 (h_seq hdr) @ [if h_last_processed hdr = None then 0 else 1] @
      to_le 4 (case h_last_processed hdr of None \<Rightarrow> 0 | Some l \<Rightarrow> l) @ take n (h_stamp hdr) @ replicate (STAMP - n) 0)"

definition rd_deliver :: "nat \<Rightarrow> bytes \<Rightarrow> header \<Rightarrow> ring_dispatch \<Rightarrow> ring \<Rightarrow> ring_dispatch \<times> ring" where
  "rd_deliver conn msg hdr d to_app =
     (let refuse = d\<lparr>rd_refused := rd_refused d + 1, rd_refused_since := True\<rparr> in
      if length msg > length (rd_scratch d) then (refuse, to_app)
      else case rg_push [out_fixed conn hdr, msg] to_app of
        (True, to_app) \<Rightarrow> (d, to_app)
      | (False, to_app) \<Rightarrow> (refuse, to_app))"

definition rd_take_refusal :: "ring_dispatch \<Rightarrow> bool \<times> ring_dispatch" where
  "rd_take_refusal d = (rd_refused_since d, d\<lparr>rd_refused_since := False\<rparr>)"

definition rd_ring_to_app :: "ring \<Rightarrow> nat \<times> nat" where
  "rd_ring_to_app to_app = (rg_capacity to_app - rg_free to_app, rg_capacity to_app)"

text \<open>A loop over \<open>pop\<close> ends: every record that is taken shortens what is published.\<close>

lemma unat_sub_le: "(n :: nat) \<le> unat (x :: usize) \<Longrightarrow> unat (x - of_nat n) = unat x - n"
proof -
  assume n: "n \<le> unat x"
  have "unat x < 2 ^ LENGTH(64)" by (rule unsigned_less)
  then have "n < 2 ^ 64" using n by simp
  then have u: "unat (of_nat n :: usize) = n" by (simp add: unat_of_nat)
  then have "(of_nat n :: usize) \<le> x" using n by (simp add: word_le_nat_alt)
  then show ?thesis by (simp add: unat_sub u)
qed

lemma rg_pop_shrinks: "rg_pop out r = (Some n, out', r') \<Longrightarrow> unat (rg_tail r' - rg_head r') < unat (rg_tail r - rg_head r)"
proof -
  assume p: "rg_pop out r = (Some n, out', r')"
  define d where "d = rg_tail r - rg_head r"
  define len where "len = from_le_bytes (get_bytes HEADER (rg_head r) r)"
  have four: "4 \<le> unat d" using p by (auto simp: rg_pop_def d_def Let_def split: if_splits)
  have at: "rg_tail r - (rg_head r + 4) = d - of_nat 4" by (simp add: d_def)
  have l: "len \<le> unat (d - of_nat 4)" using p four unfolding at [symmetric] by (auto simp: rg_pop_def Let_def len_def d_def split: if_splits)
  have r': "rg_tail r' - rg_head r' = d - of_nat 4 - of_nat len"
    using p four l unfolding at [symmetric] by (auto simp: rg_pop_def Let_def d_def len_def split: if_splits)
  show ?thesis unfolding r' d_def [symmetric] using unat_sub_le [OF l] unat_sub_le [OF four] four by simp
qed

text \<open>\<open>collect\<close>: the messages handed to \<open>emit\<close> are the second component of the state.\<close>

definition collect_step :: "nat \<Rightarrow> bytes \<Rightarrow> ring_dispatch \<times> (nat \<times> bytes) list \<Rightarrow> ring_dispatch \<times> (nat \<times> bytes) list" where
  "collect_step n scratch = (\<lambda>(d, emitted).
     let d = d\<lparr>rd_scratch := scratch\<rparr> in
     if n < BACK_HEADER then (d\<lparr>rd_dropped := rd_dropped d + 1\<rparr>, emitted)
     else (d, emitted @ [(from_le (take 8 scratch), take (n - BACK_HEADER) (drop BACK_HEADER scratch))]))"

function rd_collect :: "ring_dispatch \<times> (nat \<times> bytes) list \<Rightarrow> ring \<Rightarrow> (ring_dispatch \<times> (nat \<times> bytes) list) \<times> ring" where
  "rd_collect s from_app =
     (case rg_pop (rd_scratch (fst s)) from_app of
        (None, _, from_app) \<Rightarrow> (s, from_app)
      | (Some n, scratch, from_app) \<Rightarrow> rd_collect (collect_step n scratch s) from_app)"
  by auto
termination by (relation "measure (\<lambda>(_, r). unat (rg_tail r - rg_head r))") (auto dest: rg_pop_shrinks [OF sym])

declare rd_collect.simps [simp del]

record ring_app =
  ra_scratch :: bytes
  ra_reply :: bytes
  ra_dropped :: nat

definition RingApp_new :: "nat \<Rightarrow> ring_app" where
  "RingApp_new M = \<lparr>ra_scratch = replicate M 0, ra_reply = replicate M 0, ra_dropped = 0\<rparr>"

record 'h pumping =
  pm_app :: ring_app
  pm_handler :: 'h
  pm_to_engine :: ring
  pm_done :: nat

definition send_back :: "bytes \<Rightarrow> (nat \<times> nat) option \<Rightarrow> ring_app \<Rightarrow> ring \<Rightarrow> ring_app \<times> ring" where
  "send_back conn r a to_engine =
     (case r of
        None \<Rightarrow> (a, to_engine)
      | Some (from, till) \<Rightarrow>
          (case get_range (ra_reply a) from till of
             None \<Rightarrow> (a\<lparr>ra_dropped := ra_dropped a + 1\<rparr>, to_engine)
           | Some bs \<Rightarrow>
               (case rg_push [conn, bs] to_engine of
                  (True, to_engine) \<Rightarrow> (a, to_engine)
                | (False, to_engine) \<Rightarrow> (a\<lparr>ra_dropped := ra_dropped a + 1\<rparr>, to_engine))))"

definition pump_step :: "'h handler \<Rightarrow> nat \<Rightarrow> bytes \<Rightarrow> 'h pumping \<Rightarrow> 'h pumping" where
  "pump_step on_message n scratch p =
     (let a = (pm_app p)\<lparr>ra_scratch := scratch\<rparr> in
      if n < OUT_HEADER then p\<lparr>pm_app := a\<lparr>ra_dropped := ra_dropped a + 1\<rparr>\<rparr>
      else
        let conn = take 8 scratch;
            seq = from_le (take 4 (drop 8 scratch));
            last = from_le (take 4 (drop 13 scratch));
            hdr = \<lparr>h_seq = seq, h_stamp = take STAMP (drop 17 scratch), h_last_processed = (if scratch ! 12 \<noteq> 0 then Some last else None)\<rparr>;
            msg = take (n - OUT_HEADER) (drop OUT_HEADER scratch);
            (r, reply, h) = on_message (pm_handler p) msg hdr (ra_reply a);
            (a, to_engine) = send_back conn r (a\<lparr>ra_reply := reply\<rparr>) (pm_to_engine p) in
        p\<lparr>pm_app := a, pm_handler := h, pm_to_engine := to_engine, pm_done := pm_done p + 1\<rparr>)"

function ra_pump :: "'h handler \<Rightarrow> 'h pumping \<Rightarrow> ring \<Rightarrow> 'h pumping \<times> ring" where
  "ra_pump on_message p from_engine =
     (case rg_pop (ra_scratch (pm_app p)) from_engine of
        (None, _, from_engine) \<Rightarrow> (p, from_engine)
      | (Some n, scratch, from_engine) \<Rightarrow> ra_pump on_message (pump_step on_message n scratch p) from_engine)"
  by auto
termination by (relation "measure (\<lambda>(_, _, r). unat (rg_tail r - rg_head r))") (auto dest: rg_pop_shrinks [OF sym])

declare ra_pump.simps [simp del]

subsection \<open>Draining a ring\<close>

text \<open>Both loops take records until there are none. Over the queue a ring stands for, such a loop is a
  fold over the records, in order; a record longer than the buffer counts as one of length 0.\<close>

definition took :: "(nat \<Rightarrow> bytes \<Rightarrow> 's \<Rightarrow> 's) \<Rightarrow> ('s \<Rightarrow> bytes) \<Rightarrow> bytes \<Rightarrow> 's \<Rightarrow> 's" where
  "took step buf m s = (if length m \<le> length (buf s) then step (length m) (m @ drop (length m) (buf s)) s else step 0 (buf s) s)"

locale drain_loop =
  fixes loop :: "'s \<Rightarrow> ring \<Rightarrow> 's \<times> ring" and buf :: "'s \<Rightarrow> bytes" and step :: "nat \<Rightarrow> bytes \<Rightarrow> 's \<Rightarrow> 's"
  assumes loop_eq: "loop s r = (case rg_pop (buf s) r of (None, _, r) \<Rightarrow> (s, r) | (Some n, scratch, r) \<Rightarrow> loop (step n scratch s) r)"
begin

lemma drained: "rg_rep k r ms \<Longrightarrow> \<exists>r'. loop s r = (fold (took step buf) ms s, r') \<and> rg_rep k r' []"
proof (induction ms arbitrary: s r)
  case Nil
  then show ?case using pop_empty [OF Nil] by (subst loop_eq) simp
next
  case (Cons m ms)
  from pop_refines [OF Cons.prems, of "buf s"] obtain r1 where
    p: "rg_pop (buf s) r = (if length m \<le> length (buf s) then (Some (length m), m @ drop (length m) (buf s), r1) else (Some 0, buf s, r1))" "rg_rep k r1 ms"
    by blast
  then have "loop s r = loop (took step buf m s) r1" by (subst loop_eq) (simp add: took_def)
  then show ?case using Cons.IH [OF p(2), of "took step buf m s"] by simp
qed

end

interpretation collecting: drain_loop rd_collect "\<lambda>s. rd_scratch (fst s)" collect_step
  by unfold_locales (subst rd_collect.simps, simp)

interpretation pumping: drain_loop "ra_pump on_message" "\<lambda>p. ra_scratch (pm_app p)" "pump_step on_message" for on_message
  by unfold_locales (subst ra_pump.simps, simp)

subsection \<open>What the hand-over does\<close>

text \<open>A message on its way out is its connection, its bytes and its header; a reply on its way back is its
  connection and its bytes. The specification keeps the two queues as lists.\<close>

type_synonym delivery = "nat \<times> bytes \<times> header"

definition out_record :: "delivery \<Rightarrow> bytes" where
  "out_record = (\<lambda>(conn, msg, hdr). out_fixed conn hdr @ msg)"

definition back_record :: "nat \<times> bytes \<Rightarrow> bytes" where
  "back_record = (\<lambda>(conn, bs). to_le 8 conn @ bs)"

definition header_seen :: "header \<Rightarrow> header" where
  "header_seen hdr = \<lparr>h_seq = h_seq hdr, h_stamp = take STAMP (h_stamp hdr @ replicate STAMP 0), h_last_processed = h_last_processed hdr\<rparr>"

definition delivery_typed :: "delivery \<Rightarrow> bool" where
  "delivery_typed = (\<lambda>(conn, msg, hdr). conn \<le> U64_MAX \<and> h_seq hdr \<le> U32_MAX \<and> (\<forall>l. h_last_processed hdr = Some l \<longrightarrow> l \<le> U32_MAX))"

definition spec_deliver :: "nat \<Rightarrow> nat \<Rightarrow> delivery \<Rightarrow> delivery list \<times> nat \<Rightarrow> delivery list \<times> nat" where
  "spec_deliver M k d = (\<lambda>(ds, refused).
     if length (fst (snd d)) \<le> M \<and> rg_accepts k (map out_record ds) (out_record d) then (ds @ [d], refused) else (ds, refused + 1))"

record 'h desk =
  dk_handler :: 'h
  dk_reply :: bytes
  dk_replies :: "(nat \<times> bytes) list"
  dk_dropped :: nat
  dk_done :: nat

definition spec_reply :: "nat \<Rightarrow> nat \<Rightarrow> (nat \<times> nat) option \<Rightarrow> 'h desk \<Rightarrow> 'h desk" where
  "spec_reply k conn r a =
     (case r of
        None \<Rightarrow> a
      | Some (from, till) \<Rightarrow>
          (case get_range (dk_reply a) from till of
             Some bs \<Rightarrow> if rg_accepts k (map back_record (dk_replies a)) (back_record (conn, bs)) then a\<lparr>dk_replies := dk_replies a @ [(conn, bs)]\<rparr>
               else a\<lparr>dk_dropped := dk_dropped a + 1\<rparr>
           | None \<Rightarrow> a\<lparr>dk_dropped := dk_dropped a + 1\<rparr>))"

definition spec_pump :: "'h handler \<Rightarrow> nat \<Rightarrow> nat \<Rightarrow> delivery \<Rightarrow> 'h desk \<Rightarrow> 'h desk" where
  "spec_pump on_message M k = (\<lambda>(conn, msg, hdr) a.
     if OUT_HEADER + length msg > M then a\<lparr>dk_dropped := dk_dropped a + 1\<rparr>
     else let (r, reply, h) = on_message (dk_handler a) msg (header_seen hdr) (dk_reply a) in
       spec_reply k conn r (a\<lparr>dk_handler := h, dk_reply := reply, dk_done := dk_done a + 1\<rparr>))"

definition pump_rep :: "nat \<Rightarrow> nat \<Rightarrow> 'h pumping \<Rightarrow> 'h desk \<Rightarrow> bool" where
  "pump_rep M k p a \<longleftrightarrow> length (ra_scratch (pm_app p)) = M \<and> pm_handler p = dk_handler a \<and> ra_reply (pm_app p) = dk_reply a \<and>
     ra_dropped (pm_app p) = dk_dropped a \<and> pm_done p = dk_done a \<and> rg_rep k (pm_to_engine p) (map back_record (dk_replies a))"

lemma length_out_fixed [simp]: "length (out_fixed conn hdr) = 38"
  by (simp add: out_fixed_def Let_def)

lemma length_back_record [simp]: "length (back_record (conn, bs)) = 8 + length bs"
  by (simp add: back_record_def)

lemma concat_records: "concat [out_fixed conn hdr, msg] = out_record (conn, msg, hdr)" "concat [to_le 8 conn, bs] = back_record (conn, bs)"
  by (simp_all add: out_record_def back_record_def)

lemma out_fixed_parts:
  assumes "h_seq hdr \<le> U32_MAX" "\<forall>l. h_last_processed hdr = Some l \<longrightarrow> l \<le> U32_MAX"
  shows "take 8 (out_fixed conn hdr) = to_le 8 conn" "from_le (take 4 (drop 8 (out_fixed conn hdr))) = h_seq hdr"
    "(if out_fixed conn hdr ! 12 \<noteq> 0 then Some (from_le (take 4 (drop 13 (out_fixed conn hdr)))) else None) = h_last_processed hdr"
    "take 21 (drop 17 (out_fixed conn hdr)) = h_stamp (header_seen hdr)"
  using assms by (auto simp: out_fixed_def Let_def header_seen_def nth_append min_def split: option.split)

lemma length_stamp_seen [simp]: "length (h_stamp (header_seen hdr)) = 21"
  by (simp add: header_seen_def)

lemma deliver_spec:
  assumes "rg_rep k r (map out_record ds)" "length (rd_scratch d) = M"
  shows "\<exists>d' r'. rd_deliver conn msg hdr d r = (d', r') \<and> length (rd_scratch d') = M \<and>
    rg_rep k r' (map out_record (fst (spec_deliver M k (conn, msg, hdr) (ds, rd_refused d)))) \<and>
    rd_refused d' = snd (spec_deliver M k (conn, msg, hdr) (ds, rd_refused d))"
proof -
  obtain r' where r': "rg_push [out_fixed conn hdr, msg] r = (rg_accepts k (map out_record ds) (out_record (conn, msg, hdr)), r')"
      "if rg_accepts k (map out_record ds) (out_record (conn, msg, hdr)) then rg_rep k r' (map out_record ds @ [out_record (conn, msg, hdr)]) else r' = r"
    using push_refines [OF assms(1), of "[out_fixed conn hdr, msg]"] unfolding concat_records by blast
  show ?thesis using r' assms by (auto simp: rd_deliver_def spec_deliver_def Let_def split: if_splits bool.split)
qed

lemma send_back_spec:
  assumes "pump_rep M k p a"
  shows "\<exists>ap r'. send_back (to_le 8 conn) r (pm_app p) (pm_to_engine p) = (ap, r') \<and> ra_scratch ap = ra_scratch (pm_app p) \<and>
    pump_rep M k (p\<lparr>pm_app := ap, pm_to_engine := r'\<rparr>) (spec_reply k conn r a)"
proof -
  have push: "\<exists>r'. rg_push [to_le 8 conn, bs] (pm_to_engine p) = (rg_accepts k (map back_record (dk_replies a)) (back_record (conn, bs)), r') \<and>
    (if rg_accepts k (map back_record (dk_replies a)) (back_record (conn, bs)) then rg_rep k r' (map back_record (dk_replies a) @ [back_record (conn, bs)]) else r' = pm_to_engine p)" for bs
    using push_refines [of k "pm_to_engine p" "map back_record (dk_replies a)" "[to_le 8 conn, bs]"] assms unfolding concat_records pump_rep_def by blast
  show ?thesis
  proof (cases "Option.bind r (\<lambda>(from, till). get_range (dk_reply a) from till)")
    case None
    then show ?thesis using assms by (cases r) (auto simp: send_back_def spec_reply_def pump_rep_def)
  next
    case (Some bs)
    then show ?thesis using assms push [of bs] by (cases r) (auto simp: send_back_def spec_reply_def pump_rep_def split: if_splits bool.split)
  qed
qed

lemma pump_record:
  assumes "pump_rep M k p a" "delivery_typed d"
  shows "pump_rep M k (took (pump_step f) (\<lambda>p. ra_scratch (pm_app p)) (out_record d) p) (spec_pump f M k d a)"
proof -
  obtain conn msg hdr where d: "d = (conn, msg, hdr)" by (cases d)
  have ty: "h_seq hdr \<le> U32_MAX" "\<forall>l. h_last_processed hdr = Some l \<longrightarrow> l \<le> U32_MAX" using assms(2) by (simp_all add: delivery_typed_def d)
  have len: "length (ra_scratch (pm_app p)) = M" using assms(1) by (simp add: pump_rep_def)
  show ?thesis
  proof (cases "38 + length msg > M")
    case True
    then show ?thesis using assms(1) len by (simp add: took_def d out_record_def spec_pump_def pump_step_def Let_def pump_rep_def)
  next
    case False
    define sc where "sc = out_record d @ drop (38 + length msg) (ra_scratch (pm_app p))"
    have sc: "take 8 sc = to_le 8 conn" "from_le (take 4 (drop 8 sc)) = h_seq hdr" "take 21 (drop 17 sc) = h_stamp (header_seen hdr)"
      "(if sc ! 12 \<noteq> 0 then Some (from_le (take 4 (drop 13 sc))) else None) = h_last_processed hdr" "take (length msg) (drop 38 sc) = msg"
      using out_fixed_parts [OF ty, of conn] by (simp_all add: sc_def d out_record_def nth_append split: if_splits)
    have hd: "\<lparr>h_seq = h_seq hdr, h_stamp = h_stamp (header_seen hdr), h_last_processed = h_last_processed hdr\<rparr> = header_seen hdr"
      by (simp add: header_seen_def)
    obtain r reply h where f: "f (dk_handler a) msg (header_seen hdr) (dk_reply a) = (r, reply, h)" by (cases "f (dk_handler a) msg (header_seen hdr) (dk_reply a)")
    define p1 where "p1 = p\<lparr>pm_app := (pm_app p)\<lparr>ra_scratch := sc, ra_reply := reply\<rparr>, pm_handler := h, pm_done := pm_done p + 1\<rparr>"
    have p1: "pump_rep M k p1 (a\<lparr>dk_handler := h, dk_reply := reply, dk_done := dk_done a + 1\<rparr>)"
      using assms(1) False len by (simp add: pump_rep_def p1_def sc_def d out_record_def)
    from send_back_spec [OF this, of conn r] obtain ap r' where sb: "send_back (to_le 8 conn) r (pm_app p1) (pm_to_engine p1) = (ap, r')"
        "pump_rep M k (p1\<lparr>pm_app := ap, pm_to_engine := r'\<rparr>) (spec_reply k conn r (a\<lparr>dk_handler := h, dk_reply := reply, dk_done := dk_done a + 1\<rparr>))"
      by blast
    have "pump_step f (38 + length msg) sc p = p1\<lparr>pm_app := ap, pm_to_engine := r'\<rparr>"
      using sb(1) f assms(1) unfolding pump_step_def Let_def by (simp add: sc hd p1_def pump_rep_def)
    then show ?thesis using sb(2) f False len by (simp add: took_def d spec_pump_def out_record_def sc_def)
  qed
qed

lemma pump_spec:
  assumes "rg_rep kt r (map out_record ds)" "pump_rep M k p a" "list_all delivery_typed ds"
  shows "\<exists>p' r'. ra_pump f p r = (p', r') \<and> rg_rep kt r' [] \<and> pump_rep M k p' (fold (spec_pump f M k) ds a)"
proof -
  have "pump_rep M k (fold (took (pump_step f) (\<lambda>p. ra_scratch (pm_app p))) (map out_record ds) p) (fold (spec_pump f M k) ds a)"
    using assms(2,3) by (induction ds arbitrary: p a) (auto intro: pump_record)
  then show ?thesis using pumping.drained [OF assms(1), of f p] by auto
qed

lemma collect_record:
  assumes "conn \<le> U64_MAX"
  shows "took collect_step (\<lambda>s. rd_scratch (fst s)) (back_record (conn, bs)) (d, es) =
    (if 8 + length bs \<le> length (rd_scratch d) then (d\<lparr>rd_scratch := back_record (conn, bs) @ drop (8 + length bs) (rd_scratch d)\<rparr>, es @ [(conn, bs)])
     else (d\<lparr>rd_dropped := rd_dropped d + 1\<rparr>, es))"
  using assms by (simp add: took_def collect_step_def Let_def back_record_def)

lemma collect_spec:
  assumes "rg_rep k r (map back_record rs)" "list_all (\<lambda>(conn, _). conn \<le> U64_MAX) rs" "length (rd_scratch d) = M"
  defines "fits \<equiv> \<lambda>(_ :: nat, bs :: bytes). 8 + length bs \<le> M"
  shows "\<exists>d' r'. rd_collect (d, es) r = ((d', es @ filter fits rs), r') \<and> rg_rep k r' [] \<and>
    rd_dropped d' = rd_dropped d + length (filter (\<lambda>x. \<not> fits x) rs) \<and> rd_refused d' = rd_refused d"
proof -
  have "\<exists>d'. fold (took collect_step (\<lambda>s. rd_scratch (fst s))) (map back_record rs) (d, es) = (d', es @ filter fits rs) \<and>
      rd_dropped d' = rd_dropped d + length (filter (\<lambda>x. \<not> fits x) rs) \<and> rd_refused d' = rd_refused d"
    using assms(2,3)
  proof (induction rs arbitrary: d es)
    case (Cons x rs)
    obtain conn bs where x: "x = (conn, bs)" by (cases x)
    have c: "conn \<le> U64_MAX" using Cons.prems by (simp add: x)
    show ?case
    proof (cases "8 + length bs \<le> M")
      case True
      then show ?thesis using Cons.prems Cons.IH [of "d\<lparr>rd_scratch := back_record (conn, bs) @ drop (8 + length bs) (rd_scratch d)\<rparr>" "es @ [(conn, bs)]"]
        by (auto simp: x collect_record [OF c] fits_def)
    next
      case False
      then show ?thesis using Cons.prems Cons.IH [of "d\<lparr>rd_dropped := rd_dropped d + 1\<rparr>" es] by (auto simp: x collect_record [OF c] fits_def)
    qed
  qed simp
  then show ?thesis using collecting.drained [OF assms(1), of "(d, es)"] by auto
qed

lemma deliver_keeps_dropped: "rd_dropped (fst (rd_deliver conn msg hdr d r)) = rd_dropped d"
  by (simp add: rd_deliver_def Let_def split: prod.split bool.split)

lemma delivers_keep_dropped:
  "rd_dropped (fst (fold (\<lambda>(conn, msg, hdr) (d, r). rd_deliver conn msg hdr d r) ds (d, r))) = rd_dropped d"
proof (induction ds arbitrary: d r)
  case (Cons x ds)
  obtain conn msg hdr where x: "x = (conn, msg, hdr)" by (cases x)
  obtain d' r' where "rd_deliver conn msg hdr d r = (d', r')" by fastforce
  then show ?case using Cons.IH [of d' r'] deliver_keeps_dropped [of conn msg hdr d r] by (simp add: x)
qed simp

lemma delivers_spec:
  assumes "rg_rep k r (map out_record qs)" "length (rd_scratch d) = M"
  shows "\<exists>d' r'. fold (\<lambda>(conn, msg, hdr) (d, r). rd_deliver conn msg hdr d r) ds (d, r) = (d', r') \<and> length (rd_scratch d') = M \<and>
    rg_rep k r' (map out_record (fst (fold (spec_deliver M k) ds (qs, rd_refused d)))) \<and>
    rd_refused d' = snd (fold (spec_deliver M k) ds (qs, rd_refused d))"
  using assms
proof (induction ds arbitrary: d r qs)
  case (Cons x ds)
  obtain conn msg hdr where x: "x = (conn, msg, hdr)" by (cases x)
  obtain qs' n where sp: "spec_deliver M k (conn, msg, hdr) (qs, rd_refused d) = (qs', n)" by fastforce
  from deliver_spec [OF Cons.prems, of conn msg hdr] obtain d1 r1 where
    "rd_deliver conn msg hdr d r = (d1, r1)" "length (rd_scratch d1) = M" "rg_rep k r1 (map out_record qs')" "rd_refused d1 = n"
    by (auto simp: sp)
  then show ?case using Cons.IH [of r1 qs' d1] by (simp add: x sp)
qed simp

lemma accepted_subset: "set (fst (fold (spec_deliver M k) ds (qs, n))) \<subseteq> set qs \<union> set ds"
proof (induction ds arbitrary: qs n)
  case (Cons d ds)
  obtain qs' n' where sp: "spec_deliver M k d (qs, n) = (qs', n')" by fastforce
  then have "set qs' \<subseteq> set qs \<union> {d}" by (auto simp: spec_deliver_def split: if_splits)
  then show ?case using Cons.IH [of qs' n'] by (auto simp: sp)
qed simp

lemma replies_conn: "fst ` set (dk_replies (fold (spec_pump f M k) ds a)) \<subseteq> fst ` set (dk_replies a) \<union> fst ` set ds"
proof (induction ds arbitrary: a)
  case (Cons d ds)
  have "fst ` set (dk_replies (spec_pump f M k d a)) \<subseteq> fst ` set (dk_replies a) \<union> {fst d}"
    by (cases d) (auto simp: spec_pump_def spec_reply_def Let_def split: prod.splits option.splits if_splits)
  then show ?case using Cons.IH [of "spec_pump f M k d a"] by simp blast
qed simp

text \<open>C28: The hand-over to an application on another thread is two queues. Whatever messages are delivered,
  the ones that are accepted reach the handler in order, each once, with its bytes, its number, the
  number it reports as processed and 21 bytes of its stamp; the replies come back in order, each
  emitted on the connection of the message it answers. A message that is not accepted is counted as
  refused; one that is too long for the other end's buffer, a reply out of range and a reply that
  finds no room are counted as dropped on that end, with the handler's state and the number of
  messages it was called for those of the specification; a reply too long for this end's buffer is
  counted as dropped here. The rings start empty, and numbers and connections are within their widths.\<close>

theorem ring_hand_over:
  assumes "rg_rep kt to_app []" "rg_rep kb back []" "list_all delivery_typed ds" "length (rd_scratch d) = M"
    "length (ra_scratch ap) = N"
  shows "\<exists>d1 r1 p r2 d2 r3.
    fold (\<lambda>(conn, msg, hdr) (d, r). rd_deliver conn msg hdr d r) ds (d, to_app) = (d1, r1) \<and>
    ra_pump f \<lparr>pm_app = ap, pm_handler = h, pm_to_engine = back, pm_done = 0\<rparr> r1 = (p, r2) \<and>
    (let (accepted, refused) = fold (spec_deliver M kt) ds ([], rd_refused d);
         A = fold (spec_pump f N kb) accepted
           \<lparr>dk_handler = h, dk_reply = ra_reply ap, dk_replies = [], dk_dropped = ra_dropped ap, dk_done = 0\<rparr>;
         fits = (\<lambda>(_, bs). 8 + length bs \<le> M) in
     pm_handler p = dk_handler A \<and> pm_done p = dk_done A \<and> ra_dropped (pm_app p) = dk_dropped A \<and>
     rd_collect (d1, []) (pm_to_engine p) = ((d2, filter fits (dk_replies A)), r3) \<and>
     rd_refused d2 = refused \<and> rd_dropped d2 = rd_dropped d + length (filter (\<lambda>x. \<not> fits x) (dk_replies A)))"
proof -
  define acc where "acc = fold (spec_deliver M kt) ds ([], rd_refused d)"
  define a0 where "a0 = \<lparr>dk_handler = h, dk_reply = ra_reply ap, dk_replies = [], dk_dropped = ra_dropped ap, dk_done = 0\<rparr>"
  let ?a = "fold (spec_pump f N kb) (fst acc) a0"
  from delivers_spec [of kt to_app "[]" d M ds] obtain d1 r1 where dl:
    "fold (\<lambda>(conn, msg, hdr) (d, r). rd_deliver conn msg hdr d r) ds (d, to_app) = (d1, r1)" "length (rd_scratch d1) = M"
    "rg_rep kt r1 (map out_record (fst acc))" "rd_refused d1 = snd acc"
    using assms by (auto simp: acc_def)
  have dr: "rd_dropped d1 = rd_dropped d" using delivers_keep_dropped [of ds d to_app] dl(1) by simp
  have ty: "list_all delivery_typed (fst acc)" using assms(3) accepted_subset [of M kt ds "[]"] by (auto simp: acc_def list_all_iff)
  have "pump_rep N kb \<lparr>pm_app = ap, pm_handler = h, pm_to_engine = back, pm_done = 0\<rparr> a0" using assms by (simp add: pump_rep_def a0_def)
  from pump_spec [OF dl(3) this ty, of f] obtain p r2 where pm: "ra_pump f \<lparr>pm_app = ap, pm_handler = h, pm_to_engine = back, pm_done = 0\<rparr> r1 = (p, r2)"
    "pump_rep N kb p ?a" by blast
  have "fst ` set (dk_replies ?a) \<subseteq> fst ` set (fst acc)" using replies_conn [of f N kb "fst acc" a0] by (simp add: a0_def)
  then have conns: "list_all (\<lambda>(conn, _). conn \<le> U64_MAX) (dk_replies ?a)" using ty by (fastforce simp: list_all_iff delivery_typed_def)
  have rep: "rg_rep kb (pm_to_engine p) (map back_record (dk_replies ?a))"
    "pm_handler p = dk_handler ?a" "pm_done p = dk_done ?a" "ra_dropped (pm_app p) = dk_dropped ?a"
    using pm(2) by (simp_all add: pump_rep_def)
  from collect_spec [OF rep(1) conns dl(2), of "[]"] obtain d2 r3 where
    "rd_collect (d1, []) (pm_to_engine p) = ((d2, filter (\<lambda>(_, bs). 8 + length bs \<le> M) (dk_replies ?a)), r3)"
    "rd_dropped d2 = rd_dropped d + length (filter (\<lambda>x. \<not> (case x of (_, bs) \<Rightarrow> 8 + length bs \<le> M)) (dk_replies ?a))"
    "rd_refused d2 = snd acc" using dr dl(4) by auto
  then show ?thesis
    using dl(1) pm(1) rep(2-4) unfolding acc_def [symmetric] a0_def [symmetric] Let_def case_prod_beta by blast
qed

text \<open>A message can be accepted by the ring and never reach the application. \<open>deliver\<close> compares the
  length of the message with \<open>M\<close>, but the record that goes through the ring is 38 bytes longer, and
  the application takes records into a buffer of \<open>M\<close> bytes: a message of \<open>M - 37\<close> to \<open>M\<close> bytes is not
  refused, so its connection is kept, and the other end throws it away without calling the handler.\<close>

theorem long_message_is_lost:
  assumes "rg_rep k to_app []" "length msg \<le> M" "M < 38 + length msg" "42 + length msg \<le> 2 ^ k" "38 + length msg \<le> U32_MAX"
  shows "\<exists>to_app' from_engine. rd_deliver conn msg hdr (RingDispatch_new M) to_app = (RingDispatch_new M, to_app') \<and>
    ra_pump f \<lparr>pm_app = RingApp_new M, pm_handler = h, pm_to_engine = back, pm_done = 0\<rparr> to_app' =
      (\<lparr>pm_app = (RingApp_new M)\<lparr>ra_dropped := 1\<rparr>, pm_handler = h, pm_to_engine = back, pm_done = 0\<rparr>, from_engine)"
proof -
  have acc: "rg_accepts k [] (out_record (conn, msg, hdr))" using assms(4,5) by (simp add: rg_accepts_def out_record_def)
  from push_refines [OF assms(1), of "[out_fixed conn hdr, msg]"] obtain r1 where
    r1: "rg_push [out_fixed conn hdr, msg] to_app = (True, r1)" "rg_rep k r1 [out_record (conn, msg, hdr)]"
    using acc unfolding concat_records by auto
  have len: "length (out_record (conn, msg, hdr)) = 38 + length msg" by (simp add: out_record_def)
  from pumping.drained [OF r1(2), of f "\<lparr>pm_app = RingApp_new M, pm_handler = h, pm_to_engine = back, pm_done = 0\<rparr>"]
  show ?thesis using r1(1) assms(2,3) len by (simp add: rd_deliver_def RingDispatch_new_def RingApp_new_def took_def pump_step_def Let_def) blast
qed

definition echo :: "unit handler" where
  "echo h msg hdr buf = (Some (0, length msg), msg @ drop (length msg) buf, h)"

definition echo_header :: header where
  "echo_header = \<lparr>h_seq = 5, h_stamp = b ''20260101-00:00:00.000'', h_last_processed = Some 4\<rparr>"

lemma new_ring: "rg_rep 7 (rg_pair 128) []"
proof -
  have "pow2_from 1 128 = 128" by (simp add: pow2_from.simps)
  then show ?thesis by (simp add: rg_rep_def rg_ok_def rg_pair_def Let_def mask_eq_exp_minus_1)
qed

theorem ring_hand_over_witness:
  "\<exists>d1 r1 p r2 d2 r3. rd_deliver 7 (b ''ABC'') echo_header (RingDispatch_new 64) (rg_pair 128) = (d1, r1) \<and>
    ra_pump echo \<lparr>pm_app = RingApp_new 64, pm_handler = (), pm_to_engine = rg_pair 128, pm_done = 0\<rparr> r1 = (p, r2) \<and>
    pm_done p = 1 \<and> ra_dropped (pm_app p) = 0 \<and>
    rd_collect (d1, []) (pm_to_engine p) = ((d2, [(7, b ''ABC'')]), r3) \<and> rd_refused d2 = 0 \<and> rd_dropped d2 = 0"
proof -
  have ty: "list_all delivery_typed [(7, b ''ABC'', echo_header)]" by (simp add: delivery_typed_def echo_header_def)
  have l: "length (rd_scratch (RingDispatch_new 64)) = 64" "length (ra_scratch (RingApp_new 64)) = 64"
    by (simp_all add: RingDispatch_new_def RingApp_new_def)
  have out: "fold (spec_deliver 64 7) [(7, b ''ABC'', echo_header)] ([], n) = ([(7, b ''ABC'', echo_header)], n)" for n
    by (simp add: spec_deliver_def rg_accepts_def out_record_def b_def)
  have rs: "\<exists>buf. fold (spec_pump echo 64 7) [(7, b ''ABC'', echo_header)]
      \<lparr>dk_handler = (), dk_reply = ra_reply (RingApp_new 64), dk_replies = [], dk_dropped = ra_dropped (RingApp_new 64), dk_done = 0\<rparr> =
      \<lparr>dk_handler = (), dk_reply = buf, dk_replies = [(7, b ''ABC'')], dk_dropped = 0, dk_done = 1\<rparr>"
    by (simp add: spec_pump_def spec_reply_def echo_def get_range_def rg_accepts_def RingApp_new_def b_def back_record_def)
  then obtain buf where rs: "fold (spec_pump echo 64 7) [(7, b ''ABC'', echo_header)]
      \<lparr>dk_handler = (), dk_reply = ra_reply (RingApp_new 64), dk_replies = [], dk_dropped = ra_dropped (RingApp_new 64), dk_done = 0\<rparr> =
      \<lparr>dk_handler = (), dk_reply = buf, dk_replies = [(7, b ''ABC'')], dk_dropped = 0, dk_done = 1\<rparr>" by blast
  have "rd_refused (RingDispatch_new 64) = 0" "rd_dropped (RingDispatch_new 64) = 0" by (simp_all add: RingDispatch_new_def)
  then show ?thesis
    using ring_hand_over [OF new_ring new_ring ty l, of echo "()", unfolded out Let_def prod.case rs] by (simp add: b_def)
qed

theorem long_message_is_lost_witness:
  "\<exists>to_app from_engine. rd_deliver 7 (replicate 40 65) echo_header (RingDispatch_new 64) (rg_pair 128) = (RingDispatch_new 64, to_app) \<and>
    ra_pump echo \<lparr>pm_app = RingApp_new 64, pm_handler = (), pm_to_engine = rg_pair 128, pm_done = 0\<rparr> to_app =
      (\<lparr>pm_app = (RingApp_new 64)\<lparr>ra_dropped := 1\<rparr>, pm_handler = (), pm_to_engine = rg_pair 128, pm_done = 0\<rparr>, from_engine)"
  by (rule long_message_is_lost [OF new_ring]) simp_all

end
