(* ===== verification/Origin.thy ===== *)
theory Origin
  imports Prelude
begin

text \<open>
  Messages an application starts itself (\<open>crates/engine/src/origin.rs\<close>): a fixed ring of slots behind a
  mutex that any thread submits to and the engine drains in its turn; and what a connection does with
  a slow reader (\<open>backpressure.rs\<close>). The mutex makes an operation atomic; whether the lock is free or
  poisoned when an operation asks for it is an argument.
\<close>

abbreviation (input) ORIGIN_CAPACITY :: nat where "ORIGIN_CAPACITY \<equiv> 64"
abbreviation (input) ORIGIN_LEN :: nat where "ORIGIN_LEN \<equiv> 512"

record origin_slot =
  os_id :: nat
  os_len :: nat
  os_bytes :: bytes

record origin =
  og_slots :: "origin_slot list"
  og_head :: nat
  og_len :: nat
  og_waiting :: nat
  og_drains :: nat
  og_undeliverable :: nat

definition Slot_EMPTY :: origin_slot where
  "Slot_EMPTY = \<lparr>os_id = 0, os_len = 0, os_bytes = replicate ORIGIN_LEN 0\<rparr>"

definition Origin_new :: origin where
  "Origin_new = \<lparr>og_slots = replicate ORIGIN_CAPACITY Slot_EMPTY, og_head = 0, og_len = 0, og_waiting = 0, og_drains = 0, og_undeliverable = 0\<rparr>"

definition og_submit :: "bool \<Rightarrow> nat \<Rightarrow> bytes \<Rightarrow> origin \<Rightarrow> bool \<times> origin" where
  "og_submit poisoned cid msg q =
     (if msg = [] \<or> length msg > ORIGIN_LEN then (False, q)
      else if poisoned then (False, q)
      else if og_len q = ORIGIN_CAPACITY then (False, q)
      else let at = (og_head q + og_len q) mod ORIGIN_CAPACITY in
        case nth_opt (og_slots q) at of
          None \<Rightarrow> (False, q)
        | Some slot \<Rightarrow>
            let slot = slot\<lparr>os_id := cid, os_len := (if length msg \<le> U16_MAX then length msg else 0)\<rparr> in
            (case write_at (os_bytes slot) 0 msg of
               None \<Rightarrow> (False, q\<lparr>og_slots := (og_slots q)[at := slot]\<rparr>)
             | Some bs \<Rightarrow> (True, q\<lparr>og_slots := (og_slots q)[at := slot\<lparr>os_bytes := bs\<rparr>], og_len := og_len q + 1, og_waiting := og_len q + 1\<rparr>)))"

definition og_is_waiting :: "origin \<Rightarrow> bool" where
  "og_is_waiting q \<longleftrightarrow> og_waiting q \<noteq> 0"

text \<open>The loop of \<open>drain\<close>; \<open>emit\<close> works on the connections of the engine, \<open>'s\<close>. An id a connection no longer
  has is what makes \<open>emit\<close> answer \<open>False\<close>.\<close>

fun drain_slots :: "(nat \<Rightarrow> bytes \<Rightarrow> 's \<Rightarrow> bool \<times> 's) \<Rightarrow> nat \<Rightarrow> nat \<Rightarrow> origin \<Rightarrow> 's \<Rightarrow> nat \<times> origin \<times> 's" where
  "drain_slots emit 0 gone q s = (gone, q, s)"
| "drain_slots emit (Suc n) gone q s =
     (case nth_opt (og_slots q) (og_head q) of
        None \<Rightarrow> (gone, q, s)
      | Some slot \<Rightarrow>
          let q = q\<lparr>og_head := (og_head q + 1) mod ORIGIN_CAPACITY\<rparr>;
              (sent, s) = emit (os_id slot) (case get_range (os_bytes slot) 0 (os_len slot) of None \<Rightarrow> [] | Some bs \<Rightarrow> bs) s in
          drain_slots emit n (if sent then gone else gone + 1) q s)"

definition og_drain :: "bool \<Rightarrow> (nat \<Rightarrow> bytes \<Rightarrow> 's \<Rightarrow> bool \<times> 's) \<Rightarrow> origin \<Rightarrow> 's \<Rightarrow> nat \<times> origin \<times> 's" where
  "og_drain busy emit q s =
     (let q = q\<lparr>og_drains := og_drains q + 1\<rparr> in
      if busy then (0, q, s)
      else let (gone, q', s) = drain_slots emit (og_len q) 0 q s;
               q' = q'\<lparr>og_len := 0, og_waiting := 0\<rparr> in
        (og_len q, (if gone > 0 then q'\<lparr>og_undeliverable := og_undeliverable q' + gone\<rparr> else q'), s))"

subsection \<open>Backpressure\<close>

datatype backpressure = Disconnect | Queue nat | Block

fun bp_bound :: "backpressure \<Rightarrow> nat \<Rightarrow> nat" where
  "bp_bound (Queue max_bytes) tx = (if max_bytes < tx then max_bytes else tx)"
| "bp_bound _ tx = tx"

fun bp_blocks :: "backpressure \<Rightarrow> bool" where
  "bp_blocks Block = True"
| "bp_blocks _ = False"

subsection \<open>A queue of messages\<close>

definition slot_holds :: "nat \<times> bytes \<Rightarrow> origin_slot \<Rightarrow> bool" where
  "slot_holds = (\<lambda>(cid, msg) sl. os_id sl = cid \<and> os_len sl = length msg \<and> take (length msg) (os_bytes sl) = msg \<and> length msg \<le> ORIGIN_LEN)"

definition og_rep :: "origin \<Rightarrow> (nat \<times> bytes) list \<Rightarrow> bool" where
  "og_rep q ms \<longleftrightarrow> length (og_slots q) = ORIGIN_CAPACITY \<and> list_all (\<lambda>sl. length (os_bytes sl) = ORIGIN_LEN) (og_slots q) \<and>
     og_head q < ORIGIN_CAPACITY \<and> og_len q = length ms \<and> length ms \<le> ORIGIN_CAPACITY \<and> og_waiting q = length ms \<and>
     (\<forall>i < length ms. slot_holds (ms ! i) (og_slots q ! ((og_head q + i) mod ORIGIN_CAPACITY)))"

fun emit_all :: "(nat \<Rightarrow> bytes \<Rightarrow> 's \<Rightarrow> bool \<times> 's) \<Rightarrow> (nat \<times> bytes) list \<Rightarrow> 's \<Rightarrow> nat \<times> 's" where
  "emit_all emit [] s = (0, s)"
| "emit_all emit ((cid, msg) # ms) s = (let (sent, s) = emit cid msg s; (gone, s) = emit_all emit ms s in (if sent then gone else gone + 1, s))"

lemma new_rep: "og_rep Origin_new []"
  by (simp add: og_rep_def Origin_new_def Slot_EMPTY_def list_all_iff)

lemma window_inj: "i < 64 \<Longrightarrow> j < 64 \<Longrightarrow> (h + i) mod 64 = (h + j) mod (64 :: nat) \<Longrightarrow> i = j"
proof (induction i j rule: linorder_wlog)
  case (le i j)
  then have "(64 :: nat) dvd (h + j) - (h + i)" using mod_eq_dvd_iff_nat [of "h + i" "h + j" 64] by simp
  then show ?case using le by (auto dest: dvd_imp_le)
qed simp

lemma submit_rep:
  assumes "og_rep q ms"
  shows "\<exists>q'. og_submit False cid msg q = (msg \<noteq> [] \<and> length msg \<le> ORIGIN_LEN \<and> length ms < ORIGIN_CAPACITY, q') \<and>
    og_rep q' (if msg \<noteq> [] \<and> length msg \<le> ORIGIN_LEN \<and> length ms < ORIGIN_CAPACITY then ms @ [(cid, msg)] else ms)"
proof (cases "msg \<noteq> [] \<and> length msg \<le> 512 \<and> length ms < 64")
  case True
  let ?at = "(og_head q + length ms) mod 64"
  let ?sl = "og_slots q ! ?at"
  have r: "length (og_slots q) = 64" "og_len q = length ms" "length (os_bytes ?sl) = 512" "?at < 64" "og_waiting q = length ms"
    using assms by (auto simp: og_rep_def list_all_length)
  let ?new = "?sl\<lparr>os_id := cid, os_len := length msg, os_bytes := msg @ drop (length msg) (os_bytes ?sl)\<rparr>"
  let ?q = "q\<lparr>og_slots := (og_slots q)[?at := ?new], og_len := length ms + 1, og_waiting := length ms + 1\<rparr>"
  have sub: "og_submit False cid msg q = (True, ?q)"
    using True r by (simp add: og_submit_def Let_def nth_opt_def write_at_def)
  have slots: "slot_holds ((ms @ [(cid, msg)]) ! i) ((og_slots q)[?at := ?new] ! ((og_head q + i) mod 64))" if i: "i < length ms + 1" for i
  proof (cases "i = length ms")
    case True
    then show ?thesis using r \<open>msg \<noteq> [] \<and> length msg \<le> 512 \<and> length ms < 64\<close> by (simp add: slot_holds_def)
  next
    case False
    then have "?at \<noteq> (og_head q + i) mod 64" using window_inj [of i "length ms" "og_head q"] i True by auto
    then show ?thesis using assms False i by (simp add: og_rep_def nth_append)
  qed
  have "og_rep ?q (ms @ [(cid, msg)])"
    unfolding og_rep_def using assms True r slots by (auto simp: og_rep_def list_all_length nth_list_update)
  then show ?thesis using sub True by simp
next
  case False
  then show ?thesis using assms by (auto simp: og_submit_def og_rep_def)
qed

lemma drain_slots_rep:
  assumes "length (og_slots q) = 64" "og_head q < 64" "\<forall>i < length ms. slot_holds (ms ! i) (og_slots q ! ((og_head q + i) mod 64))"
    "list_all (\<lambda>sl. length (os_bytes sl) = 512) (og_slots q)"
  shows "drain_slots emit (length ms) g q s =
    (g + fst (emit_all emit ms s), q\<lparr>og_head := (og_head q + length ms) mod 64\<rparr>, snd (emit_all emit ms s))"
  using assms
proof (induction ms arbitrary: g q s)
  case (Cons m ms)
  obtain cid msg where m: "m = (cid, msg)" by (cases m)
  have h: "slot_holds (cid, msg) (og_slots q ! og_head q)" using Cons.prems(2,3) by (auto simp: m dest!: spec [of _ 0])
  have l: "length (os_bytes (og_slots q ! og_head q)) = 512" using Cons.prems by (simp add: list_all_length)
  obtain sent s1 where e: "emit cid msg s = (sent, s1)" by fastforce
  let ?q = "q\<lparr>og_head := (og_head q + 1) mod 64\<rparr>"
  have "\<forall>i < length ms. slot_holds (ms ! i) (og_slots ?q ! ((og_head ?q + i) mod 64))"
  proof (intro allI impI)
    fix i assume "i < length ms"
    then have "slot_holds (ms ! i) (og_slots q ! ((og_head q + Suc i) mod 64))" using Cons.prems(3) [rule_format, of "Suc i"] by simp
    then show "slot_holds (ms ! i) (og_slots ?q ! ((og_head ?q + i) mod 64))" by (simp add: mod_simps)
  qed
  note ih = Cons.IH [of ?q, OF _ _ this]
  have "drain_slots emit (length (m # ms)) g q s = drain_slots emit (length ms) (if sent then g else g + 1) ?q s1"
    using h l e Cons.prems(1,2) by (simp add: nth_opt_def slot_holds_def get_range_def Let_def)
  then show ?case using ih Cons.prems e by (simp add: m Let_def mod_simps split: prod.split)
qed auto

text \<open>What an application submits is sent once, in order. \<open>submit\<close> takes a message of 1 to 512 bytes
  while fewer than 64 are waiting and puts it behind the others, and refuses every other message
  without a trace; a \<open>drain\<close> that gets the lock hands every waiting message to the engine in the order
  they were submitted, counts the ones whose connection is gone, and leaves the queue empty; one that
  does not get the lock leaves it as it is.\<close>

theorem origin_is_a_queue:
  assumes "og_rep q ms"
  shows "(\<exists>q'. og_submit False cid msg q = (msg \<noteq> [] \<and> length msg \<le> 512 \<and> length ms < 64, q') \<and>
      og_rep q' (if msg \<noteq> [] \<and> length msg \<le> 512 \<and> length ms < 64 then ms @ [(cid, msg)] else ms)) \<and>
    (\<exists>q'. og_drain False emit q s = (length ms, q', snd (emit_all emit ms s)) \<and> og_rep q' [] \<and>
      og_undeliverable q' = og_undeliverable q + fst (emit_all emit ms s)) \<and>
    (\<exists>q'. og_drain True emit q s = (0, q', s) \<and> og_rep q' ms)"
proof -
  let ?q = "q\<lparr>og_drains := og_drains q + 1\<rparr>"
  have "drain_slots emit (length ms) 0 ?q s = (0 + fst (emit_all emit ms s), ?q\<lparr>og_head := (og_head ?q + length ms) mod 64\<rparr>, snd (emit_all emit ms s))"
    using assms by (intro drain_slots_rep) (simp_all add: og_rep_def)
  moreover have "og_len q = length ms" using assms by (simp add: og_rep_def)
  ultimately have "\<exists>q'. og_drain False emit q s = (length ms, q', snd (emit_all emit ms s)) \<and> og_rep q' [] \<and>
      og_undeliverable q' = og_undeliverable q + fst (emit_all emit ms s)"
    using assms by (auto simp: og_drain_def Let_def og_rep_def)
  moreover have "\<exists>q'. og_drain True emit q s = (0, q', s) \<and> og_rep q' ms" using assms by (simp add: og_drain_def Let_def og_rep_def)
  ultimately show ?thesis using submit_rep [OF assms, of cid msg] by blast
qed

theorem origin_is_a_queue_witness:
  "\<exists>q. og_submit False 3 (b ''AB'') Origin_new = (True, q) \<and> og_rep q [(3, b ''AB'')]"
  using origin_is_a_queue [OF new_rep, of 3 "b ''AB''" "\<lambda>_ _ s. (True, s)" "()"] by (auto simp: b_def)

end
