(* ===== verification/Presession.thy ===== *)
theory Presession
  imports Frame Config "HOL-Library.Multiset"
begin

text \<open>
  A connection before it has a session, \<open>crates/engine/src/presession.rs\<close>: who a Logon says it is from,
  who this acceptor serves, the set of sockets that have not said yet, and the shard a counterparty
  goes to. A transport is its state with the two questions this stage asks of it, an argument; a
  registry is the function \<open>admit\<close>.
\<close>

subsection \<open>Who is calling\<close>

record identity =
  id_sender :: bytes
  id_target :: bytes
  id_sender_sub :: "bytes option"
  id_target_sub :: "bytes option"

definition comp_ids :: "bytes \<Rightarrow> bytes \<Rightarrow> identity" where
  "comp_ids sender target = \<lparr>id_sender = sender, id_target = target, id_sender_sub = None, id_target_sub = None\<rparr>"

definition strip_prefix :: "bytes \<Rightarrow> bytes \<Rightarrow> bytes option" where
  "strip_prefix tag xs = (if take (length tag) xs = tag then Some (drop (length tag) xs) else None)"

text \<open>The loop of \<open>field_value\<close>, over the bytes from \<open>at\<close> on.\<close>

function field_value :: "bytes \<Rightarrow> bytes \<Rightarrow> bytes option" where
  "field_value msg tag =
     (if msg = [] then None
      else case position (\<lambda>c. c = SOH) msg of
        None \<Rightarrow> None
      | Some fin \<Rightarrow> (case strip_prefix tag (take fin msg) of Some v \<Rightarrow> Some v | None \<Rightarrow> field_value (drop (fin + 1) msg) tag))"
  by auto
termination by (relation "measure (\<lambda>(msg, _). length msg)") auto

declare field_value.simps [simp del]

definition identity_of :: "bytes \<Rightarrow> identity option" where
  "identity_of msg =
     Option.bind (field_value msg (b ''49='')) (\<lambda>sender.
     Option.bind (field_value msg (b ''56='')) (\<lambda>target.
       Some \<lparr>id_sender = sender, id_target = target, id_sender_sub = field_value msg (b ''50=''), id_target_sub = field_value msg (b ''57='')\<rparr>))"

definition pre_is_logon :: "bytes \<Rightarrow> bool" where
  "pre_is_logon msg \<longleftrightarrow> field_value msg (b ''35='') = Some (b ''A'')"

subsection \<open>Who this acceptor serves\<close>

text \<open>An \<open>Entry\<close> is its configuration. \<open>Table\<close> and \<open>One\<close> keep the default \<open>admit\<close>, which asks \<open>lookup\<close>.\<close>

type_synonym registry = "identity \<Rightarrow> bytes \<Rightarrow> config option"

definition Table_serving :: "config \<Rightarrow> config list \<Rightarrow> config list" where
  "Table_serving cfg entries = entries @ [cfg]"

definition Table_lookup :: "config list \<Rightarrow> identity \<Rightarrow> config option" where
  "Table_lookup entries i = List.find (\<lambda>c. serves c (id_sender i) (id_target i)) entries"

definition Table_admit :: "config list \<Rightarrow> registry" where
  "Table_admit entries i logon = Table_lookup entries i"

definition One_lookup :: "config \<Rightarrow> identity \<Rightarrow> config option" where
  "One_lookup cfg i = (if serves cfg (id_sender i) (id_target i) then Some cfg else None)"

subsection \<open>Holding the socket\<close>

record limits =
  lm_pending :: nat
  lm_logon_ms :: nat
  lm_listener_every :: nat

datatype limit_error = NoPendingAllowed | NoTimeToLogOn | NoListenerCadence

definition Limits_new :: "nat \<Rightarrow> nat \<Rightarrow> limit_error + limits" where
  "Limits_new pending logon_ms =
     (if pending = 0 then Inl NoPendingAllowed
      else if logon_ms = 0 then Inl NoTimeToLogOn
      else Inr \<lparr>lm_pending = pending, lm_logon_ms = logon_ms, lm_listener_every = 16\<rparr>)"

definition with_listener_every :: "nat \<Rightarrow> limits \<Rightarrow> limit_error + limits" where
  "with_listener_every every l = (if every = 0 then Inl NoListenerCadence else Inr (l\<lparr>lm_listener_every := every\<rparr>))"

text \<open>What a transport answers: a read is \<open>Ready\<close> with the bytes put into the room it was given, a write
  with how many of the bytes it took.\<close>

datatype 'r io = Ready 'r | Idle | Closed | Failed

record 't transport =
  tp_recv :: "nat \<Rightarrow> 't \<Rightarrow> bytes io \<times> 't"
  tp_send :: "bytes \<Rightarrow> 't \<Rightarrow> nat io \<times> 't"
  tp_handshake_refused :: "'t \<Rightarrow> bool"

record 't pending =
  pd_transport :: 't
  pd_rx :: framer
  pd_deadline_ms :: nat
  pd_settled :: "(nat \<times> config) option"

definition pd_bytes :: "'t pending \<Rightarrow> bytes" where
  "pd_bytes p = fr_all (pd_rx p)"

definition pd_config :: "'t pending \<Rightarrow> config option" where
  "pd_config p = map_option snd (pd_settled p)"

definition pd_into_parts :: "'t pending \<Rightarrow> 't \<times> bytes \<times> nat" where
  "pd_into_parts p = (pd_transport p, fr_into_parts (pd_rx p))"

record progress =
  pg_settled :: nat
  pg_timed_out :: nat
  pg_not_logon :: nat
  pg_unknown :: nat
  pg_gone :: nat
  pg_unframeable :: nat
  pg_tls_refused :: nat

definition Progress_default :: progress where
  "Progress_default = \<lparr>pg_settled = 0, pg_timed_out = 0, pg_not_logon = 0, pg_unknown = 0, pg_gone = 0, pg_unframeable = 0, pg_tls_refused = 0\<rparr>"

record 't pending_set =
  ps_slots :: "'t pending list"
  ps_limits :: limits

definition PendingSet_new :: "limits \<Rightarrow> 't pending_set" where
  "PendingSet_new l = \<lparr>ps_slots = [], ps_limits = l\<rparr>"

text \<open>\<open>admit\<close>: \<open>Inl\<close> is \<open>Refused::Full\<close> with the transport handed back.\<close>

definition ps_admit :: "nat \<Rightarrow> 't \<Rightarrow> nat \<Rightarrow> 't pending_set \<Rightarrow> ('t + unit) \<times> 't pending_set" where
  "ps_admit PRE t now_ms s =
     (if length (ps_slots s) \<ge> lm_pending (ps_limits s) then (Inl t, s)
      else (Inr (), s\<lparr>ps_slots := ps_slots s @ [\<lparr>pd_transport = t, pd_rx = Framer_new PRE,
        pd_deadline_ms = min U64_MAX (now_ms + lm_logon_ms (ps_limits s)), pd_settled = None\<rparr>]\<rparr>))"

datatype pre_step = Waiting | Settled | TimedOut | NotLogon | Unknown | Gone | Unframeable | TlsRefused

definition rx_receive :: "bytes \<Rightarrow> framer \<Rightarrow> framer" where
  "rx_receive bs f =
     (let bs = take (length (fr_spare f)) bs in
      fr_filled (length bs) (f\<lparr>fr_buf := take (fr_len f) (fr_buf f) @ bs @ drop (length bs) (fr_spare f)\<rparr>))"

definition pre_judge :: "registry \<Rightarrow> nat \<Rightarrow> 't pending \<Rightarrow> pre_step \<times> 't pending" where
  "pre_judge admit now_ms slot =
     (case fr_cut (pd_rx slot) of
        Message n \<Rightarrow>
          let msg = fr_bytes n (pd_rx slot) in
          if \<not> pre_is_logon msg then (NotLogon, slot)
          else (case Option.bind (identity_of msg) (\<lambda>i. admit i msg) of
             None \<Rightarrow> (Unknown, slot)
           | Some cfg \<Rightarrow> (Settled, slot\<lparr>pd_settled := Some (n, cfg)\<rparr>))
      | Garbage _ \<Rightarrow> (Unframeable, slot)
      | Need \<Rightarrow> if now_ms \<ge> pd_deadline_ms slot then (TimedOut, slot) else (Waiting, slot))"

definition ps_advance :: "'t transport \<Rightarrow> registry \<Rightarrow> nat \<Rightarrow> 't pending \<Rightarrow> pre_step \<times> 't pending" where
  "ps_advance T admit now_ms slot =
     (if fr_spare (pd_rx slot) = [] then pre_judge admit now_ms slot
      else case tp_recv T (length (fr_spare (pd_rx slot))) (pd_transport slot) of
        (io, t) \<Rightarrow>
          let slot = slot\<lparr>pd_transport := t\<rparr>; left = (if tp_handshake_refused T t then TlsRefused else Gone) in
          (case io of
             Ready bs \<Rightarrow> pre_judge admit now_ms (slot\<lparr>pd_rx := rx_receive bs (pd_rx slot)\<rparr>)
           | Idle \<Rightarrow> pre_judge admit now_ms slot
           | Closed \<Rightarrow> (left, slot)
           | Failed \<Rightarrow> (left, slot)))"

definition swap_remove :: "nat \<Rightarrow> 'a list \<Rightarrow> 'a list" where
  "swap_remove i xs = (if i + 1 = length xs then butlast xs else (butlast xs)[i := last xs])"

fun pg_count :: "pre_step \<Rightarrow> progress \<Rightarrow> progress" where
  "pg_count Waiting p = p"
| "pg_count Settled p = p\<lparr>pg_settled := pg_settled p + 1\<rparr>"
| "pg_count TimedOut p = p\<lparr>pg_timed_out := pg_timed_out p + 1\<rparr>"
| "pg_count NotLogon p = p\<lparr>pg_not_logon := pg_not_logon p + 1\<rparr>"
| "pg_count Unknown p = p\<lparr>pg_unknown := pg_unknown p + 1\<rparr>"
| "pg_count Gone p = p\<lparr>pg_gone := pg_gone p + 1\<rparr>"
| "pg_count Unframeable p = p\<lparr>pg_unframeable := pg_unframeable p + 1\<rparr>"
| "pg_count TlsRefused p = p\<lparr>pg_tls_refused := pg_tls_refused p + 1\<rparr>"

definition stays :: "pre_step \<Rightarrow> bool" where
  "stays st \<longleftrightarrow> st = Waiting \<or> st = Settled"

lemma length_swap_remove: "i < length xs \<Longrightarrow> length (swap_remove i xs) = length xs - 1"
  by (simp add: swap_remove_def)

function turn_loop :: "('t pending \<Rightarrow> pre_step \<times> 't pending) \<Rightarrow> nat \<Rightarrow> 't pending list \<Rightarrow> progress \<Rightarrow> 't pending list \<times> progress" where
  "turn_loop adv i ss p =
     (if i < length ss then
        if pd_settled (ss ! i) \<noteq> None then turn_loop adv (i + 1) ss p
        else let (st, slot) = adv (ss ! i) in
          if stays st then turn_loop adv (i + 1) (ss[i := slot]) (pg_count st p)
          else turn_loop adv i (swap_remove i (ss[i := slot])) (pg_count st p)
      else (ss, p))"
  by auto
termination by (relation "measure (\<lambda>(_, i, ss, _). length ss - i)") (auto simp: length_swap_remove)

declare turn_loop.simps [simp del]

definition ps_turn :: "'t transport \<Rightarrow> registry \<Rightarrow> nat \<Rightarrow> 't pending_set \<Rightarrow> progress \<times> 't pending_set" where
  "ps_turn T admit now_ms s =
     (case turn_loop (ps_advance T admit now_ms) 0 (ps_slots s) Progress_default of (ss, p) \<Rightarrow> (p, s\<lparr>ps_slots := ss\<rparr>))"

definition earliest_deadline :: "'t pending_set \<Rightarrow> nat option" where
  "earliest_deadline s =
     (case map pd_deadline_ms (filter (\<lambda>p. pd_settled p = None) (ps_slots s)) of [] \<Rightarrow> None | d # ds \<Rightarrow> Some (fold min ds d))"

definition ps_settled :: "'t pending_set \<Rightarrow> nat option" where
  "ps_settled s = position (\<lambda>p. pd_settled p \<noteq> None) (ps_slots s)"

definition identity_at :: "nat \<Rightarrow> 't pending_set \<Rightarrow> identity option" where
  "identity_at i s =
     Option.bind (nth_opt (ps_slots s) i) (\<lambda>slot. Option.bind (pd_settled slot) (\<lambda>(n, _). identity_of (fr_bytes n (pd_rx slot))))"

definition ps_take :: "nat \<Rightarrow> 't pending_set \<Rightarrow> 't pending option \<times> 't pending_set" where
  "ps_take i s =
     (if i < length (ps_slots s) then (Some (ps_slots s ! i), s\<lparr>ps_slots := swap_remove i (ps_slots s)\<rparr>) else (None, s))"

subsection \<open>Choosing a shard\<close>

unbundle bit_operations_syntax

definition fnv_step :: "byte \<Rightarrow> 64 word \<Rightarrow> 64 word" where
  "fnv_step x h = (h XOR ucast x) * 0x100000001b3"

definition fnv1a :: "bytes \<Rightarrow> bytes \<Rightarrow> 64 word" where
  "fnv1a sender target = fold fnv_step target ((fold fnv_step sender 0xcbf29ce484222325 XOR 1) * 0x100000001b3)"

definition shard_for :: "identity \<Rightarrow> nat \<Rightarrow> nat" where
  "shard_for i shards = (if shards = 0 then 0 else unat (fnv1a (id_sender i) (id_target i)) mod shards)"

subsection \<open>A turn visits every connection once\<close>

text \<open>What a turn does with one connection: a settled one is left alone.\<close>

definition visit :: "('t pending \<Rightarrow> pre_step \<times> 't pending) \<Rightarrow> 't pending \<Rightarrow> pre_step \<times> 't pending" where
  "visit adv s = (if pd_settled s \<noteq> None then (Waiting, s) else adv s)"

definition kept_slots :: "('t pending \<Rightarrow> pre_step \<times> 't pending) \<Rightarrow> 't pending multiset \<Rightarrow> 't pending multiset" where
  "kept_slots adv M = image_mset (\<lambda>s. snd (visit adv s)) (filter_mset (\<lambda>s. stays (fst (visit adv s))) M)"

definition outcomes :: "('t pending \<Rightarrow> pre_step \<times> 't pending) \<Rightarrow> 't pending multiset \<Rightarrow> pre_step \<Rightarrow> nat" where
  "outcomes adv M st = size (filter_mset (\<lambda>s. fst (visit adv s) = st) M)"

lemma mset_swap_remove:
  assumes "i < length xs"
  shows "take i (swap_remove i xs) = take i xs" "mset (drop i (swap_remove i xs)) = mset (drop (i + 1) xs)"
proof -
  obtain ys x where xs: "xs = ys @ [x]" using assms by (cases xs rule: rev_cases) auto
  show "take i (swap_remove i xs) = take i xs" using assms by (auto simp: swap_remove_def xs)
  show "mset (drop i (swap_remove i xs)) = mset (drop (i + 1) xs)"
  proof (cases "i = length ys")
    case False
    then have i: "i < length ys" using assms by (simp add: xs)
    have "drop i (ys[i := x]) = x # drop (Suc i) ys" using i by (simp add: Cons_nth_drop_Suc [symmetric] drop_update_cancel)
    then show ?thesis using i by (simp add: swap_remove_def xs)
  qed (simp add: swap_remove_def xs)
qed

lemma swap_remove_add:
  assumes "i < length xs"
  shows "mset xs = add_mset (xs ! i) (mset (swap_remove i xs))"
proof -
  have "mset (swap_remove i xs) = mset (take i xs) + mset (drop (Suc i) xs)"
    using mset_swap_remove [OF assms] by (metis Suc_eq_plus1 append_take_drop_id mset_append)
  moreover have "mset xs = mset (take i xs) + add_mset (xs ! i) (mset (drop (Suc i) xs))"
    using assms by (metis Cons_nth_drop_Suc append_take_drop_id mset.simps(2) mset_append)
  ultimately show ?thesis by simp
qed

lemma pg_count_add:
  "pg_settled (pg_count st p) = pg_settled p + (if st = Settled then 1 else 0)"
  "pg_timed_out (pg_count st p) = pg_timed_out p + (if st = TimedOut then 1 else 0)"
  "pg_not_logon (pg_count st p) = pg_not_logon p + (if st = NotLogon then 1 else 0)"
  "pg_unknown (pg_count st p) = pg_unknown p + (if st = Unknown then 1 else 0)"
  "pg_gone (pg_count st p) = pg_gone p + (if st = Gone then 1 else 0)"
  "pg_unframeable (pg_count st p) = pg_unframeable p + (if st = Unframeable then 1 else 0)"
  "pg_tls_refused (pg_count st p) = pg_tls_refused p + (if st = TlsRefused then 1 else 0)"
  by (cases st; simp)+

definition counted :: "progress \<Rightarrow> (pre_step \<Rightarrow> nat) \<Rightarrow> progress \<Rightarrow> bool" where
  "counted p f q \<longleftrightarrow> pg_settled q = pg_settled p + f Settled \<and> pg_timed_out q = pg_timed_out p + f TimedOut \<and>
     pg_not_logon q = pg_not_logon p + f NotLogon \<and> pg_unknown q = pg_unknown p + f Unknown \<and> pg_gone q = pg_gone p + f Gone \<and>
     pg_unframeable q = pg_unframeable p + f Unframeable \<and> pg_tls_refused q = pg_tls_refused p + f TlsRefused"

lemma drop_nth: "i < length xs \<Longrightarrow> mset (drop i xs) = add_mset (xs ! i) (mset (drop (Suc i) xs))"
  by (simp flip: Cons_nth_drop_Suc)

lemma turn_loop_visits:
  "i \<le> length ss \<Longrightarrow> turn_loop adv i ss p = (ss', q) \<Longrightarrow>
   mset ss' = mset (take i ss) + kept_slots adv (mset (drop i ss)) \<and> counted p (outcomes adv (mset (drop i ss))) q"
proof (induction adv i ss p rule: turn_loop.induct)
  case (1 adv i ss p)
  show ?case
  proof (cases "i < length ss")
    case False
    then have "turn_loop adv i ss p = (ss, p)" by (subst turn_loop.simps) simp
    then show ?thesis using "1.prems" False by (simp add: kept_slots_def outcomes_def counted_def)
  next
    case True
    let ?x = "ss ! i"
    have d: "mset (drop i ss) = add_mset ?x (mset (drop (Suc i) ss))" by (rule drop_nth [OF True])
    have t: "mset (take (Suc i) (ss[i := y])) = add_mset y (mset (take i ss))" for y
      using True by (simp add: take_Suc_conv_app_nth)
    show ?thesis
    proof (cases "pd_settled ?x = None")
      case False
      then have "turn_loop adv (i + 1) ss p = (ss', q)" using "1.prems" True by (simp add: turn_loop.simps [of adv i ss p])
      moreover have "visit adv ?x = (Waiting, ?x)" using False by (simp add: visit_def)
      ultimately show ?thesis using "1.IH"(1) [OF True False] True t [of ?x]
        by (simp add: d kept_slots_def outcomes_def stays_def counted_def)
    next
      case None: True
      obtain st y where a: "adv ?x = (st, y)" by fastforce
      have v: "visit adv ?x = (st, y)" using None a by (simp add: visit_def)
      have cnt: "counted p (outcomes adv (mset (drop i ss))) q" if "counted (pg_count st p) (outcomes adv (mset (drop (Suc i) ss))) q"
        using that by (auto simp: counted_def pg_count_add d outcomes_def v)
      show ?thesis
      proof (cases "stays st")
        case True
        then have e: "turn_loop adv (i + 1) (ss[i := y]) (pg_count st p) = (ss', q)"
          using "1.prems" \<open>i < length ss\<close> None a by (simp add: turn_loop.simps [of adv i ss p])
        have "mset ss' = mset (take (i + 1) (ss[i := y])) + kept_slots adv (mset (drop (i + 1) (ss[i := y]))) \<and>
            counted (pg_count st p) (outcomes adv (mset (drop (i + 1) (ss[i := y])))) q"
          using "1.IH"(2) [OF \<open>i < length ss\<close> _ _ _ True _ e] None a \<open>i < length ss\<close> by simp
        then show ?thesis using cnt True t [of y] by (simp add: d kept_slots_def v)
      next
        case False
        let ?s = "swap_remove i (ss[i := y])"
        have e: "turn_loop adv i ?s (pg_count st p) = (ss', q)"
          using "1.prems" \<open>i < length ss\<close> None a False by (simp add: turn_loop.simps [of adv i ss p])
        have len: "i \<le> length ?s" using \<open>i < length ss\<close> by (simp add: length_swap_remove)
        have "mset ss' = mset (take i ?s) + kept_slots adv (mset (drop i ?s)) \<and> counted (pg_count st p) (outcomes adv (mset (drop i ?s))) q"
          using "1.IH"(3) [OF \<open>i < length ss\<close> _ _ _ False len e] None a by simp
        moreover have "take i ?s = take i ss" "mset (drop i ?s) = mset (drop (Suc i) ss)"
          using mset_swap_remove [of i "ss[i := y]"] \<open>i < length ss\<close> by simp_all
        ultimately show ?thesis using cnt False by (simp add: d kept_slots_def v)
      qed
    qed
  qed
qed

lemma all_outcomes:
  "size M = size (kept_slots adv M) + outcomes adv M TimedOut + outcomes adv M NotLogon + outcomes adv M Unknown + outcomes adv M Gone +
     outcomes adv M Unframeable + outcomes adv M TlsRefused"
proof (induction M)
  case (add x M)
  then show ?case by (cases "fst (visit adv x)") (simp_all add: kept_slots_def outcomes_def stays_def)
qed (simp add: kept_slots_def outcomes_def)

lemma turn_visits:
  assumes "ps_turn T admit now s = (p, s')"
  shows "mset (ps_slots s') = kept_slots (ps_advance T admit now) (mset (ps_slots s)) \<and>
    counted Progress_default (outcomes (ps_advance T admit now) (mset (ps_slots s))) p \<and>
    length (ps_slots s) = length (ps_slots s') + pg_timed_out p + pg_not_logon p + pg_unknown p + pg_gone p + pg_unframeable p + pg_tls_refused p"
proof -
  let ?adv = "ps_advance T admit now"
  obtain ss q where "turn_loop ?adv 0 (ps_slots s) Progress_default = (ss, q)" by fastforce
  then have l: "turn_loop ?adv 0 (ps_slots s) Progress_default = (ps_slots s', p)" using assms by (auto simp: ps_turn_def)
  from turn_loop_visits [OF _ l] have v: "mset (ps_slots s') = kept_slots ?adv (mset (ps_slots s))"
    "counted Progress_default (outcomes ?adv (mset (ps_slots s))) p" by simp_all
  have "length (ps_slots s') = size (kept_slots ?adv (mset (ps_slots s)))" using v(1) by (metis size_mset)
  then show ?thesis using v all_outcomes [of "mset (ps_slots s)" ?adv] by (auto simp: counted_def Progress_default_def)
qed

text \<open>A turn of the pre-session set deals with every connection exactly once, although it removes the
  ones it closes by moving the last connection into their place. The connections that remain are
  the settled ones, untouched, and the ones that are still waiting or have just settled, each as one
  \<open>advance\<close> left it; every other one is gone and counted under the one reason it was closed for, so
  that no connection is skipped, advanced twice or lost without a count.\<close>

theorem turn_visits_each_once:
  assumes "ps_turn T admit now s = (p, s')"
  shows "mset (ps_slots s') = kept_slots (ps_advance T admit now) (mset (ps_slots s)) \<and>
    counted Progress_default (outcomes (ps_advance T admit now) (mset (ps_slots s))) p \<and>
    length (ps_slots s) = length (ps_slots s') + pg_timed_out p + pg_not_logon p + pg_unknown p + pg_gone p + pg_unframeable p + pg_tls_refused p"
  by (rule turn_visits [OF assms])

subsection \<open>Who gets through\<close>

text \<open>The life of a pending set: sockets are admitted, turns are taken at a time that does not run
  backwards, and settled connections are handed on.\<close>

inductive presession_run :: "'t transport \<Rightarrow> registry \<Rightarrow> nat \<Rightarrow> limits \<Rightarrow> 't pending_set \<Rightarrow> bool" for T admit PRE l where
  start: "presession_run T admit PRE l (PendingSet_new l)"
| enter: "presession_run T admit PRE l s \<Longrightarrow> ps_admit PRE t now s = (r, s') \<Longrightarrow> presession_run T admit PRE l s'"
| turn: "presession_run T admit PRE l s \<Longrightarrow> ps_turn T admit now s = (p, s') \<Longrightarrow> presession_run T admit PRE l s'"
| leave: "presession_run T admit PRE l s \<Longrightarrow> ps_take i s = (r, s') \<Longrightarrow> presession_run T admit PRE l s'"

definition slot_ok :: "registry \<Rightarrow> 't pending \<Rightarrow> bool" where
  "slot_ok admit s \<longleftrightarrow> (\<forall>n cfg. pd_settled s = Some (n, cfg) \<longrightarrow> pre_is_logon (fr_bytes n (pd_rx s)) \<and>
     Option.bind (identity_of (fr_bytes n (pd_rx s))) (\<lambda>i. admit i (fr_bytes n (pd_rx s))) = Some cfg)"

definition set_ok :: "registry \<Rightarrow> limits \<Rightarrow> 't pending_set \<Rightarrow> bool" where
  "set_ok admit l s \<longleftrightarrow> ps_limits s = l \<and> length (ps_slots s) \<le> lm_pending l \<and> (\<forall>x \<in># mset (ps_slots s). slot_ok admit x)"

lemma judge_ok: "pd_settled s = None \<Longrightarrow> slot_ok admit (snd (pre_judge admit now s))"
  by (auto simp: pre_judge_def slot_ok_def Let_def split: cut.split option.split)

lemma advance_ok: "pd_settled s = None \<Longrightarrow> slot_ok admit (snd (ps_advance T admit now s))"
  by (auto simp: ps_advance_def Let_def judge_ok split: prod.split io.split) (simp_all add: slot_ok_def)

lemma visit_ok: "slot_ok admit s \<Longrightarrow> slot_ok admit (snd (visit (ps_advance T admit now) s))"
  using advance_ok [of s admit T now] by (cases "pd_settled s") (auto simp: visit_def)

lemma set_swap_remove: "i < length xs \<Longrightarrow> mset (swap_remove i xs) \<subseteq># mset xs"
  using swap_remove_add [of i xs] by simp

lemma presession_ok: "presession_run T admit PRE l s \<Longrightarrow> set_ok admit l s"
proof (induction rule: presession_run.induct)
  case start
  then show ?case by (simp add: set_ok_def PendingSet_new_def)
next
  case (enter s t now r s')
  then show ?case by (auto simp: set_ok_def ps_admit_def slot_ok_def split: if_splits)
next
  case (turn s now p s')
  have m: "mset (ps_slots s') = kept_slots (ps_advance T admit now) (mset (ps_slots s))" "length (ps_slots s') \<le> length (ps_slots s)"
    using turn_visits [OF turn.hyps(2)] by simp_all
  have "ps_limits s' = ps_limits s" using turn.hyps(2) by (auto simp: ps_turn_def split: prod.splits)
  then show ?case using turn.IH m by (auto simp: set_ok_def kept_slots_def visit_ok)
next
  case (leave s i r s')
  show ?case
  proof (cases "i < length (ps_slots s)")
    case True
    then show ?thesis using leave set_swap_remove [OF True] by (auto simp: set_ok_def ps_take_def length_swap_remove dest: mset_subset_eqD)
  qed (use leave in \<open>auto simp: ps_take_def\<close>)
qed

text \<open>C29: Nobody gets a session by default. Whatever happens to the pending set, a connection that has
  settled sent a Logon whose SenderCompID and TargetCompID one of the configured sessions serves, and
  the configuration it settled with is one of those that serve it; and there are never more pending
  connections than the limit.\<close>

theorem settled_is_a_served_logon:
  assumes "presession_run T (Table_admit entries) PRE l s" "x \<in> set (ps_slots s)" "pd_settled x = Some (n, cfg)"
  shows "length (ps_slots s) \<le> lm_pending l \<and> pre_is_logon (fr_bytes n (pd_rx x)) \<and> cfg \<in> set entries \<and>
    (\<exists>i. identity_of (fr_bytes n (pd_rx x)) = Some i \<and> serves cfg (id_sender i) (id_target i))"
proof -
  have ok: "length (ps_slots s) \<le> lm_pending l" "slot_ok (Table_admit entries) x" using presession_ok [OF assms(1)] assms(2) by (simp_all add: set_ok_def)
  then obtain i where i: "pre_is_logon (fr_bytes n (pd_rx x))" "identity_of (fr_bytes n (pd_rx x)) = Some i"
      "List.find (\<lambda>c. serves c (id_sender i) (id_target i)) entries = Some cfg"
    using assms(3) by (auto simp: slot_ok_def Table_admit_def Table_lookup_def bind_eq_Some_conv)
  then show ?thesis using ok(1) by (auto simp: find_Some_iff)
qed

subsection \<open>The identity is the one the codec reads\<close>

lemma until_EQ: "takeWhile (\<lambda>c. c \<noteq> EQ_SIGN) (dec_digits n @ EQ_SIGN # ys) = dec_digits n"
  using EQ_notin_digits [OF all_digits_dec_digits, of n] by (subst takeWhile_append2) auto

lemma strip_tag: "strip_prefix (dec_digits t @ [EQ_SIGN]) (dec_digits u @ EQ_SIGN # v) = (if t = u then Some v else None)"
proof (cases "t = u")
  case False
  have "take (length (dec_digits t @ [EQ_SIGN])) (dec_digits u @ EQ_SIGN # v) \<noteq> dec_digits t @ [EQ_SIGN]"
  proof
    assume e: "take (length (dec_digits t @ [EQ_SIGN])) (dec_digits u @ EQ_SIGN # v) = dec_digits t @ [EQ_SIGN]"
    obtain zs where z: "dec_digits u @ EQ_SIGN # v = dec_digits t @ EQ_SIGN # zs"
      using append_take_drop_id [of "length (dec_digits t @ [EQ_SIGN])" "dec_digits u @ EQ_SIGN # v"] unfolding e by (metis append.assoc append_Cons append_Nil)
    have "dec_digits u = dec_digits t" using until_EQ [of u v] until_EQ [of t zs] unfolding z by simp
    then show False using False by (metis dec_value_dec_digits)
  qed
  then show ?thesis using False by (simp add: strip_prefix_def del: length_append)
qed (simp add: strip_prefix_def)

lemma field_value_chunk:
  assumes "SOH \<notin> set f"
  shows "field_value (f @ SOH # rest) tag = (case strip_prefix tag f of Some v \<Rightarrow> Some v | None \<Rightarrow> field_value rest tag)"
proof -
  have "position (\<lambda>c. c = SOH) (f @ SOH # rest) = Some (length f)" using assms by (intro position_skip) auto
  then show ?thesis by (subst field_value.simps) (simp split: option.split)
qed

lemma field_value_field:
  assumes "SOH \<notin> set v"
  shows "field_value (wire_field (u, v) @ rest) (dec_digits t @ [EQ_SIGN]) = (if t = u then Some v else field_value rest (dec_digits t @ [EQ_SIGN]))"
proof -
  have "SOH \<notin> set (dec_digits u @ EQ_SIGN # v)" using assms SOH_notin_digits [OF all_digits_dec_digits, of u] by simp
  from field_value_chunk [OF this, of rest "dec_digits t @ [EQ_SIGN]"] show ?thesis by (simp add: wire_field_def strip_tag)
qed

lemma field_value_body:
  assumes "\<forall>(u, v) \<in> set fs. SOH \<notin> set v"
  shows "field_value (wire_body fs @ rest) (dec_digits t @ [EQ_SIGN]) =
    (case map_of fs t of Some v \<Rightarrow> Some v | None \<Rightarrow> field_value rest (dec_digits t @ [EQ_SIGN]))"
  using assms by (induction fs) (auto simp: wire_body_def field_value_field)

lemma field_value_Nil: "field_value [] tag = None"
  by (subst field_value.simps) simp

lemma field_value_frame:
  assumes "\<forall>(u, v) \<in> set fs. SOH \<notin> set v" "SOH \<notin> set bstr" "t \<notin> {8, 9, 10}"
  shows "field_value (wire_frame bstr (wire_body fs)) (dec_digits t @ [EQ_SIGN]) = map_of fs t"
proof -
  let ?body = "wire_body fs" and ?c = "format_checksum (checksum (wire_prefix bstr (wire_body fs)))"
  have d: "b ''8='' = dec_digits 8 @ [EQ_SIGN]" "b ''9='' = dec_digits 9 @ [EQ_SIGN]" "b ''10='' = dec_digits 10 @ [EQ_SIGN]"
    by (simp_all add: b_def dec_digits.simps digit_byte_def)
  have "wire_frame bstr ?body = wire_field (8, bstr) @ wire_field (9, dec_digits (length ?body)) @ ?body @ wire_field (10, ?c) @ []"
    by (simp add: wire_frame_def wire_prefix_def wire_field_def d)
  moreover have "SOH \<notin> set ?c" "SOH \<notin> set (dec_digits (length ?body))" by (simp_all add: SOH_notin_digits format_checksum_value)
  ultimately show ?thesis
    using assms field_value_field [of ?c 10 "[]" t] by (simp add: field_value_field field_value_body field_value_Nil split: option.split)
qed

text \<open>The pre-session stage reads the identity the session will read. For every frame whose values
  hold no separator, \<open>identity_of\<close> answers the first values of 49 and 56, with those of 50 and 57 where
  the message has them, exactly when 49 and 56 are both there, and the test for a Logon is the test
  of the value of 35; the body length, the order of the fields and the checksum do not matter.\<close>

theorem identity_is_read_from_the_fields:
  assumes "\<forall>(u, v) \<in> set fs. SOH \<notin> set v" "SOH \<notin> set bstr"
  shows "identity_of (wire_frame bstr (wire_body fs)) =
      (case (map_of fs 49, map_of fs 56) of
         (Some s, Some t) \<Rightarrow> Some \<lparr>id_sender = s, id_target = t, id_sender_sub = map_of fs 50, id_target_sub = map_of fs 57\<rparr>
       | _ \<Rightarrow> None) \<and>
    (pre_is_logon (wire_frame bstr (wire_body fs)) \<longleftrightarrow> map_of fs 35 = Some (b ''A''))"
proof -
  have d: "b ''49='' = dec_digits 49 @ [EQ_SIGN]" "b ''56='' = dec_digits 56 @ [EQ_SIGN]" "b ''50='' = dec_digits 50 @ [EQ_SIGN]"
    "b ''57='' = dec_digits 57 @ [EQ_SIGN]" "b ''35='' = dec_digits 35 @ [EQ_SIGN]"
    by (simp_all add: b_def dec_digits.simps digit_byte_def)
  note f = field_value_frame [OF assms]
  show ?thesis unfolding identity_of_def pre_is_logon_def d using f [of 49] f [of 56] f [of 50] f [of 57] f [of 35]
    by (simp split: option.split)
qed

text \<open>A counterparty goes to one of the shards there are, always the same one.\<close>

lemma fnv1a_separated: "fnv1a sender target = fold fnv_step (sender @ SOH # target) 0xcbf29ce484222325"
  by (simp add: fnv1a_def fnv_step_def)

lemma shard_in_range: "0 < shards \<Longrightarrow> shard_for i shards < shards"
  by (simp add: shard_for_def)

text \<open>A transport that answers once with the bytes it holds, and a message set of one session.\<close>

definition sample_transport :: "bytes transport" where
  "sample_transport = \<lparr>tp_recv = (\<lambda>n t. if t = [] then (Idle, []) else (Ready (take n t), drop n t)), tp_send = (\<lambda>bs t. (Ready (length bs), t)), tp_handshake_refused = (\<lambda>_. False)\<rparr>"

definition sample_limits :: limits where
  "sample_limits = \<lparr>lm_pending = 2, lm_logon_ms = 100, lm_listener_every = 16\<rparr>"

definition sample_logon :: "(nat \<times> bytes) list" where
  "sample_logon = [(35, b ''A''), (49, b ''C''), (56, b ''S'')]"

theorem identity_is_read_from_the_fields_witness:
  "identity_of (wire_frame (b ''FIX.4.4'') (wire_body sample_logon)) =
    Some \<lparr>id_sender = b ''C'', id_target = b ''S'', id_sender_sub = None, id_target_sub = None\<rparr>"
proof -
  have "\<forall>(u, v) \<in> set sample_logon. SOH \<notin> set v" "SOH \<notin> set (b ''FIX.4.4'')" by (simp_all add: sample_logon_def b_def)
  from identity_is_read_from_the_fields [OF this] show ?thesis by (simp add: sample_logon_def)
qed

theorem turn_visits_each_once_witness:
  "\<exists>p s. ps_turn sample_transport (\<lambda>_ _. None) 100
      \<lparr>ps_slots = [\<lparr>pd_transport = [], pd_rx = Framer_new 8, pd_deadline_ms = 50, pd_settled = None\<rparr>,
        \<lparr>pd_transport = [], pd_rx = Framer_new 8, pd_deadline_ms = 150, pd_settled = None\<rparr>], ps_limits = sample_limits\<rparr> = (p, s) \<and>
    length (ps_slots s) = 1 \<and> pg_timed_out p = 1"
proof -
  define x where "x d = \<lparr>pd_transport = [] :: bytes, pd_rx = Framer_new 8, pd_deadline_ms = d, pd_settled = None\<rparr>" for d
  obtain p s where t: "ps_turn sample_transport (\<lambda>_ _. None) 100 \<lparr>ps_slots = [x 50, x 150], ps_limits = sample_limits\<rparr> = (p, s)" by fastforce
  have v: "fst (visit (ps_advance sample_transport (\<lambda>_ _. None) 100) (x 50)) = TimedOut"
    "fst (visit (ps_advance sample_transport (\<lambda>_ _. None) 100) (x 150)) = Waiting"
    by (simp_all add: visit_def x_def ps_advance_def sample_transport_def Framer_new_def fr_spare_def pre_judge_def fr_cut_def fr_all_def cut_bytes_def)
  from turn_visits_each_once [OF t] have "pg_timed_out p = 1" "2 = length (ps_slots s) + 1"
    using v by (simp_all add: counted_def Progress_default_def outcomes_def)
  then show ?thesis using t unfolding x_def by (intro exI [of _ p] exI [of _ s]) simp
qed

definition sample_config :: config where
  "sample_config = Config_acceptor (b ''FIX.4.4'') (b ''S'') (b ''C'')"

lemma receive_all: "length bs \<le> N \<Longrightarrow> fr_all (rx_receive bs (Framer_new N)) = bs \<and> fr_len (rx_receive bs (Framer_new N)) = length bs"
  by (simp add: rx_receive_def Framer_new_def fr_spare_def fr_filled_def fr_all_def Let_def)

theorem settled_is_a_served_logon_witness:
  "\<exists>s x n. presession_run sample_transport (Table_admit [sample_config]) 64 sample_limits s \<and> ps_slots s = [x] \<and> pd_settled x = Some (n, sample_config) \<and>
    pre_is_logon (fr_bytes n (pd_rx x))"
proof -
  let ?adm = "Table_admit [sample_config]" and ?m = "wire_frame (b ''FIX.4.4'') (wire_body sample_logon)"
  have ok: "\<forall>(u, v) \<in> set sample_logon. SOH \<notin> set v" "SOH \<notin> set (b ''FIX.4.4'')" "length (wire_body sample_logon) < 10 ^ 9"
    by (simp_all add: sample_logon_def b_def wire_body_def wire_field_def dec_digits.simps)
  have len: "length ?m \<le> 64"
    by (simp add: wire_frame_def wire_prefix_def sample_logon_def b_def wire_body_def wire_field_def dec_digits.simps format_checksum_digits)
  define x where "x = \<lparr>pd_transport = ?m, pd_rx = Framer_new 64, pd_deadline_ms = 100, pd_settled = None\<rparr>"
  define y where "y = x\<lparr>pd_transport := [], pd_rx := rx_receive ?m (Framer_new 64), pd_settled := Some (length ?m, sample_config)\<rparr>"
  have r: "fr_all (rx_receive ?m (Framer_new 64)) = ?m" "fr_len (rx_receive ?m (Framer_new 64)) = length ?m" using receive_all [OF len] by simp_all
  have whole: "fr_bytes (length ?m) (rx_receive ?m (Framer_new 64)) = ?m" using r by (simp add: fr_bytes_all)
  have cut: "fr_cut (rx_receive ?m (Framer_new 64)) = Message (length ?m)" using cut_frame [OF ok(2,3), of _ "[]"] r(1) by (simp add: fr_cut_def)
  have f: "field_value ?m (dec_digits t @ [EQ_SIGN]) = map_of sample_logon t" if "t \<notin> {8, 9, 10}" for t by (rule field_value_frame [OF ok(1,2) that])
  have lg: "pre_is_logon ?m" using f [of 35] by (simp add: pre_is_logon_def b_def dec_digits.simps digit_byte_def sample_logon_def)
  have idy: "identity_of ?m = Some \<lparr>id_sender = b ''C'', id_target = b ''S'', id_sender_sub = None, id_target_sub = None\<rparr>"
    using f [of 49] f [of 56] f [of 50] f [of 57] by (simp add: identity_of_def b_def dec_digits.simps digit_byte_def sample_logon_def)
  have spare: "fr_spare (Framer_new 64) = replicate 64 0" by (simp add: fr_spare_def Framer_new_def)
  have ne: "?m \<noteq> []" by (simp add: wire_frame_def)
  have adv: "ps_advance sample_transport ?adm 0 x = (Settled, y)"
    using ne len cut whole lg idy spare
    by (simp add: ps_advance_def sample_transport_def x_def y_def pre_judge_def Table_admit_def Table_lookup_def serves_def
        sample_config_def Config_acceptor_def inbound_sender_matches_def inbound_target_matches_def nm_matches_new Let_def)
      (simp add: b_def)
  have s1: "ps_admit 64 ?m 0 (PendingSet_new sample_limits) = (Inr (), \<lparr>ps_slots = [x], ps_limits = sample_limits\<rparr>)"
    by (simp add: ps_admit_def PendingSet_new_def sample_limits_def x_def)
  have s2: "ps_turn sample_transport ?adm 0 \<lparr>ps_slots = [x], ps_limits = sample_limits\<rparr> = (Progress_default\<lparr>pg_settled := 1\<rparr>, \<lparr>ps_slots = [y], ps_limits = sample_limits\<rparr>)"
    using adv by (simp add: ps_turn_def turn_loop.simps stays_def x_def Progress_default_def)
  have run: "presession_run sample_transport ?adm 64 sample_limits \<lparr>ps_slots = [y], ps_limits = sample_limits\<rparr>"
    by (rule presession_run.turn [OF presession_run.enter [OF presession_run.start s1] s2])
  from settled_is_a_served_logon [OF run, of y "length ?m" sample_config] show ?thesis
    using run by (intro exI [of _ "\<lparr>ps_slots = [y], ps_limits = sample_limits\<rparr>"] exI [of _ y] exI [of _ "length ?m"]) (simp add: y_def)
qed

end
