(* ===== verification/Conn.thy ===== *)
theory Conn
  imports Presession Origin Session_Send "HOL-Library.Monad_Syntax"
begin

text \<open>
  One connection, \<open>crates/engine/src/conn.rs\<close>: it reads the socket, cuts messages, lets the session judge
  them, and queues what the session says for the socket to take. The session model keeps what an
  operation emitted as a list; the connection pushes that list onto its queue in order, as the
  source does from inside the closure (a push has no answer the session could depend on). With the
  policy \<open>Block\<close> a push waits for the socket and may not return: the operations answer an option, and
  \<open>None\<close> is a call that never returns. \<open>cn_said\<close>, \<open>cn_taken\<close> and \<open>cn_purged\<close> only observe: the messages
  that were queued, the bytes the socket has taken, and whether the queue was thrown away. Recording messages in the
  log has no effect on the connection and is left out; a transport reports at most the bytes it was
  offered.
\<close>

subsection \<open>The connection\<close>

datatype turn = TurnUp bool | TurnGone

record ('t, 'j) conn =
  cn_id :: nat
  cn_unsent :: nat
  cn_shard :: nat
  cn_transport :: 't
  cn_session :: session
  cn_journal :: 'j
  cn_rx :: framer
  cn_tx :: bytes
  cn_tx_len :: nat
  cn_closing :: bool
  cn_refused :: bool
  cn_dead :: bool
  cn_policy :: backpressure
  cn_overflow :: bool
  cn_said :: "bytes list"
  cn_taken :: bytes
  cn_purged :: bool

definition Conn_new :: "nat \<Rightarrow> nat \<Rightarrow> nat \<Rightarrow> 't \<Rightarrow> session \<Rightarrow> 'j \<Rightarrow> ('t, 'j) conn" where
  "Conn_new RX TX cid t s j =
     \<lparr>cn_id = cid, cn_unsent = 0, cn_shard = 0, cn_transport = t, cn_session = s, cn_journal = j, cn_rx = Framer_new RX, cn_tx = replicate TX 0,
      cn_tx_len = 0, cn_closing = False, cn_refused = False, cn_dead = False, cn_policy = Disconnect, cn_overflow = False,
      cn_said = [], cn_taken = [], cn_purged = False\<rparr>"

definition cn_prime :: "bytes \<Rightarrow> ('t, 'j) conn \<Rightarrow> bool \<times> ('t, 'j) conn" where
  "cn_prime bs c = (if length bs > length (fr_spare (cn_rx c)) then (False, c) else (True, c\<lparr>cn_rx := rx_receive bs (cn_rx c)\<rparr>))"

definition cn_with_shard :: "nat \<Rightarrow> ('t, 'j) conn \<Rightarrow> ('t, 'j) conn" where "cn_with_shard n c = c\<lparr>cn_shard := n\<rparr>"
definition cn_with_backpressure :: "backpressure \<Rightarrow> ('t, 'j) conn \<Rightarrow> ('t, 'j) conn" where "cn_with_backpressure p c = c\<lparr>cn_policy := p\<rparr>"
definition cn_bound :: "('t, 'j) conn \<Rightarrow> nat" where "cn_bound c = bp_bound (cn_policy c) (length (cn_tx c))"
definition cn_has_pending_output :: "('t, 'j) conn \<Rightarrow> bool" where "cn_has_pending_output c \<longleftrightarrow> cn_tx_len c > 0"

subsection \<open>The outbound queue\<close>

abbreviation cn_queue :: "('t, 'j) conn \<Rightarrow> bytes" where "cn_queue c \<equiv> take (cn_tx_len c) (cn_tx c)"

text \<open>The socket took \<open>n\<close> bytes: the rest moves to the front.\<close>

definition cn_drained :: "nat \<Rightarrow> 't \<Rightarrow> ('t, 'j) conn \<Rightarrow> ('t, 'j) conn" where
  "cn_drained n t c =
     (let rest = drop n (cn_queue c) in
      c\<lparr>cn_transport := t, cn_tx := rest @ drop (length rest) (cn_tx c), cn_tx_len := cn_tx_len c - n, cn_taken := cn_taken c @ take n (cn_queue c)\<rparr>)"

partial_function (option) make_room :: "'t transport \<Rightarrow> nat \<Rightarrow> nat \<Rightarrow> ('t, 'j) conn \<Rightarrow> (bool \<times> ('t, 'j) conn) option" where
  "make_room T bound len c =
     (if cn_tx_len c + len > bound
      then case tp_send T (cn_queue c) (cn_transport c) of
        (Ready n, t) \<Rightarrow> make_room T bound len (cn_drained n t c)
      | (Idle, t) \<Rightarrow> make_room T bound len (c\<lparr>cn_transport := t\<rparr>)
      | (_, t) \<Rightarrow> Some (False, c\<lparr>cn_transport := t, cn_dead := True\<rparr>)
      else Some (True, c))"

definition cn_put :: "nat \<Rightarrow> bytes \<Rightarrow> ('t, 'j) conn \<Rightarrow> ('t, 'j) conn" where
  "cn_put bound bs c =
     (if cn_tx_len c + length bs > bound then c\<lparr>cn_overflow := True\<rparr>
      else c\<lparr>cn_tx := take (cn_tx_len c) (cn_tx c) @ bs @ drop (cn_tx_len c + length bs) (cn_tx c), cn_tx_len := cn_tx_len c + length bs,
             cn_said := cn_said c @ [bs]\<rparr>)"

definition cn_push :: "'t transport \<Rightarrow> nat \<Rightarrow> bool \<Rightarrow> bytes \<Rightarrow> ('t, 'j) conn \<Rightarrow> ('t, 'j) conn option" where
  "cn_push T bound blocks bs c =
     (if blocks
      then Option.bind (make_room T bound (length bs) c) (\<lambda>(room, c). Some (if room then cn_put bound bs c else c))
      else Some (cn_put bound bs c))"

fun cn_push_all :: "'t transport \<Rightarrow> nat \<Rightarrow> bool \<Rightarrow> bytes list \<Rightarrow> ('t, 'j) conn \<Rightarrow> ('t, 'j) conn option" where
  "cn_push_all T bound blocks [] c = Some c"
| "cn_push_all T bound blocks (m # ms) c = Option.bind (cn_push T bound blocks m c) (cn_push_all T bound blocks ms)"

text \<open>The session and the journal after an operation, and its messages onto the queue.\<close>

definition cn_emit :: "'t transport \<Rightarrow> nat \<Rightarrow> bool \<Rightarrow> session \<Rightarrow> 'j \<Rightarrow> ('t, 'j) conn \<Rightarrow> ('t, 'j) conn option" where
  "cn_emit T bound blocks s j c = cn_push_all T bound blocks (s_wire s) (c\<lparr>cn_session := s\<lparr>s_wire := []\<rparr>, cn_journal := j\<rparr>)"

definition cn_flush :: "'t transport \<Rightarrow> ('t, 'j) conn \<Rightarrow> bool \<times> ('t, 'j) conn" where
  "cn_flush T c =
     (if cn_tx_len c = 0 then (False, c)
      else case tp_send T (cn_queue c) (cn_transport c) of
        (Ready n, t) \<Rightarrow> (True, cn_drained n t c)
      | (Idle, t) \<Rightarrow> (False, c\<lparr>cn_transport := t\<rparr>)
      | (_, t) \<Rightarrow> (False, c\<lparr>cn_transport := t, cn_closing := True, cn_dead := True\<rparr>))"

abbreviation SLOW_CONSUMER :: bytes where "SLOW_CONSUMER \<equiv> b ''slow consumer''"
abbreviation SLOW_APPLICATION :: bytes where "SLOW_APPLICATION \<equiv> b ''slow application''"
abbreviation SHUTTING_DOWN :: bytes where "SHUTTING_DOWN \<equiv> b ''shutting down''"

definition cn_slow_consumer :: "('a, 'j) env \<Rightarrow> 't transport \<Rightarrow> ('t, 'j) conn \<Rightarrow> ('t, 'j) conn option" where
  "cn_slow_consumer e T c =
     (let c = c\<lparr>cn_tx_len := 0, cn_overflow := False, cn_purged := True\<rparr>;
          (_, s, j) = logout_now_with e SLOW_CONSUMER (cn_session c) (cn_journal c) in
      Option.bind (cn_emit T (length (cn_tx c)) False s j c) (\<lambda>c.
        Some (c\<lparr>cn_session := note_drop_reason DrSlowConsumer (cn_session c), cn_overflow := False, cn_closing := True\<rparr>)))"

definition cn_if_overflow :: "('a, 'j) env \<Rightarrow> 't transport \<Rightarrow> ('t, 'j) conn \<Rightarrow> ('t, 'j) conn option" where
  "cn_if_overflow e T c = (if cn_overflow c then cn_slow_consumer e T c else Some c)"

subsection \<open>What the engine does with a connection\<close>

definition cn_opened :: "('a, 'j) env \<Rightarrow> 't transport \<Rightarrow> ('t, 'j) conn \<Rightarrow> ('t, 'j) conn option" where
  "cn_opened e T c =
     (let (l, s) = connect e (cn_session c) in
      Option.bind (cn_emit T (cn_bound c) (bp_blocks (cn_policy c)) s (cn_journal c) c) (\<lambda>c.
        Some (c\<lparr>cn_closing := (cn_closing c \<or> l = Dropped)\<rparr>)))"

definition cn_send_application :: "('a, 'j) env \<Rightarrow> 't transport \<Rightarrow> bytes \<Rightarrow> ('t, 'j) conn \<Rightarrow> ('t, 'j) conn option" where
  "cn_send_application e T msg c =
     (let (l, s, j) = send_application e msg (cn_session c) (cn_journal c) in
      Option.bind (cn_emit T (cn_bound c) (bp_blocks (cn_policy c)) s j c) (\<lambda>c.
      Option.bind (cn_if_overflow e T (if l = Dropped then c\<lparr>cn_closing := True\<rparr> else c)) (\<lambda>c.
        Some (snd (cn_flush T c)))))"

definition cn_refuse_without_a_session :: "drop_reason \<Rightarrow> ('t, 'j) conn \<Rightarrow> ('t, 'j) conn" where
  "cn_refuse_without_a_session why c =
     c\<lparr>cn_session := note_drop_reason why (cn_session c), cn_refused := True, cn_closing := True, cn_dead := True\<rparr>"

text \<open>What a turn works on beside the connection: the application, and the closure that refuses a
  message (with its state).\<close>

type_synonym ('t, 'j, 'a, 'g) at_work = "('t, 'j) conn \<times> 'a \<times> 'g"

definition cn_tick :: "('a, 'j) env \<Rightarrow> 't transport \<Rightarrow> nat \<Rightarrow> nat \<Rightarrow> ('t, 'j) conn \<Rightarrow> ('t, 'j) conn option" where
  "cn_tick e T now_ms sub c =
     (if cn_closing c then Some c
      else let (l, s, j) = tick_at_with e now_ms sub (cn_session c) (cn_journal c) in
        Option.bind (cn_emit T (cn_bound c) (bp_blocks (cn_policy c)) s j c) (\<lambda>c.
          cn_if_overflow e T (if l = Dropped then c\<lparr>cn_closing := True\<rparr> else c)))"

text \<open>One message: refused, judged with the connection going on, or judged with the loop at an end.\<close>

datatype handled = HRefused | HStop | HGo

definition cn_received :: "('a, 'j) env \<Rightarrow> 't transport \<Rightarrow> (bytes \<Rightarrow> 'g \<Rightarrow> bool \<times> 'g) \<Rightarrow> bytes \<Rightarrow> ('t, 'j, 'a, 'g) at_work \<Rightarrow>
    (handled \<times> ('t, 'j, 'a, 'g) at_work) option" where
  "cn_received e T refuse msg = (\<lambda>(c, a, g).
     let (no, g) = refuse msg g in
     if no then Some (HRefused, c\<lparr>cn_session := snd (disconnect_with DrDuplicateIdentity (cn_session c))\<rparr>, a, g)
     else let (l, v) = received_with e msg \<lparr>w_ses = cn_session c, w_app = a, w_jnl = cn_journal c\<rparr> in
       Option.bind (cn_emit T (cn_bound c) (bp_blocks (cn_policy c)) (w_ses v) (w_jnl v) c) (\<lambda>c.
         if l = Dropped then Some (HStop, c\<lparr>cn_closing := True\<rparr>, w_app v, g)
         else if cn_overflow c then Option.bind (cn_slow_consumer e T c) (\<lambda>c. Some (HStop, c, w_app v, g))
         else Some (HGo, c, w_app v, g)))"

text \<open>The loop over what has been received. The answer says whether a message was refused and whether
  anything moved.\<close>

function cn_cuts :: "('a, 'j) env \<Rightarrow> 't transport \<Rightarrow> (bytes \<Rightarrow> 'g \<Rightarrow> bool \<times> 'g) \<Rightarrow> framer \<Rightarrow> bool \<Rightarrow> ('t, 'j, 'a, 'g) at_work \<Rightarrow>
    (bool \<times> bool \<times> framer \<times> ('t, 'j, 'a, 'g) at_work) option" where
  "cn_cuts e T refuse rx moved w =
     (case fr_cut rx of
        Need \<Rightarrow> Some (False, moved, rx, w)
      | Message n \<Rightarrow> (case cn_received e T refuse (fr_bytes n rx) w of
            None \<Rightarrow> None
          | Some (HRefused, w) \<Rightarrow> Some (True, True, fr_take n rx, w)
          | Some (HStop, w) \<Rightarrow> Some (False, True, fr_take n rx, w)
          | Some (HGo, w) \<Rightarrow> cn_cuts e T refuse (fr_take n rx) True w)
      | Garbage n \<Rightarrow> (case cn_received e T refuse (fr_bytes n rx) w of
            None \<Rightarrow> None
          | Some (HRefused, w) \<Rightarrow> Some (True, True, fr_take n rx, w)
          | Some (HStop, w) \<Rightarrow> Some (False, True, fr_take n rx, w)
          | Some (HGo, w) \<Rightarrow> cn_cuts e T refuse (fr_take n rx) True w))"
  by auto
termination by (relation "measure (\<lambda>(_, _, _, rx, _). fr_len rx)") (auto simp: cut_take_less)

declare cn_cuts.simps [simp del]

definition cn_gone :: "('t, 'j) conn \<Rightarrow> ('t, 'j) conn" where
  "cn_gone c = c\<lparr>cn_session := snd (disconnect (cn_session c))\<rparr>"

text \<open>The end of a turn, after the loop.\<close>

definition cn_settle :: "'t transport \<Rightarrow> bool \<Rightarrow> bool \<Rightarrow> ('t, 'j) conn \<Rightarrow> turn \<times> ('t, 'j) conn" where
  "cn_settle T moved hung_up c =
     (let (flushed, c) = cn_flush T c in
      if hung_up then (TurnGone, cn_gone c)
      else if cn_dead c then (TurnGone, cn_gone (c\<lparr>cn_unsent := cn_tx_len c\<rparr>))
      else if cn_closing c \<and> cn_tx_len c = 0 then (TurnGone, c)
      else (TurnUp (moved \<or> flushed), c))"

definition cn_read :: "'t transport \<Rightarrow> ('t, 'j) conn \<Rightarrow> bool \<times> bool \<times> ('t, 'j) conn" where
  "cn_read T c =
     (case tp_recv T (length (fr_spare (cn_rx c))) (cn_transport c) of
        (Ready bs, t) \<Rightarrow> (True, False, c\<lparr>cn_transport := t, cn_rx := rx_receive bs (cn_rx c)\<rparr>)
      | (Idle, t) \<Rightarrow> (False, False, c\<lparr>cn_transport := t\<rparr>)
      | (_, t) \<Rightarrow> (False, True, c\<lparr>cn_transport := t\<rparr>))"

definition cn_turn :: "('a, 'j) env \<Rightarrow> 't transport \<Rightarrow> (bytes \<Rightarrow> 'g \<Rightarrow> bool \<times> 'g) \<Rightarrow> nat \<Rightarrow> nat \<Rightarrow> nat \<Rightarrow> ('t, 'j, 'a, 'g) at_work \<Rightarrow>
    (turn \<times> ('t, 'j, 'a, 'g) at_work) option" where
  "cn_turn e T refuse now_ms sub shard = (\<lambda>(c, a, g).
     let c = c\<lparr>cn_shard := shard\<rparr> in
     if cn_refused c then Some (TurnGone, cn_gone (c\<lparr>cn_unsent := cn_tx_len c\<rparr>), a, g)
     else let (flushed, c) = cn_flush T c in
       Option.bind (cn_tick e T now_ms sub c) (\<lambda>c.
       let (got, hung_up, c) = cn_read T c in
       Option.bind (cn_cuts e T refuse (cn_rx c) (flushed \<or> got) (c, a, g)) (\<lambda>(no, moved, rx, c, a, g).
         let c = c\<lparr>cn_rx := rx\<rparr> in
         if no then Some (TurnGone, c, a, g)
         else let (r, c) = cn_settle T moved hung_up c in Some (r, c, a, g))))"

definition cn_slow_application :: "('a, 'j) env \<Rightarrow> 't transport \<Rightarrow> ('t, 'j) conn \<Rightarrow> ('t, 'j) conn option" where
  "cn_slow_application e T c =
     (let (_, s, j) = logout_now_with e SLOW_APPLICATION (cn_session c) (cn_journal c) in
      Option.bind (cn_emit T (length (cn_tx c)) False s j c) (\<lambda>c.
        Some (c\<lparr>cn_session := note_drop_reason DrSlowApplication (cn_session c), cn_closing := True\<rparr>)))"

text \<open>A command names its connection first.\<close>

datatype command = SetNextOut nat nat | SetNextIn nat nat | SendSequenceReset nat nat
datatype outcome = Applied | NoSuchConnection | Refused

definition outcome_of :: "bool \<Rightarrow> outcome" where
  "outcome_of ok = (if ok then Applied else Refused)"

definition cn_administer :: "('a, 'j) env \<Rightarrow> 't transport \<Rightarrow> command \<Rightarrow> ('t, 'j) conn \<Rightarrow> (outcome \<times> ('t, 'j) conn) option" where
  "cn_administer e T cmd c =
     (case cmd of
        SetNextOut _ n \<Rightarrow> (case set_next_out n (cn_session c) of (ok, s) \<Rightarrow> Some (outcome_of ok, c\<lparr>cn_session := s\<rparr>))
      | SetNextIn _ n \<Rightarrow> (case set_next_in n (cn_session c) of (ok, s) \<Rightarrow> Some (outcome_of ok, c\<lparr>cn_session := s\<rparr>))
      | SendSequenceReset _ n \<Rightarrow>
          let (sent, s, j) = send_sequence_reset_with e n (cn_session c) (cn_journal c) in
          Option.bind (cn_emit T (cn_bound c) (bp_blocks (cn_policy c)) s j c) (\<lambda>c.
          Option.bind (cn_if_overflow e T c) (\<lambda>c. Some (outcome_of sent, c))))"

definition cn_begin_logout :: "('a, 'j) env \<Rightarrow> 't transport \<Rightarrow> ('t, 'j) conn \<Rightarrow> (bool \<times> ('t, 'j) conn) option" where
  "cn_begin_logout e T c =
     (let (l, s, j) = begin_logout_with e SHUTTING_DOWN (cn_session c) (cn_journal c); said = (l = Up) in
      Option.bind (cn_emit T (cn_bound c) (bp_blocks (cn_policy c)) s j c) (\<lambda>c.
      Option.bind (cn_if_overflow e T c) (\<lambda>c.
        Some (said, if \<not> said then c\<lparr>cn_closing := True\<rparr> else c))))"


subsection \<open>What every operation keeps\<close>

definition conn_ok :: "('t, 'j) conn \<Rightarrow> bool" where
  "conn_ok c \<longleftrightarrow> cn_tx_len c \<le> length (cn_tx c) \<and> (\<not> cn_purged c \<longrightarrow> cn_taken c @ cn_queue c = concat (cn_said c))"

definition cn_keeps :: "('t, 'j) conn \<Rightarrow> ('t, 'j) conn \<Rightarrow> bool" where
  "cn_keeps c c' \<longleftrightarrow> cn_policy c' = cn_policy c \<and> length (cn_tx c') = length (cn_tx c) \<and> (conn_ok c \<longrightarrow> conn_ok c')"

lemma cn_keeps_refl [simp]: "cn_keeps c c"
  by (simp add: cn_keeps_def)

lemma cn_keeps_trans [trans]: "cn_keeps c d \<Longrightarrow> cn_keeps d f \<Longrightarrow> cn_keeps c f"
  by (auto simp: cn_keeps_def)

text \<open>The queue does not see the other fields.\<close>

lemma cn_keeps_frame [simp]:
  "cn_keeps c (d\<lparr>cn_session := x0\<rparr>) \<longleftrightarrow> cn_keeps c d"
  "cn_keeps c (d\<lparr>cn_journal := x1\<rparr>) \<longleftrightarrow> cn_keeps c d"
  "cn_keeps c (d\<lparr>cn_rx := x2\<rparr>) \<longleftrightarrow> cn_keeps c d"
  "cn_keeps c (d\<lparr>cn_closing := x3\<rparr>) \<longleftrightarrow> cn_keeps c d"
  "cn_keeps c (d\<lparr>cn_refused := x4\<rparr>) \<longleftrightarrow> cn_keeps c d"
  "cn_keeps c (d\<lparr>cn_dead := x5\<rparr>) \<longleftrightarrow> cn_keeps c d"
  "cn_keeps c (d\<lparr>cn_overflow := x6\<rparr>) \<longleftrightarrow> cn_keeps c d"
  "cn_keeps c (d\<lparr>cn_transport := x7\<rparr>) \<longleftrightarrow> cn_keeps c d"
  "cn_keeps c (d\<lparr>cn_shard := x8\<rparr>) \<longleftrightarrow> cn_keeps c d"
  "cn_keeps c (d\<lparr>cn_unsent := x9\<rparr>) \<longleftrightarrow> cn_keeps c d"
  by (simp_all add: cn_keeps_def conn_ok_def)

lemma cn_keeps_frame_left [simp]:
  "cn_keeps (d\<lparr>cn_session := x0\<rparr>) c \<longleftrightarrow> cn_keeps d c"
  "cn_keeps (d\<lparr>cn_journal := x1\<rparr>) c \<longleftrightarrow> cn_keeps d c"
  "cn_keeps (d\<lparr>cn_rx := x2\<rparr>) c \<longleftrightarrow> cn_keeps d c"
  "cn_keeps (d\<lparr>cn_closing := x3\<rparr>) c \<longleftrightarrow> cn_keeps d c"
  "cn_keeps (d\<lparr>cn_refused := x4\<rparr>) c \<longleftrightarrow> cn_keeps d c"
  "cn_keeps (d\<lparr>cn_dead := x5\<rparr>) c \<longleftrightarrow> cn_keeps d c"
  "cn_keeps (d\<lparr>cn_overflow := x6\<rparr>) c \<longleftrightarrow> cn_keeps d c"
  "cn_keeps (d\<lparr>cn_transport := x7\<rparr>) c \<longleftrightarrow> cn_keeps d c"
  "cn_keeps (d\<lparr>cn_shard := x8\<rparr>) c \<longleftrightarrow> cn_keeps d c"
  "cn_keeps (d\<lparr>cn_unsent := x9\<rparr>) c \<longleftrightarrow> cn_keeps d c"
  by (simp_all add: cn_keeps_def conn_ok_def)

lemma cn_drained_queue: "cn_tx_len c \<le> length (cn_tx c) \<Longrightarrow> cn_queue (cn_drained n t c) = drop n (cn_queue c)"
  by (simp add: cn_drained_def Let_def min_def)

lemma cn_drained_keeps: "cn_keeps c (cn_drained n t c)"
proof -
  have "cn_taken (cn_drained n t c) @ drop n (cn_queue c) = cn_taken c @ cn_queue c"
    by (simp add: cn_drained_def Let_def del: take_take)
  moreover have "cn_tx_len c \<le> length (cn_tx c) \<Longrightarrow> cn_tx_len (cn_drained n t c) \<le> length (cn_tx c)"
    "length (cn_tx (cn_drained n t c)) = length (cn_tx c)"
    by (auto simp: cn_drained_def Let_def min_def)
  moreover have "cn_purged (cn_drained n t c) = cn_purged c" "cn_said (cn_drained n t c) = cn_said c" "cn_policy (cn_drained n t c) = cn_policy c"
    by (simp_all add: cn_drained_def Let_def)
  ultimately show ?thesis by (simp add: cn_keeps_def conn_ok_def cn_drained_queue)
qed

lemma cn_put_keeps:
  assumes "bound \<le> length (cn_tx c)"
  shows "cn_keeps c (cn_put bound bs c)"
  using assms by (auto simp: cn_keeps_def conn_ok_def cn_put_def)

lemma make_room_keeps: "make_room T bound len c = Some p \<Longrightarrow> cn_keeps c (snd p)"
proof (rule make_room.raw_induct [where P = "\<lambda>_ _ _ c p. cn_keeps c (snd p)"])
  fix f :: "'a transport \<Rightarrow> nat \<Rightarrow> nat \<Rightarrow> ('a, 'b) conn \<Rightarrow> (bool \<times> ('a, 'b) conn) option" and T bound len and c :: "('a, 'b) conn" and p
  assume IH: "\<And>T bound len c p. f T bound len c = Some p \<Longrightarrow> cn_keeps c (snd p)"
    and body: "(if bound < cn_tx_len c + len
      then case tp_send T (cn_queue c) (cn_transport c) of
        (Ready n, t) \<Rightarrow> f T bound len (cn_drained n t c)
      | (Idle, t) \<Rightarrow> f T bound len (c\<lparr>cn_transport := t\<rparr>)
      | (_, t) \<Rightarrow> Some (False, c\<lparr>cn_transport := t, cn_dead := True\<rparr>)
      else Some (True, c)) = Some p"
  from body show "cn_keeps c (snd p)"
    by (auto split: if_splits prod.splits io.splits dest!: IH intro: cn_keeps_trans [OF cn_drained_keeps])
qed


lemma make_room_frame: "make_room T bound len c = Some p \<Longrightarrow> cn_overflow (snd p) = cn_overflow c \<and> cn_said (snd p) = cn_said c"
proof (rule make_room.raw_induct [where P = "\<lambda>_ _ _ c p. cn_overflow (snd p) = cn_overflow c \<and> cn_said (snd p) = cn_said c"], goal_cases)
  case (1 f T bound len c p)
  have "cn_overflow (cn_drained n t c) = cn_overflow c" "cn_said (cn_drained n t c) = cn_said c" for n t
    by (simp_all add: cn_drained_def Let_def)
  with 1(3) show ?case by (auto split: if_splits prod.splits io.splits dest!: 1(2))
qed

lemma cn_push_keeps:
  assumes "cn_push T bound blocks bs c = Some c'" and "bound \<le> length (cn_tx c)"
  shows "cn_keeps c c'"
proof -
  have "cn_keeps c (if r then cn_put bound bs d else d)" if "make_room T bound (length bs) c = Some (r, d)" for r d
  proof -
    have "cn_keeps c d" using make_room_keeps [OF that] by simp
    moreover from this have "bound \<le> length (cn_tx d)" using assms(2) by (simp add: cn_keeps_def)
    ultimately show ?thesis by (auto intro: cn_put_keeps cn_keeps_trans)
  qed
  then show ?thesis using assms by (auto simp: cn_push_def bind_eq_Some_conv cn_put_keeps split: if_splits)
qed

lemma cn_push_all_keeps: "cn_push_all T bound blocks ms c = Some c' \<Longrightarrow> bound \<le> length (cn_tx c) \<Longrightarrow> cn_keeps c c'"
proof (induction ms arbitrary: c)
  case Nil
  then show ?case by (simp add: cn_keeps_refl)
next
  case (Cons m ms)
  then obtain d where d: "cn_push T bound blocks m c = Some d" "cn_push_all T bound blocks ms d = Some c'"
    by (auto simp: bind_eq_Some_conv)
  then have "cn_keeps c d" using cn_push_keeps Cons.prems(2) by blast
  then show ?case using Cons.IH [OF d(2)] Cons.prems(2) by (auto simp: cn_keeps_def)
qed

lemma bp_bound_le: "bp_bound p n \<le> n"
  by (cases p) auto

lemma cn_bound_le: "cn_bound c \<le> length (cn_tx c)"
  by (simp add: cn_bound_def bp_bound_le)

lemma cn_emit_keeps:
  assumes "cn_emit T bound blocks s j c = Some c'" and "bound \<le> length (cn_tx c)"
  shows "cn_keeps c c'"
  using cn_push_all_keeps [of T bound blocks "s_wire s" "c\<lparr>cn_session := s\<lparr>s_wire := []\<rparr>, cn_journal := j\<rparr>" c'] assms
  by (simp add: cn_emit_def)

lemma cn_emit_bound_keeps: "cn_emit T (cn_bound c) blocks s j c = Some c' \<Longrightarrow> cn_keeps c c'"
  by (rule cn_emit_keeps [OF _ cn_bound_le])

lemma cn_flush_keeps: "cn_keeps c (snd (cn_flush T c))"
  by (auto simp: cn_flush_def cn_drained_keeps split: prod.splits io.splits)

text \<open>Throwing the queue away ends the account of the stream: what is kept is the queue's bound.\<close>

lemma cn_slow_consumer_keeps:
  assumes "cn_slow_consumer e T c = Some c'"
  shows "cn_keeps c c'"
proof -
  let ?p = "c\<lparr>cn_tx_len := 0, cn_overflow := False, cn_purged := True\<rparr>"
  have "cn_keeps c ?p" by (simp add: cn_keeps_def conn_ok_def)
  moreover have "cn_keeps ?p c'"
    using assms by (auto simp: cn_slow_consumer_def bind_eq_Some_conv split_beta simp del: cn_keeps_frame_left dest!: cn_emit_keeps)
  ultimately show ?thesis by (rule cn_keeps_trans)
qed

lemma cn_if_overflow_keeps: "cn_if_overflow e T c = Some c' \<Longrightarrow> cn_keeps c c'"
  by (auto simp: cn_if_overflow_def cn_slow_consumer_keeps split: if_splits)

lemma cn_opened_keeps: "cn_opened e T c = Some c' \<Longrightarrow> cn_keeps c c'"
  by (auto simp: cn_opened_def bind_eq_Some_conv split_beta dest: cn_emit_bound_keeps)

lemma cn_send_application_keeps:
  assumes "cn_send_application e T msg c = Some c'"
  shows "cn_keeps c c'"
proof -
  obtain d f where "cn_keeps c d" "cn_keeps d f" "c' = snd (cn_flush T f)"
    using assms by (auto simp: cn_send_application_def bind_eq_Some_conv split_beta split: if_splits
        dest!: cn_emit_bound_keeps cn_if_overflow_keeps)
  then show ?thesis using cn_keeps_trans [OF cn_keeps_trans cn_flush_keeps] by blast
qed

lemma cn_tick_keeps: "cn_tick e T now_ms sub c = Some c' \<Longrightarrow> cn_keeps c c'"
  by (auto simp: cn_tick_def bind_eq_Some_conv split_beta split: if_splits
      dest!: cn_emit_bound_keeps cn_if_overflow_keeps intro: cn_keeps_trans)

lemma cn_received_keeps: "cn_received e T refuse msg w = Some (h, w') \<Longrightarrow> cn_keeps (fst w) (fst w')"
  by (auto simp: cn_received_def bind_eq_Some_conv split_beta Let_def split: if_splits
      dest!: cn_emit_bound_keeps cn_slow_consumer_keeps intro: cn_keeps_trans)

lemma cn_cuts_cases:
  assumes "cn_cuts e T refuse rx moved w = Some (no, moved', rx', w')"
  obtains (need) "w' = w"
    | (last) n h where "cn_received e T refuse (fr_bytes n rx) w = Some (h, w')"
    | (go) n v where "cn_received e T refuse (fr_bytes n rx) w = Some (HGo, v)"
        "cn_cuts e T refuse (fr_take n rx) True v = Some (no, moved', rx', w')" "fr_cut rx = Message n \<or> fr_cut rx = Garbage n"
  using assms by (subst (asm) cn_cuts.simps) (auto split: cut.splits option.splits handled.splits prod.splits)

lemma cn_cuts_keeps: "cn_cuts e T refuse rx moved w = Some (no, moved', rx', w') \<Longrightarrow> cn_keeps (fst w) (fst w')"
proof (induction e T refuse rx moved w arbitrary: no moved' rx' w' rule: cn_cuts.induct)
  case (1 e T refuse rx moved w)
  from "1.prems" show ?case
  proof (cases rule: cn_cuts_cases)
    case (go n v)
    then have "cn_keeps (fst v) (fst w')" using "1.IH" by (metis prod.collapse)
    then show ?thesis using cn_received_keeps [OF go(1)] by (blast intro: cn_keeps_trans)
  qed (auto dest: cn_received_keeps)
qed

lemma cn_settle_keeps: "cn_keeps c (snd (cn_settle T moved hung_up c))"
  using cn_flush_keeps [of c T] by (auto simp: cn_settle_def cn_gone_def split_beta Let_def)

lemma cn_read_keeps: "cn_keeps c (snd (snd (cn_read T c)))"
  by (auto simp: cn_read_def split: prod.splits io.splits)


lemma cn_turn_keeps:
  assumes "cn_turn e T refuse now_ms sub shard w = Some (r, w')"
  shows "cn_keeps (fst w) (fst w')"
proof (cases "cn_refused (fst w)")
  case True
  then show ?thesis using assms by (cases w) (auto simp: cn_turn_def cn_gone_def Let_def)
next
  case False
  obtain c a g where w: "w = (c, a, g)" by (cases w)
  let ?f = "snd (cn_flush T (c\<lparr>cn_shard := shard\<rparr>))"
  obtain d where d: "cn_tick e T now_ms sub ?f = Some d"
    using assms False w by (auto simp: cn_turn_def Let_def split_beta bind_eq_Some_conv)
  obtain got hung_up d' where d': "cn_read T d = (got, hung_up, d')" by (cases "cn_read T d")
  obtain no moved rx c2 a2 g2 where x: "cn_cuts e T refuse (cn_rx d') (fst (cn_flush T (c\<lparr>cn_shard := shard\<rparr>)) \<or> got) (d', a, g) = Some (no, moved, rx, c2, a2, g2)"
    and w': "fst w' = (if no then c2\<lparr>cn_rx := rx\<rparr> else snd (cn_settle T moved hung_up (c2\<lparr>cn_rx := rx\<rparr>)))"
    using assms False w d d' by (auto simp: cn_turn_def Let_def split_beta bind_eq_Some_conv split: if_splits)
  have "cn_keeps c ?f" using cn_flush_keeps [of "c\<lparr>cn_shard := shard\<rparr>" T] by simp
  also have "cn_keeps ?f d" using d by (rule cn_tick_keeps)
  also have "cn_keeps d d'" using cn_read_keeps [of d T] d' by simp
  also have "cn_keeps d' c2" using cn_cuts_keeps [OF x] by simp
  also have "cn_keeps c2 (fst w')" using cn_settle_keeps [of "c2\<lparr>cn_rx := rx\<rparr>" T moved hung_up] w' by simp
  finally show ?thesis using w by simp
qed

lemma cn_slow_application_keeps: "cn_slow_application e T c = Some c' \<Longrightarrow> cn_keeps c c'"
  by (auto simp: cn_slow_application_def bind_eq_Some_conv split_beta dest: cn_emit_keeps)

lemma cn_administer_keeps: "cn_administer e T cmd c = Some (r, c') \<Longrightarrow> cn_keeps c c'"
  by (cases cmd) (auto simp: cn_administer_def bind_eq_Some_conv split_beta
      dest!: cn_emit_bound_keeps cn_if_overflow_keeps intro: cn_keeps_trans)

lemma cn_begin_logout_keeps: "cn_begin_logout e T c = Some (r, c') \<Longrightarrow> cn_keeps c c'"
  by (auto simp: cn_begin_logout_def bind_eq_Some_conv split_beta Let_def
      dest!: cn_emit_bound_keeps cn_if_overflow_keeps intro: cn_keeps_trans)

subsection \<open>A connection's life\<close>

text \<open>What the engine may do with a connection, in any order; a call that does not return has no step.\<close>

inductive conn_step :: "('a, 'j) env \<Rightarrow> 't transport \<Rightarrow> (bytes \<Rightarrow> 'g \<Rightarrow> bool \<times> 'g) \<Rightarrow> ('t, 'j) conn \<Rightarrow> ('t, 'j) conn \<Rightarrow> bool"
  for e T refuse where
  primed: "conn_step e T refuse c (snd (cn_prime bs c))"
| opened: "cn_opened e T c = Some c' \<Longrightarrow> conn_step e T refuse c c'"
| app_sent: "cn_send_application e T msg c = Some c' \<Longrightarrow> conn_step e T refuse c c'"
| turned: "cn_turn e T refuse now_ms sub shard (c, a, g) = Some (r, c', a', g') \<Longrightarrow> conn_step e T refuse c c'"
| turned_away: "conn_step e T refuse c (cn_refuse_without_a_session why c)"
| slow_application: "cn_slow_application e T c = Some c' \<Longrightarrow> conn_step e T refuse c c'"
| administered: "cn_administer e T cmd c = Some (r, c') \<Longrightarrow> conn_step e T refuse c c'"
| logout_begun: "cn_begin_logout e T c = Some (r, c') \<Longrightarrow> conn_step e T refuse c c'"

inductive conn_run :: "('a, 'j) env \<Rightarrow> 't transport \<Rightarrow> (bytes \<Rightarrow> 'g \<Rightarrow> bool \<times> 'g) \<Rightarrow> nat \<Rightarrow> ('t, 'j) conn \<Rightarrow> bool"
  for e T refuse TX where
  made: "conn_run e T refuse TX (cn_with_backpressure p (cn_with_shard n (Conn_new RX TX cid t s j)))"
| stepped: "conn_run e T refuse TX c \<Longrightarrow> conn_step e T refuse c c' \<Longrightarrow> conn_run e T refuse TX c'"

lemma conn_step_keeps: "conn_step e T refuse c c' \<Longrightarrow> cn_keeps c c'"
proof (induction rule: conn_step.induct)
  case (primed c bs)
  show ?case by (simp add: cn_prime_def)
next
  case (turned_away c why)
  show ?case by (simp add: cn_refuse_without_a_session_def)
qed (auto dest: cn_opened_keeps cn_send_application_keeps cn_turn_keeps cn_slow_application_keeps cn_administer_keeps cn_begin_logout_keeps)

text \<open>C14: A counterparty never sees half a message of a connection whose queue was not thrown away. Whatever
  the engine does with a connection, in any order, the queue stays within its buffer, and until a
  slow consumer's queue is thrown away the bytes the socket has taken followed by the bytes still
  queued are the whole messages that were queued, in order, with nothing lost, repeated or torn.\<close>

theorem stream_is_whole_messages:
  assumes "conn_run e T refuse TX c"
  shows "length (cn_tx c) = TX \<and> cn_tx_len c \<le> TX \<and> (\<not> cn_purged c \<longrightarrow> cn_taken c @ cn_queue c = concat (cn_said c))"
  using assms
proof (induction rule: conn_run.induct)
  case made
  show ?case by (simp add: cn_with_backpressure_def cn_with_shard_def Conn_new_def)
next
  case (stepped c c')
  then show ?case using conn_step_keeps [OF stepped(2)] by (auto simp: cn_keeps_def conn_ok_def)
qed


subsection \<open>The loop of a turn and the framer\<close>







subsection \<open>Calls that return\<close>

text \<open>Without \<open>Block\<close> nothing waits for the socket.\<close>

lemma cn_push_all_plain: "\<exists>c'. cn_push_all T bound False ms c = Some c'"
  by (induction ms arbitrary: c) (auto simp: cn_push_def)

lemma cn_emit_plain: "\<exists>c'. cn_emit T bound False s j c = Some c'"
  by (simp add: cn_emit_def cn_push_all_plain)

lemma cn_slow_consumer_returns: "\<exists>c'. cn_slow_consumer e T c = Some c'"
  using cn_emit_plain [of T "length (cn_tx c)"] by (auto simp: cn_slow_consumer_def split_beta bind_eq_Some_conv)

lemma cn_if_overflow_returns: "\<exists>c'. cn_if_overflow e T c = Some c'"
  by (simp add: cn_if_overflow_def cn_slow_consumer_returns)

lemma cn_tick_returns:
  assumes "\<not> bp_blocks (cn_policy c)"
  shows "\<exists>c'. cn_tick e T now_ms sub c = Some c'"
proof -
  obtain l s j where t: "tick_at_with e now_ms sub (cn_session c) (cn_journal c) = (l, s, j)" by (rule prod_cases3)
  obtain d where "cn_emit T (cn_bound c) False s j c = Some d" using cn_emit_plain [of T "cn_bound c" s j c] by auto
  then show ?thesis using assms t cn_if_overflow_returns [of e T] by (simp add: cn_tick_def)
qed

lemma cn_received_returns:
  assumes "\<not> bp_blocks (cn_policy (fst w))"
  shows "\<exists>h w'. cn_received e T refuse msg w = Some (h, w') \<and> cn_policy (fst w') = cn_policy (fst w)"
proof -
  obtain c a g where w: "w = (c, a, g)" by (rule prod_cases3)
  obtain no g' where r: "refuse msg g = (no, g')" by fastforce
  obtain l v where t: "received_with e msg \<lparr>w_ses = cn_session c, w_app = a, w_jnl = cn_journal c\<rparr> = (l, v)" by fastforce
  obtain d where d: "cn_emit T (cn_bound c) False (w_ses v) (w_jnl v) c = Some d" using cn_emit_plain [of T "cn_bound c" "w_ses v" "w_jnl v" c] by auto
  obtain f where "cn_slow_consumer e T d = Some f" using cn_slow_consumer_returns by blast
  then have "\<exists>h w'. cn_received e T refuse msg w = Some (h, w')"
    using assms d by (simp add: cn_received_def w r t)
  then show ?thesis using cn_received_keeps [of e T refuse msg w] by (auto simp: cn_keeps_def)
qed

lemma cn_cuts_returns: "\<not> bp_blocks (cn_policy (fst w)) \<Longrightarrow> \<exists>no moved' rx' w'. cn_cuts e T refuse rx moved w = Some (no, moved', rx', w')"
proof (induction e T refuse rx moved w rule: cn_cuts.induct)
  case (1 e T refuse rx moved w)
  show ?case
  proof (cases "fr_cut rx")
    case Need
    then show ?thesis by (cases w) (auto simp: cn_cuts.simps)
  next
    case (Message n)
    obtain h v where "cn_received e T refuse (fr_bytes n rx) w = Some (h, v)" "cn_policy (fst v) = cn_policy (fst w)"
      using cn_received_returns "1.prems" by blast
    then show ?thesis using Message "1.IH"(1) [OF Message, of "(h, v)" h v] "1.prems"
      by (subst cn_cuts.simps) (cases h; cases v; auto)
  next
    case (Garbage n)
    obtain h v where "cn_received e T refuse (fr_bytes n rx) w = Some (h, v)" "cn_policy (fst v) = cn_policy (fst w)"
      using cn_received_returns "1.prems" by blast
    then show ?thesis using Garbage "1.IH"(2) [OF Garbage, of "(h, v)" h v] "1.prems"
      by (subst cn_cuts.simps) (cases h; cases v; auto)
  qed
qed

lemma cn_settle_up: "cn_settle T moved hung_up c = (TurnUp m, c') \<Longrightarrow> \<not> cn_dead c' \<and> \<not> (cn_closing c' \<and> cn_tx_len c' = 0)"
  by (auto simp: cn_settle_def Let_def split_beta split: if_splits)

lemma cn_gone_state: "s_state (cn_session (cn_gone c)) = Disconnected"
  by (simp add: cn_gone_def disconnect_def disconnect_with_def)

lemma cn_settle_hung_up:
  "fst (cn_settle T moved True c) = TurnGone" "s_state (cn_session (snd (cn_settle T moved True c))) = Disconnected"
  by (simp_all add: cn_settle_def split_beta Let_def cn_gone_state)

lemma cn_received_refused: "cn_received e T refuse msg w = Some (HRefused, w') \<Longrightarrow> s_state (cn_session (fst w')) = Disconnected"
  by (cases w) (auto simp: cn_received_def disconnect_with_def bind_eq_Some_conv split_beta Let_def split: if_splits)

lemma cn_cuts_refused:
  "cn_cuts e T refuse rx moved w = Some (no, moved', rx', w') \<Longrightarrow> no \<Longrightarrow> s_state (cn_session (fst w')) = Disconnected"
proof (induction e T refuse rx moved w arbitrary: no moved' rx' w' rule: cn_cuts.induct)
  case (1 e T refuse rx moved w)
  from "1.prems" "1.IH" show ?case
    by (subst (asm) cn_cuts.simps)
      (auto split: cut.splits option.splits handled.splits prod.splits dest: cn_received_refused)
qed

text \<open>C15: A turn of a connection that does not block always comes back, and says what became of the
  connection. Whatever the socket answers, whatever has arrived and whatever the application does, a
  pass over a connection under any policy but \<open>Block\<close> returns. A connection turned away before is gone;
  one whose peer hung up (the read of this very pass answered \<open>Closed\<close> or \<open>Failed\<close>) is gone, with its
  session told; and \<open>Up\<close> is answered only for a connection not marked dead and not merely
  waiting to be dropped with an empty queue.\<close>

theorem turn_returns:
  assumes "\<not> bp_blocks (cn_policy c)"
  shows "\<exists>r c' a' g'. cn_turn e T refuse now_ms sub shard (c, a, g) = Some (r, c', a', g') \<and>
     (cn_refused c \<longrightarrow> r = TurnGone \<and> s_state (cn_session c') = Disconnected) \<and>
     (\<not> cn_refused c \<longrightarrow> (\<exists>d. cn_tick e T now_ms sub (snd (cn_flush T (c\<lparr>cn_shard := shard\<rparr>))) = Some d \<and>
        (fst (tp_recv T (length (fr_spare (cn_rx d))) (cn_transport d)) \<in> {Closed, Failed} \<longrightarrow>
           r = TurnGone \<and> s_state (cn_session c') = Disconnected))) \<and>
     (\<forall>m. r = TurnUp m \<longrightarrow> \<not> cn_dead c' \<and> \<not> (cn_closing c' \<and> cn_tx_len c' = 0))"
proof (cases "cn_refused c")
  case True
  then show ?thesis by (simp add: cn_turn_def cn_gone_state)
next
  case False
  obtain flushed f where f: "cn_flush T (c\<lparr>cn_shard := shard\<rparr>) = (flushed, f)" by fastforce
  then have "cn_policy f = cn_policy c" using cn_flush_keeps [of "c\<lparr>cn_shard := shard\<rparr>" T] by (simp add: cn_keeps_def)
  then obtain d where d: "cn_tick e T now_ms sub f = Some d" "cn_policy d = cn_policy c"
    using cn_tick_returns [of f e T now_ms sub] assms cn_tick_keeps [of e T now_ms sub f] by (auto simp: cn_keeps_def)
  obtain got hung_up x where x: "cn_read T d = (got, hung_up, x)" by (rule prod_cases3)
  then have "cn_policy x = cn_policy c" using cn_read_keeps [of d T] d(2) by (simp add: cn_keeps_def)
  then obtain no moved rx y a' g' where y: "cn_cuts e T refuse (cn_rx x) (flushed \<or> got) (x, a, g) = Some (no, moved, rx, y, a', g')"
    using cn_cuts_returns [of "(x, a, g)" e T refuse "cn_rx x" "flushed \<or> got"] assms by auto
  obtain r z where z: "cn_settle T moved hung_up (y\<lparr>cn_rx := rx\<rparr>) = (r, z)" by fastforce
  have turn: "cn_turn e T refuse now_ms sub shard (c, a, g) =
      Some (if no then (TurnGone, y\<lparr>cn_rx := rx\<rparr>, a', g') else (r, z, a', g'))"
    using False f d(1) x y z by (simp add: cn_turn_def)
  have hung: "hung_up" if "fst (tp_recv T (length (fr_spare (cn_rx d))) (cn_transport d)) \<in> {Closed, Failed}"
    using that x by (auto simp: cn_read_def split: prod.splits)
  show ?thesis
    using z turn False f d(1) hung cn_settle_hung_up [of T moved "y\<lparr>cn_rx := rx\<rparr>"] cn_cuts_refused [OF y]
    by (cases no) (auto dest: cn_settle_up)
qed


text \<open>A socket that takes at least one byte of what it is offered makes room for any message that fits.\<close>

lemma make_room_returns:
  assumes "\<And>q t. q \<noteq> [] \<Longrightarrow> \<exists>n t'. tp_send T q t = (Ready n, t') \<and> 0 < n" and "len \<le> bound"
  shows "cn_tx_len c \<le> length (cn_tx c) \<Longrightarrow> \<exists>c'. make_room T bound len c = Some (True, c') \<and> cn_tx_len c' + len \<le> bound"
proof (induction "cn_tx_len c" arbitrary: c rule: less_induct)
  case less
  show ?case
  proof (cases "bound < cn_tx_len c + len")
    case True
    then have q: "cn_queue c \<noteq> []" "0 < cn_tx_len c" using assms(2) less.prems by auto
    then obtain n t where n: "tp_send T (cn_queue c) (cn_transport c) = (Ready n, t)" "0 < n" using assms(1) by blast
    have "cn_tx_len (cn_drained n t c) < cn_tx_len c" using q n by (simp add: cn_drained_def Let_def)
    moreover have "cn_tx_len (cn_drained n t c) \<le> length (cn_tx (cn_drained n t c))"
      using less.prems by (simp add: cn_drained_def Let_def)
    ultimately show ?thesis using less.hyps True n by (subst make_room.simps) simp
  next
    case False
    then show ?thesis by (subst make_room.simps) simp
  qed
qed

text \<open>Under \<open>Block\<close> a message within the buffer reaches the queue. On a socket that always takes a byte
  of what it is offered, queueing a message no longer than the bound returns with the message last in
  the queue, nothing dropped and the stream still whole.\<close>

theorem blocking_push_returns:
  assumes "\<And>q t. q \<noteq> [] \<Longrightarrow> \<exists>n t'. tp_send T q t = (Ready n, t') \<and> 0 < n"
    and "conn_ok c" "bound \<le> length (cn_tx c)" "length bs \<le> bound"
  shows "\<exists>c'. cn_push T bound True bs c = Some c' \<and> conn_ok c' \<and> cn_overflow c' = cn_overflow c \<and> cn_said c' = cn_said c @ [bs]"
proof -
  obtain d where d: "make_room T bound (length bs) c = Some (True, d)" "cn_tx_len d + length bs \<le> bound"
    using make_room_returns [OF assms(1,4)] assms(2) by (auto simp: conn_ok_def)
  have k: "cn_overflow d = cn_overflow c" "cn_said d = cn_said c" using make_room_frame [OF d(1)] by simp_all
  have p: "cn_push T bound True bs c = Some (cn_put bound bs d)" using d(1) by (simp add: cn_push_def)
  then have "conn_ok (cn_put bound bs d)" using cn_push_keeps [OF _ assms(3)] assms(2) by (auto simp: cn_keeps_def)
  then show ?thesis using p d(2) k by (auto simp: cn_put_def)
qed

lemma make_room_never:
  assumes "\<And>q t. fst (tp_send T q t) = Idle \<or> (\<exists>n. fst (tp_send T q t) = Ready n)" and "bound < len"
  shows "make_room T bound len c = None"
proof (rule ccontr)
  assume "make_room T bound len c \<noteq> None"
  then obtain p where p: "make_room T bound len c = Some p" by blast
  have "(\<forall>q t. fst (tp_send T q t) = Idle \<or> (\<exists>n. fst (tp_send T q t) = Ready n)) \<and> bound < len \<longrightarrow> False"
  proof (rule make_room.raw_induct [OF _ p, where P = "\<lambda>T bound len _ _.
      (\<forall>q t. fst (tp_send T q t) = Idle \<or> (\<exists>n. fst (tp_send T q t) = Ready n)) \<and> bound < len \<longrightarrow> False"], goal_cases)
    case (1 f T bound len c p)
    then show ?case by (auto split: if_splits prod.splits io.splits) (metis fst_conv io.distinct)+
  qed
  then show False using assms by blast
qed

text \<open>Under \<open>Block\<close> a message longer than the bound hangs the engine's thread. As long as the socket
  neither closes nor fails, queueing it never returns: no amount of draining makes room.\<close>

theorem long_message_blocks_for_ever:
  assumes "\<And>q t. fst (tp_send T q t) = Idle \<or> (\<exists>n. fst (tp_send T q t) = Ready n)" and "bound < length bs"
  shows "cn_push T bound True bs c = None"
  using make_room_never [OF assms, of c] by (simp add: cn_push_def)


subsection \<open>Ending a connection whose counterparty does not read\<close>

lemma wire_frame_len: "length body \<le> 512 \<Longrightarrow> length (wire_frame bstr body) \<le> length bstr + 18 + length body"
  using length_dec_digits_le [of "length body" 3] by (simp add: wire_frame_def wire_prefix_def format_checksum_def b_def)

lemma slots_fit_frame_len: "slots_fit (s_cfg s) which sl \<Longrightarrow> length (session_frame e (s_cfg s) which sl) \<le> 512"
  using wire_frame_len [of "wire_body (template_fields (e_tables e) sl (out_decls (s_cfg s) which))" "nm_bytes (cf_begin_string (s_cfg s))"]
  by (simp add: slots_fit_def session_frame_def body_len)

lemma logout_frame:
  assumes "ses_ok e s" "s_out s \<noteq> None" "cfg_ok (s_cfg s)" "plain_header e" "s_state s \<noteq> Disconnected" "s_state s \<noteq> AwaitingLogout"
    and "s_wire s = []" "length why \<le> 30"
  defines "lo \<equiv> session_frame e (s_cfg s) WLogout (send_slots None [(58, why)] s)"
  shows "\<exists>s'. logout_now_with e why s j = (Dropped, s', tell_journal e s' j) \<and> s_wire s' = [lo] \<and> lo \<noteq> [] \<and> length lo \<le> 512"
proof -
  let ?sl = "send_slots None [(58, why)] s"
  have n: "s_next_out s \<le> U32_MAX" "s_last_in s \<le> U32_MAX" using assms(1) by (simp_all add: ses_ok_def)
  have fit: "slots_fit (s_cfg s) WLogout ?sl"
    by (rule slots_fit_short [OF assms(3)])
      (use digits_len [OF n(1)] digits_len [OF n(2)] stamp_len [OF assms(1)] assms(8) in \<open>simp_all add: send_slots_def\<close>)
  have "send e WLogout [(58, why)] s = (Inr (), sent_session None lo s)"
    using send_as_frame [OF assms(1-4) fit] by (simp add: send_def lo_def)
  moreover have "s_wire (sent_session None lo s) = [lo]" using assms(7) by (simp add: sent_session_def)
  moreover have "lo \<noteq> []" by (simp add: lo_def session_frame_def wire_frame_def)
  ultimately show ?thesis
    using assms(5,6) slots_fit_frame_len [OF fit, of e] by (simp add: logout_now_with_def logout_now_def lo_def)
qed

lemma cn_slow_consumer_stream:
  assumes "ses_ok e (cn_session c)" "s_out (cn_session c) \<noteq> None" "cfg_ok (s_cfg (cn_session c))" "plain_header e"
    and "s_state (cn_session c) \<noteq> Disconnected" "s_state (cn_session c) \<noteq> AwaitingLogout" "s_wire (cn_session c) = []"
    and "512 \<le> length (cn_tx c)"
  defines "lo \<equiv> session_frame e (s_cfg (cn_session c)) WLogout (send_slots None [(58, SLOW_CONSUMER)] (cn_session c))"
  shows "\<exists>c'. cn_slow_consumer e T c = Some c' \<and> lo \<noteq> [] \<and> cn_taken c' = cn_taken c \<and> cn_queue c' = lo \<and> cn_closing c'"
proof -
  obtain s' where s: "logout_now_with e SLOW_CONSUMER (cn_session c) (cn_journal c) = (Dropped, s', tell_journal e s' (cn_journal c))"
      "s_wire s' = [lo]" "lo \<noteq> []" "length lo \<le> 512"
    using logout_frame [OF assms(1-7), of SLOW_CONSUMER "cn_journal c"] by (auto simp: b_def lo_def)
  then show ?thesis using assms(8) by (auto simp: cn_slow_consumer_def cn_emit_def cn_push_def cn_put_def)
qed

text \<open>C40: Giving up on a slow counterparty can leave half a message on the wire. Take a connection whose
  session is logged on, keeps its invariant and has its templates (no header tag being DATA), with
  nothing unsent of the session's own and a buffer of at least 512 bytes, and whose queue was never thrown away
  before. When the socket has taken a part of a message and the connection gives up on its
  counterparty, the rest of that message is thrown away with the queue and the Logout follows the torn
  part directly: what is written and queued is the whole messages before it, the first bytes of the torn one, and then
  the frame of a Logout that says \<open>slow consumer\<close>.\<close>

theorem slow_consumer_tears_a_frame:
  assumes "conn_ok c" "\<not> cn_purged c" "cn_said c = ms @ m # later" "cn_taken c = concat ms @ part" "length part < length m"
    and "ses_ok e (cn_session c)" "s_out (cn_session c) \<noteq> None" "cfg_ok (s_cfg (cn_session c))" "plain_header e"
    and "s_state (cn_session c) = LoggedOn" "s_wire (cn_session c) = []" "512 \<le> length (cn_tx c)"
  shows "\<exists>c'. cn_slow_consumer e T c = Some c' \<and> part = take (length part) m \<and> cn_closing c' \<and>
     cn_taken c' @ cn_queue c' = concat ms @ take (length part) m @
       session_frame e (s_cfg (cn_session c)) WLogout (send_slots None [(58, SLOW_CONSUMER)] (cn_session c))"
proof -
  let ?lo = "session_frame e (s_cfg (cn_session c)) WLogout (send_slots None [(58, SLOW_CONSUMER)] (cn_session c))"
  have "s_state (cn_session c) \<noteq> Disconnected" "s_state (cn_session c) \<noteq> AwaitingLogout" using assms(10) by simp_all
  from cn_slow_consumer_stream [OF assms(6-9) this assms(11,12), of T] obtain c' where
    c: "cn_slow_consumer e T c = Some c'" "cn_taken c' = cn_taken c" "cn_queue c' = ?lo" "cn_closing c'" by blast
  have "part @ cn_queue c = m @ concat later" using assms(1-4) by (simp add: conn_ok_def)
  then have "part = take (length part) m" using assms(5) by (metis append_eq_conv_conj take_append diff_is_0_eq less_imp_le take_0 append_Nil2)
  then show ?thesis using c assms(4) by auto
qed


subsection \<open>A connection of the sample session\<close>

definition sample_conn :: "backpressure \<Rightarrow> (bytes, unit) conn" where
  "sample_conn p = cn_with_backpressure p (cn_with_shard 0 (Conn_new 1024 600 7 [] ((w_ses fresh)\<lparr>s_state := LoggedOn\<rparr>) ()))"

text \<open>A message of five bytes of which the socket has taken two.\<close>

definition torn_conn :: "(bytes, unit) conn" where
  "torn_conn = cn_drained 2 [] (cn_put 600 [1, 2, 3, 4, 5] (sample_conn Disconnect))"

lemma sample_session_ready:
  fixes s defines "s \<equiv> (w_ses fresh)\<lparr>s_state := LoggedOn\<rparr>"
  shows "ses_ok silent_app s" "s_out s \<noteq> None" "cfg_ok (s_cfg s)" "s_wire s = []"
proof -
  have "reachable silent_app acceptor fresh" unfolding fresh_def by (rule reachable.started)
  then show "ses_ok silent_app s" using reachable_ok by (fastforce simp: s_def ses_ok_def)
qed (use fresh_out in \<open>simp_all add: s_def fresh_def Session_new_def Let_def acceptor_def cfg_ok_acceptor\<close>)

theorem stream_is_whole_messages_witness:
  "\<exists>c lo. cn_slow_application silent_app sample_transport (sample_conn Disconnect) = Some c \<and> cn_said c = [lo] \<and> cn_taken c @ cn_queue c = lo"
proof -
  note d = sample_conn_def cn_with_backpressure_def cn_with_shard_def Conn_new_def
  let ?c = "sample_conn Disconnect"
  have s: "cn_session ?c = (w_ses fresh)\<lparr>s_state := LoggedOn\<rparr>" by (simp add: d)
  let ?lo = "session_frame silent_app (s_cfg (cn_session ?c)) WLogout (send_slots None [(58, SLOW_APPLICATION)] (cn_session ?c))"
  obtain s' where l: "logout_now_with silent_app SLOW_APPLICATION (cn_session ?c) (cn_journal ?c) = (Dropped, s', tell_journal silent_app s' (cn_journal ?c))"
      "s_wire s' = [?lo]" "length ?lo \<le> 512"
    using logout_frame [OF sample_session_ready(1-3) plain_silent_app _ _ sample_session_ready(4), of SLOW_APPLICATION "cn_journal ?c"] s
    by (auto simp: b_def)
  obtain c where c: "cn_slow_application silent_app sample_transport ?c = Some c" "cn_said c = [?lo]" "\<not> cn_purged c"
    using l by (auto simp: cn_slow_application_def cn_emit_def cn_push_def cn_put_def d)
  have "conn_run silent_app sample_transport (\<lambda>_ g. (False, g :: unit)) 600 ?c" unfolding sample_conn_def by (rule conn_run.made)
  then have "conn_run silent_app sample_transport (\<lambda>_ g. (False, g :: unit)) 600 c"
    using c(1) by (blast intro: conn_run.stepped conn_step.slow_application)
  from stream_is_whole_messages [OF this] show ?thesis using c by simp
qed

definition hung_up_transport :: "bytes transport" where
  "hung_up_transport = sample_transport\<lparr>tp_recv := (\<lambda>n t. (Closed, t))\<rparr>"

theorem turn_returns_witness:
  "\<exists>c' a' g'. cn_turn silent_app hung_up_transport (\<lambda>_ g. (False, g)) 1000 0 0 (sample_conn (Queue 100), (), ()) = Some (TurnGone, c', a', g') \<and>
     s_state (cn_session c') = Disconnected"
  using turn_returns [of "sample_conn (Queue 100)" silent_app hung_up_transport "\<lambda>_ g. (False, g)" 1000 0 0 "()" "()"]
  by (auto simp: sample_conn_def cn_with_backpressure_def cn_with_shard_def Conn_new_def hung_up_transport_def)

theorem long_message_blocks_for_ever_witness:
  "cn_push sample_transport (cn_bound (sample_conn Block)) True (replicate 601 0) (sample_conn Block) = None"
  by (rule long_message_blocks_for_ever)
    (simp_all add: sample_transport_def cn_bound_def sample_conn_def cn_with_backpressure_def cn_with_shard_def Conn_new_def)

theorem slow_consumer_tears_a_frame_witness:
  "\<exists>c'. cn_slow_consumer silent_app sample_transport torn_conn = Some c' \<and> cn_taken c' @ cn_queue c' =
     [1, 2] @ session_frame silent_app (s_cfg (cn_session torn_conn)) WLogout (send_slots None [(58, SLOW_CONSUMER)] (cn_session torn_conn))"
proof -
  note d = torn_conn_def sample_conn_def cn_with_backpressure_def cn_with_shard_def Conn_new_def cn_put_def cn_drained_def
  have "cn_said torn_conn = [] @ [1, 2, 3, 4, 5] # []" "cn_taken torn_conn = concat [] @ [1, 2]" "conn_ok torn_conn" "\<not> cn_purged torn_conn"
    "cn_session torn_conn = (w_ses fresh)\<lparr>s_state := LoggedOn\<rparr>" "length (cn_tx torn_conn) = 600"
    by (simp_all add: d conn_ok_def)
  then show ?thesis
    using slow_consumer_tears_a_frame [of torn_conn "[]" "[1, 2, 3, 4, 5]" "[]" "[1, 2]" silent_app sample_transport] sample_session_ready plain_silent_app
    by auto
qed

end
