(* ===== verification/Recovery.thy ===== *)
theory Recovery
  imports Presession Session Journal
begin

text \<open>
  What a counterparty left behind, \<open>crates/engine/src/recovery.rs\<close>: the numbers a session resumes with,
  read off its journal; how a session starts; and the connections that wait for a recovery that is
  not ready. A recovery is a record of functions over its state, a parameter; \<open>NoRecovery\<close> and \<open>FromFn\<close>
  are the two the engine has.
\<close>

subsection \<open>Resuming\<close>

record 'j resumed =
  rs_journal :: 'j
  rs_next_out :: nat
  rs_next_in :: nat
  rs_last_active_ms :: "nat option"

definition next_after :: "nat option \<Rightarrow> nat" where
  "next_after h = (case h of None \<Rightarrow> 1 | Some n \<Rightarrow> min U32_MAX (n + 1))"

definition Resumed_from_journal :: "('j, 'x) journal_scheme \<Rightarrow> 'j \<Rightarrow> 'j resumed option" where
  "Resumed_from_journal J j =
     (let out = j_highest_out J j; inb = j_highest_in J j; last_active = j_last_active J j in
      if out = None \<and> inb = None \<and> last_active = None then None
      else Some \<lparr>rs_journal = j, rs_next_out = next_after out, rs_next_in = next_after inb, rs_last_active_ms = last_active\<rparr>)"

record ('v, 'j) recovery =
  rv_ready :: "config \<Rightarrow> 'v \<Rightarrow> bool \<times> 'v"
  rv_recover :: "config \<Rightarrow> 'v \<Rightarrow> 'j resumed option \<times> 'v"
  rv_fresh :: "config \<Rightarrow> 'v \<Rightarrow> 'j \<times> 'v"

definition NoRecovery :: "'j \<Rightarrow> (unit, 'j) recovery" where
  "NoRecovery dflt = \<lparr>rv_ready = (\<lambda>_ v. (True, v)), rv_recover = (\<lambda>_ v. (None, v)), rv_fresh = (\<lambda>_ v. (dflt, v))\<rparr>"

definition FromFn :: "'j \<Rightarrow> (config \<Rightarrow> 'v \<Rightarrow> 'j resumed option \<times> 'v) \<Rightarrow> ('v, 'j) recovery" where
  "FromFn dflt f = \<lparr>rv_ready = (\<lambda>_ v. (True, v)), rv_recover = f, rv_fresh = (\<lambda>_ v. (dflt, v))\<rparr>"

datatype 'j start = Fresh 'j | Resumed "'j resumed"

subsection \<open>Waiting for a recovery\<close>

record 'p parked =
  pk_item :: 'p
  pk_cfg :: config
  pk_until_ms :: nat
  pk_asked_ms :: nat

record 'p parking =
  pk_slots :: "'p parked list"
  pk_capacity :: nat

definition Parking_with_capacity :: "nat \<Rightarrow> 'p parking" where
  "Parking_with_capacity n = \<lparr>pk_slots = [], pk_capacity = n\<rparr>"

definition limit_ms :: "config \<Rightarrow> nat \<Rightarrow> nat" where
  "limit_ms cfg fallback_ms = (if cf_logon_timeout_ms cfg = 0 then fallback_ms else cf_logon_timeout_ms cfg)"

definition pk_park :: "'p \<Rightarrow> config \<Rightarrow> nat \<Rightarrow> nat \<Rightarrow> 'p parking \<Rightarrow> ('p + unit) \<times> 'p parking" where
  "pk_park item cfg now_ms limit p =
     (if length (pk_slots p) \<ge> pk_capacity p then (Inl item, p)
      else (Inr (), p\<lparr>pk_slots := pk_slots p @ [\<lparr>pk_item = item, pk_cfg = cfg, pk_until_ms = min U64_MAX (now_ms + limit), pk_asked_ms = now_ms\<rparr>]\<rparr>))"

definition pk_expire :: "nat \<Rightarrow> 'p parking \<Rightarrow> nat \<times> 'p parking" where
  "pk_expire now_ms p =
     (let kept = filter (\<lambda>s. now_ms < pk_until_ms s) (pk_slots p) in (length (pk_slots p) - length kept, p\<lparr>pk_slots := kept\<rparr>))"

text \<open>The search of \<open>next_ready\<close>: the connections in front of the one that is ready, as asking left them,
  that one, and the rest.\<close>

fun ask_ready :: "(config \<Rightarrow> 'v \<Rightarrow> bool \<times> 'v) \<Rightarrow> nat \<Rightarrow> 'p parked list \<Rightarrow> 'v \<Rightarrow> ('p parked list \<times> ('p parked \<times> 'p parked list) option) \<times> 'v" where
  "ask_ready ready now_ms [] v = (([], None), v)"
| "ask_ready ready now_ms (s # ss) v =
     (if now_ms \<le> pk_asked_ms s
      then (case ask_ready ready now_ms ss v of ((front, found), v) \<Rightarrow> ((s # front, found), v))
      else let s = s\<lparr>pk_asked_ms := now_ms\<rparr>; (yes, v) = ready (pk_cfg s) v in
        if yes then (([], Some (s, ss)), v)
        else (case ask_ready ready now_ms ss v of ((front, found), v) \<Rightarrow> ((s # front, found), v)))"

definition pk_next_ready :: "('v, 'j) recovery \<Rightarrow> nat \<Rightarrow> 'p parking \<Rightarrow> 'v \<Rightarrow> ('p \<times> config) option \<times> 'p parking \<times> 'v" where
  "pk_next_ready R now_ms p v =
     (case ask_ready (rv_ready R) now_ms (pk_slots p) v of
        ((front, None), v) \<Rightarrow> (None, p\<lparr>pk_slots := front\<rparr>, v)
      | ((front, Some (s, rest)), v) \<Rightarrow>
          (Some (pk_item s, pk_cfg s),
           p\<lparr>pk_slots := swap_remove (length front) (front @ s # rest)\<rparr>, v))"

subsection \<open>No number is spent twice\<close>

lemma next_after_above: "h = Some m \<Longrightarrow> n \<le> m \<Longrightarrow> n < U32_MAX \<Longrightarrow> n < next_after h"
  by (simp add: next_after_def)

text \<open>A session that resumes spends no number twice. Whatever was done with an in-memory journal, the
  session built from what \<open>from_journal\<close> reads off it starts above every outbound number that was
  marked as spent, those of administrative messages included, which the journal keeps no bytes of.\<close>

theorem resumed_session_spends_fresh_numbers:
  assumes "MarkOut seq \<in> set ps" "seq < U32_MAX"
  shows "\<exists>r. Resumed_from_journal (MemJournal N LEN) (fold (apply_op (MemJournal N LEN)) ps j) = Some r \<and>
    seq < s_next_out (Session_resume e cfg (rs_next_out r) (rs_next_in r))"
proof -
  obtain h where h: "j_highest_out (MemJournal N LEN) (fold (apply_op (MemJournal N LEN)) ps j) = Some h" "seq \<le> h"
    using mem_journal.highest_out_covers [OF assms(1), of N LEN j] by blast
  then show ?thesis using next_after_above [OF h assms(2)] by (simp add: Resumed_from_journal_def Let_def Session_resume_def)
qed

theorem resumed_session_spends_fresh_numbers_witness:
  "\<exists>r. Resumed_from_journal (MemJournal 4 8) (fold (apply_op (MemJournal 4 8)) [MarkOut 9, Put 3 [65]] (MemJournal_new 4 8)) = Some r \<and> 9 < rs_next_out r"
  using resumed_session_spends_fresh_numbers [of 9 "[MarkOut 9, Put 3 [65]]" 4 8 "MemJournal_new 4 8"] by (auto simp: Session_resume_def)

subsection \<open>Asking once per millisecond\<close>

lemma ask_again:
  "ask_ready ready now_ms ss v = ((front, None), v') \<Longrightarrow>
   length front = length ss \<and> map pk_item front = map pk_item ss \<and> list_all (\<lambda>s. now_ms \<le> pk_asked_ms s) front"
proof (induction ss arbitrary: v front)
  case (Cons s ss)
  then show ?case by (auto simp: Let_def split: if_splits prod.splits)
qed simp

lemma asked_already: "list_all (\<lambda>s. now_ms \<le> pk_asked_ms s) ss \<Longrightarrow> ask_ready ready now_ms ss v = ((ss, None), v)"
  by (induction ss) simp_all

lemma ready_was_parked:
  "ask_ready ready now_ms ss v = ((front, Some (s, rest)), v') \<Longrightarrow>
   \<exists>s0. ss = take (length front) ss @ s0 # rest \<and> map pk_item front = map pk_item (take (length front) ss) \<and> pk_asked_ms s0 < now_ms \<and> s = s0\<lparr>pk_asked_ms := now_ms\<rparr>"
proof (induction ss arbitrary: v front)
  case (Cons x ss)
  show ?case
  proof (cases front)
    case Nil
    then show ?thesis using Cons.prems by (auto simp: Let_def split: if_splits prod.splits)
  next
    case f: (Cons y front')
    then obtain v1 where "ask_ready ready now_ms ss v1 = ((front', Some (s, rest)), v')" "pk_item y = pk_item x"
      using Cons.prems by (auto simp: Let_def split: if_splits prod.splits)
    then show ?thesis using Cons.IH [of v1 front'] f by auto
  qed
qed simp

text \<open>A parked connection is asked for at most once in a millisecond and never lost. When no recovery is
  ready, every connection is still parked, and asking again in the same millisecond answers the same
  without putting the question to the recovery; when one is ready, it is a connection that was
  parked and not yet asked for in this millisecond, and all the others are still parked.\<close>

theorem parking_asks_once_per_millisecond:
  "case pk_next_ready R now_ms p v of
     (None, p', v') \<Rightarrow> map pk_item (pk_slots p') = map pk_item (pk_slots p) \<and> (\<forall>v1. pk_next_ready R now_ms p' v1 = (None, p', v1))
   | (Some (item, cfg), p', v') \<Rightarrow> \<exists>s \<in> set (pk_slots p). item = pk_item s \<and> cfg = pk_cfg s \<and> pk_asked_ms s < now_ms \<and>
       mset (map pk_item (pk_slots p)) = add_mset item (mset (map pk_item (pk_slots p')))"
proof -
  obtain front found v' where a: "ask_ready (rv_ready R) now_ms (pk_slots p) v = ((front, found), v')" by (metis prod.exhaust)
  show ?thesis
  proof (cases found)
    case None
    then show ?thesis using a ask_again [of "rv_ready R" now_ms "pk_slots p" v front v'] asked_already [of now_ms front "rv_ready R"]
      by (simp add: pk_next_ready_def)
  next
    case (Some sr)
    obtain s rest where sr: "sr = (s, rest)" by (cases sr)
    from ready_was_parked [of "rv_ready R" now_ms "pk_slots p" v front s rest v'] a Some sr obtain s0 where
      s0: "pk_slots p = take (length front) (pk_slots p) @ s0 # rest" "map pk_item front = map pk_item (take (length front) (pk_slots p))"
        "pk_asked_ms s0 < now_ms" "s = s0\<lparr>pk_asked_ms := now_ms\<rparr>" by auto
    have m: "mset (front @ s # rest) = add_mset s (mset (swap_remove (length front) (front @ s # rest)))"
      using swap_remove_add [of "length front" "front @ s # rest"] by simp
    have "mset (map pk_item (pk_slots p)) = image_mset pk_item (mset (front @ s # rest))"
      by (subst s0(1)) (simp add: s0(4) flip: s0(2) mset_map)
    also have "\<dots> = add_mset (pk_item s0) (mset (map pk_item (swap_remove (length front) (front @ s # rest))))"
      unfolding m by (simp add: s0(4))
    finally have "mset (map pk_item (pk_slots p)) = add_mset (pk_item s0) (mset (map pk_item (swap_remove (length front) (front @ s # rest))))" .
    moreover have "s0 \<in> set (pk_slots p)" by (subst s0(1)) simp
    ultimately show ?thesis using a Some sr s0(3,4) by (auto simp: pk_next_ready_def simp flip: mset_map)
  qed
qed

end
