(* ===== verification/Settings.thy ===== *)
theory Settings
  imports Presession Reconnect
begin

text \<open>
  The configuration file: \<open>crates/engine/src/settings.rs\<close>. A \<open>&str\<close> is its UTF-8 bytes, as in Rust, so
  trimming strips the encodings of the characters with the property \<open>White_Space\<close>. A setting found in the
  file is its line and its value; \<open>Block\<close> and \<open>TlsBlock\<close> are records with the source's fields. Errors carry
  the line, the problem and the detail. Whether the build has the feature \<open>tls\<close> is an argument of
  \<open>tls_settle\<close> and of what calls it; reading a file is an argument of \<open>Settings_load\<close>. A \<open>PathBuf\<close> is the
  text it was made from.
\<close>

definition EM_DASH :: bytes where
  "EM_DASH = [0xE2, 0x80, 0x94]"

subsection \<open>The operations of \<open>str\<close>\<close>

text \<open>The characters that \<open>char::is_whitespace\<close> accepts, encoded.\<close>

definition WHITE_SPACE :: "bytes list" where
  "WHITE_SPACE =
     [[9], [10], [11], [12], [13], [32], [0xC2, 0x85], [0xC2, 0xA0], [0xE1, 0x9A, 0x80]]
     @ map (\<lambda>k. [0xE2, 0x80, k]) [0x80, 0x81, 0x82, 0x83, 0x84, 0x85, 0x86, 0x87, 0x88, 0x89, 0x8A, 0xA8, 0xA9, 0xAF]
     @ [[0xE2, 0x81, 0x9F], [0xE3, 0x80, 0x80]]"

definition starts_with :: "bytes \<Rightarrow> bytes \<Rightarrow> bool" where
  "starts_with w s \<longleftrightarrow> take (length w) s = w"

function strip_while :: "bytes list \<Rightarrow> bytes \<Rightarrow> bytes" where
  "strip_while ws s = (case List.find (\<lambda>w. w \<noteq> [] \<and> starts_with w s) ws of
       Some w \<Rightarrow> strip_while ws (drop (length w) s)
     | None \<Rightarrow> s)"
  by pat_completeness auto

lemma starts_with_shorter: "starts_with w s \<Longrightarrow> w \<noteq> [] \<Longrightarrow> length (drop (length w) s) < length s"
  by (cases s; cases w) (auto simp: starts_with_def)

termination strip_while
proof (relation "measure (\<lambda>(ws, s). length s)", goal_cases)
  case (2 ws s w)
  then have "w \<noteq> []" "starts_with w s" by (auto simp: find_Some_iff)
  then show ?case using starts_with_shorter by simp
qed simp

declare strip_while.simps [simp del]

definition trim_start :: "bytes \<Rightarrow> bytes" where
  "trim_start s = strip_while WHITE_SPACE s"

definition trim_end :: "bytes \<Rightarrow> bytes" where
  "trim_end s = rev (strip_while (map rev WHITE_SPACE) (rev s))"

definition trim :: "bytes \<Rightarrow> bytes" where
  "trim s = trim_end (trim_start s)"

text \<open>\<open>lines\<close> cuts after every line feed and drops it, with a carriage return before it; what is left over
  behind the last one is a line if it is not empty.\<close>

definition strip_cr :: "bytes \<Rightarrow> bytes" where
  "strip_cr s = (if s \<noteq> [] \<and> last s = 13 then butlast s else s)"

fun lines_from :: "bytes \<Rightarrow> bytes \<Rightarrow> bytes list" where
  "lines_from cur [] = (if cur = [] then [] else [cur])"
| "lines_from cur (c # cs) = (if c = 10 then strip_cr cur # lines_from [] cs else lines_from (cur @ [c]) cs)"

definition str_lines :: "bytes \<Rightarrow> bytes list" where
  "str_lines text = lines_from [] text"

definition split_once :: "byte \<Rightarrow> bytes \<Rightarrow> (bytes \<times> bytes) option" where
  "split_once c s = map_option (\<lambda>i. (take i s, drop (i + 1) s)) (position (\<lambda>x. x = c) s)"

text \<open>\<open>str::parse\<close> for an unsigned integer with the largest value \<open>m\<close>: an optional plus sign, then digits.\<close>

fun uint_digits :: "nat \<Rightarrow> bytes \<Rightarrow> nat \<Rightarrow> nat option" where
  "uint_digits m [] n = Some n"
| "uint_digits m (c # cs) n =
     (if is_ascii_digit c then Option.bind (push_digit m n (digit_of c)) (uint_digits m cs) else None)"

definition parse_uint :: "nat \<Rightarrow> bytes \<Rightarrow> nat option" where
  "parse_uint m s =
     (if s = [] \<or> s = b ''+'' \<or> s = b ''-'' then None
      else uint_digits m (if hd s = 43 then tl s else s) 0)"

definition saturating_mul64 :: "nat \<Rightarrow> nat \<Rightarrow> nat" where
  "saturating_mul64 x y = min (x * y) U64_MAX"

subsection \<open>Keys\<close>

datatype key =
    BeginString | SenderCompId | TargetCompId | DefaultApplVerId | HeartBtInt | MaxSkewMillis | StartTime
    | EndTime | StartDay | EndDay | Weekdays | FileLogPath | ConnectionType | SocketConnectHost
    | SocketConnectPort | ReconnectInterval | ReconnectCeiling | ResetOnLogon | ResetOnLogout
    | ResetOnDisconnect | LogonTimeout | LogoutTimeout | AllowUnknownMsgFields | ValidateUserDefinedFields
    | SendNextExpectedMsgSeqNum | EnableLastMsgSeqNumProcessed | TimestampPrecision | SocketUseSsl
    | ServerCertificateFile | ServerCertificateKeyFile | TlsRequireKernel | CertificationAuthoritiesFile
    | ClientCertificateFile | ClientCertificateKeyFile | ListenerEveryTurns

definition Key_parse :: "bytes \<Rightarrow> key option" where
  "Key_parse name =
     (if name = b ''BeginString'' then Some BeginString
     else if name = b ''SenderCompID'' then Some SenderCompId
     else if name = b ''TargetCompID'' then Some TargetCompId
     else if name = b ''DefaultApplVerID'' then Some DefaultApplVerId
     else if name = b ''HeartBtInt'' then Some HeartBtInt
     else if name = b ''MaxSkewMillis'' then Some MaxSkewMillis
     else if name = b ''StartTime'' then Some StartTime
     else if name = b ''EndTime'' then Some EndTime
     else if name = b ''StartDay'' then Some StartDay
     else if name = b ''EndDay'' then Some EndDay
     else if name = b ''Weekdays'' then Some Weekdays
     else if name = b ''FileLogPath'' then Some FileLogPath
     else if name = b ''ConnectionType'' then Some ConnectionType
     else if name = b ''SocketConnectHost'' then Some SocketConnectHost
     else if name = b ''SocketConnectPort'' then Some SocketConnectPort
     else if name = b ''ReconnectInterval'' then Some ReconnectInterval
     else if name = b ''ReconnectCeiling'' then Some ReconnectCeiling
     else if name = b ''ResetOnLogon'' then Some ResetOnLogon
     else if name = b ''ResetOnLogout'' then Some ResetOnLogout
     else if name = b ''ResetOnDisconnect'' then Some ResetOnDisconnect
     else if name = b ''LogonTimeout'' then Some LogonTimeout
     else if name = b ''LogoutTimeout'' then Some LogoutTimeout
     else if name = b ''AllowUnknownMsgFields'' then Some AllowUnknownMsgFields
     else if name = b ''ValidateUserDefinedFields'' then Some ValidateUserDefinedFields
     else if name = b ''SendNextExpectedMsgSeqNum'' then Some SendNextExpectedMsgSeqNum
     else if name = b ''EnableLastMsgSeqNumProcessed'' then Some EnableLastMsgSeqNumProcessed
     else if name = b ''TimestampPrecision'' then Some TimestampPrecision
     else if name = b ''SocketUseSSL'' then Some SocketUseSsl
     else if name = b ''ServerCertificateFile'' then Some ServerCertificateFile
     else if name = b ''ServerCertificateKeyFile'' then Some ServerCertificateKeyFile
     else if name = b ''TlsRequireKernel'' then Some TlsRequireKernel
     else if name = b ''CertificationAuthoritiesFile'' then Some CertificationAuthoritiesFile
     else if name = b ''ClientCertificateFile'' then Some ClientCertificateFile
     else if name = b ''ClientCertificateKeyFile'' then Some ClientCertificateKeyFile
     else if name = b ''ListenerEveryTurns'' then Some ListenerEveryTurns
     else None)"

definition key_name :: "key \<Rightarrow> bytes" where
  "key_name k = (case k of
       BeginString \<Rightarrow> b ''BeginString''
     | SenderCompId \<Rightarrow> b ''SenderCompID''
     | TargetCompId \<Rightarrow> b ''TargetCompID''
     | DefaultApplVerId \<Rightarrow> b ''DefaultApplVerID''
     | HeartBtInt \<Rightarrow> b ''HeartBtInt''
     | MaxSkewMillis \<Rightarrow> b ''MaxSkewMillis''
     | StartTime \<Rightarrow> b ''StartTime''
     | EndTime \<Rightarrow> b ''EndTime''
     | StartDay \<Rightarrow> b ''StartDay''
     | EndDay \<Rightarrow> b ''EndDay''
     | Weekdays \<Rightarrow> b ''Weekdays''
     | FileLogPath \<Rightarrow> b ''FileLogPath''
     | ConnectionType \<Rightarrow> b ''ConnectionType''
     | SocketConnectHost \<Rightarrow> b ''SocketConnectHost''
     | SocketConnectPort \<Rightarrow> b ''SocketConnectPort''
     | ReconnectInterval \<Rightarrow> b ''ReconnectInterval''
     | ReconnectCeiling \<Rightarrow> b ''ReconnectCeiling''
     | ResetOnLogon \<Rightarrow> b ''ResetOnLogon''
     | ResetOnLogout \<Rightarrow> b ''ResetOnLogout''
     | ResetOnDisconnect \<Rightarrow> b ''ResetOnDisconnect''
     | LogonTimeout \<Rightarrow> b ''LogonTimeout''
     | LogoutTimeout \<Rightarrow> b ''LogoutTimeout''
     | AllowUnknownMsgFields \<Rightarrow> b ''AllowUnknownMsgFields''
     | ValidateUserDefinedFields \<Rightarrow> b ''ValidateUserDefinedFields''
     | SendNextExpectedMsgSeqNum \<Rightarrow> b ''SendNextExpectedMsgSeqNum''
     | EnableLastMsgSeqNumProcessed \<Rightarrow> b ''EnableLastMsgSeqNumProcessed''
     | TimestampPrecision \<Rightarrow> b ''TimestampPrecision''
     | SocketUseSsl \<Rightarrow> b ''SocketUseSSL''
     | ServerCertificateFile \<Rightarrow> b ''ServerCertificateFile''
     | ServerCertificateKeyFile \<Rightarrow> b ''ServerCertificateKeyFile''
     | TlsRequireKernel \<Rightarrow> b ''TlsRequireKernel''
     | CertificationAuthoritiesFile \<Rightarrow> b ''CertificationAuthoritiesFile''
     | ClientCertificateFile \<Rightarrow> b ''ClientCertificateFile''
     | ClientCertificateKeyFile \<Rightarrow> b ''ClientCertificateKeyFile''
     | ListenerEveryTurns \<Rightarrow> b ''ListenerEveryTurns'')"

datatype connection_type = Acceptor | Initiator

definition QUICKFIX_DICTIONARY_KEYS :: "bytes list" where
  "QUICKFIX_DICTIONARY_KEYS =
     [b ''UseDataDictionary'', b ''DataDictionary'', b ''TransportDataDictionary'', b ''AppDataDictionary'']"

subsection \<open>Problems\<close>

datatype problem =
    Unreadable | NotAKeyValue | UnknownSection | KeyOutsideSection | UnknownKey | DefaultOnly | WrongRole
    | OneSessionPerInitiator | ImpossiblePolicy | NotAFlag | BadConnectionType | RepeatedKey | MissingKey
    | DefaultApplVerIdRequired | DefaultApplVerIdWithoutFixt | ValueTooLong | NotANumber | UnsupportedPrecision
    | NoSessions | DuplicateSession | BadTime | BadWeekday | ImpossibleSchedule | NeedsFeature | NeedsTlsDoor
    | NoListenerCadence | DictionaryIsBuildTime

definition problem_text :: "problem \<Rightarrow> bytes" where
  "problem_text p = (case p of
       Unreadable \<Rightarrow> b ''the file could not be read''
     | NotAKeyValue \<Rightarrow> b ''expected `Key=Value` or a `[SECTION]` header''
     | UnknownSection \<Rightarrow> b ''unknown section '' @ EM_DASH @ b '' expected [DEFAULT] or [SESSION]''
     | KeyOutsideSection \<Rightarrow> b ''a setting before the first [DEFAULT] or [SESSION]''
     | UnknownKey \<Rightarrow> b ''unknown key''
     | DefaultOnly \<Rightarrow> b ''this key belongs in [DEFAULT], not in a [SESSION]''
     | WrongRole \<Rightarrow> b ''this belongs to the other ConnectionType''
     | OneSessionPerInitiator \<Rightarrow> b ''an initiator holds one session, so one [SESSION]''
     | ImpossiblePolicy \<Rightarrow> b ''these reconnect bounds describe no ladder''
     | NotAFlag \<Rightarrow> b ''expected Y or N''
     | BadConnectionType \<Rightarrow> b ''expected ConnectionType=acceptor or ConnectionType=initiator''
     | RepeatedKey \<Rightarrow> b ''the same key twice in one block''
     | MissingKey \<Rightarrow> b ''a required key is missing''
     | DefaultApplVerIdRequired \<Rightarrow> b ''DefaultApplVerID is required when BeginString=FIXT.1.1''
     | DefaultApplVerIdWithoutFixt \<Rightarrow> b ''DefaultApplVerID is refused unless BeginString=FIXT.1.1''
     | ValueTooLong \<Rightarrow> b ''the value is longer than a session configuration can hold''
     | NotANumber \<Rightarrow> b ''expected a number written as digits only '' @ EM_DASH @ b '' no sign, no leading zero '' @ EM_DASH @ b '' that fits this key''
     | UnsupportedPrecision \<Rightarrow> b ''expected TimestampPrecision=3, 6 or 9 '' @ EM_DASH @ b '' this engine writes no other width''
     | NoSessions \<Rightarrow> b ''no [SESSION] block '' @ EM_DASH @ b '' this acceptor would serve nobody''
     | DuplicateSession \<Rightarrow> b ''two [SESSION] blocks name the same FIX identity''
     | BadTime \<Rightarrow> b ''expected a time of day as HH:MM:SS''
     | BadWeekday \<Rightarrow> b ''expected a weekday, e.g. Monday or Mon''
     | ImpossibleSchedule \<Rightarrow> b ''these times and days describe no session''
     | NeedsFeature \<Rightarrow> b ''this engine was built without the feature this key needs''
     | NeedsTlsDoor \<Rightarrow> b ''this file asks for TLS, and this door would carry it as plaintext''
     | NoListenerCadence \<Rightarrow> b ''a cadence of zero never polls the listener '' @ EM_DASH @ b '' no connection would ever be accepted''
     | DictionaryIsBuildTime \<Rightarrow> b ''the dictionary is chosen when the application is built, not in this file '' @ EM_DASH @ b '' see docs/how-to/use-a-venue-dictionary.md'')"

record settings_error =
  se_line :: nat
  se_problem :: problem
  se_detail :: bytes

definition se_at :: "nat \<Rightarrow> problem \<Rightarrow> bytes \<Rightarrow> settings_error" where
  "se_at line p detail = \<lparr>se_line = line, se_problem = p, se_detail = detail\<rparr>"

definition se_text :: "settings_error \<Rightarrow> bytes" where
  "se_text e =
     (if se_line e = 0 then problem_text (se_problem e) @ b '': '' @ se_detail e
      else b ''line '' @ dec_digits (se_line e) @ b '': '' @ problem_text (se_problem e) @ b '': '' @ se_detail e)"

subsection \<open>Blocks\<close>

type_synonym slot_value = "(nat \<times> bytes) option"

definition opt_or :: "'a option \<Rightarrow> 'a option \<Rightarrow> 'a option" where
  "opt_or x y = (case x of Some _ \<Rightarrow> x | None \<Rightarrow> y)"

text \<open>One assignment through the reference to a slot of a block, refused when the slot is taken.\<close>

definition take_slot :: "('r \<Rightarrow> slot_value) \<Rightarrow> ((slot_value \<Rightarrow> slot_value) \<Rightarrow> 'r \<Rightarrow> 'r) \<Rightarrow> key \<Rightarrow> nat \<Rightarrow> bytes \<Rightarrow> 'r \<Rightarrow> settings_error + 'r" where
  "take_slot get upd key line value r =
     (if get r \<noteq> None then Inl (se_at line RepeatedKey (key_name key)) else Inr (upd (\<lambda>_. Some (line, value)) r))"

definition first_present :: "(slot_value \<times> key) list \<Rightarrow> (nat \<times> key) option" where
  "first_present pairs = map_option (\<lambda>(slot, key). (fst (the slot), key)) (List.find (\<lambda>(slot, key). slot \<noteq> None) pairs)"

record settings_block =
  sb_begin_string :: slot_value
  sb_sender :: slot_value
  sb_target :: slot_value
  sb_default_appl_ver_id :: slot_value
  sb_heart_bt_int :: slot_value
  sb_max_skew :: slot_value
  sb_start_time :: slot_value
  sb_end_time :: slot_value
  sb_start_day :: slot_value
  sb_end_day :: slot_value
  sb_weekdays :: slot_value
  sb_host :: slot_value
  sb_port :: slot_value
  sb_reconnect_interval :: slot_value
  sb_reconnect_ceiling :: slot_value
  sb_reset_on_logon :: slot_value
  sb_reset_on_logout :: slot_value
  sb_reset_on_disconnect :: slot_value
  sb_logon_timeout :: slot_value
  sb_logout_timeout :: slot_value
  sb_allow_unknown_msg_fields :: slot_value
  sb_validate_user_defined_fields :: slot_value
  sb_send_next_expected :: slot_value
  sb_enable_last_processed :: slot_value
  sb_timestamp_precision :: slot_value

definition Block_default :: settings_block where
  "Block_default = \<lparr>sb_begin_string = None, sb_sender = None, sb_target = None, sb_default_appl_ver_id = None
     , sb_heart_bt_int = None, sb_max_skew = None, sb_start_time = None, sb_end_time = None, sb_start_day = None
     , sb_end_day = None, sb_weekdays = None, sb_host = None, sb_port = None, sb_reconnect_interval = None
     , sb_reconnect_ceiling = None, sb_reset_on_logon = None, sb_reset_on_logout = None
     , sb_reset_on_disconnect = None, sb_logon_timeout = None, sb_logout_timeout = None
     , sb_allow_unknown_msg_fields = None, sb_validate_user_defined_fields = None, sb_send_next_expected = None
     , sb_enable_last_processed = None, sb_timestamp_precision = None\<rparr>"

definition sb_set :: "key \<Rightarrow> nat \<Rightarrow> bytes \<Rightarrow> settings_block \<Rightarrow> settings_error + settings_block" where
  "sb_set key line value blk = (case key of
       BeginString \<Rightarrow> take_slot sb_begin_string sb_begin_string_update key line value blk
     | SenderCompId \<Rightarrow> take_slot sb_sender sb_sender_update key line value blk
     | TargetCompId \<Rightarrow> take_slot sb_target sb_target_update key line value blk
     | DefaultApplVerId \<Rightarrow> take_slot sb_default_appl_ver_id sb_default_appl_ver_id_update key line value blk
     | HeartBtInt \<Rightarrow> take_slot sb_heart_bt_int sb_heart_bt_int_update key line value blk
     | MaxSkewMillis \<Rightarrow> take_slot sb_max_skew sb_max_skew_update key line value blk
     | StartTime \<Rightarrow> take_slot sb_start_time sb_start_time_update key line value blk
     | EndTime \<Rightarrow> take_slot sb_end_time sb_end_time_update key line value blk
     | StartDay \<Rightarrow> take_slot sb_start_day sb_start_day_update key line value blk
     | EndDay \<Rightarrow> take_slot sb_end_day sb_end_day_update key line value blk
     | Weekdays \<Rightarrow> take_slot sb_weekdays sb_weekdays_update key line value blk
     | SocketConnectHost \<Rightarrow> take_slot sb_host sb_host_update key line value blk
     | SocketConnectPort \<Rightarrow> take_slot sb_port sb_port_update key line value blk
     | ReconnectInterval \<Rightarrow> take_slot sb_reconnect_interval sb_reconnect_interval_update key line value blk
     | ReconnectCeiling \<Rightarrow> take_slot sb_reconnect_ceiling sb_reconnect_ceiling_update key line value blk
     | ResetOnLogon \<Rightarrow> take_slot sb_reset_on_logon sb_reset_on_logon_update key line value blk
     | ResetOnLogout \<Rightarrow> take_slot sb_reset_on_logout sb_reset_on_logout_update key line value blk
     | ResetOnDisconnect \<Rightarrow> take_slot sb_reset_on_disconnect sb_reset_on_disconnect_update key line value blk
     | LogonTimeout \<Rightarrow> take_slot sb_logon_timeout sb_logon_timeout_update key line value blk
     | LogoutTimeout \<Rightarrow> take_slot sb_logout_timeout sb_logout_timeout_update key line value blk
     | AllowUnknownMsgFields \<Rightarrow> take_slot sb_allow_unknown_msg_fields sb_allow_unknown_msg_fields_update key line value blk
     | ValidateUserDefinedFields \<Rightarrow> take_slot sb_validate_user_defined_fields sb_validate_user_defined_fields_update key line value blk
     | SendNextExpectedMsgSeqNum \<Rightarrow> take_slot sb_send_next_expected sb_send_next_expected_update key line value blk
     | EnableLastMsgSeqNumProcessed \<Rightarrow> take_slot sb_enable_last_processed sb_enable_last_processed_update key line value blk
     | TimestampPrecision \<Rightarrow> take_slot sb_timestamp_precision sb_timestamp_precision_update key line value blk
     | _ \<Rightarrow> Inl (se_at line DefaultOnly (key_name key)))"

definition sb_over :: "settings_block \<Rightarrow> settings_block \<Rightarrow> settings_block" where
  "sb_over s d =
     \<lparr>sb_begin_string = opt_or (sb_begin_string s) (sb_begin_string d),
      sb_sender = opt_or (sb_sender s) (sb_sender d),
      sb_target = opt_or (sb_target s) (sb_target d),
      sb_default_appl_ver_id = opt_or (sb_default_appl_ver_id s) (sb_default_appl_ver_id d),
      sb_heart_bt_int = opt_or (sb_heart_bt_int s) (sb_heart_bt_int d),
      sb_max_skew = opt_or (sb_max_skew s) (sb_max_skew d),
      sb_start_time = opt_or (sb_start_time s) (sb_start_time d),
      sb_end_time = opt_or (sb_end_time s) (sb_end_time d),
      sb_start_day = opt_or (sb_start_day s) (sb_start_day d),
      sb_end_day = opt_or (sb_end_day s) (sb_end_day d),
      sb_weekdays = opt_or (sb_weekdays s) (sb_weekdays d),
      sb_host = opt_or (sb_host s) (sb_host d),
      sb_port = opt_or (sb_port s) (sb_port d),
      sb_reconnect_interval = opt_or (sb_reconnect_interval s) (sb_reconnect_interval d),
      sb_reconnect_ceiling = opt_or (sb_reconnect_ceiling s) (sb_reconnect_ceiling d),
      sb_reset_on_logon = opt_or (sb_reset_on_logon s) (sb_reset_on_logon d),
      sb_reset_on_logout = opt_or (sb_reset_on_logout s) (sb_reset_on_logout d),
      sb_reset_on_disconnect = opt_or (sb_reset_on_disconnect s) (sb_reset_on_disconnect d),
      sb_logon_timeout = opt_or (sb_logon_timeout s) (sb_logon_timeout d),
      sb_logout_timeout = opt_or (sb_logout_timeout s) (sb_logout_timeout d),
      sb_allow_unknown_msg_fields = opt_or (sb_allow_unknown_msg_fields s) (sb_allow_unknown_msg_fields d),
      sb_validate_user_defined_fields = opt_or (sb_validate_user_defined_fields s) (sb_validate_user_defined_fields d),
      sb_send_next_expected = opt_or (sb_send_next_expected s) (sb_send_next_expected d),
      sb_enable_last_processed = opt_or (sb_enable_last_processed s) (sb_enable_last_processed d),
      sb_timestamp_precision = opt_or (sb_timestamp_precision s) (sb_timestamp_precision d)\<rparr>"

definition dialling_key :: "settings_block \<Rightarrow> (nat \<times> key) option" where
  "dialling_key blk = first_present [
     (sb_host blk, SocketConnectHost),
     (sb_port blk, SocketConnectPort),
     (sb_reconnect_interval blk, ReconnectInterval),
     (sb_reconnect_ceiling blk, ReconnectCeiling)]"

definition line_of :: "settings_block \<Rightarrow> nat" where
  "line_of blk = (case sb_target blk of Some (line, _) \<Rightarrow> line | None \<Rightarrow> 0)"

subsection \<open>Reading one value\<close>

definition required_setting :: "slot_value \<Rightarrow> key \<Rightarrow> nat \<Rightarrow> settings_error + (nat \<times> bytes)" where
  "required_setting slot key at = ok_or slot (se_at at MissingKey (key_name key))"

definition fitting :: "nat \<times> bytes \<Rightarrow> nat \<Rightarrow> key \<Rightarrow> settings_error + bytes" where
  "fitting v limit key =
     (if length (snd v) > limit
      then Inl (se_at (fst v) ValueTooLong
             (key_name key @ b '' is '' @ dec_digits (length (snd v)) @ b '' bytes, the limit is '' @ dec_digits limit))
      else Inr (snd v))"

definition as_written :: "key \<Rightarrow> bytes \<Rightarrow> bytes" where
  "as_written key value = key_name key @ b ''='' @ value"

definition flag :: "nat \<times> bytes \<Rightarrow> key \<Rightarrow> settings_error + bool" where
  "flag v key =
     (if snd v = b ''Y'' then Inr True
      else if snd v = b ''N'' then Inr False
      else Inl (se_at (fst v) NotAFlag (as_written key (snd v))))"

definition spelled_exactly_as_digits :: "bytes \<Rightarrow> bool" where
  "spelled_exactly_as_digits value \<longleftrightarrow>
     value \<noteq> [] \<and> list_all is_ascii_digit value \<and> \<not> (length value > 1 \<and> hd value = 48)"

definition integer_as_written :: "nat \<Rightarrow> nat \<times> bytes \<Rightarrow> key \<Rightarrow> problem \<Rightarrow> settings_error + nat" where
  "integer_as_written m v key misspelled =
     bindR (ok_or (parse_uint m (snd v)) (se_at (fst v) NotANumber (as_written key (snd v)))) (\<lambda>parsed.
     if \<not> spelled_exactly_as_digits (snd v) then Inl (se_at (fst v) misspelled (as_written key (snd v)))
     else Inr parsed)"

definition number_setting :: "nat \<Rightarrow> nat \<times> bytes \<Rightarrow> key \<Rightarrow> settings_error + nat" where
  "number_setting m v key = integer_as_written m v key NotANumber"

definition time_of_day :: "nat \<times> bytes \<Rightarrow> key \<Rightarrow> settings_error + nat" where
  "time_of_day v key =
     (let bad = Inl (se_at (fst v) BadTime (as_written key (snd v))) in
      case split_on 58 (snd v) of
        [h, m, s] \<Rightarrow>
          if length h \<noteq> 2 \<or> length m \<noteq> 2 \<or> length s \<noteq> 2 then bad
          else if \<not> list_all is_ascii_digit h \<or> \<not> list_all is_ascii_digit m \<or> \<not> list_all is_ascii_digit s then bad
          else (case (parse_uint U32_MAX h, parse_uint U32_MAX m, parse_uint U32_MAX s) of
             (Some h, Some m, Some s) \<Rightarrow>
               if h > 23 \<or> m > 59 \<or> s > 59 then bad else Inr (h * 3600 + m * 60 + s)
           | _ \<Rightarrow> bad)
      | _ \<Rightarrow> bad)"

definition weekday_named :: "bytes \<Rightarrow> weekday option" where
  "weekday_named name =
     (if name = b ''Monday'' \<or> name = b ''Mon'' then Some Monday
      else if name = b ''Tuesday'' \<or> name = b ''Tue'' then Some Tuesday
      else if name = b ''Wednesday'' \<or> name = b ''Wed'' then Some Wednesday
      else if name = b ''Thursday'' \<or> name = b ''Thu'' then Some Thursday
      else if name = b ''Friday'' \<or> name = b ''Fri'' then Some Friday
      else if name = b ''Saturday'' \<or> name = b ''Sat'' then Some Saturday
      else if name = b ''Sunday'' \<or> name = b ''Sun'' then Some Sunday
      else None)"

definition one_day :: "nat \<times> bytes \<Rightarrow> key \<Rightarrow> settings_error + weekday" where
  "one_day v key = ok_or (weekday_named (snd v)) (se_at (fst v) BadWeekday (as_written key (snd v)))"

subsection \<open>TLS\<close>

record tls_block =
  tb_use_ssl :: slot_value
  tb_certificate :: slot_value
  tb_private_key :: slot_value
  tb_require_kernel :: slot_value
  tb_ca :: slot_value
  tb_client_certificate :: slot_value
  tb_client_private_key :: slot_value

definition TlsBlock_default :: tls_block where
  "TlsBlock_default = \<lparr>tb_use_ssl = None, tb_certificate = None, tb_private_key = None, tb_require_kernel = None, tb_ca = None
     , tb_client_certificate = None, tb_client_private_key = None\<rparr>"

record tls_settings =
  tl_certificate :: bytes
  tl_private_key :: bytes
  tl_require_kernel :: bool

record client_tls_settings =
  ct_ca :: bytes
  ct_identity :: "(bytes \<times> bytes) option"
  ct_require_kernel :: bool

datatype settled_tls = Server tls_settings | Client client_tls_settings

definition tls_slot :: "key \<Rightarrow> ((tls_block \<Rightarrow> slot_value) \<times> ((slot_value \<Rightarrow> slot_value) \<Rightarrow> tls_block \<Rightarrow> tls_block)) option" where
  "tls_slot key = (case key of
       SocketUseSsl \<Rightarrow> Some (tb_use_ssl, tb_use_ssl_update)
     | ServerCertificateFile \<Rightarrow> Some (tb_certificate, tb_certificate_update)
     | ServerCertificateKeyFile \<Rightarrow> Some (tb_private_key, tb_private_key_update)
     | TlsRequireKernel \<Rightarrow> Some (tb_require_kernel, tb_require_kernel_update)
     | CertificationAuthoritiesFile \<Rightarrow> Some (tb_ca, tb_ca_update)
     | ClientCertificateFile \<Rightarrow> Some (tb_client_certificate, tb_client_certificate_update)
     | ClientCertificateKeyFile \<Rightarrow> Some (tb_client_private_key, tb_client_private_key_update)
     | _ \<Rightarrow> None)"

definition tls_anchor :: "tls_block \<Rightarrow> (nat \<times> key) option" where
  "tls_anchor t = first_present [
     (tb_use_ssl t, SocketUseSsl),
     (tb_certificate t, ServerCertificateFile),
     (tb_private_key t, ServerCertificateKeyFile),
     (tb_require_kernel t, TlsRequireKernel),
     (tb_ca t, CertificationAuthoritiesFile),
     (tb_client_certificate t, ClientCertificateFile),
     (tb_client_private_key t, ClientCertificateKeyFile)]"

text \<open>The keys of the other role, those that need the switch, and what each role presents.\<close>

definition tls_foreign :: "connection_type \<Rightarrow> tls_block \<Rightarrow> (nat \<times> key) option \<times> bytes" where
  "tls_foreign role t = (case role of
       Initiator \<Rightarrow> (first_present [(tb_certificate t, ServerCertificateFile), (tb_private_key t, ServerCertificateKeyFile)], b ''acceptor'')
     | Acceptor \<Rightarrow> (first_present [(tb_ca t, CertificationAuthoritiesFile), (tb_client_certificate t, ClientCertificateFile),
         (tb_client_private_key t, ClientCertificateKeyFile)], b ''initiator''))"

definition tls_dependent :: "tls_block \<Rightarrow> (nat \<times> key) option" where
  "tls_dependent t = first_present [(tb_certificate t, ServerCertificateFile), (tb_private_key t, ServerCertificateKeyFile),
     (tb_ca t, CertificationAuthoritiesFile), (tb_client_certificate t, ClientCertificateFile),
     (tb_client_private_key t, ClientCertificateKeyFile), (tb_require_kernel t, TlsRequireKernel)]"

definition flag_or :: "bool \<Rightarrow> slot_value \<Rightarrow> key \<Rightarrow> settings_error + bool" where
  "flag_or d slot key = (case slot of Some v \<Rightarrow> flag v key | None \<Rightarrow> Inr d)"

definition settle_server :: "tls_block \<Rightarrow> nat \<Rightarrow> bool \<Rightarrow> settings_error + settled_tls" where
  "settle_server t ssl_line require_kernel =
     bindR (required_setting (tb_certificate t) ServerCertificateFile ssl_line) (\<lambda>certificate.
     bindR (required_setting (tb_private_key t) ServerCertificateKeyFile ssl_line) (\<lambda>private_key.
     Inr (Server \<lparr>tl_certificate = snd certificate, tl_private_key = snd private_key, tl_require_kernel = require_kernel\<rparr>)))"

definition client_identity :: "tls_block \<Rightarrow> settings_error + (bytes \<times> bytes) option" where
  "client_identity t = (case (tb_client_certificate t, tb_client_private_key t) of
       (None, None) \<Rightarrow> Inr None
     | (Some (_, cert), Some (_, key)) \<Rightarrow> Inr (Some (cert, key))
     | (Some (line, _), None) \<Rightarrow> Inl (se_at line MissingKey
         (b ''ClientCertificateKeyFile '' @ EM_DASH @ b '' ClientCertificateFile needs its key, in a file of its own''))
     | (None, Some (line, _)) \<Rightarrow> Inl (se_at line MissingKey
         (b ''ClientCertificateFile '' @ EM_DASH @ b '' ClientCertificateKeyFile is a key for no certificate'')))"

definition settle_client :: "tls_block \<Rightarrow> nat \<Rightarrow> bool \<Rightarrow> settings_error + settled_tls" where
  "settle_client t ssl_line require_kernel =
     bindR (required_setting (tb_ca t) CertificationAuthoritiesFile ssl_line) (\<lambda>ca.
     bindR (client_identity t) (\<lambda>identity.
     Inr (Client \<lparr>ct_ca = snd ca, ct_identity = identity, ct_require_kernel = require_kernel\<rparr>)))"

definition tls_settle :: "bool \<Rightarrow> connection_type \<Rightarrow> tls_block \<Rightarrow> settings_error + (nat \<times> settled_tls) option" where
  "tls_settle feature_tls role t =
     (case tls_anchor t of None \<Rightarrow> Inr None | Some (anchor_line, _) \<Rightarrow>
      (case tls_foreign role t of
        (Some (line, key), wanted) \<Rightarrow> Inl (se_at line WrongRole (key_name key @ b '' needs ConnectionType='' @ wanted))
      | (None, _) \<Rightarrow>
        bindR (flag_or False (tb_use_ssl t) SocketUseSsl) (\<lambda>enabled.
        let ssl_line = (case tb_use_ssl t of Some (line, _) \<Rightarrow> line | None \<Rightarrow> anchor_line) in
        if \<not> enabled then
          (case tls_dependent t of
             Some (line, key) \<Rightarrow> Inl (se_at line MissingKey (key_name key @ b '' does nothing without SocketUseSSL=Y''))
           | None \<Rightarrow> Inr None)
        else
          bindR (flag_or False (tb_require_kernel t) TlsRequireKernel) (\<lambda>require_kernel.
          bindR (case role of Acceptor \<Rightarrow> settle_server t ssl_line require_kernel
                            | Initiator \<Rightarrow> settle_client t ssl_line require_kernel) (\<lambda>settled.
          if \<not> feature_tls
          then Inl (se_at ssl_line NeedsFeature (b ''SocketUseSSL=Y needs this engine built with the `tls` feature''))
          else Inr (Some (ssl_line, settled)))))))"

subsection \<open>Schedules\<close>

definition impossible :: "nat \<Rightarrow> bytes \<Rightarrow> settings_error" where
  "impossible line why = se_at line ImpossibleSchedule why"

definition schedule_times :: "settings_block \<Rightarrow> settings_error + (nat \<times> nat) option" where
  "schedule_times blk = (case (sb_start_time blk, sb_end_time blk) of
       (None, None) \<Rightarrow>
         (case first_present [(sb_start_day blk, StartDay), (sb_end_day blk, EndDay), (sb_weekdays blk, Weekdays)] of
            Some (line, key) \<Rightarrow> Inl (se_at line MissingKey (key_name key @ b '' needs StartTime and EndTime''))
          | None \<Rightarrow> Inr None)
     | (Some s, Some e) \<Rightarrow>
         bindR (time_of_day s StartTime) (\<lambda>start. bindR (time_of_day e EndTime) (\<lambda>end'. Inr (Some (start, end'))))
     | (Some _, None) \<Rightarrow> Inl (se_at (line_of blk) MissingKey (key_name EndTime))
     | (None, Some _) \<Rightarrow> Inl (se_at (line_of blk) MissingKey (key_name StartTime)))"

definition schedule_window :: "settings_block \<Rightarrow> nat \<Rightarrow> nat \<Rightarrow> settings_error + schedule" where
  "schedule_window blk start end' = (case (sb_start_day blk, sb_end_day blk) of
       (None, None) \<Rightarrow> ok_or (Schedule_daily start end')
         (impossible (line_of blk) (b ''StartTime and EndTime are the same instant''))
     | (Some sd, Some ed) \<Rightarrow>
         (case sb_weekdays blk of
            Some (line, _) \<Rightarrow> Inl (impossible line (b ''Weekdays cannot narrow a weekly window '' @ EM_DASH
              @ b '' StartDay and EndDay already choose the days''))
          | None \<Rightarrow>
            bindR (one_day sd StartDay) (\<lambda>open_day. bindR (one_day ed EndDay) (\<lambda>close_day.
            ok_or (Schedule_weekly open_day start close_day end')
              (impossible (line_of blk) (b ''StartDay/StartTime and EndDay/EndTime are the same instant'')))))
     | (Some _, None) \<Rightarrow> Inl (se_at (line_of blk) MissingKey (key_name EndDay))
     | (None, Some _) \<Rightarrow> Inl (se_at (line_of blk) MissingKey (key_name StartDay)))"

definition add_day :: "nat \<Rightarrow> bytes \<Rightarrow> weekdays \<Rightarrow> settings_error + weekdays" where
  "add_day line name days = bindR (one_day (line, trim name) Weekdays) (\<lambda>d. Inr (wd_and days d))"

definition schedule_of :: "settings_block \<Rightarrow> settings_error + schedule option" where
  "schedule_of blk =
     bindR (schedule_times blk) (\<lambda>times. case times of None \<Rightarrow> Inr None | Some (start, end') \<Rightarrow>
     bindR (schedule_window blk start end') (\<lambda>built.
     case sb_weekdays blk of None \<Rightarrow> Inr (Some built) | Some (line, lst) \<Rightarrow>
       bindR (foldR (add_day line) (split_on 44 lst) Weekdays_NONE) (\<lambda>days.
       bindR (ok_or (with_weekdays days built) (impossible line (b ''Weekdays is empty''))) (\<lambda>s. Inr (Some s)))))"

subsection \<open>One session\<close>

definition FIXT_1_1 :: bytes where
  "FIXT_1_1 = b ''FIXT.1.1''"

definition named_config :: "settings_block \<Rightarrow> settings_error + config" where
  "named_config blk =
     (let at = line_of blk in
      bindR (required_setting (sb_begin_string blk) BeginString at) (\<lambda>begin_string.
      bindR (required_setting (sb_sender blk) SenderCompId at) (\<lambda>sender.
      bindR (required_setting (sb_target blk) TargetCompId at) (\<lambda>target.
      if snd begin_string = FIXT_1_1 then
        bindR (ok_or (sb_default_appl_ver_id blk) (se_at at DefaultApplVerIdRequired
          (key_name DefaultApplVerId @ b '' '' @ EM_DASH @ b '' BeginString=FIXT.1.1 requires it''))) (\<lambda>appl_ver_id.
        bindR (fitting begin_string MAX_BEGIN_STRING_LEN BeginString) (\<lambda>bs.
        bindR (fitting sender MAX_COMP_ID_LEN SenderCompId) (\<lambda>se.
        bindR (fitting target MAX_COMP_ID_LEN TargetCompId) (\<lambda>ta.
        bindR (fitting appl_ver_id MAX_APPL_VER_ID_LEN DefaultApplVerId) (\<lambda>av.
        Inr (Config_acceptor_fixt bs se ta av))))))
      else
        (case sb_default_appl_ver_id blk of
           Some (line, _) \<Rightarrow> Inl (se_at line DefaultApplVerIdWithoutFixt
             (key_name DefaultApplVerId @ b '' needs BeginString=FIXT.1.1''))
         | None \<Rightarrow>
           bindR (fitting begin_string MAX_BEGIN_STRING_LEN BeginString) (\<lambda>bs.
           bindR (fitting sender MAX_COMP_ID_LEN SenderCompId) (\<lambda>se.
           bindR (fitting target MAX_COMP_ID_LEN TargetCompId) (\<lambda>ta.
           Inr (Config_acceptor bs se ta)))))))))"

definition on_some :: "slot_value \<Rightarrow> (nat \<times> bytes \<Rightarrow> 'c \<Rightarrow> settings_error + 'c) \<Rightarrow> 'c \<Rightarrow> settings_error + 'c" where
  "on_some slot f c = (case slot of None \<Rightarrow> Inr c | Some v \<Rightarrow> f v c)"

definition set_timing :: "settings_block \<Rightarrow> config \<Rightarrow> settings_error + config" where
  "set_timing blk cfg =
     bindR (on_some (sb_heart_bt_int blk) (\<lambda>v c. bindR (number_setting U32_MAX v HeartBtInt) (\<lambda>n. Inr (with_heart_bt_int n c))) cfg) (\<lambda>cfg.
     bindR (on_some (sb_max_skew blk) (\<lambda>v c. bindR (number_setting U64_MAX v MaxSkewMillis) (\<lambda>n. Inr (with_max_skew_ms n c))) cfg) (\<lambda>cfg.
     bindR (schedule_of blk) (\<lambda>s. Inr (case s of Some schedule \<Rightarrow> with_schedule schedule cfg | None \<Rightarrow> cfg))))"

definition set_reset :: "settings_block \<Rightarrow> config \<Rightarrow> settings_error + config" where
  "set_reset blk cfg =
     (let reset = ResetPolicy_new in
      bindR (flag_or False (sb_reset_on_logon blk) ResetOnLogon) (\<lambda>on.
      let reset = (if on then on_logon reset else reset) in
      bindR (flag_or False (sb_reset_on_logout blk) ResetOnLogout) (\<lambda>on.
      let reset = (if on then on_logout reset else reset) in
      bindR (flag_or False (sb_reset_on_disconnect blk) ResetOnDisconnect) (\<lambda>on.
      let reset = (if on then on_disconnect reset else reset) in
      Inr (with_reset reset cfg)))))"

definition set_timeouts :: "settings_block \<Rightarrow> config \<Rightarrow> settings_error + config" where
  "set_timeouts blk cfg =
     bindR (on_some (sb_logon_timeout blk) (\<lambda>v c. bindR (number_setting U64_MAX v LogonTimeout)
       (\<lambda>secs. Inr (with_logon_timeout_ms (saturating_mul64 secs 1000) c))) cfg) (\<lambda>cfg.
     on_some (sb_logout_timeout blk) (\<lambda>v c. bindR (number_setting U64_MAX v LogoutTimeout)
       (\<lambda>secs. Inr (with_logout_timeout_ms (saturating_mul64 secs 1000) c))) cfg)"

definition set_checks :: "settings_block \<Rightarrow> config \<Rightarrow> settings_error + config" where
  "set_checks blk cfg =
     (let checks = DictionaryChecks_new in
      bindR (flag_or False (sb_allow_unknown_msg_fields blk) AllowUnknownMsgFields) (\<lambda>allow.
      let checks = (if allow then allowing_unknown_msg_fields checks else checks) in
      bindR (flag_or True (sb_validate_user_defined_fields blk) ValidateUserDefinedFields) (\<lambda>validate.
      let checks = (if \<not> validate then skipping_user_defined_fields checks else checks) in
      Inr (with_validation checks cfg))))"

definition set_resync :: "settings_block \<Rightarrow> config \<Rightarrow> settings_error + config" where
  "set_resync blk cfg =
     bindR (on_some (sb_send_next_expected blk) (\<lambda>v c. bindR (flag v SendNextExpectedMsgSeqNum) (\<lambda>on. Inr (with_next_expected on c))) cfg) (\<lambda>cfg.
     on_some (sb_enable_last_processed blk) (\<lambda>v c. bindR (flag v EnableLastMsgSeqNumProcessed) (\<lambda>on. Inr (with_last_processed on c))) cfg)"

definition set_precision :: "settings_block \<Rightarrow> config \<Rightarrow> settings_error + config" where
  "set_precision blk cfg =
     on_some (sb_timestamp_precision blk) (\<lambda>v c.
       bindR (integer_as_written U32_MAX v TimestampPrecision UnsupportedPrecision) (\<lambda>digits.
       bindR (ok_or (from_fractional_digits digits) (se_at (fst v) UnsupportedPrecision (as_written TimestampPrecision (snd v)))) (\<lambda>p.
       Inr (with_timestamp_precision p c)))) cfg"

definition build_config :: "settings_block \<Rightarrow> settings_error + config" where
  "build_config blk =
     bindR (named_config blk) (\<lambda>cfg. bindR (set_timing blk cfg) (\<lambda>cfg. bindR (set_reset blk cfg) (\<lambda>cfg.
     bindR (set_timeouts blk cfg) (\<lambda>cfg. bindR (set_checks blk cfg) (\<lambda>cfg. bindR (set_resync blk cfg) (\<lambda>cfg.
     set_precision blk cfg))))))"

definition DEFAULT_RECONNECT_INTERVAL_SECS :: nat where "DEFAULT_RECONNECT_INTERVAL_SECS = 30"
definition DEFAULT_CEILING_MULTIPLE :: nat where "DEFAULT_CEILING_MULTIPLE = 16"

definition policy_error_name :: "policy_error \<Rightarrow> bytes" where
  "policy_error_name e = (case e of FirstIsZero \<Rightarrow> b ''FirstIsZero'' | CeilingBelowFirst \<Rightarrow> b ''CeilingBelowFirst'')"

definition number_or :: "nat \<Rightarrow> slot_value \<Rightarrow> key \<Rightarrow> settings_error + nat" where
  "number_or d slot key = (case slot of Some v \<Rightarrow> number_setting U64_MAX v key | None \<Rightarrow> Inr d)"

definition dialling :: "settings_block \<Rightarrow> settings_error + (bytes \<times> policy)" where
  "dialling blk =
     (let at = line_of blk in
      bindR (required_setting (sb_host blk) SocketConnectHost at) (\<lambda>host.
      bindR (required_setting (sb_port blk) SocketConnectPort at) (\<lambda>port.
      bindR (number_setting U16_MAX port SocketConnectPort) (\<lambda>port.
      let addr = snd host @ b '':'' @ dec_digits port in
      bindR (number_or DEFAULT_RECONNECT_INTERVAL_SECS (sb_reconnect_interval blk) ReconnectInterval) (\<lambda>first_s.
      bindR (number_or (saturating_mul64 first_s DEFAULT_CEILING_MULTIPLE) (sb_reconnect_ceiling blk) ReconnectCeiling) (\<lambda>ceiling_s.
      let blame = (case opt_or (sb_reconnect_ceiling blk) (sb_reconnect_interval blk) of Some (line, _) \<Rightarrow> line | None \<Rightarrow> at) in
      case Policy_new (saturating_mul64 first_s 1000) (saturating_mul64 ceiling_s 1000) of
        Inl e \<Rightarrow> Inl (se_at blame ImpossiblePolicy (b ''ReconnectInterval='' @ dec_digits first_s
          @ b '', ReconnectCeiling='' @ dec_digits ceiling_s @ b '': '' @ policy_error_name e))
      | Inr policy \<Rightarrow> Inr (addr, policy)))))))"

subsection \<open>The file\<close>

text \<open>What the loop over the lines has gathered so far.\<close>

record reading =
  rg_default :: settings_block
  rg_sessions :: "settings_block list"
  rg_log :: slot_value
  rg_role :: "(nat \<times> connection_type) option"
  rg_listener_every :: slot_value
  rg_tls :: tls_block
  rg_current :: "nat option"
  rg_in_default :: bool

definition Reading_new :: reading where
  "Reading_new = \<lparr>rg_default = Block_default, rg_sessions = [], rg_log = None, rg_role = None, rg_listener_every = None,
     rg_tls = TlsBlock_default, rg_current = None, rg_in_default = False\<rparr>"

definition section_name :: "bytes \<Rightarrow> bytes option" where
  "section_name t = (case t of
       c # s \<Rightarrow> if c = 91 \<and> s \<noteq> [] \<and> last s = 93 then Some (butlast s) else None
     | [] \<Rightarrow> None)"

definition open_section :: "nat \<Rightarrow> bytes \<Rightarrow> reading \<Rightarrow> settings_error + reading" where
  "open_section line name r =
     (if name = b ''DEFAULT'' then Inr (r\<lparr>rg_in_default := True, rg_current := None\<rparr>)
      else if name = b ''SESSION''
      then Inr (r\<lparr>rg_sessions := rg_sessions r @ [Block_default], rg_in_default := False, rg_current := Some (length (rg_sessions r))\<rparr>)
      else Inl (se_at line UnknownSection name))"

definition role_named :: "nat \<Rightarrow> bytes \<Rightarrow> settings_error + connection_type" where
  "role_named line value =
     (if value = b ''acceptor'' then Inr Acceptor
      else if value = b ''initiator'' then Inr Initiator
      else Inl (se_at line BadConnectionType (b ''ConnectionType='' @ value)))"

text \<open>The two refusals that every key of \<open>[DEFAULT]\<close> alone begins with.\<close>

definition default_only :: "nat \<Rightarrow> bytes \<Rightarrow> bool \<Rightarrow> reading \<Rightarrow> settings_error + reading \<Rightarrow> settings_error + reading" where
  "default_only line name taken r rest =
     (if \<not> rg_in_default r then Inl (se_at line DefaultOnly name)
      else if taken then Inl (se_at line RepeatedKey name)
      else rest)"

definition put_setting :: "nat \<Rightarrow> bytes \<Rightarrow> key \<Rightarrow> bytes \<Rightarrow> reading \<Rightarrow> settings_error + reading" where
  "put_setting line name key value r =
     (if key = FileLogPath then default_only line name (rg_log r \<noteq> None) r (Inr (r\<lparr>rg_log := Some (line, value)\<rparr>))
      else if key = ConnectionType then
        default_only line name (rg_role r \<noteq> None) r (bindR (role_named line value) (\<lambda>what. Inr (r\<lparr>rg_role := Some (line, what)\<rparr>)))
      else if key = ListenerEveryTurns then
        default_only line name (rg_listener_every r \<noteq> None) r (Inr (r\<lparr>rg_listener_every := Some (line, value)\<rparr>))
      else case tls_slot key of
        Some (get, upd) \<Rightarrow> default_only line name (get (rg_tls r) \<noteq> None) r (Inr (r\<lparr>rg_tls := upd (\<lambda>_. Some (line, value)) (rg_tls r)\<rparr>))
      | None \<Rightarrow>
        (case rg_current r of
           Some i \<Rightarrow>
             (case nth_opt (rg_sessions r) i of
                Some blk \<Rightarrow> bindR (sb_set key line value blk) (\<lambda>blk. Inr (r\<lparr>rg_sessions := (rg_sessions r)[i := blk]\<rparr>))
              | None \<Rightarrow> Inl (se_at line KeyOutsideSection name))
         | None \<Rightarrow>
             if rg_in_default r then bindR (sb_set key line value (rg_default r)) (\<lambda>blk. Inr (r\<lparr>rg_default := blk\<rparr>))
             else Inl (se_at line KeyOutsideSection name)))"

definition read_line :: "nat \<times> bytes \<Rightarrow> reading \<Rightarrow> settings_error + reading" where
  "read_line ln r =
     (let line = fst ln + 1; trimmed = trim (snd ln) in
      if trimmed = [] \<or> hd trimmed = 35 \<or> hd trimmed = 59 then Inr r
      else case section_name trimmed of
        Some name \<Rightarrow> open_section line (trim name) r
      | None \<Rightarrow>
        (case split_once EQ_SIGN trimmed of
           None \<Rightarrow> Inl (se_at line NotAKeyValue trimmed)
         | Some (name, value) \<Rightarrow>
           let name = trim name; value = trim value in
           if name \<in> set QUICKFIX_DICTIONARY_KEYS then Inl (se_at line DictionaryIsBuildTime name)
           else case Key_parse name of
             None \<Rightarrow> Inl (se_at line UnknownKey name)
           | Some key \<Rightarrow> put_setting line name key value r))"

definition read_lines :: "bytes \<Rightarrow> settings_error + reading" where
  "read_lines text = foldR read_line (List.enumerate 0 (str_lines text)) Reading_new"

record settings =
  st_configs :: "config list"
  st_log :: "bytes option"
  st_role :: connection_type
  st_role_line :: nat
  st_dial :: "(bytes \<times> policy) option"
  st_tls :: "tls_settings option"
  st_client_tls :: "client_tls_settings option"
  st_tls_line :: nat
  st_listener_every :: nat

definition DEFAULT_LISTENER_EVERY_TURNS :: nat where "DEFAULT_LISTENER_EVERY_TURNS = 16"

definition Settings_default :: settings where
  "Settings_default = \<lparr>st_configs = [], st_log = None, st_role = Acceptor, st_role_line = 0, st_dial = None, st_tls = None,
     st_client_tls = None, st_tls_line = 0, st_listener_every = DEFAULT_LISTENER_EVERY_TURNS\<rparr>"

definition add_session :: "connection_type \<Rightarrow> settings_block \<Rightarrow> settings_block \<Rightarrow> (bytes \<times> policy) option \<times> config list
    \<Rightarrow> settings_error + (bytes \<times> policy) option \<times> config list" where
  "add_session role base blk acc =
     (let (dial, configs) = acc; merged = sb_over blk base in
      bindR (case role of
           Acceptor \<Rightarrow> (case dialling_key merged of
               Some (line, key) \<Rightarrow> Inl (se_at line WrongRole (key_name key @ b '' needs ConnectionType=initiator''))
             | None \<Rightarrow> Inr dial)
         | Initiator \<Rightarrow> bindR (dialling merged) (\<lambda>d. Inr (Some d))) (\<lambda>dial.
      bindR (build_config merged) (\<lambda>cfg.
      if \<exists>c \<in> set configs. same_identity_as c cfg
      then Inl (se_at (line_of blk) DuplicateSession (b ''an identity is served by one [SESSION] or by none''))
      else Inr (dial, configs @ [cfg]))))"

definition listener_cadence :: "slot_value \<Rightarrow> settings_error + nat" where
  "listener_cadence slot = (case slot of
       None \<Rightarrow> Inr DEFAULT_LISTENER_EVERY_TURNS
     | Some v \<Rightarrow> bindR (number_setting U32_MAX v ListenerEveryTurns) (\<lambda>n.
         if n = 0 then Inl (se_at (fst v) NoListenerCadence (as_written ListenerEveryTurns (dec_digits n))) else Inr n))"

definition finish_reading :: "bool \<Rightarrow> reading \<Rightarrow> settings_error + settings" where
  "finish_reading feature_tls r =
     (if rg_sessions r = [] then Inl (se_at 0 NoSessions (b ''add a [SESSION] block naming a counterparty''))
      else let (role_line, role) = (case rg_role r of Some lr \<Rightarrow> lr | None \<Rightarrow> (0, Acceptor)) in
      bindR (tls_settle feature_tls role (rg_tls r)) (\<lambda>tls.
      case (if role = Initiator then nth_opt (rg_sessions r) 1 else None) of
        Some extra \<Rightarrow> Inl (se_at (line_of (sb_over extra (rg_default r))) OneSessionPerInitiator
          (b ''delete the extra [SESSION], or run one engine per venue''))
      | None \<Rightarrow>
        let tls_line = (case tls of Some (line, _) \<Rightarrow> line | None \<Rightarrow> 0);
            (server, client) = (case map_option snd tls of None \<Rightarrow> (None, None) | Some (Server s) \<Rightarrow> (Some s, None)
                                | Some (Client c) \<Rightarrow> (None, Some c)) in
        bindR (foldR (add_session role (rg_default r)) (rg_sessions r) (None, [])) (\<lambda>(dial, configs).
        bindR (listener_cadence (rg_listener_every r)) (\<lambda>listener_every.
        Inr \<lparr>st_configs = configs, st_log = map_option snd (rg_log r), st_role = role, st_role_line = role_line, st_dial = dial,
             st_tls = server, st_client_tls = client, st_tls_line = tls_line, st_listener_every = listener_every\<rparr>))))"

definition Settings_parse :: "bool \<Rightarrow> bytes \<Rightarrow> settings_error + settings" where
  "Settings_parse feature_tls text = bindR (read_lines text) (finish_reading feature_tls)"

definition Settings_load :: "bool \<Rightarrow> (bytes \<Rightarrow> bytes + bytes) \<Rightarrow> bytes \<Rightarrow> settings_error + settings" where
  "Settings_load feature_tls read_to_string path = (case read_to_string path of
       Inl e \<Rightarrow> Inl (se_at 0 Unreadable (path @ b '': '' @ e))
     | Inr text \<Rightarrow> Settings_parse feature_tls text)"

subsection \<open>The four doors\<close>

definition initiator_door :: "bool \<Rightarrow> bytes" where
  "initiator_door tls =
     (if tls then b ''this file configures an initiator and asks for TLS: call into_tls_initiator()''
      else b ''this file configures an initiator: call into_initiator()'')"

definition acceptor_door :: "bool \<Rightarrow> bytes" where
  "acceptor_door tls =
     (if tls then b ''this file configures an acceptor and asks for TLS: call into_tls_table()''
      else b ''this file configures an acceptor: call into_table()'')"

definition table_of :: "config list \<Rightarrow> config list" where
  "table_of configs = foldl (\<lambda>table cfg. Table_serving cfg table) [] configs"

definition into_table :: "settings \<Rightarrow> settings_error + config list" where
  "into_table s =
     (if st_role s = Initiator then Inl (se_at (st_role_line s) WrongRole (initiator_door (st_client_tls s \<noteq> None)))
      else if st_tls s \<noteq> None
      then Inl (se_at (st_tls_line s) NeedsTlsDoor (b ''this file asks for TLS: call into_tls_table()''))
      else Inr (table_of (st_configs s)))"

definition into_tls_table :: "settings \<Rightarrow> settings_error + config list \<times> tls_settings" where
  "into_tls_table s =
     (if st_role s = Initiator then Inl (se_at (st_role_line s) WrongRole (initiator_door (st_client_tls s \<noteq> None)))
      else case st_tls s of
        None \<Rightarrow> Inl (se_at 0 MissingKey (b ''this file asks for no TLS: add SocketUseSSL=Y, or call into_table()''))
      | Some tls \<Rightarrow> Inr (table_of (st_configs s), tls))"

definition dialled :: "settings \<Rightarrow> settings_error + config \<times> bytes \<times> policy" where
  "dialled s = (case st_dial s of
       None \<Rightarrow> Inl (se_at (st_role_line s) WrongRole (acceptor_door (st_tls s \<noteq> None)))
     | Some (addr, policy) \<Rightarrow>
         (case st_configs s of
            [] \<Rightarrow> Inl (se_at 0 NoSessions (b ''add a [SESSION] naming the venue''))
          | cfg # _ \<Rightarrow> Inr (cfg, addr, policy)))"

definition into_initiator :: "settings \<Rightarrow> settings_error + config \<times> bytes \<times> policy" where
  "into_initiator s =
     (if st_client_tls s \<noteq> None
      then Inl (se_at (st_tls_line s) NeedsTlsDoor (b ''this file asks for TLS: call into_tls_initiator()''))
      else dialled s)"

definition into_tls_initiator :: "settings \<Rightarrow> settings_error + config \<times> bytes \<times> policy \<times> client_tls_settings" where
  "into_tls_initiator s =
     (if st_role s = Acceptor then Inl (se_at (st_role_line s) WrongRole (acceptor_door (st_tls s \<noteq> None)))
      else case st_client_tls s of
        None \<Rightarrow> Inl (se_at 0 MissingKey (b ''this file asks for no TLS: add SocketUseSSL=Y, or call into_initiator()''))
      | Some tls \<Rightarrow> bindR (dialled (s\<lparr>st_client_tls := None\<rparr>)) (\<lambda>(cfg, addr, policy). Inr (cfg, addr, policy, tls)))"

end
