(* ===== verification/Settings_Correct.thy ===== *)
theory Settings_Correct
  imports Settings
begin

text \<open>
  What the reader of the configuration file promises. A value is accepted in one spelling only, a block keeps
  what was written to it, and what the operator writes is what is read. A file that is accepted names sessions
  that can be served: the settings it gives satisfy \<open>settings_ok\<close>, and exactly one of the four doors takes them.
\<close>

subsection \<open>Keys\<close>

lemma Key_parse_name: "Key_parse (key_name k) = Some k"
  by (cases k) (simp_all add: Key_parse_def key_name_def bytes_eval)

lemma if_SomeE: "(if c then Some x else r) = Some k \<Longrightarrow> (c \<Longrightarrow> x = k \<Longrightarrow> P) \<Longrightarrow> (r = Some k \<Longrightarrow> P) \<Longrightarrow> P"
  by (auto split: if_splits)

lemma Key_parse_SomeD: "Key_parse name = Some k \<Longrightarrow> name = key_name k"
  unfolding Key_parse_def by (elim if_SomeE) (simp_all only: key_name_def key.case option.distinct(1))

lemma Key_parse_iff: "Key_parse name = Some k \<longleftrightarrow> name = key_name k"
  using Key_parse_name Key_parse_SomeD by blast

subsection \<open>Numbers\<close>

lemma uint_digits_eq:
  "n \<le> m \<Longrightarrow> uint_digits m ds n =
     (if all_digits ds \<and> n * 10 ^ length ds + dec_value ds \<le> m then Some (n * 10 ^ length ds + dec_value ds) else None)"
proof (induction ds arbitrary: n)
  case (Cons c cs)
  have e: "n * 10 ^ length (c # cs) + dec_value (c # cs) = (n * 10 + digit_of c) * 10 ^ length cs + dec_value cs"
    by (simp add: dec_value_Cons algebra_simps)
  have "n * 10 + digit_of c \<le> (n * 10 + digit_of c) * 10 ^ length cs + dec_value cs"
    by (rule order_trans [OF _ le_add1]) simp
  then show ?case unfolding e using Cons.IH [of "n * 10 + digit_of c"] by (auto simp: push_digit_eq)
qed simp

lemma parse_uint_digits: "all_digits v \<Longrightarrow> v \<noteq> [] \<Longrightarrow> parse_uint m v = (if dec_value v \<le> m then Some (dec_value v) else None)"
  by (cases v) (auto simp: parse_uint_def uint_digits_eq b_def is_ascii_digit_def)

lemma dec_value_pos: "all_digits (c # ds) \<Longrightarrow> c \<noteq> 48 \<Longrightarrow> 0 < dec_value (c # ds)"
  using digit_byte_of [of c] by (auto simp: dec_value_Cons digit_byte_def neq0_conv [symmetric] simp del: neq0_conv)

lemma dec_digits_dec_value: "spelled_exactly_as_digits v \<Longrightarrow> dec_digits (dec_value v) = v"
proof (induction v rule: rev_induct)
  case (snoc c ds)
  then have c: "is_ascii_digit c" "all_digits ds"
    by (auto simp: spelled_exactly_as_digits_def all_digits_def list_all_iff)
  show ?case
  proof (cases ds)
    case Nil
    with c show ?thesis using digit_of_less_10 by (simp add: dec_digits_small digit_byte_of dec_value_def)
  next
    case (Cons d ds')
    with snoc.prems have "spelled_exactly_as_digits ds" "d \<noteq> 48"
      by (auto simp: spelled_exactly_as_digits_def)
    moreover from this c Cons have "0 < dec_value ds" using dec_value_pos by simp
    ultimately show ?thesis using snoc.IH c digit_of_less_10 [of c]
      by (simp add: dec_digits_snoc digit_byte_of)
  qed
qed (simp add: spelled_exactly_as_digits_def)

lemma hd_dec_digits: "hd (dec_digits n) = 48 \<Longrightarrow> n = 0"
proof (induction n rule: dec_digits.induct)
  case (1 n)
  show ?case
  proof (cases "n < 10")
    case True
    then have "unat (digit_byte n) = 48" using 1(2) by (simp add: dec_digits_small)
    with True show ?thesis by (simp add: unat_digit_byte)
  next
    case False
    with 1(2) have "hd (dec_digits (n div 10)) = 48" by (simp add: dec_digits_snoc)
    with 1(1) False show ?thesis by simp
  qed
qed

lemma spelled_dec_digits: "spelled_exactly_as_digits (dec_digits n)"
  using hd_dec_digits [of n] all_digits_dec_digits [of n]
  by (auto simp: spelled_exactly_as_digits_def all_digits_def list_all_iff dec_digits_small)

lemma spelled_iff: "spelled_exactly_as_digits v \<longleftrightarrow> v = dec_digits (dec_value v)"
  using dec_digits_dec_value spelled_dec_digits by metis

lemma integer_as_written_iff: "integer_as_written m v key p = Inr n \<longleftrightarrow> snd v = dec_digits n \<and> n \<le> m"
proof
  assume a: "integer_as_written m v key p = Inr n"
  then have s: "spelled_exactly_as_digits (snd v)" "parse_uint m (snd v) = Some n"
    by (auto simp: integer_as_written_def bindR_Inr_iff ok_or_Inr_iff split: if_splits)
  then have "all_digits (snd v)" "snd v \<noteq> []" by (auto simp: spelled_exactly_as_digits_def all_digits_def list_all_iff)
  with s show "snd v = dec_digits n \<and> n \<le> m" by (auto simp: parse_uint_digits dec_digits_dec_value split: if_splits)
qed (simp add: integer_as_written_def parse_uint_digits spelled_dec_digits)

lemma number_setting_iff: "number_setting m v key = Inr n \<longleftrightarrow> snd v = dec_digits n \<and> n \<le> m"
  by (simp add: number_setting_def integer_as_written_iff)

subsection \<open>Times\<close>

definition two_digits :: "nat \<Rightarrow> bytes" where
  "two_digits n = [digit_byte (n div 10), digit_byte (n mod 10)]"

definition clock_text :: "nat \<Rightarrow> bytes" where
  "clock_text t = two_digits (t div 3600) @ 58 # two_digits (t div 60 mod 60) @ 58 # two_digits (t mod 60)"

lemma split_on_nonempty [simp]: "split_on c v \<noteq> []"
  by (induction v) (auto split: list.splits)

lemma split_on_Cons_iff:
  "split_on c v = h # t \<longleftrightarrow> c \<notin> set h \<and> (if t = [] then v = h else \<exists>r. v = h @ c # r \<and> split_on c r = t)"
proof (induction v arbitrary: h t)
  case (Cons x xs)
  obtain h' t' where s: "split_on c xs = h' # t'" by (cases "split_on c xs") auto
  show ?case
  proof (cases "x = c")
    case True
    with s show ?thesis by (cases h) (auto simp: Cons_eq_append_conv)
  next
    case False
    have e: "split_on c (x # xs) = h # t \<longleftrightarrow> h = x # h' \<and> t = t'" using s False by auto
    have "h = x # h' \<and> t = t' \<longleftrightarrow> (\<exists>k. h = x # k \<and> split_on c xs = k # t)" using s by auto
    then have "split_on c (x # xs) = h # t \<longleftrightarrow>
        (\<exists>k. h = x # k \<and> c \<notin> set k \<and> (if t = [] then xs = k else \<exists>r. xs = k @ c # r \<and> split_on c r = t))"
      using e Cons.IH [of _ t] by simp
    then show ?thesis using False by (cases h) (simp, simp, blast)
  qed
qed auto

lemma split_on_three:
  "split_on c v = [h, m, s] \<longleftrightarrow> v = h @ c # m @ c # s \<and> c \<notin> set h \<and> c \<notin> set m \<and> c \<notin> set s"
  by (auto simp: split_on_Cons_iff)

lemma two_digits_dec_value: "length h = 2 \<Longrightarrow> all_digits h \<Longrightarrow> h = two_digits (dec_value h) \<and> dec_value h < 100"
proof -
  assume a: "length h = 2" "all_digits h"
  then obtain x y where h: "h = [x, y]" by (auto simp: length_Suc_conv numeral_2_eq_2)
  with a show ?thesis
    using digit_of_less_10 [of x] digit_of_less_10 [of y] by (simp add: two_digits_def dec_value_def digit_byte_of)
qed

lemma dec_value_two_digits: "n < 100 \<Longrightarrow> dec_value (two_digits n) = n"
  by (simp add: two_digits_def dec_value_def)

lemma two_digits_props: "n < 100 \<Longrightarrow> length (two_digits n) = 2 \<and> all_digits (two_digits n)"
  by (simp add: two_digits_def)

lemma colon_notin_digits: "all_digits h \<Longrightarrow> 58 \<notin> set h"
  by (auto simp: all_digits_def is_ascii_digit_def)

lemma list_all_digits: "list_all is_ascii_digit h = all_digits h"
  by (simp add: all_digits_def list_all_iff)

lemma parse_two_digits: "length h = 2 \<Longrightarrow> all_digits h \<Longrightarrow> parse_uint U32_MAX h = Some (dec_value h)"
  using two_digits_dec_value [of h] parse_uint_digits [of h U32_MAX] by (cases h) auto

lemma clock_parts:
  assumes "m < 60" "s < 60" "t = h * 3600 + m * 60 + s"
  shows "t div 3600 = h" "t div 60 mod 60 = m" "t mod 60 = (s :: nat)"
proof -
  have t: "t = (h * 60 + m) * 60 + s" using assms(3) by simp
  have q: "t div 60 = h * 60 + m" unfolding t using assms(2) by simp
  show "t mod 60 = s" using q t div_mult_mod_eq [of t 60] by simp
  show "t div 60 mod 60 = m" unfolding q using assms(1) by simp
  have "t div 3600 = t div 60 div 60" by (simp add: div_mult2_eq [symmetric])
  then show "t div 3600 = h" unfolding q using assms(1) by simp
qed

lemma clock_whole: "t div 3600 * 3600 + t div 60 mod 60 * 60 + t mod 60 = (t :: nat)"
proof -
  have "t div 3600 = t div 60 div 60" by (simp add: div_mult2_eq [symmetric])
  then show ?thesis using div_mult_mod_eq [of t 60] div_mult_mod_eq [of "t div 60" 60] by linarith
qed

lemma time_of_day_iff: "time_of_day v key = Inr t \<longleftrightarrow> t < 86400 \<and> snd v = clock_text t"
proof
  assume "time_of_day v key = Inr t"
  then obtain h m s where p: "split_on 58 (snd v) = [h, m, s]" "length h = 2" "length m = 2" "length s = 2"
      "all_digits h" "all_digits m" "all_digits s" "dec_value h \<le> 23" "dec_value m \<le> 59" "dec_value s \<le> 59"
      "t = dec_value h * 3600 + dec_value m * 60 + dec_value s"
    by (auto simp: time_of_day_def Let_def list_all_digits parse_two_digits split: list.splits if_splits option.splits)
  from p(2-7) have "h = two_digits (dec_value h)" "m = two_digits (dec_value m)" "s = two_digits (dec_value s)"
    using two_digits_dec_value by blast+
  moreover have "t div 3600 = dec_value h" "t div 60 mod 60 = dec_value m" "t mod 60 = dec_value s"
    using clock_parts [OF _ _ p(11)] p(9,10) by simp_all
  ultimately have "snd v = clock_text t" using p(1) by (simp add: split_on_three clock_text_def)
  then show "t < 86400 \<and> snd v = clock_text t" using p(8-11) by simp
next
  assume a: "t < 86400 \<and> snd v = clock_text t"
  let ?h = "t div 3600" and ?m = "t div 60 mod 60" and ?s = "t mod 60"
  have b: "?h \<le> 23" "?m \<le> 59" "?s \<le> 59"
    using a less_mult_imp_div_less [of t 24 3600] mod_less_divisor [of 60 t] mod_less_divisor [of 60 "t div 60"] by simp_all
  then have l: "?h < 100" "?m < 100" "?s < 100" by linarith+
  note d = two_digits_props [OF l(1)] two_digits_props [OF l(2)] two_digits_props [OF l(3)]
  then have "split_on 58 (snd v) = [two_digits ?h, two_digits ?m, two_digits ?s]"
    using a by (simp add: split_on_three clock_text_def colon_notin_digits)
  moreover have "two_digits n \<noteq> []" for n by (simp add: two_digits_def)
  ultimately show "time_of_day v key = Inr t"
    using d l b clock_whole [of t] by (simp add: time_of_day_def Let_def list_all_digits parse_two_digits dec_value_two_digits not_less)
qed

subsection \<open>A session configuration the reader can give\<close>

definition session_config_ok :: "config \<Rightarrow> bool" where
  "session_config_ok c \<longleftrightarrow>
     nm_fits (cf_begin_string c) \<and> nm_fits (cf_sender_comp_id c) \<and> nm_fits (cf_target_comp_id c) \<and>
     (is_fixt c \<longleftrightarrow> cf_default_appl_ver_id c \<noteq> None) \<and> (\<forall>n. cf_default_appl_ver_id c = Some n \<longrightarrow> nm_fits n) \<and>
     schedule_ok (cf_schedule c) \<and> cf_heart_bt_int c \<le> U32_MAX \<and> cf_max_skew_ms c \<le> U64_MAX \<and>
     cf_logon_timeout_ms c \<le> U64_MAX \<and> cf_logout_timeout_ms c \<le> U64_MAX"

lemmas R_iffs = bindR_Inr_iff ok_or_Inr_iff

lemma fitting_iff: "fitting v limit key = Inr s \<longleftrightarrow> s = snd v \<and> length (snd v) \<le> limit"
  by (auto simp: fitting_def)

lemma required_iff: "required_setting slot key at = Inr v \<longleftrightarrow> slot = Some v"
  by (simp add: required_setting_def ok_or_Inr_iff)

lemma named_config_ok: "named_config blk = Inr c \<Longrightarrow> session_config_ok c"
  by (auto simp: named_config_def Let_def R_iffs required_iff fitting_iff session_config_ok_def Config_acceptor_def
      Config_acceptor_fixt_def Name_new_def is_fixt_def nm_matches_def FIXT_1_1_def schedule_ok_constructors(1)
      split: if_splits option.splits)

lemma schedule_of_ok: "schedule_of blk = Inr (Some s) \<Longrightarrow> schedule_ok s"
proof -
  assume a: "schedule_of blk = Inr (Some s)"
  have w: "schedule_ok s" if "schedule_window blk start end' = Inr s" for start end' s
    using that by (auto simp: schedule_window_def R_iffs split: option.splits intro: schedule_ok_constructors(2,3))
  from a show ?thesis
    by (auto simp: schedule_of_def R_iffs split: option.splits intro: w schedule_ok_constructors(4) [OF w])
qed

lemma session_config_ok_with:
  assumes "session_config_ok c"
  shows "n \<le> U32_MAX \<Longrightarrow> session_config_ok (with_heart_bt_int n c)" "n \<le> U64_MAX \<Longrightarrow> session_config_ok (with_max_skew_ms n c)"
    "schedule_ok s \<Longrightarrow> session_config_ok (with_schedule s c)" "session_config_ok (with_reset r c)"
    "n \<le> U64_MAX \<Longrightarrow> session_config_ok (with_logon_timeout_ms n c)" "n \<le> U64_MAX \<Longrightarrow> session_config_ok (with_logout_timeout_ms n c)"
    "session_config_ok (with_validation d c)" "session_config_ok (with_next_expected f c)"
    "session_config_ok (with_last_processed f c)" "session_config_ok (with_timestamp_precision p c)"
  using assms unfolding session_config_ok_def is_fixt_def with_heart_bt_int_def with_max_skew_ms_def with_schedule_def with_reset_def
    with_logon_timeout_ms_def with_logout_timeout_ms_def with_validation_def with_next_expected_def with_last_processed_def
    with_timestamp_precision_def by simp_all

lemma saturating_mul64_le [simp]: "saturating_mul64 x y \<le> U64_MAX"
  by (simp add: saturating_mul64_def)

lemma set_timing_ok: "set_timing blk c = Inr c' \<Longrightarrow> session_config_ok c \<Longrightarrow> session_config_ok c'"
  by (auto simp: set_timing_def on_some_def R_iffs number_setting_iff split: option.splits
      intro!: session_config_ok_with intro: schedule_of_ok)

lemma set_reset_ok: "set_reset blk c = Inr c' \<Longrightarrow> session_config_ok c \<Longrightarrow> session_config_ok c'"
  by (auto simp: set_reset_def Let_def R_iffs intro!: session_config_ok_with)

lemma set_timeouts_ok: "set_timeouts blk c = Inr c' \<Longrightarrow> session_config_ok c \<Longrightarrow> session_config_ok c'"
  by (auto simp: set_timeouts_def on_some_def R_iffs split: option.splits intro!: session_config_ok_with)

lemma set_checks_ok: "set_checks blk c = Inr c' \<Longrightarrow> session_config_ok c \<Longrightarrow> session_config_ok c'"
  by (auto simp: set_checks_def Let_def R_iffs intro!: session_config_ok_with)

lemma set_resync_ok: "set_resync blk c = Inr c' \<Longrightarrow> session_config_ok c \<Longrightarrow> session_config_ok c'"
  by (auto simp: set_resync_def on_some_def R_iffs split: option.splits intro!: session_config_ok_with)

lemma set_precision_ok: "set_precision blk c = Inr c' \<Longrightarrow> session_config_ok c \<Longrightarrow> session_config_ok c'"
  by (auto simp: set_precision_def on_some_def R_iffs split: option.splits intro!: session_config_ok_with)

lemma build_config_ok: "build_config blk = Inr c \<Longrightarrow> session_config_ok c"
  unfolding build_config_def bindR_Inr_iff
  by (elim exE conjE) (drule named_config_ok, drule (1) set_timing_ok, drule (1) set_reset_ok, drule (1) set_timeouts_ok,
      drule (1) set_checks_ok, drule (1) set_resync_ok, drule (1) set_precision_ok)

subsection \<open>The settings of an accepted file\<close>

definition config_identity :: "config \<Rightarrow> name \<times> name \<times> name" where
  "config_identity c = (cf_begin_string c, cf_sender_comp_id c, cf_target_comp_id c)"

definition ladder_ok :: "policy \<Rightarrow> bool" where
  "ladder_ok p \<longleftrightarrow> 0 < po_first_ms p \<and> po_first_ms p \<le> po_ceiling_ms p \<and> po_ceiling_ms p \<le> U64_MAX"

definition settings_ok :: "settings \<Rightarrow> bool" where
  "settings_ok s \<longleftrightarrow>
     st_configs s \<noteq> [] \<and> list_all session_config_ok (st_configs s) \<and> distinct (map config_identity (st_configs s)) \<and>
     0 < st_listener_every s \<and> st_listener_every s \<le> U32_MAX \<and>
     (case st_role s of
        Acceptor \<Rightarrow> st_dial s = None \<and> st_client_tls s = None
      | Initiator \<Rightarrow> length (st_configs s) = 1 \<and> st_tls s = None \<and>
          (case st_dial s of Some (addr, p) \<Rightarrow> ladder_ok p | None \<Rightarrow> False))"

lemma duplicate_iff:
  "(\<exists>c \<in> set cs. same_identity_as c cfg) \<longleftrightarrow> config_identity cfg \<in> set (map config_identity cs)"
proof -
  have "same_identity_as c cfg \<longleftrightarrow> config_identity cfg = config_identity c" for c
    by (auto simp: same_identity_as_def config_identity_def)
  then show ?thesis by (simp add: image_iff)
qed

lemma dialling_ok: "dialling blk = Inr (addr, p) \<Longrightarrow> ladder_ok p"
  by (auto simp: dialling_def Let_def R_iffs Policy_new_def ladder_ok_def split: sum.splits if_splits)

definition sessions_ok :: "connection_type \<Rightarrow> (bytes \<times> policy) option \<times> config list \<Rightarrow> bool" where
  "sessions_ok role acc \<longleftrightarrow> list_all session_config_ok (snd acc) \<and> distinct (map config_identity (snd acc)) \<and>
     (case fst acc of None \<Rightarrow> role = Acceptor \<or> snd acc = [] | Some (addr, p) \<Rightarrow> role = Initiator \<and> ladder_ok p)"

lemma add_session_ok:
  assumes "add_session role base blk acc = Inr acc'" "sessions_ok role acc"
  shows "sessions_ok role acc'" "length (snd acc') = Suc (length (snd acc))"
proof -
  obtain dial configs where acc: "acc = (dial, configs)" by (cases acc)
  from assms(1) obtain dial' cfg where n: "build_config (sb_over blk base) = Inr cfg" "acc' = (dial', configs @ [cfg])"
      "config_identity cfg \<notin> set (map config_identity configs)"
      and d: "case role of Acceptor \<Rightarrow> dial' = dial | Initiator \<Rightarrow> \<exists>d. dial' = Some d \<and> dialling (sb_over blk base) = Inr d"
    unfolding add_session_def duplicate_iff acc
    by (auto simp: Let_def bindR_Inr_iff split: connection_type.splits option.splits if_splits)
  show "length (snd acc') = Suc (length (snd acc))" using n(2) acc by simp
  show "sessions_ok role acc'"
    using assms(2) n d build_config_ok [OF n(1)] dialling_ok
    by (auto simp: sessions_ok_def acc split: connection_type.splits option.splits)
qed

lemma add_sessions_ok:
  "foldR (add_session role base) blks acc = Inr acc' \<Longrightarrow> sessions_ok role acc \<Longrightarrow>
     sessions_ok role acc' \<and> length (snd acc') = length (snd acc) + length blks"
  by (induction blks arbitrary: acc) (fastforce simp: bindR_Inr_iff dest: add_session_ok)+

lemma settle_role:
  "settle_server t l k = Inr x \<Longrightarrow> \<exists>s. x = Server s" "settle_client t l k = Inr x \<Longrightarrow> \<exists>c. x = Client c"
  by (auto simp: settle_server_def settle_client_def R_iffs)

lemma tls_settle_role:
  "tls_settle feature_tls role t = Inr (Some (line, x)) \<Longrightarrow>
     feature_tls \<and> (case x of Server _ \<Rightarrow> role = Acceptor | Client _ \<Rightarrow> role = Initiator)"
  by (auto simp: tls_settle_def Let_def R_iffs split: option.splits prod.splits if_splits connection_type.splits dest: settle_role)

lemma listener_cadence_ok: "listener_cadence slot = Inr n \<Longrightarrow> 0 < n \<and> n \<le> U32_MAX"
  by (auto simp: listener_cadence_def DEFAULT_LISTENER_EVERY_TURNS_def R_iffs number_setting_iff split: option.splits if_splits)

lemma finish_reading_ok:
  assumes "finish_reading feature_tls r = Inr s"
  shows "settings_ok s" "st_tls s \<noteq> None \<or> st_client_tls s \<noteq> None \<Longrightarrow> feature_tls"
proof -
  define role where "role = (case rg_role r of Some lr \<Rightarrow> snd lr | None \<Rightarrow> Acceptor)"
  from assms obtain tls dial configs every where f: "rg_sessions r \<noteq> []" "tls_settle feature_tls role (rg_tls r) = Inr tls"
      "role = Initiator \<longrightarrow> length (rg_sessions r) \<le> 1"
      "foldR (add_session role (rg_default r)) (rg_sessions r) (None, []) = Inr (dial, configs)"
      "listener_cadence (rg_listener_every r) = Inr every"
      and s: "st_configs s = configs" "st_role s = role" "st_dial s = dial" "st_listener_every s = every"
        "st_tls s = (case tls of Some (l, Server x) \<Rightarrow> Some x | _ \<Rightarrow> None)"
        "st_client_tls s = (case tls of Some (l, Client x) \<Rightarrow> Some x | _ \<Rightarrow> None)"
    unfolding finish_reading_def role_def
    by (auto simp: Let_def bindR_Inr_iff case_prod_unfold nth_opt_def split: option.splits settled_tls.splits if_splits)
  have t: "feature_tls \<and> (case x of Server _ \<Rightarrow> role = Acceptor | Client _ \<Rightarrow> role = Initiator)" if "tls = Some (l, x)" for l x
    using f(2) that tls_settle_role by blast
  have "sessions_ok role (None, [])" by (simp add: sessions_ok_def)
  from add_sessions_ok [OF f(4) this] have ss: "sessions_ok role (dial, configs)" "length configs = length (rg_sessions r)" by simp_all
  have one: "role = Initiator \<Longrightarrow> length (rg_sessions r) = 1"
    using f(1,3) by (cases "rg_sessions r") auto
  show "settings_ok s"
    using ss f(1) one t listener_cadence_ok [OF f(5)]
    by (auto simp: settings_ok_def s sessions_ok_def split: connection_type.splits option.splits settled_tls.splits)
  show "st_tls s \<noteq> None \<or> st_client_tls s \<noteq> None \<Longrightarrow> feature_tls"
    using t by (auto simp: s split: option.splits)
qed

subsection \<open>Trimming\<close>

lemma strip_while_id: "\<forall>w \<in> set ws. w \<noteq> [] \<longrightarrow> \<not> starts_with w s \<Longrightarrow> strip_while ws s = s"
proof -
  assume "\<forall>w \<in> set ws. w \<noteq> [] \<longrightarrow> \<not> starts_with w s"
  then have "List.find (\<lambda>w. w \<noteq> [] \<and> starts_with w s) ws = None" by (auto simp: find_None_iff)
  then show ?thesis by (subst strip_while.simps) simp
qed

text \<open>Stripping drops a prefix, and never goes past a byte that no stripped character contains.\<close>

lemma strip_while_drop: "\<exists>n. strip_while ws s = drop n s \<and> (n = 0 \<longrightarrow> (\<forall>w \<in> set ws. w \<noteq> [] \<longrightarrow> \<not> starts_with w s)) \<and> n \<le> length s"
proof (induction ws s rule: strip_while.induct)
  case (1 ws s)
  show ?case
  proof (cases "List.find (\<lambda>w. w \<noteq> [] \<and> starts_with w s) ws")
    case None
    then have "\<forall>w \<in> set ws. w \<noteq> [] \<longrightarrow> \<not> starts_with w s" by (auto simp: find_None_iff)
    with strip_while_id show ?thesis by (intro exI [of _ 0]) simp
  next
    case (Some w)
    then have w: "w \<noteq> []" "starts_with w s" by (auto simp: find_Some_iff)
    then have l: "length w \<le> length s" by (metis starts_with_def length_take min.cobounded1)
    from 1 [OF Some] obtain n where "strip_while ws (drop (length w) s) = drop n (drop (length w) s)" "n \<le> length s - length w" by auto
    then have "strip_while ws s = drop (n + length w) s" using Some by (subst strip_while.simps) simp
    with w l \<open>n \<le> length s - length w\<close> show ?thesis by (intro exI [of _ "n + length w"]) simp
  qed
qed

lemma strip_while_fixed: "strip_while ws s = s \<Longrightarrow> w \<in> set ws \<Longrightarrow> w \<noteq> [] \<Longrightarrow> \<not> starts_with w s"
  using strip_while_drop [of ws s] by (auto, metis drop_eq_Nil2 length_drop diff_is_0_eq' diff_self_eq_0 le_0_eq length_0_conv starts_with_def take_Nil le_antisym diff_diff_cancel)

lemma starts_with_stop:
  "starts_with w (xs @ y # ys) \<Longrightarrow> y \<notin> set w \<Longrightarrow> length w \<le> length xs \<and> starts_with w xs"
proof -
  assume a: "starts_with w (xs @ y # ys)" "y \<notin> set w"
  have "length w \<le> length xs"
  proof (rule ccontr)
    assume "\<not> length w \<le> length xs"
    then have "y \<in> set (take (length w) (xs @ y # ys))" by (simp add: take_Cons' )
    with a show False by (simp add: starts_with_def)
  qed
  with a(1) show ?thesis by (simp add: starts_with_def)
qed

lemma strip_while_stop:
  "\<forall>w \<in> set ws. y \<notin> set w \<Longrightarrow> \<exists>n \<le> length xs. strip_while ws (xs @ y # ys) = drop n xs @ y # ys"
proof (induction "length xs" arbitrary: xs rule: less_induct)
  case less
  show ?case
  proof (cases "List.find (\<lambda>w. w \<noteq> [] \<and> starts_with w (xs @ y # ys)) ws")
    case None
    then show ?thesis by (subst strip_while.simps) auto
  next
    case (Some w)
    then have w: "w \<noteq> []" "starts_with w (xs @ y # ys)" "y \<notin> set w" using less.prems by (auto simp: find_Some_iff)
    then have l: "length w \<le> length xs" using starts_with_stop by blast
    then have "length (drop (length w) xs) < length xs" using w(1) by (cases w) auto
    from less.hyps [OF this less.prems] obtain n where
      "n \<le> length xs - length w" "strip_while ws (drop (length w) xs @ y # ys) = drop n (drop (length w) xs) @ y # ys" by auto
    moreover from this have "strip_while ws (xs @ y # ys) = drop (n + length w) xs @ y # ys"
      using Some l by (subst strip_while.simps) auto
    ultimately show ?thesis using l by (intro exI [of _ "n + length w"]) simp
  qed
qed

text \<open>What a line starts and ends with decides whether trimming changes it.\<close>

lemma trim_start_id: "hd s \<notin> hd ` set WHITE_SPACE \<Longrightarrow> trim_start s = s"
proof -
  assume h: "hd s \<notin> hd ` set WHITE_SPACE"
  have "\<not> starts_with w s" if "w \<in> set WHITE_SPACE" "w \<noteq> []" for w
  proof
    assume "starts_with w s"
    then have "hd w = hd s" using that(2) by (cases w; cases s) (auto simp: starts_with_def)
    then show False using h that(1) by (metis image_eqI)
  qed
  then show ?thesis unfolding trim_start_def by (blast intro: strip_while_id)
qed

lemma trim_end_id: "s \<noteq> [] \<Longrightarrow> last s \<notin> last ` set WHITE_SPACE \<Longrightarrow> trim_end s = s"
proof -
  assume s: "s \<noteq> []" "last s \<notin> last ` set WHITE_SPACE"
  have "\<not> starts_with w (rev s)" if "w \<in> set (map rev WHITE_SPACE)" "w \<noteq> []" for w
  proof
    assume "starts_with w (rev s)"
    then have "hd w = last s" using that(2) s(1) by (cases w; cases s rule: rev_cases) (auto simp: starts_with_def)
    moreover from that obtain u where "u \<in> set WHITE_SPACE" "w = rev u" "u \<noteq> []" by auto
    ultimately show False using s(2) by (metis hd_rev image_eqI)
  qed
  then show ?thesis unfolding trim_end_def by (simp add: strip_while_id)
qed

lemma trim_end_behind: "\<forall>w \<in> set WHITE_SPACE. y \<notin> set w \<Longrightarrow> trim_end v = v \<Longrightarrow> trim_end (p @ y # v) = p @ y # v"
proof -
  assume y: "\<forall>w \<in> set WHITE_SPACE. y \<notin> set w" and v: "trim_end v = v"
  have f: "strip_while (map rev WHITE_SPACE) (rev v) = rev v" using v by (simp add: trim_end_def) (metis rev_rev_ident)
  have "\<not> starts_with w (rev v @ y # rev p)" if "w \<in> set (map rev WHITE_SPACE)" "w \<noteq> []" for w
    using starts_with_stop [of w "rev v" y "rev p"] strip_while_fixed [OF f that] y that(1) by auto
  then have "strip_while (map rev WHITE_SPACE) (rev v @ y # rev p) = rev v @ y # rev p" by (blast intro: strip_while_id)
  then show ?thesis by (simp add: trim_end_def)
qed

lemma trim_fixed: "trim v = v \<Longrightarrow> trim_end v = v"
proof -
  assume t: "trim v = v"
  obtain n where n: "trim_start v = drop n v" "n \<le> length v" using strip_while_drop trim_start_def by metis
  obtain m where m: "trim_end (drop n v) = rev (drop m (rev (drop n v)))" "m \<le> length (drop n v)"
    using strip_while_drop [of "map rev WHITE_SPACE" "rev (drop n v)"] unfolding trim_end_def by auto
  have "length v = length (drop n v) - m" using arg_cong [OF t, of length] n m by (simp add: trim_def)
  then have "n = 0 \<or> length v = 0" using n(2) by (simp only: length_drop) linarith
  then have "trim_start v = v" using n by auto
  with t show ?thesis by (simp add: trim_def)
qed

subsection \<open>A file as the operator writes it\<close>

datatype item = Section bool | Setting key bytes | Remark bytes

definition item_text :: "item \<Rightarrow> bytes" where
  "item_text it = (case it of
       Section is_default \<Rightarrow> if is_default then b ''[DEFAULT]'' else b ''[SESSION]''
     | Setting key value \<Rightarrow> key_name key @ EQ_SIGN # value
     | Remark words \<Rightarrow> 35 # words)"

definition file_text :: "bytes \<Rightarrow> item list \<Rightarrow> bytes" where
  "file_text eol items = concat (map (\<lambda>it. item_text it @ eol) items)"

text \<open>What an item can carry: no line end in it, and no white space around a value.\<close>

definition item_ok :: "item \<Rightarrow> bool" where
  "item_ok it \<longleftrightarrow> (case it of
       Section _ \<Rightarrow> True
     | Setting key value \<Rightarrow> trim value = value \<and> 10 \<notin> set value
     | Remark words \<Rightarrow> 10 \<notin> set words \<and> 13 \<notin> set words)"

text \<open>What the file means, with no text in it: each item, at its line, goes to the block that is open.\<close>

definition read_item :: "nat \<times> item \<Rightarrow> reading \<Rightarrow> settings_error + reading" where
  "read_item li r = (case snd li of
       Section is_default \<Rightarrow>
         if is_default then Inr (r\<lparr>rg_in_default := True, rg_current := None\<rparr>)
         else Inr (r\<lparr>rg_sessions := rg_sessions r @ [Block_default], rg_in_default := False, rg_current := Some (length (rg_sessions r))\<rparr>)
     | Setting key value \<Rightarrow> put_setting (fst li + 1) (key_name key) key value r
     | Remark _ \<Rightarrow> Inr r)"

lemma white_space_bytes: "hd ` set WHITE_SPACE = {9, 10, 11, 12, 13, 32, 0xC2, 0xE1, 0xE2, 0xE3}"
  "\<forall>w \<in> set WHITE_SPACE. EQ_SIGN \<notin> set w \<and> 35 \<notin> set w"
  by (auto simp: WHITE_SPACE_def)

definition plain_byte :: "byte \<Rightarrow> bool" where
  "plain_byte c \<longleftrightarrow> 65 \<le> c \<and> c \<le> 122"

definition graphic_byte :: "byte \<Rightarrow> bool" where
  "graphic_byte c \<longleftrightarrow> 33 \<le> c \<and> c \<le> 126"

lemma graphic_ends: "graphic_byte c \<Longrightarrow> c \<notin> hd ` set WHITE_SPACE" "graphic_byte c \<Longrightarrow> c \<notin> last ` set WHITE_SPACE"
  by (auto simp: WHITE_SPACE_def graphic_byte_def)

lemma plain_graphic: "plain_byte c \<Longrightarrow> graphic_byte c"
  by (auto simp: plain_byte_def graphic_byte_def word_le_nat_alt)

lemma trim_graphic: "s \<noteq> [] \<Longrightarrow> graphic_byte (hd s) \<Longrightarrow> graphic_byte (last s) \<Longrightarrow> trim s = s"
  by (simp add: trim_def trim_start_id trim_end_id graphic_ends)

lemma key_name_plain: "list_all plain_byte (key_name k) \<and> key_name k \<noteq> [] \<and> key_name k \<notin> set QUICKFIX_DICTIONARY_KEYS \<and> hd (key_name k) \<noteq> 91"
  by (cases k) (simp_all add: key_name_def bytes_eval plain_byte_def QUICKFIX_DICTIONARY_KEYS_def)

lemma key_name_ends: "plain_byte (hd (key_name k))" "plain_byte (last (key_name k))" "EQ_SIGN \<notin> set (key_name k)"
  "10 \<notin> set (key_name k)"
  using key_name_plain [of k] by (auto simp: list_all_iff plain_byte_def)

lemma trim_key_name: "trim (key_name k) = key_name k"
  using key_name_plain key_name_ends by (intro trim_graphic) (auto intro: plain_graphic)

lemma trim_setting: "trim value = value \<Longrightarrow> trim (key_name k @ EQ_SIGN # value) = key_name k @ EQ_SIGN # value"
proof -
  assume v: "trim value = value"
  have "hd (key_name k @ EQ_SIGN # value) = hd (key_name k)" using key_name_plain [of k] by auto
  then have "trim_start (key_name k @ EQ_SIGN # value) = key_name k @ EQ_SIGN # value"
    using graphic_ends(1) [OF plain_graphic [OF key_name_ends(1)], of k] by (metis trim_start_id)
  moreover have "trim_end (key_name k @ EQ_SIGN # value) = key_name k @ EQ_SIGN # value"
    using white_space_bytes(2) trim_fixed [OF v] by (blast intro: trim_end_behind)
  ultimately show ?thesis by (simp only: trim_def)
qed

lemma read_setting:
  assumes "trim value = value"
  shows "read_line (i, key_name k @ EQ_SIGN # value) r = put_setting (i + 1) (key_name k) k value r"
proof -
  let ?t = "key_name k @ EQ_SIGN # value"
  have h: "hd ?t = hd (key_name k)" "?t \<noteq> []" using key_name_plain [of k] by auto
  then have "hd ?t \<noteq> 35" "hd ?t \<noteq> 59" using key_name_ends(1) [of k] by (auto simp: plain_byte_def)
  moreover have "section_name ?t = None" using key_name_plain [of k] by (cases "key_name k") (auto simp: section_name_def)
  moreover have "split_once EQ_SIGN ?t = Some (key_name k, value)"
    using key_name_ends(3) [of k] by (subst split_once_def, subst position_skip) auto
  ultimately show ?thesis using trim_setting [OF assms, of k] key_name_plain [of k]
    by (simp add: read_line_def Let_def trim_key_name assms Key_parse_name)
qed

lemma read_section: "read_line (i, item_text (Section d)) r = read_item (i, Section d) r"
proof -
  have t: "trim (b ''DEFAULT'') = b ''DEFAULT''" "trim (b ''SESSION'') = b ''SESSION''"
    by (rule trim_graphic; simp add: bytes_eval graphic_byte_def)+
  have "trim (item_text (Section d)) = item_text (Section d)"
    by (cases d; simp only: item_text_def item.case if_True if_False; intro trim_graphic; simp add: bytes_eval graphic_byte_def)
  then show ?thesis using t
    by (cases d) (auto simp: read_line_def Let_def item_text_def section_name_def open_section_def read_item_def bytes_eval)
qed

lemma read_remark: "read_line (i, 35 # words) r = Inr r"
proof -
  obtain n where n: "strip_while (map rev WHITE_SPACE) (rev words @ [35]) = drop n (rev words) @ [35]"
    using strip_while_stop [of "map rev WHITE_SPACE" 35 "rev words" "[]"] white_space_bytes(2) by auto
  have "trim_start (35 # words) = 35 # words" by (rule trim_start_id) (simp add: white_space_bytes)
  then have "trim (35 # words) = 35 # rev (drop n (rev words))" using n by (simp add: trim_def trim_end_def)
  then show ?thesis by (simp add: read_line_def)
qed

lemma read_line_item: "item_ok it \<Longrightarrow> read_line (i, item_text it) r = read_item (i, it) r"
proof (cases it)
  case (Section d)
  then show ?thesis by (simp only: read_section)
qed (simp_all add: read_item_def read_remark read_setting item_text_def item_ok_def)

lemma lines_from_line: "10 \<notin> set xs \<Longrightarrow> lines_from cur (xs @ 10 # rest) = strip_cr (cur @ xs) # lines_from [] rest"
  by (induction xs arbitrary: cur) auto

lemma trimmed_last: "trim v = v \<Longrightarrow> v \<noteq> [] \<Longrightarrow> last v \<noteq> 13"
proof
  assume t: "trim v = v" and v: "v \<noteq> []" "last v = 13"
  have "strip_while (map rev WHITE_SPACE) (rev v) = rev v"
    using trim_fixed [OF t] unfolding trim_end_def by (metis rev_rev_ident)
  moreover have "[13] \<in> set (map rev WHITE_SPACE)" by (simp add: WHITE_SPACE_def)
  moreover have "starts_with [13] (rev v)" using v by (cases v rule: rev_cases) (auto simp: starts_with_def)
  ultimately show False using strip_while_fixed by blast
qed

lemma item_text_line: "item_ok it \<Longrightarrow> 10 \<notin> set (item_text it)" "item_ok it \<Longrightarrow> strip_cr (item_text it) = item_text it"
proof -
  assume ok: "item_ok it"
  show "10 \<notin> set (item_text it)"
    using ok key_name_ends(4) by (cases it) (auto simp: item_text_def item_ok_def bytes_eval)
  show "strip_cr (item_text it) = item_text it"
  proof (cases it)
    case (Setting k v)
    with ok trimmed_last [of v] show ?thesis by (auto simp: strip_cr_def item_text_def item_ok_def)
  next
    case (Remark w)
    then have "last (35 # w) \<noteq> 13" using ok by (auto simp: item_ok_def) (metis last_in_set)
    with Remark show ?thesis by (simp add: strip_cr_def item_text_def)
  qed (simp add: strip_cr_def item_text_def bytes_eval)
qed

lemma file_lines:
  assumes "eol \<in> {[10], [13, 10]}"
  shows "\<forall>it \<in> set items. item_ok it \<Longrightarrow> str_lines (file_text eol items) = map item_text items"
proof (induction items)
  case (Cons it items)
  have "lines_from [] (item_text it @ eol @ rest) = item_text it # lines_from [] rest" for rest
  proof (cases "eol = [10]")
    case True
    then show ?thesis using Cons.prems by (simp add: lines_from_line item_text_line)
  next
    case False
    then have "eol = [13, 10]" using assms by simp
    then show ?thesis using Cons.prems lines_from_line [of "item_text it @ [13]" "[]" rest]
      by (simp add: item_text_line strip_cr_def)
  qed
  with Cons show ?case by (simp add: str_lines_def file_text_def)
qed (simp add: str_lines_def file_text_def)

lemma foldR_map_cong:
  "(\<And>i x s. x \<in> set xs \<Longrightarrow> f (i, g x) s = h (i, x) s) \<Longrightarrow>
     foldR f (List.enumerate n (map g xs)) s = foldR h (List.enumerate n xs) s"
  by (induction xs arbitrary: n s) (auto simp: bindR_def split: sum.splits)

lemma file_means:
  assumes "eol \<in> {[10], [13, 10]}" "\<forall>it \<in> set items. item_ok it"
  shows "read_lines (file_text eol items) = foldR read_item (List.enumerate 0 items) Reading_new"
  unfolding read_lines_def file_lines [OF assms] using assms(2) by (intro foldR_map_cong) (simp add: read_line_item)

subsection \<open>The doors\<close>

lemma table_of_eq [simp]: "table_of configs = configs"
proof -
  have "foldl (\<lambda>table cfg. Table_serving cfg table) acc configs = acc @ configs" for acc
    by (induction configs arbitrary: acc) (simp_all add: Table_serving_def)
  then show ?thesis by (simp add: table_of_def)
qed

lemma parse_ok:
  assumes "Settings_parse feature_tls text = Inr s"
  shows "settings_ok s" "st_tls s \<noteq> None \<or> st_client_tls s \<noteq> None \<Longrightarrow> feature_tls"
proof -
  from assms obtain r where "finish_reading feature_tls r = Inr s" by (auto simp: Settings_parse_def bindR_Inr_iff)
  then show "settings_ok s" "st_tls s \<noteq> None \<or> st_client_tls s \<noteq> None \<Longrightarrow> feature_tls" by (rule finish_reading_ok)+
qed

lemma doors:
  assumes "settings_ok s"
  shows "\<not> isl (into_table s) \<longleftrightarrow> st_role s = Acceptor \<and> st_tls s = None"
    "\<not> isl (into_tls_table s) \<longleftrightarrow> st_role s = Acceptor \<and> st_tls s \<noteq> None"
    "\<not> isl (into_initiator s) \<longleftrightarrow> st_role s = Initiator \<and> st_client_tls s = None"
    "\<not> isl (into_tls_initiator s) \<longleftrightarrow> st_role s = Initiator \<and> st_client_tls s \<noteq> None"
proof -
  have d: "\<not> isl (dialled s') \<longleftrightarrow> st_role s = Initiator" if "st_dial s' = st_dial s" "st_configs s' = st_configs s" for s'
    using assms that by (auto simp: settings_ok_def dialled_def split: connection_type.splits option.splits list.splits)
  have r: "st_role s = Initiator \<longleftrightarrow> st_role s \<noteq> Acceptor" by (cases "st_role s") auto
  show "\<not> isl (into_table s) \<longleftrightarrow> st_role s = Acceptor \<and> st_tls s = None" by (auto simp: into_table_def r)
  show "\<not> isl (into_tls_table s) \<longleftrightarrow> st_role s = Acceptor \<and> st_tls s \<noteq> None"
    by (auto simp: into_tls_table_def r split: option.splits)
  show "\<not> isl (into_initiator s) \<longleftrightarrow> st_role s = Initiator \<and> st_client_tls s = None"
    using d [of s] by (auto simp: into_initiator_def)
  have "\<not> isl (bindR x (\<lambda>(cfg, addr, policy). Inr (cfg, addr, policy, t))) \<longleftrightarrow> \<not> isl x" 
    for x :: "settings_error + config \<times> bytes \<times> policy" and t :: client_tls_settings
    by (cases x) (auto simp: case_prod_unfold)
  then show "\<not> isl (into_tls_initiator s) \<longleftrightarrow> st_role s = Initiator \<and> st_client_tls s \<noteq> None"
    using d [of "s\<lparr>st_client_tls := None\<rparr>"] by (auto simp: into_tls_initiator_def r split: option.splits)
qed

lemma first_shadows:
  assumes "distinct (map config_identity cs)" "i < j" "j < length cs"
    and "cf_sender_comp_id (cs ! i) = cf_sender_comp_id (cs ! j)" "cf_target_comp_id (cs ! i) = cf_target_comp_id (cs ! j)"
  shows "Table_lookup cs who \<noteq> Some (cs ! j)"
proof
  assume "Table_lookup cs who = Some (cs ! j)"
  then obtain k where k: "k < length cs" "serves (cs ! k) (id_sender who) (id_target who)" "cs ! k = cs ! j"
      "\<forall>m < k. \<not> serves (cs ! m) (id_sender who) (id_target who)"
    unfolding Table_lookup_def find_Some_iff by metis
  then have "k = j" using assms(1,3) by (metis distinct_map nth_eq_iff_index_eq)
  with k assms(2,4,5) show False
    by (auto simp: serves_def inbound_sender_matches_def inbound_target_matches_def)
qed

subsection \<open>The switch\<close>

text \<open>A line that turns TLS on: no remark and no section header, with \<open>SocketUseSSL\<close> before the first
  equals sign and \<open>Y\<close> behind it, white space aside.\<close>

definition asks_for_tls :: "bytes \<Rightarrow> bool" where
  "asks_for_tls l \<longleftrightarrow> trim l \<noteq> [] \<and> hd (trim l) \<notin> {35, 59} \<and> section_name (trim l) = None \<and>
     (case split_once EQ_SIGN (trim l) of Some (n, v) \<Rightarrow> trim n = b ''SocketUseSSL'' \<and> trim v = b ''Y'' | None \<Rightarrow> False)"

lemma switch_name: "key_name SocketUseSsl = b ''SocketUseSSL''"
  by (simp add: key_name_def)

lemma put_switch:
  "put_setting line name SocketUseSsl value r = Inr r' \<Longrightarrow> tb_use_ssl (rg_tls r') = Some (line, value)"
  by (auto simp: put_setting_def tls_slot_def default_only_def split: if_splits)

lemma read_switch: "asks_for_tls l \<Longrightarrow> read_line (i, l) r = Inr r' \<Longrightarrow> tb_use_ssl (rg_tls r') = Some (i + 1, b ''Y'')"
  using key_name_plain [of SocketUseSsl] Key_parse_name [of SocketUseSsl]
  by (auto simp: asks_for_tls_def read_line_def Let_def switch_name dest: put_switch split: option.splits)

lemma put_keeps_switch:
  assumes "put_setting line name key value r = Inr r'" "tb_use_ssl (rg_tls r) = Some x"
  shows "tb_use_ssl (rg_tls r') = Some x"
  using assms
  by (cases key)
    (auto simp: put_setting_def tls_slot_def default_only_def bindR_Inr_iff split: if_splits option.splits)

lemma read_keeps_switch: "read_line ln r = Inr r' \<Longrightarrow> tb_use_ssl (rg_tls r) = Some x \<Longrightarrow> tb_use_ssl (rg_tls r') = Some x"
  by (auto simp: read_line_def Let_def open_section_def split: if_splits option.splits dest: put_keeps_switch)

lemma lines_keep_switch: "foldR read_line lns r = Inr r' \<Longrightarrow> tb_use_ssl (rg_tls r) = Some x \<Longrightarrow> tb_use_ssl (rg_tls r') = Some x"
  by (induction lns arbitrary: r) (auto simp: bindR_Inr_iff dest: read_keeps_switch)

lemma lines_switch:
  "foldR read_line (List.enumerate n ls) r = Inr r' \<Longrightarrow> list_ex asks_for_tls ls \<Longrightarrow> \<exists>i. tb_use_ssl (rg_tls r') = Some (i, b ''Y'')"
proof (induction ls arbitrary: n r)
  case (Cons l ls)
  then obtain r1 where r1: "read_line (n, l) r = Inr r1" "foldR read_line (List.enumerate (Suc n) ls) r1 = Inr r'"
    by (auto simp: bindR_Inr_iff)
  show ?case
  proof (cases "asks_for_tls l")
    case True
    from lines_keep_switch [OF r1(2) read_switch [OF True r1(1)]] show ?thesis by blast
  next
    case False
    then show ?thesis using Cons.IH [OF r1(2)] Cons.prems(2) by simp
  qed
qed simp

lemma settle_switch: "tls_settle feature_tls role t = Inr tls \<Longrightarrow> tb_use_ssl t = Some (i, b ''Y'') \<Longrightarrow> tls \<noteq> None"
  by (auto simp: tls_settle_def tls_anchor_def first_present_def flag_or_def flag_def Let_def R_iffs
      split: if_splits option.splits prod.splits)

lemma finish_tls:
  assumes "finish_reading feature_tls r = Inr s"
  shows "\<exists>role tls. tls_settle feature_tls role (rg_tls r) = Inr tls \<and> (tls \<noteq> None \<longrightarrow> st_tls s \<noteq> None \<or> st_client_tls s \<noteq> None)"
proof -
  define role where "role = (case rg_role r of Some lr \<Rightarrow> snd lr | None \<Rightarrow> Acceptor)"
  from assms obtain tls where "tls_settle feature_tls role (rg_tls r) = Inr tls"
      and "st_tls s = (case tls of Some (l, Server x) \<Rightarrow> Some x | _ \<Rightarrow> None)"
        "st_client_tls s = (case tls of Some (l, Client x) \<Rightarrow> Some x | _ \<Rightarrow> None)"
    unfolding finish_reading_def role_def
    by (auto simp: Let_def bindR_Inr_iff case_prod_unfold nth_opt_def split: option.splits settled_tls.splits if_splits)
  then show ?thesis by (auto split: option.split settled_tls.split)
qed

lemma parse_switch:
  assumes "Settings_parse feature_tls text = Inr s" "list_ex asks_for_tls (str_lines text)"
  shows "st_tls s \<noteq> None \<or> st_client_tls s \<noteq> None"
proof -
  from assms(1) obtain r where r: "read_lines text = Inr r" "finish_reading feature_tls r = Inr s"
    by (auto simp: Settings_parse_def bindR_Inr_iff)
  obtain i where "tb_use_ssl (rg_tls r) = Some (i, b ''Y'')"
    using lines_switch [OF r(1) [unfolded read_lines_def] assms(2)] by blast
  then show ?thesis using finish_tls [OF r(2)] settle_switch by blast
qed

subsection \<open>Properties\<close>

text \<open>C22: What is accepted is within its bounds. Whatever the text is, when \<open>Settings::parse\<close> accepts it,
  the settings name at least one session; every session has names that fit, a \<open>DefaultApplVerID\<close> exactly
  when it is FIXT 1.1, a schedule the session layer can follow and numbers that fit; no two sessions share both
  CompIDs and the \<open>BeginString\<close>; the listener is polled at some cadence; an acceptor dials nobody, and an initiator has one session,
  an address and a reconnect ladder with a positive first delay that is at most its ceiling. Certificates are there only when
  the engine is built with TLS.\<close>

theorem accepted_settings_are_usable:
  assumes "Settings_parse feature_tls text = Inr s"
  shows "settings_ok s \<and> (st_tls s = None \<and> st_client_tls s = None \<or> feature_tls)"
  using parse_ok [OF assms] by blast

text \<open>C23: Exactly one of the four doors takes a file that was accepted, and it is never a plaintext one for a file
  that asks for TLS. Whatever the text, when it is accepted one door takes it and three refuse; \<open>into_table\<close> and
  \<open>into_initiator\<close> both refuse exactly when the settings carry certificates; and when any line of the file is
  \<open>SocketUseSSL=Y\<close> both refuse, so such a file is neither served nor dialled in plaintext.\<close>

theorem one_door_takes_the_file:
  assumes "Settings_parse feature_tls text = Inr s"
  shows "length (filter id [\<not> isl (into_table s), \<not> isl (into_tls_table s), \<not> isl (into_initiator s), \<not> isl (into_tls_initiator s)]) = 1 \<and>
    (isl (into_table s) \<and> isl (into_initiator s) \<longleftrightarrow> st_tls s \<noteq> None \<or> st_client_tls s \<noteq> None) \<and>
    (list_ex asks_for_tls (str_lines text) \<longrightarrow> isl (into_table s) \<and> isl (into_initiator s))"
proof -
  have "st_role s = Acceptor \<Longrightarrow> st_client_tls s = None" "st_role s = Initiator \<Longrightarrow> st_tls s = None"
    using parse_ok(1) [OF assms] by (auto simp: settings_ok_def)
  then have "length (filter id [\<not> isl (into_table s), \<not> isl (into_tls_table s), \<not> isl (into_initiator s), \<not> isl (into_tls_initiator s)]) = 1 \<and>
    (isl (into_table s) \<and> isl (into_initiator s) \<longleftrightarrow> st_tls s \<noteq> None \<or> st_client_tls s \<noteq> None)"
    using doors [OF parse_ok(1) [OF assms]] by (cases "st_role s") auto
  then show ?thesis using parse_switch [OF assms] by blast
qed

text \<open>C24: What the operator writes is what is read. A file of section headers, settings and remarks, with the
  line ends of either system, is read as its items one after another: each setting goes, with the number of
  its line, to the block that is open, and is refused there exactly when the block or the role refuses it. Values are
  given without surrounding white space (the reader trims it away), and such a value arrives unchanged; it may hold any
  other bytes but a line feed, an equals sign too. A remark holds no line end of either kind.\<close>

theorem file_reads_back:
  assumes "eol \<in> {[10], [13, 10]}" "\<forall>it \<in> set items. item_ok it"
  shows "Settings_parse feature_tls (file_text eol items) =
     bindR (foldR read_item (List.enumerate 0 items) Reading_new) (finish_reading feature_tls)"
  by (simp add: Settings_parse_def file_means [OF assms])

text \<open>An integer is accepted in one spelling. A numeric setting is read as \<open>n\<close> if and only if it is written
  as the decimal digits of \<open>n\<close> with no sign and no leading zero, and \<open>n\<close> is at most the largest value of its
  type: \<open>str::parse\<close> and the check on the spelling together accept nothing else.\<close>

theorem number_has_one_spelling: "number_setting m (line, value) key = Inr n \<longleftrightarrow> value = dec_digits n \<and> n \<le> m"
  by (simp add: number_setting_iff)

text \<open>C38: A session that differs from an earlier one in its \<open>BeginString\<close> alone is accepted and never served.
  \<open>Settings::parse\<close> compares identities with the \<open>BeginString\<close>, while the table that \<open>into_table\<close> gives
  answers by the two CompIDs: whoever logs on is given the earlier session.\<close>

theorem shadowed_session_is_never_served:
  assumes "Settings_parse feature_tls text = Inr s" "into_table s = Inr table" "i < j" "j < length table"
    and "cf_sender_comp_id (table ! i) = cf_sender_comp_id (table ! j)" "cf_target_comp_id (table ! i) = cf_target_comp_id (table ! j)"
  shows "Table_lookup table who \<noteq> Some (table ! j)"
proof (rule first_shadows [OF _ assms(3-6)])
  have "table = st_configs s" using assms(2) by (auto simp: into_table_def split: if_splits)
  then show "distinct (map config_identity table)" using parse_ok(1) [OF assms(1)] by (simp add: settings_ok_def)
qed

subsection \<open>A file with a shadowed session\<close>

definition sample_items :: "item list" where
  "sample_items = [Section True, Setting BeginString (b ''FIX.4.2''), Setting SenderCompId (b ''ISLD''), Remark (b '' two venues''),
     Section False, Setting TargetCompId (b ''TW''), Section False, Setting TargetCompId (b ''TW''), Setting BeginString (b ''FIX.4.4'')]"

definition sample_settings :: settings where
  "sample_settings = Settings_default\<lparr>st_configs :=
     [Config_acceptor (b ''FIX.4.2'') (b ''ISLD'') (b ''TW''), Config_acceptor (b ''FIX.4.4'') (b ''ISLD'') (b ''TW'')]\<rparr>"

lemma sample_items_ok: "\<forall>it \<in> set sample_items. item_ok it"
proof -
  have "trim (b ''FIX.4.2'') = b ''FIX.4.2''" "trim (b ''FIX.4.4'') = b ''FIX.4.4''" "trim (b ''ISLD'') = b ''ISLD''" "trim (b ''TW'') = b ''TW''"
    by (rule trim_graphic; simp add: bytes_eval graphic_byte_def)+
  then show ?thesis by (simp add: sample_items_def item_ok_def) (simp add: bytes_eval)
qed

lemma sample_reading:
  "\<exists>r. foldR read_item (List.enumerate 0 sample_items) Reading_new = Inr r \<and> rg_role r = None \<and> rg_log r = None \<and>
     rg_listener_every r = None \<and> rg_tls r = TlsBlock_default \<and>
     rg_default r = Block_default\<lparr>sb_begin_string := Some (2, b ''FIX.4.2''), sb_sender := Some (3, b ''ISLD'')\<rparr> \<and>
     rg_sessions r = [Block_default\<lparr>sb_target := Some (6, b ''TW'')\<rparr>,
       Block_default\<lparr>sb_target := Some (8, b ''TW''), sb_begin_string := Some (9, b ''FIX.4.4'')\<rparr>]"
  by (simp add: sample_items_def Reading_new_def read_item_def put_setting_def tls_slot_def sb_set_def take_slot_def nth_opt_def
      Block_default_def)

lemmas block_eval = Block_default_def sb_over_def opt_or_def dialling_key_def first_present_def line_of_def

lemma sample_session:
  assumes "length bs \<le> 16" "bs \<noteq> FIXT_1_1"
    and "sb_over blk base = Block_default\<lparr>sb_begin_string := Some (l1, bs), sb_sender := Some (l2, b ''ISLD''), sb_target := Some (l3, b ''TW'')\<rparr>"
  shows "build_config (sb_over blk base) = Inr (Config_acceptor bs (b ''ISLD'') (b ''TW''))" "dialling_key (sb_over blk base) = None"
  unfolding assms(3) using assms(1,2)
  by (simp_all add: block_eval build_config_def named_config_def required_setting_def fitting_def set_timing_def on_some_def
      schedule_of_def schedule_times_def set_reset_def flag_or_def set_timeouts_def set_checks_def set_resync_def set_precision_def
      with_reset_def with_validation_def Config_acceptor_def) (simp_all add: bytes_eval)

lemma sample_parses: "Settings_parse feature_tls (file_text [10] sample_items) = Inr sample_settings"
proof -
  obtain r where r: "foldR read_item (List.enumerate 0 sample_items) Reading_new = Inr r" "rg_role r = None" "rg_log r = None"
      "rg_listener_every r = None" "rg_tls r = TlsBlock_default"
      and d: "rg_default r = Block_default\<lparr>sb_begin_string := Some (2, b ''FIX.4.2''), sb_sender := Some (3, b ''ISLD'')\<rparr>" (is "_ = ?d")
      and s: "rg_sessions r = [Block_default\<lparr>sb_target := Some (6, b ''TW'')\<rparr>,
        Block_default\<lparr>sb_target := Some (8, b ''TW''), sb_begin_string := Some (9, b ''FIX.4.4'')\<rparr>]" (is "_ = [?b, ?b']")
    using sample_reading by blast
  have t: "tls_settle feature_tls Acceptor TlsBlock_default = Inr None"
    by (simp add: tls_settle_def tls_anchor_def first_present_def TlsBlock_default_def)
  have o: "sb_over ?b ?d = Block_default\<lparr>sb_begin_string := Some (2, b ''FIX.4.2''), sb_sender := Some (3, b ''ISLD''), sb_target := Some (6, b ''TW'')\<rparr>"
    "sb_over ?b' ?d = Block_default\<lparr>sb_begin_string := Some (9, b ''FIX.4.4''), sb_sender := Some (3, b ''ISLD''), sb_target := Some (8, b ''TW'')\<rparr>"
    by (simp_all add: block_eval)
  have n: "length (b ''FIX.4.2'') \<le> 16" "b ''FIX.4.2'' \<noteq> FIXT_1_1" "length (b ''FIX.4.4'') \<le> 16" "b ''FIX.4.4'' \<noteq> FIXT_1_1"
    by (simp_all add: FIXT_1_1_def bytes_eval)
  have "\<not> same_identity_as (Config_acceptor (b ''FIX.4.2'') x y) (Config_acceptor (b ''FIX.4.4'') x y)" for x y
    by (simp add: same_identity_as_def Config_acceptor_def Name_new_def bytes_eval)
  then have f: "foldR (add_session Acceptor ?d) [?b, ?b'] (None, []) = Inr (None, st_configs sample_settings)"
    using sample_session [OF n(1,2) o(1)] sample_session [OF n(3,4) o(2)]
    by (simp add: add_session_def Let_def sample_settings_def Settings_default_def)
  show ?thesis unfolding Settings_parse_def file_means [OF _ sample_items_ok, of "[10]", simplified] r(1)
    using f t by (simp add: finish_reading_def r d s listener_cadence_def sample_settings_def Settings_default_def)
qed

theorem accepted_settings_are_usable_witness:
  "Settings_parse False (file_text [10] sample_items) = Inr sample_settings \<and> settings_ok sample_settings"
  using accepted_settings_are_usable [OF sample_parses [of False]] sample_parses by blast

text \<open>An acceptor's file that asks for TLS.\<close>

definition tls_items :: "item list" where
  "tls_items = [Section True, Setting BeginString (b ''FIX.4.2''), Setting SenderCompId (b ''ISLD''), Setting SocketUseSsl (b ''Y''),
     Setting ServerCertificateFile (b ''ISLD''), Setting ServerCertificateKeyFile (b ''TW''), Section False, Setting TargetCompId (b ''TW'')]"

lemma tls_items_ok: "\<forall>it \<in> set tls_items. item_ok it"
proof -
  have "trim (b ''FIX.4.2'') = b ''FIX.4.2''" "trim (b ''Y'') = b ''Y''" "trim (b ''ISLD'') = b ''ISLD''" "trim (b ''TW'') = b ''TW''"
    by (rule trim_graphic; simp add: bytes_eval graphic_byte_def)+
  then show ?thesis by (simp add: tls_items_def item_ok_def) (simp add: bytes_eval)
qed

lemma tls_items_ask: "list_ex asks_for_tls (str_lines (file_text [10] tls_items))"
proof -
  have y: "trim (b ''Y'') = b ''Y''" by (rule trim_graphic; simp add: bytes_eval graphic_byte_def)
  let ?t = "key_name SocketUseSsl @ EQ_SIGN # b ''Y''"
  have "section_name ?t = None" "hd ?t = 83" "?t \<noteq> []" by (simp_all add: switch_name section_name_def bytes_eval)
  moreover have "split_once EQ_SIGN ?t = Some (key_name SocketUseSsl, b ''Y'')"
    using key_name_ends(3) [of SocketUseSsl] by (subst split_once_def, subst position_skip) auto
  ultimately have "asks_for_tls ?t"
    using trim_setting [OF y, of SocketUseSsl] trim_key_name [of SocketUseSsl] y by (simp add: asks_for_tls_def switch_name)
  then have "asks_for_tls (item_text (Setting SocketUseSsl (b ''Y'')))" by (simp add: item_text_def)
  then show ?thesis unfolding file_lines [OF _ tls_items_ok, of "[10]", simplified] by (simp add: tls_items_def)
qed

lemma tls_parses: "\<exists>s. Settings_parse True (file_text [10] tls_items) = Inr s"
proof -
  let ?tls = "TlsBlock_default\<lparr>tb_use_ssl := Some (4, b ''Y''), tb_certificate := Some (5, b ''ISLD''), tb_private_key := Some (6, b ''TW'')\<rparr>"
  let ?d = "Block_default\<lparr>sb_begin_string := Some (2, b ''FIX.4.2''), sb_sender := Some (3, b ''ISLD'')\<rparr>"
  let ?b = "Block_default\<lparr>sb_target := Some (8, b ''TW'')\<rparr>"
  obtain r where r: "foldR read_item (List.enumerate 0 tls_items) Reading_new = Inr r" "rg_role r = None"
      "rg_listener_every r = None" "rg_tls r = ?tls" "rg_default r = ?d" "rg_sessions r = [?b]"
    by (simp add: tls_items_def Reading_new_def read_item_def put_setting_def default_only_def tls_slot_def sb_set_def take_slot_def nth_opt_def
      Block_default_def TlsBlock_default_def)
  have t: "tls_settle True Acceptor ?tls = Inr (Some (4, Server \<lparr>tl_certificate = b ''ISLD'', tl_private_key = b ''TW'', tl_require_kernel = False\<rparr>))"
    by (simp add: tls_settle_def tls_anchor_def tls_foreign_def first_present_def TlsBlock_default_def flag_or_def flag_def settle_server_def
        required_setting_def)
  have o: "sb_over ?b ?d = Block_default\<lparr>sb_begin_string := Some (2, b ''FIX.4.2''), sb_sender := Some (3, b ''ISLD''), sb_target := Some (8, b ''TW'')\<rparr>"
    by (simp add: block_eval)
  have n: "length (b ''FIX.4.2'') \<le> 16" "b ''FIX.4.2'' \<noteq> FIXT_1_1" by (simp_all add: FIXT_1_1_def bytes_eval)
  have f: "foldR (add_session Acceptor ?d) [?b] (None, []) = Inr (None, [Config_acceptor (b ''FIX.4.2'') (b ''ISLD'') (b ''TW'')])"
    using sample_session [OF n o] by (simp add: add_session_def Let_def)
  show ?thesis unfolding Settings_parse_def file_means [OF _ tls_items_ok, of "[10]", simplified] r(1)
    using f t by (simp add: finish_reading_def r listener_cadence_def)
qed

theorem one_door_takes_the_file_witness:
  "\<exists>s. Settings_parse True (file_text [10] tls_items) = Inr s \<and>
   length (filter id [\<not> isl (into_table s), \<not> isl (into_tls_table s), \<not> isl (into_initiator s), \<not> isl (into_tls_initiator s)]) = 1 \<and>
   isl (into_table s) \<and> isl (into_initiator s)"
  using tls_parses one_door_takes_the_file tls_items_ask by blast

theorem file_reads_back_witness:
  "list_all item_ok sample_items \<and> Settings_parse True (file_text [13, 10] sample_items) = Inr sample_settings"
proof -
  have "Settings_parse True (file_text [13, 10] sample_items) = bindR (foldR read_item (List.enumerate 0 sample_items) Reading_new) (finish_reading True)"
    using sample_items_ok by (intro file_reads_back) simp_all
  also have "\<dots> = Settings_parse True (file_text [10] sample_items)"
    unfolding Settings_parse_def file_means [OF _ sample_items_ok, of "[10]", simplified] ..
  finally show ?thesis using sample_items_ok sample_parses by (simp add: list_all_iff)
qed

theorem shadowed_session_is_never_served_witness:
  "Table_lookup (st_configs sample_settings) (comp_ids (b ''TW'') (b ''ISLD'')) = Some (Config_acceptor (b ''FIX.4.2'') (b ''ISLD'') (b ''TW'')) \<and>
   (\<forall>who. Table_lookup (st_configs sample_settings) who \<noteq> Some (Config_acceptor (b ''FIX.4.4'') (b ''ISLD'') (b ''TW'')))"
proof -
  have t: "into_table sample_settings = Inr (st_configs sample_settings)"
    by (simp add: into_table_def sample_settings_def Settings_default_def)
  have "Table_lookup (st_configs sample_settings) who \<noteq> Some (st_configs sample_settings ! 1)" for who
    by (rule shadowed_session_is_never_served [OF sample_parses [of False] t, of 0 1])
       (simp_all add: sample_settings_def Config_acceptor_def)
  moreover have "Table_lookup (st_configs sample_settings) (comp_ids (b ''TW'') (b ''ISLD'')) = Some (Config_acceptor (b ''FIX.4.2'') (b ''ISLD'') (b ''TW''))"
    by (simp add: Table_lookup_def sample_settings_def serves_def inbound_sender_matches_def inbound_target_matches_def comp_ids_def
        Config_acceptor_def nm_matches_new) (simp add: bytes_eval)
  ultimately show ?thesis by (simp add: sample_settings_def)
qed

end
