(* ===== verification/Facade.thy ===== *)
theory Facade
  imports Template_Correct Session "HOL-Library.Multiset"
begin

text \<open>
  The facade an application is written against: \<open>crates/library/src/reply.rs\<close> and \<open>app.rs\<close>. A \<open>Reply\<close>
  carries what the session knows; a \<open>Message\<close> is the template builder a handler fills. A handler is a record
  of its two functions, over a state of its own. The output buffer of an answer that was sent is returned with the
  range in it. \<open>app_application\<close> is the application of a session that an \<open>App\<close> is.
\<close>

definition SESSION_OWNED :: "nat list" where
  "SESSION_OWNED = [34, 49, 52, 56]"

datatype reply_error = Encode encode_error

datatype answer = Sent "bytes \<times> nat \<times> nat" | Silent | Failed reply_error

definition answer_range :: "answer \<Rightarrow> (bytes \<times> nat \<times> nat) option" where
  "answer_range ans = (case ans of Sent r \<Rightarrow> Some r | Silent \<Rightarrow> None | Failed _ \<Rightarrow> None)"

record reply =
  ry_begin_string :: bytes
  ry_seq :: "nat option"
  ry_stamp :: bytes
  ry_last_processed :: "nat option"
  ry_sender :: bytes
  ry_target :: bytes
  ry_out :: bytes

definition Reply_new :: "bytes \<Rightarrow> nat \<Rightarrow> bytes \<Rightarrow> nat option \<Rightarrow> bytes \<Rightarrow> bytes \<Rightarrow> bytes \<Rightarrow> reply" where
  "Reply_new begin_string seq stamp last_processed sender target out =
     \<lparr>ry_begin_string = begin_string, ry_seq = Some seq, ry_stamp = stamp, ry_last_processed = last_processed,
      ry_sender = sender, ry_target = target, ry_out = out\<rparr>"

definition Reply_originate :: "bytes \<Rightarrow> bytes \<Rightarrow> bytes \<Rightarrow> bytes \<Rightarrow> reply" where
  "Reply_originate begin_string sender target out =
     \<lparr>ry_begin_string = begin_string, ry_seq = None, ry_stamp = [], ry_last_processed = None,
      ry_sender = sender, ry_target = target, ry_out = out\<rparr>"

text \<open>\<open>render_u32\<close> fills ten slots from the right, as \<open>digits\<close> of \<open>text.rs\<close> does.\<close>

definition ry_render_u32 :: "nat \<Rightarrow> bytes" where
  "ry_render_u32 v = (if v = 0 then [ZERO] else digits_loop 10 v [])"

record message =
  ms_out :: bytes
  ms_b :: template_builder
  ms_err :: "reply_error option"

definition ry_message :: "nat \<Rightarrow> nat \<Rightarrow> bytes \<Rightarrow> reply \<Rightarrow> message" where
  "ry_message P S msg_type ry =
     (let tb = TemplateBuilder_new P S (ry_begin_string ry);
          tb = tb_field 56 (ry_target ry) (tb_field 49 (ry_sender ry) (tb_field 35 msg_type tb));
          tb = (case ry_seq ry of Some n \<Rightarrow> tb_field 52 (ry_stamp ry) (tb_field 34 (ry_render_u32 n) tb) | None \<Rightarrow> tb);
          tb = (case ry_last_processed ry of Some n \<Rightarrow> tb_field 369 (ry_render_u32 n) tb | None \<Rightarrow> tb) in
      \<lparr>ms_out = ry_out ry, ms_b = tb, ms_err = None\<rparr>)"

definition ms_field :: "nat \<Rightarrow> bytes \<Rightarrow> message \<Rightarrow> message" where
  "ms_field tag value m = (if tag \<in> set SESSION_OWNED then m else m\<lparr>ms_b := tb_field tag value (ms_b m)\<rparr>)"

definition ms_group :: "nat \<Rightarrow> message \<Rightarrow> message" where
  "ms_group counter m = m\<lparr>ms_b := tb_group counter (ms_b m)\<rparr>"

definition business_reject :: "nat \<Rightarrow> nat \<Rightarrow> bytes \<Rightarrow> bytes \<Rightarrow> nat \<Rightarrow> bytes \<Rightarrow> reply \<Rightarrow> message" where
  "business_reject P S ref_seq ref_msg_type reason txt ry =
     ms_field 58 txt (ms_field 380 (ry_render_u32 reason) (ms_field 372 ref_msg_type (ms_field 45 ref_seq (ry_message P S (b ''j'') ry))))"


definition ms_send_with_groups :: "('z) dictionary_scheme \<Rightarrow> group_data list \<Rightarrow> message \<Rightarrow> answer" where
  "ms_send_with_groups D groups m = (case ms_err m of
       Some e \<Rightarrow> Failed e
     | None \<Rightarrow>
       (case build D (ms_b m) of
          Inr t \<Rightarrow> (case encode_with D t (ms_out m) [] groups of Inr r \<Rightarrow> Sent r | Inl e \<Rightarrow> Failed (Encode e))
        | Inl e \<Rightarrow> Failed (Encode e)))"

definition ms_send :: "('z) dictionary_scheme \<Rightarrow> message \<Rightarrow> answer" where
  "ms_send D m = ms_send_with_groups D [] m"

subsection \<open>The adapter\<close>

record peer =
  pe_begin_string :: bytes
  pe_sender :: bytes
  pe_target :: bytes

definition in_msg_type :: "message_view \<Rightarrow> bytes" where
  "in_msg_type v = (case mv_get v 35 of Some mt \<Rightarrow> mt | None \<Rightarrow> [])"

record 'h handler =
  hn_on_message :: "'h \<Rightarrow> message_view \<Rightarrow> reply \<Rightarrow> answer \<times> 'h"
  hn_on_logon :: "'h \<Rightarrow> peer \<Rightarrow> nat \<Rightarrow> reply \<Rightarrow> answer \<times> 'h"


record 'h app =
  ap_handler :: 'h
  ap_idx :: field_index
  ap_unparsable :: nat
  ap_failed :: nat

definition App_with_sizes :: "nat \<Rightarrow> 'h \<Rightarrow> 'h app" where
  "App_with_sizes N h = \<lparr>ap_handler = h, ap_idx = FieldIndex_new N, ap_unparsable = 0, ap_failed = 0\<rparr>"

definition app_default :: "'h \<Rightarrow> 'h app" where
  "app_default h = App_with_sizes 256 h"

definition note_answer :: "answer \<times> 'h \<Rightarrow> 'h app \<Rightarrow> (bytes \<times> nat \<times> nat) option \<times> 'h app" where
  "note_answer ans a =
     (let a = a\<lparr>ap_handler := snd ans\<rparr>;
          a = (case fst ans of Failed _ \<Rightarrow> a\<lparr>ap_failed := wrap64 (ap_failed a + 1)\<rparr> | _ \<Rightarrow> a) in
      (answer_range (fst ans), a))"

definition app_on_message :: "('z) dictionary_scheme \<Rightarrow> 'h handler \<Rightarrow> bytes \<Rightarrow> header \<Rightarrow> bytes \<Rightarrow> 'h app
    \<Rightarrow> (bytes \<times> nat \<times> nat) option \<times> 'h app" where
  "app_on_message D H msg hdr out a =
     (let (parsed, idx) = parse_into D Validation_NONE msg (ap_idx a); a = a\<lparr>ap_idx := idx\<rparr> in
      case parsed of
        Inl _ \<Rightarrow> (None, a\<lparr>ap_unparsable := wrap64 (ap_unparsable a + 1)\<rparr>)
      | Inr _ \<Rightarrow>
        let view = fi_view (ap_idx a) msg in
        (case (mv_get view 8, mv_get view 49, mv_get view 56) of
           (Some begin_string, Some their_sender, Some their_target) \<Rightarrow>
             let ry = Reply_new begin_string (h_seq hdr) (h_stamp hdr) (h_last_processed hdr) their_target their_sender out in
             note_answer (hn_on_message H (ap_handler a) view ry) a
         | _ \<Rightarrow> (None, a\<lparr>ap_unparsable := wrap64 (ap_unparsable a + 1)\<rparr>)))"

definition app_on_logon :: "'h handler \<Rightarrow> nat \<Rightarrow> peer \<Rightarrow> bytes \<Rightarrow> 'h app \<Rightarrow> (bytes \<times> nat \<times> nat) option \<times> 'h app" where
  "app_on_logon H n who out a =
     (let ry = Reply_originate (pe_begin_string who) (pe_sender who) (pe_target who) out in
      note_answer (hn_on_logon H (ap_handler a) who n ry) a)"

text \<open>The session hands the application its scratch buffer and takes the bytes of the range.\<close>

definition app_application :: "('z) dictionary_scheme \<Rightarrow> 'h handler \<Rightarrow> 'h app \<Rightarrow> bytes \<Rightarrow> header \<Rightarrow> nat \<Rightarrow> bytes option \<times> 'h app" where
  "app_application D H a msg hdr n =
     (let (r, a) = app_on_message D H msg hdr (replicate n 0) a in (map_option message_of r, a))"

subsection \<open>What a handler can write\<close>

text \<open>A handler writes through these calls, and sends with \<open>send\<close> or \<open>send_with_groups\<close>; a reply
  declares the header first.\<close>

datatype call = CField nat bytes | CGroup nat

definition run_call :: "call \<Rightarrow> message \<Rightarrow> message" where
  "run_call c = (case c of CField t v \<Rightarrow> ms_field t v | CGroup t \<Rightarrow> ms_group t)"

definition header_decls :: "bytes \<Rightarrow> reply \<Rightarrow> decl list" where
  "header_decls mt ry = [Field 35 mt, Field 49 (ry_sender ry), Field 56 (ry_target ry)]
     @ (case ry_seq ry of Some n \<Rightarrow> [Field 34 (ry_render_u32 n), Field 52 (ry_stamp ry)] | None \<Rightarrow> [])
     @ (case ry_last_processed ry of Some n \<Rightarrow> [Field 369 (ry_render_u32 n)] | None \<Rightarrow> [])"

definition call_decl :: "call \<Rightarrow> decl list" where
  "call_decl c = (case c of CField t v \<Rightarrow> if t \<in> set SESSION_OWNED then [] else [Field t v] | CGroup t \<Rightarrow> [Group t])"

definition call_decls :: "call list \<Rightarrow> decl list" where
  "call_decls calls = concat (map call_decl calls)"



definition plain_header_tags :: "('z) dictionary_scheme \<Rightarrow> bool" where
  "plain_header_tags D \<longleftrightarrow> list_all (\<lambda>t. data_length_tag D t = None) [34, 35, 49, 52, 56, 369]"


lemma run_calls:
  "ms_b (fold run_call calls m) = fold tb_declare (call_decls calls) (ms_b m)"
  "ms_out (fold run_call calls m) = ms_out m" "ms_err (fold run_call calls m) = ms_err m"
  by (induction calls arbitrary: m)
     (auto simp: run_call_def call_decls_def call_decl_def ms_field_def ms_group_def split: call.splits)

lemma message_decls:
  "ms_b (ry_message P S mt ry) = fold tb_declare (header_decls mt ry) (TemplateBuilder_new P S (ry_begin_string ry))"
  "ms_out (ry_message P S mt ry) = ry_out ry" "ms_err (ry_message P S mt ry) = None"
  by (auto simp: ry_message_def header_decls_def Let_def split: option.splits)

lemma send_eq:
  "ms_send D (fold run_call calls (ry_message P S mt ry)) =
     (case build D (fold tb_declare (header_decls mt ry @ call_decls calls) (TemplateBuilder_new P S (ry_begin_string ry))) of
        Inr t \<Rightarrow> (case encode_with D t (ry_out ry) [] [] of Inr r \<Rightarrow> Sent r | Inl e \<Rightarrow> Failed (Encode e))
      | Inl e \<Rightarrow> Failed (Encode e))"
  by (simp add: ms_send_def ms_send_with_groups_def run_calls message_decls cong: sum.case_cong)

lemma sent_frame:
  assumes "ms_send D (fold run_call calls (ry_message P S mt ry)) = Sent r" "S \<le> U16_MAX"
    and "no_data D (header_decls mt ry @ call_decls calls)" "length (ry_begin_string ry) \<le> 32"
    and "length (ry_begin_string ry) + 11 \<le> length (ry_out ry)"
  shows "message_of r = wire_frame (ry_begin_string ry) (wire_body (template_fields D [] (header_decls mt ry @ call_decls calls)))"
proof -
  let ?ds = "header_decls mt ry @ call_decls calls"
  from assms(1) obtain t where t: "build D (fold tb_declare ?ds (TemplateBuilder_new P S (ry_begin_string ry))) = Inr t"
      "encode_with D t (ry_out ry) [] [] = Inr r"
    unfolding send_eq by (auto split: sum.splits)
  note b = build_text [OF assms(2) t(1) assms(3,4)]
  have "reserve t \<le> length (ry_out ry)" using assms(5) b(2) by (simp add: reserve_def)
  from encode_with_InrD [OF t(2) b(1) this] obtain body where "template_text D t [] [] = Inr body"
      "message_of r = wire_frame (ry_begin_string ry) body" by blast
  then show ?thesis using b(3) [of "[]" "[]"] by (simp add: collectR_decl_fields template_fields_def)
qed

lemma mset_template_fields: "mset (template_fields D sl ds) = mset (concat (map (decl_fields sl) ds))"
proof -
  have "mset (concat (map g xs)) = \<Sum>\<^sub># (image_mset (\<lambda>x. mset (g x)) (mset xs))" for g :: "decl \<Rightarrow> (nat \<times> bytes) list" and xs
    by (induction xs) simp_all
  then show ?thesis by (simp add: template_fields_def)
qed








lemma plain_decls: "plain_header_tags D \<Longrightarrow> no_data D (call_decls calls) \<Longrightarrow> no_data D (header_decls mt ry @ call_decls calls)"
  by (auto simp: plain_header_tags_def no_data_def header_decls_def split: option.splits)

subsection \<open>Properties\<close>



text \<open>A handler that names \<open>369\<close> itself sends it twice: the tag is not among those the session owns, and a
  reply declares it too when the session reports the last number it processed.\<close>

theorem last_processed_goes_out_twice:
  assumes "ms_send D (fold run_call calls (ry_message P S mt ry)) = Sent r" "S \<le> U16_MAX" "plain_header_tags D"
    and "no_data D (call_decls calls)" "length (ry_begin_string ry) \<le> 32" "length (ry_begin_string ry) + 11 \<le> length (ry_out ry)"
    and "ry_last_processed ry = Some n" "CField 369 v \<in> set calls"
  shows "\<exists>fs. message_of r = wire_frame (ry_begin_string ry) (wire_body fs) \<and> 2 \<le> length (filter (\<lambda>f. fst f = 369) fs)"
proof -
  let ?ds = "header_decls mt ry @ call_decls calls"
  have d: "concat (map (decl_fields []) (call_decls (xs @ ys))) = concat (map (decl_fields []) (call_decls xs)) @ concat (map (decl_fields []) (call_decls ys))" for xs ys
    by (simp add: call_decls_def)
  obtain xs ys where "calls = xs @ CField 369 v # ys" using assms(8) split_list by metis
  then have "1 \<le> length (filter (\<lambda>f. fst f = 369) (concat (map (decl_fields []) (call_decls calls))))"
    using d [of xs "CField 369 v # ys"] by (simp add: call_decls_def call_decl_def SESSION_OWNED_def)
  moreover have "1 \<le> length (filter (\<lambda>f. fst f = 369) (concat (map (decl_fields []) (header_decls mt ry))))"
    using assms(7) by (simp add: header_decls_def split: option.split)
  ultimately have "2 \<le> length (filter (\<lambda>f. fst f = 369) (concat (map (decl_fields []) ?ds)))" by simp
  then have "2 \<le> size (filter_mset (\<lambda>f. fst f = 369) (mset (template_fields D [] ?ds)))"
    unfolding mset_template_fields mset_filter [symmetric] size_mset .
  then have "2 \<le> length (filter (\<lambda>f. fst f = 369) (template_fields D [] ?ds))" by (simp flip: mset_filter)
  then show ?thesis using sent_frame [OF assms(1,2) plain_decls [OF assms(3,4)] assms(5,6)] by blast
qed

subsection \<open>A handler that names a tag of the session\<close>










end
