(* ===== verification/File_Journal.thy ===== *)
theory File_Journal
  imports Journal Redact Le_Bytes Ring
begin

text \<open>
  The journal that survives a restart, \<open>FileJournal\<close> of \<open>crates/engine/src/journal.rs\<close>: the record format with
  its checksum, the loading of a file on opening it, and the operations. The file is its bytes: an
  append adds to the end, and a crash keeps a prefix. The lock on the file is held by the one journal
  there is, and a write of the source ignores its error; the model's writes succeed. The writer
  thread of the asynchronous mode is in \<open>File_Writer\<close>.
\<close>

unbundle bit_operations_syntax

subsection \<open>The format\<close>

datatype durability = Async | Fsync
datatype format = V0 | V1

abbreviation (input) RECORD_SEQ :: nat where "RECORD_SEQ \<equiv> 4"
abbreviation (input) RECORD_HEADER :: nat where "RECORD_HEADER \<equiv> 8"
abbreviation (input) RECORD_CRC :: nat where "RECORD_CRC \<equiv> 4"
abbreviation (input) INBOUND_MARK :: nat where "INBOUND_MARK \<equiv> 0"
abbreviation (input) ACTIVITY_MARK :: nat where "ACTIVITY_MARK \<equiv> 0"
abbreviation (input) ACTIVITY_LEN :: nat where "ACTIVITY_LEN \<equiv> 8"
abbreviation (input) OUTBOUND_LEN :: nat where "OUTBOUND_LEN \<equiv> 4"

definition HEADER_V1 :: bytes where
  "HEADER_V1 = b ''FXBJ'' @ [1]"

text \<open>CRC-32, by a table of the eight shifts of every byte.\<close>

definition crc_shift :: "32 word \<Rightarrow> 32 word" where
  "crc_shift c = (if c AND 1 = 1 then 0xEDB88320 XOR drop_bit 1 c else drop_bit 1 c)"

definition crc_table :: "32 word list" where
  "crc_table = map (\<lambda>i. (crc_shift ^^ 8) (of_nat i)) [0..<256]"

definition crc_byte :: "byte \<Rightarrow> 32 word \<Rightarrow> 32 word" where
  "crc_byte x crc = (let idx = unat ((crc XOR ucast x) AND 0xFF) in crc_table ! idx XOR drop_bit 8 crc)"

definition crc32 :: "bytes list \<Rightarrow> 32 word" where
  "crc32 parts = fold (fold crc_byte) parts 0xFFFFFFFF XOR 0xFFFFFFFF"

text \<open>The four records, before their checksum.\<close>

definition len_u32 :: "bytes \<Rightarrow> nat" where
  "len_u32 bs = (if length bs \<le> U32_MAX then length bs else 0)"

definition message_record :: "nat \<Rightarrow> bytes \<Rightarrow> bytes" where
  "message_record seq bs = to_le 4 seq @ to_le 4 (len_u32 bs) @ bs"

definition inbound_record :: "nat \<Rightarrow> bytes" where
  "inbound_record seq = to_le 4 seq @ to_le 4 0"

definition activity_record :: "nat \<Rightarrow> bytes" where
  "activity_record at_ms = to_le 4 ACTIVITY_MARK @ to_le 4 ACTIVITY_LEN @ to_le 8 at_ms"

definition outbound_mark :: "nat \<Rightarrow> bytes" where
  "outbound_mark seq = to_le 4 ACTIVITY_MARK @ to_le 4 OUTBOUND_LEN @ to_le 4 seq"

definition sealed :: "format \<Rightarrow> bytes list \<Rightarrow> bytes" where
  "sealed fmt parts = concat parts @ (if fmt = V1 then to_le 4 (unat (crc32 parts)) else [])"

definition carries_secret_at :: "bytes \<Rightarrow> nat option" where
  "carries_secret_at rec =
     (if length rec < RECORD_HEADER then None
      else let seq = from_le (take 4 rec); payload = drop RECORD_HEADER rec in
        if seq \<noteq> ACTIVITY_MARK \<and> payload \<noteq> [] \<and> carries_secret payload then Some seq else None)"

subsection \<open>Reading a file\<close>

text \<open>What loading puts back: the ring, and the last activity mark.\<close>

definition restore_record :: "nat \<Rightarrow> nat \<Rightarrow> nat \<Rightarrow> bytes \<Rightarrow> mem_journal \<times> nat option \<Rightarrow> mem_journal \<times> nat option" where
  "restore_record N LEN seq payload = (\<lambda>(mem, last_active).
     if seq = ACTIVITY_MARK \<and> length payload = ACTIVITY_LEN then (mem, Some (from_le payload))
     else if seq = ACTIVITY_MARK \<and> length payload = OUTBOUND_LEN then (mj_mark_out (from_le payload) mem, last_active)
     else if length payload = INBOUND_MARK then (mj_mark_in seq mem, last_active)
     else (snd (mj_put N LEN seq payload mem), last_active))"

record loaded =
  ld_mem :: mem_journal
  ld_last_active :: "nat option"
  ld_torn :: nat
  ld_corrupt :: nat

text \<open>Three loops of the source cut a file into records: the one that loads it, the one that opens it for a
  tool, and the iterator of that tool. Each is written out as the source has it; that they agree is
  proved. Offsets are 64-bit and a length 32-bit, so the checked additions of the source succeed.\<close>

function load_loop :: "nat \<Rightarrow> nat \<Rightarrow> format \<Rightarrow> bytes \<Rightarrow> nat \<Rightarrow> mem_journal \<times> nat option \<Rightarrow> loaded" where
  "load_loop N LEN fmt bs pos m =
     (if pos + RECORD_HEADER \<le> length bs then
        let seq = from_le (take RECORD_SEQ (drop pos bs));
            len = from_le (take 4 (drop (pos + RECORD_SEQ) bs));
            fin = pos + RECORD_HEADER + len;
            whole = (if fmt = V1 then fin + RECORD_CRC else fin) in
        if whole > length bs
        then \<lparr>ld_mem = fst m, ld_last_active = snd m, ld_torn = length bs - pos, ld_corrupt = 0\<rparr>
        else if fmt = V1 \<and> from_le (take RECORD_CRC (drop fin bs)) \<noteq> unat (crc32 [take (RECORD_HEADER + len) (drop pos bs)])
        then \<lparr>ld_mem = fst m, ld_last_active = snd m, ld_torn = length bs - pos, ld_corrupt = 1\<rparr>
        else load_loop N LEN fmt bs whole (restore_record N LEN seq (take len (drop (pos + RECORD_HEADER) bs)) m)
      else \<lparr>ld_mem = fst m, ld_last_active = snd m, ld_torn = (if pos < length bs then length bs - pos else 0), ld_corrupt = 0\<rparr>)"
  by auto
termination by (relation "measure (\<lambda>(_, _, _, bs, pos, _). length bs - pos)") auto

declare load_loop.simps [simp del]

definition has_header :: "bytes \<Rightarrow> bool" where
  "has_header bs \<longleftrightarrow> take 5 bs = HEADER_V1"

definition file_format :: "bytes \<Rightarrow> format" where
  "file_format bs = (if bs = [] \<or> has_header bs then V1 else V0)"

definition load_file :: "nat \<Rightarrow> nat \<Rightarrow> bytes \<Rightarrow> loaded" where
  "load_file N LEN bs =
     load_loop N LEN (file_format bs) bs (if file_format bs = V1 \<and> bs \<noteq> [] then 5 else 0) (MemJournal_new N LEN, None)"

subsection \<open>The reader of a tool\<close>

datatype jrec = RMessage nat bytes | RInboundMark nat | RActivityMark nat | ROutboundMark nat

fun jrec_seq :: "jrec \<Rightarrow> nat" where
  "jrec_seq (RMessage seq _) = seq"
| "jrec_seq (RInboundMark seq) = seq"
| "jrec_seq (ROutboundMark seq) = seq"
| "jrec_seq (RActivityMark _) = ACTIVITY_MARK"

record reader =
  rd_bytes :: bytes
  rd_torn :: nat
  rd_format :: format
  rd_corrupt :: nat

function reader_loop :: "format \<Rightarrow> bytes \<Rightarrow> nat \<Rightarrow> nat \<times> nat" where
  "reader_loop fmt bs pos =
     (if pos + RECORD_HEADER \<le> length bs then
        let len = from_le (take 4 (drop (pos + RECORD_SEQ) bs));
            fin = pos + RECORD_HEADER + len;
            whole = (if fmt = V1 then fin + RECORD_CRC else fin) in
        if whole > length bs then (pos, 0)
        else if fmt = V1 \<and> from_le (take RECORD_CRC (drop fin bs)) \<noteq> unat (crc32 [take (RECORD_HEADER + len) (drop pos bs)]) then (pos, 1)
        else reader_loop fmt bs whole
      else (pos, 0))"
  by auto
termination by (relation "measure (\<lambda>(_, bs, pos). length bs - pos)") auto

declare reader_loop.simps [simp del]

definition Reader_open :: "bytes \<Rightarrow> reader" where
  "Reader_open bs =
     (let fmt = (if has_header bs then V1 else V0);
          (pos, corrupt) = reader_loop fmt bs (if fmt = V1 then 5 else 0) in
      \<lparr>rd_bytes = bs, rd_torn = length bs - pos, rd_format = fmt, rd_corrupt = corrupt\<rparr>)"

definition rd_header_len :: "reader \<Rightarrow> nat" where
  "rd_header_len r = (case rd_format r of V1 \<Rightarrow> 5 | V0 \<Rightarrow> 0)"

definition rd_is_empty :: "reader \<Rightarrow> bool" where
  "rd_is_empty r \<longleftrightarrow> length (rd_bytes r) \<le> rd_header_len r \<and> rd_torn r = 0"

definition read_record :: "nat \<Rightarrow> bytes \<Rightarrow> jrec" where
  "read_record seq payload =
     (if seq = ACTIVITY_MARK \<and> length payload = ACTIVITY_LEN then RActivityMark (from_le payload)
      else if seq = ACTIVITY_MARK \<and> length payload = OUTBOUND_LEN then ROutboundMark (from_le payload)
      else if length payload = INBOUND_MARK then RInboundMark seq
      else RMessage seq payload)"

definition records_next :: "format \<Rightarrow> bytes \<Rightarrow> nat \<Rightarrow> (jrec \<times> nat) option" where
  "records_next fmt bs pos =
     (if pos + RECORD_HEADER > length bs then None
      else let seq = from_le (take RECORD_SEQ (drop pos bs));
               len = from_le (take 4 (drop (pos + RECORD_SEQ) bs));
               fin = pos + RECORD_HEADER + len;
               whole = (if fmt = V1 then fin + RECORD_CRC else fin) in
        if whole > length bs then None
        else if fmt = V1 \<and> from_le (take RECORD_CRC (drop fin bs)) \<noteq> unat (crc32 [take (RECORD_HEADER + len) (drop pos bs)]) then None
        else Some (read_record seq (take len (drop (pos + RECORD_HEADER) bs)), whole))"

function records_from :: "format \<Rightarrow> bytes \<Rightarrow> nat \<Rightarrow> jrec list" where
  "records_from fmt bs pos =
     (case records_next fmt bs pos of None \<Rightarrow> [] | Some (r, whole) \<Rightarrow> r # records_from fmt bs whole)"
  by auto
termination
  by (relation "measure (\<lambda>(_, bs, pos). length bs - pos)") (auto simp: records_next_def Let_def split: if_splits)

declare records_from.simps [simp del]

definition rd_records :: "reader \<Rightarrow> jrec list" where
  "rd_records r = records_from (rd_format r) (rd_bytes r) (if rd_format r = V1 then 5 else 0)"


subsection \<open>The journal\<close>

text \<open>What the engine has told the writer thread, and its place in the process-wide count of retired
  writers.\<close>

datatype told = Running | Retired | RetiredStopWhenDry | Finished | FinishedUnretired

abbreviation (input) STOP :: byte where "STOP \<equiv> 0xFF"

text \<open>\<open>fj_file\<close>, \<open>fj_to_writer\<close> and \<open>fj_writer\<close> say that the journal holds the file, the producer's end and the
  thread; \<open>fj_disk\<close> is the file's content and \<open>fj_ring\<close> the ring to the writer. \<open>fj_waiting\<close> and \<open>fj_acts\<close> are
  the two process-wide counts.\<close>

record file_journal =
  fj_mem :: mem_journal
  fj_how :: durability
  fj_file :: bool
  fj_to_writer :: bool
  fj_writer :: bool
  fj_told :: told
  fj_torn :: nat
  fj_last_active :: "nat option"
  fj_format :: format
  fj_unwritten :: nat
  fj_released :: bool
  fj_corrupt :: nat
  fj_disk :: bytes
  fj_ring :: ring
  fj_waiting :: nat
  fj_acts :: nat

definition FileJournal_open :: "nat \<Rightarrow> nat \<Rightarrow> durability \<Rightarrow> bytes \<Rightarrow> file_journal" where
  "FileJournal_open N LEN how bs =
     (let l = load_file N LEN bs in
      \<lparr>fj_mem = ld_mem l, fj_how = how, fj_file = (how = Fsync), fj_to_writer = (how = Async), fj_writer = (how = Async),
       fj_told = Running, fj_torn = ld_torn l, fj_last_active = ld_last_active l, fj_format = file_format bs, fj_unwritten = 0,
       fj_released = False, fj_corrupt = ld_corrupt l, fj_disk = (if bs = [] then HEADER_V1 else bs), fj_ring = rg_pair (2 ^ 20),
       fj_waiting = 0, fj_acts = 0\<rparr>)"

text \<open>A record to the writer, or into the file.\<close>

definition fj_push :: "bytes list \<Rightarrow> file_journal \<Rightarrow> file_journal" where
  "fj_push parts j =
     (if fj_to_writer j
      then case rg_push parts (fj_ring j) of (ok, r) \<Rightarrow> (if ok then j\<lparr>fj_ring := r\<rparr> else j\<lparr>fj_ring := r, fj_unwritten := fj_unwritten j + 1\<rparr>)
      else j)"

definition fj_append :: "bytes list \<Rightarrow> file_journal \<Rightarrow> file_journal" where
  "fj_append parts j = (if fj_file j then j\<lparr>fj_disk := fj_disk j @ sealed (fj_format j) parts\<rparr> else j)"

definition fj_put :: "nat \<Rightarrow> nat \<Rightarrow> nat \<Rightarrow> bytes \<Rightarrow> file_journal \<Rightarrow> bool \<times> file_journal" where
  "fj_put N LEN seq bs j =
     (let (held, mem) = mj_put N LEN seq bs (fj_mem j); j = j\<lparr>fj_mem := mem\<rparr> in
      if \<not> held then (False, j)
      else (True, case fj_how j of
          Async \<Rightarrow> fj_push [to_le 4 seq, to_le 4 (len_u32 bs), bs] j
        | Fsync \<Rightarrow> if carries_secret bs then fj_append [outbound_mark seq] j
                  else fj_append [to_le 4 seq @ to_le 4 (len_u32 bs), bs] j))"

definition fj_mark_active :: "nat \<Rightarrow> file_journal \<Rightarrow> file_journal" where
  "fj_mark_active at_ms j =
     (let j = j\<lparr>fj_last_active := Some at_ms\<rparr> in
      case fj_how j of
        Async \<Rightarrow> fj_push [to_le 4 ACTIVITY_MARK, to_le 4 ACTIVITY_LEN, to_le 8 at_ms] j
      | Fsync \<Rightarrow> fj_append [activity_record at_ms] j)"

definition fj_mark_in :: "nat \<Rightarrow> file_journal \<Rightarrow> file_journal" where
  "fj_mark_in seq j =
     (let j = j\<lparr>fj_mem := mj_mark_in seq (fj_mem j)\<rparr> in
      case fj_how j of Async \<Rightarrow> fj_push [to_le 4 seq, to_le 4 0] j | Fsync \<Rightarrow> fj_append [inbound_record seq] j)"

definition fj_mark_out :: "nat \<Rightarrow> file_journal \<Rightarrow> file_journal" where
  "fj_mark_out seq j =
     (if (case mj_highest_out (fj_mem j) of Some h \<Rightarrow> h \<ge> seq | None \<Rightarrow> False) then j
      else let j = j\<lparr>fj_mem := mj_mark_out seq (fj_mem j)\<rparr> in
        case fj_how j of Async \<Rightarrow> fj_push [outbound_mark seq] j | Fsync \<Rightarrow> fj_append [outbound_mark seq] j)"

definition ticket_retire :: "bool \<Rightarrow> file_journal \<Rightarrow> bool \<times> file_journal" where
  "ticket_retire stop_pushed j =
     (let j = j\<lparr>fj_waiting := fj_waiting j + 1\<rparr> in
      if fj_told j \<noteq> Running
      then let j = j\<lparr>fj_waiting := fj_waiting j - 1\<rparr> in
        (False, if fj_told j = FinishedUnretired then j\<lparr>fj_told := Finished, fj_acts := fj_acts j + 1\<rparr> else j)
      else (True, j\<lparr>fj_told := (if stop_pushed then Retired else RetiredStopWhenDry), fj_acts := fj_acts j + 1\<rparr>))"

definition ticket_finish :: "file_journal \<Rightarrow> file_journal" where
  "ticket_finish j =
     (case fj_told j of
        Running \<Rightarrow> j\<lparr>fj_told := FinishedUnretired\<rparr>
      | Retired \<Rightarrow> j\<lparr>fj_told := Finished, fj_waiting := fj_waiting j - 1\<rparr>
      | RetiredStopWhenDry \<Rightarrow> j\<lparr>fj_told := Finished, fj_waiting := fj_waiting j - 1\<rparr>
      | _ \<Rightarrow> j)"

text \<open>Retiring: the one push of the stop record, and then what the writer is told.\<close>

definition fj_retire_push :: "file_journal \<Rightarrow> bool \<times> file_journal" where
  "fj_retire_push j = (if fj_to_writer j then (case rg_push [[STOP]] (fj_ring j) of (ok, r) \<Rightarrow> (ok, j\<lparr>fj_ring := r\<rparr>)) else (False, j))"

definition fj_retire_told :: "bool \<Rightarrow> file_journal \<Rightarrow> file_journal" where
  "fj_retire_told pushed j = (snd (ticket_retire pushed j))\<lparr>fj_writer := False, fj_to_writer := False\<rparr>"

definition fj_retire :: "file_journal \<Rightarrow> file_journal" where
  "fj_retire j = (if \<not> fj_writer j then j else (case fj_retire_push j of (pushed, j) \<Rightarrow> fj_retire_told pushed j))"

definition FileJournal :: "nat \<Rightarrow> nat \<Rightarrow> file_journal journal" where
  "FileJournal N LEN = \<lparr>j_put = fj_put N LEN, j_get = (\<lambda>j. mj_get N (fj_mem j)), j_highest = (\<lambda>j. mj_highest (fj_mem j)),
     j_oldest = (\<lambda>j. mj_oldest N (fj_mem j)), j_mark_in = fj_mark_in, j_mark_active = fj_mark_active, j_last_active = fj_last_active,
     j_retire = fj_retire, j_unwritten = fj_unwritten, j_highest_in = (\<lambda>j. mj_highest_in (fj_mem j)), j_mark_out = fj_mark_out,
     j_highest_out = (\<lambda>j. mj_highest_out (fj_mem j))\<rparr>"

subsection \<open>What a session needs of a journal\<close>

lemma fj_push_mem [simp]: "fj_mem (fj_push ps j) = fj_mem j" "fj_last_active (fj_push ps j) = fj_last_active j" "fj_how (fj_push ps j) = fj_how j"
    "fj_format (fj_push ps j) = fj_format j" "fj_file (fj_push ps j) = fj_file j"
  by (simp_all add: fj_push_def split: prod.split)

lemma fj_append_mem [simp]: "fj_mem (fj_append ps j) = fj_mem j" "fj_last_active (fj_append ps j) = fj_last_active j" "fj_how (fj_append ps j) = fj_how j"
    "fj_format (fj_append ps j) = fj_format j" "fj_file (fj_append ps j) = fj_file j"
  by (simp_all add: fj_append_def)

lemma fj_put_mem: "fj_put N LEN seq bs j = (r, j') \<Longrightarrow> mj_put N LEN seq bs (fj_mem j) = (r, fj_mem j') \<and> fj_last_active j' = fj_last_active j"
  by (auto simp: fj_put_def Let_def split: prod.splits if_splits durability.splits)

lemma fj_marks_mem [simp]:
  "fj_mem (fj_mark_in seq j) = mj_mark_in seq (fj_mem j)" "fj_mem (fj_mark_active t j) = fj_mem j"
  "fj_last_active (fj_mark_in seq j) = fj_last_active j" "fj_last_active (fj_mark_active t j) = Some t" "fj_last_active (fj_mark_out seq j) = fj_last_active j"
  by (simp_all add: fj_mark_in_def fj_mark_active_def fj_mark_out_def Let_def split: durability.split)

text \<open>The guard of \<open>mark_out\<close> only saves a write.\<close>

lemma fj_mark_out_mem [simp]: "fj_mem (fj_mark_out seq j) = mj_mark_out seq (fj_mem j)"
  by (auto simp: fj_mark_out_def mj_mark_out_def raise_mark_def Let_def max_def split: durability.split option.splits)

lemma fj_put_refused: "fj_put N LEN seq bs j = (False, j') \<Longrightarrow> j' = j"
  by (auto simp: fj_put_def Let_def split: prod.splits if_splits dest!: mj_put_refused)

lemma mj_high_marks:
  "mj_highest_out (mj_mark_out seq m) = raise_mark (mj_highest_out m) seq" "mj_highest_in (mj_mark_in seq m) = raise_mark (mj_highest_in m) seq"
  "mj_highest_out (mj_mark_in seq m) = mj_highest_out m" "mj_highest_in (mj_mark_out seq m) = mj_highest_in m"
  by (simp_all add: mj_mark_out_def mj_mark_in_def)

interpretation file_journal: marked_journal "FileJournal N LEN" for N LEN
proof unfold_locales
  fix seq bs j j' r n
  assume "j_put (FileJournal N LEN) seq bs j = (r, j')" "n \<noteq> seq"
  then show "j_get (FileJournal N LEN) j' n = None \<or> j_get (FileJournal N LEN) j' n = j_get (FileJournal N LEN) j n"
    using mj_get_put_other fj_put_mem by (simp add: FileJournal_def) blast
qed (auto simp: FileJournal_def mj_get_put mj_put_high mj_high_marks dest: fj_put_mem fj_put_refused)


subsection \<open>One cut\<close>

text \<open>What the three loops do at an offset: there is no record left, the file ends inside it, its checksum is
  wrong, or it is whole.\<close>

datatype record_cut = NoHeader | TornRecord | BadCrc | WholeRecord nat bytes nat

definition cut_record :: "format \<Rightarrow> bytes \<Rightarrow> nat \<Rightarrow> record_cut" where
  "cut_record fmt bs pos =
     (if pos + RECORD_HEADER > length bs then NoHeader
      else let seq = from_le (take RECORD_SEQ (drop pos bs));
               len = from_le (take 4 (drop (pos + RECORD_SEQ) bs));
               fin = pos + RECORD_HEADER + len;
               whole = (if fmt = V1 then fin + RECORD_CRC else fin) in
        if whole > length bs then TornRecord
        else if fmt = V1 \<and> from_le (take RECORD_CRC (drop fin bs)) \<noteq> unat (crc32 [take (RECORD_HEADER + len) (drop pos bs)]) then BadCrc
        else WholeRecord seq (take len (drop (pos + RECORD_HEADER) bs)) whole)"

lemma cut_record_advances: "cut_record fmt bs pos = WholeRecord seq payload whole \<Longrightarrow> pos < whole \<and> whole \<le> length bs"
  by (auto simp: cut_record_def Let_def split: if_splits)

lemma load_loop_cut:
  "load_loop N LEN fmt bs pos m =
     (case cut_record fmt bs pos of
        NoHeader \<Rightarrow> \<lparr>ld_mem = fst m, ld_last_active = snd m, ld_torn = (if pos < length bs then length bs - pos else 0), ld_corrupt = 0\<rparr>
      | TornRecord \<Rightarrow> \<lparr>ld_mem = fst m, ld_last_active = snd m, ld_torn = length bs - pos, ld_corrupt = 0\<rparr>
      | BadCrc \<Rightarrow> \<lparr>ld_mem = fst m, ld_last_active = snd m, ld_torn = length bs - pos, ld_corrupt = 1\<rparr>
      | WholeRecord seq payload whole \<Rightarrow> load_loop N LEN fmt bs whole (restore_record N LEN seq payload m))"
  by (subst load_loop.simps) (simp add: cut_record_def Let_def)

lemma load_loop_induct [case_names 1]:
  assumes "\<And>N LEN fmt bs pos m. (\<And>seq payload whole. cut_record fmt bs pos = WholeRecord seq payload whole \<Longrightarrow>
      P N LEN fmt bs whole (restore_record N LEN seq payload m)) \<Longrightarrow> P N LEN fmt bs pos m"
  shows "P N LEN fmt bs pos m"
proof (induction "length bs - pos" arbitrary: pos m rule: less_induct)
  case less
  show ?case by (rule assms, rule less) (auto dest: cut_record_advances)
qed

lemma reader_loop_cut:
  "reader_loop fmt bs pos =
     (case cut_record fmt bs pos of WholeRecord _ _ whole \<Rightarrow> reader_loop fmt bs whole | BadCrc \<Rightarrow> (pos, 1) | _ \<Rightarrow> (pos, 0))"
  by (subst reader_loop.simps) (simp add: cut_record_def Let_def)

lemma records_next_cut:
  "records_next fmt bs pos =
     (case cut_record fmt bs pos of WholeRecord seq payload whole \<Rightarrow> Some (read_record seq payload, whole) | _ \<Rightarrow> None)"
  by (simp add: records_next_def cut_record_def Let_def)

subsection \<open>Records and their bytes\<close>

lemma crc32_concat: "crc32 ps = crc32 [concat ps]"
proof -
  have "fold (fold crc_byte) ps c = fold crc_byte (concat ps) c" for c by (induction ps arbitrary: c) simp_all
  then show ?thesis by (simp add: crc32_def)
qed

lemma sealed_concat: "sealed fmt ps = sealed fmt [concat ps]"
  using crc32_concat [of ps] by (simp add: sealed_def)

definition wire_record :: "format \<Rightarrow> nat \<Rightarrow> bytes \<Rightarrow> bytes" where
  "wire_record fmt seq payload = sealed fmt [to_le 4 seq @ to_le 4 (length payload) @ payload]"

lemma length_wire_record: "length (wire_record fmt seq payload) = 8 + length payload + (if fmt = V1 then 4 else 0)"
  by (simp add: wire_record_def sealed_def)

lemma word_le_4: "unat (w :: 32 word) mod 256 ^ 4 = unat w"
proof -
  have "unat w < 2 ^ LENGTH(32)" by (rule unsigned_less)
  then show ?thesis by simp
qed

text \<open>A record in front of anything is cut whole.\<close>

lemma cut_whole:
  assumes "seq \<le> U32_MAX" "length payload \<le> U32_MAX"
  shows "cut_record fmt (pre @ wire_record fmt seq payload @ post) (length pre) =
    WholeRecord seq payload (length pre + length (wire_record fmt seq payload))"
proof -
  have m: "seq mod 256 ^ 4 = seq" "length payload mod 256 ^ 4 = length payload" using assms by simp_all
  show ?thesis using m word_le_4
    by (simp add: cut_record_def Let_def length_wire_record) (simp add: wire_record_def sealed_def)
qed

text \<open>A record the file ends in is not.\<close>

lemma cut_torn:
  assumes "length payload \<le> U32_MAX" "part = take n (wire_record fmt seq payload)"
    and "length part + length app < length (wire_record fmt seq payload)" "length part < 8 \<longrightarrow> app = []"
  shows "cut_record fmt (pre @ part @ app) (length pre) = (if length part < 8 then NoHeader else TornRecord)"
proof (cases "length part < 8")
  case True
  then show ?thesis using assms(4) by (simp add: cut_record_def)
next
  case False
  have m: "length payload mod 256 ^ 4 = length payload" using assms(1) by simp
  obtain rest where r: "wire_record fmt seq payload = to_le 4 seq @ to_le 4 (length payload) @ rest" by (simp add: wire_record_def sealed_def)
  have "8 \<le> n" using False assms(2) by simp
  then have "part = to_le 4 seq @ to_le 4 (length payload) @ take (n - 8) rest" using assms(2) r by simp
  then show ?thesis using assms(3) m by (cases fmt) (simp_all add: cut_record_def Let_def length_wire_record)
qed


subsection \<open>Files\<close>

text \<open>A file is its records, each a number and a payload.\<close>

definition raw_ok :: "nat \<times> bytes \<Rightarrow> bool" where
  "raw_ok r \<longleftrightarrow> fst r \<le> U32_MAX \<and> length (snd r) \<le> U32_MAX"

definition raw_record :: "format \<Rightarrow> nat \<times> bytes \<Rightarrow> bytes" where
  "raw_record fmt r = wire_record fmt (fst r) (snd r)"

definition raw_file :: "format \<Rightarrow> (nat \<times> bytes) list \<Rightarrow> bytes" where
  "raw_file fmt rs = concat (map (raw_record fmt) rs)"

lemma raw_file_simps [simp]: "raw_file fmt [] = []" "raw_file fmt (r # rs) = raw_record fmt r @ raw_file fmt rs"
    "raw_file fmt (rs @ rs') = raw_file fmt rs @ raw_file fmt rs'"
  by (simp_all add: raw_file_def)

lemma length_raw_record: "8 \<le> length (raw_record fmt r)"
  by (simp add: raw_record_def length_wire_record)

definition restore :: "nat \<Rightarrow> nat \<Rightarrow> (nat \<times> bytes) list \<Rightarrow> mem_journal \<times> nat option \<Rightarrow> mem_journal \<times> nat option" where
  "restore N LEN rs m = fold (\<lambda>r. restore_record N LEN (fst r) (snd r)) rs m"

abbreviation restored :: "nat \<Rightarrow> nat \<Rightarrow> (nat \<times> bytes) list \<Rightarrow> mem_journal \<times> nat option" where
  "restored N LEN rs \<equiv> restore N LEN rs (MemJournal_new N LEN, None)"

text \<open>Loading and reading go through the records of a file in order, whatever follows them.\<close>

lemma load_raw:
  "list_all raw_ok rs \<Longrightarrow>
   load_loop N LEN fmt (pre @ raw_file fmt rs @ post) (length pre) m =
   load_loop N LEN fmt (pre @ raw_file fmt rs @ post) (length (pre @ raw_file fmt rs)) (restore N LEN rs m)"
proof (induction rs arbitrary: pre m)
  case (Cons r rs)
  then have "cut_record fmt (pre @ raw_record fmt r @ raw_file fmt rs @ post) (length pre) =
      WholeRecord (fst r) (snd r) (length pre + length (raw_record fmt r))"
    using cut_whole [of "fst r" "snd r" fmt pre "raw_file fmt rs @ post"] by (simp add: raw_ok_def raw_record_def)
  then have "load_loop N LEN fmt (pre @ raw_file fmt (r # rs) @ post) (length pre) m =
      load_loop N LEN fmt (pre @ raw_file fmt (r # rs) @ post) (length (pre @ raw_record fmt r)) (restore_record N LEN (fst r) (snd r) m)"
    by (subst load_loop_cut) simp
  then show ?case using Cons.IH [of "pre @ raw_record fmt r" "restore_record N LEN (fst r) (snd r) m"] Cons.prems by (simp add: restore_def)
qed (simp add: restore_def)

lemma records_raw:
  "list_all raw_ok rs \<Longrightarrow>
   records_from fmt (pre @ raw_file fmt rs @ post) (length pre) =
   map (\<lambda>r. read_record (fst r) (snd r)) rs @ records_from fmt (pre @ raw_file fmt rs @ post) (length (pre @ raw_file fmt rs))"
proof (induction rs arbitrary: pre)
  case (Cons r rs)
  then have "cut_record fmt (pre @ raw_record fmt r @ raw_file fmt rs @ post) (length pre) =
      WholeRecord (fst r) (snd r) (length pre + length (raw_record fmt r))"
    using cut_whole [of "fst r" "snd r" fmt pre "raw_file fmt rs @ post"] by (simp add: raw_ok_def raw_record_def)
  then have "records_from fmt (pre @ raw_file fmt (r # rs) @ post) (length pre) =
      read_record (fst r) (snd r) # records_from fmt (pre @ raw_file fmt (r # rs) @ post) (length (pre @ raw_record fmt r))"
    by (subst records_from.simps) (simp add: records_next_cut)
  then show ?case using Cons.IH [of "pre @ raw_record fmt r"] Cons.prems by simp
qed simp

text \<open>A whole record is the bytes it was written as.\<close>

lemma to_from_le: "to_le (length bs) (from_le bs) = bs"
proof (induction bs)
  case (Cons x bs)
  have "(unat x + 256 * from_le bs) mod 256 = unat x" "(unat x + 256 * from_le bs) div 256 = from_le bs" using byte_bound [of x] by simp_all
  then show ?case using Cons by simp
qed simp

lemma from_le_inj: "length xs = length ys \<Longrightarrow> from_le xs = from_le ys \<Longrightarrow> xs = ys"
  by (metis to_from_le)

lemma from_le_4: "length xs = 4 \<Longrightarrow> from_le xs \<le> U32_MAX \<and> to_le 4 (from_le xs) = xs"
  using from_le_bound [of xs] to_from_le [of xs] by simp

lemma cut_record_wire:
  assumes "cut_record fmt bs pos = WholeRecord seq payload whole"
  shows "drop pos bs = raw_record fmt (seq, payload) @ drop whole bs" "raw_ok (seq, payload)"
proof -
  define sq where "sq = take 4 (drop pos bs)"
  define ln where "ln = take 4 (drop (pos + 4) bs)"
  define len where "len = from_le ln"
  have le: "pos + 8 \<le> length bs" and w: "whole = pos + 8 + len + (if fmt = V1 then 4 else 0)" "whole \<le> length bs"
    and p: "seq = from_le sq" "payload = take len (drop (pos + 8) bs)"
    and crc: "fmt = V1 \<Longrightarrow> from_le (take 4 (drop (pos + 8 + len) bs)) = unat (crc32 [take (8 + len) (drop pos bs)])"
    using assms by (auto simp: cut_record_def Let_def sq_def ln_def len_def split: if_splits)
  have l: "length sq = 4" "length ln = 4" "length payload = len" using le w p(2) by (simp_all add: sq_def ln_def split: if_splits)
  have h: "to_le 4 seq = sq" "to_le 4 (length payload) = ln" "seq \<le> U32_MAX" "len \<le> U32_MAX"
    using from_le_4 [OF l(1)] from_le_4 [OF l(2)] p(1) l(3) by (simp_all add: len_def)
  have "drop pos bs = take (8 + len) (drop pos bs) @ drop (pos + 8 + len) bs"
    using append_take_drop_id [of "8 + len" "drop pos bs"] by (simp add: add.commute add.left_commute)
  moreover have b: "take (8 + len) (drop pos bs) = sq @ ln @ payload"
  proof -
    have "take (8 + len) (drop pos bs) = take 4 (drop pos bs) @ take 4 (drop 4 (drop pos bs)) @ take len (drop 8 (drop pos bs))"
      using take_add [of 4 "4 + len" "drop pos bs"] take_add [of 4 len "drop 4 (drop pos bs)"] by (simp add: add.assoc)
    then show ?thesis by (simp add: sq_def ln_def p(2) add.commute)
  qed
  moreover have "drop (pos + 8 + len) bs = (if fmt = V1 then to_le 4 (unat (crc32 [sq @ ln @ payload])) else []) @ drop whole bs"
  proof (cases "fmt = V1")
    case True
    have "length (take 4 (drop (pos + 8 + len) bs)) = 4" using True w by simp
    from from_le_4 [OF this] have "take 4 (drop (pos + 8 + len) bs) = to_le 4 (unat (crc32 [sq @ ln @ payload]))"
      using crc [OF True] b by simp
    then show ?thesis using True w(1) append_take_drop_id [of 4 "drop (pos + 8 + len) bs"] by (simp add: add.commute)
  next
    case False
    then show ?thesis using w(1) by simp
  qed
  ultimately show "drop pos bs = raw_record fmt (seq, payload) @ drop whole bs" by (simp add: raw_record_def wire_record_def sealed_def h)
  show "raw_ok (seq, payload)" using h l(3) by (simp add: raw_ok_def)
qed

text \<open>A file in which nothing is torn is its records.\<close>

lemma whole_raw:
  "pos \<le> length bs \<Longrightarrow> ld_torn (load_loop N LEN fmt bs pos m) = 0 \<Longrightarrow>
   \<exists>rs. list_all raw_ok rs \<and> drop pos bs = raw_file fmt rs \<and>
     load_loop N LEN fmt bs pos m = \<lparr>ld_mem = fst (restore N LEN rs m), ld_last_active = snd (restore N LEN rs m), ld_torn = 0, ld_corrupt = 0\<rparr>"
proof (induction N LEN fmt bs pos m rule: load_loop_induct)
  case (1 N LEN fmt bs pos m)
  show ?case
  proof (cases "cut_record fmt bs pos")
    case NoHeader
    then have "pos = length bs" using "1.prems" by (auto simp: load_loop_cut [of N LEN fmt bs pos m] split: if_splits)
    then have "load_loop N LEN fmt bs pos m = \<lparr>ld_mem = fst m, ld_last_active = snd m, ld_torn = 0, ld_corrupt = 0\<rparr>"
      using NoHeader by (subst load_loop_cut) simp
    then show ?thesis using \<open>pos = length bs\<close> by (intro exI [of _ "[]"]) (simp add: restore_def)
  next
    case (WholeRecord seq payload whole)
    then have step: "load_loop N LEN fmt bs pos m = load_loop N LEN fmt bs whole (restore_record N LEN seq payload m)"
      by (simp add: load_loop_cut [of N LEN fmt bs pos m])
    obtain rs where "list_all raw_ok rs" "drop whole bs = raw_file fmt rs"
        "load_loop N LEN fmt bs whole (restore_record N LEN seq payload m) =
           \<lparr>ld_mem = fst (restore N LEN rs (restore_record N LEN seq payload m)), ld_last_active = snd (restore N LEN rs (restore_record N LEN seq payload m)),
            ld_torn = 0, ld_corrupt = 0\<rparr>"
      using "1.IH" [OF WholeRecord] "1.prems" step cut_record_advances [OF WholeRecord] by auto
    then show ?thesis using cut_record_wire [OF WholeRecord] step by (intro exI [of _ "(seq, payload) # rs"]) (simp add: restore_def)
  qed (use "1.prems" in \<open>auto simp: load_loop_cut [of N LEN fmt bs pos m] cut_record_def Let_def split: if_splits\<close>)
qed

lemma header_length: "length HEADER_V1 = 5"
  by (simp add: HEADER_V1_def b_def)

text \<open>How a file begins: with the header, or with a record that does not look like one.\<close>

definition file_start :: "format \<Rightarrow> bytes \<Rightarrow> (nat \<times> bytes) list \<Rightarrow> bool" where
  "file_start fmt hdr rs \<longleftrightarrow> fmt = V1 \<and> hdr = HEADER_V1 \<or> fmt = V0 \<and> hdr = [] \<and> rs \<noteq> [] \<and> \<not> has_header (raw_file V0 rs)"

lemma file_start_more: "file_start fmt hdr rs \<Longrightarrow> file_start fmt hdr (rs @ rs')"
proof -
  have "8 \<le> length (raw_file V0 rs)" if "rs \<noteq> []" using that length_raw_record [of V0 "hd rs"] by (cases rs) auto
  then show "file_start fmt hdr rs \<Longrightarrow> file_start fmt hdr (rs @ rs')" by (auto simp: file_start_def has_header_def)
qed

lemma file_start_load:
  assumes "file_start fmt hdr rs"
  shows "file_format (hdr @ raw_file fmt rs @ post) = fmt" "hdr @ raw_file fmt rs @ post \<noteq> []"
    "load_file N LEN (hdr @ raw_file fmt rs @ post) = load_loop N LEN fmt (hdr @ raw_file fmt rs @ post) (length hdr) (MemJournal_new N LEN, None)"
    "length hdr = (if fmt = V1 then 5 else 0)"
proof -
  have l: "8 \<le> length (raw_file V0 rs)" if "rs \<noteq> []" using that length_raw_record [of V0 "hd rs"] by (cases rs) auto
  have ne: "HEADER_V1 \<noteq> []" using header_length by auto
  show f: "file_format (hdr @ raw_file fmt rs @ post) = fmt" and n: "hdr @ raw_file fmt rs @ post \<noteq> []" and
    h: "length hdr = (if fmt = V1 then 5 else 0)"
    using assms l header_length ne by (auto simp: file_start_def file_format_def has_header_def)
  show "load_file N LEN (hdr @ raw_file fmt rs @ post) = load_loop N LEN fmt (hdr @ raw_file fmt rs @ post) (length hdr) (MemJournal_new N LEN, None)"
    using f n h by (simp add: load_file_def)
qed

subsection \<open>Operations and their records\<close>

text \<open>The operations a session may do to a journal: numbers of 32 bits, a message under a number that is not
  zero, a time of 64 bits.\<close>

fun op_ok :: "journal_op \<Rightarrow> bool" where
  "op_ok (Put seq bs) \<longleftrightarrow> 0 < seq \<and> seq \<le> U32_MAX \<and> bs \<noteq> [] \<and> length bs \<le> U32_MAX"
| "op_ok (MarkIn seq) \<longleftrightarrow> seq \<le> U32_MAX"
| "op_ok (MarkOut seq) \<longleftrightarrow> seq \<le> U32_MAX"
| "op_ok (MarkActive t) \<longleftrightarrow> t \<le> U64_MAX"

text \<open>A message that carries a secret is kept as the mark of its number.\<close>

fun redacted :: "journal_op \<Rightarrow> journal_op" where
  "redacted (Put seq bs) = (if carries_secret bs then MarkOut seq else Put seq bs)"
| "redacted p = p"

fun op_parts :: "journal_op \<Rightarrow> nat \<times> bytes" where
  "op_parts (Put seq bs) = (seq, bs)"
| "op_parts (MarkIn seq) = (seq, [])"
| "op_parts (MarkOut seq) = (ACTIVITY_MARK, to_le 4 seq)"
| "op_parts (MarkActive t) = (ACTIVITY_MARK, to_le 8 t)"

definition op_record :: "format \<Rightarrow> journal_op \<Rightarrow> bytes" where
  "op_record fmt p = raw_record fmt (op_parts p)"

fun replay_op :: "nat \<Rightarrow> nat \<Rightarrow> journal_op \<Rightarrow> mem_journal \<times> nat option \<Rightarrow> mem_journal \<times> nat option" where
  "replay_op N LEN (Put seq bs) m = (snd (mj_put N LEN seq bs (fst m)), snd m)"
| "replay_op N LEN (MarkIn seq) m = (mj_mark_in seq (fst m), snd m)"
| "replay_op N LEN (MarkOut seq) m = (mj_mark_out seq (fst m), snd m)"
| "replay_op N LEN (MarkActive t) m = (fst m, Some t)"

fun op_jrec :: "journal_op \<Rightarrow> jrec" where
  "op_jrec (Put seq bs) = RMessage seq bs"
| "op_jrec (MarkIn seq) = RInboundMark seq"
| "op_jrec (MarkOut seq) = ROutboundMark seq"
| "op_jrec (MarkActive t) = RActivityMark t"

lemma op_parts_bounds: "op_ok p \<Longrightarrow> op_parts p = (seq, payload) \<Longrightarrow> seq \<le> U32_MAX \<and> length payload \<le> U32_MAX"
  by (cases p) auto

lemma op_parts_back:
  assumes "op_ok p" "op_parts p = (seq, payload)"
  shows "restore_record N LEN seq payload m = replay_op N LEN p m" "read_record seq payload = op_jrec p"
proof -
  have "restore_record N LEN (fst (op_parts p)) (snd (op_parts p)) m = replay_op N LEN p m"
    using assms(1) by (cases p; cases m) (simp_all add: restore_record_def)
  then show "restore_record N LEN seq payload m = replay_op N LEN p m" using assms(2) by simp
  have "read_record (fst (op_parts p)) (snd (op_parts p)) = op_jrec p"
    using assms(1) by (cases p) (simp_all add: read_record_def)
  then show "read_record seq payload = op_jrec p" using assms(2) by simp
qed

lemma redacted_ok: "op_ok p \<Longrightarrow> op_ok (redacted p)"
  by (cases p) auto

lemma length_op_record: "8 \<le> length (op_record fmt p)"
  by (simp add: op_record_def length_raw_record)

lemma cut_op:
  assumes "op_ok p"
  shows "\<exists>seq payload. op_parts p = (seq, payload) \<and>
    cut_record fmt (pre @ op_record fmt p @ post) (length pre) = WholeRecord seq payload (length pre + length (op_record fmt p))"
proof -
  obtain seq payload where s: "op_parts p = (seq, payload)" by fastforce
  show ?thesis using cut_whole [of seq payload fmt pre post] op_parts_bounds [OF assms s] s by (simp add: op_record_def raw_record_def)
qed

definition file_of :: "format \<Rightarrow> journal_op list \<Rightarrow> bytes" where
  "file_of fmt ps = raw_file fmt (map op_parts ps)"

lemma file_of_simps [simp]: "file_of fmt [] = []" "file_of fmt (p # ps) = op_record fmt p @ file_of fmt ps" "file_of fmt (ps @ qs) = file_of fmt ps @ file_of fmt qs"
  by (simp_all add: file_of_def op_record_def)

lemma parts_ok: "op_ok p \<Longrightarrow> raw_ok (op_parts p)"
  using op_parts_bounds [of p] by (cases "op_parts p") (simp add: raw_ok_def)

lemma all_parts_ok: "list_all op_ok ps \<Longrightarrow> list_all raw_ok (map op_parts ps)"
  by (simp add: list_all_iff parts_ok)

lemma restore_ops: "list_all op_ok ps \<Longrightarrow> restore N LEN (map op_parts ps) m = fold (replay_op N LEN) ps m"
proof (induction ps arbitrary: m)
  case (Cons p ps)
  then have "restore_record N LEN (fst (op_parts p)) (snd (op_parts p)) m = replay_op N LEN p m"
    using op_parts_back(1) [of p "fst (op_parts p)" "snd (op_parts p)"] by simp
  then show ?case using Cons by (simp add: restore_def)
qed (simp add: restore_def)

lemma load_ops:
  "list_all op_ok ps \<Longrightarrow>
   load_loop N LEN fmt (pre @ file_of fmt ps @ post) (length pre) m =
   load_loop N LEN fmt (pre @ file_of fmt ps @ post) (length (pre @ file_of fmt ps)) (fold (replay_op N LEN) ps m)"
  using load_raw [of "map op_parts ps" N LEN fmt pre post m] by (simp add: file_of_def all_parts_ok restore_ops)


subsection \<open>A file cut anywhere\<close>

lemma cut_raw_torn:
  assumes "raw_ok w" "r + length app < length (raw_record fmt w)" "r < 8 \<longrightarrow> app = []"
  shows "cut_record fmt (pre @ take r (raw_record fmt w) @ app) (length pre) = (if r < 8 then NoHeader else TornRecord)"
  using cut_torn [of "snd w" "take r (raw_record fmt w)" r fmt "fst w" app pre] assms by (simp add: raw_ok_def raw_record_def)

text \<open>Loading a file that ends in a part of a record, with whatever was appended to the part.\<close>

lemma load_torn:
  assumes "file_start fmt hdr rs" "list_all raw_ok rs" "raw_ok w" "r + length app < length (raw_record fmt w)" "r < 8 \<longrightarrow> app = []"
  shows "load_file N LEN (hdr @ raw_file fmt rs @ take r (raw_record fmt w) @ app) =
    \<lparr>ld_mem = fst (restored N LEN rs), ld_last_active = snd (restored N LEN rs), ld_torn = r + length app, ld_corrupt = 0\<rparr>"
  using load_raw [OF assms(2), of N LEN fmt hdr "take r (raw_record fmt w) @ app"] file_start_load(3) [OF assms(1)]
    cut_raw_torn [OF assms(3-5), of "hdr @ raw_file fmt rs"] assms(4,5)
  by (auto simp: load_loop_cut [of N LEN fmt _ "length hdr + length (raw_file fmt rs)"])

lemma load_nothing: "load_loop N LEN fmt pre (length pre) m = \<lparr>ld_mem = fst m, ld_last_active = snd m, ld_torn = 0, ld_corrupt = 0\<rparr>"
  by (subst load_loop_cut) (simp add: cut_record_def)

lemma load_whole:
  assumes "file_start fmt hdr rs" "list_all raw_ok rs"
  shows "load_file N LEN (hdr @ raw_file fmt rs) =
     \<lparr>ld_mem = fst (restored N LEN rs), ld_last_active = snd (restored N LEN rs), ld_torn = 0, ld_corrupt = 0\<rparr>"
  using load_raw [OF assms(2), of N LEN fmt hdr "[]"] load_nothing [of N LEN fmt "hdr @ raw_file fmt rs"] file_start_load(3) [OF assms(1), of N LEN "[]"]
  by simp

lemma start_v1: "file_start V1 HEADER_V1 rs"
  by (simp add: file_start_def)

lemma load_file_v1: "load_file N LEN (HEADER_V1 @ bs) = load_loop N LEN V1 (HEADER_V1 @ bs) (length HEADER_V1) (MemJournal_new N LEN, None)"
  using file_start_load(3) [OF start_v1 [of "[]"], of N LEN bs] by simp

abbreviation replayed :: "nat \<Rightarrow> nat \<Rightarrow> journal_op list \<Rightarrow> mem_journal \<times> nat option" where
  "replayed N LEN ps \<equiv> fold (replay_op N LEN) ps (MemJournal_new N LEN, None)"


subsection \<open>What an operation leaves on disk\<close>

fun fj_writes :: "nat \<Rightarrow> nat \<Rightarrow> journal_op \<Rightarrow> file_journal \<Rightarrow> journal_op list" where
  "fj_writes N LEN (Put seq bs) j = (if fst (mj_put N LEN seq bs (fj_mem j)) then [redacted (Put seq bs)] else [])"
| "fj_writes N LEN (MarkOut seq) j =
     (if (case mj_highest_out (fj_mem j) of Some h \<Rightarrow> h \<ge> seq | None \<Rightarrow> False) then [] else [MarkOut seq])"
| "fj_writes N LEN p j = [p]"

abbreviation fj_op :: "nat \<Rightarrow> nat \<Rightarrow> journal_op \<Rightarrow> file_journal \<Rightarrow> file_journal" where
  "fj_op N LEN \<equiv> apply_op (FileJournal N LEN)"

lemma append_record:
  "op_ok p \<Longrightarrow> concat parts = concat [to_le 4 (fst (op_parts p)), to_le 4 (length (snd (op_parts p))), snd (op_parts p)] \<Longrightarrow> sealed fmt parts = op_record fmt p"
  by (subst sealed_concat) (simp add: op_record_def raw_record_def wire_record_def)

lemma fsync_appends:
  assumes "fj_how j = Fsync" "fj_file j" "op_ok p"
  shows "fj_disk (fj_op N LEN p j) = fj_disk j @ file_of (fj_format j) (fj_writes N LEN p j) \<and>
    fj_how (fj_op N LEN p j) = Fsync \<and> fj_file (fj_op N LEN p j) \<and> fj_format (fj_op N LEN p j) = fj_format j"
proof (cases p)
  case (Put seq bs)
  have m: "sealed fmt [to_le 4 seq @ to_le 4 (len_u32 bs), bs] = op_record fmt (Put seq bs)"
    "sealed fmt [outbound_mark seq] = op_record fmt (MarkOut seq)" for fmt
    using assms(3) Put by (intro append_record; simp add: len_u32_def outbound_mark_def)+
  show ?thesis using assms(1,2) Put m
    by (auto simp: FileJournal_def fj_put_def fj_append_def Let_def split: prod.split)
next
  case (MarkIn seq)
  have "sealed fmt [inbound_record seq] = op_record fmt (MarkIn seq)" for fmt
    using assms(3) MarkIn by (intro append_record) (simp_all add: inbound_record_def)
  then show ?thesis using assms(1,2) MarkIn by (simp add: FileJournal_def fj_mark_in_def fj_append_def)
next
  case (MarkOut seq)
  have "sealed fmt [outbound_mark seq] = op_record fmt (MarkOut seq)" for fmt
    using assms(3) MarkOut by (intro append_record) (simp_all add: outbound_mark_def)
  then show ?thesis using assms(1,2) MarkOut by (simp add: FileJournal_def fj_mark_out_def fj_append_def)
next
  case (MarkActive t)
  have "sealed fmt [activity_record t] = op_record fmt (MarkActive t)" for fmt
    using assms(3) MarkActive by (intro append_record) (simp_all add: activity_record_def)
  then show ?thesis using assms(1,2) MarkActive by (simp add: FileJournal_def fj_mark_active_def fj_append_def)
qed

text \<open>The memory after an operation is that of the operation replayed.\<close>

lemma fj_op_mem: "(fj_mem (fj_op N LEN p j), fj_last_active (fj_op N LEN p j)) = replay_op N LEN p (fj_mem j, fj_last_active j)"
proof (cases p)
  case (Put seq bs)
  then show ?thesis using fj_put_mem [of N LEN seq bs j] by (cases "fj_put N LEN seq bs j") (simp add: FileJournal_def)
qed (simp_all add: FileJournal_def)


subsection \<open>A restart\<close>

text \<open>What a session resumes from: the two counts and the time of the last activity. (A message with a
  secret is in memory and not in the file, so the rings may differ.)\<close>

definition same_numbers :: "mem_journal \<times> nat option \<Rightarrow> mem_journal \<times> nat option \<Rightarrow> bool" where
  "same_numbers x y \<longleftrightarrow> length (mj_slots (fst x)) = length (mj_slots (fst y)) \<and> mj_highest_in (fst x) = mj_highest_in (fst y) \<and>
     mj_highest_out (fst x) = mj_highest_out (fst y) \<and> snd x = snd y"

lemma mj_put_same:
  assumes "length (mj_slots m) = length (mj_slots m')"
  shows "fst (mj_put N LEN seq bs m) = fst (mj_put N LEN seq bs m')" "length (mj_slots (snd (mj_put N LEN seq bs m))) = length (mj_slots m)"
    "mj_highest_in (snd (mj_put N LEN seq bs m)) = mj_highest_in m"
    "mj_highest_out (snd (mj_put N LEN seq bs m)) = (if fst (mj_put N LEN seq bs m) then raise_mark (mj_highest_out m) seq else mj_highest_out m)"
  using assms by (auto simp: mj_put_def nth_opt_def split: option.splits)

lemma marks_slots [simp]: "mj_slots (mj_mark_in seq m) = mj_slots m" "mj_slots (mj_mark_out seq m) = mj_slots m"
  by (simp_all add: mj_mark_in_def mj_mark_out_def)

lemma mark_out_guarded: "mj_highest_out m = Some h \<Longrightarrow> seq \<le> h \<Longrightarrow> mj_mark_out seq m = m"
  by (simp add: mj_mark_out_def raise_mark_def max_def)

lemma writes_agree:
  assumes "same_numbers x (fj_mem j, fj_last_active j)"
  shows "same_numbers (fold (replay_op N LEN) (fj_writes N LEN p j) x) (replay_op N LEN p (fj_mem j, fj_last_active j))"
proof (cases p)
  case (Put seq bs)
  have "length (mj_slots (fst x)) = length (mj_slots (fj_mem j))" using assms by (simp add: same_numbers_def)
  from mj_put_same [OF this, of N LEN seq bs] mj_put_same [OF this [symmetric], of N LEN seq bs] show ?thesis
    using assms Put by (simp add: same_numbers_def mj_high_marks)
next
  case (MarkOut seq)
  then show ?thesis using assms mark_out_guarded [of "fj_mem j" _ seq]
    by (auto simp: same_numbers_def mj_high_marks raise_mark_def split: option.splits)
qed (use assms in \<open>simp_all add: same_numbers_def mj_high_marks\<close>)

fun op_secret :: "journal_op \<Rightarrow> bool" where
  "op_secret (Put seq bs) = carries_secret bs"
| "op_secret p = False"

lemma writes_exact:
  assumes "\<not> op_secret p"
  shows "fold (replay_op N LEN) (fj_writes N LEN p j) (fj_mem j, fj_last_active j) = replay_op N LEN p (fj_mem j, fj_last_active j)"
proof (cases p)
  case (Put seq bs)
  then show ?thesis using assms mj_put_refused [of N LEN seq bs "fj_mem j"] by (cases "mj_put N LEN seq bs (fj_mem j)") auto
next
  case (MarkOut seq)
  then show ?thesis using mark_out_guarded [of "fj_mem j" _ seq] by (auto split: option.splits)
qed simp_all

lemma writes_ok: "op_ok p \<Longrightarrow> list_all op_ok (fj_writes N LEN p j)"
  by (cases p) auto

text \<open>A synchronous journal whose file is whole.\<close>

definition fsync_clean :: "nat \<Rightarrow> nat \<Rightarrow> file_journal \<Rightarrow> bytes \<Rightarrow> (nat \<times> bytes) list \<Rightarrow> bool" where
  "fsync_clean N LEN j hdr rs \<longleftrightarrow> fj_how j = Fsync \<and> fj_file j \<and> file_start (fj_format j) hdr rs \<and> list_all raw_ok rs \<and>
     fj_disk j = hdr @ raw_file (fj_format j) rs \<and> same_numbers (restored N LEN rs) (fj_mem j, fj_last_active j)"

abbreviation fj_raw :: "nat \<Rightarrow> nat \<Rightarrow> journal_op \<Rightarrow> file_journal \<Rightarrow> (nat \<times> bytes) list" where
  "fj_raw N LEN p j \<equiv> map op_parts (fj_writes N LEN p j)"

lemma restored_more: "op_ok p \<Longrightarrow> restored N LEN (rs @ fj_raw N LEN p j) = fold (replay_op N LEN) (fj_writes N LEN p j) (restored N LEN rs)"
  using restore_ops [OF writes_ok [of p N LEN j], of N LEN] by (simp add: restore_def)

lemma clean_op:
  assumes "fsync_clean N LEN j hdr rs" "op_ok p"
  shows "fsync_clean N LEN (fj_op N LEN p j) hdr (rs @ fj_raw N LEN p j)"
  using assms fsync_appends [of j p N LEN] writes_agree [of "restored N LEN rs" j N LEN p] fj_op_mem [of N LEN p j]
    all_parts_ok [OF writes_ok, of p N LEN j] restored_more [of p N LEN rs j] file_start_more [of "fj_format j" hdr rs]
  by (simp add: fsync_clean_def file_of_def)

lemma exact_op:
  assumes "restored N LEN rs = (fj_mem j, fj_last_active j)" "\<not> op_secret p" "op_ok p"
  shows "restored N LEN (rs @ fj_raw N LEN p j) = (fj_mem (fj_op N LEN p j), fj_last_active (fj_op N LEN p j))"
  using assms writes_exact [of p N LEN j] fj_op_mem [of N LEN p j] restored_more [of p N LEN rs j] by simp

lemma open_loads:
  "fj_last_active (FileJournal_open N LEN how bs) = ld_last_active (load_file N LEN bs)" "fj_torn (FileJournal_open N LEN how bs) = ld_torn (load_file N LEN bs)"
  "fj_corrupt (FileJournal_open N LEN how bs) = ld_corrupt (load_file N LEN bs)" "fj_mem (FileJournal_open N LEN how bs) = ld_mem (load_file N LEN bs)"
  "fj_format (FileJournal_open N LEN how bs) = file_format bs"
  "fj_disk (FileJournal_open N LEN how bs) = (if bs = [] then HEADER_V1 else bs)"
  by (simp_all add: FileJournal_open_def Let_def)

lemma restored_slots: "length (mj_slots (fst (restored N LEN rs))) = length (mj_slots (MemJournal_new N LEN))"
proof -
  have "length (mj_slots (fst (restore_record N LEN s p m))) = length (mj_slots (fst m))" for s p m
    using mj_put_same(2) [OF refl, of N LEN s p "fst m"] by (cases m) (simp add: restore_record_def)
  then have "length (mj_slots (fst (restore N LEN rs m))) = length (mj_slots (fst m))" for m
    by (induction rs arbitrary: m) (simp_all add: restore_def)
  then show ?thesis by simp
qed

text \<open>A journal opened on a file in which nothing is torn (a new file among them) starts clean.\<close>

lemma opened_clean:
  assumes "fj_torn (FileJournal_open N LEN Fsync bs) = 0"
  shows "\<exists>hdr rs. fsync_clean N LEN (FileJournal_open N LEN Fsync bs) hdr rs \<and>
    restored N LEN rs = (fj_mem (FileJournal_open N LEN Fsync bs), fj_last_active (FileJournal_open N LEN Fsync bs)) \<and>
    (bs \<noteq> [] \<longrightarrow> bs = hdr @ raw_file (file_format bs) rs) \<and> (bs = [] \<longrightarrow> rs = [])"
proof (cases "bs = []")
  case True
  have "load_file N LEN [] = \<lparr>ld_mem = MemJournal_new N LEN, ld_last_active = None, ld_torn = 0, ld_corrupt = 0\<rparr>"
    using load_nothing [of N LEN V1 "[]"] by (simp add: load_file_def file_format_def)
  then show ?thesis using True start_v1
    by (intro exI [of _ HEADER_V1] exI [of _ "[]"]) (simp add: fsync_clean_def FileJournal_open_def file_format_def same_numbers_def restore_def)
next
  case False
  define fmt where "fmt = file_format bs"
  define pos :: nat where "pos = (if fmt = V1 then 5 else 0)"
  define hdr where "hdr = take pos bs"
  have l: "load_file N LEN bs = load_loop N LEN fmt bs pos (MemJournal_new N LEN, None)"
    using False by (simp add: load_file_def fmt_def pos_def)
  have h: "fmt = V1 \<longleftrightarrow> has_header bs" using False by (simp add: fmt_def file_format_def)
  then have le: "pos \<le> length bs"
    using header_length by (auto simp: pos_def has_header_def dest!: arg_cong [where f = length] split: if_splits)
  have "ld_torn (load_loop N LEN fmt bs pos (MemJournal_new N LEN, None)) = 0" using assms l by (simp add: open_loads)
  from whole_raw [OF le this] obtain rs where rs: "list_all raw_ok rs" "drop pos bs = raw_file fmt rs"
      "load_file N LEN bs = \<lparr>ld_mem = fst (restored N LEN rs), ld_last_active = snd (restored N LEN rs), ld_torn = 0, ld_corrupt = 0\<rparr>"
    using l by auto
  have bs: "hdr @ raw_file fmt rs = bs" using rs(2) append_take_drop_id [of pos bs] by (metis hdr_def)
  have start: "file_start fmt hdr rs"
  proof (cases fmt)
    case V0
    then have "hdr = []" "raw_file V0 rs = bs" "\<not> has_header bs" using h bs by (auto simp: hdr_def pos_def)
    then show ?thesis using V0 False by (auto simp: file_start_def)
  next
    case V1
    then show ?thesis using h by (simp add: file_start_def hdr_def pos_def has_header_def)
  qed
  have o: "fj_how (FileJournal_open N LEN Fsync bs) = Fsync" "fj_file (FileJournal_open N LEN Fsync bs)"
    by (simp_all add: FileJournal_open_def Let_def)
  have "fsync_clean N LEN (FileJournal_open N LEN Fsync bs) hdr rs"
    unfolding fsync_clean_def open_loads fmt_def [symmetric] using o start rs(1,3) bs False restored_slots [of N LEN rs] by (simp add: same_numbers_def)
  moreover have "restored N LEN rs = (fj_mem (FileJournal_open N LEN Fsync bs), fj_last_active (FileJournal_open N LEN Fsync bs))"
    unfolding open_loads using rs(3) by simp
  moreover have "bs = hdr @ raw_file (file_format bs) rs" using bs unfolding fmt_def by (rule sym)
  ultimately show ?thesis using False by (intro exI [of _ hdr] exI [of _ rs] conjI impI) simp_all
qed

text \<open>The journal opened on a file, after some operations.\<close>

abbreviation fsync_from :: "nat \<Rightarrow> nat \<Rightarrow> bytes \<Rightarrow> journal_op list \<Rightarrow> file_journal" where
  "fsync_from N LEN bs ps \<equiv> fold (fj_op N LEN) ps (FileJournal_open N LEN Fsync bs)"

abbreviation fsync_after :: "nat \<Rightarrow> nat \<Rightarrow> journal_op list \<Rightarrow> file_journal" where
  "fsync_after N LEN ps \<equiv> fsync_from N LEN [] ps"

lemma new_file: "fj_torn (FileJournal_open N LEN how []) = 0"
  using load_nothing [of N LEN V1 "[]"] by (simp add: open_loads load_file_def file_format_def)

fun jrec_secret :: "jrec \<Rightarrow> bool" where
  "jrec_secret (RMessage _ bs) = carries_secret bs"
| "jrec_secret _ = False"

abbreviation no_secrets :: "(nat \<times> bytes) list \<Rightarrow> bool" where
  "no_secrets rs \<equiv> list_all (\<lambda>r. \<not> jrec_secret (read_record (fst r) (snd r))) rs"

lemma writes_no_secret: "op_ok p \<Longrightarrow> no_secrets (fj_raw N LEN p j)"
  by (cases p) (auto simp: op_parts_back(2) read_record_def)

lemma fsync_run:
  assumes "fsync_clean N LEN j hdr rs" "list_all op_ok ps"
  shows "\<exists>rs'. fsync_clean N LEN (fold (fj_op N LEN) ps j) hdr (rs @ rs') \<and> no_secrets rs' \<and>
    (list_all (\<lambda>p. \<not> op_secret p) ps \<and> restored N LEN rs = (fj_mem j, fj_last_active j) \<longrightarrow>
     restored N LEN (rs @ rs') = (fj_mem (fold (fj_op N LEN) ps j), fj_last_active (fold (fj_op N LEN) ps j)))"
  using assms
proof (induction ps arbitrary: j rs)
  case Nil
  then show ?case by (intro exI [of _ "[]"]) simp
next
  case (Cons p ps)
  then have "fsync_clean N LEN (fj_op N LEN p j) hdr (rs @ fj_raw N LEN p j)" using clean_op by simp
  then obtain rs' where rs': "fsync_clean N LEN (fold (fj_op N LEN) ps (fj_op N LEN p j)) hdr ((rs @ fj_raw N LEN p j) @ rs')" "no_secrets rs'"
      "list_all (\<lambda>p. \<not> op_secret p) ps \<and> restored N LEN (rs @ fj_raw N LEN p j) = (fj_mem (fj_op N LEN p j), fj_last_active (fj_op N LEN p j)) \<longrightarrow>
       restored N LEN ((rs @ fj_raw N LEN p j) @ rs') = (fj_mem (fold (fj_op N LEN) ps (fj_op N LEN p j)), fj_last_active (fold (fj_op N LEN) ps (fj_op N LEN p j)))"
    using Cons.IH [of "fj_op N LEN p j" "rs @ fj_raw N LEN p j"] Cons.prems(2) by auto
  then show ?case using exact_op [of N LEN rs j p] writes_no_secret [of p N LEN j] Cons.prems(2)
    by (intro exI [of _ "fj_raw N LEN p j @ rs'"]) simp
qed

lemma fsync_from_clean:
  assumes "fj_torn (FileJournal_open N LEN Fsync bs) = 0" "list_all op_ok ps"
  shows "\<exists>hdr rs. fsync_clean N LEN (fsync_from N LEN bs ps) hdr rs"
  using opened_clean [OF assms(1)] fsync_run [OF _ assms(2)] by blast


text \<open>Opening a whole file gives the replayed state, and every continuation of it.\<close>

abbreviation fj_numbers :: "file_journal \<Rightarrow> nat option \<times> nat option \<times> nat option" where
  "fj_numbers j \<equiv> (mj_highest_out (fj_mem j), mj_highest_in (fj_mem j), fj_last_active j)"

lemma clean_numbers: "fsync_clean N LEN j hdr rs \<Longrightarrow>
    fj_numbers j = (mj_highest_out (fst (restored N LEN rs)), mj_highest_in (fst (restored N LEN rs)), snd (restored N LEN rs))"
  by (simp add: fsync_clean_def same_numbers_def)

lemma clean_reopened:
  assumes "fsync_clean N LEN j hdr rs"
  shows "fj_numbers (FileJournal_open N LEN how (fj_disk j)) = fj_numbers j" "fj_torn (FileJournal_open N LEN how (fj_disk j)) = 0"
    "fj_corrupt (FileJournal_open N LEN how (fj_disk j)) = 0" "fj_mem (FileJournal_open N LEN how (fj_disk j)) = fst (restored N LEN rs)"
  using assms load_whole [of "fj_format j" hdr rs N LEN] clean_numbers [OF assms] by (simp_all add: fsync_clean_def open_loads)

text \<open>What the reader of a tool lists of such a file.\<close>

lemma records_end: "records_from fmt bs (length bs) = []"
  by (subst records_from.simps) (simp add: records_next_def)

lemma reader_raw:
  assumes "file_start fmt hdr rs" "list_all raw_ok rs"
  shows "rd_records (Reader_open (hdr @ raw_file fmt rs)) = map (\<lambda>r. read_record (fst r) (snd r)) rs"
proof -
  have "has_header (hdr @ raw_file fmt rs) \<longleftrightarrow> fmt = V1"
    using file_start_load(1,2) [OF assms(1), of "[]"] by (auto simp: file_format_def split: if_splits)
  then have "rd_format (Reader_open (hdr @ raw_file fmt rs)) = fmt" "rd_bytes (Reader_open (hdr @ raw_file fmt rs)) = hdr @ raw_file fmt rs"
    by (cases fmt; simp add: Reader_open_def Let_def split: prod.split)+
  then show ?thesis using records_raw [OF assms(2), of fmt hdr "[]"] file_start_load(4) [OF assms(1)]
      records_end [of fmt "hdr @ raw_file fmt rs"] by (simp add: rd_records_def)
qed

text \<open>C16: A journal that syncs every write survives a restart. Open a journal on any file in which nothing is
  torn (a file that is new, or one an earlier run left whole, in either format) and do any operations to it, on a disk that
  takes every write: opening its file again gives the counts of both directions and the last
  activity it had, with nothing torn and nothing corrupt; and when no message of these operations
  carried a secret, it gives back the very same ring of messages. A message that
  carries a secret never reaches the file: if no message in it did before, none does after.\<close>

theorem restart_restores_journal:
  assumes "fj_torn (FileJournal_open N LEN Fsync bs) = 0" "list_all op_ok ps"
  shows "let j = fsync_from N LEN bs ps; j' = FileJournal_open N LEN how (fj_disk j) in
     fj_numbers j' = fj_numbers j \<and> fj_torn j' = 0 \<and> fj_corrupt j' = 0 \<and>
     (list_all (\<lambda>p. \<not> op_secret p) ps \<longrightarrow> fj_mem j' = fj_mem j) \<and>
     (list_all (\<lambda>r. \<not> jrec_secret r) (rd_records (Reader_open bs)) \<longrightarrow> list_all (\<lambda>r. \<not> jrec_secret r) (rd_records (Reader_open (fj_disk j))))"
proof -
  define j0 where "j0 = FileJournal_open N LEN Fsync bs"
  obtain hdr rs where c0: "fsync_clean N LEN j0 hdr rs" "restored N LEN rs = (fj_mem j0, fj_last_active j0)"
      "bs \<noteq> [] \<longrightarrow> bs = hdr @ raw_file (file_format bs) rs" "bs = [] \<longrightarrow> rs = []"
    using opened_clean [OF assms(1)] unfolding j0_def by blast
  obtain rs' where c: "fsync_clean N LEN (fold (fj_op N LEN) ps j0) hdr (rs @ rs')" "no_secrets rs'"
      "list_all (\<lambda>p. \<not> op_secret p) ps \<Longrightarrow>
       restored N LEN (rs @ rs') = (fj_mem (fold (fj_op N LEN) ps j0), fj_last_active (fold (fj_op N LEN) ps j0))"
    using fsync_run [OF c0(1) assms(2)] c0(2) by blast
  have old: "no_secrets rs" if "list_all (\<lambda>r. \<not> jrec_secret r) (rd_records (Reader_open bs))"
  proof (cases "bs = []")
    case False
    have "fj_format j0 = file_format bs" by (simp add: j0_def open_loads)
    then have "rd_records (Reader_open bs) = map (\<lambda>r. read_record (fst r) (snd r)) rs"
      using reader_raw [of "file_format bs" hdr rs] c0(1,3) False by (simp add: fsync_clean_def)
    then show ?thesis using that by (simp add: list.pred_map comp_def)
  qed (use c0(4) in simp)
  have new: "rd_records (Reader_open (fj_disk (fold (fj_op N LEN) ps j0))) = map (\<lambda>r. read_record (fst r) (snd r)) (rs @ rs')"
    using reader_raw [of _ hdr "rs @ rs'"] c(1) by (simp add: fsync_clean_def)
  show ?thesis using clean_reopened [OF c(1), of how] c(2,3) old new by (simp add: Let_def j0_def [symmetric] list.pred_map comp_def)
qed

lemma writes_at_most_one: "length (fj_writes N LEN p j) \<le> 1"
  by (cases p) auto

lemma crash_clean:
  assumes c: "fsync_clean N LEN j hdr rs" and "op_ok p" and k: "length (fj_disk j) \<le> k"
  shows "let j' = FileJournal_open N LEN how (take k (fj_disk (fj_op N LEN p j))) in
     fj_numbers j' \<in> {fj_numbers j, fj_numbers (fj_op N LEN p j)} \<and> fj_corrupt j' = 0"
proof -
  define ws where "ws = fj_raw N LEN p j"
  have c': "fsync_clean N LEN (fj_op N LEN p j) hdr (rs @ ws)" unfolding ws_def using clean_op [OF c assms(2)] .
  have f: "fj_format (fj_op N LEN p j) = fj_format j" using fsync_appends [of j p N LEN] c assms(2) by (simp add: fsync_clean_def)
  have d: "fj_disk j = hdr @ raw_file (fj_format j) rs" "fj_disk (fj_op N LEN p j) = hdr @ raw_file (fj_format j) rs @ raw_file (fj_format j) ws"
    using c c' f by (simp_all add: fsync_clean_def)
  show ?thesis
  proof (cases "length (fj_disk (fj_op N LEN p j)) \<le> k")
    case True
    then show ?thesis using clean_reopened [OF c', of how] by (simp add: Let_def)
  next
    case False
    then obtain w where w: "ws = [w]" using d k writes_at_most_one [of N LEN p j] by (cases ws) (auto simp: ws_def)
    define r where "r = k - length (fj_disk j)"
    have "take k (fj_disk (fj_op N LEN p j)) = hdr @ raw_file (fj_format j) rs @ take r (raw_record (fj_format j) w) @ []" "r < length (raw_record (fj_format j) w)"
      using k d w False by (auto simp: r_def)
    moreover have "raw_ok w" using c' w by (simp add: fsync_clean_def)
    ultimately have "load_file N LEN (take k (fj_disk (fj_op N LEN p j))) =
        \<lparr>ld_mem = fst (restored N LEN rs), ld_last_active = snd (restored N LEN rs), ld_torn = r, ld_corrupt = 0\<rparr>"
      using load_torn [of "fj_format j" hdr rs w r "[]" N LEN] c by (simp add: fsync_clean_def)
    then show ?thesis using clean_numbers [OF c] by (simp add: Let_def open_loads)
  qed
qed

text \<open>C17: A crash loses at most the operation it interrupts. Open a journal on any file in which nothing is
  torn, do any operations to it, and cut its file anywhere in the bytes of the last one: opening what
  is left gives the counts and the last activity from before that operation or from after it,
  nothing else, and reports no corruption.\<close>

theorem crash_loses_at_most_one_operation:
  assumes "fj_torn (FileJournal_open N LEN Fsync bs) = 0" "list_all op_ok ps" "op_ok p" "length (fj_disk (fsync_from N LEN bs ps)) \<le> k"
  shows "let j = FileJournal_open N LEN how (take k (fj_disk (fsync_from N LEN bs (ps @ [p])))) in
     fj_numbers j \<in> {fj_numbers (fsync_from N LEN bs ps), fj_numbers (fsync_from N LEN bs (ps @ [p]))} \<and> fj_corrupt j = 0"
proof -
  obtain hdr rs where "fsync_clean N LEN (fsync_from N LEN bs ps) hdr rs" using fsync_from_clean [OF assms(1,2)] by blast
  from crash_clean [OF this assms(3,4), of how] show ?thesis by simp
qed

end
