(* ===== verification/File_Reader.thy ===== *)
theory File_Reader
  imports File_Journal
begin

text \<open>
  What the file format of \<open>File_Journal\<close> gives: the reader of a tool and the recovery of the engine see the same
  records; the checksum notices every changed byte; and what is appended behind a torn record is lost.
\<close>

unbundle bit_operations_syntax

subsection \<open>Two readers\<close>

fun restore_jrec :: "nat \<Rightarrow> nat \<Rightarrow> jrec \<Rightarrow> mem_journal \<times> nat option \<Rightarrow> mem_journal \<times> nat option" where
  "restore_jrec N LEN (RMessage seq bs) m = (snd (mj_put N LEN seq bs (fst m)), snd m)"
| "restore_jrec N LEN (RInboundMark seq) m = (mj_mark_in seq (fst m), snd m)"
| "restore_jrec N LEN (ROutboundMark seq) m = (mj_mark_out seq (fst m), snd m)"
| "restore_jrec N LEN (RActivityMark t) m = (fst m, Some t)"

lemma restore_read: "restore_record N LEN seq payload m = restore_jrec N LEN (read_record seq payload) m"
  by (cases m) (simp add: restore_record_def read_record_def)

lemma readers_agree:
  "pos \<le> length bs \<Longrightarrow>
   load_loop N LEN fmt bs pos m =
     \<lparr>ld_mem = fst (fold (restore_jrec N LEN) (records_from fmt bs pos) m), ld_last_active = snd (fold (restore_jrec N LEN) (records_from fmt bs pos) m),
      ld_torn = length bs - fst (reader_loop fmt bs pos), ld_corrupt = snd (reader_loop fmt bs pos)\<rparr>"
proof (induction N LEN fmt bs pos m rule: load_loop_induct)
  case (1 N LEN fmt bs pos m)
  show ?case
  proof (cases "cut_record fmt bs pos")
    case (WholeRecord seq payload whole)
    then have "load_loop N LEN fmt bs pos m = load_loop N LEN fmt bs whole (restore_record N LEN seq payload m)" by (subst load_loop_cut) simp
    moreover have "records_from fmt bs pos = read_record seq payload # records_from fmt bs whole"
      using WholeRecord by (subst records_from.simps) (simp add: records_next_cut)
    moreover have "reader_loop fmt bs pos = reader_loop fmt bs whole" using WholeRecord by (subst reader_loop_cut) simp
    ultimately show ?thesis using "1.IH" [OF WholeRecord] cut_record_advances [OF WholeRecord] by (simp add: restore_read)
  qed (use "1.prems" in \<open>simp_all add: load_loop_cut [of N LEN fmt bs pos m] records_from.simps [of fmt bs pos] reader_loop_cut [of fmt bs pos] records_next_cut\<close>)
qed

text \<open>C20: A tool and a restart read the same file alike. The engine's loading of a file, the loop that opens a
  file for \<open>jrnl\<close> and the iterator over its records are three loops with checks of their own: on any bytes
  whatever, the records that \<open>jrnl\<close> lists are exactly those the engine puts back into its ring on
  opening the file, in that order, and the tool reports the same torn bytes and the same
  corruption as the engine does.\<close>

theorem reader_agrees_with_recovery:
  "let r = Reader_open bs; l = load_file N LEN bs in
     (ld_mem l, ld_last_active l) = fold (restore_jrec N LEN) (rd_records r) (MemJournal_new N LEN, None) \<and>
     rd_torn r = ld_torn l \<and> rd_corrupt r = ld_corrupt l"
proof (cases "bs = []")
  case True
  have "cut_record fmt [] 0 = NoHeader" for fmt by (simp add: cut_record_def)
  then show ?thesis using True
    by (simp add: Reader_open_def rd_records_def load_file_def has_header_def HEADER_V1_def b_def Let_def
        load_loop_cut [of _ _ _ _ 0] records_from.simps [of _ _ 0] reader_loop_cut [of _ _ 0] records_next_cut)
next
  case False
  define fmt where "fmt = (if has_header bs then V1 else V0)"
  define pos :: nat where "pos = (if fmt = V1 then 5 else 0)"
  have le: "pos \<le> length bs"
    using header_length by (auto simp: pos_def fmt_def has_header_def dest!: arg_cong [where f = length] split: if_splits)
  have l: "load_file N LEN bs = load_loop N LEN fmt bs pos (MemJournal_new N LEN, None)"
    using False by (simp add: load_file_def file_format_def fmt_def pos_def)
  have r: "Reader_open bs = \<lparr>rd_bytes = bs, rd_torn = length bs - fst (reader_loop fmt bs pos), rd_format = fmt, rd_corrupt = snd (reader_loop fmt bs pos)\<rparr>"
    by (simp add: Reader_open_def Let_def fmt_def [symmetric] pos_def [symmetric] split: prod.split)
  show ?thesis using readers_agree [OF le, of N LEN fmt "(MemJournal_new N LEN, None)"]
    by (simp add: l r rd_records_def pos_def [symmetric])
qed

subsection \<open>The checksum\<close>

lemma crc_shift_alt: "crc_shift c = (if odd c then 0xEDB88320 else 0) XOR drop_bit 1 c"
  by (simp add: crc_shift_def and_one_eq odd_iff_mod_2_eq_one)

lemma crc_shift_xor: "crc_shift (a XOR c) = crc_shift a XOR crc_shift c"
  by (cases "odd a"; cases "odd c") (simp_all add: crc_shift_alt even_xor_iff ac_simps xor.left_commute)

lemma xor_zero: "(a :: 32 word) XOR c = 0 \<Longrightarrow> a = c"
  by (metis xor_self_eq xor.right_neutral xor.assoc)

lemma crc_shift_0:
  assumes "crc_shift a = 0"
  shows "a = 0"
proof (cases "odd a")
  case True
  then have "0xEDB88320 XOR drop_bit 1 a = 0" using assms by (simp add: crc_shift_alt)
  then have "0xEDB88320 = drop_bit 1 a" by (rule xor_zero)
  then have "bit (drop_bit 1 a) 31 \<longleftrightarrow> bit (0xEDB88320 :: 32 word) 31" by (simp only:)
  moreover have "\<not> bit (drop_bit 1 a) 31" using bit_imp_le_length [of a 32] by (auto simp: bit_drop_bit_eq)
  moreover have "bit (0xEDB88320 :: 32 word) 31" by code_simp
  ultimately show ?thesis by blast
next
  case False
  then have z: "drop_bit 1 a = 0" using assms by (simp add: crc_shift_alt)
  have "\<not> bit a n" for n
  proof (cases n)
    case 0
    then show ?thesis using False by (simp add: bit_0)
  next
    case (Suc m)
    have "\<not> bit (drop_bit 1 a) m" using z by simp
    then show ?thesis using Suc by (simp add: bit_drop_bit_eq)
  qed
  then show ?thesis by (simp add: bit_eq_iff)
qed

lemma crc_shifts_xor: "(crc_shift ^^ n) (a XOR c) = (crc_shift ^^ n) a XOR (crc_shift ^^ n) c"
  by (induction n) (simp_all add: crc_shift_xor)

lemma crc_shifts_inj: "(crc_shift ^^ n) a = (crc_shift ^^ n) c \<Longrightarrow> a = c"
proof -
  assume "(crc_shift ^^ n) a = (crc_shift ^^ n) c"
  then have "(crc_shift ^^ n) (a XOR c) = 0" by (simp add: crc_shifts_xor)
  moreover have "(crc_shift ^^ n) v = 0 \<Longrightarrow> v = 0" for v by (induction n) (auto dest: crc_shift_0)
  ultimately show "a = c" using xor_zero by blast
qed

text \<open>Eight shifts of a word whose low byte is clear only move it.\<close>

lemma crc_shifts_clear: "(\<And>i. i < n \<Longrightarrow> \<not> bit a i) \<Longrightarrow> (crc_shift ^^ n) a = drop_bit n a"
proof (induction n)
  case (Suc n)
  have "\<not> odd (drop_bit n a)" using Suc.prems [of n] by (simp add: bit_iff_odd_drop_bit)
  then have "crc_shift (drop_bit n a) = drop_bit 1 (drop_bit n a)" by (simp add: crc_shift_alt)
  then show ?case using Suc by simp
qed simp

text \<open>The table is eight shifts at once: the checksum is the one that takes every bit in turn.\<close>

lemma crc_byte_shifts: "crc_byte x c = (crc_shift ^^ 8) (c XOR ucast x)"
proof -
  define v :: "32 word" where "v = c XOR ucast x"
  have m: "(0xFF :: 32 word) = semiring_bit_operations_class.mask 8" by (simp add: mask_eq_exp_minus_1)
  have "unat (v AND 0xFF) = take_bit 8 (unat v)" by (simp add: m take_bit_eq_mask [symmetric] unsigned_take_bit_eq)
  then have "unat (v AND 0xFF) < 256" using take_bit_nat_less_exp [of 8 "unat v"] by simp
  then have "crc_table ! unat (v AND 0xFF) = (crc_shift ^^ 8) (v AND 0xFF)" by (simp add: crc_table_def)
  moreover have "(crc_shift ^^ 8) (v AND NOT 0xFF) = drop_bit 8 (v AND NOT 0xFF)"
    by (rule crc_shifts_clear) (simp add: m bit_simps)
  moreover have "drop_bit 8 (v AND NOT 0xFF) = drop_bit 8 c"
    by (rule bit_eqI) (auto simp: m v_def bit_simps dest: bit_imp_le_length)
  moreover have "v = (v AND 0xFF) XOR (v AND NOT 0xFF)"
    by (rule bit_eqI) (auto simp: m bit_simps)
  ultimately show ?thesis using crc_shifts_xor [of 8 "v AND 0xFF" "v AND NOT 0xFF"] by (simp add: crc_byte_def v_def [symmetric])
qed


lemma xor_cancel: "(a :: 32 word) XOR z = c XOR z \<Longrightarrow> a = c"
proof -
  assume "a XOR z = c XOR z"
  then have "(a XOR z) XOR z = (c XOR z) XOR z" by (rule arg_cong)
  then show "a = c" by (simp add: xor.assoc)
qed

lemma crc_byte_inj: "crc_byte x a = crc_byte x c \<Longrightarrow> a = c"
  unfolding crc_byte_shifts by (rule xor_cancel) (rule crc_shifts_inj)

lemma crc_byte_differs:
  assumes "crc_byte x c = crc_byte y c"
  shows "x = y"
proof -
  have "c XOR ucast x = c XOR ucast y" using assms unfolding crc_byte_shifts by (rule crc_shifts_inj)
  then have "(ucast x :: 32 word) = ucast y" using xor_cancel [of "ucast x" c "ucast y"] by (simp add: xor.commute)
  then have e: "bit (ucast x :: 32 word) n = bit (ucast y :: 32 word) n" for n by simp
  show ?thesis
  proof (rule bit_eqI)
    fix n
    assume "possible_bit TYPE(byte) n"
    then have "n < 8" by simp
    then show "bit x n = bit y n" using e [of n] by (simp add: bit_ucast_iff)
  qed
qed

lemma crc_fold_inj: "fold crc_byte bs a = fold crc_byte bs c \<Longrightarrow> a = c"
  by (induction bs arbitrary: a c) (auto dest: crc_byte_inj)

text \<open>One changed byte changes the checksum.\<close>

lemma crc32_update:
  assumes "i < length bs" "x \<noteq> bs ! i"
  shows "crc32 [bs[i := x]] \<noteq> crc32 [bs]"
proof
  assume "crc32 [bs[i := x]] = crc32 [bs]"
  then have "fold crc_byte (bs[i := x]) 0xFFFFFFFF = fold crc_byte bs 0xFFFFFFFF"
    unfolding crc32_def fold.simps comp_apply id_apply by (rule xor_cancel)
  moreover have "bs[i := x] = take i bs @ x # drop (Suc i) bs" using assms(1) by (rule upd_conv_take_nth_drop)
  moreover have "fold crc_byte bs = fold crc_byte (take i bs @ bs ! i # drop (Suc i) bs)" using id_take_nth_drop [OF assms(1)] by simp
  ultimately have "crc_byte x (fold crc_byte (take i bs) 0xFFFFFFFF) = crc_byte (bs ! i) (fold crc_byte (take i bs) 0xFFFFFFFF)"
    by (auto dest: crc_fold_inj)
  then show False using crc_byte_differs assms(2) by blast
qed

lemma cut_changed:
  assumes "op_ok p" "i < length (op_record V1 p)" "i < 4 \<or> 8 \<le> i" "x \<noteq> op_record V1 p ! i"
  shows "cut_record V1 (pre @ (op_record V1 p)[i := x] @ post) (length pre) = BadCrc"
proof -
  obtain seq payload where s: "op_parts p = (seq, payload)" by fastforce
  define hd4 where "hd4 = to_le 4 seq"
  define body where "body = hd4 @ to_le 4 (length payload) @ payload"
  define crc where "crc = to_le 4 (unat (crc32 [body]))"
  have r: "op_record V1 p = body @ crc" using s by (simp add: op_record_def raw_record_def wire_record_def sealed_def body_def crc_def hd4_def)
  have m: "length payload mod 256 ^ 4 = length payload" using op_parts_bounds [OF assms(1) s] by simp
  have lens: "length hd4 = 4" "length body = 8 + length payload" "length crc = 4" by (simp_all add: body_def crc_def hd4_def)
  define rec where "rec = (op_record V1 p)[i := x]"
  have len: "take 4 (drop 4 rec) = to_le 4 (length payload)"
    using assms(3) lens(1) by (auto simp: rec_def r body_def list_update_append split: if_splits)
  have bad: "from_le (take 4 (drop (8 + length payload) rec)) \<noteq> unat (crc32 [take (8 + length payload) rec])"
  proof (cases "i < length body")
    case True
    then have "rec = body[i := x] @ crc" "body ! i \<noteq> x" using assms(4) by (auto simp: rec_def r list_update_append nth_append)
    then have "take (8 + length payload) rec = body[i := x]" "take 4 (drop (8 + length payload) rec) = crc" using lens by simp_all
    moreover have "from_le crc = unat (crc32 [body])" using word_le_4 by (simp add: crc_def)
    ultimately show ?thesis using crc32_update [OF True, of x] \<open>body ! i \<noteq> x\<close> by (metis word_unat_eq_iff)
  next
    case False
    define k where "k = i - length body"
    have k: "rec = body @ crc[k := x]" "k < length crc" "crc ! k \<noteq> x" using False assms(2,4) by (auto simp: rec_def r list_update_append nth_append k_def)
    then have "crc[k := x] \<noteq> crc" by (metis nth_list_update_eq)
    then have "from_le (crc[k := x]) \<noteq> from_le crc" using from_le_inj [of "crc[k := x]" crc] by auto
    moreover have "from_le crc = unat (crc32 [body])" using word_le_4 by (simp add: crc_def)
    moreover have "take (8 + length payload) rec = body" "take 4 (drop (8 + length payload) rec) = crc[k := x]" using lens k(1) by simp_all
    ultimately show ?thesis by simp
  qed
  have "length rec = 12 + length payload" using lens by (simp add: rec_def r)
  then show ?thesis using len bad m unfolding rec_def [symmetric] by (simp add: cut_record_def Let_def)
qed

text \<open>C21: A changed byte in a record is noticed. Change one byte of a record of a file, of its number, its
  payload or its checksum: opening the file stops there, reports the corruption and everything from
  that record on as unread, and keeps what the records before it say.\<close>

theorem changed_byte_is_noticed:
  assumes "list_all op_ok qs" "op_ok p" "i < length (op_record V1 p)" "i < 4 \<or> 8 \<le> i" "x \<noteq> op_record V1 p ! i"
  shows "load_file N LEN (HEADER_V1 @ file_of V1 qs @ (op_record V1 p)[i := x] @ post) =
    \<lparr>ld_mem = fst (replayed N LEN qs), ld_last_active = snd (replayed N LEN qs), ld_torn = length (op_record V1 p) + length post, ld_corrupt = 1\<rparr>"
  using load_ops [OF assms(1), of N LEN V1 HEADER_V1 "(op_record V1 p)[i := x] @ post"]
    cut_changed [OF assms(2-5), of "HEADER_V1 @ file_of V1 qs" post] load_file_v1 [of N LEN]
  by (simp add: load_loop_cut [of N LEN V1 _ "length HEADER_V1 + length (file_of V1 qs)"])

subsection \<open>Behind a torn record\<close>

lemma fsync_run_appends:
  "fj_how j = Fsync \<Longrightarrow> fj_file j \<Longrightarrow> list_all op_ok rs \<Longrightarrow> \<exists>app. fj_disk (fold (fj_op N LEN) rs j) = fj_disk j @ app"
proof (induction rs arbitrary: j)
  case (Cons p rs)
  then have a: "fj_disk (fj_op N LEN p j) = fj_disk j @ file_of (fj_format j) (fj_writes N LEN p j)" "fj_how (fj_op N LEN p j) = Fsync" "fj_file (fj_op N LEN p j)"
    using fsync_appends [of j p N LEN] by simp_all
  then obtain app where "fj_disk (fold (fj_op N LEN) rs (fj_op N LEN p j)) = fj_disk (fj_op N LEN p j) @ app" using Cons by force
  then show ?case using a(1) by simp
qed simp

lemma tear_hides:
  assumes c: "fsync_clean N LEN j hdr rs" and "op_ok p" and k: "length (fj_disk j) + 8 \<le> k" and ps: "list_all op_ok ps"
    and t: "t = FileJournal_open N LEN Fsync (take k (fj_disk (fj_op N LEN p j)))"
    and short: "length (fj_disk (fold (fj_op N LEN) ps t)) < length (fj_disk (fj_op N LEN p j))"
  shows "fj_numbers (FileJournal_open N LEN how (fj_disk (fold (fj_op N LEN) ps t))) = fj_numbers j"
proof -
  define fmt where "fmt = fj_format j"
  define ws where "ws = fj_raw N LEN p j"
  have c': "fsync_clean N LEN (fj_op N LEN p j) hdr (rs @ ws)" unfolding ws_def using clean_op [OF c assms(2)] .
  have f: "fj_format (fj_op N LEN p j) = fmt" using fsync_appends [of j p N LEN] c assms(2) by (simp add: fsync_clean_def fmt_def)
  have d: "fj_disk j = hdr @ raw_file fmt rs" "fj_disk (fj_op N LEN p j) = hdr @ raw_file fmt rs @ raw_file fmt ws"
    and ok: "list_all raw_ok rs" "list_all raw_ok ws" "file_start fmt hdr rs" using c c' f by (simp_all add: fsync_clean_def fmt_def)
  define bs where "bs = take k (fj_disk (fj_op N LEN p j))"
  have "bs \<noteq> []" using k file_start_load(2) [OF ok(3), of "raw_file fmt ws"] by (simp add: bs_def d(2))
  then have t': "fj_how t = Fsync" "fj_file t" "fj_disk t = bs" using t by (simp_all add: bs_def [symmetric] FileJournal_open_def Let_def)
  then obtain app where app: "fj_disk (fold (fj_op N LEN) ps t) = bs @ app" using fsync_run_appends [of t ps N LEN] ps by auto
  have lt: "length bs + length app < length (hdr @ raw_file fmt rs @ raw_file fmt ws)" using short app d(2) by simp
  then have "ws \<noteq> []" using k d by (auto simp: bs_def)
  then obtain w where w: "ws = [w]" using writes_at_most_one [of N LEN p j] by (cases ws) (auto simp: ws_def)
  define r where "r = k - length (fj_disk j)"
  have bs: "bs = hdr @ raw_file fmt rs @ take r (raw_record fmt w)" using k d w by (simp add: bs_def r_def)
  have "8 \<le> r" using k by (simp add: r_def)
  moreover have "r + length app < length (raw_record fmt w)"
    using lt k d w by (auto simp: bs_def r_def min_def split: if_splits)
  ultimately have "load_file N LEN (bs @ app) =
      \<lparr>ld_mem = fst (restored N LEN rs), ld_last_active = snd (restored N LEN rs), ld_torn = r + length app, ld_corrupt = 0\<rparr>"
    using load_torn [OF ok(3,1), of w r app N LEN] ok(2) w by (simp add: bs)
  then show ?thesis using app clean_numbers [OF c] by (simp add: open_loads)
qed

text \<open>C39: What a journal writes behind a torn record is lost at the next restart. Opening a file that ends
  inside a record skips the torn bytes but leaves them in the file, and the journal appends behind
  them. Loading that file again reads the torn record's length, takes the new records for its
  missing bytes, and forgets them: after any operations that add fewer bytes than the torn record
  misses, a restart is back at the counts from before the crash, and a session resumed from them
  spends the same numbers again.\<close>

theorem appended_behind_tear_is_lost:
  assumes "list_all op_ok ps" "op_ok p" "length (fj_disk (fsync_after N LEN ps)) + 8 \<le> k" "list_all op_ok rs"
    and "t = FileJournal_open N LEN Fsync (take k (fj_disk (fsync_after N LEN (ps @ [p]))))"
    and "length (fj_disk (fold (fj_op N LEN) rs t)) < length (fj_disk (fsync_after N LEN (ps @ [p])))"
  shows "fj_numbers (FileJournal_open N LEN how (fj_disk (fold (fj_op N LEN) rs t))) = fj_numbers (fsync_after N LEN ps)"
proof -
  obtain hdr qs where "fsync_clean N LEN (fsync_after N LEN ps) hdr qs" using fsync_from_clean [OF new_file assms(1)] by blast
  from tear_hides [OF this assms(2-4), of t how] assms(5,6) show ?thesis by simp
qed


subsection \<open>A sample file\<close>

definition sample_message :: bytes where
  "sample_message = replicate 29 65"

lemma sample_message_plain: "\<not> carries_secret sample_message"
proof -
  have "position (\<lambda>c. c = SOH) sample_message = None" by (simp add: position_None_iff sample_message_def)
  then have "next_soh sample_message 0 = length sample_message" by (simp add: next_soh_def)
  then have n: "next_soh sample_message 0 = 29" by (simp add: sample_message_def)
  have e: "position (\<lambda>c. c = EQ_SIGN) sample_message = None" by (simp add: position_None_iff sample_message_def)
  have "redact_field sample_message (Scan_new sample_message) = (None, (Scan_new sample_message)\<lparr>sc_at := 30\<rparr>)"
    using n e by (simp add: redact_field_def Scan_new_def Let_def sample_message_def)
  then show ?thesis by (simp add: carries_secret_def scan_next.simps Scan_new_def sample_message_def)
qed

definition sample_ops :: "journal_op list" where
  "sample_ops = [MarkOut 7, MarkIn 3]"

definition sample_put :: journal_op where
  "sample_put = Put 8 sample_message"

lemma sample_ops_ok: "list_all op_ok sample_ops" "op_ok sample_put"
  by (simp_all add: sample_ops_def sample_put_def sample_message_def)

lemma fresh_open: "fj_mem (FileJournal_open N LEN Fsync []) = MemJournal_new N LEN" "fj_last_active (FileJournal_open N LEN Fsync []) = None"
    "fj_how (FileJournal_open N LEN Fsync []) = Fsync" "fj_file (FileJournal_open N LEN Fsync [])" "fj_format (FileJournal_open N LEN Fsync []) = V1"
    "length (fj_disk (FileJournal_open N LEN Fsync [])) = 5"
  by (simp_all add: FileJournal_open_def Let_def load_file_def file_format_def header_length load_loop_cut [of _ _ _ "[]" 0] cut_record_def)

lemma sample_mem: "fj_mem (fsync_after 4 64 sample_ops) = mj_mark_in 3 (mj_mark_out 7 (MemJournal_new 4 64))"
  by (simp add: sample_ops_def FileJournal_def fresh_open)

lemma sample_numbers: "mj_highest_out (fj_mem (fsync_after 4 64 sample_ops)) = Some 7" "mj_highest_in (fj_mem (fsync_after 4 64 sample_ops)) = Some 3"
  by (simp_all add: sample_mem mj_high_marks raise_mark_def MemJournal_new_def)

lemma op_disk_length:
  "fj_how j = Fsync \<Longrightarrow> fj_file j \<Longrightarrow> op_ok p \<Longrightarrow> length (fj_disk (fj_op N LEN p j)) = length (fj_disk j) + length (file_of (fj_format j) (fj_writes N LEN p j))"
  using fsync_appends [of j p N LEN] by simp

lemma sample_disk: "length (fj_disk (fsync_after 4 64 sample_ops)) = 33" "length (fj_disk (fsync_after 4 64 (sample_ops @ [sample_put]))) = 74"
proof -
  let ?j0 = "FileJournal_open 4 64 Fsync []"
  let ?j1 = "fj_op 4 64 (MarkOut 7) ?j0"
  let ?j2 = "fj_op 4 64 (MarkIn 3) ?j1"
  have m: "fj_writes 4 64 (MarkOut 7) ?j0 = [MarkOut 7]" by (simp add: fresh_open MemJournal_new_def)
  have l: "length (op_record V1 (MarkOut 7)) = 16" "length (op_record V1 (MarkIn 3)) = 12" "length (op_record V1 sample_put) = 41"
    by (simp_all add: op_record_def raw_record_def length_wire_record sample_put_def sample_message_def)
  have 1: "length (fj_disk ?j1) = 21" "fj_how ?j1 = Fsync" "fj_file ?j1" "fj_format ?j1 = V1"
    using op_disk_length [of ?j0 "MarkOut 7" 4 64] fsync_appends [of ?j0 "MarkOut 7" 4 64] fresh_open [of 4 64] m l by simp_all
  have 2: "length (fj_disk ?j2) = 33" "fj_how ?j2 = Fsync" "fj_file ?j2" "fj_format ?j2 = V1"
    using op_disk_length [of ?j1 "MarkIn 3" 4 64] fsync_appends [of ?j1 "MarkIn 3" 4 64] 1 l by simp_all
  show "length (fj_disk (fsync_after 4 64 sample_ops)) = 33" using 2 by (simp add: sample_ops_def)
  have "fst (mj_put 4 64 8 sample_message (fj_mem ?j2))"
    using sample_mem by (simp add: sample_ops_def mj_put_def sample_message_def nth_opt_def MemJournal_new_def)
  then have "fj_writes 4 64 sample_put ?j2 = [sample_put]" using sample_message_plain by (simp add: sample_put_def)
  then show "length (fj_disk (fsync_after 4 64 (sample_ops @ [sample_put]))) = 74"
    using op_disk_length [of ?j2 sample_put 4 64] 2 l sample_ops_ok by (simp add: sample_ops_def)
qed

theorem appended_behind_tear_is_lost_witness:
  "\<exists>t. mj_highest_out (fj_mem (fj_op 4 64 (MarkOut 50) t)) = Some 50 \<and>
     mj_highest_out (fj_mem (FileJournal_open 4 64 Async (fj_disk (fj_op 4 64 (MarkOut 50) t)))) = Some 7"
proof -
  let ?d = "fj_disk (fsync_after 4 64 (sample_ops @ [sample_put]))"
  define t where "t = FileJournal_open 4 64 Fsync (take 53 ?d)"
  have ne: "take 53 ?d \<noteq> []" using sample_disk(2) by auto
  have t: "fj_how t = Fsync" "fj_file t" "fj_disk t = take 53 ?d" using ne by (simp_all add: t_def FileJournal_open_def Let_def)
  have "length (fj_disk (fj_op 4 64 (MarkOut 50) t)) \<le> 53 + 16"
    using op_disk_length [of t "MarkOut 50" 4 64] t sample_disk(2) by (auto simp: op_record_def raw_record_def length_wire_record)
  then have lost: "mj_highest_out (fj_mem (FileJournal_open 4 64 Async (fj_disk (fj_op 4 64 (MarkOut 50) t)))) = Some 7"
    using appended_behind_tear_is_lost [OF sample_ops_ok, of 4 64 53 "[MarkOut 50]" t Async] sample_disk sample_numbers by (simp add: t_def)
  have "mj_highest_out (fj_mem t) = Some 7"
    using appended_behind_tear_is_lost [OF sample_ops_ok, of 4 64 53 "[]" t Fsync] sample_disk sample_numbers t(3) by (simp add: t_def)
  then have "mj_highest_out (fj_mem (fj_op 4 64 (MarkOut 50) t)) = Some 50"
    by (simp add: FileJournal_def mj_high_marks raise_mark_def)
  then show ?thesis using lost by blast
qed

theorem changed_byte_is_noticed_witness:
  "ld_corrupt (load_file 4 64 (HEADER_V1 @ op_record V1 (MarkOut 7) @ (op_record V1 (MarkIn 3))[0 := 4])) = 1"
proof -
  have "to_le 4 3 = 3 # to_le 3 0" by code_simp
  then have r: "op_record V1 (MarkIn 3) ! 0 = 3" by (simp add: op_record_def raw_record_def wire_record_def sealed_def)
  have "length (op_record V1 (MarkIn 3)) = 12" by (simp add: op_record_def raw_record_def length_wire_record)
  note r = r this
  show ?thesis using changed_byte_is_noticed [of "[MarkOut 7]" "MarkIn 3" 0 4 4 64 "[]"] r by simp
qed

text \<open>A run on the file of an earlier one.\<close>

theorem restart_restores_journal_witness:
  "fj_torn (FileJournal_open 4 64 Fsync (fj_disk (fsync_after 4 64 sample_ops))) = 0 \<and>
   fj_numbers (FileJournal_open 4 64 Async (fj_disk (fsync_from 4 64 (fj_disk (fsync_after 4 64 sample_ops)) [MarkOut 9]))) = (Some 9, Some 3, None) \<and>
   list_all (\<lambda>r. \<not> jrec_secret r) (rd_records (Reader_open (fj_disk (fsync_after 4 64 sample_ops))))"
proof -
  let ?bs = "fj_disk (fsync_after 4 64 sample_ops)"
  have e: "rd_records (Reader_open []) = []"
    by (simp add: Reader_open_def rd_records_def has_header_def HEADER_V1_def b_def Let_def records_from.simps [of _ _ 0] reader_loop_cut [of _ _ 0]
        records_next_cut cut_record_def)
  have 1: "fj_torn (FileJournal_open 4 64 Fsync ?bs) = 0" "fj_mem (FileJournal_open 4 64 Fsync ?bs) = fj_mem (fsync_after 4 64 sample_ops)"
    "fj_numbers (FileJournal_open 4 64 Fsync ?bs) = fj_numbers (fsync_after 4 64 sample_ops)"
    "list_all (\<lambda>r. \<not> jrec_secret r) (rd_records (Reader_open ?bs))"
    using restart_restores_journal [OF new_file sample_ops_ok(1), of 4 64 Fsync] e by (simp_all add: Let_def sample_ops_def)
  have "fj_last_active (fsync_after 4 64 sample_ops) = None" by (simp add: sample_ops_def FileJournal_def fresh_open)
  then have "fj_numbers (fsync_from 4 64 ?bs [MarkOut 9]) = (Some 9, Some 3, None)"
    using 1(2,3) sample_numbers by (simp add: FileJournal_def mj_high_marks raise_mark_def)
  then show ?thesis using restart_restores_journal [OF 1(1), of "[MarkOut 9]" Async] 1(1,4) by (simp add: Let_def)
qed

theorem crash_loses_at_most_one_operation_witness:
  "mj_highest_out (fj_mem (FileJournal_open 4 64 Async (take 53 (fj_disk (fsync_after 4 64 (sample_ops @ [sample_put])))))) \<in> {Some 7, Some 8}"
proof -
  have "mj_highest_out (fj_mem (fsync_after 4 64 (sample_ops @ [sample_put]))) = Some 8"
    using fj_op_mem [of 4 64 sample_put "fsync_after 4 64 sample_ops"]
    by (simp add: sample_put_def sample_mem) (simp add: mj_put_def sample_message_def nth_opt_def MemJournal_new_def mj_mark_in_def mj_mark_out_def raise_mark_def)
  then show ?thesis
    using crash_loses_at_most_one_operation [OF new_file sample_ops_ok, of 4 64 53 Async] sample_disk sample_numbers by (auto simp: Let_def)
qed

end
