(* ===== verification/File_Writer.thy ===== *)
theory File_Writer
  imports File_Journal
begin

text \<open>
  The writer thread of an asynchronous journal, \<open>write_until_told\<close> of \<open>crates/engine/src/journal.rs\<close>, beside the
  engine thread that pushes records and retires or closes the journal. A step of the world is one
  operation of the engine or one pass of the writer's loop; a push and a pop are single steps, which
  is what the interleavings of \<open>Ring\<close> allow. Retiring is two steps, as the writer may run between the
  push of the stop record and what it is told.
\<close>

definition writer_buf :: "nat \<Rightarrow> nat" where
  "writer_buf len = (let most = len; most = (if ACTIVITY_LEN > most then ACTIVITY_LEN else most);
     most = (if OUTBOUND_LEN > most then OUTBOUND_LEN else most) in RECORD_HEADER + most)"

record async_world =
  aw_j :: file_journal
  aw_buf :: bytes
  aw_last_look :: bool
  aw_stopped :: bool
  aw_retiring :: "bool option"
  aw_log :: "journal_op list"
  aw_late :: bool

text \<open>What the writer puts into the file for a record it popped.\<close>

definition writer_record :: "bytes \<Rightarrow> bytes" where
  "writer_record rec = (case carries_secret_at rec of Some seq \<Rightarrow> outbound_mark seq | None \<Rightarrow> rec)"

text \<open>The end of the thread: the file is closed and let go of, then the ticket is finished.\<close>

definition writer_end :: "async_world \<Rightarrow> async_world" where
  "writer_end w = w\<lparr>aw_j := ticket_finish ((aw_j w)\<lparr>fj_released := True\<rparr>), aw_stopped := True\<rparr>"

definition writer_step :: "async_world \<Rightarrow> async_world" where
  "writer_step w =
     (if aw_stopped w then w
      else case rg_pop (aw_buf w) (fj_ring (aw_j w)) of (popped, buf, r) \<Rightarrow>
        let w = w\<lparr>aw_buf := buf, aw_j := (aw_j w)\<lparr>fj_ring := r\<rparr>\<rparr> in
        case popped of
          Some n \<Rightarrow>
            if n = 0 then w
            else if n = 1 \<and> take 1 buf = [STOP] then writer_end w
            else w\<lparr>aw_j := (aw_j w)\<lparr>fj_disk := fj_disk (aw_j w) @ sealed (fj_format (aw_j w)) [writer_record (take n buf)]\<rparr>\<rparr>
        | None \<Rightarrow>
            if aw_last_look w then writer_end w
            else if fj_told (aw_j w) = RetiredStopWhenDry then w\<lparr>aw_last_look := True\<rparr>
            else w)"

text \<open>Closing waits: the stop record is pushed again and again until the ring takes it.\<close>

definition fj_close_push :: "file_journal \<Rightarrow> file_journal option" where
  "fj_close_push j =
     (if fj_to_writer j
      then case rg_push [[STOP]] (fj_ring j) of (ok, r) \<Rightarrow> if ok then Some (j\<lparr>fj_ring := r, fj_to_writer := False, fj_writer := False\<rparr>) else None
      else Some j)"

definition async_open :: "nat \<Rightarrow> nat \<Rightarrow> bytes \<Rightarrow> async_world" where
  "async_open N LEN bs = \<lparr>aw_j = FileJournal_open N LEN Async bs, aw_buf = replicate (writer_buf LEN) 0, aw_last_look = False, aw_stopped = False,
     aw_retiring = None, aw_log = [], aw_late = False\<rparr>"

text \<open>Two fields only observe: \<open>aw_log\<close> keeps the operations whose record the ring took, and \<open>aw_late\<close> says that
  an operation came after the producer's end was given up.\<close>

definition took :: "nat \<Rightarrow> nat \<Rightarrow> journal_op \<Rightarrow> file_journal \<Rightarrow> journal_op list" where
  "took N LEN p j = (if fj_to_writer j \<and> fj_writes N LEN p j \<noteq> [] \<and> fj_unwritten (apply_op (FileJournal N LEN) p j) = fj_unwritten j then [p] else [])"

definition aw_operate :: "nat \<Rightarrow> nat \<Rightarrow> journal_op \<Rightarrow> async_world \<Rightarrow> async_world" where
  "aw_operate N LEN p w = w\<lparr>aw_j := apply_op (FileJournal N LEN) p (aw_j w), aw_log := aw_log w @ took N LEN p (aw_j w),
     aw_late := (aw_late w \<or> \<not> fj_to_writer (aw_j w))\<rparr>"

inductive async_step :: "nat \<Rightarrow> nat \<Rightarrow> async_world \<Rightarrow> async_world \<Rightarrow> bool" for N LEN where
  operated: "aw_retiring w = None \<Longrightarrow> op_ok p \<Longrightarrow>
    async_step N LEN w (aw_operate N LEN p w)"
| retire_pushed: "aw_retiring w = None \<Longrightarrow> fj_writer (aw_j w) \<Longrightarrow> fj_retire_push (aw_j w) = (pushed, j) \<Longrightarrow>
    async_step N LEN w (w\<lparr>aw_j := j, aw_retiring := Some pushed\<rparr>)"
| retire_told: "aw_retiring w = Some pushed \<Longrightarrow>
    async_step N LEN w (w\<lparr>aw_j := fj_retire_told pushed (aw_j w), aw_retiring := None\<rparr>)"
| closed_down: "aw_retiring w = None \<Longrightarrow> fj_close_push (aw_j w) = Some j \<Longrightarrow> async_step N LEN w (w\<lparr>aw_j := j\<rparr>)"
| wrote: "async_step N LEN w (writer_step w)"

inductive async_run :: "nat \<Rightarrow> nat \<Rightarrow> bytes \<Rightarrow> async_world \<Rightarrow> bool" for N LEN bs where
  opened: "async_run N LEN bs (async_open N LEN bs)"
| stepped: "async_run N LEN bs w \<Longrightarrow> async_step N LEN w w' \<Longrightarrow> async_run N LEN bs w'"

subsection \<open>Records in the ring\<close>

definition op_body :: "journal_op \<Rightarrow> bytes" where
  "op_body p = (case op_parts p of (seq, payload) \<Rightarrow> to_le 4 seq @ to_le 4 (length payload) @ payload)"

lemma sealed_body: "sealed fmt [op_body p] = op_record fmt p"
  by (simp add: op_body_def op_record_def raw_record_def wire_record_def split: prod.split)

lemma op_body_len: "8 \<le> length (op_body p)"
  by (simp add: op_body_def split: prod.split)

lemma writer_record_body:
  assumes "op_ok p"
  shows "writer_record (op_body p) = op_body (redacted p)"
proof (cases p)
  case (Put seq bs)
  have "seq mod 256 ^ 4 = seq" using assms Put by simp
  then have "carries_secret_at (op_body p) = (if carries_secret bs then Some seq else None)"
    using assms Put by (simp add: carries_secret_at_def op_body_def)
  then show ?thesis using Put by (simp add: writer_record_def op_body_def outbound_mark_def)
qed (use assms in \<open>simp_all add: writer_record_def op_body_def carries_secret_at_def\<close>)

text \<open>An operation of an asynchronous journal pushes its record, or changes only the memory.\<close>

lemma async_pushes:
  assumes "fj_how j = Async" "op_ok p"
  shows "\<exists>parts mem la. concat parts = op_body p \<and>
    apply_op (FileJournal N LEN) p j = (if fj_writes N LEN p j = [] then id else fj_push parts) (j\<lparr>fj_mem := mem, fj_last_active := la\<rparr>)"
proof (cases p)
  case (Put seq bs)
  have "concat [to_le 4 seq, to_le 4 (len_u32 bs), bs] = op_body p" using assms(2) Put by (simp add: op_body_def len_u32_def)
  moreover have "apply_op (FileJournal N LEN) p j =
      (if fj_writes N LEN p j = [] then id else fj_push [to_le 4 seq, to_le 4 (len_u32 bs), bs]) (j\<lparr>fj_mem := snd (mj_put N LEN seq bs (fj_mem j)), fj_last_active := fj_last_active j\<rparr>)"
    using assms(1) Put by (simp add: FileJournal_def fj_put_def Let_def split: prod.split)
  ultimately show ?thesis by blast
next
  case (MarkIn seq)
  have "concat [to_le 4 seq, to_le 4 0] = op_body p" using MarkIn by (simp add: op_body_def)
  moreover have "apply_op (FileJournal N LEN) p j =
      (if fj_writes N LEN p j = [] then id else fj_push [to_le 4 seq, to_le 4 0]) (j\<lparr>fj_mem := mj_mark_in seq (fj_mem j), fj_last_active := fj_last_active j\<rparr>)"
    using assms(1) MarkIn by (simp add: FileJournal_def fj_mark_in_def Let_def)
  ultimately show ?thesis by blast
next
  case (MarkOut seq)
  have "concat [outbound_mark seq] = op_body p" using MarkOut by (simp add: op_body_def outbound_mark_def)
  moreover have "apply_op (FileJournal N LEN) p j =
      (if fj_writes N LEN p j = [] then id else fj_push [outbound_mark seq]) (j\<lparr>fj_mem := fj_mem (fj_mark_out seq j), fj_last_active := fj_last_active j\<rparr>)"
    using assms(1) MarkOut by (auto simp: FileJournal_def fj_mark_out_def Let_def)
  ultimately show ?thesis by blast
next
  case (MarkActive t)
  have "concat [to_le 4 0, to_le 4 8, to_le 8 t] = op_body p" using MarkActive by (simp add: op_body_def)
  moreover have "apply_op (FileJournal N LEN) p j =
      (if fj_writes N LEN p j = [] then id else fj_push [to_le 4 0, to_le 4 8, to_le 8 t]) (j\<lparr>fj_mem := fj_mem j, fj_last_active := Some t\<rparr>)"
    using assms(1) MarkActive by (simp add: FileJournal_def fj_mark_active_def Let_def)
  ultimately show ?thesis by blast
qed

lemma op_body_bound: "fj_writes N LEN p j \<noteq> [] \<Longrightarrow> length (op_body p) \<le> writer_buf LEN"
  by (cases p) (auto simp: op_body_def writer_buf_def Let_def mj_put_def split: if_splits)

subsection \<open>The invariant\<close>

text \<open>The data: what the ring holds, what the file holds, and that together they are the log in order.\<close>

definition aw_data :: "nat \<Rightarrow> nat \<Rightarrow> bytes \<Rightarrow> async_world \<Rightarrow> nat \<Rightarrow> journal_op list \<Rightarrow> journal_op list \<Rightarrow> bool \<Rightarrow> bool" where
  "aw_data N LEN bs w k stored pend stopq \<longleftrightarrow>
     rg_rep k (fj_ring (aw_j w)) (map op_body pend @ (if stopq then [[STOP]] else [])) \<and> aw_log w = stored @ pend \<and>
     list_all op_ok stored \<and> list_all op_ok pend \<and> list_all (\<lambda>p. length (op_body p) \<le> writer_buf LEN) pend \<and>
     fj_disk (aw_j w) = fj_disk (FileJournal_open N LEN Async bs) @ file_of (file_format bs) (map redacted stored) \<and>
     fj_how (aw_j w) = Async \<and> fj_format (aw_j w) = file_format bs \<and> length (aw_buf w) = writer_buf LEN"

text \<open>The flags of the two threads: whether the producer's end is held, what the writer was told, whether it
  is on its last look or stopped, and what the engine is about to tell it.\<close>

definition aw_flags :: "bool \<Rightarrow> told \<Rightarrow> bool \<Rightarrow> bool \<Rightarrow> bool option \<Rightarrow> bool \<Rightarrow> bool \<Rightarrow> bool" where
  "aw_flags tw told last_look stopped retiring stopq none_left \<longleftrightarrow>
     (stopq \<or> last_look \<or> stopped \<longrightarrow> \<not> tw \<or> retiring = Some True) \<and> (retiring \<noteq> None \<longrightarrow> tw) \<and> (retiring = Some True \<longrightarrow> stopq \<or> stopped) \<and>
     (\<not> tw \<longrightarrow> stopq \<or> stopped \<or> told = RetiredStopWhenDry) \<and> (stopped \<longrightarrow> none_left \<and> \<not> stopq) \<and>
     (stopped \<longleftrightarrow> told = Finished \<or> told = FinishedUnretired) \<and> (tw \<longrightarrow> told = Running \<or> told = FinishedUnretired)"

definition aw_inv :: "nat \<Rightarrow> nat \<Rightarrow> bytes \<Rightarrow> async_world \<Rightarrow> nat \<Rightarrow> journal_op list \<Rightarrow> journal_op list \<Rightarrow> bool \<Rightarrow> bool" where
  "aw_inv N LEN bs w k stored pend stopq \<longleftrightarrow> aw_data N LEN bs w k stored pend stopq \<and> fj_writer (aw_j w) = fj_to_writer (aw_j w) \<and>
     aw_flags (fj_to_writer (aw_j w)) (fj_told (aw_j w)) (aw_last_look w) (aw_stopped w) (aw_retiring w) stopq (pend = []) \<and>
     fj_released (aw_j w) = aw_stopped w \<and>
     fj_waiting (aw_j w) = (if fj_told (aw_j w) = Retired \<or> fj_told (aw_j w) = RetiredStopWhenDry then 1 else 0)"

lemmas aw_defs = aw_inv_def aw_data_def

text \<open>The ticket when the writer ends.\<close>

fun finished :: "told \<Rightarrow> told" where
  "finished Running = FinishedUnretired"
| "finished Retired = Finished"
| "finished RetiredStopWhenDry = Finished"
| "finished t = t"

lemma ticket_finish_fields [simp]: "fj_told (ticket_finish j) = finished (fj_told j)" "fj_ring (ticket_finish j) = fj_ring j" "fj_disk (ticket_finish j) = fj_disk j"
    "fj_how (ticket_finish j) = fj_how j" "fj_format (ticket_finish j) = fj_format j" "fj_writer (ticket_finish j) = fj_writer j"
    "fj_to_writer (ticket_finish j) = fj_to_writer j" "fj_released (ticket_finish j) = fj_released j"
    "fj_waiting (ticket_finish j) = fj_waiting j - (if fj_told j = Retired \<or> fj_told j = RetiredStopWhenDry then 1 else 0)"
  by (simp_all add: ticket_finish_def split: told.split)

lemma finished_ends: "finished t \<noteq> Retired" "finished t \<noteq> RetiredStopWhenDry"
  by (cases t; simp)+

lemma flags_fewer: "aw_flags tw t ll False ret stopq e \<Longrightarrow> aw_flags tw t ll False ret stopq e'"
  unfolding aw_flags_def by blast

lemma flags_stop: "aw_flags tw t ll False ret True e \<Longrightarrow> aw_flags tw (finished t) ll True ret False True"
  by (cases t) (auto simp: aw_flags_def)

lemma flags_dry: "aw_flags tw t True False ret False e \<Longrightarrow> aw_flags tw (finished t) True True ret False True"
  by (cases t) (auto simp: aw_flags_def)

lemma flags_look: "aw_flags tw RetiredStopWhenDry ll False ret False e \<Longrightarrow> aw_flags tw RetiredStopWhenDry True False ret False e"
  by (auto simp: aw_flags_def)

lemma flags_stopped: "aw_flags tw t ll True ret stopq e \<Longrightarrow> e \<and> \<not> stopq"
  by (simp add: aw_flags_def)

lemma aw_open: "\<exists>k. aw_inv N LEN bs (async_open N LEN bs) k [] [] False"
proof -
  obtain k where "rg_rep k (rg_pair (2 ^ 20)) []" using pair_rep [of "2 ^ 20"] by auto
  then show ?thesis by (auto simp: aw_defs aw_flags_def async_open_def FileJournal_open_def Let_def)
qed

lemma aw_retire_told:
  assumes "aw_inv N LEN bs w k stored pend stopq" "aw_retiring w = Some pushed"
  shows "aw_inv N LEN bs (w\<lparr>aw_j := fj_retire_told pushed (aw_j w), aw_retiring := None\<rparr>) k stored pend stopq"
  using assms by (cases pushed) (auto simp: aw_defs aw_flags_def fj_retire_told_def ticket_retire_def Let_def)

lemma aw_retire_pushed:
  assumes "aw_inv N LEN bs w k stored pend stopq" "aw_retiring w = None" "fj_writer (aw_j w)" "fj_retire_push (aw_j w) = (pushed, j)"
  shows "aw_inv N LEN bs (w\<lparr>aw_j := j, aw_retiring := Some pushed\<rparr>) k stored pend (stopq \<or> pushed)"
proof -
  have q: "fj_to_writer (aw_j w)" "\<not> stopq" "rg_rep k (fj_ring (aw_j w)) (map op_body pend)" using assms by (auto simp: aw_defs aw_flags_def)
  obtain r where r: "rg_push [[STOP]] (fj_ring (aw_j w)) = (pushed, r)" "j = (aw_j w)\<lparr>fj_ring := r\<rparr>"
    using assms(4) q(1) by (auto simp: fj_retire_push_def split: prod.splits)
  then have "rg_rep k r (map op_body pend @ (if pushed then [[STOP]] else []))"
    using push_refines [OF q(3), of "[[STOP]]"] q(3) by (auto split: if_splits)
  then show ?thesis using assms(1,2) q r(2) by (auto simp: aw_defs aw_flags_def)
qed

lemma aw_closed:
  assumes "aw_inv N LEN bs w k stored pend stopq" "aw_retiring w = None" "fj_close_push (aw_j w) = Some j"
  shows "\<exists>stopq. aw_inv N LEN bs (w\<lparr>aw_j := j\<rparr>) k stored pend stopq"
proof (cases "fj_to_writer (aw_j w)")
  case True
  then have q: "\<not> stopq" "rg_rep k (fj_ring (aw_j w)) (map op_body pend)" using assms by (auto simp: aw_defs aw_flags_def)
  obtain r where r: "rg_push [[STOP]] (fj_ring (aw_j w)) = (True, r)" "j = (aw_j w)\<lparr>fj_ring := r, fj_to_writer := False, fj_writer := False\<rparr>"
    using assms(3) True by (auto simp: fj_close_push_def split: prod.splits if_splits)
  then have "rg_rep k r (map op_body pend @ [[STOP]])" using push_refines [OF q(2), of "[[STOP]]"] by (auto split: if_splits)
  then have "aw_inv N LEN bs (w\<lparr>aw_j := j\<rparr>) k stored pend True" using assms(1,2) True q r(2) by (auto simp: aw_defs aw_flags_def)
  then show ?thesis by blast
next
  case False
  then show ?thesis using assms by (auto simp: fj_close_push_def)
qed


lemma aw_operated:
  assumes inv: "aw_inv N LEN bs w k stored pend stopq" and "aw_retiring w = None" "op_ok p"
  shows "\<exists>pend'. aw_inv N LEN bs (aw_operate N LEN p w) k stored pend' stopq"
proof -
  let ?j = "aw_j w"
  have how: "fj_how ?j = Async" using inv by (simp add: aw_defs aw_operate_def)
  obtain parts mem la where op: "concat parts = op_body p"
      "apply_op (FileJournal N LEN) p ?j = (if fj_writes N LEN p ?j = [] then id else fj_push parts) (?j\<lparr>fj_mem := mem, fj_last_active := la\<rparr>)"
    using async_pushes [OF how assms(3), of N LEN] by blast
  show ?thesis
  proof (cases "fj_writes N LEN p ?j = [] \<or> \<not> fj_to_writer ?j")
    case True
    then have "took N LEN p ?j = []" "apply_op (FileJournal N LEN) p ?j = ?j\<lparr>fj_mem := mem, fj_last_active := la\<rparr>"
      using op(2) by (auto simp: took_def fj_push_def)
    then show ?thesis using inv by (intro exI [of _ pend]) (simp add: aw_defs aw_operate_def)
  next
    case False
    then have tw: "fj_to_writer ?j" "fj_writes N LEN p ?j \<noteq> []" by auto
    have q: "\<not> stopq" "\<not> aw_stopped w" "rg_rep k (fj_ring ?j) (map op_body pend)" using inv tw assms(2) by (auto simp: aw_defs aw_flags_def)
    obtain r where r: "rg_push parts (fj_ring ?j) = (rg_accepts k (map op_body pend) (op_body p), r)"
        "if rg_accepts k (map op_body pend) (op_body p) then rg_rep k r (map op_body pend @ [op_body p]) else r = fj_ring ?j"
      using push_refines [OF q(3), of parts, unfolded op(1)] by blast
    show ?thesis
    proof (cases "rg_accepts k (map op_body pend) (op_body p)")
      case True
      then have "apply_op (FileJournal N LEN) p ?j = ?j\<lparr>fj_mem := mem, fj_last_active := la, fj_ring := r\<rparr>"
        using op(2) tw r by (simp add: fj_push_def)
      moreover from this have "took N LEN p ?j = [p]" using tw by (simp add: took_def)
      ultimately show ?thesis using inv q(1,2) r True assms(3) op_body_bound [OF tw(2)]
        by (intro exI [of _ "pend @ [p]"]) (auto simp: aw_defs aw_operate_def intro: flags_fewer)
    next
      case False
      then have "apply_op (FileJournal N LEN) p ?j = ?j\<lparr>fj_mem := mem, fj_last_active := la, fj_ring := r, fj_unwritten := fj_unwritten ?j + 1\<rparr>"
        using op(2) tw r by (simp add: fj_push_def)
      moreover from this have "took N LEN p ?j = []" by (simp add: took_def)
      ultimately show ?thesis using inv r False by (intro exI [of _ pend]) (simp add: aw_defs aw_operate_def)
    qed
  qed
qed

text \<open>One pass of the writer, on what the ring holds.\<close>

lemma writer_pops:
  assumes inv: "aw_inv N LEN bs w k stored (p # pend) stopq"
  shows "aw_inv N LEN bs (writer_step w) k (stored @ [p]) pend stopq" "aw_last_look (writer_step w) = aw_last_look w"
    "fj_told (aw_j (writer_step w)) = fj_told (aw_j w)" "fj_to_writer (aw_j (writer_step w)) = fj_to_writer (aw_j w)"
    "aw_log (writer_step w) = aw_log w" "aw_retiring (writer_step w) = aw_retiring w"
proof -
  have q: "rg_rep k (fj_ring (aw_j w)) (op_body p # (map op_body pend @ (if stopq then [[STOP]] else [])))" "\<not> aw_stopped w" "op_ok p"
      "length (op_body p) \<le> length (aw_buf w)"
    using inv by (auto simp: aw_defs dest: flags_stopped)
  obtain r where r: "rg_pop (aw_buf w) (fj_ring (aw_j w)) = (Some (length (op_body p)), op_body p @ drop (length (op_body p)) (aw_buf w), r)"
      "rg_rep k r (map op_body pend @ (if stopq then [[STOP]] else []))"
    using pop_refines [OF q(1), of "aw_buf w"] q(4) by auto
  have n: "length (op_body p) \<noteq> 0" "length (op_body p) \<noteq> 1" using op_body_len [of p] by auto
  have w': "writer_step w = w\<lparr>aw_buf := op_body p @ drop (length (op_body p)) (aw_buf w),
      aw_j := (aw_j w)\<lparr>fj_ring := r, fj_disk := fj_disk (aw_j w) @ op_record (fj_format (aw_j w)) (redacted p)\<rparr>\<rparr>"
    using q(2) r(1) n writer_record_body [OF q(3)] by (simp add: writer_step_def Let_def sealed_body)
  show "aw_inv N LEN bs (writer_step w) k (stored @ [p]) pend stopq" using inv r(2) q(2,4) unfolding w' by (auto simp: aw_defs intro: flags_fewer)
  show "aw_last_look (writer_step w) = aw_last_look w" "fj_told (aw_j (writer_step w)) = fj_told (aw_j w)"
    "fj_to_writer (aw_j (writer_step w)) = fj_to_writer (aw_j w)" "aw_log (writer_step w) = aw_log w" "aw_retiring (writer_step w) = aw_retiring w"
    unfolding w' by simp_all
qed

lemma writer_stops:
  assumes inv: "aw_inv N LEN bs w k stored [] True"
  shows "aw_inv N LEN bs (writer_step w) k stored [] False" "aw_stopped (writer_step w)" "aw_log (writer_step w) = aw_log w"
proof -
  have q: "rg_rep k (fj_ring (aw_j w)) [[STOP]]" "\<not> aw_stopped w" "length (aw_buf w) = writer_buf LEN" using inv by (auto simp: aw_defs dest: flags_stopped)
  have "1 \<le> length (aw_buf w)" using q(3) by (simp add: writer_buf_def Let_def)
  then obtain r where r: "rg_pop (aw_buf w) (fj_ring (aw_j w)) = (Some 1, STOP # drop 1 (aw_buf w), r)" "rg_rep k r []"
    using pop_refines [OF q(1), of "aw_buf w"] by auto
  have w': "writer_step w = writer_end (w\<lparr>aw_buf := STOP # drop 1 (aw_buf w), aw_j := (aw_j w)\<lparr>fj_ring := r\<rparr>\<rparr>)"
    using q(2) r(1) by (simp add: writer_step_def Let_def)
  show "aw_inv N LEN bs (writer_step w) k stored [] False"
    using inv r(2) \<open>1 \<le> length (aw_buf w)\<close> q(2) unfolding w' by (auto simp: aw_defs writer_end_def finished_ends intro: flags_stop)
  show "aw_stopped (writer_step w)" "aw_log (writer_step w) = aw_log w" unfolding w' by (simp_all add: writer_end_def)
qed

lemma writer_idles:
  assumes inv: "aw_inv N LEN bs w k stored [] False" and "\<not> aw_stopped w"
  shows "aw_inv N LEN bs (writer_step w) k stored [] False" "aw_log (writer_step w) = aw_log w"
    "aw_stopped (writer_step w) = aw_last_look w"
    "\<not> aw_last_look w \<Longrightarrow> aw_last_look (writer_step w) = (fj_told (aw_j w) = RetiredStopWhenDry) \<and> fj_told (aw_j (writer_step w)) = fj_told (aw_j w)"
proof -
  have r: "rg_pop (aw_buf w) (fj_ring (aw_j w)) = (None, aw_buf w, fj_ring (aw_j w))"
    using inv pop_empty [of k "fj_ring (aw_j w)" "aw_buf w"] by (simp add: aw_defs)
  have w': "writer_step w = (if aw_last_look w then writer_end w else if fj_told (aw_j w) = RetiredStopWhenDry then w\<lparr>aw_last_look := True\<rparr> else w)"
    using assms(2) r by (simp add: writer_step_def Let_def)
  show "aw_inv N LEN bs (writer_step w) k stored [] False"
    using inv assms(2) unfolding w' by (auto simp: aw_defs writer_end_def finished_ends intro: flags_look flags_dry flags_dry [where t = RetiredStopWhenDry, simplified])
  show "aw_log (writer_step w) = aw_log w" "aw_stopped (writer_step w) = aw_last_look w"
    "\<not> aw_last_look w \<Longrightarrow> aw_last_look (writer_step w) = (fj_told (aw_j w) = RetiredStopWhenDry) \<and> fj_told (aw_j (writer_step w)) = fj_told (aw_j w)"
    using assms(2) unfolding w' by (simp_all add: writer_end_def)
qed


lemma writer_step_inv:
  assumes "aw_inv N LEN bs w k stored pend stopq"
  shows "\<exists>stored pend stopq. aw_inv N LEN bs (writer_step w) k stored pend stopq"
proof (cases pend)
  case (Cons p ps)
  then show ?thesis using writer_pops(1) [of N LEN bs w k stored p ps stopq] assms by blast
next
  case Nil
  show ?thesis
  proof (cases stopq)
    case True
    then show ?thesis using writer_stops(1) [of N LEN bs w k stored] assms Nil by auto
  next
    case False
    show ?thesis
    proof (cases "aw_stopped w")
      case True
      then have "writer_step w = w" by (simp add: writer_step_def)
      then show ?thesis using assms by auto
    next
      case f: False
      then show ?thesis using writer_idles(1) [of N LEN bs w k stored] assms Nil False by auto
    qed
  qed
qed

lemma async_run_inv: "async_run N LEN bs w \<Longrightarrow> \<exists>k stored pend stopq. aw_inv N LEN bs w k stored pend stopq"
proof (induction rule: async_run.induct)
  case opened
  show ?case using aw_open by blast
next
  case (stepped w w')
  then obtain k stored pend stopq where inv: "aw_inv N LEN bs w k stored pend stopq" by blast
  from stepped(2) show ?case
  proof cases
    case (operated p)
    then show ?thesis using aw_operated [OF inv] by blast
  next
    case (retire_pushed pushed j)
    then show ?thesis using aw_retire_pushed [OF inv] by blast
  next
    case (retire_told pushed)
    then show ?thesis using aw_retire_told [OF inv] by blast
  next
    case (closed_down j)
    then show ?thesis using aw_closed [OF inv] by blast
  next
    case wrote
    then show ?thesis using writer_step_inv [OF inv] by blast
  qed
qed

subsection \<open>Properties\<close>

text \<open>The writer thread loses nothing and keeps the order. In every interleaving of the engine and the
  writer, the file is what it was at opening followed by the records of the first operations whose
  record the ring took, in order and with every message that carries a secret replaced by the mark
  of its number; and once the writer has stopped, however it was told to, by the records of all of them.\<close>

theorem writer_keeps_order:
  assumes "async_run N LEN bs w"
  shows "\<exists>stored pend. aw_log w = stored @ pend \<and> (aw_stopped w \<longrightarrow> pend = []) \<and>
    fj_disk (aw_j w) = fj_disk (FileJournal_open N LEN Async bs) @ file_of (file_format bs) (map redacted stored)"
proof -
  obtain k stored pend stopq where "aw_inv N LEN bs w k stored pend stopq" using async_run_inv [OF assms] by blast
  then have "aw_log w = stored @ pend" "aw_stopped w \<longrightarrow> pend = []"
    "fj_disk (aw_j w) = fj_disk (FileJournal_open N LEN Async bs) @ file_of (file_format bs) (map redacted stored)"
    by (auto simp: aw_defs dest: flags_stopped)
  then show ?thesis by blast
qed

lemma funpow_step: "(writer_step ^^ Suc n) w = (writer_step ^^ n) (writer_step w)"
  by (simp add: funpow_swap1)

lemma writer_finishes:
  "aw_inv N LEN bs w k stored pend stopq \<Longrightarrow> \<not> fj_to_writer (aw_j w) \<Longrightarrow>
   \<exists>n \<le> length pend + 2. \<exists>stored. aw_inv N LEN bs ((writer_step ^^ n) w) k stored [] False \<and> aw_stopped ((writer_step ^^ n) w) \<and>
     aw_log ((writer_step ^^ n) w) = aw_log w"
proof (induction pend arbitrary: w stored)
  case (Cons p pend)
  note pop = writer_pops [OF Cons.prems(1)]
  obtain n stored' where "n \<le> length pend + 2" "aw_inv N LEN bs ((writer_step ^^ n) (writer_step w)) k stored' [] False"
      "aw_stopped ((writer_step ^^ n) (writer_step w))" "aw_log ((writer_step ^^ n) (writer_step w)) = aw_log (writer_step w)"
    using Cons.IH [OF pop(1)] pop(4) Cons.prems(2) by auto
  then show ?case using pop(5) funpow_step [of n w] by (intro exI [of _ "Suc n"]) auto
next
  case Nil
  show ?case
  proof (cases "aw_stopped w")
    case True
    then have "\<not> stopq" using Nil(1) by (auto simp: aw_inv_def dest: flags_stopped)
    then show ?thesis using Nil True by (intro exI [of _ 0] conjI exI [of _ stored]) auto
  next
    case run: False
    show ?thesis
    proof (cases stopq)
      case True
      then show ?thesis using writer_stops [of N LEN bs w k stored] Nil by (intro exI [of _ 1] conjI exI [of _ stored]) auto
    next
      case False
      then have inv: "aw_inv N LEN bs w k stored [] False" using Nil by simp
      show ?thesis
      proof (cases "aw_last_look w")
        case True
        then show ?thesis using writer_idles(1,2,3) [OF inv run] by (intro exI [of _ 1] conjI exI [of _ stored]) auto
      next
        case look: False
        have "fj_told (aw_j w) = RetiredStopWhenDry" using inv Nil(2) run by (auto simp: aw_inv_def aw_flags_def)
        then have s1: "aw_inv N LEN bs (writer_step w) k stored [] False" "aw_log (writer_step w) = aw_log w" "\<not> aw_stopped (writer_step w)" "aw_last_look (writer_step w)"
          using writer_idles [OF inv run] look by simp_all
        from writer_idles(1,2,3) [OF s1(1,3)] s1(2,4) show ?thesis
          by (intro exI [of _ 2] conjI exI [of _ stored]) (auto simp: numeral_2_eq_2)
      qed
    qed
  qed
qed

text \<open>C19: A writer that was retired or closed finishes. Once the engine has given up its end, whether the stop
  record found room or the ring was full, the records the ring took are those the file already holds
  and the ones still waiting, and at most two passes more than there are records waiting end the
  writer: the file then holds every record the ring took, it has been let go of, and nobody waits
  for the writer any more.\<close>

theorem retired_writer_finishes:
  assumes "async_run N LEN bs w" "\<not> fj_to_writer (aw_j w)"
  shows "\<exists>stored waiting. aw_log w = stored @ waiting \<and>
    fj_disk (aw_j w) = fj_disk (FileJournal_open N LEN Async bs) @ file_of (file_format bs) (map redacted stored) \<and>
    (\<exists>n \<le> length waiting + 2. let j = aw_j ((writer_step ^^ n) w) in aw_stopped ((writer_step ^^ n) w) \<and>
      fj_disk j = fj_disk (aw_j w) @ file_of (file_format bs) (map redacted waiting) \<and> fj_released j \<and> fj_waiting j = 0)"
proof -
  obtain k stored pend stopq where inv: "aw_inv N LEN bs w k stored pend stopq" using async_run_inv [OF assms(1)] by blast
  obtain n st where n: "n \<le> length pend + 2" "aw_inv N LEN bs ((writer_step ^^ n) w) k st [] False" "aw_stopped ((writer_step ^^ n) w)"
      "aw_log ((writer_step ^^ n) w) = aw_log w"
    using writer_finishes [OF inv assms(2)] by blast
  have l: "aw_log w = stored @ pend" "fj_disk (aw_j w) = fj_disk (FileJournal_open N LEN Async bs) @ file_of (file_format bs) (map redacted stored)"
    using inv by (simp_all add: aw_defs)
  have "st = stored @ pend" using n(2,4) l(1) by (simp add: aw_defs)
  then have "let j = aw_j ((writer_step ^^ n) w) in aw_stopped ((writer_step ^^ n) w) \<and>
      fj_disk j = fj_disk (aw_j w) @ file_of (file_format bs) (map redacted pend) \<and> fj_released j \<and> fj_waiting j = 0"
    using n(2,3) l(2) by (auto simp: aw_defs aw_flags_def Let_def)
  then show ?thesis using l n(1) by blast
qed


subsection \<open>A restart of an asynchronous journal\<close>

definition aw_numbers :: "nat \<Rightarrow> nat \<Rightarrow> bytes \<Rightarrow> async_world \<Rightarrow> bool" where
  "aw_numbers N LEN bs w \<longleftrightarrow> (\<not> aw_late w \<and> fj_unwritten (aw_j w) = 0 \<longrightarrow>
     same_numbers (fold (replay_op N LEN) (map redacted (aw_log w)) (ld_mem (load_file N LEN bs), ld_last_active (load_file N LEN bs)))
       (fj_mem (aw_j w), fj_last_active (aw_j w)))"

lemma aw_numbers_frame:
  "fj_mem (aw_j w') = fj_mem (aw_j w) \<Longrightarrow> fj_last_active (aw_j w') = fj_last_active (aw_j w) \<Longrightarrow> fj_unwritten (aw_j w') = fj_unwritten (aw_j w) \<Longrightarrow>
   aw_log w' = aw_log w \<Longrightarrow> aw_late w' = aw_late w \<Longrightarrow> aw_numbers N LEN bs w \<Longrightarrow> aw_numbers N LEN bs w'"
  by (simp add: aw_numbers_def)

lemma ticket_mem [simp]: "fj_mem (ticket_finish j) = fj_mem j" "fj_last_active (ticket_finish j) = fj_last_active j" "fj_unwritten (ticket_finish j) = fj_unwritten j"
  by (simp_all add: ticket_finish_def split: told.split)

lemma writer_numbers: "aw_numbers N LEN bs w \<Longrightarrow> aw_numbers N LEN bs (writer_step w)"
  by (erule aw_numbers_frame [rotated -1])
    (simp_all add: writer_step_def writer_end_def Let_def split: prod.splits option.splits)

lemma writes_redacted: "fj_writes N LEN p j \<noteq> [] \<Longrightarrow> fj_writes N LEN p j = [redacted p]"
  by (cases p) (auto split: if_splits)

lemma operate_numbers:
  assumes "fj_how (aw_j w) = Async" "op_ok p" "aw_numbers N LEN bs w"
  shows "aw_numbers N LEN bs (aw_operate N LEN p w)"
  unfolding aw_numbers_def
proof
  let ?j = "aw_j w"
  let ?x = "fold (replay_op N LEN) (map redacted (aw_log w)) (ld_mem (load_file N LEN bs), ld_last_active (load_file N LEN bs))"
  assume "\<not> aw_late (aw_operate N LEN p w) \<and> fj_unwritten (aw_j (aw_operate N LEN p w)) = 0"
  then have late: "\<not> aw_late w" "fj_to_writer ?j" "fj_unwritten (apply_op (FileJournal N LEN) p ?j) = 0" by (auto simp: aw_operate_def)
  obtain parts mem la where op: "apply_op (FileJournal N LEN) p ?j = (if fj_writes N LEN p ?j = [] then id else fj_push parts) (?j\<lparr>fj_mem := mem, fj_last_active := la\<rparr>)"
    using async_pushes [OF assms(1,2), of N LEN] by blast
  have u: "fj_unwritten ?j = 0" using late(2,3) op by (auto simp: fj_push_def split: if_splits prod.splits)
  then have "same_numbers ?x (fj_mem ?j, fj_last_active ?j)" using assms(3) late(1) by (simp add: aw_numbers_def)
  then have a: "same_numbers (fold (replay_op N LEN) (fj_writes N LEN p ?j) ?x) (fj_mem (fj_op N LEN p ?j), fj_last_active (fj_op N LEN p ?j))"
    using writes_agree [of ?x ?j N LEN p] by (simp add: fj_op_mem)
  have "map redacted (took N LEN p ?j) = fj_writes N LEN p ?j"
    using late(2,3) u writes_redacted [of N LEN p ?j] by (auto simp: took_def)
  then show "same_numbers (fold (replay_op N LEN) (map redacted (aw_log (aw_operate N LEN p w))) (ld_mem (load_file N LEN bs), ld_last_active (load_file N LEN bs)))
      (fj_mem (aw_j (aw_operate N LEN p w)), fj_last_active (aw_j (aw_operate N LEN p w)))"
    using a by (simp add: aw_operate_def)
qed

lemma async_run_numbers: "async_run N LEN bs w \<Longrightarrow> aw_numbers N LEN bs w"
proof (induction rule: async_run.induct)
  case opened
  show ?case by (simp add: aw_numbers_def async_open_def FileJournal_open_def Let_def same_numbers_def)
next
  case (stepped w w')
  obtain k stored pend stopq where "aw_inv N LEN bs w k stored pend stopq" using async_run_inv [OF stepped(1)] by blast
  then have how: "fj_how (aw_j w) = Async" by (simp add: aw_defs)
  from stepped(2) show ?case
  proof cases
    case (operated p)
    then show ?thesis using operate_numbers [OF how] stepped(3) by simp
  next
    case (retire_pushed pushed j)
    then have "j = (aw_j w)\<lparr>fj_ring := fj_ring j\<rparr>" by (auto simp: fj_retire_push_def split: prod.splits if_splits)
    then have "fj_mem j = fj_mem (aw_j w)" "fj_last_active j = fj_last_active (aw_j w)" "fj_unwritten j = fj_unwritten (aw_j w)"
      by (metis file_journal.select_convs(1,8,10) file_journal.surjective file_journal.update_convs(14))+
    then show ?thesis using retire_pushed(1) stepped(3) by (simp add: aw_numbers_def)
  next
    case (retire_told pushed)
    then show ?thesis using stepped(3) by (simp add: aw_numbers_def fj_retire_told_def ticket_retire_def Let_def)
  next
    case (closed_down j)
    then have "fj_mem j = fj_mem (aw_j w) \<and> fj_last_active j = fj_last_active (aw_j w) \<and> fj_unwritten j = fj_unwritten (aw_j w)"
      by (auto simp: fj_close_push_def split: prod.splits if_splits)
    then show ?thesis using closed_down(1) stepped(3) by (simp add: aw_numbers_def)
  next
    case wrote
    then show ?thesis using writer_numbers [OF stepped(3)] by simp
  qed
qed

text \<open>A restart of a journal that writes behind the engine's back. On a file that was new, when the writer
  has stopped, no record found the ring full and no operation came after the end, opening the file
  gives the counts and the last activity the running journal had.\<close>

theorem async_restart_restores_numbers:
  assumes "async_run N LEN [] w" "aw_stopped w" "fj_unwritten (aw_j w) = 0" "\<not> aw_late w"
  shows "fj_numbers (FileJournal_open N LEN how (fj_disk (aw_j w))) = fj_numbers (aw_j w)"
proof -
  obtain k stored pend stopq where inv: "aw_inv N LEN [] w k stored pend stopq" using async_run_inv [OF assms(1)] by blast
  have st: "stored = aw_log w" "list_all op_ok (aw_log w)" using inv assms(2) by (auto simp: aw_defs dest: flags_stopped)
  have "fj_disk (FileJournal_open N LEN Async []) = HEADER_V1" "file_format [] = V1" by (simp_all add: FileJournal_open_def Let_def file_format_def)
  then have d: "fj_disk (aw_j w) = HEADER_V1 @ file_of V1 (map redacted (aw_log w))" using inv st(1) by (simp add: aw_defs)
  have ok: "list_all op_ok (map redacted (aw_log w))" using st(2) redacted_ok by (auto simp: list_all_iff)
  have l: "(ld_mem (load_file N LEN []), ld_last_active (load_file N LEN [])) = (MemJournal_new N LEN, None)"
    using load_nothing [of N LEN V1 "[]"] by (simp add: load_file_def file_format_def)
  have "same_numbers (replayed N LEN (map redacted (aw_log w))) (fj_mem (aw_j w), fj_last_active (aw_j w))"
    using async_run_numbers [OF assms(1)] assms(3,4) l by (simp add: aw_numbers_def)
  then show ?thesis using load_whole [OF start_v1 all_parts_ok [OF ok], of N LEN] restore_ops [OF ok, of N LEN] d
    by (simp add: same_numbers_def open_loads file_of_def)
qed


subsection \<open>A sample run\<close>

text \<open>One mark, and the journal is closed before the writer has looked.\<close>

lemma sample_run:
  "\<exists>w. async_run 4 64 [] w \<and> aw_log w = [MarkIn 3] \<and> \<not> fj_to_writer (aw_j w) \<and> fj_unwritten (aw_j w) = 0 \<and> \<not> aw_late w \<and>
     mj_highest_in (fj_mem (aw_j w)) = Some 3"
proof -
  define j0 where "j0 = FileJournal_open 4 64 Async []"
  obtain k where k: "rg_rep k (rg_pair (2 ^ 20)) []" "2 ^ 20 \<le> (2 :: nat) ^ k" using pair_rep [of "2 ^ 20"] by auto
  have j0: "fj_ring j0 = rg_pair (2 ^ 20)" "fj_to_writer j0" "fj_how j0 = Async" "fj_unwritten j0 = 0" by (simp_all add: j0_def FileJournal_open_def Let_def)
  have body: "length (op_body (MarkIn 3)) = 8" by (simp add: op_body_def)
  have "rg_accepts k [] (concat [to_le 4 3, to_le 4 0])" using k(2) by (simp add: rg_accepts_def)
  then obtain r where r: "rg_push [to_le 4 3, to_le 4 0] (rg_pair (2 ^ 20)) = (True, r)" "rg_rep k r [concat [to_le 4 3, to_le 4 0]]"
    using push_refines [OF k(1), of "[to_le 4 3, to_le 4 0]"] by auto
  define w1 where "w1 = aw_operate 4 64 (MarkIn 3) (async_open 4 64 [])"
  have op: "apply_op (FileJournal 4 64) (MarkIn 3) j0 = j0\<lparr>fj_mem := mj_mark_in 3 (fj_mem j0), fj_ring := r\<rparr>"
    using j0 r(1) by (simp add: FileJournal_def fj_mark_in_def fj_push_def Let_def)
  then have "took 4 64 (MarkIn 3) j0 = [MarkIn 3]" using j0(2) by (simp add: took_def)
  then have w1: "aw_j w1 = j0\<lparr>fj_mem := mj_mark_in 3 (fj_mem j0), fj_ring := r\<rparr>" "aw_log w1 = [MarkIn 3]" "\<not> aw_late w1" "aw_retiring w1 = None"
    using op j0(2) by (simp_all add: w1_def aw_operate_def async_open_def j0_def [symmetric])
  have "rg_accepts k [concat [to_le 4 3, to_le 4 0]] (concat [[STOP]])" using k(2) by (simp add: rg_accepts_def)
  then obtain r' where r': "rg_push [[STOP]] r = (True, r')" using push_refines [OF r(2), of "[[STOP]]"] by auto
  define w2 where "w2 = w1\<lparr>aw_j := (aw_j w1)\<lparr>fj_ring := r', fj_to_writer := False, fj_writer := False\<rparr>\<rparr>"
  have c: "fj_close_push (aw_j w1) = Some ((aw_j w1)\<lparr>fj_ring := r', fj_to_writer := False, fj_writer := False\<rparr>)"
    using w1(1) j0(2) r' by (simp add: fj_close_push_def)
  have "async_step 4 64 (async_open 4 64 []) w1" unfolding w1_def by (rule async_step.operated) (simp_all add: async_open_def)
  moreover have "async_step 4 64 w1 w2" unfolding w2_def by (rule async_step.closed_down [OF w1(4) c])
  ultimately have "async_run 4 64 [] w2" by (blast intro: async_run.opened async_run.stepped)
  moreover have "mj_highest_in (fj_mem j0) = None"
    by (simp add: j0_def FileJournal_open_def Let_def load_file_def file_format_def load_loop_cut [of _ _ _ "[]" 0] cut_record_def MemJournal_new_def)
  ultimately show ?thesis using w1 j0 by (intro exI [of _ w2]) (simp add: w2_def mj_high_marks raise_mark_def)
qed

theorem writer_keeps_order_witness: "\<exists>(w :: async_world) stored pend. aw_log w = [MarkIn 3] \<and> [MarkIn 3] = stored @ pend \<and> fj_disk (aw_j w) = HEADER_V1 @ file_of V1 (map redacted stored)"
proof -
  obtain w where w: "async_run 4 64 [] w" "aw_log w = [MarkIn 3]" using sample_run by blast
  have "fj_disk (FileJournal_open 4 64 Async []) = HEADER_V1" "file_format [] = V1" by (simp_all add: FileJournal_open_def Let_def file_format_def)
  then obtain stored pend where "[MarkIn 3] = stored @ pend" "fj_disk (aw_j w) = HEADER_V1 @ file_of V1 (map redacted stored)"
    using writer_keeps_order [OF w(1)] w(2) by auto
  then show ?thesis using w(2) by blast
qed

theorem retired_writer_finishes_witness:
  "\<exists>w n. n \<le> 3 \<and> fj_disk (aw_j ((writer_step ^^ n) w)) = HEADER_V1 @ op_record V1 (MarkIn 3) \<and> fj_released (aw_j ((writer_step ^^ n) w))"
proof -
  obtain w where w: "async_run 4 64 [] w" "aw_log w = [MarkIn 3]" "\<not> fj_to_writer (aw_j w)" using sample_run by blast
  have o: "fj_disk (FileJournal_open 4 64 Async []) = HEADER_V1" "file_format [] = V1" by (simp_all add: FileJournal_open_def Let_def file_format_def)
  obtain stored waiting n where a: "[MarkIn 3] = stored @ waiting" "fj_disk (aw_j w) = HEADER_V1 @ file_of V1 (map redacted stored)"
      "n \<le> length waiting + 2" "fj_disk (aw_j ((writer_step ^^ n) w)) = fj_disk (aw_j w) @ file_of V1 (map redacted waiting)"
      "fj_released (aw_j ((writer_step ^^ n) w))"
    using retired_writer_finishes [OF w(1,3)] w(2) o by (auto simp: Let_def)
  have "length waiting \<le> 1" using a(1) by (metis One_nat_def le_add2 length_Cons length_append list.size(3))
  moreover have "file_of V1 (map redacted stored) @ file_of V1 (map redacted waiting) = op_record V1 (MarkIn 3)"
    using arg_cong [OF a(1), of "\<lambda>ps. file_of V1 (map redacted ps)"] by simp
  ultimately show ?thesis using a(2-5) by (intro exI [of _ w] exI [of _ n]) simp
qed

lemma writer_runs: "async_run N LEN bs w \<Longrightarrow> async_run N LEN bs ((writer_step ^^ n) w)"
  by (induction n) (auto intro: async_run.stepped async_step.wrote)

lemma writer_frame: "fj_mem (aw_j ((writer_step ^^ n) w)) = fj_mem (aw_j w)" "fj_unwritten (aw_j ((writer_step ^^ n) w)) = fj_unwritten (aw_j w)" "aw_late ((writer_step ^^ n) w) = aw_late w"
proof -
  have 1: "fj_mem (aw_j (writer_step w)) = fj_mem (aw_j w)" "fj_unwritten (aw_j (writer_step w)) = fj_unwritten (aw_j w)" "aw_late (writer_step w) = aw_late w" for w
    by (simp_all add: writer_step_def writer_end_def Let_def split: prod.split option.split)
  show "fj_mem (aw_j ((writer_step ^^ n) w)) = fj_mem (aw_j w)" "fj_unwritten (aw_j ((writer_step ^^ n) w)) = fj_unwritten (aw_j w)" "aw_late ((writer_step ^^ n) w) = aw_late w"
    by (induction n; simp add: 1)+
qed

theorem async_restart_restores_numbers_witness:
  "\<exists>w :: async_world. aw_stopped w \<and> mj_highest_in (fj_mem (FileJournal_open 4 64 Fsync (fj_disk (aw_j w)))) = Some 3"
proof -
  obtain w where w: "async_run 4 64 [] w" "\<not> fj_to_writer (aw_j w)" "fj_unwritten (aw_j w) = 0" "\<not> aw_late w" "mj_highest_in (fj_mem (aw_j w)) = Some 3"
    using sample_run by blast
  obtain k stored pend stopq where "aw_inv 4 64 [] w k stored pend stopq" using async_run_inv [OF w(1)] by blast
  then obtain n where n: "aw_stopped ((writer_step ^^ n) w)" using writer_finishes [of 4 64 "[]" w k stored pend stopq] w(2) by blast
  have "mj_highest_in (fj_mem (FileJournal_open 4 64 Fsync (fj_disk (aw_j ((writer_step ^^ n) w))))) = Some 3"
    using async_restart_restores_numbers [OF writer_runs [OF w(1)] n, of Fsync] w(3-5) by (simp add: writer_frame)
  then show ?thesis using n by blast
qed

end
