(* ===== verification/Sbe_Wire.thy ===== *)
theory Sbe_Wire
  imports Le_Bytes
begin

text \<open>
  The wire level of the binary encoding, \<open>crates/sbe/src\<close>: errors, byte orders, integers of a width
  (\<open>wire.rs\<close>), the IEEE 754 conversions the reader and the writer use, the message header (\<open>header.rs\<close>)
  and the layout tables of a schema (\<open>schema.rs\<close>). A generated schema is the record \<open>schema\<close>, a
  parameter. A floating-point value is its 64-bit pattern as a number.
\<close>

subsection \<open>Errors and byte orders\<close>

datatype sbe_error = Truncated | FieldOutsideBlock | WrongSchema | UnknownTemplate | NoSuchElement | BufferTooSmall
  | UnknownField | WrongLength | BadValue | LengthOverflow | OutOfOrder

datatype byte_order = Little | Big

fun from_order :: "byte_order \<Rightarrow> bytes \<Rightarrow> nat" where
  "from_order Little bs = from_le bs"
| "from_order Big bs = from_le (rev bs)"

fun to_order :: "byte_order \<Rightarrow> nat \<Rightarrow> nat \<Rightarrow> bytes" where
  "to_order Little n v = to_le n v"
| "to_order Big n v = rev (to_le n v)"

text \<open>The two's complement reading of an \<open>n\<close>-byte pattern, and the pattern of a signed value.\<close>

definition as_signed :: "nat \<Rightarrow> nat \<Rightarrow> int" where
  "as_signed n u = (if u < 2 ^ (8 * n - 1) then int u else int u - 2 ^ (8 * n))"

definition as_pattern :: "nat \<Rightarrow> int \<Rightarrow> nat" where
  "as_pattern n i = nat (i mod 2 ^ (8 * n))"

subsection \<open>Reading and writing\<close>

definition wire_slice :: "bytes \<Rightarrow> nat \<Rightarrow> nat \<Rightarrow> sbe_error + bytes" where
  "wire_slice buf at len = bindR (ok_or (checked_add U64_MAX at len) Truncated) (\<lambda>end'. ok_or (get_range buf at end') Truncated)"

definition wire_array :: "nat \<Rightarrow> bytes \<Rightarrow> nat \<Rightarrow> sbe_error + bytes" where
  "wire_array n buf at = bindR (ok_or (checked_add U64_MAX at n) Truncated) (\<lambda>end'. ok_or (get_range buf at end') Truncated)"

definition read_uint :: "nat \<Rightarrow> bytes \<Rightarrow> nat \<Rightarrow> byte_order \<Rightarrow> sbe_error + nat" where
  "read_uint n buf at order = bindR (wire_array n buf at) (\<lambda>bs. Inr (from_order order bs))"

definition read_int :: "nat \<Rightarrow> bytes \<Rightarrow> nat \<Rightarrow> byte_order \<Rightarrow> sbe_error + int" where
  "read_int n buf at order = bindR (wire_array n buf at) (\<lambda>bs. Inr (as_signed n (from_order order bs)))"

definition read_u8 :: "bytes \<Rightarrow> nat \<Rightarrow> sbe_error + byte" where
  "read_u8 buf at = ok_or (nth_opt buf at) Truncated"

definition write_slice :: "bytes \<Rightarrow> nat \<Rightarrow> bytes \<Rightarrow> sbe_error + bytes" where
  "write_slice out at src = bindR (ok_or (checked_add U64_MAX at (length src)) BufferTooSmall) (\<lambda>_. ok_or (write_at out at src) BufferTooSmall)"

definition wire_fill :: "bytes \<Rightarrow> nat \<Rightarrow> nat \<Rightarrow> byte \<Rightarrow> sbe_error + bytes" where
  "wire_fill out at len x = bindR (ok_or (checked_add U64_MAX at len) BufferTooSmall) (\<lambda>_. ok_or (write_at out at (replicate len x)) BufferTooSmall)"

definition write_uint :: "nat \<Rightarrow> bytes \<Rightarrow> nat \<Rightarrow> nat \<Rightarrow> byte_order \<Rightarrow> sbe_error + bytes" where
  "write_uint n out at v order = write_slice out at (to_order order n v)"

definition write_int :: "nat \<Rightarrow> bytes \<Rightarrow> nat \<Rightarrow> int \<Rightarrow> byte_order \<Rightarrow> sbe_error + bytes" where
  "write_int n out at v order = write_slice out at (to_order order n (as_pattern n v))"

definition write_u8 :: "bytes \<Rightarrow> nat \<Rightarrow> byte \<Rightarrow> sbe_error + bytes" where
  "write_u8 out at v = (if at < length out then Inr (out[at := v]) else Inl BufferTooSmall)"

subsection \<open>IEEE 754 patterns\<close>

text \<open>\<open>f64::from(f32)\<close> is exact; a NaN stays a NaN and becomes quiet. \<open>f as f32\<close> rounds to nearest, ties
  to even.\<close>

definition floor_log2 :: "nat \<Rightarrow> nat" where
  "floor_log2 m = Max (set (filter (\<lambda>k. 2 ^ k \<le> m) [0..<64]))"

definition quiet :: "nat \<Rightarrow> nat" where
  "quiet m = (if m < 2 ^ 22 then m + 2 ^ 22 else m)"

definition f32_to_f64 :: "nat \<Rightarrow> nat" where
  "f32_to_f64 p =
     (let s = p div 2 ^ 31; e = p div 2 ^ 23 mod 256; m = p mod 2 ^ 23 in
      s * 2 ^ 63 +
      (if e = 255 then 2047 * 2 ^ 52 + (if m = 0 then 0 else quiet m * 2 ^ 29)
       else if e = 0 then (if m = 0 then 0 else let k = floor_log2 m in (k + 874) * 2 ^ 52 + (m - 2 ^ k) * 2 ^ (52 - k))
       else (e + 896) * 2 ^ 52 + m * 2 ^ 29))"

definition round_even :: "nat \<Rightarrow> nat \<Rightarrow> nat" where
  "round_even x k = (let q = x div 2 ^ k; r = x mod 2 ^ k; h = 2 ^ (k - 1) in if r > h \<or> r = h \<and> odd q then q + 1 else q)"

definition f64_to_f32 :: "nat \<Rightarrow> nat" where
  "f64_to_f32 p =
     (let s = p div 2 ^ 63; e = p div 2 ^ 52 mod 2048; m = p mod 2 ^ 52 in
      s * 2 ^ 31 +
      (if e = 2047 then (if m = 0 then 255 * 2 ^ 23 else 255 * 2 ^ 23 + quiet (m div 2 ^ 29))
       else if e = 0 then 0
       else let sig = 2 ^ 52 + m in
         if e \<ge> 897 then min (255 * 2 ^ 23) ((e - 897) * 2 ^ 23 + round_even sig 29) else round_even sig (926 - e)))"

definition f64_is_nan :: "nat \<Rightarrow> bool" where
  "f64_is_nan p \<longleftrightarrow> p div 2 ^ 52 mod 2048 = 2047 \<and> p mod 2 ^ 52 \<noteq> 0"

definition f64_is_finite :: "nat \<Rightarrow> bool" where
  "f64_is_finite p \<longleftrightarrow> p div 2 ^ 52 mod 2048 \<noteq> 2047"

definition f64_eq :: "nat \<Rightarrow> nat \<Rightarrow> bool" where
  "f64_eq p q \<longleftrightarrow> \<not> f64_is_nan p \<and> \<not> f64_is_nan q \<and> (p = q \<or> p mod 2 ^ 63 = 0 \<and> q mod 2 ^ 63 = 0)"

abbreviation F32_MAX :: nat where "F32_MAX \<equiv> 2139095039"

subsection \<open>The layout tables\<close>

datatype primitive = Char | Int8 | Int16 | Int32 | Int64 | UInt8 | UInt16 | UInt32 | UInt64 | Float | Double

fun prim_size :: "primitive \<Rightarrow> nat" where
  "prim_size Char = 1" | "prim_size Int8 = 1" | "prim_size UInt8 = 1"
| "prim_size Int16 = 2" | "prim_size UInt16 = 2"
| "prim_size Int32 = 4" | "prim_size UInt32 = 4" | "prim_size Float = 4"
| "prim_size Int64 = 8" | "prim_size UInt64 = 8" | "prim_size Double = 8"

datatype sbe_value = VChar byte | VInt int | VUInt nat | VFloat nat | VArray bytes

text \<open>The derived \<open>PartialEq\<close> of \<open>Value\<close>.\<close>

fun value_eq :: "sbe_value \<Rightarrow> sbe_value \<Rightarrow> bool" where
  "value_eq (VFloat p) (VFloat q) = f64_eq p q"
| "value_eq v w = (v = w)"

datatype presence = Required | Optional sbe_value | Constant sbe_value

record element =
  el_name :: string
  el_offset :: nat
  el_primitive :: primitive
  el_length :: nat
  el_presence :: presence

definition el_wire_len :: "element \<Rightarrow> nat" where
  "el_wire_len e = (case el_presence e of Constant _ \<Rightarrow> 0 | _ \<Rightarrow> prim_size (el_primitive e) * el_length e)"

record field_layout =
  fl_id :: nat
  fl_name :: string
  fl_offset :: nat
  fl_len :: nat
  fl_since :: nat
  fl_elements :: "element list"

datatype length_type = U8 | U16 | U32

fun lt_size :: "length_type \<Rightarrow> nat" where
  "lt_size U8 = 1" | "lt_size U16 = 2" | "lt_size U32 = 4"

record dimension_layout =
  dm_block_length :: length_type
  dm_num_in_group :: length_type

definition dm_size :: "dimension_layout \<Rightarrow> nat" where
  "dm_size d = lt_size (dm_block_length d) + lt_size (dm_num_in_group d)"

record var_data_layout =
  vl_id :: nat
  vl_name :: string
  vl_length :: length_type
  vl_since :: nat

datatype group_layout = GroupLayout (gl_id: nat) (gl_name: string) (gl_block_length: nat) (gl_since: nat)
  (gl_dimension: dimension_layout) (gl_fields: "field_layout list") (gl_groups: "group_layout list") (gl_var_data: "var_data_layout list")

record message_layout =
  ml_template_id :: nat
  ml_name :: string
  ml_block_length :: nat
  ml_since :: nat
  ml_fields :: "field_layout list"
  ml_groups :: "group_layout list"
  ml_var_data :: "var_data_layout list"

definition ml_field :: "message_layout \<Rightarrow> nat \<Rightarrow> field_layout option" where
  "ml_field l i = List.find (\<lambda>f. fl_id f = i) (ml_fields l)"

definition gl_field :: "group_layout \<Rightarrow> nat \<Rightarrow> field_layout option" where
  "gl_field l i = List.find (\<lambda>f. fl_id f = i) (gl_fields l)"

definition fl_element :: "field_layout \<Rightarrow> string \<Rightarrow> element option" where
  "fl_element f n = List.find (\<lambda>e. el_name e = n) (fl_elements f)"

record schema =
  sm_id :: nat
  sm_version :: nat
  sm_byte_order :: byte_order
  sm_message :: "nat \<Rightarrow> message_layout option"

subsection \<open>The message header\<close>

abbreviation HEADER_LEN :: nat where "HEADER_LEN \<equiv> 8"

record message_header =
  mh_block_length :: nat
  mh_template_id :: nat
  mh_schema_id :: nat
  mh_version :: nat

definition header_decode :: "bytes \<Rightarrow> byte_order \<Rightarrow> sbe_error + message_header" where
  "header_decode buf order =
     bindR (read_uint 2 buf 0 order) (\<lambda>block_length.
     bindR (read_uint 2 buf 2 order) (\<lambda>template_id.
     bindR (read_uint 2 buf 4 order) (\<lambda>schema_id.
     bindR (read_uint 2 buf 6 order) (\<lambda>version.
       Inr \<lparr>mh_block_length = block_length, mh_template_id = template_id, mh_schema_id = schema_id, mh_version = version\<rparr>))))"

definition header_encode :: "message_header \<Rightarrow> bytes \<Rightarrow> byte_order \<Rightarrow> sbe_error + bytes" where
  "header_encode h out order =
     (if length out < HEADER_LEN then Inl BufferTooSmall
      else bindR (write_uint 2 out 0 (mh_block_length h) order) (\<lambda>out.
        bindR (write_uint 2 out 2 (mh_template_id h) order) (\<lambda>out.
        bindR (write_uint 2 out 4 (mh_schema_id h) order) (\<lambda>out.
          write_uint 2 out 6 (mh_version h) order))))"

subsection \<open>Integers of a width\<close>

lemma length_to_order [simp]: "length (to_order o' n v) = n"
  by (cases o') simp_all

lemma from_to_order [simp]: "from_order o' (to_order o' n v) = v mod 256 ^ n"
  by (cases o') simp_all

lemma from_order_bound: "from_order o' bs < 256 ^ length bs"
  using from_le_bound [of bs] from_le_bound [of "rev bs"] by (cases o') simp_all

lemma as_signed_pattern:
  assumes "0 < n" "- (2 ^ (8 * n - 1)) \<le> i" "i < 2 ^ (8 * n - 1)"
  shows "as_signed n (as_pattern n i) = i \<and> as_pattern n i < 256 ^ n"
proof -
  have two: "(2 :: int) ^ (8 * n) = 2 * 2 ^ (8 * n - 1)" using assms(1) by (simp flip: power_Suc)
  have pos: "(0 :: int) \<le> i mod 2 ^ (8 * n)" by simp
  have eq: "i mod 2 ^ (8 * n) = (if 0 \<le> i then i else i + 2 ^ (8 * n))"
  proof (cases "0 \<le> i")
    case True
    then show ?thesis using assms two by (simp add: mod_pos_pos_trivial)
  next
    case False
    have "i mod 2 ^ (8 * n) = (i + 2 ^ (8 * n)) mod 2 ^ (8 * n)" by simp
    also have "\<dots> = i + 2 ^ (8 * n)" using False assms two by (intro mod_pos_pos_trivial) linarith+
    finally show ?thesis using False by simp
  qed
  have n: "int (as_pattern n i) = i mod 2 ^ (8 * n)" by (simp add: as_pattern_def)
  have "int (as_pattern n i) < 2 ^ (8 * n)" unfolding n by simp
  then have "as_pattern n i < 2 ^ (8 * n)" by (metis of_nat_less_iff of_nat_numeral of_nat_power)
  moreover have "as_signed n (as_pattern n i) = i"
  proof -
    have c: "as_pattern n i < 2 ^ (8 * n - 1) \<longleftrightarrow> int (as_pattern n i) < 2 ^ (8 * n - 1)"
      by (metis of_nat_less_iff of_nat_numeral of_nat_power)
    show ?thesis unfolding as_signed_def c unfolding n eq using assms two by auto
  qed
  ultimately show ?thesis by (simp add: pow_256)
qed

lemma wire_slice_Inr: "wire_slice buf at len = Inr bs \<longleftrightarrow> at + len \<le> U64_MAX \<and> at + len \<le> length buf \<and> bs = take len (drop at buf)"
  by (auto simp: wire_slice_def checked_add_def get_range_def ok_or_def)

lemma wire_slice_Inl: "wire_slice buf at len = Inl e \<longleftrightarrow> e = Truncated \<and> \<not> (at + len \<le> U64_MAX \<and> at + len \<le> length buf)"
  by (auto simp: wire_slice_def checked_add_def get_range_def ok_or_def)

lemma wire_array_slice: "wire_array n buf at = wire_slice buf at n"
  by (simp add: wire_array_def wire_slice_def)

lemma read_uint_Inr: "read_uint n buf at o' = Inr v \<longleftrightarrow> at + n \<le> U64_MAX \<and> at + n \<le> length buf \<and> v = from_order o' (take n (drop at buf))"
  by (auto simp: read_uint_def wire_array_slice bindR_Inr_iff wire_slice_Inr)

lemma read_uint_Inl: "read_uint n buf at o' = Inl e \<longleftrightarrow> e = Truncated \<and> \<not> (at + n \<le> U64_MAX \<and> at + n \<le> length buf)"
  by (auto simp: read_uint_def wire_array_slice bindR_Inl_iff wire_slice_Inl)

lemma read_uint_bound: "read_uint n buf at o' = Inr v \<Longrightarrow> v < 256 ^ n"
proof -
  assume "read_uint n buf at o' = Inr v"
  then have "v = from_order o' (take n (drop at buf))" "length (take n (drop at buf)) = n" by (auto simp: read_uint_Inr)
  then show ?thesis using from_order_bound [of o' "take n (drop at buf)"] by (simp del: length_take)
qed

lemma read_int_uint: "read_int n buf at o' = map_sum id (as_signed n) (read_uint n buf at o')"
  by (cases "wire_array n buf at") (simp_all add: read_int_def read_uint_def)

lemma write_slice_Inr:
  "write_slice out at src = Inr out' \<longleftrightarrow> at + length src \<le> U64_MAX \<and> at + length src \<le> length out \<and>
     out' = take at out @ src @ drop (at + length src) out"
  by (auto simp: write_slice_def checked_add_def write_at_def ok_or_def)

lemma write_slice_Inl: "write_slice out at src = Inl e \<longleftrightarrow> e = BufferTooSmall \<and> \<not> (at + length src \<le> U64_MAX \<and> at + length src \<le> length out)"
  by (auto simp: write_slice_def checked_add_def write_at_def ok_or_def)

lemma wire_fill_eq: "wire_fill out at len x = write_slice out at (replicate len x)"
  by (simp add: wire_fill_def write_slice_def)

lemma write_u8_slice: "length out \<le> U64_MAX \<Longrightarrow> write_u8 out at v = write_slice out at [v]"
  by (auto simp: write_u8_def write_slice_def checked_add_def write_at_def ok_or_def upd_conv_take_nth_drop)

subsection \<open>The header round trip\<close>

definition header_bytes :: "message_header \<Rightarrow> byte_order \<Rightarrow> bytes" where
  "header_bytes h o' = to_order o' 2 (mh_block_length h) @ to_order o' 2 (mh_template_id h) @ to_order o' 2 (mh_schema_id h) @ to_order o' 2 (mh_version h)"

definition header_ok :: "message_header \<Rightarrow> bool" where
  "header_ok h \<longleftrightarrow> mh_block_length h \<le> U16_MAX \<and> mh_template_id h \<le> U16_MAX \<and> mh_schema_id h \<le> U16_MAX \<and> mh_version h \<le> U16_MAX"

lemma length_header_bytes [simp]: "length (header_bytes h o') = 8"
  by (simp add: header_bytes_def)

lemma read_uint_at:
  assumes "length pre = at" "at + n \<le> U64_MAX"
  shows "read_uint n (pre @ to_order o' n v @ rest) at o' = Inr (v mod 256 ^ n)"
  using assms by (auto simp: read_uint_Inr)

lemma header_encode_eq:
  assumes "8 \<le> length out"
  shows "header_encode h out o' = Inr (header_bytes h o' @ drop 8 out)"
proof -
  have w: "write_uint 2 (pre @ ys) k v o' = Inr (pre @ to_order o' 2 v @ drop 2 ys)" if "k = length pre" "2 \<le> length ys" "k < 8" for pre ys k v
    using that by (simp add: write_uint_def write_slice_Inr)
  let ?A = "to_order o' 2 (mh_block_length h)" and ?B = "to_order o' 2 (mh_template_id h)" and ?C = "to_order o' 2 (mh_schema_id h)"
  have "write_uint 2 out 0 (mh_block_length h) o' = Inr (?A @ drop 2 out)" using w [of 0 "[]" out] assms by simp
  moreover have "write_uint 2 (?A @ drop 2 out) 2 (mh_template_id h) o' = Inr ((?A @ ?B) @ drop 4 out)"
    using w [of 2 ?A "drop 2 out"] assms by simp
  moreover have "write_uint 2 ((?A @ ?B) @ drop 4 out) 4 (mh_schema_id h) o' = Inr ((?A @ ?B @ ?C) @ drop 6 out)"
    using w [of 4 "?A @ ?B" "drop 4 out"] assms by simp
  moreover have "write_uint 2 ((?A @ ?B @ ?C) @ drop 6 out) 6 (mh_version h) o' = Inr (header_bytes h o' @ drop 8 out)"
    using w [of 6 "?A @ ?B @ ?C" "drop 6 out"] assms by (simp add: header_bytes_def)
  ultimately show ?thesis using assms by (simp add: header_encode_def)
qed

lemma header_decode_bytes:
  assumes "header_ok h"
  shows "header_decode (header_bytes h o' @ rest) o' = Inr h"
proof -
  let ?A = "to_order o' 2 (mh_block_length h)" and ?B = "to_order o' 2 (mh_template_id h)" and ?C = "to_order o' 2 (mh_schema_id h)"
    and ?D = "to_order o' 2 (mh_version h)"
  have "read_uint 2 (header_bytes h o' @ rest) 0 o' = Inr (mh_block_length h)"
    using read_uint_at [of "[]" 0 2 o' "mh_block_length h" "?B @ ?C @ ?D @ rest"] assms by (simp add: header_bytes_def header_ok_def)
  moreover have "read_uint 2 (header_bytes h o' @ rest) 2 o' = Inr (mh_template_id h)"
    using read_uint_at [of ?A 2 2 o' "mh_template_id h" "?C @ ?D @ rest"] assms by (simp add: header_bytes_def header_ok_def)
  moreover have "read_uint 2 (header_bytes h o' @ rest) 4 o' = Inr (mh_schema_id h)"
    using read_uint_at [of "?A @ ?B" 4 2 o' "mh_schema_id h" "?D @ rest"] assms by (simp add: header_bytes_def header_ok_def)
  moreover have "read_uint 2 (header_bytes h o' @ rest) 6 o' = Inr (mh_version h)"
    using read_uint_at [of "?A @ ?B @ ?C" 6 2 o' "mh_version h" rest] assms by (simp add: header_bytes_def header_ok_def)
  ultimately show ?thesis by (simp add: header_decode_def)
qed

text \<open>A header is read from its first eight bytes, or not at all.\<close>

lemma header_decode_cases:
  "header_decode buf o' = (if length buf < 8 then Inl Truncated
     else Inr \<lparr>mh_block_length = from_order o' (take 2 buf), mh_template_id = from_order o' (take 2 (drop 2 buf)),
       mh_schema_id = from_order o' (take 2 (drop 4 buf)), mh_version = from_order o' (take 2 (drop 6 buf))\<rparr>)"
proof -
  have r: "read_uint 2 buf k o' = (if k + 2 \<le> length buf then Inr (from_order o' (take 2 (drop k buf))) else Inl Truncated)" if "k < 8" for k
    using that by (auto simp: read_uint_Inr read_uint_Inl)
  show ?thesis by (simp add: header_decode_def r)
qed

end
