(* ===== verification/Sbe_View.thy ===== *)
theory Sbe_View
  imports Sbe_Wire
begin

text \<open>
  The reader of the binary encoding: the view of a message and its blocks (\<open>view.rs\<close>), groups and
  their entries (\<open>group.rs\<close>) and variable-length data (\<open>vardata.rs\<close>), and what the bytes read depend on.
\<close>

subsection \<open>Blocks, fields and values\<close>

record sbe_view =
  vw_buf :: bytes
  vw_block_offset :: nat
  vw_template_id :: nat
  vw_schema_id :: nat
  vw_version :: nat

record block =
  bk_bytes :: bytes
  bk_order :: byte_order
  bk_version :: nat

record field_ref =
  fr_data :: bytes
  fr_layout :: field_layout
  fr_order :: byte_order

record cursor =
  cr_buf :: bytes
  cr_pos :: nat
  cr_order :: byte_order
  cr_version :: nat

definition from_header :: "bytes \<Rightarrow> message_header \<Rightarrow> sbe_view" where
  "from_header buf h = \<lparr>vw_buf = buf, vw_block_offset = HEADER_LEN, vw_template_id = mh_template_id h, vw_schema_id = mh_schema_id h,
     vw_version = mh_version h\<rparr>"

definition SbeView_new :: "bytes \<Rightarrow> byte_order \<Rightarrow> sbe_error + sbe_view" where
  "SbeView_new buf order =
     bindR (header_decode buf order) (\<lambda>h.
     bindR (wire_slice buf HEADER_LEN (mh_block_length h)) (\<lambda>_.
       Inr \<lparr>vw_buf = buf, vw_block_offset = HEADER_LEN, vw_template_id = mh_template_id h, vw_schema_id = mh_schema_id h,
         vw_version = mh_version h\<rparr>))"

definition SbeView_decode :: "schema \<Rightarrow> bytes \<Rightarrow> sbe_error + sbe_view" where
  "SbeView_decode S buf = SbeView_new buf (sm_byte_order S)"

definition vw_block_length :: "byte_order \<Rightarrow> sbe_view \<Rightarrow> sbe_error + nat" where
  "vw_block_length order v = read_uint 2 (vw_buf v) 0 order"

definition vw_root_end :: "byte_order \<Rightarrow> sbe_view \<Rightarrow> sbe_error + nat" where
  "vw_root_end order v = bindR (vw_block_length order v) (\<lambda>len. ok_or (checked_add U64_MAX (vw_block_offset v) len) Truncated)"

definition vw_layout :: "schema \<Rightarrow> sbe_view \<Rightarrow> sbe_error + message_layout" where
  "vw_layout S v = (if vw_schema_id v \<noteq> sm_id S then Inl WrongSchema else ok_or (sm_message S (vw_template_id v)) UnknownTemplate)"

definition vw_root :: "schema \<Rightarrow> sbe_view \<Rightarrow> sbe_error + block" where
  "vw_root S v =
     bindR (vw_block_length (sm_byte_order S) v) (\<lambda>len.
     bindR (wire_slice (vw_buf v) (vw_block_offset v) len) (\<lambda>bs.
       Inr \<lparr>bk_bytes = bs, bk_order = sm_byte_order S, bk_version = vw_version v\<rparr>))"

definition vw_tail :: "schema \<Rightarrow> sbe_view \<Rightarrow> sbe_error + cursor" where
  "vw_tail S v =
     bindR (vw_root_end (sm_byte_order S) v) (\<lambda>at.
       Inr \<lparr>cr_buf = vw_buf v, cr_pos = at, cr_order = sm_byte_order S, cr_version = vw_version v\<rparr>)"

definition outside_block :: "sbe_error + 'a \<Rightarrow> sbe_error + 'a" where
  "outside_block r = (case r of Inl _ \<Rightarrow> Inl FieldOutsideBlock | Inr x \<Rightarrow> Inr x)"

definition bk_field :: "field_layout \<Rightarrow> block \<Rightarrow> sbe_error + field_ref option" where
  "bk_field f bk =
     (if fl_since f > bk_version bk then Inr None
      else bindR (if fl_len f = 0 then Inr [] else outside_block (wire_slice (bk_bytes bk) (fl_offset f) (fl_len f)))
        (\<lambda>bs. Inr (Some \<lparr>fr_data = bs, fr_layout = f, fr_order = bk_order bk\<rparr>)))"

fun read_scalar :: "bytes \<Rightarrow> nat \<Rightarrow> primitive \<Rightarrow> byte_order \<Rightarrow> sbe_error + sbe_value" where
  "read_scalar bs at Char order = bindR (read_u8 bs at) (\<lambda>x. Inr (VChar x))"
| "read_scalar bs at Int8 order = bindR (read_u8 bs at) (\<lambda>x. Inr (VInt (as_signed 1 (unat x))))"
| "read_scalar bs at Int16 order = bindR (read_int 2 bs at order) (\<lambda>i. Inr (VInt i))"
| "read_scalar bs at Int32 order = bindR (read_int 4 bs at order) (\<lambda>i. Inr (VInt i))"
| "read_scalar bs at Int64 order = bindR (read_int 8 bs at order) (\<lambda>i. Inr (VInt i))"
| "read_scalar bs at UInt8 order = bindR (read_u8 bs at) (\<lambda>x. Inr (VUInt (unat x)))"
| "read_scalar bs at UInt16 order = bindR (read_uint 2 bs at order) (\<lambda>u. Inr (VUInt u))"
| "read_scalar bs at UInt32 order = bindR (read_uint 4 bs at order) (\<lambda>u. Inr (VUInt u))"
| "read_scalar bs at UInt64 order = bindR (read_uint 8 bs at order) (\<lambda>u. Inr (VUInt u))"
| "read_scalar bs at Float order = bindR (read_uint 4 bs at order) (\<lambda>u. Inr (VFloat (f32_to_f64 u)))"
| "read_scalar bs at Double order = bindR (read_uint 8 bs at order) (\<lambda>u. Inr (VFloat u))"

fun is_null :: "sbe_value \<Rightarrow> sbe_value \<Rightarrow> bool" where
  "is_null (VFloat p) (VFloat q) = (f64_is_nan p \<and> f64_is_nan q \<or> f64_eq p q)"
| "is_null (VArray bs) (VChar c) = list_all (\<lambda>x. x = c) bs"
| "is_null (VArray bs) _ = False"
| "is_null v n = value_eq v n"

definition read_element :: "bytes \<Rightarrow> element \<Rightarrow> byte_order \<Rightarrow> sbe_error + sbe_value option" where
  "read_element field e order =
     (case el_presence e of
        Constant v \<Rightarrow> Inr (Some v)
      | p \<Rightarrow>
          bindR (outside_block (if el_length e = 1 then read_scalar field (el_offset e) (el_primitive e) order
                   else bindR (wire_slice field (el_offset e) (el_wire_len e)) (\<lambda>bs. Inr (VArray bs))))
            (\<lambda>v. Inr (case p of Optional n \<Rightarrow> if is_null v n then None else Some v | _ \<Rightarrow> Some v)))"

definition fr_element :: "nat \<Rightarrow> field_ref \<Rightarrow> sbe_error + sbe_value option" where
  "fr_element i f = bindR (ok_or (nth_opt (fl_elements (fr_layout f)) i) NoSuchElement) (\<lambda>e. read_element (fr_data f) e (fr_order f))"

definition fr_member :: "string \<Rightarrow> field_ref \<Rightarrow> sbe_error + sbe_value option" where
  "fr_member n f = bindR (ok_or (fl_element (fr_layout f) n) NoSuchElement) (\<lambda>e. read_element (fr_data f) e (fr_order f))"

definition bk_value :: "field_layout \<Rightarrow> block \<Rightarrow> sbe_error + sbe_value option" where
  "bk_value f bk = bindR (bk_field f bk) (\<lambda>r. case r of Some fr \<Rightarrow> fr_element 0 fr | None \<Rightarrow> Inr None)"

subsection \<open>Groups and variable-length data\<close>

fun read_length :: "bytes \<Rightarrow> nat \<Rightarrow> length_type \<Rightarrow> byte_order \<Rightarrow> sbe_error + nat" where
  "read_length buf at U8 order = bindR (read_u8 buf at) (\<lambda>x. Inr (unat x))"
| "read_length buf at U16 order = read_uint 2 buf at order"
| "read_length buf at U32 order = read_uint 4 buf at order"

definition cr_var_data :: "var_data_layout \<Rightarrow> cursor \<Rightarrow> sbe_error + bytes option \<times> cursor" where
  "cr_var_data l c =
     (if vl_since l > cr_version c then Inr (None, c)
      else bindR (read_length (cr_buf c) (cr_pos c) (vl_length l) (cr_order c)) (\<lambda>len.
        bindR (ok_or (checked_add U64_MAX (cr_pos c) (lt_size (vl_length l))) Truncated) (\<lambda>start.
        bindR (wire_slice (cr_buf c) start len) (\<lambda>data.
          Inr (Some data, c\<lparr>cr_pos := start + len\<rparr>)))))"

record group =
  gr_cur :: cursor
  gr_layout :: group_layout
  gr_block_length :: nat
  gr_count :: nat
  gr_remaining :: nat
  gr_tail_pending :: bool
  gr_present :: bool

record entry =
  en_block :: block
  en_tail :: cursor

definition cr_group :: "group_layout \<Rightarrow> cursor \<Rightarrow> sbe_error + group" where
  "cr_group l c =
     (if gl_since l > cr_version c
      then Inr \<lparr>gr_cur = c, gr_layout = l, gr_block_length = 0, gr_count = 0, gr_remaining = 0, gr_tail_pending = False, gr_present = False\<rparr>
      else let d = gl_dimension l in
        bindR (read_length (cr_buf c) (cr_pos c) (dm_block_length d) (cr_order c)) (\<lambda>block_length.
        bindR (ok_or (checked_add U64_MAX (cr_pos c) (lt_size (dm_block_length d))) Truncated) (\<lambda>count_at.
        bindR (read_length (cr_buf c) count_at (dm_num_in_group d) (cr_order c)) (\<lambda>count.
        bindR (ok_or (checked_add U64_MAX (cr_pos c) (dm_size d)) Truncated) (\<lambda>at.
          Inr \<lparr>gr_cur = c\<lparr>cr_pos := at\<rparr>, gr_layout = l, gr_block_length = block_length, gr_count = count, gr_remaining = count,
            gr_tail_pending = False, gr_present = True\<rparr>)))))"

definition gr_has_tail :: "group \<Rightarrow> bool" where
  "gr_has_tail g \<longleftrightarrow> (let version = cr_version (gr_cur g) in
     list_ex (\<lambda>l. gl_since l \<le> version) (gl_groups (gr_layout g)) \<or> list_ex (\<lambda>l. vl_since l \<le> version) (gl_var_data (gr_layout g)))"

text \<open>The operations of a group call \<open>Cursor::skip_tail\<close> on the nested layouts, which calls them in turn:
  they take it as an argument here, and \<open>skip_tail\<close> closes the recursion over the nesting of layouts.\<close>

definition skip_pending_with :: "(cursor \<Rightarrow> sbe_error + cursor) \<Rightarrow> group \<Rightarrow> (sbe_error + unit) \<times> group" where
  "skip_pending_with skip g =
     (if gr_tail_pending g
      then case skip (gr_cur g) of Inl e \<Rightarrow> (Inl e, g) | Inr c \<Rightarrow> (Inr (), g\<lparr>gr_cur := c, gr_tail_pending := False\<rparr>)
      else (Inr (), g))"

definition next_entry_with :: "(cursor \<Rightarrow> sbe_error + cursor) \<Rightarrow> group \<Rightarrow> (sbe_error + entry option) \<times> group" where
  "next_entry_with skip g =
     (case skip_pending_with skip g of
        (Inl e, g) \<Rightarrow> (Inl e, g)
      | (Inr _, g) \<Rightarrow>
          if gr_remaining g = 0 then (Inr None, g)
          else case wire_slice (cr_buf (gr_cur g)) (cr_pos (gr_cur g)) (gr_block_length g) of
            Inl e \<Rightarrow> (Inl e, g)
          | Inr bs \<Rightarrow>
              let g = g\<lparr>gr_remaining := gr_remaining g - 1, gr_cur := (gr_cur g)\<lparr>cr_pos := cr_pos (gr_cur g) + gr_block_length g\<rparr>\<rparr>;
                  g = g\<lparr>gr_tail_pending := gr_has_tail g\<rparr> in
              (Inr (Some \<lparr>en_block = \<lparr>bk_bytes = bs, bk_order = cr_order (gr_cur g), bk_version = cr_version (gr_cur g)\<rparr>, en_tail = gr_cur g\<rparr>), g))"

lemma next_entry_with_remaining:
  "next_entry_with skip g = (Inr (Some en), g') \<Longrightarrow> gr_remaining g' < gr_remaining g"
  by (auto simp: next_entry_with_def skip_pending_with_def Let_def split: if_splits sum.splits)

function drain_entries_with :: "(cursor \<Rightarrow> sbe_error + cursor) \<Rightarrow> group \<Rightarrow> sbe_error + group" where
  "drain_entries_with skip g =
     (case next_entry_with skip g of
        (Inl e, _) \<Rightarrow> Inl e
      | (Inr None, g') \<Rightarrow> Inr g'
      | (Inr (Some _), g') \<Rightarrow> drain_entries_with skip g')"
  by auto
termination
  by (relation "measure (\<lambda>(_, g). gr_remaining g)") (auto dest: next_entry_with_remaining [OF sym])

declare drain_entries_with.simps [simp del]

definition finish_with :: "(cursor \<Rightarrow> sbe_error + cursor) \<Rightarrow> group \<Rightarrow> sbe_error + cursor" where
  "finish_with skip g =
     (case skip_pending_with skip g of
        (Inl e, _) \<Rightarrow> Inl e
      | (Inr _, g) \<Rightarrow>
          if gr_has_tail g
          then bindR (drain_entries_with skip g) (\<lambda>g.
            case skip_pending_with skip g of (Inl e, _) \<Rightarrow> Inl e | (Inr _, g) \<Rightarrow> Inr (gr_cur g))
          else bindR (ok_or (checked_mul U64_MAX (gr_block_length g) (gr_remaining g)) Truncated) (\<lambda>skip_len.
            bindR (wire_slice (cr_buf (gr_cur g)) (cr_pos (gr_cur g)) skip_len) (\<lambda>_.
              Inr ((gr_cur g)\<lparr>cr_pos := cr_pos (gr_cur g) + skip_len\<rparr>))))"

lemma nested_smaller: "size_list size (gl_groups l) < size l"
  by (cases l) simp

function skip_tail :: "group_layout list \<Rightarrow> var_data_layout list \<Rightarrow> cursor \<Rightarrow> sbe_error + cursor" where
  "skip_tail [] vs c = foldR (\<lambda>v c. bindR (cr_var_data v c) (\<lambda>(_, c). Inr c)) vs c"
| "skip_tail (l # ls) vs c =
     bindR (bindR (cr_group l c) (finish_with (\<lambda>c. skip_tail (gl_groups l) (gl_var_data l) c))) (\<lambda>c. skip_tail ls vs c)"
  by pat_completeness auto
termination
  by (relation "measure (\<lambda>(ls, _, _). size_list size ls)") (use nested_smaller in \<open>auto simp: less_Suc_eq_le trans_le_add1 less_imp_le\<close>)

definition gr_skip :: "group \<Rightarrow> cursor \<Rightarrow> sbe_error + cursor" where
  "gr_skip g c = skip_tail (gl_groups (gr_layout g)) (gl_var_data (gr_layout g)) c"

definition skip_pending_tail :: "group \<Rightarrow> (sbe_error + unit) \<times> group" where
  "skip_pending_tail g = skip_pending_with (gr_skip g) g"

definition next_entry :: "group \<Rightarrow> (sbe_error + entry option) \<times> group" where
  "next_entry g = next_entry_with (gr_skip g) g"

definition gr_finish :: "group \<Rightarrow> sbe_error + cursor" where
  "gr_finish g = finish_with (gr_skip g) g"

definition skip_group :: "group_layout \<Rightarrow> cursor \<Rightarrow> sbe_error + cursor" where
  "skip_group l c = bindR (cr_group l c) gr_finish"

subsection \<open>What a read depends on\<close>

text \<open>An operation on cursors is framed when it moves forward inside the buffer, fails only for want of
  bytes, and does not change its answer when more bytes follow.\<close>

definition lengthen :: "bytes \<Rightarrow> cursor \<Rightarrow> cursor" where
  "lengthen more_bs c = c\<lparr>cr_buf := cr_buf c @ more_bs\<rparr>"

definition moved :: "cursor \<Rightarrow> cursor \<Rightarrow> bool" where
  "moved c c' \<longleftrightarrow> (\<exists>n. c' = c\<lparr>cr_pos := cr_pos c + n\<rparr>) \<and> (cr_pos c \<le> length (cr_buf c) \<longrightarrow> cr_pos c' \<le> length (cr_buf c))"

definition framed :: "(cursor \<Rightarrow> sbe_error + cursor) \<Rightarrow> bool" where
  "framed F \<longleftrightarrow> (\<forall>c. case F c of Inl e \<Rightarrow> e = Truncated | Inr c' \<Rightarrow> moved c c' \<and> (\<forall>more_bs. F (lengthen more_bs c) = Inr (lengthen more_bs c')))"

lemma lengthen_simps [simp]:
  "cr_buf (lengthen more_bs c) = cr_buf c @ more_bs" "cr_pos (lengthen more_bs c) = cr_pos c" "cr_order (lengthen more_bs c) = cr_order c" "cr_version (lengthen more_bs c) = cr_version c"
  "(lengthen more_bs c)\<lparr>cr_pos := p\<rparr> = lengthen more_bs (c\<lparr>cr_pos := p\<rparr>)"
  by (simp_all add: lengthen_def)

lemma moved_refl [simp]: "moved c c"
  by (auto simp: moved_def intro!: exI [of _ 0])

lemma moved_trans: "moved c c' \<Longrightarrow> moved c' c'' \<Longrightarrow> moved c c''"
  by (auto simp: moved_def add.assoc)

lemma moved_keeps: "moved c c' \<Longrightarrow> cr_buf c' = cr_buf c \<and> cr_order c' = cr_order c \<and> cr_version c' = cr_version c \<and> cr_pos c \<le> cr_pos c'"
  by (auto simp: moved_def)

lemma moved_to: "cr_pos c \<le> q \<Longrightarrow> q \<le> length (cr_buf c) \<Longrightarrow> moved c (c\<lparr>cr_pos := q\<rparr>)"
  by (auto simp: moved_def intro!: exI [of _ "q - cr_pos c"])

lemma framedI:
  assumes "\<And>c e. F c = Inl e \<Longrightarrow> e = Truncated"
    and "\<And>c c'. F c = Inr c' \<Longrightarrow> moved c c'"
    and "\<And>c c' more_bs. F c = Inr c' \<Longrightarrow> F (lengthen more_bs c) = Inr (lengthen more_bs c')"
  shows "framed F"
  using assms by (auto simp: framed_def split: sum.split)

lemma framedD:
  assumes "framed F"
  shows "F c = Inl e \<Longrightarrow> e = Truncated" "F c = Inr c' \<Longrightarrow> moved c c'" "F c = Inr c' \<Longrightarrow> F (lengthen more_bs c) = Inr (lengthen more_bs c')"
  using assms by (auto simp: framed_def split: sum.splits dest: spec [of _ c])

lemma framed_id: "framed Inr"
  by (rule framedI) auto

lemma framed_bind: "framed F \<Longrightarrow> framed G \<Longrightarrow> framed (\<lambda>c. bindR (F c) G)"
  by (rule framedI) (auto simp: bindR_Inl_iff bindR_Inr_iff dest: framedD moved_trans)

lemma framed_foldR: "(\<And>x. x \<in> set xs \<Longrightarrow> framed (F x)) \<Longrightarrow> framed (foldR F xs)"
proof (induction xs)
  case Nil
  have "foldR F [] = Inr" by (rule ext) simp
  then show ?case by (simp add: framed_id)
next
  case (Cons x xs)
  have "foldR F (x # xs) = (\<lambda>c. bindR (F x c) (foldR F xs))" by (rule ext) simp
  then show ?case using Cons by (simp add: framed_bind)
qed

lemma read_uint_ext: "read_uint n buf at o' = Inr v \<Longrightarrow> read_uint n (buf @ more_bs) at o' = Inr v"
  by (auto simp: read_uint_Inr)

lemma read_length_Inr:
  "read_length buf at t o' = Inr v \<Longrightarrow> at + lt_size t \<le> length buf \<and> v < 256 ^ lt_size t \<and> read_length (buf @ more_bs) at t o' = Inr v"
proof (cases t)
  case U8
  assume "read_length buf at t o' = Inr v"
  then show ?thesis using U8 by (auto simp: byte_bound read_u8_def bindR_Inr_iff ok_or_Inr_iff nth_opt_Some nth_append)
next
  case U16
  assume "read_length buf at t o' = Inr v"
  then show ?thesis using U16 read_uint_bound [of 2 buf at o' v] by (auto simp: read_uint_Inr)
next
  case U32
  assume "read_length buf at t o' = Inr v"
  then show ?thesis using U32 read_uint_bound [of 4 buf at o' v] by (auto simp: read_uint_Inr)
qed

lemma read_length_Inl: "read_length buf at t o' = Inl e \<Longrightarrow> e = Truncated"
  by (cases t) (auto simp: read_u8_def bindR_Inl_iff read_uint_Inl ok_or_def split: option.splits)

lemma wire_slice_ext: "wire_slice buf at n = Inr bs \<Longrightarrow> wire_slice (buf @ more_bs) at n = Inr bs"
  by (auto simp: wire_slice_Inr)

lemma framed_var_data: "framed (\<lambda>c. bindR (cr_var_data v c) (\<lambda>(_, c). Inr c))"
proof (rule framedI)
  fix c e assume "bindR (cr_var_data v c) (\<lambda>(_, c). Inr c) = Inl e"
  then show "e = Truncated"
    by (auto simp: bindR_Inl_iff cr_var_data_def wire_slice_Inl ok_or_def split: if_splits option.splits dest: read_length_Inl)
next
  fix c c' assume "bindR (cr_var_data v c) (\<lambda>(_, c). Inr c) = Inr c'"
  then show "moved c c'"
    by (auto simp: bindR_Inr_iff cr_var_data_def wire_slice_Inr checked_add_def ok_or_def split: if_splits intro!: moved_to)
next
  fix c c' more_bs assume "bindR (cr_var_data v c) (\<lambda>(_, c). Inr c) = Inr c'"
  then show "bindR (cr_var_data v (lengthen more_bs c)) (\<lambda>(_, c). Inr c) = Inr (lengthen more_bs c')"
    using read_length_Inr [of "cr_buf c" "cr_pos c" "vl_length v" "cr_order c" _ more_bs] wire_slice_ext [of "cr_buf c" _ _ _ more_bs]
    by (auto simp: bindR_Inr_iff cr_var_data_def ok_or_Inr_iff split: if_splits)
qed


text \<open>Groups.\<close>

definition glengthen :: "bytes \<Rightarrow> group \<Rightarrow> group" where
  "glengthen more_bs g = g\<lparr>gr_cur := lengthen more_bs (gr_cur g)\<rparr>"

lemma glengthen_simps [simp]:
  "gr_cur (glengthen m g) = lengthen m (gr_cur g)" "gr_layout (glengthen m g) = gr_layout g" "gr_block_length (glengthen m g) = gr_block_length g"
  "gr_count (glengthen m g) = gr_count g" "gr_remaining (glengthen m g) = gr_remaining g" "gr_tail_pending (glengthen m g) = gr_tail_pending g"
  "gr_has_tail (glengthen m g) = gr_has_tail g" "gr_skip (glengthen m g) = gr_skip g"
  by (simp_all add: glengthen_def gr_has_tail_def gr_skip_def fun_eq_iff)

lemma skip_pending_framed:
  assumes "framed skip"
  shows "skip_pending_with skip g = (Inl e, g') \<Longrightarrow> e = Truncated"
    and "skip_pending_with skip g = (Inr u, g') \<Longrightarrow> moved (gr_cur g) (gr_cur g') \<and> g' = g\<lparr>gr_cur := gr_cur g', gr_tail_pending := False\<rparr> \<and>
      skip_pending_with skip (glengthen m g) = (Inr u, glengthen m g')"
  using framedD [OF assms] by (auto simp: skip_pending_with_def glengthen_def split: if_splits sum.splits)

lemma next_entry_framed:
  assumes "framed skip"
  shows "next_entry_with skip g = (Inl e, g') \<Longrightarrow> e = Truncated"
    and "next_entry_with skip g = (Inr en, g') \<Longrightarrow> moved (gr_cur g) (gr_cur g') \<and>
      next_entry_with skip (glengthen m g) = (Inr (map_option (\<lambda>en. en\<lparr>en_tail := lengthen m (en_tail en)\<rparr>) en), glengthen m g')"
proof -
  assume "next_entry_with skip g = (Inl e, g')"
  then show "e = Truncated"
    by (auto simp: next_entry_with_def Let_def wire_slice_Inl split: prod.splits sum.splits if_splits dest: skip_pending_framed(1) [OF assms])
next
  assume n: "next_entry_with skip g = (Inr en, g')"
  obtain u h where h: "skip_pending_with skip g = (Inr u, h)"
    using n by (cases "skip_pending_with skip g"; cases "fst (skip_pending_with skip g)") (auto simp: next_entry_with_def)
  have hs: "moved (gr_cur g) (gr_cur h)" "skip_pending_with skip (glengthen m g) = (Inr u, glengthen m h)"
    using skip_pending_framed(2) [OF assms h, of m] by auto
  show "moved (gr_cur g) (gr_cur g') \<and>
      next_entry_with skip (glengthen m g) = (Inr (map_option (\<lambda>en. en\<lparr>en_tail := lengthen m (en_tail en)\<rparr>) en), glengthen m g')"
  proof (cases "gr_remaining h = 0")
    case True
    then show ?thesis using n h hs by (auto simp: next_entry_with_def)
  next
    case False
    then obtain bs where bs: "wire_slice (cr_buf (gr_cur h)) (cr_pos (gr_cur h)) (gr_block_length h) = Inr bs"
      using n h by (auto simp: next_entry_with_def split: sum.splits)
    have "moved (gr_cur h) (gr_cur g')" using n h False bs by (auto simp: next_entry_with_def Let_def wire_slice_Inr intro!: moved_to)
    moreover have "next_entry_with skip (glengthen m g) = (Inr (map_option (\<lambda>en. en\<lparr>en_tail := lengthen m (en_tail en)\<rparr>) en), glengthen m g')"
      using n h hs(2) False bs wire_slice_ext [OF bs, of m]
      by (auto simp: next_entry_with_def Let_def glengthen_def gr_has_tail_def)
    ultimately show ?thesis using hs(1) moved_trans by blast
  qed
qed

lemma drain_simps:
  "next_entry_with skip g = (Inl e, g') \<Longrightarrow> drain_entries_with skip g = Inl e"
  "next_entry_with skip g = (Inr None, g') \<Longrightarrow> drain_entries_with skip g = Inr g'"
  "next_entry_with skip g = (Inr (Some en), g') \<Longrightarrow> drain_entries_with skip g = drain_entries_with skip g'"
  by (simp_all add: drain_entries_with.simps [of skip g])

lemma next_entry_cases:
  obtains (error) e g' where "next_entry_with skip g = (Inl e, g')"
  | (last) g' where "next_entry_with skip g = (Inr None, g')"
  | (more) en g' where "next_entry_with skip g = (Inr (Some en), g')"
proof (cases "next_entry_with skip g")
  case (Pair r g')
  then show ?thesis using that by (cases r) (metis option.exhaust)+
qed

lemma drain_framed:
  assumes "framed skip"
  shows "case drain_entries_with skip g of Inl e \<Rightarrow> e = Truncated
    | Inr g' \<Rightarrow> moved (gr_cur g) (gr_cur g') \<and> (\<forall>m. drain_entries_with skip (glengthen m g) = Inr (glengthen m g'))"
proof (induction "gr_remaining g" arbitrary: g rule: less_induct)
  case less
  show ?case
  proof (cases skip g rule: next_entry_cases)
    case (error e g')
    then show ?thesis using next_entry_framed(1) [OF assms error] by (simp add: drain_simps)
  next
    case (last g')
    have "drain_entries_with skip (glengthen m g) = Inr (glengthen m g')" for m
      using next_entry_framed(2) [OF assms last, of m] by (simp add: drain_simps(2))
    then show ?thesis using next_entry_framed(2) [OF assms last] by (simp add: drain_simps(2) [OF last])
  next
    case (more en g')
    have ext: "drain_entries_with skip (glengthen m g) = drain_entries_with skip (glengthen m g')" for m
      using next_entry_framed(2) [OF assms more, of m] drain_simps(3) [of skip "glengthen m g" _ "glengthen m g'"] by auto
    have mv: "moved (gr_cur g) (gr_cur g')" using next_entry_framed(2) [OF assms more] by simp
    show ?thesis using less [OF next_entry_with_remaining [OF more]] mv unfolding drain_simps(3) [OF more] ext
      by (auto split: sum.splits intro: moved_trans)
  qed
qed

lemma finish_framed:
  assumes "framed skip"
  shows "finish_with skip g = Inl e \<Longrightarrow> e = Truncated"
    and "finish_with skip g = Inr c \<Longrightarrow> moved (gr_cur g) c \<and> finish_with skip (glengthen m g) = Inr (lengthen m c)"
proof -
  assume f: "finish_with skip g = Inl e"
  obtain r h where h: "skip_pending_with skip g = (r, h)" by fastforce
  show "e = Truncated"
  proof (cases r)
    case (Inl e')
    then show ?thesis using f h skip_pending_framed(1) [OF assms] by (auto simp: finish_with_def)
  next
    case (Inr u)
    then show ?thesis using f h drain_framed [OF assms, of h]
      by (auto simp: finish_with_def bindR_Inl_iff wire_slice_Inl ok_or_def split: if_splits option.splits sum.splits prod.splits
          dest: skip_pending_framed(1) [OF assms])
  qed
next
  assume f: "finish_with skip g = Inr c"
  obtain r h where h: "skip_pending_with skip g = (r, h)" by fastforce
  then obtain u where u: "r = Inr u" using f by (cases r) (auto simp: finish_with_def)
  have hs: "moved (gr_cur g) (gr_cur h)" "skip_pending_with skip (glengthen m g) = (Inr u, glengthen m h)"
    using skip_pending_framed(2) [OF assms, of g u h m] h u by auto
  have "moved (gr_cur h) c \<and> finish_with skip (glengthen m g) = Inr (lengthen m c)"
  proof (cases "gr_has_tail h")
    case True
    obtain k where k: "drain_entries_with skip h = Inr k" using f h u True by (auto simp: finish_with_def bindR_Inr_iff)
    then have ks: "moved (gr_cur h) (gr_cur k)" "drain_entries_with skip (glengthen m h) = Inr (glengthen m k)"
      using drain_framed [OF assms, of h] by auto
    obtain u' l where l: "skip_pending_with skip k = (Inr u', l)" "c = gr_cur l"
      using f h u True k by (auto simp: finish_with_def split: prod.splits sum.splits)
    show ?thesis using skip_pending_framed(2) [OF assms l(1), of m] ks l(2) hs(2) True
      by (auto simp: finish_with_def intro: moved_trans)
  next
    case False
    then show ?thesis using f h u hs(2) wire_slice_ext [of "cr_buf (gr_cur h)" _ _ _ m]
      by (auto simp: finish_with_def bindR_Inr_iff wire_slice_Inr ok_or_Inr_iff intro!: moved_to)
  qed
  then show "moved (gr_cur g) c \<and> finish_with skip (glengthen m g) = Inr (lengthen m c)" using hs(1) moved_trans by blast
qed

lemma cr_group_framed:
  shows "cr_group l c = Inl e \<Longrightarrow> e = Truncated"
    and "cr_group l c = Inr g \<Longrightarrow> moved c (gr_cur g) \<and> gr_layout g = l \<and> \<not> gr_tail_pending g \<and> cr_group l (lengthen m c) = Inr (glengthen m g)"
proof -
  assume "cr_group l c = Inl e"
  then show "e = Truncated"
    by (auto simp: cr_group_def Let_def bindR_Inl_iff ok_or_def split: if_splits option.splits dest: read_length_Inl)
next
  assume g: "cr_group l c = Inr g"
  show "moved c (gr_cur g) \<and> gr_layout g = l \<and> \<not> gr_tail_pending g \<and> cr_group l (lengthen m c) = Inr (glengthen m g)"
  proof (cases "gl_since l > cr_version c")
    case True
    then show ?thesis using g by (auto simp: cr_group_def glengthen_def)
  next
    case False
    let ?d = "gl_dimension l"
    from g False obtain bl n where r: "read_length (cr_buf c) (cr_pos c) (dm_block_length ?d) (cr_order c) = Inr bl"
        "read_length (cr_buf c) (cr_pos c + lt_size (dm_block_length ?d)) (dm_num_in_group ?d) (cr_order c) = Inr n"
        "cr_pos c + dm_size ?d \<le> U64_MAX"
      by (auto simp: cr_group_def Let_def bindR_Inr_iff ok_or_Inr_iff checked_add_def split: if_splits)
    have b: "cr_pos c + dm_size ?d \<le> length (cr_buf c)" using read_length_Inr [OF r(2)] by (simp add: dm_size_def add.assoc)
    show ?thesis using g False r read_length_Inr [OF r(1), of m] read_length_Inr [OF r(2), of m] b
      by (auto simp: cr_group_def Let_def glengthen_def checked_add_def dm_size_def intro!: moved_to)
  qed
qed

lemma skip_tail_framed: "framed (skip_tail ls vs)"
proof (induction "size_list size ls" arbitrary: ls vs rule: less_induct)
  case less
  show ?case
  proof (cases ls)
    case Nil
    have "skip_tail [] vs = foldR (\<lambda>v c. bindR (cr_var_data v c) (\<lambda>(_, c). Inr c)) vs" by (rule ext) simp
    then show ?thesis using Nil by (simp add: framed_foldR framed_var_data)
  next
    case (Cons l ks)
    let ?skip = "\<lambda>c. skip_tail (gl_groups l) (gl_var_data l) c"
    have nested: "framed ?skip" using less [of "gl_groups l" "gl_var_data l"] nested_smaller [of l] Cons by simp
    have "framed (\<lambda>c. bindR (cr_group l c) (finish_with ?skip))"
    proof (rule framedI)
      fix c e assume "bindR (cr_group l c) (finish_with ?skip) = Inl e"
      then show "e = Truncated" by (auto simp: bindR_Inl_iff dest: cr_group_framed(1) finish_framed(1) [OF nested])
    next
      fix c c' assume "bindR (cr_group l c) (finish_with ?skip) = Inr c'"
      then show "moved c c'" by (auto simp: bindR_Inr_iff dest: cr_group_framed(2) finish_framed(2) [OF nested] intro: moved_trans)
    next
      fix c c' m assume "bindR (cr_group l c) (finish_with ?skip) = Inr c'"
      then obtain g where g: "cr_group l c = Inr g" "finish_with ?skip g = Inr c'" by (auto simp: bindR_Inr_iff)
      show "bindR (cr_group l (lengthen m c)) (finish_with ?skip) = Inr (lengthen m c')"
        using cr_group_framed(2) [OF g(1), of m] finish_framed(2) [OF nested g(2), of m] by simp
    qed
    moreover have "framed (skip_tail ks vs)" using less [of ks vs] Cons by simp
    ultimately have "framed (\<lambda>c. bindR (bindR (cr_group l c) (finish_with ?skip)) (skip_tail ks vs))" by (rule framed_bind)
    moreover have "skip_tail ls vs = (\<lambda>c. bindR (bindR (cr_group l c) (finish_with ?skip)) (skip_tail ks vs))" by (rule ext) (simp add: Cons)
    ultimately show ?thesis by simp
  qed
qed

subsection \<open>Progress\<close>

text \<open>A group or a \<open>varData\<close> that is on the wire has at least one byte there.\<close>

lemma lt_size_pos [simp]: "0 < lt_size t"
  by (cases t) simp_all

lemma var_data_progress: "cr_var_data v c = Inr (d, c') \<Longrightarrow> vl_since v \<le> cr_version c \<Longrightarrow> cr_pos c < cr_pos c'"
  by (auto simp: cr_var_data_def bindR_Inr_iff ok_or_Inr_iff checked_add_def split: if_splits)

lemma cr_group_progress: "cr_group l c = Inr g \<Longrightarrow> gl_since l \<le> cr_version c \<Longrightarrow> cr_pos c < cr_pos (gr_cur g)"
  by (auto simp: cr_group_def Let_def bindR_Inr_iff ok_or_Inr_iff checked_add_def dm_size_def split: if_splits)

lemma skip_vars_progress:
  "foldR (\<lambda>v c. bindR (cr_var_data v c) (\<lambda>(_, c). Inr c)) vs c = Inr c' \<Longrightarrow> list_ex (\<lambda>v. vl_since v \<le> cr_version c) vs \<Longrightarrow> cr_pos c < cr_pos c'"
proof (induction vs arbitrary: c)
  case (Cons v vs)
  then obtain d c1 where c1: "cr_var_data v c = Inr (d, c1)" "foldR (\<lambda>v c. bindR (cr_var_data v c) (\<lambda>(_, c). Inr c)) vs c1 = Inr c'"
    by (auto simp: bindR_Inr_iff)
  have m1: "moved c c1" using framedD(2) [OF framed_var_data, of v c c1] c1(1) by simp
  have m2: "moved c1 c'" using framedD(2) [OF framed_foldR c1(2)] framed_var_data by blast
  show ?case using Cons.IH [OF c1(2)] Cons.prems(2) var_data_progress [OF c1(1)] moved_keeps [OF m1] moved_keeps [OF m2] by auto
qed simp

lemma skip_tail_progress:
  "skip_tail ls vs c = Inr c' \<Longrightarrow> list_ex (\<lambda>l. gl_since l \<le> cr_version c) ls \<or> list_ex (\<lambda>v. vl_since v \<le> cr_version c) vs \<Longrightarrow> cr_pos c < cr_pos c'"
proof (induction ls arbitrary: c)
  case Nil
  then show ?case using skip_vars_progress by simp
next
  case (Cons l ls)
  let ?skip = "\<lambda>c. skip_tail (gl_groups l) (gl_var_data l) c"
  obtain g c1 where c1: "cr_group l c = Inr g" "finish_with ?skip g = Inr c1" "skip_tail ls vs c1 = Inr c'"
    using Cons.prems(1) by (auto simp: bindR_Inr_iff)
  have m: "moved c (gr_cur g)" "moved (gr_cur g) c1" "moved c1 c'"
    using cr_group_framed(2) [OF c1(1)] finish_framed(2) [OF skip_tail_framed c1(2)] framedD(2) [OF skip_tail_framed c1(3)] by auto
  show ?case using Cons.IH [OF c1(3)] Cons.prems(2) cr_group_progress [OF c1(1)] moved_keeps [OF m(1)] moved_keeps [OF m(2)] moved_keeps [OF m(3)] by auto
qed

text \<open>The entries a walk visits: as many calls of \<open>next_entry\<close> as answer an entry.\<close>

function entries_walked :: "(cursor \<Rightarrow> sbe_error + cursor) \<Rightarrow> group \<Rightarrow> nat" where
  "entries_walked skip g = (case next_entry_with skip g of (Inr (Some _), g') \<Rightarrow> Suc (entries_walked skip g') | _ \<Rightarrow> 0)"
  by auto
termination
  by (relation "measure (\<lambda>(_, g). gr_remaining g)") (auto dest: next_entry_with_remaining [OF sym])

declare entries_walked.simps [simp del]

lemma gr_skip_framed: "framed (gr_skip g)"
proof -
  have "gr_skip g = skip_tail (gl_groups (gr_layout g)) (gl_var_data (gr_layout g))" by (rule ext) (simp add: gr_skip_def)
  then show ?thesis by (simp add: skip_tail_framed)
qed

lemma next_entry_step:
  assumes "next_entry_with (gr_skip g) g = (Inr (Some en), g')" "gr_has_tail g"
  shows "gr_tail_pending g'" "gr_has_tail g'" "gr_skip g' = gr_skip g"
    "cr_pos (gr_cur g) + (if gr_tail_pending g then 1 else 0) \<le> cr_pos (gr_cur g')" "moved (gr_cur g) (gr_cur g')"
proof -
  obtain u h where h: "skip_pending_with (gr_skip g) g = (Inr u, h)"
    using assms(1) by (cases "skip_pending_with (gr_skip g) g"; cases "fst (skip_pending_with (gr_skip g) g)") (auto simp: next_entry_with_def)
  have hs: "moved (gr_cur g) (gr_cur h)" "h = g\<lparr>gr_cur := gr_cur h, gr_tail_pending := False\<rparr>"
    using skip_pending_framed(2) [OF gr_skip_framed h] by auto
  have lay: "gr_layout h = gr_layout g" using arg_cong [OF hs(2), of gr_layout] by simp
  have ver: "cr_version (gr_cur h) = cr_version (gr_cur g)" using moved_keeps [OF hs(1)] by simp
  have "cr_pos (gr_cur g) < cr_pos (gr_cur h)" if "gr_tail_pending g"
    using skip_tail_progress [of "gl_groups (gr_layout g)" "gl_var_data (gr_layout g)" "gr_cur g" "gr_cur h"] h that assms(2)
    by (auto simp: skip_pending_with_def gr_skip_def gr_has_tail_def Let_def split: sum.splits)
  moreover have g': "gr_layout g' = gr_layout h" "cr_version (gr_cur g') = cr_version (gr_cur h)" "cr_pos (gr_cur h) \<le> cr_pos (gr_cur g')"
      "gr_tail_pending g' = gr_has_tail g'"
    using assms(1) h by (auto simp: next_entry_with_def Let_def gr_has_tail_def split: if_splits sum.splits)
  ultimately show "cr_pos (gr_cur g) + (if gr_tail_pending g then 1 else 0) \<le> cr_pos (gr_cur g')"
    using moved_keeps [OF hs(1)] by auto
  show "gr_has_tail g'" using assms(2) g' lay ver by (simp add: gr_has_tail_def)
  then show "gr_tail_pending g'" using g' by simp
  show "gr_skip g' = gr_skip g" using g' lay by (simp add: gr_skip_def fun_eq_iff)
  show "moved (gr_cur g) (gr_cur g')" using next_entry_framed(2) [OF gr_skip_framed assms(1)] by simp
qed

lemma entries_walked_bound:
  "gr_has_tail g \<Longrightarrow> cr_pos (gr_cur g) \<le> length (cr_buf (gr_cur g)) \<Longrightarrow>
   entries_walked (gr_skip g) g \<le> length (cr_buf (gr_cur g)) - cr_pos (gr_cur g) + (if gr_tail_pending g then 0 else 1)"
proof (induction "gr_remaining g" arbitrary: g rule: less_induct)
  case less
  show ?case
  proof (cases "gr_skip g" g rule: next_entry_cases)
    case (more en g')
    note st = next_entry_step [OF more less.prems(1)]
    have b: "cr_buf (gr_cur g') = cr_buf (gr_cur g)" "cr_pos (gr_cur g') \<le> length (cr_buf (gr_cur g))"
      using st(5) less.prems(2) by (auto simp: moved_def)
    have "entries_walked (gr_skip g') g' \<le> length (cr_buf (gr_cur g')) - cr_pos (gr_cur g')"
      using less.hyps [OF next_entry_with_remaining [OF more] st(2)] b st(1) by simp
    then show ?thesis using more st(3,4) b by (auto simp: entries_walked.simps [of "gr_skip g" g] split: if_splits)
  qed (auto simp: entries_walked.simps [of "gr_skip g" g])
qed

end
