(* ===== verification/Sbe_Encode.thy ===== *)
theory Sbe_Encode
  imports Sbe_Wire
begin

text \<open>
  The writer of the binary encoding, \<open>crates/sbe/src/encode.rs\<close>: blocks, the tail of groups and
  variable-length data behind a block, the message, group and entry writers, and the flat template.
  A method with \<open>&mut\<close> arguments answers its result beside what it left behind, also when it fails.
  The closures of \<open>group\<close> and \<open>entry\<close> are functions from a writer to a result and a writer.
\<close>

type_synonym ('a, 's) step = "'s \<Rightarrow> (sbe_error + 'a) \<times> 's"

definition bindS :: "('a, 's) step \<Rightarrow> ('a \<Rightarrow> ('c, 's) step) \<Rightarrow> ('c, 's) step" where
  "bindS m f s = (case m s of (Inl e, s') \<Rightarrow> (Inl e, s') | (Inr x, s') \<Rightarrow> f x s')"

definition failS :: "sbe_error \<Rightarrow> ('a, 's) step" where
  "failS e s = (Inl e, s)"

definition returnS :: "'a \<Rightarrow> ('a, 's) step" where
  "returnS x s = (Inr x, s)"

text \<open>A write that leaves the buffer alone when it fails.\<close>

definition writeS :: "('s \<Rightarrow> sbe_error + 's) \<Rightarrow> (unit, 's) step" where
  "writeS f s = (case f s of Inl e \<Rightarrow> (Inl e, s) | Inr s' \<Rightarrow> (Inr (), s'))"

fun foldS :: "('x \<Rightarrow> (unit, 's) step) \<Rightarrow> 'x list \<Rightarrow> (unit, 's) step" where
  "foldS f [] = returnS ()"
| "foldS f (x # xs) = bindS (f x) (\<lambda>_. foldS f xs)"

subsection \<open>Primitives\<close>

definition slice_mut :: "bytes \<Rightarrow> nat \<Rightarrow> nat \<Rightarrow> sbe_error + bytes" where
  "slice_mut out at len = bindR (ok_or (checked_add U64_MAX at len) BufferTooSmall) (\<lambda>end'. ok_or (get_range out at end') BufferTooSmall)"

text \<open>Working on a part of a buffer through the slice \<open>slice_mut\<close> gives.\<close>

definition put_back :: "bytes \<Rightarrow> nat \<Rightarrow> bytes \<Rightarrow> bytes" where
  "put_back out at part = take at out @ part @ drop (at + length part) out"

definition within :: "nat \<Rightarrow> nat \<Rightarrow> sbe_error \<Rightarrow> ('a, bytes) step \<Rightarrow> ('a, bytes) step" where
  "within at len err f out =
     (case slice_mut out at len of
        Inl _ \<Rightarrow> (Inl err, out)
      | Inr part \<Rightarrow> (case f part of (r, part') \<Rightarrow> (r, put_back out at part')))"

fun lt_max :: "length_type \<Rightarrow> nat" where
  "lt_max U8 = 255" | "lt_max U16 = U16_MAX" | "lt_max U32 = U32_MAX"

definition lt_fits :: "length_type \<Rightarrow> nat \<Rightarrow> bool" where
  "lt_fits t v \<longleftrightarrow> v \<le> lt_max t"

fun write_length :: "nat \<Rightarrow> length_type \<Rightarrow> nat \<Rightarrow> byte_order \<Rightarrow> (unit, bytes) step" where
  "write_length at U8 v order = (if v > 255 then failS LengthOverflow else writeS (\<lambda>out. write_u8 out at (of_nat v)))"
| "write_length at U16 v order = (if v > U16_MAX then failS LengthOverflow else writeS (\<lambda>out. write_uint 2 out at v order))"
| "write_length at U32 v order = (if v > U32_MAX then failS LengthOverflow else writeS (\<lambda>out. write_uint 4 out at v order))"

definition write_dimension :: "nat \<Rightarrow> group_layout \<Rightarrow> nat \<Rightarrow> byte_order \<Rightarrow> (unit, bytes) step" where
  "write_dimension at g count order =
     (let d = gl_dimension g in
      bindS (write_length at (dm_block_length d) (gl_block_length g) order) (\<lambda>_.
        case checked_add U64_MAX at (lt_size (dm_block_length d)) of
          None \<Rightarrow> failS BufferTooSmall
        | Some count_at \<Rightarrow> write_length count_at (dm_num_in_group d) count order))"

fun write_scalar :: "bytes \<Rightarrow> nat \<Rightarrow> primitive \<Rightarrow> sbe_value \<Rightarrow> byte_order \<Rightarrow> sbe_error + bytes" where
  "write_scalar dst at Char (VChar c) order = write_u8 dst at c"
| "write_scalar dst at Int8 (VInt i) order = (if -128 \<le> i \<and> i \<le> 127 then write_u8 dst at (of_int i) else Inl BadValue)"
| "write_scalar dst at Int16 (VInt i) order = (if -32768 \<le> i \<and> i \<le> 32767 then write_int 2 dst at i order else Inl BadValue)"
| "write_scalar dst at Int32 (VInt i) order = (if -2147483648 \<le> i \<and> i \<le> 2147483647 then write_int 4 dst at i order else Inl BadValue)"
| "write_scalar dst at Int64 (VInt i) order = write_int 8 dst at i order"
| "write_scalar dst at UInt8 (VUInt u) order = (if u \<le> 255 then write_u8 dst at (of_nat u) else Inl BadValue)"
| "write_scalar dst at UInt16 (VUInt u) order = (if u \<le> U16_MAX then write_uint 2 dst at u order else Inl BadValue)"
| "write_scalar dst at UInt32 (VUInt u) order = (if u \<le> U32_MAX then write_uint 4 dst at u order else Inl BadValue)"
| "write_scalar dst at UInt64 (VUInt u) order = write_uint 8 dst at u order"
| "write_scalar dst at Float (VFloat p) order =
     (if f64_is_finite p \<and> p mod 2 ^ 63 > f32_to_f64 F32_MAX then Inl BadValue else write_uint 4 dst at (f64_to_f32 p) order)"
| "write_scalar dst at Double (VFloat p) order = write_uint 8 dst at p order"
| "write_scalar dst at _ _ order = Inl BadValue"

definition outside :: "sbe_error + 'a \<Rightarrow> sbe_error + 'a" where
  "outside r = (case r of Inl BufferTooSmall \<Rightarrow> Inl FieldOutsideBlock | _ \<Rightarrow> r)"

text \<open>One element into the bytes of its field.\<close>

definition write_in_field :: "element \<Rightarrow> sbe_value option \<Rightarrow> byte_order \<Rightarrow> bytes \<Rightarrow> sbe_error + bytes" where
  "write_in_field e val order field =
     (let null = (case el_presence e of Optional n \<Rightarrow> Some n | _ \<Rightarrow> None); at = el_offset e in
      if el_length e = 1
      then (case (if val = None then null else val) of
              None \<Rightarrow> Inl BadValue
            | Some v \<Rightarrow> outside (write_scalar field at (el_primitive e) v order))
      else let n = el_wire_len e in
        outside (case (val, null) of
           (Some (VArray bs), _) \<Rightarrow> if length bs = n then write_slice field at bs else Inl BadValue
         | (Some _, _) \<Rightarrow> Inl BadValue
         | (None, Some (VChar c)) \<Rightarrow> wire_fill field at n c
         | (None, _) \<Rightarrow> Inl BadValue))"

definition write_element :: "field_layout \<Rightarrow> element \<Rightarrow> sbe_value option \<Rightarrow> byte_order \<Rightarrow> (unit, bytes) step" where
  "write_element f e val order =
     (case el_presence e of
        Constant c \<Rightarrow> (case val of None \<Rightarrow> returnS () | Some v \<Rightarrow> if value_eq v c then returnS () else failS BadValue)
      | _ \<Rightarrow> within (fl_offset f) (fl_len f) FieldOutsideBlock (writeS (write_in_field e val order)))"

definition is_optional :: "element \<Rightarrow> bool" where
  "is_optional e \<longleftrightarrow> (case el_presence e of Optional _ \<Rightarrow> True | _ \<Rightarrow> False)"

definition null_field :: "byte_order \<Rightarrow> field_layout \<Rightarrow> (unit, bytes) step" where
  "null_field order f = foldS (\<lambda>e. if is_optional e then write_element f e None order else returnS ()) (fl_elements f)"

definition init_block :: "nat \<Rightarrow> nat \<Rightarrow> field_layout list \<Rightarrow> byte_order \<Rightarrow> (unit, bytes) step" where
  "init_block start len fs order =
     within start len BufferTooSmall (\<lambda>block. foldS (null_field order) fs (replicate (length block) 0))"

record block_at =
  ba_start :: nat
  ba_len :: nat

definition ba_put_bytes :: "block_at \<Rightarrow> field_layout \<Rightarrow> bytes \<Rightarrow> (unit, bytes) step" where
  "ba_put_bytes ba f bs =
     (if length bs \<noteq> fl_len f then failS WrongLength
      else within (ba_start ba) (ba_len ba) BufferTooSmall
        (writeS (\<lambda>block. case write_slice block (fl_offset f) bs of Inl _ \<Rightarrow> Inl FieldOutsideBlock | Inr block \<Rightarrow> Inr block)))"

definition ba_put_element :: "block_at \<Rightarrow> field_layout \<Rightarrow> nat \<Rightarrow> sbe_value option \<Rightarrow> byte_order \<Rightarrow> (unit, bytes) step" where
  "ba_put_element ba f i val order =
     (case nth_opt (fl_elements f) i of
        None \<Rightarrow> failS NoSuchElement
      | Some e \<Rightarrow> within (ba_start ba) (ba_len ba) BufferTooSmall (write_element f e val order))"

subsection \<open>The tail behind a block\<close>

text \<open>The buffer, the position and the tail that the methods of \<open>Tail\<close> work on together.\<close>

record sbe_tail =
  tl_groups :: "group_layout list"
  tl_var_data :: "var_data_layout list"
  tl_next_group :: nat
  tl_next_var :: nat

record sink =
  sk_out :: bytes
  sk_pos :: nat
  sk_tail :: sbe_tail

definition Tail_new :: "group_layout list \<Rightarrow> var_data_layout list \<Rightarrow> sbe_tail" where
  "Tail_new gs vs = \<lparr>tl_groups = gs, tl_var_data = vs, tl_next_group = 0, tl_next_var = 0\<rparr>"

definition on_out :: "('a, bytes) step \<Rightarrow> ('a, sink) step" where
  "on_out f s = (case f (sk_out s) of (r, out) \<Rightarrow> (r, s\<lparr>sk_out := out\<rparr>))"

definition modifyS :: "('s \<Rightarrow> 's) \<Rightarrow> (unit, 's) step" where
  "modifyS f s = (Inr (), f s)"

function empty_groups_until :: "byte_order \<Rightarrow> nat \<Rightarrow> (unit, sink) step" where
  "empty_groups_until order limit s =
     (if tl_next_group (sk_tail s) < limit
      then case nth_opt (tl_groups (sk_tail s)) (tl_next_group (sk_tail s)) of
          None \<Rightarrow> (Inl UnknownField, s)
        | Some g \<Rightarrow>
            (case on_out (write_dimension (sk_pos s) g 0 order) s of
               (Inl e, s') \<Rightarrow> (Inl e, s')
             | (Inr _, s') \<Rightarrow> empty_groups_until order limit
                 (s'\<lparr>sk_pos := sk_pos s + dm_size (gl_dimension g), sk_tail := (sk_tail s)\<lparr>tl_next_group := tl_next_group (sk_tail s) + 1\<rparr>\<rparr>))
      else (Inr (), s))"
  by auto
termination by (relation "measure (\<lambda>(_, limit, s). limit - tl_next_group (sk_tail s))") (auto simp: on_out_def split: prod.splits)

function empty_var_data_until :: "byte_order \<Rightarrow> nat \<Rightarrow> (unit, sink) step" where
  "empty_var_data_until order limit s =
     (if tl_next_var (sk_tail s) < limit
      then case nth_opt (tl_var_data (sk_tail s)) (tl_next_var (sk_tail s)) of
          None \<Rightarrow> (Inl UnknownField, s)
        | Some v \<Rightarrow>
            (case on_out (write_length (sk_pos s) (vl_length v) 0 order) s of
               (Inl e, s') \<Rightarrow> (Inl e, s')
             | (Inr _, s') \<Rightarrow> empty_var_data_until order limit
                 (s'\<lparr>sk_pos := sk_pos s + lt_size (vl_length v), sk_tail := (sk_tail s)\<lparr>tl_next_var := tl_next_var (sk_tail s) + 1\<rparr>\<rparr>))
      else (Inr (), s))"
  by auto
termination by (relation "measure (\<lambda>(_, limit, s). limit - tl_next_var (sk_tail s))") (auto simp: on_out_def split: prod.splits)

declare empty_groups_until.simps [simp del] empty_var_data_until.simps [simp del]

definition tail_open_group :: "byte_order \<Rightarrow> nat \<Rightarrow> (group_layout \<times> nat, sink) step" where
  "tail_open_group order i s =
     (case position (\<lambda>g. gl_id g = i) (tl_groups (sk_tail s)) of
        None \<Rightarrow> (Inl UnknownField, s)
      | Some idx \<Rightarrow>
          if idx < tl_next_group (sk_tail s) \<or> tl_next_var (sk_tail s) > 0 then (Inl OutOfOrder, s)
          else bindS (empty_groups_until order idx) (\<lambda>_ s.
            case nth_opt (tl_groups (sk_tail s)) idx of
              None \<Rightarrow> (Inl UnknownField, s)
            | Some g \<Rightarrow> bindS (on_out (write_dimension (sk_pos s) g 0 order)) (\<lambda>_ s.
                (Inr (g, sk_pos s + lt_size (dm_block_length (gl_dimension g))),
                 s\<lparr>sk_pos := sk_pos s + dm_size (gl_dimension g), sk_tail := (sk_tail s)\<lparr>tl_next_group := idx + 1\<rparr>\<rparr>)) s) s)"

definition tail_var_data :: "byte_order \<Rightarrow> nat \<Rightarrow> bytes \<Rightarrow> (unit, sink) step" where
  "tail_var_data order i bs s =
     (case position (\<lambda>v. vl_id v = i) (tl_var_data (sk_tail s)) of
        None \<Rightarrow> (Inl UnknownField, s)
      | Some idx \<Rightarrow>
          if idx < tl_next_var (sk_tail s) then (Inl OutOfOrder, s)
          else case nth_opt (tl_var_data (sk_tail s)) idx of
            None \<Rightarrow> (Inl UnknownField, s)
          | Some v \<Rightarrow>
              if \<not> lt_fits (vl_length v) (length bs) then (Inl LengthOverflow, s)
              else bindS (empty_groups_until order (length (tl_groups (sk_tail s)))) (\<lambda>_.
                bindS (empty_var_data_until order idx) (\<lambda>_ s.
                bindS (on_out (write_length (sk_pos s) (vl_length v) (length bs) order)) (\<lambda>_.
                bindS (on_out (writeS (\<lambda>out. write_slice out (sk_pos s + lt_size (vl_length v)) bs))) (\<lambda>_.
                modifyS (\<lambda>s'. s'\<lparr>sk_pos := sk_pos s + lt_size (vl_length v) + length bs, sk_tail := (sk_tail s')\<lparr>tl_next_var := idx + 1\<rparr>\<rparr>))) s)) s)"

definition tail_close :: "byte_order \<Rightarrow> (unit, sink) step" where
  "tail_close order s =
     bindS (empty_groups_until order (length (tl_groups (sk_tail s)))) (\<lambda>_ s. empty_var_data_until order (length (tl_var_data (sk_tail s))) s) s"

subsection \<open>The writers\<close>

record group_writer =
  gw_out :: bytes
  gw_pos :: nat
  gw_order :: byte_order
  gw_layout :: group_layout
  gw_count_at :: nat
  gw_count :: nat

record entry_writer =
  ew_sink :: sink
  ew_order :: byte_order
  ew_block :: block_at

record message_writer =
  mw_sink :: sink
  mw_order :: byte_order
  mw_layout :: message_layout

text \<open>\<open>group\<close>, which a message and an entry writer share: the group is opened, the closure fills it, and
  what it wrote and where it stopped stay.\<close>

definition sink_group :: "byte_order \<Rightarrow> group_layout \<Rightarrow> (unit, group_writer) step \<Rightarrow> (unit, sink) step" where
  "sink_group order l f =
     bindS (tail_open_group order (gl_id l)) (\<lambda>(g, count_at) s.
       case f \<lparr>gw_out = sk_out s, gw_pos = sk_pos s, gw_order = order, gw_layout = g, gw_count_at = count_at, gw_count = 0\<rparr> of
         (r, gw) \<Rightarrow> (r, s\<lparr>sk_out := gw_out gw, sk_pos := gw_pos gw\<rparr>))"

definition MessageWriter_new :: "schema \<Rightarrow> bytes \<Rightarrow> nat \<Rightarrow> (sbe_error + message_writer) \<times> bytes" where
  "MessageWriter_new S out template_id =
     (case sm_message S template_id of
        None \<Rightarrow> (Inl UnknownTemplate, out)
      | Some layout \<Rightarrow>
          let order = sm_byte_order S;
              h = \<lparr>mh_block_length = ml_block_length layout, mh_template_id = template_id, mh_schema_id = sm_id S, mh_version = sm_version S\<rparr> in
          case writeS (\<lambda>out. header_encode h out order) out of
            (Inl e, out) \<Rightarrow> (Inl e, out)
          | (Inr _, out) \<Rightarrow>
              (case init_block HEADER_LEN (ml_block_length layout) (ml_fields layout) order out of
                 (Inl e, out) \<Rightarrow> (Inl e, out)
               | (Inr _, out) \<Rightarrow>
                   (Inr \<lparr>mw_sink = \<lparr>sk_out = out, sk_pos = HEADER_LEN + ml_block_length layout, sk_tail = Tail_new (ml_groups layout) (ml_var_data layout)\<rparr>,
                      mw_order = order, mw_layout = layout\<rparr>, out)))"

definition on_mw :: "('a, sink) step \<Rightarrow> ('a, message_writer) step" where
  "on_mw f w = (case f (mw_sink w) of (r, s) \<Rightarrow> (r, w\<lparr>mw_sink := s\<rparr>))"

definition on_ew :: "('a, sink) step \<Rightarrow> ('a, entry_writer) step" where
  "on_ew f w = (case f (ew_sink w) of (r, s) \<Rightarrow> (r, w\<lparr>ew_sink := s\<rparr>))"

definition mw_root :: "message_writer \<Rightarrow> block_at" where
  "mw_root w = \<lparr>ba_start = HEADER_LEN, ba_len = ml_block_length (mw_layout w)\<rparr>"

definition mw_put_bytes :: "field_layout \<Rightarrow> bytes \<Rightarrow> (unit, message_writer) step" where
  "mw_put_bytes f bs w = on_mw (on_out (ba_put_bytes (mw_root w) f bs)) w"

definition mw_put_element :: "field_layout \<Rightarrow> nat \<Rightarrow> sbe_value option \<Rightarrow> (unit, message_writer) step" where
  "mw_put_element f i val w = on_mw (on_out (ba_put_element (mw_root w) f i val (mw_order w))) w"

definition mw_put :: "field_layout \<Rightarrow> sbe_value \<Rightarrow> (unit, message_writer) step" where
  "mw_put f v = mw_put_element f 0 (Some v)"

definition mw_group :: "group_layout \<Rightarrow> (unit, group_writer) step \<Rightarrow> (unit, message_writer) step" where
  "mw_group l f w = on_mw (sink_group (mw_order w) l f) w"

definition mw_var_data :: "var_data_layout \<Rightarrow> bytes \<Rightarrow> (unit, message_writer) step" where
  "mw_var_data l bs w = on_mw (tail_var_data (mw_order w) (vl_id l) bs) w"

definition mw_finish :: "message_writer \<Rightarrow> (sbe_error + nat) \<times> bytes" where
  "mw_finish w = (case tail_close (mw_order w) (mw_sink w) of (Inl e, s) \<Rightarrow> (Inl e, sk_out s) | (Inr _, s) \<Rightarrow> (Inr (sk_pos s), sk_out s))"

definition ew_put_bytes :: "field_layout \<Rightarrow> bytes \<Rightarrow> (unit, entry_writer) step" where
  "ew_put_bytes f bs w = on_ew (on_out (ba_put_bytes (ew_block w) f bs)) w"

definition ew_put_element :: "field_layout \<Rightarrow> nat \<Rightarrow> sbe_value option \<Rightarrow> (unit, entry_writer) step" where
  "ew_put_element f i val w = on_ew (on_out (ba_put_element (ew_block w) f i val (ew_order w))) w"

definition ew_put :: "field_layout \<Rightarrow> sbe_value \<Rightarrow> (unit, entry_writer) step" where
  "ew_put f v = ew_put_element f 0 (Some v)"

definition ew_group :: "group_layout \<Rightarrow> (unit, group_writer) step \<Rightarrow> (unit, entry_writer) step" where
  "ew_group l f w = on_ew (sink_group (ew_order w) l f) w"

definition ew_var_data :: "var_data_layout \<Rightarrow> bytes \<Rightarrow> (unit, entry_writer) step" where
  "ew_var_data l bs w = on_ew (tail_var_data (ew_order w) (vl_id l) bs) w"

definition write_entry :: "nat \<Rightarrow> (unit, entry_writer) step \<Rightarrow> (unit, group_writer) step" where
  "write_entry start f gw =
     (case checked_add U64_MAX (gw_count gw) 1 of
        None \<Rightarrow> (Inl LengthOverflow, gw)
      | Some next \<Rightarrow>
          if \<not> lt_fits (dm_num_in_group (gl_dimension (gw_layout gw))) next then (Inl LengthOverflow, gw)
          else let len = gl_block_length (gw_layout gw) in
            case init_block start len (gl_fields (gw_layout gw)) (gw_order gw) (gw_out gw) of
              (Inl e, out) \<Rightarrow> (Inl e, gw\<lparr>gw_out := out\<rparr>)
            | (Inr _, out) \<Rightarrow>
                (case bindS f (\<lambda>_ w. on_ew (tail_close (ew_order w)) w)
                    \<lparr>ew_sink = \<lparr>sk_out = out, sk_pos = start + len, sk_tail = Tail_new (gl_groups (gw_layout gw)) (gl_var_data (gw_layout gw))\<rparr>,
                      ew_order = gw_order gw, ew_block = \<lparr>ba_start = start, ba_len = len\<rparr>\<rparr> of
                   (Inl e, w) \<Rightarrow> (Inl e, gw\<lparr>gw_out := sk_out (ew_sink w), gw_pos := sk_pos (ew_sink w)\<rparr>)
                 | (Inr _, w) \<Rightarrow>
                     let gw = gw\<lparr>gw_out := sk_out (ew_sink w), gw_pos := sk_pos (ew_sink w)\<rparr> in
                     (case write_length (gw_count_at gw) (dm_num_in_group (gl_dimension (gw_layout gw))) next (gw_order gw) (gw_out gw) of
                        (Inl e, out) \<Rightarrow> (Inl e, gw\<lparr>gw_out := out\<rparr>)
                      | (Inr _, out) \<Rightarrow> (Inr (), gw\<lparr>gw_out := out, gw_count := next\<rparr>))))"

definition gw_entry :: "(unit, entry_writer) step \<Rightarrow> (unit, group_writer) step" where
  "gw_entry f gw = (case write_entry (gw_pos gw) f gw of (Inl e, gw') \<Rightarrow> (Inl e, gw'\<lparr>gw_pos := gw_pos gw\<rparr>) | (Inr _, gw') \<Rightarrow> (Inr (), gw'))"

subsection \<open>The flat template\<close>

record sbe_template =
  st_bytes :: bytes
  st_len :: nat
  st_layout :: message_layout

definition SbeTemplate_new :: "nat \<Rightarrow> schema \<Rightarrow> nat \<Rightarrow> sbe_error + sbe_template" where
  "SbeTemplate_new N S template_id =
     (case MessageWriter_new S (replicate N 0) template_id of
        (Inl e, _) \<Rightarrow> Inl e
      | (Inr w, _) \<Rightarrow> (case mw_finish w of (Inl e, _) \<Rightarrow> Inl e | (Inr len, out) \<Rightarrow> Inr \<lparr>st_bytes = out, st_len = len, st_layout = mw_layout w\<rparr>))"

definition st_as_bytes :: "sbe_template \<Rightarrow> bytes" where
  "st_as_bytes t = (case get_range (st_bytes t) 0 (st_len t) of None \<Rightarrow> [] | Some bs \<Rightarrow> bs)"

definition st_root :: "sbe_template \<Rightarrow> block_at" where
  "st_root t = \<lparr>ba_start = HEADER_LEN, ba_len = ml_block_length (st_layout t)\<rparr>"

definition st_field :: "sbe_template \<Rightarrow> nat \<Rightarrow> sbe_error + field_layout" where
  "st_field t i = ok_or (ml_field (st_layout t) i) UnknownField"

definition st_set_bytes :: "nat \<Rightarrow> bytes \<Rightarrow> (unit, sbe_template) step" where
  "st_set_bytes i bs t = (case st_field t i of Inl e \<Rightarrow> (Inl e, t)
     | Inr f \<Rightarrow> (case ba_put_bytes (st_root t) f bs (st_bytes t) of (r, out) \<Rightarrow> (r, t\<lparr>st_bytes := out\<rparr>)))"

definition st_set_element :: "schema \<Rightarrow> nat \<Rightarrow> nat \<Rightarrow> sbe_value option \<Rightarrow> (unit, sbe_template) step" where
  "st_set_element S i k val t = (case st_field t i of Inl e \<Rightarrow> (Inl e, t)
     | Inr f \<Rightarrow> (case ba_put_element (st_root t) f k val (sm_byte_order S) (st_bytes t) of (r, out) \<Rightarrow> (r, t\<lparr>st_bytes := out\<rparr>)))"

fun check_slots :: "sbe_template \<Rightarrow> (nat \<times> bytes) list \<Rightarrow> sbe_error + unit" where
  "check_slots t [] = Inr ()"
| "check_slots t ((i, bs) # rest) =
     bindR (st_field t i) (\<lambda>f.
       if length bs \<noteq> fl_len f then Inl WrongLength
       else if fl_offset f + fl_len f > ml_block_length (st_layout t) then Inl FieldOutsideBlock
       else check_slots t rest)"

definition put_slot :: "sbe_template \<Rightarrow> nat \<times> bytes \<Rightarrow> (unit, bytes) step" where
  "put_slot t sl = (case st_field t (fst sl) of Inl e \<Rightarrow> failS e | Inr f \<Rightarrow> ba_put_bytes (st_root t) f (snd sl))"

definition st_encode :: "sbe_template \<Rightarrow> bytes \<Rightarrow> (nat \<times> bytes) list \<Rightarrow> (sbe_error + nat \<times> nat) \<times> bytes" where
  "st_encode t out slots =
     (case check_slots t slots of
        Inl e \<Rightarrow> (Inl e, out)
      | Inr _ \<Rightarrow>
          if length out < st_len t then (Inl BufferTooSmall, out)
          else bindS (writeS (\<lambda>out. write_slice out 0 (st_as_bytes t))) (\<lambda>_.
            bindS (foldS (put_slot t) slots) (\<lambda>_. returnS (0, st_len t))) out)"

end
