(* ===== verification/Sbe_Writer.thy ===== *)
theory Sbe_Writer
  imports Sbe_Encode
begin

text \<open>
  What the writer of the binary encoding writes. The content of a message is a tree of nodes, one per
  block; \<open>wire_node\<close> lays it out as bytes, and a client that fills a message through the methods of the
  writers leaves exactly these bytes in the buffer.
\<close>

subsection \<open>Contents and their layout\<close>

type_synonym puts = "(field_layout \<times> nat \<times> sbe_value option) list"

datatype node = Node (nd_puts: puts) (nd_groups: "node list list") (nd_vars: "bytes list")

definition put_in_block :: "byte_order \<Rightarrow> field_layout \<times> nat \<times> sbe_value option \<Rightarrow> (unit, bytes) step" where
  "put_in_block o' = (\<lambda>(f, i, val). case nth_opt (fl_elements f) i of None \<Rightarrow> failS NoSuchElement | Some e \<Rightarrow> write_element f e val o')"

definition fill_block :: "byte_order \<Rightarrow> field_layout list \<Rightarrow> puts \<Rightarrow> (unit, bytes) step" where
  "fill_block o' fs ps = bindS (foldS (null_field o') fs) (\<lambda>_. foldS (put_in_block o') ps)"

definition block_image :: "byte_order \<Rightarrow> field_layout list \<Rightarrow> nat \<Rightarrow> puts \<Rightarrow> bytes" where
  "block_image o' fs len ps = snd (fill_block o' fs ps (replicate len 0))"

definition wire_len :: "byte_order \<Rightarrow> length_type \<Rightarrow> nat \<Rightarrow> bytes" where
  "wire_len o' t v = to_order o' (lt_size t) v"

definition wire_dim :: "byte_order \<Rightarrow> group_layout \<Rightarrow> nat \<Rightarrow> bytes" where
  "wire_dim o' g n = wire_len o' (dm_block_length (gl_dimension g)) (gl_block_length g) @ wire_len o' (dm_num_in_group (gl_dimension g)) n"

fun wire_vars :: "byte_order \<Rightarrow> var_data_layout list \<Rightarrow> bytes list \<Rightarrow> bytes" where
  "wire_vars o' [] bss = []"
| "wire_vars o' (v # vs) [] = wire_len o' (vl_length v) 0 @ wire_vars o' vs []"
| "wire_vars o' (v # vs) (bs # bss) = wire_len o' (vl_length v) (length bs) @ bs @ wire_vars o' vs bss"

fun wire_node :: "byte_order \<Rightarrow> field_layout list \<Rightarrow> nat \<Rightarrow> group_layout list \<Rightarrow> var_data_layout list \<Rightarrow> node \<Rightarrow> bytes"
  and wire_groups :: "byte_order \<Rightarrow> group_layout list \<Rightarrow> node list list \<Rightarrow> bytes"
  and wire_entries :: "byte_order \<Rightarrow> group_layout \<Rightarrow> node list \<Rightarrow> bytes" where
  "wire_node o' fs len gs vs (Node ps nss bss) = block_image o' fs len ps @ wire_groups o' gs nss @ wire_vars o' vs bss"
| "wire_groups o' [] nss = []"
| "wire_groups o' (g # gs) [] = wire_dim o' g 0 @ wire_groups o' gs []"
| "wire_groups o' (g # gs) (ns # nss) = wire_dim o' g (length ns) @ wire_entries o' g ns @ wire_groups o' gs nss"
| "wire_entries o' g [] = []"
| "wire_entries o' g (n # ns) = wire_node o' (gl_fields g) (gl_block_length g) (gl_groups g) (gl_var_data g) n @ wire_entries o' g ns"

text \<open>What a content needs to be written: values that are accepted, counts and lengths that fit their
  fields, and no more groups and data than the layout has.\<close>

definition vars_ok :: "var_data_layout list \<Rightarrow> bytes list \<Rightarrow> bool" where
  "vars_ok vs bss \<longleftrightarrow> length bss \<le> length vs \<and> distinct (map vl_id vs) \<and> list_all (\<lambda>(v, bs). lt_fits (vl_length v) (length bs)) (zip vs bss)"

definition dim_ok :: "group_layout \<Rightarrow> bool" where
  "dim_ok g \<longleftrightarrow> lt_fits (dm_block_length (gl_dimension g)) (gl_block_length g)"

fun node_ok :: "byte_order \<Rightarrow> field_layout list \<Rightarrow> nat \<Rightarrow> group_layout list \<Rightarrow> var_data_layout list \<Rightarrow> node \<Rightarrow> bool"
  and groups_ok :: "byte_order \<Rightarrow> group_layout list \<Rightarrow> node list list \<Rightarrow> bool"
  and entries_ok :: "byte_order \<Rightarrow> group_layout \<Rightarrow> node list \<Rightarrow> bool" where
  "node_ok o' fs len gs vs (Node ps nss bss) \<longleftrightarrow> fst (fill_block o' fs ps (replicate len 0)) = Inr () \<and> distinct (map gl_id gs) \<and>
     list_all dim_ok gs \<and> groups_ok o' gs nss \<and> vars_ok vs bss"
| "groups_ok o' gs [] \<longleftrightarrow> True"
| "groups_ok o' [] (ns # nss) \<longleftrightarrow> False"
| "groups_ok o' (g # gs) (ns # nss) \<longleftrightarrow> lt_fits (dm_num_in_group (gl_dimension g)) (length ns) \<and> entries_ok o' g ns \<and> groups_ok o' gs nss"
| "entries_ok o' g [] \<longleftrightarrow> True"
| "entries_ok o' g (n # ns) \<longleftrightarrow> node_ok o' (gl_fields g) (gl_block_length g) (gl_groups g) (gl_var_data g) n \<and> entries_ok o' g ns"

text \<open>The client: values, groups and data in the order of the layout, each through its method.\<close>

fun fill_node :: "group_layout list \<Rightarrow> var_data_layout list \<Rightarrow> node \<Rightarrow> (unit, entry_writer) step"
  and fill_groups :: "group_layout list \<Rightarrow> node list list \<Rightarrow> (unit, entry_writer) step"
  and fill_entries :: "group_layout \<Rightarrow> node list \<Rightarrow> (unit, group_writer) step" where
  "fill_node gs vs (Node ps nss bss) =
     bindS (foldS (\<lambda>(f, i, val). ew_put_element f i val) ps) (\<lambda>_.
     bindS (fill_groups gs nss) (\<lambda>_. foldS (\<lambda>(v, bs). ew_var_data v bs) (zip vs bss)))"
| "fill_groups gs [] = returnS ()"
| "fill_groups [] (ns # nss) = returnS ()"
| "fill_groups (g # gs) (ns # nss) = bindS (ew_group g (fill_entries g ns)) (\<lambda>_. fill_groups gs nss)"
| "fill_entries g [] = returnS ()"
| "fill_entries g (n # ns) = bindS (gw_entry (fill_node (gl_groups g) (gl_var_data g) n)) (\<lambda>_. fill_entries g ns)"

fun mw_fill_groups :: "group_layout list \<Rightarrow> node list list \<Rightarrow> (unit, message_writer) step" where
  "mw_fill_groups (g # gs) (ns # nss) = bindS (mw_group g (fill_entries g ns)) (\<lambda>_. mw_fill_groups gs nss)"
| "mw_fill_groups _ _ = returnS ()"

definition write_message :: "schema \<Rightarrow> nat \<Rightarrow> node \<Rightarrow> bytes \<Rightarrow> (sbe_error + nat) \<times> bytes" where
  "write_message S template_id n out =
     (case MessageWriter_new S out template_id of
        (Inl e, out) \<Rightarrow> (Inl e, out)
      | (Inr w, _) \<Rightarrow>
          (case bindS (foldS (\<lambda>(f, i, val). mw_put_element f i val) (nd_puts n)) (\<lambda>_.
                bindS (mw_fill_groups (ml_groups (mw_layout w)) (nd_groups n)) (\<lambda>_.
                foldS (\<lambda>(v, bs). mw_var_data v bs) (zip (ml_var_data (mw_layout w)) (nd_vars n)))) w of
             (Inl e, w) \<Rightarrow> (Inl e, sk_out (mw_sink w))
           | (Inr _, w) \<Rightarrow> mw_finish w))"

subsection \<open>Steps\<close>

lemma bindS_simps [simp]:
  "bindS (returnS x) f = f x" "bindS (failS e) f = failS e"
  by (simp_all add: bindS_def returnS_def failS_def fun_eq_iff)

lemma bindS_assoc: "bindS (bindS m f) g = bindS m (\<lambda>x. bindS (f x) g)"
  by (auto simp: bindS_def fun_eq_iff split: prod.split sum.split)

lemma bindS_Inr: "bindS m f s = (Inr y, s') \<longleftrightarrow> (\<exists>x s1. m s = (Inr x, s1) \<and> f x s1 = (Inr y, s'))"
  by (cases "m s"; cases "fst (m s)") (auto simp: bindS_def)

lemma bindS_run: "m s = (Inr x, s1) \<Longrightarrow> bindS m f s = f x s1"
  by (simp add: bindS_def)

definition keeps_len :: "('a, bytes) step \<Rightarrow> bool" where
  "keeps_len f \<longleftrightarrow> (\<forall>out. length (snd (f out)) = length out)"

lemma keeps_len_bind: "keeps_len f \<Longrightarrow> (\<And>x. keeps_len (g x)) \<Longrightarrow> keeps_len (bindS f g)"
  by (auto simp: keeps_len_def bindS_def split: prod.split sum.split) (metis snd_conv)+

lemma keeps_len_simple [simp]: "keeps_len (returnS x)" "keeps_len (failS e)"
  by (simp_all add: keeps_len_def returnS_def failS_def)

lemma keeps_len_write_slice: "keeps_len (writeS (\<lambda>out. write_slice out at src))"
  by (auto simp: keeps_len_def writeS_def write_slice_Inr split: sum.split)

lemma length_put_back: "at + length part \<le> length out \<Longrightarrow> length (put_back out at part) = length out"
  by (simp add: put_back_def)

lemma slice_mut_Inr: "slice_mut out at len = Inr part \<longleftrightarrow> at + len \<le> U64_MAX \<and> at + len \<le> length out \<and> part = take len (drop at out)"
  by (auto simp: slice_mut_def checked_add_def get_range_def ok_or_def)

lemma keeps_len_within: "keeps_len f \<Longrightarrow> keeps_len (within at len e f)"
proof -
  assume f: "keeps_len f"
  have "length (snd (within at len e f out)) = length out" for out
  proof (cases "slice_mut out at len")
    case (Inr part)
    then have "length (snd (f part)) = len" "at + len \<le> length out" using f by (auto simp: keeps_len_def slice_mut_Inr)
    then show ?thesis using Inr by (auto simp: within_def length_put_back split: prod.split)
  qed (simp add: within_def)
  then show ?thesis by (simp add: keeps_len_def)
qed

lemma keeps_len_fold: "(\<And>x. x \<in> set xs \<Longrightarrow> keeps_len (f x)) \<Longrightarrow> keeps_len (foldS f xs)"
  by (induction xs) (simp_all add: keeps_len_bind)

lemma within_bind:
  assumes "keeps_len f" "\<And>x. keeps_len (g x)"
  shows "within at len e (bindS f g) = bindS (within at len e f) (\<lambda>x. within at len e (g x))"
proof
  fix out
  show "within at len e (bindS f g) out = bindS (within at len e f) (\<lambda>x. within at len e (g x)) out"
  proof (cases "slice_mut out at len")
    case (Inl err)
    then show ?thesis by (simp add: within_def bindS_def)
  next
    case (Inr part)
    obtain r part' where p: "f part = (r, part')" by fastforce
    have "length part' = length part" using assms(1) p by (metis keeps_len_def snd_conv)
    then have b: "at + len \<le> U64_MAX" "at + len \<le> length out" "length part' = len"
      using Inr by (auto simp: slice_mut_Inr)
    have s: "slice_mut (put_back out at part') at len = Inr part'" using b by (simp add: slice_mut_Inr put_back_def)
    show ?thesis
    proof (cases r)
      case (Inl err)
      then show ?thesis using Inr p by (simp add: within_def bindS_def)
    next
      case r: (Inr x)
      obtain r2 q where q: "g x part' = (r2, q)" by fastforce
      then have "length q = len" using assms(2) [of x] b(3) by (metis keeps_len_def snd_conv)
      then have "put_back (put_back out at part') at q = put_back out at q" using b by (simp add: put_back_def)
      then show ?thesis using Inr p r s q by (simp add: within_def bindS_def)
    qed
  qed
qed

lemma put_back_same: "put_back out at (take len (drop at out)) = out" if "at + len \<le> length out"
proof -
  have "take len (drop at out) @ drop (at + len) out = drop at out" using append_take_drop_id [of len "drop at out"] by (simp add: add.commute)
  then show ?thesis using that by (simp add: put_back_def)
qed

lemma foldS_cong:
  assumes "\<And>x s. P s \<Longrightarrow> f x s = g x s \<and> P (snd (f x s))" "P s"
  shows "foldS f xs s = foldS g xs s"
  using assms(2)
proof (induction xs arbitrary: s)
  case (Cons x xs)
  then show ?case using assms(1) [of s x] Cons.IH [of "snd (f x s)"] by (auto simp: bindS_def split: prod.split sum.split)
qed simp

lemma within_fold:
  assumes "\<And>x. keeps_len (f x)" "at + len \<le> U64_MAX" "at + len \<le> length out"
  shows "foldS (\<lambda>x. within at len e (f x)) xs out = within at len e (foldS f xs) out"
  using assms(2,3)
proof (induction xs arbitrary: out)
  case Nil
  then show ?case by (simp add: returnS_def within_def slice_mut_Inr [THEN iffD2] put_back_same)
next
  case (Cons x xs)
  have k: "keeps_len (within at len e (f x))" by (rule keeps_len_within [OF assms(1)])
  have "within at len e (foldS f (x # xs)) out = bindS (within at len e (f x)) (\<lambda>_. within at len e (foldS f xs)) out"
    using assms(1) by (simp add: within_bind keeps_len_fold)
  also have "\<dots> = bindS (within at len e (f x)) (\<lambda>_. foldS (\<lambda>x. within at len e (f x)) xs) out"
    using Cons.IH [of "snd (within at len e (f x) out)"] Cons.prems k
    by (auto simp: bindS_def keeps_len_def split: prod.split sum.split)
  finally show ?case by simp
qed

subsection \<open>Blocks\<close>

lemma keeps_len_writeS: "(\<And>out out'. f out = Inr out' \<Longrightarrow> length out' = length out) \<Longrightarrow> keeps_len (writeS f)"
  by (auto simp: keeps_len_def writeS_def split: sum.split)

lemma write_slice_len: "write_slice out at src = Inr out' \<Longrightarrow> length out' = length out"
  by (auto simp: write_slice_Inr)

lemma write_u8_len: "write_u8 out at x = Inr out' \<Longrightarrow> length out' = length out"
  by (auto simp: write_u8_def split: if_splits)

lemma write_scalar_len: "write_scalar dst at p v o' = Inr dst' \<Longrightarrow> length dst' = length dst"
  by (cases "(dst, at, p, v, o')" rule: write_scalar.cases)
    (auto simp: write_uint_def write_int_def dest: write_slice_len write_u8_len split: if_splits)

lemma outside_Inr [simp]: "outside r = Inr x \<longleftrightarrow> r = Inr x"
  by (auto simp: outside_def split: sum.splits sbe_error.splits)

lemma write_in_field_len: "write_in_field e val o' field = Inr field' \<Longrightarrow> length field' = length field"
  by (auto simp: write_in_field_def Let_def wire_fill_eq dest: write_scalar_len write_slice_len
      split: if_splits option.splits sbe_value.splits presence.splits)

lemma keeps_len_write_element: "keeps_len (write_element f e val o')"
  by (auto simp: write_element_def intro!: keeps_len_within keeps_len_writeS dest: write_in_field_len split: presence.split option.split)

lemma keeps_len_null_field: "keeps_len (null_field o' f)"
  by (auto simp: null_field_def intro!: keeps_len_fold keeps_len_write_element)

lemma keeps_len_put_in_block: "keeps_len (put_in_block o' p)"
  by (auto simp: put_in_block_def intro!: keeps_len_write_element split: option.split prod.split)

lemma keeps_len_fill_block: "keeps_len (fill_block o' fs ps)"
  by (auto simp: fill_block_def intro!: keeps_len_bind keeps_len_fold keeps_len_null_field keeps_len_put_in_block)

lemma length_block_image [simp]: "length (block_image o' fs len ps) = len"
  using keeps_len_fill_block [of o' fs ps] by (simp add: block_image_def keeps_len_def)

lemma init_block_within: "init_block start len fs o' = within start len BufferTooSmall (\<lambda>block. foldS (null_field o') fs (replicate (length block) 0))"
  by (simp add: init_block_def fun_eq_iff)

text \<open>A block that is initialised and then filled in place.\<close>

lemma fill_in_place:
  assumes "fst (fill_block o' fs ps (replicate len 0)) = Inr ()" "start + len \<le> length out" "length out \<le> U64_MAX"
  shows "\<exists>out1. init_block start len fs o' out = (Inr (), out1) \<and> length out1 = length out \<and>
    foldS (\<lambda>(f, i, val). ba_put_element \<lparr>ba_start = start, ba_len = len\<rparr> f i val o') ps out1 = (Inr (), put_back out start (block_image o' fs len ps))"
proof -
  obtain b1 where b1: "foldS (null_field o') fs (replicate len 0) = (Inr (), b1)" "foldS (put_in_block o') ps b1 = (Inr (), block_image o' fs len ps)"
    using assms(1) by (cases "fill_block o' fs ps (replicate len 0)") (auto simp: fill_block_def bindS_Inr block_image_def)
  have l1: "length b1 = len" using keeps_len_fold [of fs "null_field o'"] keeps_len_null_field b1(1) by (metis keeps_len_def length_replicate snd_conv)
  let ?out1 = "put_back out start b1"
  have init: "init_block start len fs o' out = (Inr (), ?out1)"
    using assms(2,3) b1(1) by (simp add: init_block_within within_def slice_mut_Inr [THEN iffD2])
  have len1: "length ?out1 = length out" using assms(2) l1 by (simp add: length_put_back)
  let ?put = "\<lambda>(f, i, val). ba_put_element \<lparr>ba_start = start, ba_len = len\<rparr> f i val o'"
  let ?P = "\<lambda>o1 :: bytes. start + len \<le> length o1 \<and> length o1 \<le> U64_MAX"
  have el: "?put x o1 = within start len BufferTooSmall (put_in_block o' x) o1" if "?P o1" for x o1
    using that by (cases x) (auto simp: ba_put_element_def put_in_block_def within_def slice_mut_Inr [THEN iffD2] failS_def put_back_same nth_opt_def split: option.split)
  have keep: "keeps_len (within start len BufferTooSmall (put_in_block o' x))" for x by (rule keeps_len_within [OF keeps_len_put_in_block])
  have P1: "?P ?out1" using assms(2,3) len1 by simp
  have "foldS ?put ps ?out1 = foldS (\<lambda>x. within start len BufferTooSmall (put_in_block o' x)) ps ?out1"
    using el keep P1 by (intro foldS_cong [where P = ?P]) (simp_all add: keeps_len_def)
  also have "\<dots> = within start len BufferTooSmall (foldS (put_in_block o') ps) ?out1"
    using P1 by (intro within_fold keeps_len_put_in_block) simp_all
  also have "\<dots> = (Inr (), put_back ?out1 start (block_image o' fs len ps))"
    using P1 l1 b1(2) assms(2) by (simp add: within_def slice_mut_Inr [THEN iffD2]) (simp add: put_back_def)
  also have "put_back ?out1 start (block_image o' fs len ps) = put_back out start (block_image o' fs len ps)"
    using l1 assms(2) by (simp add: put_back_def)
  finally show ?thesis using init len1 by blast
qed

subsection \<open>Lengths and dimensions\<close>

lemma length_wire_len [simp]: "length (wire_len o' t v) = lt_size t"
  by (simp add: wire_len_def)

lemma length_wire_dim [simp]: "length (wire_dim o' g n) = dm_size (gl_dimension g)"
  by (simp add: wire_dim_def dm_size_def)

lemma one_byte: "to_order o' (Suc 0) v = [of_nat v]"
  by (cases o') (simp_all add: word_unat_eq_iff unat_of_nat)

lemma write_length_eq:
  assumes "lt_fits t v" "at + lt_size t \<le> length out" "length out \<le> U64_MAX"
  shows "write_length at t v o' out = (Inr (), put_back out at (wire_len o' t v))"
proof (cases t)
  case U8
  then show ?thesis using assms by (simp add: lt_fits_def writeS_def write_u8_def wire_len_def one_byte put_back_def upd_conv_take_nth_drop)
next
  case U16
  then show ?thesis using assms by (simp add: lt_fits_def writeS_def write_uint_def write_slice_Inr [THEN iffD2] wire_len_def put_back_def)
next
  case U32
  then show ?thesis using assms by (simp add: lt_fits_def writeS_def write_uint_def write_slice_Inr [THEN iffD2] wire_len_def put_back_def)
qed

lemma put_back_append:
  "at + length xs + length ys \<le> length out \<Longrightarrow> put_back (put_back out at xs) (at + length xs) ys = put_back out at (xs @ ys)"
  by (simp add: put_back_def ac_simps)

lemma write_dimension_eq:
  assumes "dim_ok g" "lt_fits (dm_num_in_group (gl_dimension g)) n" "at + dm_size (gl_dimension g) \<le> length out" "length out \<le> U64_MAX"
  shows "write_dimension at g n o' out = (Inr (), put_back out at (wire_dim o' g n))"
proof -
  let ?d = "gl_dimension g"
  let ?xs = "wire_len o' (dm_block_length ?d) (gl_block_length g)"
  have b: "at + lt_size (dm_block_length ?d) + lt_size (dm_num_in_group ?d) \<le> length out" using assms(3) by (simp add: dm_size_def)
  have 1: "write_length at (dm_block_length ?d) (gl_block_length g) o' out = (Inr (), put_back out at ?xs)"
    using assms b by (intro write_length_eq) (simp_all add: dim_ok_def)
  have 2: "write_length (at + lt_size (dm_block_length ?d)) (dm_num_in_group ?d) n o' (put_back out at ?xs) =
      (Inr (), put_back (put_back out at ?xs) (at + lt_size (dm_block_length ?d)) (wire_len o' (dm_num_in_group ?d) n))"
    using assms b by (intro write_length_eq) (simp_all add: length_put_back)
  show ?thesis using 1 2 put_back_append [of at ?xs "wire_len o' (dm_num_in_group ?d) n" out] b assms(4)
    by (simp add: write_dimension_def Let_def bindS_def checked_add_def wire_dim_def)
qed

subsection \<open>Appending to a sink\<close>

text \<open>The step succeeds and appends \<open>xs\<close>; what is behind the position afterwards is not said.\<close>

definition appended :: "bytes \<Rightarrow> nat \<Rightarrow> bytes \<Rightarrow> bytes \<Rightarrow> nat \<Rightarrow> bool" where
  "appended out at xs out' at' \<longleftrightarrow> length out' = length out \<and> at' = at + length xs \<and> at' \<le> length out \<and> take at' out' = take at out @ xs"

lemma appended_Nil: "at \<le> length out \<Longrightarrow> appended out at [] out at"
  by (simp add: appended_def)

lemma appended_trans: "appended out at xs out1 at1 \<Longrightarrow> appended out1 at1 ys out2 at2 \<Longrightarrow> appended out at (xs @ ys) out2 at2"
  by (auto simp: appended_def)

lemma appended_put_back: "at + length xs \<le> length out \<Longrightarrow> appended out at xs (put_back out at xs) (at + length xs)"
  by (auto simp: appended_def put_back_def)

text \<open>A step on a sink that appends and leaves the tail at a known place.\<close>

definition sink_step :: "(unit, sink) step \<Rightarrow> sink \<Rightarrow> bytes \<Rightarrow> nat \<Rightarrow> nat \<Rightarrow> bool" where
  "sink_step f s xs ng nv \<longleftrightarrow> (\<exists>s'. f s = (Inr (), s') \<and> appended (sk_out s) (sk_pos s) xs (sk_out s') (sk_pos s') \<and>
     sk_tail s' = (sk_tail s)\<lparr>tl_next_group := ng, tl_next_var := nv\<rparr>)"

lemma sink_step_bind:
  assumes "sink_step f s xs ng nv"
    and "\<And>s'. appended (sk_out s) (sk_pos s) xs (sk_out s') (sk_pos s') \<Longrightarrow> sk_tail s' = (sk_tail s)\<lparr>tl_next_group := ng, tl_next_var := nv\<rparr> \<Longrightarrow>
      sink_step g s' ys ng' nv'"
  shows "sink_step (bindS f (\<lambda>_. g)) s (xs @ ys) ng' nv'"
proof -
  from assms(1) obtain s1 where s1: "f s = (Inr (), s1)" "appended (sk_out s) (sk_pos s) xs (sk_out s1) (sk_pos s1)"
      "sk_tail s1 = (sk_tail s)\<lparr>tl_next_group := ng, tl_next_var := nv\<rparr>" by (auto simp: sink_step_def)
  from assms(2) [OF s1(2,3)] obtain s2 where s2: "g s1 = (Inr (), s2)" "appended (sk_out s1) (sk_pos s1) ys (sk_out s2) (sk_pos s2)"
      "sk_tail s2 = (sk_tail s1)\<lparr>tl_next_group := ng', tl_next_var := nv'\<rparr>" by (auto simp: sink_step_def)
  show ?thesis unfolding sink_step_def using s1 s2 appended_trans [OF s1(2) s2(2)] by (auto simp: bindS_def)
qed

lemma empty_groups_step:
  assumes "tl_next_group (sk_tail s) \<le> n" "n \<le> length (tl_groups (sk_tail s))" "list_all dim_ok (tl_groups (sk_tail s))"
    "gs = take (n - tl_next_group (sk_tail s)) (drop (tl_next_group (sk_tail s)) (tl_groups (sk_tail s)))"
    "sk_pos s + length (wire_groups o' gs []) \<le> length (sk_out s)" "length (sk_out s) \<le> U64_MAX"
  shows "sink_step (empty_groups_until o' n) s (wire_groups o' gs []) n (tl_next_var (sk_tail s))"
  using assms
proof (induction "n - tl_next_group (sk_tail s)" arbitrary: s gs)
  case 0
  then have "empty_groups_until o' n s = (Inr (), s)" by (subst empty_groups_until.simps) simp
  then show ?case using 0 by (auto simp: sink_step_def appended_Nil)
next
  case (Suc k)
  let ?j = "tl_next_group (sk_tail s)"
  define g where "g = tl_groups (sk_tail s) ! ?j"
  define s1 where "s1 = s\<lparr>sk_out := put_back (sk_out s) (sk_pos s) (wire_dim o' g 0), sk_pos := sk_pos s + dm_size (gl_dimension g), sk_tail := (sk_tail s)\<lparr>tl_next_group := ?j + 1\<rparr>\<rparr>"
  have j: "?j < length (tl_groups (sk_tail s))" "?j < n" using Suc by linarith+
  have gs: "gs = g # take k (drop (Suc ?j) (tl_groups (sk_tail s)))"
    using Suc.prems(4) Suc.hyps(2) j Cons_nth_drop_Suc [OF j(1)] by (metis g_def take_Suc_Cons)
  have room: "sk_pos s + dm_size (gl_dimension g) \<le> length (sk_out s)" using Suc.prems(5) gs by simp
  have dim: "dim_ok g" using Suc.prems(3) j(1) by (simp add: list_all_length g_def)
  have "write_dimension (sk_pos s) g 0 o' (sk_out s) = (Inr (), put_back (sk_out s) (sk_pos s) (wire_dim o' g 0))"
    using dim room Suc.prems(6) by (intro write_dimension_eq) (simp_all add: lt_fits_def)
  then have step: "empty_groups_until o' n s = empty_groups_until o' n s1"
    using j by (simp add: empty_groups_until.simps [of o' n s] nth_opt_def on_out_def s1_def g_def)
  have app: "appended (sk_out s) (sk_pos s) (wire_dim o' g 0) (sk_out s1) (sk_pos s1)"
    using appended_put_back [of "sk_pos s" "wire_dim o' g 0" "sk_out s"] room by (simp add: s1_def)
  have "sink_step (empty_groups_until o' n) s1 (wire_groups o' (take k (drop (Suc ?j) (tl_groups (sk_tail s)))) []) n (tl_next_var (sk_tail s1))"
  proof (rule Suc.hyps(1))
    show "k = n - tl_next_group (sk_tail s1)" using Suc.hyps(2) by (simp add: s1_def)
    then show "take k (drop (Suc ?j) (tl_groups (sk_tail s))) =
        take (n - tl_next_group (sk_tail s1)) (drop (tl_next_group (sk_tail s1)) (tl_groups (sk_tail s1)))" by (simp add: s1_def)
    show "sk_pos s1 + length (wire_groups o' (take k (drop (Suc ?j) (tl_groups (sk_tail s)))) []) \<le> length (sk_out s1)"
      using Suc.prems(5) unfolding gs using app by (simp add: s1_def appended_def)
  qed (use Suc.prems j app in \<open>simp_all add: s1_def appended_def\<close>)
  then show ?case using app gs unfolding sink_step_def step
    by (auto simp: s1_def dest: appended_trans)
qed

lemma empty_vars_step:
  assumes "tl_next_var (sk_tail s) \<le> n" "n \<le> length (tl_var_data (sk_tail s))"
    "vs = take (n - tl_next_var (sk_tail s)) (drop (tl_next_var (sk_tail s)) (tl_var_data (sk_tail s)))"
    "sk_pos s + length (wire_vars o' vs []) \<le> length (sk_out s)" "length (sk_out s) \<le> U64_MAX"
  shows "sink_step (empty_var_data_until o' n) s (wire_vars o' vs []) (tl_next_group (sk_tail s)) n"
  using assms
proof (induction "n - tl_next_var (sk_tail s)" arbitrary: s vs)
  case 0
  then have "empty_var_data_until o' n s = (Inr (), s)" by (subst empty_var_data_until.simps) simp
  then show ?case using 0 by (auto simp: sink_step_def appended_Nil)
next
  case (Suc k)
  let ?j = "tl_next_var (sk_tail s)"
  define v where "v = tl_var_data (sk_tail s) ! ?j"
  define s1 where "s1 = s\<lparr>sk_out := put_back (sk_out s) (sk_pos s) (wire_len o' (vl_length v) 0), sk_pos := sk_pos s + lt_size (vl_length v), sk_tail := (sk_tail s)\<lparr>tl_next_var := ?j + 1\<rparr>\<rparr>"
  have j: "?j < length (tl_var_data (sk_tail s))" "?j < n" using Suc by linarith+
  have vs: "vs = v # take k (drop (Suc ?j) (tl_var_data (sk_tail s)))"
    using Suc.prems(3) Suc.hyps(2) j Cons_nth_drop_Suc [OF j(1)] by (metis v_def take_Suc_Cons)
  have room: "sk_pos s + lt_size (vl_length v) \<le> length (sk_out s)" using Suc.prems(4) vs by simp
  have "write_length (sk_pos s) (vl_length v) 0 o' (sk_out s) = (Inr (), put_back (sk_out s) (sk_pos s) (wire_len o' (vl_length v) 0))"
    using room Suc.prems(5) by (intro write_length_eq) (simp_all add: lt_fits_def)
  then have step: "empty_var_data_until o' n s = empty_var_data_until o' n s1"
    using j by (simp add: empty_var_data_until.simps [of o' n s] nth_opt_def on_out_def s1_def v_def)
  have app: "appended (sk_out s) (sk_pos s) (wire_len o' (vl_length v) 0) (sk_out s1) (sk_pos s1)"
    using appended_put_back [of "sk_pos s" "wire_len o' (vl_length v) 0" "sk_out s"] room by (simp add: s1_def)
  have "sink_step (empty_var_data_until o' n) s1 (wire_vars o' (take k (drop (Suc ?j) (tl_var_data (sk_tail s)))) []) (tl_next_group (sk_tail s1)) n"
  proof (rule Suc.hyps(1))
    show "k = n - tl_next_var (sk_tail s1)" using Suc.hyps(2) by (simp add: s1_def)
    then show "take k (drop (Suc ?j) (tl_var_data (sk_tail s))) =
        take (n - tl_next_var (sk_tail s1)) (drop (tl_next_var (sk_tail s1)) (tl_var_data (sk_tail s1)))" by (simp add: s1_def)
    show "sk_pos s1 + length (wire_vars o' (take k (drop (Suc ?j) (tl_var_data (sk_tail s)))) []) \<le> length (sk_out s1)"
      using Suc.prems(4) unfolding vs using app by (simp add: s1_def appended_def)
  qed (use Suc.prems j app in \<open>simp_all add: s1_def appended_def\<close>)
  then show ?case using app vs unfolding sink_step_def step
    by (auto simp: s1_def dest: appended_trans)
qed

lemma position_nth: "distinct (map h xs) \<Longrightarrow> i < length xs \<Longrightarrow> position (\<lambda>x. h x = h (xs ! i)) xs = Some i"
proof (induction xs arbitrary: i)
  case (Cons x xs)
  then show ?case by (cases i) (auto simp: image_iff)
qed simp

text \<open>Opening the next group.\<close>

lemma open_group_step:
  assumes "tl_next_group (sk_tail s) < length (tl_groups (sk_tail s))" "tl_next_var (sk_tail s) = 0"
    "g = tl_groups (sk_tail s) ! tl_next_group (sk_tail s)" "distinct (map gl_id (tl_groups (sk_tail s)))" "dim_ok g"
    "sk_pos s + dm_size (gl_dimension g) \<le> length (sk_out s)" "length (sk_out s) \<le> U64_MAX"
  shows "\<exists>s'. tail_open_group o' (gl_id g) s = (Inr (g, sk_pos s + lt_size (dm_block_length (gl_dimension g))), s') \<and>
    appended (sk_out s) (sk_pos s) (wire_dim o' g 0) (sk_out s') (sk_pos s') \<and>
    sk_tail s' = (sk_tail s)\<lparr>tl_next_group := tl_next_group (sk_tail s) + 1\<rparr>"
proof -
  let ?j = "tl_next_group (sk_tail s)"
  have pos: "position (\<lambda>x. gl_id x = gl_id g) (tl_groups (sk_tail s)) = Some ?j"
    using position_nth [OF assms(4,1)] assms(3) by simp
  have none: "empty_groups_until o' ?j s = (Inr (), s)" by (subst empty_groups_until.simps) simp
  have wd: "write_dimension (sk_pos s) g 0 o' (sk_out s) = (Inr (), put_back (sk_out s) (sk_pos s) (wire_dim o' g 0))"
    using assms by (intro write_dimension_eq) (simp_all add: lt_fits_def)
  show ?thesis
    using pos none wd assms appended_put_back [of "sk_pos s" "wire_dim o' g 0" "sk_out s"]
    by (simp add: tail_open_group_def bindS_def nth_opt_def on_out_def)
qed

lemma var_data_step:
  assumes "tl_next_var (sk_tail s) < length (tl_var_data (sk_tail s))" "tl_next_group (sk_tail s) = length (tl_groups (sk_tail s))"
    "v = tl_var_data (sk_tail s) ! tl_next_var (sk_tail s)" "distinct (map vl_id (tl_var_data (sk_tail s)))" "lt_fits (vl_length v) (length bs)"
    "sk_pos s + lt_size (vl_length v) + length bs \<le> length (sk_out s)" "length (sk_out s) \<le> U64_MAX"
  shows "sink_step (tail_var_data o' (vl_id v) bs) s (wire_len o' (vl_length v) (length bs) @ bs) (tl_next_group (sk_tail s)) (tl_next_var (sk_tail s) + 1)"
proof -
  let ?j = "tl_next_var (sk_tail s)"
  have pos: "position (\<lambda>x. vl_id x = vl_id v) (tl_var_data (sk_tail s)) = Some ?j"
    using position_nth [OF assms(4,1)] assms(3) by simp
  have g0: "empty_groups_until o' (length (tl_groups (sk_tail s))) s = (Inr (), s)" by (subst empty_groups_until.simps) (simp add: assms(2))
  have v0: "empty_var_data_until o' ?j s = (Inr (), s)" by (subst empty_var_data_until.simps) simp
  let ?out1 = "put_back (sk_out s) (sk_pos s) (wire_len o' (vl_length v) (length bs))"
  have wl: "write_length (sk_pos s) (vl_length v) (length bs) o' (sk_out s) = (Inr (), ?out1)"
    using assms by (intro write_length_eq) simp_all
  have eq: "put_back ?out1 (sk_pos s + lt_size (vl_length v)) bs = put_back (sk_out s) (sk_pos s) (wire_len o' (vl_length v) (length bs) @ bs)"
    using put_back_append [of "sk_pos s" "wire_len o' (vl_length v) (length bs)" bs "sk_out s"] assms(6) by simp
  have ws: "write_slice ?out1 (sk_pos s + lt_size (vl_length v)) bs = Inr (put_back (sk_out s) (sk_pos s) (wire_len o' (vl_length v) (length bs) @ bs))"
    using assms(6,7) unfolding eq [symmetric] by (simp add: write_slice_Inr length_put_back) (simp add: put_back_def)
  show ?thesis
    using pos g0 v0 wl ws assms(1,5,6,7) appended_put_back [of "sk_pos s" "wire_len o' (vl_length v) (length bs) @ bs" "sk_out s"]
    by (simp add: sink_step_def tail_var_data_def bindS_def nth_opt_def on_out_def writeS_def modifyS_def add.assoc flip: assms(3))
qed

subsection \<open>Lifting to the writers\<close>

fun sk_fill_groups :: "byte_order \<Rightarrow> group_layout list \<Rightarrow> node list list \<Rightarrow> (unit, sink) step" where
  "sk_fill_groups o' (g # gs) (ns # nss) = bindS (sink_group o' g (fill_entries g ns)) (\<lambda>_. sk_fill_groups o' gs nss)"
| "sk_fill_groups o' _ _ = returnS ()"

definition sk_fill_vars :: "byte_order \<Rightarrow> var_data_layout list \<Rightarrow> bytes list \<Rightarrow> (unit, sink) step" where
  "sk_fill_vars o' vs bss = foldS (\<lambda>(v, bs). tail_var_data o' (vl_id v) bs) (zip vs bss)"

definition sk_fill_tail :: "byte_order \<Rightarrow> group_layout list \<Rightarrow> var_data_layout list \<Rightarrow> node list list \<Rightarrow> bytes list \<Rightarrow> (unit, sink) step" where
  "sk_fill_tail o' gs vs nss bss = bindS (sk_fill_groups o' gs nss) (\<lambda>_. bindS (sk_fill_vars o' vs bss) (\<lambda>_. tail_close o'))"

lemma on_ew_simps [simp]: "ew_order (snd (on_ew f w)) = ew_order w" "ew_block (snd (on_ew f w)) = ew_block w"
  by (simp_all add: on_ew_def split: prod.split)

lemma on_ew_bind: "bindS (on_ew f) (\<lambda>_. on_ew g) = on_ew (bindS f (\<lambda>_. g))"
  by (auto simp: bindS_def on_ew_def fun_eq_iff split: prod.split sum.split)

lemma on_ew_return: "on_ew (returnS x) = returnS x"
  by (auto simp: on_ew_def returnS_def fun_eq_iff)

lemma on_ew_fold: "foldS (\<lambda>x w. on_ew (F x (ew_order w) (ew_block w)) w) xs w = on_ew (foldS (\<lambda>x. F x (ew_order w) (ew_block w)) xs) w"
proof (induction xs arbitrary: w)
  case (Cons x xs)
  let ?f = "F x (ew_order w) (ew_block w)"
  have "foldS (\<lambda>x w. on_ew (F x (ew_order w) (ew_block w)) w) (x # xs) w = bindS (on_ew ?f) (\<lambda>_. on_ew (foldS (\<lambda>x. F x (ew_order w) (ew_block w)) xs)) w"
    using Cons.IH [of "snd (on_ew ?f w)"] by (auto simp: bindS_def split: prod.split sum.split)
  then show ?case by (simp add: on_ew_bind)
qed (simp add: on_ew_return)

lemma on_mw_simps [simp]: "mw_order (snd (on_mw f w)) = mw_order w" "mw_layout (snd (on_mw f w)) = mw_layout w"
  by (simp_all add: on_mw_def split: prod.split)

lemma on_mw_bind: "bindS (on_mw f) (\<lambda>_. on_mw g) = on_mw (bindS f (\<lambda>_. g))"
  by (auto simp: bindS_def on_mw_def fun_eq_iff split: prod.split sum.split)

lemma on_mw_return: "on_mw (returnS x) = returnS x"
  by (auto simp: on_mw_def returnS_def fun_eq_iff)

lemma on_mw_fold: "foldS (\<lambda>x w. on_mw (F x (mw_order w) (mw_root w)) w) xs w = on_mw (foldS (\<lambda>x. F x (mw_order w) (mw_root w)) xs) w"
proof (induction xs arbitrary: w)
  case (Cons x xs)
  let ?f = "F x (mw_order w) (mw_root w)"
  have r: "mw_root (snd (on_mw ?f w)) = mw_root w" by (simp add: mw_root_def)
  have "foldS (\<lambda>x w. on_mw (F x (mw_order w) (mw_root w)) w) (x # xs) w = bindS (on_mw ?f) (\<lambda>_. on_mw (foldS (\<lambda>x. F x (mw_order w) (mw_root w)) xs)) w"
    using Cons.IH [of "snd (on_mw ?f w)"] r by (auto simp: bindS_def split: prod.split sum.split)
  then show ?case by (simp add: on_mw_bind)
qed (simp add: on_mw_return)

lemma on_out_bind: "bindS (on_out f) (\<lambda>_. on_out g) = on_out (bindS f (\<lambda>_. g))"
  by (auto simp: bindS_def on_out_def fun_eq_iff split: prod.split sum.split)

lemma on_out_fold: "foldS (\<lambda>x. on_out (f x)) xs = on_out (foldS f xs)"
proof (induction xs)
  case Nil
  then show ?case by (auto simp: on_out_def returnS_def fun_eq_iff)
next
  case (Cons x xs)
  then show ?case by (simp add: on_out_bind)
qed

lemma ew_puts: "foldS (\<lambda>(f, i, val). ew_put_element f i val) ps w =
  on_ew (on_out (foldS (\<lambda>(f, i, val). ba_put_element (ew_block w) f i val (ew_order w)) ps)) w"
proof -
  have "(\<lambda>(f, i, val). ew_put_element f i val) = (\<lambda>x w. on_ew (on_out ((\<lambda>(f, i, val). ba_put_element (ew_block w) f i val (ew_order w)) x)) w)"
    by (auto simp: ew_put_element_def fun_eq_iff)
  then show ?thesis using on_ew_fold [of "\<lambda>x o' ba. on_out ((\<lambda>(f, i, val). ba_put_element ba f i val o') x)" ps w]
    by (simp add: on_out_fold [of "\<lambda>x. case x of (f, i, val) \<Rightarrow> ba_put_element (ew_block w) f i val (ew_order w)", symmetric])
qed

lemma mw_puts: "foldS (\<lambda>(f, i, val). mw_put_element f i val) ps w =
  on_mw (on_out (foldS (\<lambda>(f, i, val). ba_put_element (mw_root w) f i val (mw_order w)) ps)) w"
proof -
  have "(\<lambda>(f, i, val). mw_put_element f i val) = (\<lambda>x w. on_mw (on_out ((\<lambda>(f, i, val). ba_put_element (mw_root w) f i val (mw_order w)) x)) w)"
    by (auto simp: mw_put_element_def fun_eq_iff)
  then show ?thesis using on_mw_fold [of "\<lambda>x o' ba. on_out ((\<lambda>(f, i, val). ba_put_element ba f i val o') x)" ps w]
    by (simp add: on_out_fold [of "\<lambda>x. case x of (f, i, val) \<Rightarrow> ba_put_element (mw_root w) f i val (mw_order w)", symmetric])
qed

lemma bindS_lift:
  assumes "f w = on f' w" "\<And>w'. w' = snd (on f' w) \<Longrightarrow> g w' = on g' w'" "bindS (on f') (\<lambda>_. on g') = on (bindS f' (\<lambda>_. g'))"
  shows "bindS f (\<lambda>_. g) w = on (bindS f' (\<lambda>_. g')) w"
  using assms unfolding assms(3) [symmetric] by (auto simp: bindS_def split: prod.split sum.split)

lemma fill_groups_none: "fill_groups [] nss = returnS ()"
  by (cases nss) simp_all

lemma ew_groups: "fill_groups gs nss w = on_ew (sk_fill_groups (ew_order w) gs nss) w"
proof (induction "ew_order w" gs nss arbitrary: w rule: sk_fill_groups.induct)
  case (1 g gs ns nss)
  show ?case unfolding fill_groups.simps sk_fill_groups.simps
    by (rule bindS_lift) (auto simp: ew_group_def on_ew_bind 1)
qed (auto simp: on_ew_return fill_groups_none)

lemma mw_groups: "mw_fill_groups gs nss w = on_mw (sk_fill_groups (mw_order w) gs nss) w"
proof (induction "mw_order w" gs nss arbitrary: w rule: sk_fill_groups.induct)
  case (1 g gs ns nss)
  show ?case unfolding mw_fill_groups.simps sk_fill_groups.simps
    by (rule bindS_lift) (auto simp: mw_group_def on_mw_bind 1)
qed (auto simp: on_mw_return)

lemma ew_vars: "foldS (\<lambda>(v, bs). ew_var_data v bs) xs w = on_ew (foldS (\<lambda>(v, bs). tail_var_data (ew_order w) (vl_id v) bs) xs) w"
proof -
  have "(\<lambda>(v, bs). ew_var_data v bs) = (\<lambda>x w. on_ew ((\<lambda>(v, bs). tail_var_data (ew_order w) (vl_id v) bs) x) w)"
    by (auto simp: ew_var_data_def fun_eq_iff)
  then show ?thesis using on_ew_fold [of "\<lambda>x o' _. (\<lambda>(v, bs). tail_var_data o' (vl_id v) bs) x" xs w] by simp
qed

lemma mw_vars: "foldS (\<lambda>(v, bs). mw_var_data v bs) xs w = on_mw (foldS (\<lambda>(v, bs). tail_var_data (mw_order w) (vl_id v) bs) xs) w"
proof -
  have "(\<lambda>(v, bs). mw_var_data v bs) = (\<lambda>x w. on_mw ((\<lambda>(v, bs). tail_var_data (mw_order w) (vl_id v) bs) x) w)"
    by (auto simp: mw_var_data_def fun_eq_iff)
  then show ?thesis using on_mw_fold [of "\<lambda>x o' _. (\<lambda>(v, bs). tail_var_data o' (vl_id v) bs) x" xs w] by simp
qed

subsection \<open>The tail of a node\<close>

lemma groups_closed: "tl_next_group (sk_tail s) = length (tl_groups (sk_tail s)) \<Longrightarrow> empty_groups_until o' (length (tl_groups (sk_tail s))) s = (Inr (), s)"
  by (subst empty_groups_until.simps) simp

text \<open>Data closes the groups in front of it, as does the end of the tail.\<close>

lemma vars_close_groups:
  assumes "empty_groups_until o' (length (tl_groups (sk_tail s))) s = (Inr (), s1)"
    "sk_tail s1 = (sk_tail s)\<lparr>tl_next_group := length (tl_groups (sk_tail s))\<rparr>"
    "drop (tl_next_var (sk_tail s)) (tl_var_data (sk_tail s)) = vs" "distinct (map vl_id (tl_var_data (sk_tail s)))"
    "list_all (\<lambda>(v, bs). lt_fits (vl_length v) (length bs)) (zip vs bss)"
  shows "bindS (sk_fill_vars o' vs bss) (\<lambda>_. tail_close o') s = bindS (sk_fill_vars o' vs bss) (\<lambda>_. tail_close o') s1"
proof (cases "zip vs bss")
  case Nil
  have g1: "empty_groups_until o' (length (tl_groups (sk_tail s))) s1 = (Inr (), s1)" using groups_closed [of s1 o'] assms(2) by simp
  have "tail_close o' s = tail_close o' s1" using assms(1,2) g1 by (simp add: tail_close_def bindS_def)
  then show ?thesis unfolding sk_fill_vars_def Nil by simp
next
  case (Cons x xs)
  then obtain v vs' bs bss' where x: "vs = v # vs'" "bss = bs # bss'" "x = (v, bs)" by (cases vs; cases bss) auto
  let ?j = "tl_next_var (sk_tail s)"
  have j: "?j < length (tl_var_data (sk_tail s))" "tl_var_data (sk_tail s) ! ?j = v"
    using assms(3) x(1) by (metis drop_all list.distinct(1) not_le, metis Cons_nth_drop_Suc drop_all list.distinct(1) list.inject not_le)
  have pos: "position (\<lambda>y. vl_id y = vl_id v) (tl_var_data (sk_tail s)) = Some ?j" using position_nth [OF assms(4) j(1)] j(2) by simp
  have fits: "lt_fits (vl_length v) (length bs)" using assms(5) x by simp
  have g1: "empty_groups_until o' (length (tl_groups (sk_tail s))) s1 = (Inr (), s1)" using groups_closed [of s1 o'] assms(2) by simp
  have "tail_var_data o' (vl_id v) bs s = tail_var_data o' (vl_id v) bs s1"
    using pos j fits assms(1,2) g1 by (simp add: tail_var_data_def bindS_def nth_opt_def)
  then show ?thesis using x by (simp add: sk_fill_vars_def bindS_assoc) (simp add: bindS_def)
qed

lemma vars_step:
  assumes "tl_next_group (sk_tail s) = length (tl_groups (sk_tail s))" "drop (tl_next_var (sk_tail s)) (tl_var_data (sk_tail s)) = vs"
    "tl_next_var (sk_tail s) \<le> length (tl_var_data (sk_tail s))"
    "distinct (map vl_id (tl_var_data (sk_tail s)))" "list_all (\<lambda>(v, bs). lt_fits (vl_length v) (length bs)) (zip vs bss)" "length bss \<le> length vs"
    "sk_pos s + length (wire_vars o' vs bss) \<le> length (sk_out s)" "length (sk_out s) \<le> U64_MAX"
  shows "sink_step (bindS (sk_fill_vars o' vs bss) (\<lambda>_. tail_close o')) s (wire_vars o' vs bss) (tl_next_group (sk_tail s)) (length (tl_var_data (sk_tail s)))"
  using assms
proof (induction vs bss arbitrary: s rule: list_induct2')
  case 1
  have "sk_fill_vars o' [] [] = returnS ()" by (simp add: sk_fill_vars_def)
  moreover have "tail_close o' s = (Inr (), s)"
    using groups_closed [of s o'] 1 by (simp add: tail_close_def bindS_def) (subst empty_var_data_until.simps, simp)
  ultimately show ?case using 1 by (auto simp: sink_step_def appended_Nil)
next
  case (2 v vs)
  have "sink_step (empty_var_data_until o' (length (tl_var_data (sk_tail s)))) s (wire_vars o' (v # vs) []) (tl_next_group (sk_tail s)) (length (tl_var_data (sk_tail s)))"
  proof (rule empty_vars_step)
    have "take (length (tl_var_data (sk_tail s)) - tl_next_var (sk_tail s)) (drop (tl_next_var (sk_tail s)) (tl_var_data (sk_tail s))) =
      drop (tl_next_var (sk_tail s)) (tl_var_data (sk_tail s))" by (rule take_all) simp
    then show "v # vs = take (length (tl_var_data (sk_tail s)) - tl_next_var (sk_tail s)) (drop (tl_next_var (sk_tail s)) (tl_var_data (sk_tail s)))"
      using 2(2) by simp
  qed (use 2 in simp_all)
  then show ?case using groups_closed [of s o'] 2(1) by (simp add: sink_step_def sk_fill_vars_def tail_close_def bindS_def)
next
  case (3 b bs)
  then show ?case by simp
next
  case (4 v vs bs bss)
  let ?j = "tl_next_var (sk_tail s)"
  have j: "?j < length (tl_var_data (sk_tail s))" "tl_var_data (sk_tail s) ! ?j = v" "drop (Suc ?j) (tl_var_data (sk_tail s)) = vs"
    using "4.prems"(2) by (metis drop_all list.distinct(1) not_le, metis Cons_nth_drop_Suc drop_all list.distinct(1) list.inject not_le,
      metis Cons_nth_drop_Suc drop_all list.distinct(1) list.inject not_le)
  have "sink_step (tail_var_data o' (vl_id v) bs) s (wire_len o' (vl_length v) (length bs) @ bs) (tl_next_group (sk_tail s)) (?j + 1)"
    using "4.prems" j by (intro var_data_step) (simp_all add: add.assoc)
  then have "sink_step (bindS (tail_var_data o' (vl_id v) bs) (\<lambda>_. bindS (sk_fill_vars o' vs bss) (\<lambda>_. tail_close o'))) s
      ((wire_len o' (vl_length v) (length bs) @ bs) @ wire_vars o' vs bss) (tl_next_group (sk_tail s)) (length (tl_var_data (sk_tail s)))"
  proof (rule sink_step_bind)
    fix s' :: sink assume a: "appended (sk_out s) (sk_pos s) (wire_len o' (vl_length v) (length bs) @ bs) (sk_out s') (sk_pos s')"
      and t: "sk_tail s' = (sk_tail s)\<lparr>tl_next_group := tl_next_group (sk_tail s), tl_next_var := ?j + 1\<rparr>"
    have "sink_step (bindS (sk_fill_vars o' vs bss) (\<lambda>_. tail_close o')) s' (wire_vars o' vs bss) (tl_next_group (sk_tail s')) (length (tl_var_data (sk_tail s')))"
      using "4.prems" j a t by (intro "4.IH") (simp_all add: appended_def)
    then show "sink_step (bindS (sk_fill_vars o' vs bss) (\<lambda>_. tail_close o')) s' (wire_vars o' vs bss) (tl_next_group (sk_tail s)) (length (tl_var_data (sk_tail s)))"
      by (simp add: t)
  qed
  then show ?case by (simp add: sk_fill_vars_def bindS_assoc)
qed

subsection \<open>Entries, groups and nodes\<close>

text \<open>One group filled: the count in the dimension is the number of entries.\<close>

definition entries_written :: "byte_order \<Rightarrow> group_layout \<Rightarrow> node list \<Rightarrow> bool" where
  "entries_written o' g ns \<longleftrightarrow> (\<forall>gw pre es i.
     entries_ok o' g ns \<and> lt_fits (dm_num_in_group (gl_dimension g)) (i + length ns) \<and> gw_layout gw = g \<and> gw_order gw = o' \<and> gw_count gw = i \<and>
     gw_count_at gw = length pre + lt_size (dm_block_length (gl_dimension g)) \<and> gw_pos gw \<le> length (gw_out gw) \<and>
     take (gw_pos gw) (gw_out gw) = pre @ wire_dim o' g i @ es \<and>
     gw_pos gw + length (wire_entries o' g ns) \<le> length (gw_out gw) \<and> length (gw_out gw) \<le> U64_MAX \<longrightarrow>
     (\<exists>gw'. fill_entries g ns gw = (Inr (), gw') \<and> length (gw_out gw') = length (gw_out gw) \<and>
        gw_pos gw' = gw_pos gw + length (wire_entries o' g ns) \<and>
        take (gw_pos gw') (gw_out gw') = pre @ wire_dim o' g (i + length ns) @ es @ wire_entries o' g ns))"

definition groups_written :: "byte_order \<Rightarrow> group_layout list \<Rightarrow> node list list \<Rightarrow> bool" where
  "groups_written o' gs nss \<longleftrightarrow> (\<forall>s.
     groups_ok o' gs nss \<and> drop (tl_next_group (sk_tail s)) (tl_groups (sk_tail s)) = gs \<and> tl_next_var (sk_tail s) = 0 \<and>
     distinct (map gl_id (tl_groups (sk_tail s))) \<and> list_all dim_ok (tl_groups (sk_tail s)) \<and>
     sk_pos s + length (wire_groups o' (take (length nss) gs) nss) \<le> length (sk_out s) \<and> length (sk_out s) \<le> U64_MAX \<longrightarrow>
     sink_step (sk_fill_groups o' gs nss) s (wire_groups o' (take (length nss) gs) nss) (tl_next_group (sk_tail s) + length nss) 0)"

definition node_written :: "byte_order \<Rightarrow> group_layout list \<Rightarrow> var_data_layout list \<Rightarrow> node \<Rightarrow> bool" where
  "node_written o' gs vs n \<longleftrightarrow> (\<forall>fs len out start.
     node_ok o' fs len gs vs n \<and> start + length (wire_node o' fs len gs vs n) \<le> length out \<and> length out \<le> U64_MAX \<longrightarrow>
     (\<exists>out1 w. init_block start len fs o' out = (Inr (), out1) \<and>
        bindS (fill_node gs vs n) (\<lambda>_ w. on_ew (tail_close (ew_order w)) w)
          \<lparr>ew_sink = \<lparr>sk_out = out1, sk_pos = start + len, sk_tail = Tail_new gs vs\<rparr>, ew_order = o', ew_block = \<lparr>ba_start = start, ba_len = len\<rparr>\<rparr> = (Inr (), w) \<and>
        appended out start (wire_node o' fs len gs vs n) (sk_out (ew_sink w)) (sk_pos (ew_sink w))))"

lemma groups_ok_length: "groups_ok o' gs nss \<Longrightarrow> length nss \<le> length gs"
  by (induction gs nss rule: list_induct2') auto

lemma wire_groups_split: "groups_ok o' gs nss \<Longrightarrow> wire_groups o' gs nss = wire_groups o' (take (length nss) gs) nss @ wire_groups o' (drop (length nss) gs) []"
  by (induction gs nss rule: list_induct2') auto

lemma fill_tail_step:
  assumes "groups_written o' gs nss" "groups_ok o' gs nss" "distinct (map gl_id gs)" "list_all dim_ok gs" "vars_ok vs bss" "sk_tail s = Tail_new gs vs"
    "sk_pos s + length (wire_groups o' gs nss @ wire_vars o' vs bss) \<le> length (sk_out s)" "length (sk_out s) \<le> U64_MAX"
  shows "sink_step (sk_fill_tail o' gs vs nss bss) s (wire_groups o' gs nss @ wire_vars o' vs bss) (length gs) (length vs)"
proof -
  let ?A = "wire_groups o' (take (length nss) gs) nss" and ?B = "wire_groups o' (drop (length nss) gs) []"
  have split: "wire_groups o' gs nss = ?A @ ?B" by (rule wire_groups_split [OF assms(2)])
  have len: "length nss \<le> length gs" by (rule groups_ok_length [OF assms(2)])
  have "sink_step (sk_fill_groups o' gs nss) s ?A (length nss) 0"
    using assms len split unfolding groups_written_def by (auto simp: Tail_new_def dest: spec [of _ s])
  then have "sink_step (bindS (sk_fill_groups o' gs nss) (\<lambda>_. bindS (sk_fill_vars o' vs bss) (\<lambda>_. tail_close o'))) s (?A @ ?B @ wire_vars o' vs bss) (length gs) (length vs)"
  proof (rule sink_step_bind)
    fix s1 :: sink assume a: "appended (sk_out s) (sk_pos s) ?A (sk_out s1) (sk_pos s1)" and t: "sk_tail s1 = (sk_tail s)\<lparr>tl_next_group := length nss, tl_next_var := 0\<rparr>"
    have "sink_step (empty_groups_until o' (length gs)) s1 ?B (length gs) (tl_next_var (sk_tail s1))"
      using t assms len a split by (intro empty_groups_step) (simp_all add: Tail_new_def appended_def)
    then obtain s2 where s2: "empty_groups_until o' (length gs) s1 = (Inr (), s2)" "appended (sk_out s1) (sk_pos s1) ?B (sk_out s2) (sk_pos s2)"
        "sk_tail s2 = (sk_tail s1)\<lparr>tl_next_group := length gs, tl_next_var := 0\<rparr>" by (auto simp: sink_step_def t)
    have run: "bindS (sk_fill_vars o' vs bss) (\<lambda>_. tail_close o') s1 = bindS (sk_fill_vars o' vs bss) (\<lambda>_. tail_close o') s2"
      using s2 t assms(5,6) by (intro vars_close_groups) (simp_all add: Tail_new_def vars_ok_def)
    have "sink_step (bindS (sk_fill_vars o' vs bss) (\<lambda>_. tail_close o')) s2 (wire_vars o' vs bss) (tl_next_group (sk_tail s2)) (length (tl_var_data (sk_tail s2)))"
      using s2 t assms a split by (intro vars_step) (auto simp: Tail_new_def vars_ok_def appended_def)
    then show "sink_step (bindS (sk_fill_vars o' vs bss) (\<lambda>_. tail_close o')) s1 (?B @ wire_vars o' vs bss) (length gs) (length vs)"
      using s2 t assms(6) unfolding sink_step_def run by (auto simp: Tail_new_def dest: appended_trans)
  qed
  then show ?thesis by (simp add: split sk_fill_tail_def)
qed

lemma fill_node_lifted:
  assumes "ew_order w = o'" "ew_block w = ba"
  shows "bindS (fill_node gs vs (Node ps nss bss)) (\<lambda>_ w. on_ew (tail_close (ew_order w)) w) w =
    on_ew (bindS (on_out (foldS (\<lambda>(f, i, val). ba_put_element ba f i val o') ps)) (\<lambda>_. sk_fill_tail o' gs vs nss bss)) w"
proof -
  let ?puts = "on_out (foldS (\<lambda>(f, i, val). ba_put_element ba f i val o') ps)"
  have close: "bindS (foldS (\<lambda>(v, bs). ew_var_data v bs) (zip vs bss)) (\<lambda>_ w. on_ew (tail_close (ew_order w)) w) w' =
      on_ew (bindS (sk_fill_vars o' vs bss) (\<lambda>_. tail_close o')) w'" if "ew_order w' = o'" for w'
    by (rule bindS_lift [where on = on_ew, OF _ _ on_ew_bind]) (simp_all add: ew_vars sk_fill_vars_def that)
  have tail: "bindS (fill_groups gs nss) (\<lambda>_. bindS (foldS (\<lambda>(v, bs). ew_var_data v bs) (zip vs bss)) (\<lambda>_ w. on_ew (tail_close (ew_order w)) w)) w' =
      on_ew (sk_fill_tail o' gs vs nss bss) w'" if "ew_order w' = o'" for w'
    unfolding sk_fill_tail_def by (rule bindS_lift [where on = on_ew, OF _ _ on_ew_bind]) (simp_all add: ew_groups close that)
  show ?thesis unfolding fill_node.simps bindS_assoc
    by (rule bindS_lift [where on = on_ew, OF _ _ on_ew_bind]) (simp_all add: ew_puts tail assms)
qed

lemma node_case:
  assumes "groups_written o' gs nss"
  shows "node_written o' gs vs (Node ps nss bss)"
  unfolding node_written_def
proof (intro allI impI, elim conjE)
  fix fs len start and out :: bytes
  assume ok: "node_ok o' fs len gs vs (Node ps nss bss)" and room: "start + length (wire_node o' fs len gs vs (Node ps nss bss)) \<le> length out"
    and small: "length out \<le> U64_MAX"
  let ?im = "block_image o' fs len ps" and ?ba = "\<lparr>ba_start = start, ba_len = len\<rparr>"
  let ?tail = "wire_groups o' gs nss @ wire_vars o' vs bss"
  have fb: "fst (fill_block o' fs ps (replicate len 0)) = Inr ()" using ok by simp
  have sl: "start + len \<le> length out" using room by simp
  obtain out1 where out1: "init_block start len fs o' out = (Inr (), out1)" "length out1 = length out"
      "foldS (\<lambda>(f, i, val). ba_put_element ?ba f i val o') ps out1 = (Inr (), put_back out start ?im)"
    using fill_in_place [OF fb sl small] by blast
  define s2 where "s2 = \<lparr>sk_out = put_back out start ?im, sk_pos = start + len, sk_tail = Tail_new gs vs\<rparr>"
  have s2: "sk_out s2 = put_back out start ?im" "sk_pos s2 = start + len" "sk_tail s2 = Tail_new gs vs" "length (sk_out s2) = length out"
    using sl by (simp_all add: s2_def length_put_back)
  have "sink_step (sk_fill_tail o' gs vs nss bss) s2 ?tail (length gs) (length vs)"
    using assms ok s2 small room by (intro fill_tail_step) simp_all
  then obtain s3 where s3: "sk_fill_tail o' gs vs nss bss s2 = (Inr (), s3)" "appended (sk_out s2) (sk_pos s2) ?tail (sk_out s3) (sk_pos s3)"
    by (auto simp: sink_step_def)
  let ?w = "\<lparr>ew_sink = \<lparr>sk_out = out1, sk_pos = start + len, sk_tail = Tail_new gs vs\<rparr>, ew_order = o', ew_block = ?ba\<rparr>"
  have run: "bindS (fill_node gs vs (Node ps nss bss)) (\<lambda>_ w. on_ew (tail_close (ew_order w)) w) ?w = (Inr (), ?w\<lparr>ew_sink := s3\<rparr>)"
    using out1(3) s3(1) by (subst fill_node_lifted [of _ o' ?ba]) (simp_all add: on_ew_def on_out_def bindS_def s2_def)
  have "appended out start ?im (sk_out s2) (sk_pos s2)" using appended_put_back [of start ?im out] sl s2 by simp
  then have "appended out start (?im @ ?tail) (sk_out s3) (sk_pos s3)" using s3(2) by (rule appended_trans)
  then show "\<exists>out1 w. init_block start len fs o' out = (Inr (), out1) \<and>
      bindS (fill_node gs vs (Node ps nss bss)) (\<lambda>_ w. on_ew (tail_close (ew_order w)) w)
        \<lparr>ew_sink = \<lparr>sk_out = out1, sk_pos = start + len, sk_tail = Tail_new gs vs\<rparr>, ew_order = o', ew_block = ?ba\<rparr> = (Inr (), w) \<and>
      appended out start (wire_node o' fs len gs vs (Node ps nss bss)) (sk_out (ew_sink w)) (sk_pos (ew_sink w))"
    using out1(1) run by (intro exI [of _ out1] exI [of _ "?w\<lparr>ew_sink := s3\<rparr>"]) simp
qed

lemma patch_count:
  assumes "take at out = pre @ wire_dim o' g i @ es" "at \<le> length out"
  shows "take at (put_back out (length pre + lt_size (dm_block_length (gl_dimension g))) (wire_len o' (dm_num_in_group (gl_dimension g)) j)) = pre @ wire_dim o' g j @ es"
proof -
  let ?c = "length pre + lt_size (dm_block_length (gl_dimension g))" and ?L = "wire_len o' (dm_num_in_group (gl_dimension g)) j"
  have len: "length pre + dm_size (gl_dimension g) + length es = at" using arg_cong [OF assms(1), of length] assms(2) by simp
  have le: "?c + length ?L \<le> at" using len by (simp add: dm_size_def)
  have "0 < lt_size (dm_num_in_group (gl_dimension g))" by (cases "dm_num_in_group (gl_dimension g)") simp_all
  then have lt: "\<not> at \<le> ?c" using le by simp
  have "take at (put_back out ?c ?L) = put_back (take at out) ?c ?L"
    using le assms(2) lt by (auto simp: put_back_def min_def drop_take)
  also have "\<dots> = pre @ wire_dim o' g j @ es"
    unfolding assms(1) by (simp add: put_back_def wire_dim_def)
  finally show ?thesis .
qed

lemma entries_case:
  assumes "node_written o' (gl_groups g) (gl_var_data g) n" "entries_written o' g ns"
  shows "entries_written o' g (n # ns)"
  unfolding entries_written_def
proof (intro allI impI, elim conjE)
  fix gw :: group_writer and pre es i
  assume ok: "entries_ok o' g (n # ns)" and fit: "lt_fits (dm_num_in_group (gl_dimension g)) (i + length (n # ns))"
    and gw: "gw_layout gw = g" "gw_order gw = o'" "gw_count gw = i" "gw_count_at gw = length pre + lt_size (dm_block_length (gl_dimension g))"
    and pos: "gw_pos gw \<le> length (gw_out gw)" and tk: "take (gw_pos gw) (gw_out gw) = pre @ wire_dim o' g i @ es"
    and room: "gw_pos gw + length (wire_entries o' g (n # ns)) \<le> length (gw_out gw)" and small: "length (gw_out gw) \<le> U64_MAX"
  let ?e = "wire_node o' (gl_fields g) (gl_block_length g) (gl_groups g) (gl_var_data g) n"
  let ?t = "dm_num_in_group (gl_dimension g)"
  obtain out1 w where w: "init_block (gw_pos gw) (gl_block_length g) (gl_fields g) o' (gw_out gw) = (Inr (), out1)"
      "bindS (fill_node (gl_groups g) (gl_var_data g) n) (\<lambda>_ w. on_ew (tail_close (ew_order w)) w)
        \<lparr>ew_sink = \<lparr>sk_out = out1, sk_pos = gw_pos gw + gl_block_length g, sk_tail = Tail_new (gl_groups g) (gl_var_data g)\<rparr>,
          ew_order = o', ew_block = \<lparr>ba_start = gw_pos gw, ba_len = gl_block_length g\<rparr>\<rparr> = (Inr (), w)"
      "appended (gw_out gw) (gw_pos gw) ?e (sk_out (ew_sink w)) (sk_pos (ew_sink w))"
    using assms(1) [unfolded node_written_def, rule_format, of "gl_fields g" "gl_block_length g" "gw_pos gw" "gw_out gw"] ok room small by auto
  define out2 pos2 where "out2 = sk_out (ew_sink w)" and "pos2 = sk_pos (ew_sink w)"
  have a: "length out2 = length (gw_out gw)" "pos2 = gw_pos gw + length ?e" "pos2 \<le> length out2" "take pos2 out2 = pre @ wire_dim o' g i @ es @ ?e"
    using w(3) tk by (auto simp: appended_def out2_def pos2_def)
  have fit1: "lt_fits ?t (i + 1)" "i + 1 \<le> U64_MAX" using fit by (cases ?t; simp add: lt_fits_def)+
  have "length (pre @ wire_dim o' g i @ es) = gw_pos gw" using arg_cong [OF tk, of length] pos by simp
  then have "gw_count_at gw + lt_size ?t \<le> length out2" using gw(4) a by (simp add: dm_size_def)
  then have wl: "write_length (gw_count_at gw) ?t (i + 1) o' out2 = (Inr (), put_back out2 (gw_count_at gw) (wire_len o' ?t (i + 1)))"
    using fit1 a(1) small by (intro write_length_eq) simp_all
  define out3 where "out3 = put_back out2 (gw_count_at gw) (wire_len o' ?t (i + 1))"
  define gw1 where "gw1 = gw\<lparr>gw_out := out3, gw_pos := pos2, gw_count := i + 1\<rparr>"
  have len3: "length out3 = length (gw_out gw)"
    using \<open>gw_count_at gw + lt_size ?t \<le> length out2\<close> a(1) by (simp add: out3_def length_put_back)
  have tk3: "take pos2 out3 = pre @ wire_dim o' g (i + 1) @ (es @ ?e)"
    unfolding out3_def gw(4) using a(3,4) by (intro patch_count) simp_all
  have entry: "gw_entry (fill_node (gl_groups g) (gl_var_data g) n) gw = (Inr (), gw1)"
    using gw w fit1 wl by (simp add: gw_entry_def write_entry_def checked_add_def gw1_def out2_def pos2_def out3_def)
  have "\<exists>gw'. fill_entries g ns gw1 = (Inr (), gw') \<and> length (gw_out gw') = length (gw_out gw1) \<and>
      gw_pos gw' = gw_pos gw1 + length (wire_entries o' g ns) \<and>
      take (gw_pos gw') (gw_out gw') = pre @ wire_dim o' g (i + 1 + length ns) @ (es @ ?e) @ wire_entries o' g ns"
    using assms(2) ok fit gw tk3 len3 a room small unfolding entries_written_def
    by (elim allE [of _ gw1] allE [of _ pre] allE [of _ "es @ ?e"] allE [of _ "i + 1"]) (simp add: gw1_def)
  then show "\<exists>gw'. fill_entries g (n # ns) gw = (Inr (), gw') \<and> length (gw_out gw') = length (gw_out gw) \<and>
      gw_pos gw' = gw_pos gw + length (wire_entries o' g (n # ns)) \<and>
      take (gw_pos gw') (gw_out gw') = pre @ wire_dim o' g (i + length (n # ns)) @ es @ wire_entries o' g (n # ns)"
    using entry a len3 by (auto simp: bindS_def gw1_def)
qed

lemma groups_case:
  assumes "entries_written o' g ns" "groups_written o' gs nss"
  shows "groups_written o' (g # gs) (ns # nss)"
  unfolding groups_written_def
proof (intro allI impI, elim conjE)
  fix s :: sink
  assume ok: "groups_ok o' (g # gs) (ns # nss)" and d: "drop (tl_next_group (sk_tail s)) (tl_groups (sk_tail s)) = g # gs"
    and nv: "tl_next_var (sk_tail s) = 0" and dist: "distinct (map gl_id (tl_groups (sk_tail s)))" and dims: "list_all dim_ok (tl_groups (sk_tail s))"
    and room: "sk_pos s + length (wire_groups o' (take (length (ns # nss)) (g # gs)) (ns # nss)) \<le> length (sk_out s)" and small: "length (sk_out s) \<le> U64_MAX"
  let ?j = "tl_next_group (sk_tail s)"
  have j: "?j < length (tl_groups (sk_tail s))" "g = tl_groups (sk_tail s) ! ?j" "drop (Suc ?j) (tl_groups (sk_tail s)) = gs"
    using d by (metis drop_all list.distinct(1) not_le, metis Cons_nth_drop_Suc drop_all list.distinct(1) list.inject not_le,
      metis Cons_nth_drop_Suc drop_all list.distinct(1) list.inject not_le)
  have dg: "dim_ok g" using dims j by (simp add: list_all_length)
  have r0: "sk_pos s + dm_size (gl_dimension g) \<le> length (sk_out s)" using room by simp
  obtain s1 where s1: "tail_open_group o' (gl_id g) s = (Inr (g, sk_pos s + lt_size (dm_block_length (gl_dimension g))), s1)"
      "appended (sk_out s) (sk_pos s) (wire_dim o' g 0) (sk_out s1) (sk_pos s1)" "sk_tail s1 = (sk_tail s)\<lparr>tl_next_group := ?j + 1\<rparr>"
    using open_group_step [OF j(1) nv j(2) dist dg r0 small] by blast
  let ?gw = "\<lparr>gw_out = sk_out s1, gw_pos = sk_pos s1, gw_order = o', gw_layout = g, gw_count_at = sk_pos s + lt_size (dm_block_length (gl_dimension g)), gw_count = 0\<rparr>"
  have pl: "length (take (sk_pos s) (sk_out s)) = sk_pos s" using r0 by simp
  obtain gw' where gw': "fill_entries g ns ?gw = (Inr (), gw')" "length (gw_out gw') = length (sk_out s1)" "gw_pos gw' = sk_pos s1 + length (wire_entries o' g ns)"
      "take (gw_pos gw') (gw_out gw') = take (sk_pos s) (sk_out s) @ wire_dim o' g (length ns) @ wire_entries o' g ns"
    using assms(1) ok s1(2) room small pl unfolding entries_written_def
    by (elim allE [of _ ?gw] allE [of _ "take (sk_pos s) (sk_out s)"] allE [of _ "[]"] allE [of _ 0]) (auto simp: appended_def)
  let ?xs = "wire_dim o' g (length ns) @ wire_entries o' g ns"
  have "sink_step (sink_group o' g (fill_entries g ns)) s ?xs (?j + 1) 0"
    unfolding sink_step_def using s1 gw' room nv
    by (intro exI [of _ "s1\<lparr>sk_out := gw_out gw', sk_pos := gw_pos gw'\<rparr>"]) (auto simp: sink_group_def bindS_def appended_def)
  then have "sink_step (bindS (sink_group o' g (fill_entries g ns)) (\<lambda>_. sk_fill_groups o' gs nss)) s
      (?xs @ wire_groups o' (take (length nss) gs) nss) (?j + 1 + length nss) 0"
  proof (rule sink_step_bind)
    fix s' :: sink assume a: "appended (sk_out s) (sk_pos s) ?xs (sk_out s') (sk_pos s')"
      and t: "sk_tail s' = (sk_tail s)\<lparr>tl_next_group := ?j + 1, tl_next_var := 0\<rparr>"
    have "sink_step (sk_fill_groups o' gs nss) s' (wire_groups o' (take (length nss) gs) nss) (tl_next_group (sk_tail s') + length nss) 0"
      using assms(2) ok j(3) dist dims a t room small unfolding groups_written_def by (elim allE [of _ s']) (auto simp: appended_def)
    then show "sink_step (sk_fill_groups o' gs nss) s' (wire_groups o' (take (length nss) gs) nss) (?j + 1 + length nss) 0" by (simp add: t)
  qed
  then show "sink_step (sk_fill_groups o' (g # gs) (ns # nss)) s (wire_groups o' (take (length (ns # nss)) (g # gs)) (ns # nss)) (?j + length (ns # nss)) 0"
    by simp
qed

lemma all_written: "node_written o' gs vs n" "groups_written o' gs nss" "entries_written o' g ns"
proof (induction gs vs n and gs nss and g ns rule: fill_node_fill_groups_fill_entries.induct)
  case (1 gs vs ps nss bss)
  then show ?case by (intro node_case) simp
next
  case (2 gs)
  show ?case by (auto simp: groups_written_def sink_step_def returnS_def appended_def fun_upd_def)
next
  case (3 ns nss)
  show ?case by (simp add: groups_written_def)
next
  case (4 g gs ns nss)
  then show ?case by (intro groups_case) simp_all
next
  case (5 g)
  show ?case by (auto simp: entries_written_def returnS_def)
next
  case (6 g n ns)
  then show ?case by (intro entries_case) simp_all
qed

subsection \<open>The message\<close>

definition message_header_of :: "schema \<Rightarrow> message_layout \<Rightarrow> nat \<Rightarrow> message_header" where
  "message_header_of S l tid = \<lparr>mh_block_length = ml_block_length l, mh_template_id = tid, mh_schema_id = sm_id S, mh_version = sm_version S\<rparr>"

definition wire_message :: "schema \<Rightarrow> message_layout \<Rightarrow> nat \<Rightarrow> node \<Rightarrow> bytes" where
  "wire_message S l tid n = header_bytes (message_header_of S l tid) (sm_byte_order S) @
     wire_node (sm_byte_order S) (ml_fields l) (ml_block_length l) (ml_groups l) (ml_var_data l) n"

definition message_ok :: "schema \<Rightarrow> message_layout \<Rightarrow> node \<Rightarrow> bool" where
  "message_ok S l n \<longleftrightarrow> node_ok (sm_byte_order S) (ml_fields l) (ml_block_length l) (ml_groups l) (ml_var_data l) n"

lemma mw_fill_lifted:
  assumes "mw_order w = o'" "mw_root w = ba" "mw_layout w = l"
  shows "(case bindS (foldS (\<lambda>(f, i, val). mw_put_element f i val) ps) (\<lambda>_. bindS (mw_fill_groups gs nss) (\<lambda>_. foldS (\<lambda>(v, bs). mw_var_data v bs) (zip vs bss))) w of
      (Inl e, w) \<Rightarrow> (Inl e, sk_out (mw_sink w)) | (Inr _, w) \<Rightarrow> mw_finish w) =
    (case bindS (on_out (foldS (\<lambda>(f, i, val). ba_put_element ba f i val o') ps)) (\<lambda>_. sk_fill_tail o' gs vs nss bss) (mw_sink w) of
      (Inl e, s) \<Rightarrow> (Inl e, sk_out s) | (Inr _, s) \<Rightarrow> (Inr (sk_pos s), sk_out s))"
proof -
  have tail: "bindS (mw_fill_groups gs nss) (\<lambda>_. foldS (\<lambda>(v, bs). mw_var_data v bs) (zip vs bss)) w' =
      on_mw (bindS (sk_fill_groups o' gs nss) (\<lambda>_. sk_fill_vars o' vs bss)) w'" if "mw_order w' = o'" for w'
    by (rule bindS_lift [where on = on_mw, OF _ _ on_mw_bind]) (simp_all add: mw_groups mw_vars sk_fill_vars_def that)
  have run: "bindS (foldS (\<lambda>(f, i, val). mw_put_element f i val) ps) (\<lambda>_. bindS (mw_fill_groups gs nss) (\<lambda>_. foldS (\<lambda>(v, bs). mw_var_data v bs) (zip vs bss))) w =
      on_mw (bindS (on_out (foldS (\<lambda>(f, i, val). ba_put_element ba f i val o') ps)) (\<lambda>_. bindS (sk_fill_groups o' gs nss) (\<lambda>_. sk_fill_vars o' vs bss))) w"
    by (rule bindS_lift [where on = on_mw, OF _ _ on_mw_bind]) (simp_all add: mw_puts tail assms)
  show ?thesis unfolding run sk_fill_tail_def using assms(1)
    by (auto simp: on_mw_def mw_finish_def bindS_def split: prod.split sum.split)
qed

theorem write_message_wire:
  assumes "sm_message S tid = Some l" "message_ok S l n" "length (wire_message S l tid n) \<le> length out" "length out \<le> U64_MAX"
  shows "\<exists>out'. write_message S tid n out = (Inr (length (wire_message S l tid n)), out') \<and>
    take (length (wire_message S l tid n)) out' = wire_message S l tid n \<and> length out' = length out"
proof -
  let ?o = "sm_byte_order S" and ?h = "message_header_of S l tid"
  let ?hb = "header_bytes ?h ?o" and ?len = "ml_block_length l"
  obtain ps nss bss where n: "n = Node ps nss bss" by (cases n)
  let ?im = "block_image ?o (ml_fields l) ?len ps" and ?ba = "\<lparr>ba_start = HEADER_LEN, ba_len = ?len\<rparr>"
  let ?tail = "wire_groups ?o (ml_groups l) nss @ wire_vars ?o (ml_var_data l) bss"
  have wire: "wire_message S l tid n = ?hb @ ?im @ ?tail" by (simp add: wire_message_def n)
  have len: "8 + ?len + length ?tail \<le> length out" using assms(3) by (simp add: wire)
  define out0 where "out0 = ?hb @ drop 8 out"
  have out0: "header_encode ?h out ?o = Inr out0" "length out0 = length out" using len by (simp_all add: header_encode_eq out0_def)
  have ok: "node_ok ?o (ml_fields l) ?len (ml_groups l) (ml_var_data l) (Node ps nss bss)" using assms(2) by (simp add: message_ok_def n)
  have fb: "fst (fill_block ?o (ml_fields l) ps (replicate ?len 0)) = Inr ()" using ok by simp
  obtain out1 where out1: "init_block 8 ?len (ml_fields l) ?o out0 = (Inr (), out1)" "length out1 = length out0"
      "foldS (\<lambda>(f, i, val). ba_put_element ?ba f i val ?o) ps out1 = (Inr (), put_back out0 8 ?im)"
    using fill_in_place [OF fb, of 8 out0] len out0(2) assms(4) by auto
  define s1 where "s1 = \<lparr>sk_out = out1, sk_pos = 8 + ?len, sk_tail = Tail_new (ml_groups l) (ml_var_data l)\<rparr>"
  define s2 where "s2 = s1\<lparr>sk_out := put_back out0 8 ?im\<rparr>"
  have s2: "sk_out s2 = put_back out0 8 ?im" "sk_pos s2 = 8 + ?len" "sk_tail s2 = Tail_new (ml_groups l) (ml_var_data l)" "length (sk_out s2) = length out"
    using len out0(2) by (simp_all add: s2_def s1_def length_put_back)
  have "sink_step (sk_fill_tail ?o (ml_groups l) (ml_var_data l) nss bss) s2 ?tail (length (ml_groups l)) (length (ml_var_data l))"
    using ok s2 assms(4) len by (intro fill_tail_step all_written) simp_all
  then obtain s3 where s3: "sk_fill_tail ?o (ml_groups l) (ml_var_data l) nss bss s2 = (Inr (), s3)"
      "appended (sk_out s2) (sk_pos s2) ?tail (sk_out s3) (sk_pos s3)" by (auto simp: sink_step_def)
  have "appended out0 0 ?hb out0 8" using out0(2) len by (simp add: appended_def out0_def)
  moreover have "appended out0 8 ?im (sk_out s2) (sk_pos s2)" using appended_put_back [of 8 ?im out0] len out0(2) s2 by simp
  ultimately have "appended out0 0 (?hb @ ?im @ ?tail) (sk_out s3) (sk_pos s3)" using s3(2) by (blast intro: appended_trans)
  then have fin: "sk_pos s3 = length (wire_message S l tid n)" "take (sk_pos s3) (sk_out s3) = wire_message S l tid n" "length (sk_out s3) = length out"
    using out0(2) by (auto simp: appended_def wire)
  define w where "w = \<lparr>mw_sink = s1, mw_order = ?o, mw_layout = l\<rparr>"
  have new: "MessageWriter_new S out tid = (Inr w, out1)"
    using assms(1) out0(1) out1(1) by (simp add: MessageWriter_new_def Let_def writeS_def w_def s1_def message_header_of_def)
  have w: "mw_order w = ?o" "mw_root w = ?ba" "mw_layout w = l" "mw_sink w = s1" by (simp_all add: w_def mw_root_def)
  have "bindS (on_out (foldS (\<lambda>(f, i, val). ba_put_element ?ba f i val ?o) ps)) (\<lambda>_. sk_fill_tail ?o (ml_groups l) (ml_var_data l) nss bss) s1 = (Inr (), s3)"
    using out1(3) s3(1) by (simp add: bindS_def on_out_def s2_def) (simp add: s1_def)
  then have "write_message S tid n out = (Inr (sk_pos s3), sk_out s3)"
    unfolding write_message_def new prod.case sum.case w(3) using mw_fill_lifted [OF w(1-3), of "nd_puts n" "ml_groups l" "nd_groups n" "ml_var_data l" "nd_vars n"]
    by (simp add: w n)
  then show ?thesis using fin by (intro exI [of _ "sk_out s3"]) simp
qed

end
