(* ===== verification/Encoding.thy ===== *)
theory Encoding
  imports Sbe Template Parse_Correct
begin

text \<open>
  The trait that a session and a connection are generic in, \<open>crates/codec/src/encoding.rs\<close>, and its two
  implementations: \<open>TagValue\<close> of the same file and \<open>Sbe\<close> of \<open>crates/sbe/src/encoding.rs\<close>. What a stream
  reader relies on is the locale \<open>framing\<close>, and both encodings give it.
\<close>

subsection \<open>The trait\<close>

record session_fields =
  sf_begin_string :: "bytes option"
  sf_msg_type :: "bytes option"
  sf_msg_seq_num :: "bytes option"
  sf_sender_comp_id :: "bytes option"
  sf_target_comp_id :: "bytes option"
  sf_sending_time :: "bytes option"
  sf_poss_dup_flag :: "bytes option"
  sf_orig_sending_time :: "bytes option"

record ('scratch, 'view, 'field, 'template, 'perr, 'eerr) encoding =
  ec_dict :: dictionary
  ec_parse :: "bytes \<Rightarrow> 'scratch \<Rightarrow> validation \<Rightarrow> ('perr + parsed) \<times> 'scratch"
  ec_view :: "'scratch \<Rightarrow> bytes \<Rightarrow> 'view"
  ec_field :: "'view \<Rightarrow> 'field \<Rightarrow> bytes option"
  ec_session_fields :: "'view \<Rightarrow> session_fields option"
  ec_encode :: "'template \<Rightarrow> bytes \<Rightarrow> ('field \<times> bytes) list \<Rightarrow> 'eerr + bytes \<times> nat \<times> nat"

definition TagValue :: "dictionary \<Rightarrow> (field_index, message_view, nat, template, parse_error, encode_error) encoding" where
  "TagValue D = \<lparr>
     ec_dict = D,
     ec_parse = (\<lambda>buf scratch v. parse_into D v buf scratch),
     ec_view = fi_view,
     ec_field = mv_get,
     ec_session_fields = (\<lambda>view. Some \<lparr>
       sf_begin_string = mv_get view 8, sf_msg_type = mv_get view 35, sf_msg_seq_num = mv_get view 34,
       sf_sender_comp_id = mv_get view 49, sf_target_comp_id = mv_get view 56, sf_sending_time = mv_get view 52,
       sf_poss_dup_flag = mv_get view 43, sf_orig_sending_time = mv_get view 122\<rparr>),
     ec_encode = (\<lambda>t out slots. encode_with D t out slots [])\<rparr>"

text \<open>\<open>SbeTables\<close> of \<open>crates/sbe/src/tables.rs\<close>: no header fields, no length fields, no groups by tag.\<close>

definition SbeTables :: dictionary where
  "SbeTables = \<lparr>is_header = (\<lambda>_. False), data_length_tag = (\<lambda>_. None), group_delimiter = (\<lambda>_ _. None), group_members = (\<lambda>_ _. []), group_order = (\<lambda>_ _. [])\<rparr>"

interpretation sbe_tables: dict_laws SbeTables
  by unfold_locales (simp_all add: SbeTables_def)

definition Sbe_encoding :: "schema \<Rightarrow> (message_header, sbe_view, nat, sbe_template, sbe_error, sbe_error) encoding" where
  "Sbe_encoding S = \<lparr>
     ec_dict = SbeTables,
     ec_parse = (\<lambda>buf scratch v. sbe_parse S buf scratch),
     ec_view = sbe_view_over,
     ec_field = sbe_field S,
     ec_session_fields = (\<lambda>_. None),
     ec_encode = (\<lambda>t out slots. case sbe_encode t out slots of (Inl e, _) \<Rightarrow> Inl e | (Inr (from, to), out) \<Rightarrow> Inr (out, from, to))\<rparr>"

lemma encoding_parse [simp]:
  "ec_parse (TagValue D) buf idx v = parse_into D v buf idx" "ec_parse (Sbe_encoding S) buf sc v = sbe_parse S buf sc"
  by (simp_all add: TagValue_def Sbe_encoding_def)

subsection \<open>What a stream reader relies on\<close>

locale framing =
  fixes parse :: "bytes \<Rightarrow> 's \<Rightarrow> validation \<Rightarrow> ('e + parsed) \<times> 's"
  assumes decided: "fst (parse buf sc v) \<noteq> Inr Incomplete \<Longrightarrow> parse (buf @ rest) sc v = parse buf sc v"
    and in_buffer: "fst (parse buf sc v) = Inr (Complete n) \<Longrightarrow> 0 < n \<and> n \<le> length buf"
begin

text \<open>A complete message has no complete, and no malformed, proper prefix.\<close>

lemma prefix_incomplete:
  assumes "fst (parse buf sc v) = Inr (Complete n)" "k < n"
  shows "fst (parse (take k buf) sc v) = Inr Incomplete"
proof (rule ccontr)
  assume "\<not> ?thesis"
  from decided [OF this, of "drop k buf"] have "fst (parse (take k buf) sc v) = Inr (Complete n)" using assms(1) by simp
  from in_buffer [OF this] assms(2) show False by simp
qed

lemma self_delimiting:
  assumes "parse buf sc v = (Inr (Complete n), sc')"
  shows "0 < n \<and> n \<le> length buf \<and> (\<forall>rest. parse (buf @ rest) sc v = (Inr (Complete n), sc')) \<and>
    (\<forall>k < n. fst (parse (take k buf) sc v) = Inr Incomplete)"
  using decided [of buf sc v] in_buffer [of buf sc v n] prefix_incomplete [of buf sc v n] assms by simp

end

lemma parse_trailer_bound: "fst (parse_trailer v buf tr pos vs idx) = Inr (Complete n) \<Longrightarrow> 0 < n \<and> n \<le> length buf"
  by (auto simp: parse_trailer_def Let_def split: option.splits sum.splits if_splits dest!: find_soh_SomeD)

lemma parse_loop_bound: "fst (parse_loop D v buf tr pos idx) = Inr (Complete n) \<Longrightarrow> 0 < n \<and> n \<le> length buf"
proof (induction D v buf tr pos idx rule: parse_loop.induct)
  case (1 D v buf tr pos idx)
  from 1(2) obtain t vs where tv: "pos < length buf" "read_tag buf pos = Inr (Some (t, vs))"
    by (auto simp: parse_loop.simps [of D _ buf] split: if_splits sum.splits option.splits)
  show ?case
  proof (cases "t = 10")
    case True
    then show ?thesis using 1(2) tv by (simp add: parse_loop.simps [of D v buf] parse_trailer_bound)
  next
    case False
    from 1(2) tv False obtain k idx2 where k: "value_len D buf tr t vs idx = Inr (Some k)" "fi_push t vs k idx = Inr idx2"
      by (auto simp: parse_loop.simps [of D _ buf] split: sum.splits option.splits)
    then show ?thesis using 1(1) [OF _ tv(2) refl refl False k(1) refl k(2)] 1(2) tv False
      by (simp add: parse_loop.simps [of D _ buf tr pos])
  qed
qed

lemma expect_byte_not_complete: "expect_byte buf i c \<noteq> Some (Inr (Complete n))"
  by (auto simp: expect_byte_def split: option.splits)

lemma parse_body_length_bound: "fst (parse_body_length D v buf p idx) = Inr (Complete n) \<Longrightarrow> 0 < n \<and> n \<le> length buf"
  by (auto simp: parse_body_length_def Let_def expect_byte_not_complete split: option.splits sum.splits dest!: parse_loop_bound)

lemma parse_into_bound: "fst (parse_into D v buf idx) = Inr (Complete n) \<Longrightarrow> 0 < n \<and> n \<le> length buf"
  by (auto simp: parse_into_def Let_def expect_byte_not_complete split: option.splits sum.splits dest!: parse_body_length_bound)

interpretation tag_value: framing "ec_parse (TagValue D)"
  by unfold_locales (simp_all add: parse_into_append parse_into_bound)

lemma sbe_parse_in_buffer: "fst (sbe_parse S buf sc) = Inr (Complete n) \<Longrightarrow> 0 < n \<and> n \<le> length buf"
  by (cases "sbe_parse S buf sc") (auto dest: sbe_parse_bound)

interpretation sbe: framing "ec_parse (Sbe_encoding S)"
  by unfold_locales (simp_all add: sbe_parse_append sbe_parse_in_buffer)

text \<open>Where a FIX message ends does not depend on how its bytes arrive. When \<open>parse\<close> of the tag=value
  encoding reports a complete message of \<open>n\<close> bytes, under any dictionary and any choice of checks, the
  message lies inside the buffer, any bytes that follow leave the verdict and the index as they are, and
  every proper prefix is reported incomplete, never as malformed and never as a shorter message.\<close>

theorem tag_value_is_self_delimiting:
  assumes "ec_parse (TagValue D) buf idx v = (Inr (Complete n), idx')"
  shows "0 < n \<and> n \<le> length buf \<and> (\<forall>rest. ec_parse (TagValue D) (buf @ rest) idx v = (Inr (Complete n), idx')) \<and>
    (\<forall>k < n. fst (ec_parse (TagValue D) (take k buf) idx v) = Inr Incomplete)"
  by (rule tag_value.self_delimiting [OF assms])

theorem tag_value_is_self_delimiting_witness:
  "fst (ec_parse (TagValue NoDict) (take 41 (wire_frame (b ''FIX.4.4'') (wire_body sample_fields))) (FieldIndex_new 16) Validation_ALL) = Inr Incomplete"
proof -
  let ?f = "wire_frame (b ''FIX.4.4'') (wire_body sample_fields)"
  have "\<exists>idx. parse_into NoDict Validation_ALL (?f @ []) (FieldIndex_new 16) = (Inr (Complete (length ?f)), idx)"
    using parse_into_wire [OF sample_fields_ok, of "b ''FIX.4.4''" "FieldIndex_new 16" ?f "[]" Validation_ALL]
    by (simp add: sample_frame_length) (auto simp: b_def FieldIndex_new_def sample_fields_def)
  then obtain idx where "ec_parse (TagValue NoDict) ?f (FieldIndex_new 16) Validation_ALL = (Inr (Complete 42), idx)"
    by (auto simp: sample_frame_length)
  from tag_value_is_self_delimiting [OF this] show ?thesis by simp
qed

text \<open>Where a binary message ends does not depend on how its bytes arrive. When \<open>parse\<close> reports a
  complete message of \<open>n\<close> bytes, the message lies inside the buffer, every shorter piece of it is
  reported incomplete, and any bytes that follow leave the answer as it is.\<close>

theorem sbe_is_self_delimiting:
  assumes "ec_parse (Sbe_encoding S) buf sc v = (Inr (Complete n), h)"
  shows "0 < n \<and> n \<le> length buf \<and> (\<forall>rest. ec_parse (Sbe_encoding S) (buf @ rest) sc v = (Inr (Complete n), h)) \<and>
    (\<forall>k < n. fst (ec_parse (Sbe_encoding S) (take k buf) sc v) = Inr Incomplete)"
  by (rule sbe.self_delimiting [OF assms])

theorem sbe_is_self_delimiting_witness:
  "fst (ec_parse (Sbe_encoding sample_schema) (sample_bytes @ [8, 9]) \<lparr>mh_block_length = 0, mh_template_id = 0, mh_schema_id = 0, mh_version = 0\<rparr> Validation_NONE) = Inr (Complete 20) \<and>
   fst (ec_parse (Sbe_encoding sample_schema) (take 19 sample_bytes) \<lparr>mh_block_length = 0, mh_template_id = 0, mh_schema_id = 0, mh_version = 0\<rparr> Validation_NONE) = Inr Incomplete"
  using sbe_is_self_delimiting [OF trans [OF encoding_parse(2) sample_parse]] by simp

end
