(* ===== verification/Sbe_Roundtrip.thy ===== *)
theory Sbe_Roundtrip
  imports Sbe
begin

text \<open>
  What was written is read back. \<open>read_tail\<close> is a client of the reader that walks every group, entry and
  data field through the methods of \<open>Cursor\<close> and \<open>Group\<close>; over the bytes of \<open>wire_node\<close> it answers the
  content they were laid out from.
\<close>

subsection \<open>A reading client\<close>

datatype seen = Seen (sn_block: bytes) (sn_groups: "seen list list") (sn_vars: "bytes option list")

fun read_vars :: "var_data_layout list \<Rightarrow> cursor \<Rightarrow> sbe_error + bytes option list \<times> cursor" where
  "read_vars [] c = Inr ([], c)"
| "read_vars (v # vs) c = bindR (cr_var_data v c) (\<lambda>(d, c). bindR (read_vars vs c) (\<lambda>(ds, c). Inr (d # ds, c)))"

lemma next_entry_remaining: "next_entry g = (Inr (Some en), g') \<Longrightarrow> gr_remaining g' < gr_remaining g"
  unfolding next_entry_def by (rule next_entry_with_remaining)

function read_entries_with :: "(cursor \<Rightarrow> sbe_error + seen list list \<times> bytes option list \<times> cursor) \<Rightarrow> group \<Rightarrow> sbe_error + seen list \<times> cursor" where
  "read_entries_with rd g =
     (case next_entry g of
        (Inl e, _) \<Rightarrow> Inl e
      | (Inr None, g') \<Rightarrow> bindR (gr_finish g') (\<lambda>c. Inr ([], c))
      | (Inr (Some en), g') \<Rightarrow>
          bindR (rd (en_tail en)) (\<lambda>(ess, ds, _).
            bindR (read_entries_with rd g') (\<lambda>(es, c). Inr (Seen (bk_bytes (en_block en)) ess ds # es, c))))"
  by auto
termination by (relation "measure (\<lambda>(_, g). gr_remaining g)") (auto dest: next_entry_remaining [OF sym])

declare read_entries_with.simps [simp del]

function read_tail :: "group_layout list \<Rightarrow> var_data_layout list \<Rightarrow> cursor \<Rightarrow> sbe_error + seen list list \<times> bytes option list \<times> cursor" where
  "read_tail [] vs c = bindR (read_vars vs c) (\<lambda>(ds, c). Inr ([], ds, c))"
| "read_tail (l # ls) vs c =
     bindR (cr_group l c) (\<lambda>g.
     bindR (read_entries_with (\<lambda>c. read_tail (gl_groups l) (gl_var_data l) c) g) (\<lambda>(es, c).
     bindR (read_tail ls vs c) (\<lambda>(ess, ds, c). Inr (es # ess, ds, c))))"
  by pat_completeness auto
termination
  by (relation "measure (\<lambda>(ls, _, _). size_list size ls)") (use nested_smaller in \<open>auto simp: less_Suc_eq_le trans_le_add1 less_imp_le\<close>)

definition read_message :: "schema \<Rightarrow> bytes \<Rightarrow> sbe_error + seen" where
  "read_message S buf =
     bindR (SbeView_decode S buf) (\<lambda>view.
     bindR (vw_layout S view) (\<lambda>l.
     bindR (vw_root S view) (\<lambda>root.
     bindR (vw_tail S view) (\<lambda>c.
     bindR (read_tail (ml_groups l) (ml_var_data l) c) (\<lambda>(ess, ds, _). Inr (Seen (bk_bytes root) ess ds))))))"

text \<open>What a content looks like to a reader: groups and data that were never written are empty.\<close>

fun see_vars :: "var_data_layout list \<Rightarrow> bytes list \<Rightarrow> bytes option list" where
  "see_vars [] bss = []"
| "see_vars (v # vs) [] = Some [] # see_vars vs []"
| "see_vars (v # vs) (bs # bss) = Some bs # see_vars vs bss"

fun see_node :: "byte_order \<Rightarrow> field_layout list \<Rightarrow> nat \<Rightarrow> group_layout list \<Rightarrow> var_data_layout list \<Rightarrow> node \<Rightarrow> seen"
  and see_groups :: "byte_order \<Rightarrow> group_layout list \<Rightarrow> node list list \<Rightarrow> seen list list"
  and see_entries :: "byte_order \<Rightarrow> group_layout \<Rightarrow> node list \<Rightarrow> seen list" where
  "see_node o' fs len gs vs (Node ps nss bss) = Seen (block_image o' fs len ps) (see_groups o' gs nss) (see_vars vs bss)"
| "see_groups o' [] nss = []"
| "see_groups o' (g # gs) [] = [] # see_groups o' gs []"
| "see_groups o' (g # gs) (ns # nss) = see_entries o' g ns # see_groups o' gs nss"
| "see_entries o' g [] = []"
| "see_entries o' g (n # ns) = see_node o' (gl_fields g) (gl_block_length g) (gl_groups g) (gl_var_data g) n # see_entries o' g ns"

subsection \<open>Bytes ahead of a cursor\<close>

definition ahead :: "cursor \<Rightarrow> bytes \<Rightarrow> bool" where
  "ahead c xs \<longleftrightarrow> cr_pos c + length xs \<le> length (cr_buf c) \<and> take (length xs) (drop (cr_pos c) (cr_buf c)) = xs \<and> length (cr_buf c) \<le> U64_MAX"

definition adv :: "nat \<Rightarrow> cursor \<Rightarrow> cursor" where
  "adv n c = c\<lparr>cr_pos := cr_pos c + n\<rparr>"

lemma adv_simps [simp]:
  "cr_buf (adv n c) = cr_buf c" "cr_pos (adv n c) = cr_pos c + n" "cr_order (adv n c) = cr_order c" "cr_version (adv n c) = cr_version c"
  "adv 0 c = c" "adv n (adv m c) = adv (m + n) c"
  by (simp_all add: adv_def add.assoc)

lemma ahead_append: "ahead c (xs @ ys) \<longleftrightarrow> ahead c xs \<and> ahead (adv (length xs) c) ys"
  by (auto simp: ahead_def take_add add.commute add.left_commute)

lemma ahead_Nil: "ahead c [] \<longleftrightarrow> cr_pos c \<le> length (cr_buf c) \<and> length (cr_buf c) \<le> U64_MAX"
  by (auto simp: ahead_def)

lemma ahead_slice: "ahead c xs \<Longrightarrow> length xs = n \<Longrightarrow> wire_slice (cr_buf c) (cr_pos c) n = Inr xs"
  by (auto simp: ahead_def wire_slice_Inr)

lemma lt_max_pow: "lt_max t = 256 ^ lt_size t - 1"
  by (cases t) simp_all

lemma read_length_ahead:
  assumes "ahead c (wire_len (cr_order c) t v)" "lt_fits t v"
  shows "read_length (cr_buf c) (cr_pos c) t (cr_order c) = Inr v"
proof -
  have v: "v mod 256 ^ lt_size t = v" using assms(2) by (cases t) (simp_all add: lt_fits_def)
  have a: "cr_pos c + lt_size t \<le> length (cr_buf c)" "take (lt_size t) (drop (cr_pos c) (cr_buf c)) = to_order (cr_order c) (lt_size t) v" "length (cr_buf c) \<le> U64_MAX"
    using assms(1) by (simp_all add: ahead_def wire_len_def)
  show ?thesis
  proof (cases t)
    case U8
    then have "[cr_buf c ! cr_pos c] = [of_nat v]" using a by (simp add: take_Suc_conv_app_nth hd_drop_conv_nth take_Suc one_byte)
    then show ?thesis using U8 a v by (simp add: read_u8_def nth_opt_def unat_of_nat)
  next
    case U16
    then show ?thesis using a v by (simp add: read_uint_Inr)
  next
    case U32
    then show ?thesis using a v by (simp add: read_uint_Inr)
  qed
qed

lemma var_data_ahead:
  assumes "ahead c (wire_len (cr_order c) (vl_length v) (length bs) @ bs)" "lt_fits (vl_length v) (length bs)" "vl_since v \<le> cr_version c"
  shows "cr_var_data v c = Inr (Some bs, adv (lt_size (vl_length v) + length bs) c)"
proof -
  let ?k = "lt_size (vl_length v)"
  have a: "ahead c (wire_len (cr_order c) (vl_length v) (length bs))" "ahead (adv ?k c) bs" using assms(1) by (simp_all add: ahead_append)
  have "wire_slice (cr_buf c) (cr_pos c + ?k) (length bs) = Inr bs" using ahead_slice [OF a(2)] by simp
  moreover have "cr_pos c + ?k \<le> U64_MAX" using a(2) by (simp add: ahead_def)
  ultimately show ?thesis using read_length_ahead [OF a(1) assms(2)] assms(3) by (simp add: cr_var_data_def checked_add_def adv_def add.assoc)
qed

definition opened :: "group_layout \<Rightarrow> nat \<Rightarrow> cursor \<Rightarrow> group" where
  "opened g n c = \<lparr>gr_cur = c, gr_layout = g, gr_block_length = gl_block_length g, gr_count = n, gr_remaining = n, gr_tail_pending = False, gr_present = True\<rparr>"

lemma group_ahead:
  assumes "ahead c (wire_dim (cr_order c) g n)" "dim_ok g" "lt_fits (dm_num_in_group (gl_dimension g)) n" "gl_since g \<le> cr_version c"
  shows "cr_group g c = Inr (opened g n (adv (dm_size (gl_dimension g)) c))"
proof -
  let ?d = "gl_dimension g"
  have a: "ahead c (wire_len (cr_order c) (dm_block_length ?d) (gl_block_length g))"
      "ahead (adv (lt_size (dm_block_length ?d)) c) (wire_len (cr_order c) (dm_num_in_group ?d) n)"
    using assms(1) by (simp_all add: ahead_append wire_dim_def)
  have b: "cr_pos c + dm_size ?d \<le> U64_MAX" "cr_pos c + lt_size (dm_block_length ?d) \<le> U64_MAX" using a(2) by (simp_all add: ahead_def dm_size_def)
  show ?thesis using read_length_ahead [OF a(1)] read_length_ahead [of "adv (lt_size (dm_block_length ?d)) c" "dm_num_in_group ?d" n] a assms b
    by (simp add: cr_group_def Let_def checked_add_def dim_ok_def opened_def adv_def)
qed

subsection \<open>Reading a layout\<close>

fun in_version :: "nat \<Rightarrow> group_layout \<Rightarrow> bool" where
  "in_version v (GroupLayout i nm bl since d fs gs vs) \<longleftrightarrow> since \<le> v \<and> list_all (in_version v) gs \<and> list_all (\<lambda>l. vl_since l \<le> v) vs"

lemma in_version_def: "in_version v g \<longleftrightarrow> gl_since g \<le> v \<and> list_all (in_version v) (gl_groups g) \<and> list_all (\<lambda>l. vl_since l \<le> v) (gl_var_data g)"
  by (cases g) simp

lemma vars_read:
  assumes "ahead c (wire_vars (cr_order c) vs bss)" "vars_ok vs bss" "list_all (\<lambda>l. vl_since l \<le> cr_version c) vs"
  shows "read_vars vs c = Inr (see_vars vs bss, adv (length (wire_vars (cr_order c) vs bss)) c) \<and>
    foldR (\<lambda>v c. bindR (cr_var_data v c) (\<lambda>(_, c). Inr c)) vs c = Inr (adv (length (wire_vars (cr_order c) vs bss)) c)"
  using assms
proof (induction vs bss arbitrary: c rule: see_vars.induct)
  case (2 v vs)
  let ?c = "adv (lt_size (vl_length v)) c"
  have "cr_var_data v c = Inr (Some [], adv (lt_size (vl_length v) + length ([] :: bytes)) c)"
    using 2 by (intro var_data_ahead) (simp_all add: ahead_append lt_fits_def)
  moreover have "read_vars vs ?c = Inr (see_vars vs [], adv (length (wire_vars (cr_order ?c) vs [])) ?c) \<and>
      foldR (\<lambda>v c. bindR (cr_var_data v c) (\<lambda>(_, c). Inr c)) vs ?c = Inr (adv (length (wire_vars (cr_order ?c) vs [])) ?c)"
    using "2.prems" by (intro "2.IH") (simp_all add: ahead_append vars_ok_def)
  ultimately show ?case by simp
next
  case (3 v vs bs bss)
  let ?k = "lt_size (vl_length v) + length bs"
  have "cr_var_data v c = Inr (Some bs, adv ?k c)"
    using "3.prems" by (intro var_data_ahead) (simp_all add: ahead_append vars_ok_def)
  moreover have "read_vars vs (adv ?k c) = Inr (see_vars vs bss, adv (length (wire_vars (cr_order (adv ?k c)) vs bss)) (adv ?k c)) \<and>
      foldR (\<lambda>v c. bindR (cr_var_data v c) (\<lambda>(_, c). Inr c)) vs (adv ?k c) = Inr (adv (length (wire_vars (cr_order (adv ?k c)) vs bss)) (adv ?k c))"
    using "3.prems" by (intro "3.IH") (simp_all add: ahead_append vars_ok_def)
  ultimately show ?case by (simp add: add.assoc)
qed (simp_all add: vars_ok_def)

text \<open>Behind an entry: skipping its tail and reading it end at the same place.\<close>

definition tail_read :: "byte_order \<Rightarrow> group_layout list \<Rightarrow> node list list \<Rightarrow> bool" where
  "tail_read o' gs nss \<longleftrightarrow> (\<forall>vs bss c. let xs = wire_groups o' gs nss @ wire_vars o' vs bss in
     cr_order c = o' \<and> ahead c xs \<and> groups_ok o' gs nss \<and> vars_ok vs bss \<and> list_all dim_ok gs \<and> list_all (in_version (cr_version c)) gs \<and>
     list_all (\<lambda>l. vl_since l \<le> cr_version c) vs \<longrightarrow>
     skip_tail gs vs c = Inr (adv (length xs) c) \<and> read_tail gs vs c = Inr (see_groups o' gs nss, see_vars vs bss, adv (length xs) c))"

text \<open>A group in the middle of its entries: once what is pending is skipped, the rest of its entries is
  ahead.\<close>

definition midway :: "byte_order \<Rightarrow> group_layout \<Rightarrow> node list \<Rightarrow> group \<Rightarrow> cursor \<Rightarrow> bool" where
  "midway o' g ns gr c \<longleftrightarrow> skip_pending_with (gr_skip gr) gr = (Inr (), gr\<lparr>gr_cur := c, gr_tail_pending := False\<rparr>) \<and> gr_layout gr = g \<and>
     gr_block_length gr = gl_block_length g \<and> gr_remaining gr = length ns \<and> cr_version (gr_cur gr) = cr_version c \<and> cr_order c = o' \<and>
     ahead c (wire_entries o' g ns) \<and> entries_ok o' g ns \<and> in_version (cr_version c) g"

lemma no_tail_empty: "in_version (cr_version (gr_cur gr)) (gr_layout gr) \<Longrightarrow> \<not> gr_has_tail gr \<Longrightarrow> gl_groups (gr_layout gr) = [] \<and> gl_var_data (gr_layout gr) = []"
  by (cases "gl_groups (gr_layout gr)"; cases "gl_var_data (gr_layout gr)") (auto simp: in_version_def [of _ "gr_layout gr"] gr_has_tail_def Let_def in_version_def)

lemma midway_settled: "midway o' g ns gr c \<Longrightarrow> midway o' g ns (gr\<lparr>gr_cur := c, gr_tail_pending := False\<rparr>) c"
  by (simp add: midway_def skip_pending_with_def)

lemma midway_opened:
  assumes "ahead c (wire_entries o' g ns)" "cr_order c = o'" "entries_ok o' g ns" "in_version (cr_version c) g"
  shows "midway o' g ns (opened g (length ns) c) c"
  using assms by (simp add: midway_def opened_def skip_pending_with_def)

lemma midway_none:
  assumes "midway o' g [] gr c"
  shows "next_entry gr = (Inr None, gr\<lparr>gr_cur := c, gr_tail_pending := False\<rparr>)"
  using assms by (simp add: midway_def next_entry_def next_entry_with_def)

lemma midway_next:
  assumes "midway o' g (n # ns) gr c" "tail_read o' (gl_groups g) (nd_groups n)"
  defines "k \<equiv> length (wire_node o' (gl_fields g) (gl_block_length g) (gl_groups g) (gl_var_data g) n)"
  shows "\<exists>gr' en. next_entry gr = (Inr (Some en), gr') \<and> bk_bytes (en_block en) = block_image o' (gl_fields g) (gl_block_length g) (nd_puts n) \<and>
    en_tail en = adv (gl_block_length g) c \<and> midway o' g ns gr' (adv k c) \<and> gr_skip gr' = gr_skip gr"
proof -
  obtain ps nss bss where n: "n = Node ps nss bss" by (cases n)
  let ?bl = "gl_block_length g"
  let ?im = "block_image o' (gl_fields g) ?bl ps"
  let ?xs = "wire_groups o' (gl_groups g) nss @ wire_vars o' (gl_var_data g) bss"
  let ?g0 = "gr\<lparr>gr_cur := c, gr_tail_pending := False\<rparr>"
  have k: "k = ?bl + length ?xs" by (simp add: k_def n)
  have m: "skip_pending_with (gr_skip gr) gr = (Inr (), ?g0)" "gr_layout gr = g" "gr_block_length gr = ?bl" "gr_remaining gr = Suc (length ns)"
      "cr_version (gr_cur gr) = cr_version c" "cr_order c = o'" "in_version (cr_version c) g"
    using assms(1) by (simp_all add: midway_def)
  have a: "ahead c ?im" "ahead (adv ?bl c) ?xs" "ahead (adv k c) (wire_entries o' g ns)"
    using assms(1) by (simp_all add: midway_def n ahead_append k add.assoc)
  have ok: "groups_ok o' (gl_groups g) nss" "vars_ok (gl_var_data g) bss" "list_all dim_ok (gl_groups g)" "entries_ok o' g ns"
    using assms(1) by (simp_all add: midway_def n)
  have sl: "wire_slice (cr_buf c) (cr_pos c) ?bl = Inr ?im" by (rule ahead_slice [OF a(1)]) simp
  define gr1 where "gr1 = gr\<lparr>gr_remaining := length ns, gr_cur := adv ?bl c, gr_tail_pending := gr_has_tail (gr\<lparr>gr_cur := adv ?bl c\<rparr>)\<rparr>"
  have nxt: "next_entry gr = (Inr (Some \<lparr>en_block = \<lparr>bk_bytes = ?im, bk_order = o', bk_version = cr_version c\<rparr>, en_tail = adv ?bl c\<rparr>), gr1)"
    using m sl by (simp add: next_entry_def next_entry_with_def Let_def gr1_def gr_has_tail_def adv_def)
  have skip: "skip_tail (gl_groups g) (gl_var_data g) (adv ?bl c) = Inr (adv k c)"
    using assms(2) a(2) ok m(6,7) in_version_def [of "cr_version c" g] unfolding tail_read_def Let_def n
    by (elim allE [of _ "gl_var_data g"] allE [of _ bss] allE [of _ "adv ?bl c"]) (auto simp: k)
  have pend: "skip_pending_with (gr_skip gr1) gr1 = (Inr (), gr1\<lparr>gr_cur := adv k c, gr_tail_pending := False\<rparr>)"
  proof (cases "gr_tail_pending gr1")
    case True
    then show ?thesis using skip m(2) by (simp add: skip_pending_with_def gr_skip_def gr1_def)
  next
    case False
    then have "gl_groups g = [] \<and> gl_var_data g = []" using no_tail_empty [of "gr\<lparr>gr_cur := adv ?bl c\<rparr>"] m by (simp add: gr1_def)
    then have "k = ?bl" using ok by (simp add: k)
    then show ?thesis using False by (simp add: skip_pending_with_def gr1_def)
  qed
  have "midway o' g ns gr1 (adv k c)" using pend a(3) ok(4) m by (simp add: midway_def gr1_def)
  moreover have "gr_skip gr1 = gr_skip gr" by (simp add: gr_skip_def gr1_def fun_eq_iff)
  ultimately show ?thesis using nxt n by auto
qed

lemma midway_drain:
  "midway o' g ns gr c \<Longrightarrow> list_all (\<lambda>n. tail_read o' (gl_groups g) (nd_groups n)) ns \<Longrightarrow>
   \<exists>gr'. drain_entries_with (gr_skip gr) gr = Inr gr' \<and> gr_cur gr' = adv (length (wire_entries o' g ns)) c \<and> \<not> gr_tail_pending gr'"
proof (induction ns arbitrary: gr c)
  case Nil
  then show ?case using midway_none [OF Nil(1)] drain_simps(2) [of "gr_skip gr" gr] by (auto simp: next_entry_def)
next
  case (Cons n ns)
  let ?k = "length (wire_node o' (gl_fields g) (gl_block_length g) (gl_groups g) (gl_var_data g) n)"
  obtain gr' en where e: "next_entry gr = (Inr (Some en), gr')" "midway o' g ns gr' (adv ?k c)" "gr_skip gr' = gr_skip gr"
    using midway_next [OF Cons.prems(1)] Cons.prems(2) by auto
  show ?case using Cons.IH [OF e(2)] Cons.prems(2) e drain_simps(3) [of "gr_skip gr" gr en gr'] by (auto simp: next_entry_def)
qed

lemma midway_length: "entries_ok o' g ns \<Longrightarrow> gl_groups g = [] \<Longrightarrow> gl_var_data g = [] \<Longrightarrow> length (wire_entries o' g ns) = gl_block_length g * length ns"
proof (induction ns)
  case (Cons n ns)
  then show ?case by (cases n) simp
qed simp

lemma midway_finish:
  assumes "midway o' g ns gr c" "list_all (\<lambda>n. tail_read o' (gl_groups g) (nd_groups n)) ns"
  shows "gr_finish gr = Inr (adv (length (wire_entries o' g ns)) c)"
proof -
  let ?g0 = "gr\<lparr>gr_cur := c, gr_tail_pending := False\<rparr>" and ?k = "length (wire_entries o' g ns)"
  have m: "skip_pending_with (gr_skip gr) gr = (Inr (), ?g0)" "gr_layout gr = g" "gr_block_length gr = gl_block_length g" "gr_remaining gr = length ns"
      "ahead c (wire_entries o' g ns)" "in_version (cr_version c) g" "entries_ok o' g ns"
    using assms(1) by (simp_all add: midway_def)
  have s0: "gr_skip ?g0 = gr_skip gr" by (simp add: gr_skip_def fun_eq_iff)
  show ?thesis
  proof (cases "gr_has_tail ?g0")
    case True
    obtain gr' where "drain_entries_with (gr_skip gr) ?g0 = Inr gr'" "gr_cur gr' = adv ?k c" "\<not> gr_tail_pending gr'"
      using midway_drain [OF midway_settled [OF assms(1)] assms(2)] s0 by auto
    then show ?thesis using m(1) True by (simp add: gr_finish_def finish_with_def skip_pending_with_def)
  next
    case False
    then have "gl_groups g = [] \<and> gl_var_data g = []" using no_tail_empty [of ?g0] m by simp
    then have k: "gl_block_length g * length ns = ?k" using midway_length [OF m(7)] by simp
    have "?k \<le> U64_MAX" using m(5) by (simp add: ahead_def)
    then show ?thesis using m False ahead_slice [OF m(5) refl] by (simp add: gr_finish_def finish_with_def checked_mul_def k adv_def)
  qed
qed

lemma midway_read:
  "midway o' g ns gr c \<Longrightarrow> list_all (\<lambda>n. tail_read o' (gl_groups g) (nd_groups n)) ns \<Longrightarrow>
   read_entries_with (\<lambda>c. read_tail (gl_groups g) (gl_var_data g) c) gr = Inr (see_entries o' g ns, adv (length (wire_entries o' g ns)) c)"
proof (induction ns arbitrary: gr c)
  case Nil
  have "gr_finish (gr\<lparr>gr_cur := c, gr_tail_pending := False\<rparr>) = Inr c" using midway_finish [OF midway_settled [OF Nil(1)]] by simp
  then show ?case using midway_none [OF Nil(1)] by (simp add: read_entries_with.simps [of _ gr])
next
  case (Cons n ns)
  let ?k = "length (wire_node o' (gl_fields g) (gl_block_length g) (gl_groups g) (gl_var_data g) n)"
  obtain ps nss bss where n: "n = Node ps nss bss" by (cases n)
  let ?xs = "wire_groups o' (gl_groups g) nss @ wire_vars o' (gl_var_data g) bss"
  obtain gr' en where e: "next_entry gr = (Inr (Some en), gr')" "bk_bytes (en_block en) = block_image o' (gl_fields g) (gl_block_length g) ps"
      "en_tail en = adv (gl_block_length g) c" "midway o' g ns gr' (adv ?k c)"
    using midway_next [OF Cons.prems(1)] Cons.prems(2) n by auto
  have m: "ahead (adv (gl_block_length g) c) ?xs" "cr_order c = o'" "in_version (cr_version c) g" "node_ok o' (gl_fields g) (gl_block_length g) (gl_groups g) (gl_var_data g) n"
    using Cons.prems(1) by (simp_all add: midway_def n ahead_append)
  have tr: "tail_read o' (gl_groups g) nss" using Cons.prems(2) n by simp
  have rd: "read_tail (gl_groups g) (gl_var_data g) (en_tail en) = Inr (see_groups o' (gl_groups g) nss, see_vars (gl_var_data g) bss, adv (length ?xs) (en_tail en))"
    using tr m in_version_def [of "cr_version c" g] unfolding tail_read_def Let_def n e(3)
    by (elim allE [of _ "gl_var_data g"] allE [of _ bss] allE [of _ "adv (gl_block_length g) c"]) auto
  show ?case using Cons.IH [OF e(4)] Cons.prems(2) e rd n by (simp add: read_entries_with.simps [of _ gr])
qed

lemma group_read:
  assumes "ahead c (wire_dim o' g (length ns) @ wire_entries o' g ns)" "cr_order c = o'" "lt_fits (dm_num_in_group (gl_dimension g)) (length ns)"
    "entries_ok o' g ns" "dim_ok g" "in_version (cr_version c) g" "list_all (\<lambda>n. tail_read o' (gl_groups g) (nd_groups n)) ns"
  defines "k \<equiv> length (wire_dim o' g (length ns) @ wire_entries o' g ns)"
  shows "\<exists>gr. cr_group g c = Inr gr \<and> finish_with (\<lambda>c. skip_tail (gl_groups g) (gl_var_data g) c) gr = Inr (adv k c) \<and>
    read_entries_with (\<lambda>c. read_tail (gl_groups g) (gl_var_data g) c) gr = Inr (see_entries o' g ns, adv k c)"
proof -
  let ?c = "adv (dm_size (gl_dimension g)) c"
  let ?gr = "opened g (length ns) ?c"
  have a: "ahead c (wire_dim o' g (length ns))" "ahead ?c (wire_entries o' g ns)" using assms(1) by (simp_all add: ahead_append)
  have open_: "cr_group g c = Inr ?gr" using a(1) assms by (intro group_ahead) (simp_all add: in_version_def [of _ g])
  have mid: "midway o' g ns ?gr ?c" using a(2) assms by (intro midway_opened) simp_all
  have sk: "gr_skip ?gr = (\<lambda>c. skip_tail (gl_groups g) (gl_var_data g) c)" by (simp add: gr_skip_def opened_def fun_eq_iff)
  show ?thesis using open_ midway_finish [OF mid assms(7)] midway_read [OF mid assms(7)] sk by (simp add: gr_finish_def k_def)
qed

lemma tail_read_group:
  assumes "list_all (\<lambda>n. tail_read o' (gl_groups g) (nd_groups n)) ns" "tail_read o' gs nss"
    "wire_groups o' (g # gs) nss' = wire_dim o' g (length ns) @ wire_entries o' g ns @ wire_groups o' gs nss"
    "see_groups o' (g # gs) nss' = see_entries o' g ns # see_groups o' gs nss"
    "groups_ok o' (g # gs) nss' \<Longrightarrow> lt_fits (dm_num_in_group (gl_dimension g)) (length ns) \<and> entries_ok o' g ns \<and> groups_ok o' gs nss"
  shows "tail_read o' (g # gs) nss'"
  unfolding tail_read_def Let_def
proof (intro allI impI, elim conjE)
  fix vs bss and c :: cursor
  assume o': "cr_order c = o'" and a: "ahead c (wire_groups o' (g # gs) nss' @ wire_vars o' vs bss)" and ok: "groups_ok o' (g # gs) nss'" "vars_ok vs bss"
    "list_all dim_ok (g # gs)" and ver: "list_all (in_version (cr_version c)) (g # gs)" "list_all (\<lambda>l. vl_since l \<le> cr_version c) vs"
  let ?e = "wire_dim o' g (length ns) @ wire_entries o' g ns"
  let ?xs = "wire_groups o' gs nss @ wire_vars o' vs bss"
  have split: "wire_groups o' (g # gs) nss' @ wire_vars o' vs bss = ?e @ ?xs" using assms(3) by simp
  have a2: "ahead c ?e" "ahead (adv (length ?e) c) ?xs" using a unfolding split ahead_append by simp_all
  obtain gr where gr: "cr_group g c = Inr gr" "finish_with (\<lambda>c. skip_tail (gl_groups g) (gl_var_data g) c) gr = Inr (adv (length ?e) c)"
      "read_entries_with (\<lambda>c. read_tail (gl_groups g) (gl_var_data g) c) gr = Inr (see_entries o' g ns, adv (length ?e) c)"
    using group_read [OF a2(1) o' _ _ _ _ assms(1)] assms(5) [OF ok(1)] ok(3) ver(1) by auto
  have rest: "skip_tail gs vs (adv (length ?e) c) = Inr (adv (length ?xs) (adv (length ?e) c)) \<and>
      read_tail gs vs (adv (length ?e) c) = Inr (see_groups o' gs nss, see_vars vs bss, adv (length ?xs) (adv (length ?e) c))"
    using assms(2) a2(2) o' assms(5) [OF ok(1)] ok ver unfolding tail_read_def Let_def
    by (elim allE [of _ vs] allE [of _ bss] allE [of _ "adv (length ?e) c"]) auto
  have len: "length (?e @ ?xs) = length ?e + length ?xs" by simp
  show "skip_tail (g # gs) vs c = Inr (adv (length (wire_groups o' (g # gs) nss' @ wire_vars o' vs bss)) c) \<and>
    read_tail (g # gs) vs c = Inr (see_groups o' (g # gs) nss', see_vars vs bss, adv (length (wire_groups o' (g # gs) nss' @ wire_vars o' vs bss)) c)"
    unfolding split len using gr rest assms(4) by simp
qed

lemma all_tail_read:
  fixes fs :: "field_layout list" and len :: nat and vs :: "var_data_layout list"
  shows "tail_read o' gs (nd_groups n)" "tail_read o' gs nss" "list_all (\<lambda>n. tail_read o' (gl_groups g) (nd_groups n)) ns"
proof (induction o' fs len gs vs n and o' gs nss and o' g ns rule: wire_node_wire_groups_wire_entries.induct)
  case (1 o' fs len gs vs ps nss bss)
  then show ?case by simp
next
  case (2 o' nss)
  show ?case using vars_read by (auto simp: tail_read_def Let_def)
next
  case (3 o' g gs)
  then show ?case by (intro tail_read_group [where ns = "[]" and nss = "[]"]) (simp_all add: lt_fits_def)
next
  case (4 o' g gs ns nss)
  then show ?case by (intro tail_read_group [where ns = ns and nss = nss]) simp_all
next
  case (5 o' g)
  show ?case by simp
next
  case (6 o' g n ns)
  then show ?case by simp
qed

subsection \<open>The round trip\<close>

definition schema_ok :: "schema \<Rightarrow> message_layout \<Rightarrow> nat \<Rightarrow> bool" where
  "schema_ok S l tid \<longleftrightarrow> sm_message S tid = Some l \<and> header_ok (message_header_of S l tid) \<and>
     list_all (in_version (sm_version S)) (ml_groups l) \<and> list_all (\<lambda>v. vl_since v \<le> sm_version S) (ml_var_data l)"

lemma block_length_read: "header_decode buf o' = Inr h \<Longrightarrow> read_uint 2 buf 0 o' = Inr (mh_block_length h)"
  by (auto simp: header_decode_cases read_uint_Inr split: if_splits)

lemma view_steps:
  assumes "header_decode buf (sm_byte_order S) = Inr h" "8 + mh_block_length h \<le> length buf" "mh_block_length h \<le> U16_MAX"
  defines "c \<equiv> \<lparr>cr_buf = buf, cr_pos = 8 + mh_block_length h, cr_order = sm_byte_order S, cr_version = mh_version h\<rparr>"
  shows "SbeView_new buf (sm_byte_order S) = Inr (from_header buf h)" "vw_tail S (from_header buf h) = Inr c"
    "vw_root S (from_header buf h) = Inr \<lparr>bk_bytes = take (mh_block_length h) (drop 8 buf), bk_order = sm_byte_order S, bk_version = mh_version h\<rparr>"
proof -
  have sl: "wire_slice buf 8 (mh_block_length h) = Inr (take (mh_block_length h) (drop 8 buf))" using assms(2,3) by (simp add: wire_slice_Inr)
  have ru: "read_uint 2 buf 0 (sm_byte_order S) = Inr (mh_block_length h)" by (rule block_length_read [OF assms(1)])
  show "SbeView_new buf (sm_byte_order S) = Inr (from_header buf h)" using assms(1) sl by (simp add: SbeView_new_def from_header_def)
  show "vw_tail S (from_header buf h) = Inr c"
    using ru assms(3) by (simp add: vw_tail_def vw_root_end_def vw_block_length_def from_header_def checked_add_def c_def)
  show "vw_root S (from_header buf h) = Inr \<lparr>bk_bytes = take (mh_block_length h) (drop 8 buf), bk_order = sm_byte_order S, bk_version = mh_version h\<rparr>"
    using ru sl by (simp add: vw_root_def vw_block_length_def from_header_def)
qed

lemma read_wire:
  assumes "schema_ok S l tid" "message_ok S l n" "length (wire_message S l tid n @ rest) \<le> U64_MAX"
  shows "read_message S (wire_message S l tid n @ rest) = Inr (see_node (sm_byte_order S) (ml_fields l) (ml_block_length l) (ml_groups l) (ml_var_data l) n)"
    and "sbe_parse S (wire_message S l tid n @ rest) sc = (Inr (Complete (length (wire_message S l tid n))), message_header_of S l tid)"
proof -
  define o1 h buf where "o1 = sm_byte_order S" and "h = message_header_of S l tid" and "buf = wire_message S l tid n @ rest"
  obtain ps nss bss where n: "n = Node ps nss bss" by (cases n)
  define im where "im = block_image o1 (ml_fields l) (ml_block_length l) ps"
  define xs where "xs = wire_groups o1 (ml_groups l) nss @ wire_vars o1 (ml_var_data l) bss"
  have buf: "buf = header_bytes h o1 @ im @ xs @ rest" by (simp add: buf_def wire_message_def n o1_def h_def im_def xs_def)
  have wl: "length (wire_message S l tid n) = 8 + ml_block_length l + length xs" by (simp add: wire_message_def n xs_def o1_def)
  have il: "length im = ml_block_length l" by (simp add: im_def)
  have bl: "mh_block_length h = ml_block_length l" "mh_schema_id h = sm_id S" "mh_template_id h = tid" "mh_version h = sm_version S"
    by (simp_all add: message_header_of_def h_def)
  have sok: "sm_message S tid = Some l" "header_ok h" "list_all (in_version (sm_version S)) (ml_groups l)" "list_all (\<lambda>v. vl_since v \<le> sm_version S) (ml_var_data l)"
    using assms(1) by (simp_all add: schema_ok_def h_def)
  have hd: "header_decode buf o1 = Inr h" unfolding buf by (rule header_decode_bytes [OF sok(2)])
  have small: "mh_block_length h \<le> U16_MAX" using sok(2) by (simp add: header_ok_def)
  have len: "8 + mh_block_length h \<le> length buf" by (simp add: buf il bl)
  define c where "c = \<lparr>cr_buf = buf, cr_pos = 8 + mh_block_length h, cr_order = o1, cr_version = mh_version h\<rparr>"
  have c: "cr_buf c = buf" "cr_pos c = 8 + ml_block_length l" "cr_order c = o1" "cr_version c = sm_version S" by (simp_all add: c_def bl)
  have ah: "ahead c xs" using assms(3) by (simp add: ahead_def c buf il buf_def [symmetric])
  have ok: "groups_ok o1 (ml_groups l) nss" "vars_ok (ml_var_data l) bss" "list_all dim_ok (ml_groups l)"
    using assms(2) by (simp_all add: message_ok_def n o1_def)
  have rd: "skip_tail (ml_groups l) (ml_var_data l) c = Inr (adv (length xs) c) \<and>
      read_tail (ml_groups l) (ml_var_data l) c = Inr (see_groups o1 (ml_groups l) nss, see_vars (ml_var_data l) bss, adv (length xs) c)"
    using all_tail_read(2) [of o1 "ml_groups l" nss, unfolded tail_read_def Let_def, rule_format, of c "ml_var_data l" bss] ah ok sok(3,4)
    unfolding xs_def c(3) c(4) by blast
  have hd': "header_decode buf (sm_byte_order S) = Inr h" using hd by (simp add: o1_def)
  note v = view_steps [OF hd' len small, folded o1_def, folded c_def]
  have im: "take (mh_block_length h) (drop 8 buf) = im" by (simp add: buf il bl)
  have l8: "\<not> length buf < 8" using len by simp
  have "sbe_parse S buf sc = (Inr (Complete (cr_pos (adv (length xs) c))), h)"
    using hd l8 v rd by (simp add: sbe_parse_def bl sok(1) flip: o1_def)
  then show "sbe_parse S (wire_message S l tid n @ rest) sc = (Inr (Complete (length (wire_message S l tid n))), message_header_of S l tid)"
    by (simp add: wl c buf_def h_def)
  have "read_message S buf = Inr (Seen im (see_groups o1 (ml_groups l) nss) (see_vars (ml_var_data l) bss))"
    using v rd im by (simp add: read_message_def SbeView_decode_def vw_layout_def bl sok(1) from_header_def flip: o1_def)
  then show "read_message S (wire_message S l tid n @ rest) = Inr (see_node (sm_byte_order S) (ml_fields l) (ml_block_length l) (ml_groups l) (ml_var_data l) n)"
    by (simp add: buf_def n im_def o1_def)
qed

text \<open>A content of the small schema.\<close>

definition sample_node :: node where
  "sample_node = Node [(sample_uint 1 UInt16, 0, Some (VUInt 4660))] [[Node [(sample_uint 3 UInt8, 0, Some (VUInt 9))] [] [[65]]]] [[]]"

lemmas write_defs = fill_block_def bindS_def returnS_def null_field_def put_in_block_def write_element_def within_def slice_mut_def writeS_def
  write_in_field_def outside_def is_optional_def checked_add_def get_range_def ok_or_def nth_opt_def write_u8_def write_uint_def write_slice_def write_at_def

lemma sample_ok: "schema_ok sample_schema sample_layout 7" "message_ok sample_schema sample_layout sample_node"
  by (simp_all add: schema_ok_def message_ok_def sample_node_def sample_defs header_ok_def message_header_of_def in_version_def dim_ok_def vars_ok_def lt_fits_def
    write_defs)

lemma sample_length: "length (wire_message sample_schema sample_layout 7 sample_node) = 20"
  by (simp add: wire_message_def sample_node_def sample_defs wire_dim_def wire_len_def)

text \<open>C12: What the binary writer writes, the binary reader reads. For every schema whose tables hold the
  writer's and reader's rules and every content of a message that its layout can carry, writing the
  content through \<open>MessageWriter\<close>, \<open>GroupWriter\<close> and \<open>EntryWriter\<close> into a buffer that is large enough
  succeeds and reports a length; the bytes up to that length are one complete message to \<open>parse\<close>, whatever
  lies behind them, and walking it with \<open>SbeView\<close>, \<open>Cursor\<close> and \<open>Group\<close> gives the root block, every entry
  of every nested group and every data field that was written, and empty groups and data for the
  ones that were not.\<close>

theorem sbe_message_round_trip:
  assumes "schema_ok S l tid" "message_ok S l n" "length (wire_message S l tid n) \<le> length out" "length out \<le> U64_MAX"
  shows "\<exists>len out'. write_message S tid n out = (Inr len, out') \<and> len \<le> length out' \<and>
    sbe_parse S out' sc = (Inr (Complete len), message_header_of S l tid) \<and>
    read_message S out' = Inr (see_node (sm_byte_order S) (ml_fields l) (ml_block_length l) (ml_groups l) (ml_var_data l) n)"
proof -
  have "sm_message S tid = Some l" using assms(1) by (simp add: schema_ok_def)
  from write_message_wire [OF this assms(2-4)] obtain out' where w: "write_message S tid n out = (Inr (length (wire_message S l tid n)), out')"
      "take (length (wire_message S l tid n)) out' = wire_message S l tid n" "length out' = length out" by blast
  define rest where "rest = drop (length (wire_message S l tid n)) out'"
  have out': "out' = wire_message S l tid n @ rest" using w(2) by (metis append_take_drop_id rest_def)
  then have "length (wire_message S l tid n @ rest) \<le> U64_MAX" using w(3) assms(4) by simp
  from read_wire [OF assms(1,2) this] show ?thesis using w out' assms(3) by auto
qed

theorem sbe_message_round_trip_witness:
  "\<exists>len out. write_message sample_schema 7 sample_node (replicate 32 0) = (Inr len, out) \<and> len \<le> length out \<and>
    read_message sample_schema out = Inr (Seen [52, 18] [[Seen [9] [] [Some [65]]]] [Some []])"
proof -
  have seen: "see_node (sm_byte_order sample_schema) (ml_fields sample_layout) (ml_block_length sample_layout) (ml_groups sample_layout) (ml_var_data sample_layout) sample_node =
      Seen [52, 18] [[Seen [9] [] [Some [65]]]] [Some []]"
    by (simp add: sample_node_def sample_defs block_image_def write_defs put_back_def numeral_2_eq_2)
  show ?thesis
    using sbe_message_round_trip [OF sample_ok, of "replicate 32 0" "message_header_of sample_schema sample_layout 7"]
    unfolding seen sample_length by auto
qed

end
