(* ===== verification/Sbe_Value.thy ===== *)
theory Sbe_Value
  imports Sbe_View Sbe_Writer
begin

text \<open>
  Values in a block: what \<open>put_element\<close> writes, \<open>FieldRef::element\<close> reads, and nothing else changes.
\<close>

text \<open>The ranges of the Rust types behind a value, and what a value becomes in a field of a primitive
  type: a 32-bit float keeps what \<open>as f32\<close> keeps.\<close>

fun value_typed :: "sbe_value \<Rightarrow> bool" where
  "value_typed (VInt i) \<longleftrightarrow> - (2 ^ 63) \<le> i \<and> i < 2 ^ 63"
| "value_typed (VUInt u) \<longleftrightarrow> u \<le> U64_MAX"
| "value_typed (VFloat p) \<longleftrightarrow> p \<le> U64_MAX"
| "value_typed _ \<longleftrightarrow> True"

fun stored :: "primitive \<Rightarrow> sbe_value \<Rightarrow> sbe_value" where
  "stored Float (VFloat p) = VFloat (f32_to_f64 (f64_to_f32 p))"
| "stored _ v = v"

definition read_back :: "element \<Rightarrow> sbe_value \<Rightarrow> sbe_value option" where
  "read_back e v = (let w = if el_length e = 1 then stored (el_primitive e) v else v in
     case el_presence e of Optional n \<Rightarrow> if is_null w n then None else Some w | _ \<Rightarrow> Some w)"

lemma round_even_bound: "x < 2 ^ (k + n) \<Longrightarrow> round_even x k \<le> 2 ^ n"
proof -
  assume "x < 2 ^ (k + n)"
  then have "x div 2 ^ k < 2 ^ n" by (simp add: power_add less_mult_imp_div_less mult.commute)
  then show ?thesis by (auto simp: round_even_def Let_def)
qed

lemma f64_to_f32_bound: "p \<le> U64_MAX \<Longrightarrow> f64_to_f32 p < 2 ^ 32"
proof -
  assume "p \<le> U64_MAX"
  then have s: "p div 2 ^ 63 \<le> 1" by (simp add: less_mult_imp_div_less flip: less_Suc_eq_le)
  define e m where "e = p div 2 ^ 52 mod 2048" and "m = p mod 2 ^ 52"
  have m: "m < 2 ^ 52" by (simp add: m_def)
  have q: "quiet (m div 2 ^ 29) < 2 ^ 23" using m by (auto simp: quiet_def less_mult_imp_div_less)
  have r: "round_even (2 ^ 52 + m) (926 - e) \<le> 2 ^ 23" if "e < 897"
  proof (rule round_even_bound)
    have "(2 :: nat) ^ 53 \<le> 2 ^ (926 - e + 23)" using that by (intro power_increasing) simp_all
    then show "2 ^ 52 + m < 2 ^ (926 - e + 23)" using m by simp
  qed
  have "f64_to_f32 p \<le> p div 2 ^ 63 * 2 ^ 31 + (255 * 2 ^ 23 + 2 ^ 23 - 1)"
    unfolding f64_to_f32_def Let_def e_def [symmetric] m_def [symmetric] using q r by auto
  then show ?thesis using s by simp
qed

lemma read_back_uint:
  assumes "write_slice dst at (to_order o' n v) = Inr dst'"
  shows "read_uint n dst' at o' = Inr (v mod 256 ^ n)"
  using assms read_uint_at [of "take at dst" at n o' v "drop (at + n) dst"] by (auto simp: write_slice_Inr min_def)

lemma read_back_u8: "write_u8 dst at x = Inr dst' \<Longrightarrow> read_u8 dst' at = Inr x"
  by (auto simp: write_u8_def read_u8_def nth_opt_def split: if_splits)

lemma read_back_int:
  assumes "write_int n dst at i o' = Inr dst'" "0 < n" "- (2 ^ (8 * n - 1)) \<le> i" "i < 2 ^ (8 * n - 1)"
  shows "read_int n dst' at o' = Inr i"
  using read_back_uint [OF assms(1) [unfolded write_int_def]] as_signed_pattern [OF assms(2-4)] by (simp add: read_int_uint)

lemma signed_byte: "-128 \<le> i \<Longrightarrow> i \<le> 127 \<Longrightarrow> as_signed 1 (unat (of_int i :: byte)) = i"
proof -
  assume i: "-128 \<le> i" "i \<le> 127"
  have "unat (of_int i :: byte) = as_pattern 1 i" by (simp add: as_pattern_def unsigned_of_int take_bit_eq_mod)
  then show ?thesis using as_signed_pattern [of 1 i] i by simp
qed

lemma scalar_round_trip:
  assumes "write_scalar dst at p v o' = Inr dst'" "value_typed v"
  shows "read_scalar dst' at p o' = Inr (stored p v)"
  using assms
proof (cases "(dst, at, p, v, o')" rule: write_scalar.cases)
  case (10 dst at x o')
  then show ?thesis using assms read_back_uint [of dst at o' 4 "f64_to_f32 x" dst'] f64_to_f32_bound [of x]
    by (auto simp: write_uint_def split: if_splits)
qed (auto simp: write_uint_def unat_of_nat signed_byte signed_byte [simplified] split: if_splits
  dest!: read_back_u8 read_back_uint read_back_int)

text \<open>The bytes of an element.\<close>

lemma write_scalar_bytes:
  assumes "write_scalar dst at p v o' = Inr dst'"
  shows "at + prim_size p \<le> length dst \<and> length dst' = length dst \<and> (\<forall>j. j < at \<or> at + prim_size p \<le> j \<longrightarrow> dst' ! j = dst ! j)"
proof -
  have u8: "at + 1 \<le> length dst \<and> length dst' = length dst \<and> (\<forall>j. j < at \<or> at + 1 \<le> j \<longrightarrow> dst' ! j = dst ! j)" if "write_u8 dst at x = Inr dst'" for x
    using that by (auto simp: write_u8_def split: if_splits)
  have sl: "at + length xs \<le> length dst \<and> length dst' = length dst \<and> (\<forall>j. j < at \<or> at + length xs \<le> j \<longrightarrow> dst' ! j = dst ! j)"
    if "write_slice dst at xs = Inr dst'" for xs
    using that by (auto simp: write_slice_Inr nth_append)
  have ui: "at + n \<le> length dst \<and> length dst' = length dst \<and> (\<forall>j. j < at \<or> at + n \<le> j \<longrightarrow> dst' ! j = dst ! j)"
    if "write_slice dst at (to_order o1 n x) = Inr dst'" for n x o1
    using sl [OF that] by simp
  show ?thesis using assms
    by (cases "(dst, at, p, v, o')" rule: write_scalar.cases)
      (auto simp: write_uint_def write_int_def split: if_splits dest!: u8 ui)
qed

definition in_field :: "element \<Rightarrow> bytes \<Rightarrow> bytes \<Rightarrow> bool" where
  "in_field e field field' \<longleftrightarrow> length field' = length field \<and>
     (\<forall>j. j < el_offset e \<or> el_offset e + el_wire_len e \<le> j \<longrightarrow> field' ! j = field ! j)"

lemma within_Inr:
  assumes "within at len err f out = (Inr x, out')" "keeps_len f"
  obtains part' where "f (take len (drop at out)) = (Inr x, part')" "length part' = len" "at + len \<le> length out" "at + len \<le> U64_MAX" "out' = put_back out at part'"
proof (cases "slice_mut out at len")
  case (Inr part)
  obtain r part' where p: "f part = (r, part')" by fastforce
  have "length part' = length part" using assms(2) p by (metis keeps_len_def snd_conv)
  then show ?thesis using that [of part'] assms(1) Inr p by (auto simp: within_def slice_mut_Inr)
qed (use assms(1) in \<open>simp add: within_def\<close>)

lemma put_back_take: "at + length part \<le> length out \<Longrightarrow> take (length part) (drop at (put_back out at part)) = part"
  by (simp add: put_back_def)

lemma put_back_nth: "at + length part \<le> length out \<Longrightarrow> put_back out at part ! j = (if at \<le> j \<and> j < at + length part then part ! (j - at) else out ! j)"
  by (auto simp: put_back_def nth_append)

lemma write_in_field_round_trip:
  assumes "write_in_field e (Some v) o' field = Inr field'" "value_typed v" "\<And>w. el_presence e \<noteq> Constant w"
  shows "read_element field' e o' = Inr (read_back e v)"
    and "in_field e field field'"
proof -
  let ?v = "if el_length e = 1 then stored (el_primitive e) v else v"
  have raw: "(if el_length e = 1 then read_scalar field' (el_offset e) (el_primitive e) o'
      else bindR (wire_slice field' (el_offset e) (el_wire_len e)) (\<lambda>bs. Inr (VArray bs))) = Inr ?v"
  proof (cases "el_length e = 1")
    case True
    then show ?thesis using assms(1) scalar_round_trip [OF _ assms(2)] by (simp add: write_in_field_def Let_def)
  next
    case False
    then obtain bs where bs: "v = VArray bs" "length bs = el_wire_len e" "write_slice field (el_offset e) bs = Inr field'"
      using assms(1) by (cases v) (auto simp: write_in_field_def Let_def split: if_splits)
    then have "wire_slice field' (el_offset e) (el_wire_len e) = Inr bs" by (auto simp: write_slice_Inr wire_slice_Inr)
    then show ?thesis using False bs(1) by simp
  qed
  show "read_element field' e o' = Inr (read_back e v)"
    unfolding read_element_def raw read_back_def Let_def using assms(3) by (auto simp: outside_block_def split: presence.split)
  show "in_field e field field'"
  proof (cases "el_length e = 1")
    case True
    moreover have "el_wire_len e = prim_size (el_primitive e)" using True assms(3) by (auto simp: el_wire_len_def split: presence.splits)
    ultimately show ?thesis using assms(1) write_scalar_bytes [of field "el_offset e" "el_primitive e" v o' field']
      by (simp add: write_in_field_def Let_def in_field_def)
  next
    case False
    then obtain bs where bs: "v = VArray bs" "length bs = el_wire_len e" "write_slice field (el_offset e) bs = Inr field'"
      using assms(1) by (cases v) (auto simp: write_in_field_def Let_def split: if_splits)
    then show ?thesis by (auto simp: in_field_def write_slice_Inr nth_append)
  qed
qed

text \<open>A value that is put into a block is the value read from it. When \<open>put_element\<close> accepts a value for
  an element that is not a constant, reading that element of the block gives the value back (absent when
  it is the null of an optional element, and rounded to 32 bits in a field of type float), and every
  byte of the buffer outside the element is as it was.\<close>

theorem put_element_reads_back:
  assumes "ba_put_element \<lparr>ba_start = start, ba_len = len\<rparr> f i (Some v) o' out = (Inr (), out')" "nth_opt (fl_elements f) i = Some e"
    "\<forall>w. el_presence e \<noteq> Constant w" "value_typed v" "fl_since f \<le> version" "0 < fl_len f"
  shows "(\<exists>fr. bk_field f \<lparr>bk_bytes = take len (drop start out'), bk_order = o', bk_version = version\<rparr> = Inr (Some fr) \<and>
      fr_element i fr = Inr (read_back e v)) \<and>
    length out' = length out \<and>
    (\<forall>j. j < start + fl_offset f + el_offset e \<or> start + fl_offset f + el_offset e + el_wire_len e \<le> j \<longrightarrow> out' ! j = out ! j)"
proof -
  let ?W = "writeS (write_in_field e (Some v) o')"
  have nc: "el_presence e \<noteq> Constant w" for w using assms(3) by blast
  have kW: "keeps_len ?W" by (rule keeps_len_writeS) (rule write_in_field_len)
  have we: "write_element f e (Some v) o' = within (fl_offset f) (fl_len f) FieldOutsideBlock ?W"
    using assms(3) by (auto simp: write_element_def split: presence.split)
  have "within start len BufferTooSmall (write_element f e (Some v) o') out = (Inr (), out')"
    using assms(1,2) by (simp add: ba_put_element_def)
  then obtain part where p: "write_element f e (Some v) o' (take len (drop start out)) = (Inr (), part)" "length part = len" "start + len \<le> length out"
      "out' = put_back out start part"
    by (rule within_Inr) (rule keeps_len_write_element)
  let ?blk = "take len (drop start out)"
  have "within (fl_offset f) (fl_len f) FieldOutsideBlock ?W ?blk = (Inr (), part)" using p(1) we by simp
  then obtain field where q: "?W (take (fl_len f) (drop (fl_offset f) ?blk)) = (Inr (), field)" "length field = fl_len f" "fl_offset f + fl_len f \<le> length ?blk"
      "fl_offset f + fl_len f \<le> U64_MAX" "part = put_back ?blk (fl_offset f) field"
    by (rule within_Inr [OF _ kW])
  have wf: "write_in_field e (Some v) o' (take (fl_len f) (drop (fl_offset f) ?blk)) = Inr field"
    using q(1) by (simp add: writeS_def split: sum.splits)
  have blk: "take len (drop start out') = part" using put_back_take [of start part out] p by simp
  have fld: "wire_slice part (fl_offset f) (fl_len f) = Inr field"
    using put_back_take [of "fl_offset f" field ?blk] q p(2) by (simp add: wire_slice_Inr)
  have "out' ! j = out ! j" if j: "j < start + fl_offset f + el_offset e \<or> start + fl_offset f + el_offset e + el_wire_len e \<le> j" for j
  proof -
    have inf: "field ! k = take (fl_len f) (drop (fl_offset f) ?blk) ! k" if "k < el_offset e \<or> el_offset e + el_wire_len e \<le> k" for k
      using write_in_field_round_trip(2) [OF wf assms(4) nc] that unfolding in_field_def by blast
    have "part ! k = ?blk ! k" if k: "j = start + k" for k
    proof (cases "fl_offset f \<le> k \<and> k < fl_offset f + fl_len f")
      case True
      then obtain i' where i': "k = fl_offset f + i'" "i' < fl_len f" using le_Suc_ex by auto
      then have "field ! i' = take (fl_len f) (drop (fl_offset f) ?blk) ! i'" using j k by (intro inf) auto
      moreover have "take (fl_len f) (drop (fl_offset f) ?blk) ! i' = ?blk ! k" using i' q(3) by (subst nth_take) (auto simp: nth_drop)
      ultimately show ?thesis using q(2,3) i' by (simp add: q(5) put_back_nth)
    next
      case False
      then show ?thesis using q(2,3) by (auto simp: q(5) put_back_nth)
    qed
    then have "part ! (j - start) = ?blk ! (j - start)" if "start \<le> j" using that by simp
    then show ?thesis using p(2,3) by (auto simp: p(4) put_back_nth)
  qed
  moreover have "length out' = length out" using p by (simp add: length_put_back)
  moreover have "bk_field f \<lparr>bk_bytes = take len (drop start out'), bk_order = o', bk_version = version\<rparr> =
      Inr (Some \<lparr>fr_data = field, fr_layout = f, fr_order = o'\<rparr>)"
    using fld assms(5,6) by (simp add: bk_field_def blk outside_block_def)
  moreover have "fr_element i \<lparr>fr_data = field, fr_layout = f, fr_order = o'\<rparr> =
      Inr (read_back e v)"
    using write_in_field_round_trip(1) [OF wf assms(4) nc] assms(2) by (simp add: fr_element_def)
  ultimately show ?thesis by blast
qed

definition put_element_sample :: element where
  "put_element_sample = \<lparr>el_name = [], el_offset = 2, el_primitive = Int32, el_length = 1, el_presence = Optional (VInt (-2147483648))\<rparr>"

definition put_field_sample :: field_layout where
  "put_field_sample = \<lparr>fl_id = 44, fl_name = ''Price'', fl_offset = 1, fl_len = 6, fl_since = 0, fl_elements = [put_element_sample]\<rparr>"

lemmas put_sample_defs = put_element_sample_def put_field_sample_def

lemma sample_put: "\<exists>out. ba_put_element \<lparr>ba_start = 8, ba_len = 10\<rparr> put_field_sample 0 (Some (VInt (-2))) Little (replicate 20 0) = (Inr (), out)"
  by (simp add: ba_put_element_def put_sample_defs nth_opt_def within_def slice_mut_def checked_add_def get_range_def write_element_def writeS_def
      write_in_field_def outside_def write_int_def write_slice_def write_at_def)

theorem put_element_reads_back_witness:
  "\<exists>out fr. ba_put_element \<lparr>ba_start = 8, ba_len = 10\<rparr> put_field_sample 0 (Some (VInt (-2))) Little (replicate 20 0) = (Inr (), out) \<and>
    bk_field put_field_sample \<lparr>bk_bytes = take 10 (drop 8 out), bk_order = Little, bk_version = 0\<rparr> = Inr (Some fr) \<and>
    fr_element 0 fr = Inr (Some (VInt (-2)))"
proof -
  have e: "nth_opt (fl_elements put_field_sample) 0 = Some put_element_sample" by (simp add: put_sample_defs nth_opt_def)
  obtain out where o': "ba_put_element \<lparr>ba_start = 8, ba_len = 10\<rparr> put_field_sample 0 (Some (VInt (-2))) Little (replicate 20 0) = (Inr (), out)"
    using sample_put by blast
  show ?thesis using put_element_reads_back [OF o' e, of 0] o' by (auto simp: put_sample_defs read_back_def)
qed

end
