(* ===== verification/Spec2Isabelle.thy ===== *)
theory Spec2Isabelle
  imports Parse_Correct Decimal Clock Template_Correct Schedule Session_Text Field_Type Group Validate Resend Journal Session_Rules
    Frame Redact Reconnect Dispatch Origin Conn Recovery Settings_Correct Facade File_Reader File_Writer Encoding Sbe_Roundtrip Sbe_Value
begin

text \<open>
  A verification of \<^emph>\<open>fixbolt\<close>, a FIX protocol engine written in Rust.

  \<^bold>\<open>The program.\<close> Bytes arrive at a connection (\<open>crates/engine/src/conn.rs\<close>), a framer cuts them into
  messages (\<open>frame.rs\<close>), the session state machine judges each one (\<open>crates/session/src/lib.rs\<close>) and
  answers by encoding templates (\<open>crates/codec/src/template.rs\<close>), keeping what it sends in a journal
  (\<open>crates/engine/src/journal.rs\<close>) so that it can be sent again. The codec (\<open>crates/codec\<close>) parses
  tag=value frames into an index over the received bytes, reads and writes numbers, decimals and
  timestamps, and walks repeating groups; the dictionary (\<open>crates/dict\<close>) says which tags, types and
  groups a message may have. Record rings (\<open>ring.rs\<close>) carry messages between the engine thread and
  the application thread.

  \<^bold>\<open>Conventions.\<close> A byte is an 8-bit word. A \<open>u32\<close>, \<open>u64\<close> or \<open>usize\<close> is a natural number with the wrap,
  the check or the saturation of the source written out at the operation that has it (\<open>wrap32\<close>,
  \<open>checked_add\<close>, \<open>saturating_add64\<close>), except in \<open>Ring\<close>, where positions are 64-bit words because they
  are meant to wrap. Arithmetic is that of a release build. A \<open>Result\<close> is a sum with the error on the
  left, an \<open>Option\<close> an option, a slice a list of bytes, an output buffer a list of bytes written in
  place. A trait is a record of functions: \<open>dictionary\<close>, \<open>tables\<close>, \<open>journal\<close>, \<open>encoding\<close>, the application.
  A generated dictionary, a generated schema and the application are parameters everywhere.

  \<^bold>\<open>Codec.\<close> \<open>Checksum\<close>, \<open>Dict\<close>, \<open>Index\<close> and \<open>Parse\<close> follow the files of the same name; \<open>Parse_Correct\<close> shows that
  a frame laid out on the wire is parsed to exactly its fields, that a frame that is accepted has the
  length and the checksum it declares and only entries inside its bytes, and that a decision does not
  change when more bytes arrive. \<open>Decimal\<close>, \<open>Timestamp\<close> and \<open>Clock\<close> read and write values, with round trips
  and the transparency of the minute cache. \<open>Template\<close> is the builder and the encoder;
  \<open>Template_Correct\<close> shows that its sort is a stable sort, that what it writes is the frame of the
  sorted fields, and that the parser reads it back. \<open>Group\<close> opens and iterates repeating groups, and
  \<open>Field_Type\<close> is the value format of every data type. \<open>Encoding\<close> is the trait a session is generic in, with
  what a reader of a stream relies on as the locale \<open>framing\<close>; tag=value and the binary encoding both
  give it, so in either one a message ends at the same byte however its bytes arrive.

  \<^bold>\<open>Binary encoding.\<close> \<open>crates/sbe/src\<close> reads and writes messages by layout tables. \<open>Sbe_Wire\<close> has the integers
  and floats (as IEEE 754 patterns), the header and the tables; \<open>Sbe_View\<close> the reading side (views,
  blocks, groups, variable-length data), \<open>Sbe_Encode\<close> the writers and the flat template. \<open>Sbe_Writer\<close> shows
  which bytes a client that fills a message leaves in the buffer, \<open>Sbe_Roundtrip\<close> that a client that
  walks them reads every block, entry and data field back, \<open>Sbe_Value\<close> that a value put into a block is
  the value read from it, and \<open>Sbe\<close> that a walk visits no more entries than the message has bytes.

  \<^bold>\<open>Session.\<close> \<open>Session_Text\<close>, \<open>Schedule\<close>, \<open>Validate\<close>, \<open>Resend\<close>, \<open>Journal\<close> and \<open>Config\<close> are its parts. \<open>Session\<close> holds
  its record and its operations (sending, queueing, replay, timers), and \<open>Judge\<close> the inbound path
  \<open>received_with\<close>, in the pieces of \<open>judge\<close>. \<open>Session_Inv\<close> gives the entry points as a step relation and
  proves one invariant of every reachable session: a full queue stays within its four slots and their
  size, every counter and both ends of an owed replay stay within 32 bits, the cached timestamp text is
  that of its minute, and the link is reported closed exactly when the state is. \<open>Session_Send\<close> shows what one send writes and which number it takes.
  \<open>Replay_Plan\<close> specifies a replay as a list of items, kept messages and gap fills that tile the
  requested range, and shows that the budgeted calls of \<open>continue_replay\<close> emit exactly that list and
  that enough calls finish it. \<open>Session_Rules\<close> are the inbound rules: silence before the Logon, delivery in
  sequence, the end of a session on a number that is too low and on silence, what a replay does that outlives
  its connection, and how a Resend Request moves the inbound count.

  \<^bold>\<open>Engine.\<close> \<open>Frame\<close> is the framer with the cutting loop of a connection: however the bytes of valid
  messages are split into reads, the same messages come out, and the buffer is never left full
  (\<open>fr_pump\<close>, the loop of a connection that nothing makes leave early; \<open>Conn\<close> has the loop with its
  exits, and shows that what a connection hands to its session is a prefix of what this loop cuts, all of it
  unless the loop left).
  \<open>Redact\<close> finds the secrets of a message before it is logged. \<open>Reconnect\<close> is the backoff of an
  initiator. \<open>Journal\<close> has the in-memory ring of kept messages, as an instance of the locale of what a
  session needs of a journal. \<open>Ring\<close> is the record queue between two threads: its operations refine a
  queue of records, and a step relation at the granularity of single loads and stores shows that no
  interleaving of one producer and one consumer tears, loses or reorders a record. The memory is
  sequentially consistent there: the release and acquire pairs on the two positions order the byte
  accesses they guard. \<open>Dispatch\<close> hands messages over such rings to an application thread and collects its
  answers, as a refinement of two queues; \<open>Origin\<close> is the queue of messages an application originates
  and the backpressure policy. \<open>Presession\<close> owns a socket until its Logon names a session: what it
  settles is a Logon of a session that is served. \<open>Conn\<close> is the connection: the queue of bytes the
  socket has not taken, the turn that reads, judges and writes, and the ways it ends; a step
  relation over all its operations shows that the bytes handed to the socket are whole messages in
  order as long as the queue is not thrown away, and that a turn that does not block returns.
  \<open>Recovery\<close> resumes a session from its journal with numbers that were not spent.

  \<^bold>\<open>The journal on disk.\<close> \<open>File_Journal\<close> is the journal that survives a restart: the record format with its
  checksum, the loading of a file, and the operations in both modes, as another instance of the
  locale \<open>marked_journal\<close>. A file is its bytes, a crash keeps a prefix of them, and the disk takes every
  write (the path on which an append fails is not modelled). It shows that a restart of a journal
  opened on an untorn file gives back what the running journal had and that a crash loses at most the
  operation it interrupts. \<open>File_Reader\<close> shows that the reader of a tool and the recovery see the same records, that the
  checksum notices every changed byte outside a length field, and that what is written behind a torn
  record is lost. \<open>File_Writer\<close> is the writer thread of the asynchronous mode with the ticket that retires
  it: a step relation over the two threads shows that the file always holds a prefix of the accepted
  records in order, and that a retired writer ends with all of them. The theorem at the end of this
  theory composes the journal with the recovery: a session restarted after a crash spends no number
  twice, unless its journal was opened on a torn file.

  \<^bold>\<open>The configuration file.\<close> \<open>Settings\<close> is the whole of \<open>crates/engine/src/settings.rs\<close>: the lines and sections of a
  file, the blocks they fill, every value with its refusals, the schedules, the TLS keys and the four doors
  by which a file becomes an acceptor or an initiator. \<open>Settings_Correct\<close> shows what every configuration
  of an accepted file satisfies, that exactly one door takes it and never a plaintext one when it asks
  for TLS, that what is written is what is read, that integers and times of day have one spelling, and
  that a session which differs from an earlier one in its \<open>BeginString\<close> alone is never served.

  \<^bold>\<open>The application's side.\<close> \<open>Facade\<close> is \<open>crates/library\<close>: the reply a handler fills, the adapter that parses a
  message, calls the handler and hands the session its answer. It shows that a reply carries the
  number, the stamp and the reversed CompIDs of the session exactly once, whatever fields, DATA
  fields and groups the handler adds, as long as its group entries and DATA declarations do not
  carry those tags (nothing in the library checks these), and that the tag \<open>369\<close> is not protected
  in this way.

  \<^bold>\<open>Bounds and fuel.\<close> No definition runs on fuel chosen for a proof. Loops are structural recursion or
  \<open>function\<close> with a measure; the nesting depth of groups (\<open>MAX_DEPTH\<close>) and the budget of a replay are
  the bounds of the source. \<open>replay_finishes\<close> states how many calls are enough.

  \<^bold>\<open>Not modelled.\<close> Sockets, TLS, polling, thread placement and files (I/O); the observation counters,
  the metrics exporter and the message log (output only); the generated dictionary tables and both
  code generators (run at build time); the database journal (a library call per operation, whose
  contract is the journal locale). Left for later: the loop of the engine over its connections
  (\<open>lib.rs\<close>, \<open>shard.rs\<close>).
\<close>

lemma spent_is_covered:
  assumes "MarkOut seq \<in> set ps \<or> (\<exists>h. mj_highest_out (fj_mem j) = Some h \<and> seq \<le> h)"
  shows "\<exists>h. mj_highest_out (fj_mem (fold (fj_op N LEN) ps j)) = Some h \<and> seq \<le> h"
proof (cases "MarkOut seq \<in> set ps")
  case True
  then show ?thesis using file_journal.highest_out_covers [of seq ps N LEN j] by (simp add: FileJournal_def)
next
  case False
  then obtain h where "mj_highest_out (fj_mem j) = Some h" "seq \<le> h" using assms by blast
  then show ?thesis using file_journal.highest_out_mono [of N LEN j h ps] by (fastforce simp: FileJournal_def)
qed

text \<open>C18: A session restarted after a crash spends no number twice, if its journal was opened on a file in
  which nothing is torn. Open such a file in the mode that syncs every write, on a disk that takes every
  write, do any operations, and cut the file anywhere in the bytes of the last one: the session
  that resumes from what is left starts above every outbound number below the largest that those operations
  marked as spent before the last, and above every number the opened file already covered. (A file that
  was opened torn promises less: what is appended behind the tear is lost.)\<close>

theorem crash_restart_spends_fresh_numbers:
  assumes "fj_torn (FileJournal_open N LEN Fsync bs) = 0" "list_all op_ok ps" "op_ok p"
    and "MarkOut seq \<in> set ps \<or> (\<exists>h. mj_highest_out (fj_mem (FileJournal_open N LEN Fsync bs)) = Some h \<and> seq \<le> h)"
    and "seq < U32_MAX" "length (fj_disk (fsync_from N LEN bs ps)) \<le> k"
  shows "\<exists>r. Resumed_from_journal (FileJournal N LEN) (FileJournal_open N LEN how (take k (fj_disk (fsync_from N LEN bs (ps @ [p]))))) = Some r \<and>
    seq < s_next_out (Session_resume e cfg (rs_next_out r) (rs_next_in r))"
proof -
  let ?j' = "FileJournal_open N LEN how (take k (fj_disk (fsync_from N LEN bs (ps @ [p]))))"
  obtain hdr rs where "fsync_clean N LEN (fsync_from N LEN bs ps) hdr rs" using fsync_from_clean [OF assms(1,2)] by blast
  from crash_clean [OF this assms(3,6), of how]
  consider "mj_highest_out (fj_mem ?j') = mj_highest_out (fj_mem (fsync_from N LEN bs ps))"
    | "mj_highest_out (fj_mem ?j') = mj_highest_out (fj_mem (fsync_from N LEN bs (ps @ [p])))" by (auto simp: Let_def)
  then have "\<exists>h. mj_highest_out (fj_mem ?j') = Some h \<and> seq \<le> h"
  proof cases
    case 1
    then show ?thesis using spent_is_covered [OF assms(4), of N LEN] by simp
  next
    case 2
    have "MarkOut seq \<in> set (ps @ [p]) \<or> (\<exists>h. mj_highest_out (fj_mem (FileJournal_open N LEN Fsync bs)) = Some h \<and> seq \<le> h)"
      using assms(4) by auto
    from spent_is_covered [OF this, of N LEN] 2 show ?thesis by simp
  qed
  then obtain h where h: "j_highest_out (FileJournal N LEN) ?j' = Some h" "seq \<le> h" by (auto simp: FileJournal_def)
  then show ?thesis using next_after_above [OF h assms(5)] by (simp add: Resumed_from_journal_def Let_def Session_resume_def)
qed

theorem crash_restart_spends_fresh_numbers_witness:
  "\<exists>r. Resumed_from_journal (FileJournal 4 64) (FileJournal_open 4 64 Async (take 53 (fj_disk (fsync_after 4 64 (sample_ops @ [sample_put]))))) = Some r \<and>
    7 < rs_next_out r"
  using crash_restart_spends_fresh_numbers [OF new_file sample_ops_ok, of 7 4 64 53 Async] sample_disk
  by (simp add: sample_ops_def Session_resume_def)

end
